(* ===== verification/Prelude.thy ===== *)
theory Prelude
  imports Main "HOL-Library.Word"
begin

unbundle bit_operations_syntax

text \<open>
  Shared vocabulary of the development: the machine integers of the Rust sources as words, the
  result type of fallible code, a small state-and-error monad for code that threads a mutable
  state through \<open>?\<close>-style early returns, the byte encodings of integers
  (\<open>to_be_bytes\<close>, \<open>from_le_bytes\<close> and their kin), fixed-width chunking, and the generic
  lemmas on lists and words that the component theories use.

  Integers are words of the source's width; the VM is built with the release profile (overflow
  checks off), so \<open>+\<close>, \<open>-\<close> and \<open>*\<close> on \<open>u32\<close> wrap, exactly as they do on \<^typ>\<open>32 word\<close>.
  An \<open>i32\<close> is kept as its bit pattern, a \<^typ>\<open>32 word\<close>: \<open>x as u32\<close> is then the identity, a
  signed comparison goes through \<^const>\<open>sint\<close> and \<open>>>\<close> on \<open>i32\<close> is \<^const>\<open>signed_drop_bit\<close>.
  A \<open>usize\<close> that counts bytes or slots is a \<^typ>\<open>nat\<close>.
\<close>

section \<open>Types\<close>

type_synonym u8 = "8 word"
type_synonym u16 = "16 word"
type_synonym u32 = "32 word"
type_synonym i32 = "32 word"
type_synonym u64 = "64 word"
type_synonym bytes = "8 word list"

type_synonym ('e, 'a) result = "'e + 'a"

abbreviation Err :: "'e \<Rightarrow> ('e, 'a) result" where
  "Err \<equiv> Inl"

abbreviation Ok :: "'a \<Rightarrow> ('e, 'a) result" where
  "Ok \<equiv> Inr"

text \<open>The \<open>?\<close> operator and \<open>map_err\<close> on results without a state.\<close>

definition bindR :: "('e, 'a) result \<Rightarrow> ('a \<Rightarrow> ('e, 'b) result) \<Rightarrow> ('e, 'b) result" where
  "bindR r f = (case r of Inl e \<Rightarrow> Err e | Inr a \<Rightarrow> f a)"

definition map_err :: "('e \<Rightarrow> 'f) \<Rightarrow> ('e, 'a) result \<Rightarrow> ('f, 'a) result" where
  "map_err g r = (case r of Inl e \<Rightarrow> Err (g e) | Inr a \<Rightarrow> Ok a)"

lemma bindR_simps [simp]: "bindR (Ok a) f = f a" "bindR (Err e) f = Err e"
  by (simp_all add: bindR_def)

lemma bindR_Ok_iff: "bindR r f = Ok b \<longleftrightarrow> (\<exists>a. r = Ok a \<and> f a = Ok b)"
  by (cases r) auto

lemma map_err_simps [simp]: "map_err g (Ok a) = Ok a" "map_err g (Err e) = Err (g e)"
  by (simp_all add: map_err_def)

lemma map_err_Ok_iff [simp]: "map_err g r = Ok a \<longleftrightarrow> r = Ok a"
  by (cases r) auto

text \<open>
  A computation that reads and writes a state and may return early with an error. The state is
  returned in both cases: an early return does not undo the writes made before it.
\<close>

type_synonym ('s, 'e, 'a) stm = "'s \<Rightarrow> 's \<times> ('e, 'a) result"

definition returnS :: "'a \<Rightarrow> ('s, 'e, 'a) stm" where
  "returnS a s = (s, Ok a)"

definition throwS :: "'e \<Rightarrow> ('s, 'e, 'a) stm" where
  "throwS e s = (s, Err e)"

definition bindS :: "('s, 'e, 'a) stm \<Rightarrow> ('a \<Rightarrow> ('s, 'e, 'b) stm) \<Rightarrow> ('s, 'e, 'b) stm" where
  "bindS m f s = (case m s of (s', Inl e) \<Rightarrow> (s', Err e) | (s', Inr a) \<Rightarrow> f a s')"

named_theorems stm_simps \<open>evaluation of the state-and-error monad\<close>
named_theorems wire_simps \<open>unfolding rules of the message codecs\<close>

lemma returnS_apply [simp, stm_simps]: "returnS a s = (s, Ok a)"
  by (simp add: returnS_def)

lemma throwS_apply [simp, stm_simps]: "throwS e s = (s, Err e)"
  by (simp add: throwS_def)

lemma bindS_Ok_iff [stm_simps]:
  "bindS m f s = (s'', Ok b) \<longleftrightarrow> (\<exists>s' a. m s = (s', Ok a) \<and> f a s' = (s'', Ok b))"
  by (auto simp: bindS_def split: prod.splits sum.splits)

lemma bindS_Ok: "m s = (s', Ok a) \<Longrightarrow> bindS m f s = f a s'"
  by (simp add: bindS_def)

lemma bindS_Err: "m s = (s', Err e) \<Longrightarrow> bindS m f s = (s', Err e)"
  by (simp add: bindS_def)

text \<open>
  Simulation between two such computations: whenever the first returns a value, so does the second,
  the same value, and the final states are related again; and whenever the first fails with an error
  in \<open>obs\<close>, the second fails with the same error, in a related state. \<open>ok\<close> is a condition on the first
  run that is looked at once, in its final state; it must not hold later without having held earlier.
\<close>

definition simS ::
  "('e \<Rightarrow> bool) \<Rightarrow> ('s \<Rightarrow> 't \<Rightarrow> bool) \<Rightarrow> ('s \<Rightarrow> bool) \<Rightarrow> ('s, 'e, 'a) stm \<Rightarrow> ('t, 'e, 'a) stm \<Rightarrow> bool" where
  "simS obs R ok m m' \<longleftrightarrow>
     (\<forall>s s' r. m s = (s', r) \<longrightarrow> ok s' \<longrightarrow> ok s) \<and>
     (\<forall>s t s' v. R s t \<longrightarrow> m s = (s', Ok v) \<longrightarrow> ok s' \<longrightarrow> (\<exists>t'. m' t = (t', Ok v) \<and> R s' t')) \<and>
     (\<forall>s t s' e. R s t \<longrightarrow> m s = (s', Err e) \<longrightarrow> obs e \<longrightarrow> ok s' \<longrightarrow> (\<exists>t'. m' t = (t', Err e) \<and> R s' t'))"

lemma simSI:
  assumes "\<And>s s' r. m s = (s', r) \<Longrightarrow> ok s' \<Longrightarrow> ok s"
    and "\<And>s t s' v. R s t \<Longrightarrow> m s = (s', Ok v) \<Longrightarrow> ok s' \<Longrightarrow> \<exists>t'. m' t = (t', Ok v) \<and> R s' t'"
    and "\<And>s t s' e. R s t \<Longrightarrow> m s = (s', Err e) \<Longrightarrow> obs e \<Longrightarrow> ok s' \<Longrightarrow> \<exists>t'. m' t = (t', Err e) \<and> R s' t'"
  shows "simS obs R ok m m'"
  using assms unfolding simS_def by blast

lemma simS_ok: "simS obs R ok m m' \<Longrightarrow> m s = (s', r) \<Longrightarrow> ok s' \<Longrightarrow> ok s"
  unfolding simS_def by blast

lemma simS_run:
  "\<lbrakk>simS obs R ok m m'; R s t; m s = (s', Ok v); ok s'\<rbrakk> \<Longrightarrow> \<exists>t'. m' t = (t', Ok v) \<and> R s' t'"
  unfolding simS_def by blast

lemma simS_err:
  "\<lbrakk>simS obs R ok m m'; R s t; m s = (s', Err e); obs e; ok s'\<rbrakk> \<Longrightarrow> \<exists>t'. m' t = (t', Err e) \<and> R s' t'"
  unfolding simS_def by blast

lemma simS_return: "simS obs R ok (returnS a) (returnS a)"
  by (rule simSI) auto

lemma simS_throw: "simS obs R ok (throwS e) (throwS e)"
  by (rule simSI) auto

lemma simS_bind:
  assumes m: "simS obs R ok m m'" and f: "\<And>a. simS obs R ok (f a) (f' a)"
  shows "simS obs R ok (bindS m f) (bindS m' f')"
proof (rule simSI)
  fix s s' r
  assume run: "bindS m f s = (s', r)" and "ok s'"
  show "ok s"
  proof (cases "m s")
    case (Pair u q)
    show ?thesis
    proof (cases q)
      case (Inl e)
      with Pair run \<open>ok s'\<close> show ?thesis using simS_ok [OF m Pair] by (simp add: bindS_def)
    next
      case (Inr a)
      with Pair run have "f a u = (s', r)" by (simp add: bindS_def)
      then have "ok u" using simS_ok [OF f] \<open>ok s'\<close> by blast
      then show ?thesis using simS_ok [OF m Pair] by blast
    qed
  qed
next
  fix s t s' v
  assume "R s t" "bindS m f s = (s', Ok v)" "ok s'"
  then obtain u a where 1: "m s = (u, Ok a)" and 2: "f a u = (s', Ok v)"
    by (auto simp: bindS_Ok_iff)
  have "ok u" using simS_ok [OF f 2] \<open>ok s'\<close> .
  then obtain t1 where 3: "m' t = (t1, Ok a)" "R u t1"
    using simS_run [OF m \<open>R s t\<close> 1] by blast
  with simS_run [OF f 3(2) 2 \<open>ok s'\<close>] show "\<exists>t'. bindS m' f' t = (t', Ok v) \<and> R s' t'"
    by (auto simp: bindS_Ok)
next
  fix s t s' e
  assume "R s t" "bindS m f s = (s', Err e)" "obs e" "ok s'"
  then consider "m s = (s', Err e)" | u a where "m s = (u, Ok a)" "f a u = (s', Err e)"
    by (auto simp: bindS_def split: prod.splits sum.splits)
  then show "\<exists>t'. bindS m' f' t = (t', Err e) \<and> R s' t'"
  proof cases
    case 1
    from simS_err [OF m \<open>R s t\<close> this \<open>obs e\<close> \<open>ok s'\<close>] show ?thesis by (auto simp: bindS_Err)
  next
    case 2
    have "ok u" using simS_ok [OF f 2(2)] \<open>ok s'\<close> .
    then obtain t1 where 3: "m' t = (t1, Ok a)" "R u t1"
      using simS_run [OF m \<open>R s t\<close> 2(1)] by blast
    with simS_err [OF f 3(2) 2(2) \<open>obs e\<close> \<open>ok s'\<close>] show ?thesis by (auto simp: bindS_Ok)
  qed
qed

lemma simS_if:
  assumes "\<And>s t. R s t \<Longrightarrow> P s = P' t" "simS obs R ok m m'" "simS obs R ok n n'"
  shows "simS obs R ok (\<lambda>s. if P s then m s else n s) (\<lambda>t. if P' t then m' t else n' t)"
proof (rule simSI)
  show "ok s" if "(if P s then m s else n s) = (s', r)" "ok s'" for s s' r
    using that simS_ok [OF assms(2), of s s' r] simS_ok [OF assms(3), of s s' r] by (auto split: if_splits)
  show "\<exists>t'. (if P' t then m' t else n' t) = (t', Ok v) \<and> R s' t'"
    if "R s t" "(if P s then m s else n s) = (s', Ok v)" "ok s'" for s t s' v
    using that assms(1) [OF that(1)] simS_run [OF assms(2) that(1)] simS_run [OF assms(3) that(1)]
    by (auto split: if_splits)
  show "\<exists>t'. (if P' t then m' t else n' t) = (t', Err e) \<and> R s' t'"
    if "R s t" "(if P s then m s else n s) = (s', Err e)" "obs e" "ok s'" for s t s' e
    using that assms(1) [OF that(1)] simS_err [OF assms(2) that(1)] simS_err [OF assms(3) that(1)]
    by (auto split: if_splits)
qed

lemma simS_cond:
  "\<lbrakk>b \<Longrightarrow> simS obs R ok m m'; \<not> b \<Longrightarrow> simS obs R ok n n'\<rbrakk>
   \<Longrightarrow> simS obs R ok (if b then m else n) (if b then m' else n')"
  by simp

lemma simS_state:
  assumes "\<And>s t. R s t \<Longrightarrow> g s = g' t" "\<And>x. simS obs R ok (f x) (f' x)"
  shows "simS obs R ok (\<lambda>s. f (g s) s) (\<lambda>t. f' (g' t) t)"
proof (rule simSI)
  show "ok s" if "f (g s) s = (s', r)" "ok s'" for s s' r
    using simS_ok [OF assms(2) that] .
  show "\<exists>t'. f' (g' t) t = (t', Ok v) \<and> R s' t'" if "R s t" "f (g s) s = (s', Ok v)" "ok s'" for s t s' v
    using simS_run [OF assms(2) that] assms(1) [OF that(1)] by simp
  show "\<exists>t'. f' (g' t) t = (t', Err e) \<and> R s' t'" if "R s t" "f (g s) s = (s', Err e)" "obs e" "ok s'" for s t s' e
    using simS_err [OF assms(2) that] assms(1) [OF that(1)] by simp
qed

lemmas sim_intros = simS_bind simS_cond simS_return simS_throw

section \<open>Byte encodings of integers\<close>

definition u32_to_be_bytes :: "u32 \<Rightarrow> bytes" where
  "u32_to_be_bytes x = [ucast (drop_bit 24 x), ucast (drop_bit 16 x), ucast (drop_bit 8 x), ucast x]"

definition u32_from_be_bytes :: "u8 \<Rightarrow> u8 \<Rightarrow> u8 \<Rightarrow> u8 \<Rightarrow> u32" where
  "u32_from_be_bytes a b c d =
     push_bit 24 (ucast a) OR push_bit 16 (ucast b) OR push_bit 8 (ucast c) OR ucast d"

definition u32_from_le_bytes :: "u8 \<Rightarrow> u8 \<Rightarrow> u8 \<Rightarrow> u8 \<Rightarrow> u32" where
  "u32_from_le_bytes a b c d = u32_from_be_bytes d c b a"

definition u16_from_le_bytes :: "u8 \<Rightarrow> u8 \<Rightarrow> u16" where
  "u16_from_le_bytes a b = push_bit 8 (ucast b) OR ucast a"

lemma length_u32_to_be_bytes [simp]: "length (u32_to_be_bytes x) = 4"
  by (simp add: u32_to_be_bytes_def)

lemma u32_be_roundtrip [simp]:
  "u32_from_be_bytes (ucast (drop_bit 24 x)) (ucast (drop_bit 16 x)) (ucast (drop_bit 8 x)) (ucast x) = x"
  for x :: u32
proof (rule bit_word_eqI)
  fix n
  assume "n < LENGTH(32)"
  then show "bit (u32_from_be_bytes (ucast (drop_bit 24 x)) (ucast (drop_bit 16 x))
      (ucast (drop_bit 8 x)) (ucast x)) n = bit x n"
    unfolding u32_from_be_bytes_def
    by (cases "n < 8"; cases "n < 16"; cases "n < 24"; auto simp: bit_simps)
qed

lemma u32_to_be_bytes_inject [simp]: "u32_to_be_bytes a = u32_to_be_bytes b \<longleftrightarrow> a = b"
proof
  have parts: "u32_from_be_bytes (u32_to_be_bytes x ! 0) (u32_to_be_bytes x ! 1) (u32_to_be_bytes x ! 2)
      (u32_to_be_bytes x ! 3) = x" for x
    by (simp add: u32_to_be_bytes_def)
  assume "u32_to_be_bytes a = u32_to_be_bytes b"
  then show "a = b" using parts [of a] parts [of b] by simp
qed simp

lemma u32_le_roundtrip [simp]:
  "u32_from_le_bytes (ucast x) (ucast (drop_bit 8 x)) (ucast (drop_bit 16 x)) (ucast (drop_bit 24 x)) = x"
  for x :: u32
  by (simp add: u32_from_le_bytes_def)

lemma u16_le_roundtrip [simp]:
  "u16_from_le_bytes (ucast x) (ucast (drop_bit 8 x)) = x"
  for x :: u16
  unfolding u16_from_le_bytes_def
  by (rule bit_word_eqI) (auto simp: bit_simps)

lemma bit_u8_out: "8 \<le> n \<Longrightarrow> \<not> bit (w :: u8) n"
  by (auto dest: bit_imp_le_length)

lemma u32_be_parts [simp]:
  "ucast (drop_bit 24 (u32_from_be_bytes a b c d)) = a"
  "ucast (drop_bit 16 (u32_from_be_bytes a b c d)) = b"
  "ucast (drop_bit 8 (u32_from_be_bytes a b c d)) = c"
  "ucast (u32_from_be_bytes a b c d) = d"
  unfolding u32_from_be_bytes_def
  by (rule bit_word_eqI; auto simp: bit_simps bit_u8_out)+

lemma u32_from_be_bytes_inject:
  "u32_from_be_bytes a b c d = u32_from_be_bytes a' b' c' d'
   \<longleftrightarrow> a = a' \<and> b = b' \<and> c = c' \<and> d = d'"
  by (metis u32_be_parts)

section \<open>Word equality bit by bit\<close>

text \<open>
  Fixed-width words are equal when their bits are: stated with one premise per bit, so that
  \<^theory_text>\<open>simp_all\<close> decides each of them on numerals.
\<close>

lemma word32_eqI:
  fixes a b :: "32 word"
  assumes
    "bit a 0 = bit b 0" "bit a 1 = bit b 1" "bit a 2 = bit b 2" "bit a 3 = bit b 3"
    "bit a 4 = bit b 4" "bit a 5 = bit b 5" "bit a 6 = bit b 6" "bit a 7 = bit b 7"
    "bit a 8 = bit b 8" "bit a 9 = bit b 9" "bit a 10 = bit b 10" "bit a 11 = bit b 11"
    "bit a 12 = bit b 12" "bit a 13 = bit b 13" "bit a 14 = bit b 14" "bit a 15 = bit b 15"
    "bit a 16 = bit b 16" "bit a 17 = bit b 17" "bit a 18 = bit b 18" "bit a 19 = bit b 19"
    "bit a 20 = bit b 20" "bit a 21 = bit b 21" "bit a 22 = bit b 22" "bit a 23 = bit b 23"
    "bit a 24 = bit b 24" "bit a 25 = bit b 25" "bit a 26 = bit b 26" "bit a 27 = bit b 27"
    "bit a 28 = bit b 28" "bit a 29 = bit b 29" "bit a 30 = bit b 30" "bit a 31 = bit b 31"
  shows "a = b"
proof (rule bit_word_eqI)
  fix n
  assume "n < LENGTH(32)"
  then have "n \<in> {0, 1, 2, 3, 4, 5, 6, 7, 8, 9, 10, 11, 12, 13, 14, 15, 16, 17, 18, 19,
      20, 21, 22, 23, 24, 25, 26, 27, 28, 29, 30, 31}"
    by (simp, presburger)
  then show "bit a n = bit b n"
    using assms by (elim insertE) simp_all
qed

lemma word8_eqI:
  fixes a b :: "8 word"
  assumes
    "bit a 0 = bit b 0" "bit a 1 = bit b 1" "bit a 2 = bit b 2" "bit a 3 = bit b 3"
    "bit a 4 = bit b 4" "bit a 5 = bit b 5" "bit a 6 = bit b 6" "bit a 7 = bit b 7"
  shows "a = b"
proof (rule bit_word_eqI)
  fix n
  assume "n < LENGTH(8)"
  then have "n \<in> {0, 1, 2, 3, 4, 5, 6, 7}"
    by (simp, presburger)
  then show "bit a n = bit b n"
    using assms by (elim insertE) simp_all
qed

lemma word_less_power_bits:
  fixes r :: "'a::len word"
  assumes "r < 2 ^ k" "k \<le> n"
  shows "\<not> bit r n"
proof (cases "k < LENGTH('a)")
  case True
  with assms(1) have "take_bit k r = r"
    by (simp add: less_mask_eq take_bit_eq_mask word_2p_lem) 
  then show ?thesis using assms(2) by (metis bit_take_bit_iff not_less)
next
  case False
  then show ?thesis using assms(2) by (auto dest: bit_imp_le_length)
qed

section \<open>Fixed-width chunks\<close>

text \<open>
  A byte buffer read as a slice of \<open>w\<close>-byte arrays, as \<open>from_raw_parts(ptr as *const [u8; w], n)\<close>
  does, and the generic facts about it.
\<close>

fun split_chunks :: "nat \<Rightarrow> nat \<Rightarrow> bytes \<Rightarrow> bytes list" where
  "split_chunks w 0 bs = []"
| "split_chunks w (Suc n) bs = take w bs # split_chunks w n (drop w bs)"

lemma length_split_chunks [simp]: "length (split_chunks w n bs) = n"
  by (induction w n bs rule: split_chunks.induct) auto

lemma split_chunks_concat:
  "(\<And>x. x \<in> set xs \<Longrightarrow> length x = w) \<Longrightarrow> split_chunks w (length xs) (concat xs) = xs"
  by (induction xs) auto

lemma concat_split_chunks:
  "length bs = n * w \<Longrightarrow> concat (split_chunks w n bs) = bs"
  by (induction w n bs rule: split_chunks.induct) auto

lemma split_chunks_width:
  "length bs = n * w \<Longrightarrow> x \<in> set (split_chunks w n bs) \<Longrightarrow> length x = w"
  by (induction w n bs rule: split_chunks.induct) auto

lemma length_concat_uniform:
  "(\<And>x. x \<in> set xs \<Longrightarrow> length x = w) \<Longrightarrow> length (concat xs) = length xs * w"
  by (induction xs) auto

lemma nth_concat_uniform:
  "\<lbrakk>\<And>x. x \<in> set xs \<Longrightarrow> length x = w; k < length xs * w\<rbrakk>
   \<Longrightarrow> concat xs ! k = xs ! (k div w) ! (k mod w)"
proof (induction xs arbitrary: k)
  case (Cons x xs)
  show ?case
  proof (cases "k < w")
    case True
    with Cons.prems show ?thesis by (simp add: nth_append)
  next
    case False
    with Cons.prems have "k - w < length xs * w" "length x = w"
      by (auto simp: not_less)
    moreover from Cons.prems have "0 < w" by (cases w) auto
    ultimately show ?thesis
      using Cons.IH [of "k - w"] Cons.prems False
      by (simp add: nth_append le_div_geq le_mod_geq)
  qed
qed simp

lemma drop_concat_uniform:
  "\<lbrakk>\<And>x. x \<in> set xs \<Longrightarrow> length x = w; i < length xs; k \<le> w\<rbrakk>
   \<Longrightarrow> drop (i * w + k) (concat xs) = drop k (xs ! i) @ concat (drop (Suc i) xs)"
proof (induction xs arbitrary: i)
  case (Cons x xs)
  then show ?case by (cases i) (auto simp: add.assoc)
qed simp

lemma take_concat_uniform:
  "\<lbrakk>\<And>x. x \<in> set xs \<Longrightarrow> length x = w; i < length xs; k \<le> w\<rbrakk>
   \<Longrightarrow> take (i * w + k) (concat xs) = concat (take i xs) @ take k (xs ! i)"
proof (induction xs arbitrary: i)
  case (Cons x xs)
  then show ?case by (cases i) (auto simp: add.assoc)
qed simp

section \<open>UTF-8\<close>

text \<open>\<open>core::str::from_utf8\<close> accepts the well-formed byte sequences of the Unicode standard.\<close>

definition utf8_cont :: "u8 \<Rightarrow> bool" where
  "utf8_cont b \<longleftrightarrow> 0x80 \<le> b \<and> b \<le> 0xbf"

fun valid_utf8 :: "bytes \<Rightarrow> bool" where
  "valid_utf8 [] = True"
| "valid_utf8 (a # s) =
     (if a < 0x80 then valid_utf8 s
      else case s of
        [] \<Rightarrow> False
      | b # s1 \<Rightarrow>
          if 0xc2 \<le> a \<and> a \<le> 0xdf then utf8_cont b \<and> valid_utf8 s1
          else (case s1 of
            [] \<Rightarrow> False
          | c # s2 \<Rightarrow>
              if 0xe0 \<le> a \<and> a \<le> 0xef
              then utf8_cont b \<and> (a = 0xe0 \<longrightarrow> 0xa0 \<le> b) \<and> (a = 0xed \<longrightarrow> b \<le> 0x9f) \<and> utf8_cont c \<and> valid_utf8 s2
              else (case s2 of
                [] \<Rightarrow> False
              | d # s3 \<Rightarrow>
                  0xf0 \<le> a \<and> a \<le> 0xf4 \<and> utf8_cont b \<and> (a = 0xf0 \<longrightarrow> 0x90 \<le> b) \<and> (a = 0xf4 \<longrightarrow> b \<le> 0x8f) \<and>
                  utf8_cont c \<and> utf8_cont d \<and> valid_utf8 s3)))"

lemma valid_utf8_ascii: "\<forall>b\<in>set s. b < 0x80 \<Longrightarrow> valid_utf8 s"
  by (induction s) simp_all

end
