(* ===== verification/Riscv_Op.thy ===== *)
theory Riscv_Op
  imports Prelude
begin

text \<open>
  The decoded instructions of the virtual processor (\<open>common/src/riscv/op.rs\<close>): one constructor
  per variant of the enum \<open>Op\<close>, its fields in the source's order. Registers are \<open>u8\<close>
  numbers, immediates \<open>i32\<close> bit patterns.
\<close>

datatype (plugins only: size code) op =
    Unknown
  | Add u8 u8 u8
  | Sub u8 u8 u8
  | Sll u8 u8 u8
  | Slt u8 u8 u8
  | Sltu u8 u8 u8
  | Xor u8 u8 u8
  | Srl u8 u8 u8
  | Sra u8 u8 u8
  | Or u8 u8 u8
  | And u8 u8 u8
  | Mul u8 u8 u8
  | Mulh u8 u8 u8
  | Mulhsu u8 u8 u8
  | Mulhu u8 u8 u8
  | Div u8 u8 u8
  | Divu u8 u8 u8
  | Rem u8 u8 u8
  | Remu u8 u8 u8
  | Addi u8 u8 i32
  | Andi u8 u8 i32
  | Auipc u8 i32
  | Beq u8 u8 i32
  | Bne u8 u8 i32
  | Blt u8 u8 i32
  | Bge u8 u8 i32
  | Bltu u8 u8 i32
  | Bgeu u8 u8 i32
  | Jal u8 i32
  | Jalr u8 u8 i32
  | Lb u8 u8 i32
  | Lh u8 u8 i32
  | Lw u8 u8 i32
  | Lbu u8 u8 i32
  | Lhu u8 u8 i32
  | Lui u8 i32
  | Ori u8 u8 i32
  | Sb u8 u8 i32
  | Sh u8 u8 i32
  | Sw u8 u8 i32
  | Slli u8 u8 i32
  | Slti u8 u8 i32
  | Sltiu u8 u8 i32
  | Srli u8 u8 i32
  | Srai u8 u8 i32
  | Xori u8 u8 i32
  | LrW u8 u8
  | ScW u8 u8 u8
  | AmoswapW u8 u8 u8
  | AmoaddW u8 u8 u8
  | AmoxorW u8 u8 u8
  | AmoandW u8 u8 u8
  | AmoorW u8 u8 u8
  | AmominW u8 u8 u8
  | AmomaxW u8 u8 u8
  | AmominuW u8 u8 u8
  | AmomaxuW u8 u8 u8
  | Fence
  | Ecall
  | Break

text \<open>
  The register numbers an instruction names, and its immediate: what the executor indexes the
  register file with.
\<close>

primrec op_regs :: "op \<Rightarrow> u8 list" where
  "op_regs (Add rd rs1 rs2) = [rd, rs1, rs2]"
| "op_regs (Sub rd rs1 rs2) = [rd, rs1, rs2]"
| "op_regs (Sll rd rs1 rs2) = [rd, rs1, rs2]"
| "op_regs (Slt rd rs1 rs2) = [rd, rs1, rs2]"
| "op_regs (Sltu rd rs1 rs2) = [rd, rs1, rs2]"
| "op_regs (Xor rd rs1 rs2) = [rd, rs1, rs2]"
| "op_regs (Srl rd rs1 rs2) = [rd, rs1, rs2]"
| "op_regs (Sra rd rs1 rs2) = [rd, rs1, rs2]"
| "op_regs (Or rd rs1 rs2) = [rd, rs1, rs2]"
| "op_regs (And rd rs1 rs2) = [rd, rs1, rs2]"
| "op_regs (Mul rd rs1 rs2) = [rd, rs1, rs2]"
| "op_regs (Mulh rd rs1 rs2) = [rd, rs1, rs2]"
| "op_regs (Mulhsu rd rs1 rs2) = [rd, rs1, rs2]"
| "op_regs (Mulhu rd rs1 rs2) = [rd, rs1, rs2]"
| "op_regs (Div rd rs1 rs2) = [rd, rs1, rs2]"
| "op_regs (Divu rd rs1 rs2) = [rd, rs1, rs2]"
| "op_regs (Rem rd rs1 rs2) = [rd, rs1, rs2]"
| "op_regs (Remu rd rs1 rs2) = [rd, rs1, rs2]"
| "op_regs (Addi rd rs1 imm) = [rd, rs1]"
| "op_regs (Andi rd rs1 imm) = [rd, rs1]"
| "op_regs (Auipc rd imm) = [rd]"
| "op_regs (Beq rs1 rs2 imm) = [rs1, rs2]"
| "op_regs (Bne rs1 rs2 imm) = [rs1, rs2]"
| "op_regs (Blt rs1 rs2 imm) = [rs1, rs2]"
| "op_regs (Bge rs1 rs2 imm) = [rs1, rs2]"
| "op_regs (Bltu rs1 rs2 imm) = [rs1, rs2]"
| "op_regs (Bgeu rs1 rs2 imm) = [rs1, rs2]"
| "op_regs (Jal rd imm) = [rd]"
| "op_regs (Jalr rd rs1 imm) = [rd, rs1]"
| "op_regs (Lb rd rs1 imm) = [rd, rs1]"
| "op_regs (Lh rd rs1 imm) = [rd, rs1]"
| "op_regs (Lw rd rs1 imm) = [rd, rs1]"
| "op_regs (Lbu rd rs1 imm) = [rd, rs1]"
| "op_regs (Lhu rd rs1 imm) = [rd, rs1]"
| "op_regs (Lui rd imm) = [rd]"
| "op_regs (Ori rd rs1 imm) = [rd, rs1]"
| "op_regs (Sb rs1 rs2 imm) = [rs1, rs2]"
| "op_regs (Sh rs1 rs2 imm) = [rs1, rs2]"
| "op_regs (Sw rs1 rs2 imm) = [rs1, rs2]"
| "op_regs (Slli rd rs1 imm) = [rd, rs1]"
| "op_regs (Slti rd rs1 imm) = [rd, rs1]"
| "op_regs (Sltiu rd rs1 imm) = [rd, rs1]"
| "op_regs (Srli rd rs1 imm) = [rd, rs1]"
| "op_regs (Srai rd rs1 imm) = [rd, rs1]"
| "op_regs (Xori rd rs1 imm) = [rd, rs1]"
| "op_regs (LrW rd rs1) = [rd, rs1]"
| "op_regs (ScW rd rs1 rs2) = [rd, rs1, rs2]"
| "op_regs (AmoswapW rd rs1 rs2) = [rd, rs1, rs2]"
| "op_regs (AmoaddW rd rs1 rs2) = [rd, rs1, rs2]"
| "op_regs (AmoxorW rd rs1 rs2) = [rd, rs1, rs2]"
| "op_regs (AmoandW rd rs1 rs2) = [rd, rs1, rs2]"
| "op_regs (AmoorW rd rs1 rs2) = [rd, rs1, rs2]"
| "op_regs (AmominW rd rs1 rs2) = [rd, rs1, rs2]"
| "op_regs (AmomaxW rd rs1 rs2) = [rd, rs1, rs2]"
| "op_regs (AmominuW rd rs1 rs2) = [rd, rs1, rs2]"
| "op_regs (AmomaxuW rd rs1 rs2) = [rd, rs1, rs2]"
| "op_regs Unknown = []"
| "op_regs Fence = []"
| "op_regs Ecall = []"
| "op_regs Break = []"

end
