(* ===== verification/Riscv_Decode.thy ===== *)
theory Riscv_Decode
  imports Riscv_Op
begin

text \<open>
  The instruction decoder (\<open>common/src/riscv/decode.rs\<close>): field extraction, the immediates of the
  six 32-bit formats and of the compressed formats, \<open>decode_compressed\<close> (RV32C, expanded to the
  regular instructions), \<open>decode_uncompressed\<close> (RV32I, M, A) and \<open>decode\<close>. A Rust \<open>match\<close> on a masked
  word is the chain of tests in the source's order.

  The lemmas give the immediates bit by bit, in the layout of the RISC-V manual, show that the
  decoder only produces register numbers below 32, that jump and branch offsets are even, and
  that decoding inverts an encoder written from the manual's instruction formats.
\<close>

section \<open>Fields and immediates of 32-bit instructions\<close>

definition inst_rd :: "u32 \<Rightarrow> u8" where
  "inst_rd inst = ucast (drop_bit 7 inst AND 0b11111)"

definition inst_rs1 :: "u32 \<Rightarrow> u8" where
  "inst_rs1 inst = ucast (drop_bit 15 inst AND 0b11111)"

definition inst_rs2 :: "u32 \<Rightarrow> u8" where
  "inst_rs2 inst = ucast (drop_bit 20 inst AND 0b11111)"

definition b_imm :: "u32 \<Rightarrow> i32" where
  "b_imm inst =
     signed_drop_bit 19 (inst AND 0b10000000000000000000000000000000)
     OR push_bit 4 (inst AND 0b00000000000000000000000010000000)
     OR signed_drop_bit 20 (inst AND 0b01111110000000000000000000000000)
     OR signed_drop_bit 7 (inst AND 0b00000000000000000000111100000000)"

definition i_imm :: "u32 \<Rightarrow> i32" where
  "i_imm inst = signed_drop_bit 20 inst"

definition j_imm :: "u32 \<Rightarrow> i32" where
  "j_imm inst =
     signed_drop_bit 11 (inst AND 0b10000000000000000000000000000000)
     OR signed_drop_bit 0 (inst AND 0b00000000000011111111000000000000)
     OR signed_drop_bit 9 (inst AND 0b00000000000100000000000000000000)
     OR signed_drop_bit 20 (inst AND 0b01111111111000000000000000000000)"

definition s_imm :: "u32 \<Rightarrow> i32" where
  "s_imm inst =
     signed_drop_bit 20 (inst AND 0b11111110000000000000000000000000)
     OR signed_drop_bit 7 (inst AND 0b00000000000000000000111110000000)"

definition u_imm :: "u32 \<Rightarrow> i32" where
  "u_imm inst = inst AND 0xfffff000"

section \<open>Fields and immediates of compressed instructions\<close>

definition c_rd :: "u16 \<Rightarrow> u8" where
  "c_rd inst = ucast (drop_bit 7 inst AND 0b11111)"

definition c_rds :: "u16 \<Rightarrow> u8" where
  "c_rds inst = 8 + ucast (drop_bit 2 inst AND 0b111)"

definition c_rs1 :: "u16 \<Rightarrow> u8" where
  "c_rs1 inst = ucast (drop_bit 7 inst AND 0b11111)"

definition c_rs2 :: "u16 \<Rightarrow> u8" where
  "c_rs2 inst = ucast (drop_bit 2 inst AND 0b11111)"

definition c_rs1s :: "u16 \<Rightarrow> u8" where
  "c_rs1s inst = 8 + ucast (drop_bit 7 inst AND 0b111)"

definition c_rs2s :: "u16 \<Rightarrow> u8" where
  "c_rs2s inst = 8 + ucast (drop_bit 2 inst AND 0b111)"

definition c_funct3 :: "u16 \<Rightarrow> u16" where
  "c_funct3 inst = drop_bit 13 inst AND 0b111"

definition ci_imm :: "u16 \<Rightarrow> i32" where
  "ci_imm inst =
     signed_drop_bit 26 (push_bit 19 (ucast (inst AND 0b0001000000000000)))
     OR signed_drop_bit 2 (ucast (inst AND 0b0000000001111100))"

definition ci_addi16sp_imm :: "u16 \<Rightarrow> i32" where
  "ci_addi16sp_imm inst =
     signed_drop_bit 22 (push_bit 19 (ucast (inst AND 0b0001000000000000)))
     OR push_bit 4 (ucast (inst AND 0b0000000000011000))
     OR push_bit 1 (ucast (inst AND 0b0000000000100000))
     OR push_bit 3 (ucast (inst AND 0b0000000000000100))
     OR signed_drop_bit 2 (ucast (inst AND 0b0000000001000000))"

definition ci_lwsp_imm :: "u16 \<Rightarrow> i32" where
  "ci_lwsp_imm inst =
     push_bit 4 (ucast (inst AND 0b0000000000001100))
     OR signed_drop_bit 7 (ucast (inst AND 0b0001000000000000))
     OR signed_drop_bit 2 (ucast (inst AND 0b0000000001110000))"

definition css_swsp_imm :: "u16 \<Rightarrow> i32" where
  "css_swsp_imm inst =
     signed_drop_bit 1 (ucast (inst AND 0b0000000110000000))
     OR signed_drop_bit 7 (ucast (inst AND 0b0001111000000000))"

definition ciw_addi4spn_imm :: "u16 \<Rightarrow> u16" where
  "ciw_addi4spn_imm inst =
     drop_bit 7 (inst AND 0b0001100000000000)
     OR drop_bit 1 (inst AND 0b0000011110000000)
     OR drop_bit 4 (inst AND 0b0000000001000000)
     OR drop_bit 2 (inst AND 0b0000000000100000)"

definition cl_lw_offset :: "u16 \<Rightarrow> i32" where
  "cl_lw_offset inst =
     push_bit 1 (ucast (inst AND 0b0000000000100000))
     OR signed_drop_bit 7 (ucast (inst AND 0b0001110000000000))
     OR signed_drop_bit 4 (ucast (inst AND 0b0000000001000000))"

definition cs_sw_offset :: "u16 \<Rightarrow> i32" where
  "cs_sw_offset inst = cl_lw_offset inst"

definition cb_imm :: "u16 \<Rightarrow> i32" where
  "cb_imm inst =
     signed_drop_bit 23 (push_bit 19 (ucast (inst AND 0b0001000000000000)))
     OR push_bit 1 (ucast (inst AND 0b0000000001100000))
     OR push_bit 3 (ucast (inst AND 0b0000000000000100))
     OR signed_drop_bit 7 (ucast (inst AND 0b0000110000000000))
     OR signed_drop_bit 2 (ucast (inst AND 0b0000000000011000))"

definition cj_imm :: "u16 \<Rightarrow> i32" where
  "cj_imm inst =
     signed_drop_bit 20 (push_bit 19 (ucast (inst AND 0b0001000000000000)))
     OR push_bit 2 (ucast (inst AND 0b0000000100000000))
     OR signed_drop_bit 1 (ucast (inst AND 0b0000011000000000))
     OR push_bit 1 (ucast (inst AND 0b0000000001000000))
     OR signed_drop_bit 1 (ucast (inst AND 0b0000000010000000))
     OR push_bit 3 (ucast (inst AND 0b0000000000000100))
     OR signed_drop_bit 7 (ucast (inst AND 0b0000100000000000))
     OR signed_drop_bit 2 (ucast (inst AND 0b0000000000111000))"

section \<open>The decoders\<close>

definition decode_compressed :: "u16 \<Rightarrow> op" where
  "decode_compressed inst =
    (if inst AND 0b11 = 0b00 then
       \<comment> \<open>Quadrant 0\<close>
       (if c_funct3 inst = 0b000 then
          (let imm = ucast (ciw_addi4spn_imm inst) in
           if imm = 0 then Unknown else Addi (c_rds inst) 2 imm)
        else if c_funct3 inst = 0b010 then Lw (c_rds inst) (c_rs1s inst) (cl_lw_offset inst)
        else if c_funct3 inst = 0b110 then Sw (c_rs1s inst) (c_rs2s inst) (cs_sw_offset inst)
        else Unknown)
     else if inst AND 0b11 = 0b01 then
       \<comment> \<open>Quadrant 1\<close>
       (if c_funct3 inst = 0b000 then Addi (c_rd inst) (c_rd inst) (ci_imm inst)
        else if c_funct3 inst = 0b001 then Jal 1 (cj_imm inst)
        else if c_funct3 inst = 0b010 then Addi (c_rd inst) 0 (ci_imm inst)
        else if c_funct3 inst = 0b011 then
          (if c_rd inst = 2 then
             (let imm = ci_addi16sp_imm inst in if imm = 0 then Unknown else Addi 2 2 imm)
           else Lui (c_rd inst) (push_bit 12 (ci_imm inst)))
        else if c_funct3 inst = 0b100 then
          (if drop_bit 10 inst AND 0b11 = 0b00 then Srli (c_rs1s inst) (c_rs1s inst) (ci_imm inst AND 31)
           else if drop_bit 10 inst AND 0b11 = 0b01 then Srai (c_rs1s inst) (c_rs1s inst) (ci_imm inst AND 31)
           else if drop_bit 10 inst AND 0b11 = 0b10 then Andi (c_rs1s inst) (c_rs1s inst) (ci_imm inst)
           else
             (if inst AND 0x1000 = 0 then
                (if drop_bit 5 inst AND 0b11 = 0b00 then Sub (c_rs1s inst) (c_rs1s inst) (c_rs2s inst)
                 else if drop_bit 5 inst AND 0b11 = 0b01 then Xor (c_rs1s inst) (c_rs1s inst) (c_rs2s inst)
                 else if drop_bit 5 inst AND 0b11 = 0b10 then Or (c_rs1s inst) (c_rs1s inst) (c_rs2s inst)
                 else And (c_rs1s inst) (c_rs1s inst) (c_rs2s inst))
              else Unknown))
        else if c_funct3 inst = 0b101 then Jal 0 (cj_imm inst)
        else if c_funct3 inst = 0b110 then Beq (c_rs1s inst) 0 (cb_imm inst)
        else if c_funct3 inst = 0b111 then Bne (c_rs1s inst) 0 (cb_imm inst)
        else Unknown)
     else if inst AND 0b11 = 0b10 then
       \<comment> \<open>Quadrant 2\<close>
       (if c_funct3 inst = 0b000 then
          (if c_rd inst = 0 then Unknown else Slli (c_rd inst) (c_rd inst) (ci_imm inst AND 31))
        else if c_funct3 inst = 0b010 then
          (if c_rd inst = 0 then Unknown else Lw (c_rd inst) 2 (ci_lwsp_imm inst))
        else if c_funct3 inst = 0b100 then
          (if drop_bit 12 inst AND 1 = 0 then
             (if c_rs2 inst = 0 then
                (if c_rs1 inst = 0 then Unknown else Jalr 0 (c_rs1 inst) 0)
              else Add (c_rd inst) 0 (c_rs2 inst))
           else
             (if c_rs2 inst = 0 then
                (if c_rs1 inst = 0 then Break else Jalr 1 (c_rs1 inst) 0)
              else Add (c_rd inst) (c_rd inst) (c_rs2 inst)))
        else if c_funct3 inst = 0b110 then Sw 2 (c_rs2 inst) (css_swsp_imm inst)
        else Unknown)
     else Unknown)"

definition decode_uncompressed :: "u32 \<Rightarrow> op" where
  "decode_uncompressed inst =
    (if inst AND 0x0000007f = 0x00000037 then Lui (inst_rd inst) (u_imm inst)
    else if inst AND 0x0000007f = 0x00000017 then Auipc (inst_rd inst) (u_imm inst)
    else if inst AND 0x0000007f = 0x0000006f then Jal (inst_rd inst) (j_imm inst)
    else if inst AND 0x0000007f = 0x00000067 then
      (if inst AND 0x0000707f = 0x00000067 then Jalr (inst_rd inst) (inst_rs1 inst) (i_imm inst)
      else Unknown)
    else if inst AND 0x0000007f = 0x00000063 then
      (if inst AND 0x0000707f = 0x00000063 then Beq (inst_rs1 inst) (inst_rs2 inst) (b_imm inst)
      else if inst AND 0x0000707f = 0x00001063 then Bne (inst_rs1 inst) (inst_rs2 inst) (b_imm inst)
      else if inst AND 0x0000707f = 0x00004063 then Blt (inst_rs1 inst) (inst_rs2 inst) (b_imm inst)
      else if inst AND 0x0000707f = 0x00005063 then Bge (inst_rs1 inst) (inst_rs2 inst) (b_imm inst)
      else if inst AND 0x0000707f = 0x00006063 then Bltu (inst_rs1 inst) (inst_rs2 inst) (b_imm inst)
      else if inst AND 0x0000707f = 0x00007063 then Bgeu (inst_rs1 inst) (inst_rs2 inst) (b_imm inst)
      else Unknown)
    else if inst AND 0x0000007f = 0x00000003 then
      (if inst AND 0x0000707f = 0x00000003 then Lb (inst_rd inst) (inst_rs1 inst) (i_imm inst)
      else if inst AND 0x0000707f = 0x00001003 then Lh (inst_rd inst) (inst_rs1 inst) (i_imm inst)
      else if inst AND 0x0000707f = 0x00002003 then Lw (inst_rd inst) (inst_rs1 inst) (i_imm inst)
      else if inst AND 0x0000707f = 0x00004003 then Lbu (inst_rd inst) (inst_rs1 inst) (i_imm inst)
      else if inst AND 0x0000707f = 0x00005003 then Lhu (inst_rd inst) (inst_rs1 inst) (i_imm inst)
      else Unknown)
    else if inst AND 0x0000007f = 0x00000023 then
      (if inst AND 0x0000707f = 0x00000023 then Sb (inst_rs1 inst) (inst_rs2 inst) (s_imm inst)
      else if inst AND 0x0000707f = 0x00001023 then Sh (inst_rs1 inst) (inst_rs2 inst) (s_imm inst)
      else if inst AND 0x0000707f = 0x00002023 then Sw (inst_rs1 inst) (inst_rs2 inst) (s_imm inst)
      else Unknown)
    else if inst AND 0x0000007f = 0x00000013 then
      (if inst AND 0x0000707f = 0x00000013 then Addi (inst_rd inst) (inst_rs1 inst) (i_imm inst)
      else if inst AND 0x0000707f = 0x00002013 then Slti (inst_rd inst) (inst_rs1 inst) (i_imm inst)
      else if inst AND 0x0000707f = 0x00003013 then Sltiu (inst_rd inst) (inst_rs1 inst) (i_imm inst)
      else if inst AND 0x0000707f = 0x00004013 then Xori (inst_rd inst) (inst_rs1 inst) (i_imm inst)
      else if inst AND 0x0000707f = 0x00006013 then Ori (inst_rd inst) (inst_rs1 inst) (i_imm inst)
      else if inst AND 0x0000707f = 0x00007013 then Andi (inst_rd inst) (inst_rs1 inst) (i_imm inst)
      else if inst AND 0x0000707f = 0x00001013 then
        (if inst AND 0xfe00707f = 0x00001013 then Slli (inst_rd inst) (inst_rs1 inst) (i_imm inst)
        else Unknown)
      else if inst AND 0x0000707f = 0x00005013 then
        (if inst AND 0xfe00707f = 0x00005013 then Srli (inst_rd inst) (inst_rs1 inst) (i_imm inst)
        else if inst AND 0xfe00707f = 0x40005013 then Srai (inst_rd inst) (inst_rs1 inst) (i_imm inst)
        else Unknown)
      else Unknown)
    else if inst AND 0x0000007f = 0x00000033 then
      (if inst AND 0xfe00707f = 0x00000033 then Add (inst_rd inst) (inst_rs1 inst) (inst_rs2 inst)
      else if inst AND 0xfe00707f = 0x40000033 then Sub (inst_rd inst) (inst_rs1 inst) (inst_rs2 inst)
      else if inst AND 0xfe00707f = 0x00001033 then Sll (inst_rd inst) (inst_rs1 inst) (inst_rs2 inst)
      else if inst AND 0xfe00707f = 0x00002033 then Slt (inst_rd inst) (inst_rs1 inst) (inst_rs2 inst)
      else if inst AND 0xfe00707f = 0x00003033 then Sltu (inst_rd inst) (inst_rs1 inst) (inst_rs2 inst)
      else if inst AND 0xfe00707f = 0x00004033 then Xor (inst_rd inst) (inst_rs1 inst) (inst_rs2 inst)
      else if inst AND 0xfe00707f = 0x00005033 then Srl (inst_rd inst) (inst_rs1 inst) (inst_rs2 inst)
      else if inst AND 0xfe00707f = 0x40005033 then Sra (inst_rd inst) (inst_rs1 inst) (inst_rs2 inst)
      else if inst AND 0xfe00707f = 0x00006033 then Or (inst_rd inst) (inst_rs1 inst) (inst_rs2 inst)
      else if inst AND 0xfe00707f = 0x00007033 then And (inst_rd inst) (inst_rs1 inst) (inst_rs2 inst)
      else if inst AND 0xfe00707f = 0x02000033 then Mul (inst_rd inst) (inst_rs1 inst) (inst_rs2 inst)
      else if inst AND 0xfe00707f = 0x02001033 then Mulh (inst_rd inst) (inst_rs1 inst) (inst_rs2 inst)
      else if inst AND 0xfe00707f = 0x02002033 then Mulhsu (inst_rd inst) (inst_rs1 inst) (inst_rs2 inst)
      else if inst AND 0xfe00707f = 0x02003033 then Mulhu (inst_rd inst) (inst_rs1 inst) (inst_rs2 inst)
      else if inst AND 0xfe00707f = 0x02004033 then Div (inst_rd inst) (inst_rs1 inst) (inst_rs2 inst)
      else if inst AND 0xfe00707f = 0x02005033 then Divu (inst_rd inst) (inst_rs1 inst) (inst_rs2 inst)
      else if inst AND 0xfe00707f = 0x02006033 then Rem (inst_rd inst) (inst_rs1 inst) (inst_rs2 inst)
      else if inst AND 0xfe00707f = 0x02007033 then Remu (inst_rd inst) (inst_rs1 inst) (inst_rs2 inst)
      else Unknown)
    else if inst AND 0x0000007f = 0x0000002f then
      (if inst AND 0x0000707f = 0x0000202f then
        (if inst AND 0xf800707f = 0x1000202f then (if inst_rs2 inst = 0 then LrW (inst_rd inst) (inst_rs1 inst) else Unknown)
        else if inst AND 0xf800707f = 0x1800202f then ScW (inst_rd inst) (inst_rs1 inst) (inst_rs2 inst)
        else if inst AND 0xf800707f = 0x0800202f then AmoswapW (inst_rd inst) (inst_rs1 inst) (inst_rs2 inst)
        else if inst AND 0xf800707f = 0x0000202f then AmoaddW (inst_rd inst) (inst_rs1 inst) (inst_rs2 inst)
        else if inst AND 0xf800707f = 0x2000202f then AmoxorW (inst_rd inst) (inst_rs1 inst) (inst_rs2 inst)
        else if inst AND 0xf800707f = 0x6000202f then AmoandW (inst_rd inst) (inst_rs1 inst) (inst_rs2 inst)
        else if inst AND 0xf800707f = 0x4000202f then AmoorW (inst_rd inst) (inst_rs1 inst) (inst_rs2 inst)
        else if inst AND 0xf800707f = 0x8000202f then AmominW (inst_rd inst) (inst_rs1 inst) (inst_rs2 inst)
        else if inst AND 0xf800707f = 0xa000202f then AmomaxW (inst_rd inst) (inst_rs1 inst) (inst_rs2 inst)
        else if inst AND 0xf800707f = 0xc000202f then AmominuW (inst_rd inst) (inst_rs1 inst) (inst_rs2 inst)
        else if inst AND 0xf800707f = 0xe000202f then AmomaxuW (inst_rd inst) (inst_rs1 inst) (inst_rs2 inst)
        else Unknown)
      else Unknown)
    else if inst AND 0x0000007f = 0x0000000f then
      (if inst AND 0x0000707f = 0x0000000f then Fence
      else Unknown)
    else if inst AND 0x0000007f = 0x00000073 then
      (if inst AND 0xffffffff = 0x00000073 then Ecall
      else if inst AND 0xffffffff = 0x00100073 then Break
      else Unknown)
    else Unknown)"

definition decode :: "u32 \<Rightarrow> op \<times> u32" where
  "decode inst =
     (if inst AND 0x3 \<noteq> 0x3 then (decode_compressed (ucast inst), 2)
      else (decode_uncompressed inst, 4))"

section \<open>The layout of the immediates\<close>

text \<open>
  The manual gives an immediate as a table of instruction bits: entry \<open>n\<close> of the list is the
  instruction bit that supplies bit \<open>n\<close>, \<^const>\<open>None\<close> a constant zero. With \<open>sx\<close> the last entry
  is the sign bit and is copied into all higher bits.
\<close>

definition gather :: "nat option list \<Rightarrow> bool \<Rightarrow> 'a::len word \<Rightarrow> nat \<Rightarrow> bool" where
  "gather tbl sx inst n =
     (if n < length tbl then (case tbl ! n of None \<Rightarrow> False | Some k \<Rightarrow> bit inst k)
      else sx \<and> (case last tbl of None \<Rightarrow> False | Some k \<Rightarrow> bit inst k))"

definition imm_matches :: "u32 \<Rightarrow> nat option list \<Rightarrow> bool \<Rightarrow> 'a::len word \<Rightarrow> bool" where
  "imm_matches imm tbl sx inst = list_all (\<lambda>n. bit imm n = gather tbl sx inst n) [0..<32]"

lemma imm_matchesI:
  assumes
    "bit imm 0 = gather tbl sx inst 0" "bit imm 1 = gather tbl sx inst 1" "bit imm 2 = gather tbl sx inst 2"
    "bit imm 3 = gather tbl sx inst 3" "bit imm 4 = gather tbl sx inst 4" "bit imm 5 = gather tbl sx inst 5"
    "bit imm 6 = gather tbl sx inst 6" "bit imm 7 = gather tbl sx inst 7" "bit imm 8 = gather tbl sx inst 8"
    "bit imm 9 = gather tbl sx inst 9" "bit imm 10 = gather tbl sx inst 10" "bit imm 11 = gather tbl sx inst 11"
    "bit imm 12 = gather tbl sx inst 12" "bit imm 13 = gather tbl sx inst 13" "bit imm 14 = gather tbl sx inst 14"
    "bit imm 15 = gather tbl sx inst 15" "bit imm 16 = gather tbl sx inst 16" "bit imm 17 = gather tbl sx inst 17"
    "bit imm 18 = gather tbl sx inst 18" "bit imm 19 = gather tbl sx inst 19" "bit imm 20 = gather tbl sx inst 20"
    "bit imm 21 = gather tbl sx inst 21" "bit imm 22 = gather tbl sx inst 22" "bit imm 23 = gather tbl sx inst 23"
    "bit imm 24 = gather tbl sx inst 24" "bit imm 25 = gather tbl sx inst 25" "bit imm 26 = gather tbl sx inst 26"
    "bit imm 27 = gather tbl sx inst 27" "bit imm 28 = gather tbl sx inst 28" "bit imm 29 = gather tbl sx inst 29"
    "bit imm 30 = gather tbl sx inst 30" "bit imm 31 = gather tbl sx inst 31"
  shows "imm_matches imm tbl sx inst"
  unfolding imm_matches_def list_all_iff
proof
  fix n
  assume "n \<in> set [0..<32]"
  then have "n \<in> {0, 1, 2, 3, 4, 5, 6, 7, 8, 9, 10, 11, 12, 13, 14, 15, 16, 17, 18, 19,
      20, 21, 22, 23, 24, 25, 26, 27, 28, 29, 30, 31}"
    by (simp, presburger)
  then show "bit imm n = gather tbl sx inst n"
    using assms by (elim insertE) simp_all
qed

lemmas imm_layout_simps = gather_def bit_simps upt_rec_numeral

lemma b_imm_layout:
  "imm_matches (b_imm inst)
     [None, Some 8, Some 9, Some 10, Some 11, Some 25, Some 26, Some 27, Some 28, Some 29, Some 30,
      Some 7, Some 31] True inst"
  by (rule imm_matchesI) (simp_all add: imm_layout_simps b_imm_def)

lemma i_imm_layout:
  "imm_matches (i_imm inst)
     [Some 20, Some 21, Some 22, Some 23, Some 24, Some 25, Some 26, Some 27, Some 28, Some 29,
      Some 30, Some 31] True inst"
  by (rule imm_matchesI) (simp_all add: imm_layout_simps i_imm_def)

lemma s_imm_layout:
  "imm_matches (s_imm inst)
     [Some 7, Some 8, Some 9, Some 10, Some 11, Some 25, Some 26, Some 27, Some 28, Some 29,
      Some 30, Some 31] True inst"
  by (rule imm_matchesI) (simp_all add: imm_layout_simps s_imm_def)

lemma u_imm_layout:
  "imm_matches (u_imm inst) (replicate 12 None @ map Some [12..<32]) False inst"
  by (rule imm_matchesI) (simp_all add: imm_layout_simps u_imm_def numeral_eq_Suc)

lemma j_imm_layout:
  "imm_matches (j_imm inst)
     ([None] @ map Some [21..<31] @ [Some 20] @ map Some [12..<20] @ [Some 31]) True inst"
  by (rule imm_matchesI) (simp_all add: imm_layout_simps j_imm_def)

lemma ci_imm_layout:
  "imm_matches (ci_imm inst) [Some 2, Some 3, Some 4, Some 5, Some 6, Some 12] True inst"
  by (rule imm_matchesI) (simp_all add: imm_layout_simps ci_imm_def)

lemma ci_addi16sp_imm_layout:
  "imm_matches (ci_addi16sp_imm inst)
     [None, None, None, None, Some 6, Some 2, Some 5, Some 3, Some 4, Some 12] True inst"
  by (rule imm_matchesI) (simp_all add: imm_layout_simps ci_addi16sp_imm_def del: push_bit_Suc)

lemma ci_lwsp_imm_layout:
  "imm_matches (ci_lwsp_imm inst)
     [None, None, Some 4, Some 5, Some 6, Some 12, Some 2, Some 3] False inst"
  by (rule imm_matchesI) (simp_all add: imm_layout_simps ci_lwsp_imm_def)

lemma css_swsp_imm_layout:
  "imm_matches (css_swsp_imm inst)
     [None, None, Some 9, Some 10, Some 11, Some 12, Some 7, Some 8] False inst"
  by (rule imm_matchesI) (simp_all add: imm_layout_simps css_swsp_imm_def)

lemma ciw_addi4spn_imm_layout:
  "imm_matches (ucast (ciw_addi4spn_imm inst))
     [None, None, Some 6, Some 5, Some 11, Some 12, Some 7, Some 8, Some 9, Some 10] False inst"
  by (rule imm_matchesI) (simp_all add: imm_layout_simps ciw_addi4spn_imm_def)

lemma cl_lw_offset_layout:
  "imm_matches (cl_lw_offset inst)
     [None, None, Some 6, Some 10, Some 11, Some 12, Some 5] False inst"
  by (rule imm_matchesI) (simp_all add: imm_layout_simps cl_lw_offset_def del: push_bit_Suc)

lemma cb_imm_layout:
  "imm_matches (cb_imm inst)
     [None, Some 3, Some 4, Some 10, Some 11, Some 2, Some 5, Some 6, Some 12] True inst"
  by (rule imm_matchesI) (simp_all add: imm_layout_simps cb_imm_def del: push_bit_Suc)

lemma cj_imm_layout:
  "imm_matches (cj_imm inst)
     [None, Some 3, Some 4, Some 5, Some 11, Some 2, Some 7, Some 6, Some 9, Some 10, Some 8,
      Some 12] True inst"
  by (rule imm_matchesI) (simp_all add: imm_layout_simps cj_imm_def del: push_bit_Suc)

lemma imm_matches_bit:
  "imm_matches imm tbl sx inst \<Longrightarrow> n < 32 \<Longrightarrow> bit imm n = gather tbl sx inst n"
  by (simp add: imm_matches_def list_all_iff)

section \<open>What the decoder produces\<close>

text \<open>Register numbers index a file of 32 registers, and control transfers have even offsets.\<close>

definition regs_below :: "u8 list \<Rightarrow> bool" where
  "regs_below rs = list_all (\<lambda>r. r < 32) rs"

definition offset_even :: "op \<Rightarrow> bool" where
  "offset_even p =
     (case p of
        Beq _ _ imm \<Rightarrow> \<not> bit imm 0
      | Bne _ _ imm \<Rightarrow> \<not> bit imm 0
      | Blt _ _ imm \<Rightarrow> \<not> bit imm 0
      | Bge _ _ imm \<Rightarrow> \<not> bit imm 0
      | Bltu _ _ imm \<Rightarrow> \<not> bit imm 0
      | Bgeu _ _ imm \<Rightarrow> \<not> bit imm 0
      | Jal _ imm \<Rightarrow> \<not> bit imm 0
      | _ \<Rightarrow> True)"

definition op_ok :: "op \<Rightarrow> bool" where
  "op_ok p = (regs_below (op_regs p) \<and> offset_even p)"

lemma op_ok_if: "op_ok x \<Longrightarrow> op_ok y \<Longrightarrow> op_ok (if b then x else y)"
  by simp

lemma and_mask5_less: "ucast (x AND 0b11111 :: 'a::len word) < (32 :: u8)"
proof -
  have "ucast (x AND 0b11111) = (take_bit 5 (ucast x) :: u8)"
    by (rule word8_eqI) (auto simp: bit_simps dest: bit_imp_le_length)
  then show ?thesis
    by (simp add: word_less_nat_alt unsigned_take_bit_eq take_bit_eq_mod unat_mod)
qed

lemma and_mask3_less: "8 + ucast (x AND 0b111 :: 'a::len word) < (32 :: u8)"
proof -
  have "ucast (x AND 0b111) = (take_bit 3 (ucast x) :: u8)"
    by (rule word8_eqI) (auto simp: bit_simps dest: bit_imp_le_length)
  moreover have "unat (take_bit 3 (ucast x) :: u8) < 8"
    by (simp add: unsigned_take_bit_eq take_bit_eq_mod unat_mod)
  ultimately show ?thesis
    by (simp add: word_less_nat_alt unat_word_ariths)
qed

lemma reg_field_less [simp]:
  "inst_rd inst < 32" "inst_rs1 inst < 32" "inst_rs2 inst < 32"
  "c_rd c < 32" "c_rs1 c < 32" "c_rs2 c < 32"
  "c_rds c < 32" "c_rs1s c < 32" "c_rs2s c < 32"
  by (simp_all add: inst_rd_def inst_rs1_def inst_rs2_def c_rd_def c_rs1_def c_rs2_def c_rds_def
      c_rs1s_def c_rs2s_def and_mask5_less and_mask3_less)

lemma jump_imm_even [simp]:
  "\<not> bit (b_imm inst) 0" "\<not> bit (j_imm inst) 0" "\<not> bit (cb_imm c) 0" "\<not> bit (cj_imm c) 0"
  using imm_matches_bit [OF b_imm_layout, of 0] imm_matches_bit [OF j_imm_layout, of 0]
    imm_matches_bit [OF cb_imm_layout, of 0] imm_matches_bit [OF cj_imm_layout, of 0]
  by (simp_all add: gather_def)

lemmas op_ok_simps = op_ok_def regs_below_def offset_even_def

lemma decode_uncompressed_ok: "op_ok (decode_uncompressed inst)"
  unfolding decode_uncompressed_def
  by (intro op_ok_if) (simp_all add: op_ok_simps)

lemma decode_compressed_ok: "op_ok (decode_compressed inst)"
  unfolding decode_compressed_def Let_def
  by (intro op_ok_if) (simp_all add: op_ok_simps)

lemma op_ok_decode: "op_ok (fst (decode inst))"
  by (simp add: decode_def decode_uncompressed_ok decode_compressed_ok)

text \<open>
  C21: every register number in a decoded instruction is below 32, so the executor's accesses
  \<open>self.regs[r as usize]\<close> to the file of 32 registers never panic, and every branch and jump offset is
  even, whatever 32-bit word is decoded.
\<close>

theorem decode_ok: "op_ok (fst (decode inst))"
  by (rule op_ok_decode)

section \<open>Decoding inverts the manual's encoding\<close>

text \<open>
  An encoder written from the instruction formats of the RISC-V manual (a specification; the
  repository has only a decoder): the seven fields of a 32-bit word, the formats R, I, B, U and
  J on top of them, and one equation per instruction with its opcode and function codes.
\<close>

definition enc_fields :: "u32 \<Rightarrow> u32 \<Rightarrow> u32 \<Rightarrow> u32 \<Rightarrow> u32 \<Rightarrow> u32 \<Rightarrow> u32" where
  "enc_fields opc a f3 b c f7 =
     (opc AND 0x7f) OR push_bit 7 (a AND 0x1f) OR push_bit 12 (f3 AND 0x7) OR
     push_bit 15 (b AND 0x1f) OR push_bit 20 (c AND 0x1f) OR push_bit 25 (f7 AND 0x7f)"

definition enc_r :: "u32 \<Rightarrow> u32 \<Rightarrow> u32 \<Rightarrow> u8 \<Rightarrow> u8 \<Rightarrow> u8 \<Rightarrow> u32" where
  "enc_r opc f3 f7 rd rs1 rs2 = enc_fields opc (ucast rd) f3 (ucast rs1) (ucast rs2) f7"

definition enc_i :: "u32 \<Rightarrow> u32 \<Rightarrow> u8 \<Rightarrow> u8 \<Rightarrow> i32 \<Rightarrow> u32" where
  "enc_i opc f3 rd rs1 imm = enc_fields opc (ucast rd) f3 (ucast rs1) imm (drop_bit 5 imm)"

definition enc_b :: "u32 \<Rightarrow> u8 \<Rightarrow> u8 \<Rightarrow> i32 \<Rightarrow> u32" where
  "enc_b f3 rs1 rs2 imm =
     enc_fields 0x63 ((imm AND 0x1e) OR (drop_bit 11 imm AND 1)) f3 (ucast rs1) (ucast rs2)
       ((drop_bit 5 imm AND 0x3f) OR (push_bit 6 (drop_bit 12 imm) AND 0x40))"

definition enc_u :: "u32 \<Rightarrow> u8 \<Rightarrow> i32 \<Rightarrow> u32" where
  "enc_u opc rd imm =
     enc_fields opc (ucast rd) (drop_bit 12 imm) (drop_bit 15 imm) (drop_bit 20 imm) (drop_bit 25 imm)"

definition enc_j :: "u8 \<Rightarrow> i32 \<Rightarrow> u32" where
  "enc_j rd imm =
     enc_fields 0x6f (ucast rd) (drop_bit 12 imm) (drop_bit 15 imm)
       ((imm AND 0x1e) OR (drop_bit 11 imm AND 1))
       ((drop_bit 5 imm AND 0x3f) OR (push_bit 6 (drop_bit 20 imm) AND 0x40))"

primrec encode :: "op \<Rightarrow> u32" where
  "encode (Add rd rs1 rs2) = enc_r 0x33 0 0x0 rd rs1 rs2"
| "encode (Sub rd rs1 rs2) = enc_r 0x33 0 0x20 rd rs1 rs2"
| "encode (Sll rd rs1 rs2) = enc_r 0x33 1 0x0 rd rs1 rs2"
| "encode (Slt rd rs1 rs2) = enc_r 0x33 2 0x0 rd rs1 rs2"
| "encode (Sltu rd rs1 rs2) = enc_r 0x33 3 0x0 rd rs1 rs2"
| "encode (Xor rd rs1 rs2) = enc_r 0x33 4 0x0 rd rs1 rs2"
| "encode (Srl rd rs1 rs2) = enc_r 0x33 5 0x0 rd rs1 rs2"
| "encode (Sra rd rs1 rs2) = enc_r 0x33 5 0x20 rd rs1 rs2"
| "encode (Or rd rs1 rs2) = enc_r 0x33 6 0x0 rd rs1 rs2"
| "encode (And rd rs1 rs2) = enc_r 0x33 7 0x0 rd rs1 rs2"
| "encode (Mul rd rs1 rs2) = enc_r 0x33 0 0x1 rd rs1 rs2"
| "encode (Mulh rd rs1 rs2) = enc_r 0x33 1 0x1 rd rs1 rs2"
| "encode (Mulhsu rd rs1 rs2) = enc_r 0x33 2 0x1 rd rs1 rs2"
| "encode (Mulhu rd rs1 rs2) = enc_r 0x33 3 0x1 rd rs1 rs2"
| "encode (Div rd rs1 rs2) = enc_r 0x33 4 0x1 rd rs1 rs2"
| "encode (Divu rd rs1 rs2) = enc_r 0x33 5 0x1 rd rs1 rs2"
| "encode (Rem rd rs1 rs2) = enc_r 0x33 6 0x1 rd rs1 rs2"
| "encode (Remu rd rs1 rs2) = enc_r 0x33 7 0x1 rd rs1 rs2"
| "encode (Addi rd rs1 imm) = enc_i 0x13 0 rd rs1 imm"
| "encode (Slti rd rs1 imm) = enc_i 0x13 2 rd rs1 imm"
| "encode (Sltiu rd rs1 imm) = enc_i 0x13 3 rd rs1 imm"
| "encode (Xori rd rs1 imm) = enc_i 0x13 4 rd rs1 imm"
| "encode (Ori rd rs1 imm) = enc_i 0x13 6 rd rs1 imm"
| "encode (Andi rd rs1 imm) = enc_i 0x13 7 rd rs1 imm"
| "encode (Jalr rd rs1 imm) = enc_i 0x67 0 rd rs1 imm"
| "encode (Lb rd rs1 imm) = enc_i 0x3 0 rd rs1 imm"
| "encode (Lh rd rs1 imm) = enc_i 0x3 1 rd rs1 imm"
| "encode (Lw rd rs1 imm) = enc_i 0x3 2 rd rs1 imm"
| "encode (Lbu rd rs1 imm) = enc_i 0x3 4 rd rs1 imm"
| "encode (Lhu rd rs1 imm) = enc_i 0x3 5 rd rs1 imm"
| "encode (Slli rd rs1 imm) = enc_fields 0x13 (ucast rd) 1 (ucast rs1) imm 0"
| "encode (Srli rd rs1 imm) = enc_fields 0x13 (ucast rd) 5 (ucast rs1) imm 0"
| "encode (Srai rd rs1 imm) = enc_fields 0x13 (ucast rd) 5 (ucast rs1) imm 0x20"
| "encode (Sb rs1 rs2 imm) = enc_fields 0x23 imm 0 (ucast rs1) (ucast rs2) (drop_bit 5 imm)"
| "encode (Sh rs1 rs2 imm) = enc_fields 0x23 imm 1 (ucast rs1) (ucast rs2) (drop_bit 5 imm)"
| "encode (Sw rs1 rs2 imm) = enc_fields 0x23 imm 2 (ucast rs1) (ucast rs2) (drop_bit 5 imm)"
| "encode (Beq rs1 rs2 imm) = enc_b 0 rs1 rs2 imm"
| "encode (Bne rs1 rs2 imm) = enc_b 1 rs1 rs2 imm"
| "encode (Blt rs1 rs2 imm) = enc_b 4 rs1 rs2 imm"
| "encode (Bge rs1 rs2 imm) = enc_b 5 rs1 rs2 imm"
| "encode (Bltu rs1 rs2 imm) = enc_b 6 rs1 rs2 imm"
| "encode (Bgeu rs1 rs2 imm) = enc_b 7 rs1 rs2 imm"
| "encode (Lui rd imm) = enc_u 0x37 rd imm"
| "encode (Auipc rd imm) = enc_u 0x17 rd imm"
| "encode (Jal rd imm) = enc_j rd imm"
| "encode (LrW rd rs1) = enc_r 0x2f 2 0x8 rd rs1 0"
| "encode (ScW rd rs1 rs2) = enc_r 0x2f 2 0xc rd rs1 rs2"
| "encode (AmoswapW rd rs1 rs2) = enc_r 0x2f 2 0x4 rd rs1 rs2"
| "encode (AmoaddW rd rs1 rs2) = enc_r 0x2f 2 0x0 rd rs1 rs2"
| "encode (AmoxorW rd rs1 rs2) = enc_r 0x2f 2 0x10 rd rs1 rs2"
| "encode (AmoandW rd rs1 rs2) = enc_r 0x2f 2 0x30 rd rs1 rs2"
| "encode (AmoorW rd rs1 rs2) = enc_r 0x2f 2 0x20 rd rs1 rs2"
| "encode (AmominW rd rs1 rs2) = enc_r 0x2f 2 0x40 rd rs1 rs2"
| "encode (AmomaxW rd rs1 rs2) = enc_r 0x2f 2 0x50 rd rs1 rs2"
| "encode (AmominuW rd rs1 rs2) = enc_r 0x2f 2 0x60 rd rs1 rs2"
| "encode (AmomaxuW rd rs1 rs2) = enc_r 0x2f 2 0x70 rd rs1 rs2"
| "encode Fence = 0x0f"
| "encode Ecall = 0x73"
| "encode Break = 0x00100073"
| "encode Unknown = 0x7f"

text \<open>The instructions an encoding exists for: register numbers and immediates in range.\<close>

primrec valid_op :: "op \<Rightarrow> bool" where
  "valid_op (Add rd rs1 rs2) = regs_below [rd, rs1, rs2]"
| "valid_op (Sub rd rs1 rs2) = regs_below [rd, rs1, rs2]"
| "valid_op (Sll rd rs1 rs2) = regs_below [rd, rs1, rs2]"
| "valid_op (Slt rd rs1 rs2) = regs_below [rd, rs1, rs2]"
| "valid_op (Sltu rd rs1 rs2) = regs_below [rd, rs1, rs2]"
| "valid_op (Xor rd rs1 rs2) = regs_below [rd, rs1, rs2]"
| "valid_op (Srl rd rs1 rs2) = regs_below [rd, rs1, rs2]"
| "valid_op (Sra rd rs1 rs2) = regs_below [rd, rs1, rs2]"
| "valid_op (Or rd rs1 rs2) = regs_below [rd, rs1, rs2]"
| "valid_op (And rd rs1 rs2) = regs_below [rd, rs1, rs2]"
| "valid_op (Mul rd rs1 rs2) = regs_below [rd, rs1, rs2]"
| "valid_op (Mulh rd rs1 rs2) = regs_below [rd, rs1, rs2]"
| "valid_op (Mulhsu rd rs1 rs2) = regs_below [rd, rs1, rs2]"
| "valid_op (Mulhu rd rs1 rs2) = regs_below [rd, rs1, rs2]"
| "valid_op (Div rd rs1 rs2) = regs_below [rd, rs1, rs2]"
| "valid_op (Divu rd rs1 rs2) = regs_below [rd, rs1, rs2]"
| "valid_op (Rem rd rs1 rs2) = regs_below [rd, rs1, rs2]"
| "valid_op (Remu rd rs1 rs2) = regs_below [rd, rs1, rs2]"
| "valid_op (Addi rd rs1 imm) = (regs_below [rd, rs1] \<and> signed_take_bit 11 imm = imm)"
| "valid_op (Slti rd rs1 imm) = (regs_below [rd, rs1] \<and> signed_take_bit 11 imm = imm)"
| "valid_op (Sltiu rd rs1 imm) = (regs_below [rd, rs1] \<and> signed_take_bit 11 imm = imm)"
| "valid_op (Xori rd rs1 imm) = (regs_below [rd, rs1] \<and> signed_take_bit 11 imm = imm)"
| "valid_op (Ori rd rs1 imm) = (regs_below [rd, rs1] \<and> signed_take_bit 11 imm = imm)"
| "valid_op (Andi rd rs1 imm) = (regs_below [rd, rs1] \<and> signed_take_bit 11 imm = imm)"
| "valid_op (Jalr rd rs1 imm) = (regs_below [rd, rs1] \<and> signed_take_bit 11 imm = imm)"
| "valid_op (Lb rd rs1 imm) = (regs_below [rd, rs1] \<and> signed_take_bit 11 imm = imm)"
| "valid_op (Lh rd rs1 imm) = (regs_below [rd, rs1] \<and> signed_take_bit 11 imm = imm)"
| "valid_op (Lw rd rs1 imm) = (regs_below [rd, rs1] \<and> signed_take_bit 11 imm = imm)"
| "valid_op (Lbu rd rs1 imm) = (regs_below [rd, rs1] \<and> signed_take_bit 11 imm = imm)"
| "valid_op (Lhu rd rs1 imm) = (regs_below [rd, rs1] \<and> signed_take_bit 11 imm = imm)"
| "valid_op (Slli rd rs1 imm) = (regs_below [rd, rs1] \<and> (imm AND 0x1f) = imm)"
| "valid_op (Srli rd rs1 imm) = (regs_below [rd, rs1] \<and> (imm AND 0x1f) = imm)"
| "valid_op (Srai rd rs1 imm) = (regs_below [rd, rs1] \<and> 0x400 OR (imm AND 0x1f) = imm)"
| "valid_op (Sb rs1 rs2 imm) = (regs_below [rs1, rs2] \<and> signed_take_bit 11 imm = imm)"
| "valid_op (Sh rs1 rs2 imm) = (regs_below [rs1, rs2] \<and> signed_take_bit 11 imm = imm)"
| "valid_op (Sw rs1 rs2 imm) = (regs_below [rs1, rs2] \<and> signed_take_bit 11 imm = imm)"
| "valid_op (Beq rs1 rs2 imm) = (regs_below [rs1, rs2] \<and> signed_take_bit 12 imm = imm \<and> \<not> bit imm 0)"
| "valid_op (Bne rs1 rs2 imm) = (regs_below [rs1, rs2] \<and> signed_take_bit 12 imm = imm \<and> \<not> bit imm 0)"
| "valid_op (Blt rs1 rs2 imm) = (regs_below [rs1, rs2] \<and> signed_take_bit 12 imm = imm \<and> \<not> bit imm 0)"
| "valid_op (Bge rs1 rs2 imm) = (regs_below [rs1, rs2] \<and> signed_take_bit 12 imm = imm \<and> \<not> bit imm 0)"
| "valid_op (Bltu rs1 rs2 imm) = (regs_below [rs1, rs2] \<and> signed_take_bit 12 imm = imm \<and> \<not> bit imm 0)"
| "valid_op (Bgeu rs1 rs2 imm) = (regs_below [rs1, rs2] \<and> signed_take_bit 12 imm = imm \<and> \<not> bit imm 0)"
| "valid_op (Lui rd imm) = (regs_below [rd] \<and> imm AND 0xfff = 0)"
| "valid_op (Auipc rd imm) = (regs_below [rd] \<and> imm AND 0xfff = 0)"
| "valid_op (Jal rd imm) = (regs_below [rd] \<and> signed_take_bit 20 imm = imm \<and> \<not> bit imm 0)"
| "valid_op (LrW rd rs1) = regs_below [rd, rs1]"
| "valid_op (ScW rd rs1 rs2) = regs_below [rd, rs1, rs2]"
| "valid_op (AmoswapW rd rs1 rs2) = regs_below [rd, rs1, rs2]"
| "valid_op (AmoaddW rd rs1 rs2) = regs_below [rd, rs1, rs2]"
| "valid_op (AmoxorW rd rs1 rs2) = regs_below [rd, rs1, rs2]"
| "valid_op (AmoandW rd rs1 rs2) = regs_below [rd, rs1, rs2]"
| "valid_op (AmoorW rd rs1 rs2) = regs_below [rd, rs1, rs2]"
| "valid_op (AmominW rd rs1 rs2) = regs_below [rd, rs1, rs2]"
| "valid_op (AmomaxW rd rs1 rs2) = regs_below [rd, rs1, rs2]"
| "valid_op (AmominuW rd rs1 rs2) = regs_below [rd, rs1, rs2]"
| "valid_op (AmomaxuW rd rs1 rs2) = regs_below [rd, rs1, rs2]"
| "valid_op Fence = True"
| "valid_op Ecall = True"
| "valid_op Break = True"
| "valid_op Unknown = False"

lemma enc_fields_masks [simp]:
  "enc_fields opc a f3 b c f7 AND 0x7f = opc AND 0x7f"
  "enc_fields opc a f3 b c f7 AND 0x707f = (opc AND 0x7f) OR push_bit 12 (f3 AND 0x7)"
  "enc_fields opc a f3 b c f7 AND 0xfe00707f =
     (opc AND 0x7f) OR push_bit 12 (f3 AND 0x7) OR push_bit 25 (f7 AND 0x7f)"
  "enc_fields opc a f3 b c f7 AND 0xf800707f =
     (opc AND 0x7f) OR push_bit 12 (f3 AND 0x7) OR push_bit 25 (f7 AND 0x7c)"
  "enc_fields opc a f3 b c f7 AND 0x3 = opc AND 0x3"
  by (rule word32_eqI; simp add: enc_fields_def bit_simps)+

lemma reg_mask: "r < 32 \<Longrightarrow> ucast (ucast (r :: u8) AND 0x1f :: u32) = r"
proof -
  assume "r < 32"
  then have "\<not> bit r 5" "\<not> bit r 6" "\<not> bit r 7"
    using word_less_power_bits [of r 5] by simp_all
  then show ?thesis
    by (intro word8_eqI) (simp_all add: bit_simps)
qed

lemma enc_fields_regs:
  "inst_rd (enc_fields opc a f3 b c f7) = ucast (a AND 0x1f)"
  "inst_rs1 (enc_fields opc a f3 b c f7) = ucast (b AND 0x1f)"
  "inst_rs2 (enc_fields opc a f3 b c f7) = ucast (c AND 0x1f)"
  by (rule word8_eqI; simp add: enc_fields_def inst_rd_def inst_rs1_def inst_rs2_def bit_simps)+

lemma enc_i_imm: "i_imm (enc_i opc f3 rd rs1 imm) = signed_take_bit 11 imm"
  by (rule word32_eqI) (simp_all add: enc_i_def enc_fields_def i_imm_def bit_simps)

lemma enc_s_imm:
  "s_imm (enc_fields opc imm f3 b c (drop_bit 5 imm)) = signed_take_bit 11 imm"
  by (rule word32_eqI) (simp_all add: enc_fields_def s_imm_def bit_simps)

lemma enc_b_imm: "\<not> bit imm 0 \<Longrightarrow> b_imm (enc_b f3 rs1 rs2 imm) = signed_take_bit 12 imm"
  by (rule word32_eqI) (simp_all add: enc_b_def enc_fields_def b_imm_def bit_simps)

lemma low_zero_bits:
  assumes "imm AND 0xfff = (0 :: u32)"
  shows "\<not> bit imm 0" "\<not> bit imm (Suc 0)" "\<not> bit imm 2" "\<not> bit imm 3" "\<not> bit imm 4" "\<not> bit imm 5"
    "\<not> bit imm 6" "\<not> bit imm 7" "\<not> bit imm 8" "\<not> bit imm 9" "\<not> bit imm 10" "\<not> bit imm 11"
proof -
  have *: "\<not> (bit imm n \<and> bit (0xfff :: u32) n)" for n
    using assms by (metis bit_and_iff bit_0_eq bot_apply bot_bool_def)
  show "\<not> bit imm 0" "\<not> bit imm (Suc 0)" "\<not> bit imm 2" "\<not> bit imm 3" "\<not> bit imm 4" "\<not> bit imm 5"
    "\<not> bit imm 6" "\<not> bit imm 7" "\<not> bit imm 8" "\<not> bit imm 9" "\<not> bit imm 10" "\<not> bit imm 11"
    using * [of 0] * [of "Suc 0"] * [of 2] * [of 3] * [of 4] * [of 5] * [of 6] * [of 7] * [of 8]
      * [of 9] * [of 10] * [of 11] by simp_all
qed

lemma enc_u_imm: "imm AND 0xfff = 0 \<Longrightarrow> u_imm (enc_u opc rd imm) = imm"
  by (rule word32_eqI) (simp_all add: enc_u_def enc_fields_def u_imm_def bit_simps low_zero_bits)

lemma enc_j_imm: "\<not> bit imm 0 \<Longrightarrow> j_imm (enc_j rd imm) = signed_take_bit 20 imm"
  by (rule word32_eqI) (simp_all add: enc_j_def enc_fields_def j_imm_def bit_simps)

lemma enc_shift_imm:
  "i_imm (enc_fields opc a f3 b s 0) = s AND 0x1f"
  "i_imm (enc_fields opc a f3 b s 0x20) = 0x400 OR s AND 0x1f"
  by (rule word32_eqI; simp add: enc_fields_def i_imm_def bit_simps)+

lemmas enc_simps = decode_def decode_uncompressed_def regs_below_def enc_fields_regs reg_mask
  enc_r_def enc_i_def enc_b_def enc_u_def enc_j_def enc_i_imm [unfolded enc_i_def] enc_s_imm
  enc_b_imm [unfolded enc_b_def] enc_u_imm [unfolded enc_u_def] enc_j_imm [unfolded enc_j_def]
  enc_shift_imm

text \<open>
  C20: decoding is a left inverse of the manual's encoding for every RV32I, M and A instruction with
  registers and immediate in range: the decoder tells all 56 of them apart and recovers every field.
\<close>

theorem decode_encode:
  assumes "valid_op p"
  shows "decode (encode p) = (p, 4)"
  using assms by (cases p) (simp_all add: enc_simps)

theorem decode_encode_witness:
  "valid_op (Beq 5 6 0xfffffff8) \<and> decode (encode (Beq 5 6 0xfffffff8)) = (Beq 5 6 0xfffffff8, 4)"
proof -
  have "valid_op (Beq 5 6 0xfffffff8)"
    by (simp add: regs_below_def) 
  then show ?thesis using decode_encode by blast
qed

end
