(* ===== verification/Vm_Memory.thy ===== *)
theory Vm_Memory
  imports Prelude
begin

text \<open>
  Paged memory and memory segments (\<open>common/src/constants.rs\<close>, \<open>common/src/vm.rs\<close>). The trait
  \<open>PagedMemory\<close> is a record of operations, \<open>VecMemory\<close> one instance of it; the segment operations
  take the record as an argument, as the Rust code is generic in \<open>M: PagedMemory\<close>. The locale
  \<open>paged_memory\<close> states what a segment relies on; in it every segment operation is shown to
  behave like the same operation on a vector of pages, and on the vector each operation is the
  read or the update of one flat byte string.

  A paged memory may use something outside itself, such as the connection to the client, that the
  three memories of a processor share: the type \<open>'w\<close>. \<open>VecMemory\<close> does not use it.
\<close>

section \<open>Constants\<close>

definition PAGE_SIZE :: nat where
  "PAGE_SIZE = 256"

definition page_start :: "u32 \<Rightarrow> u32" where
  "page_start address = address AND NOT (of_nat PAGE_SIZE - 1)"

section \<open>Paged memories\<close>

text \<open>
  \<open>MemoryError\<close>. The last two constructors are not errors of the code: they are the outcomes of a
  call that panics, which aborts the application, and of a call that never returns.
\<close>

datatype memory_error =
    PageNotFound
  | AddressOutOfBounds
  | UnalignedAddress
  | ZeroSize
  | StartAddressNotAligned
  | Overflow
  | GenericError string
  | Panicked string
  | Diverged

text \<open>The struct \<open>Page\<close> has one field, an array of \<^const>\<open>PAGE_SIZE\<close> bytes.\<close>

type_synonym page = bytes

text \<open>
  \<open>get_page\<close> returns a reference; \<open>deref\<close> reads through it and \<open>deref_mut\<close> updates the page it
  points to.
\<close>

record ('w, 'm, 'r) PagedMemory =
  get_page :: "u32 \<Rightarrow> ('w \<times> 'm, memory_error, 'r) stm"
  deref :: "'m \<Rightarrow> 'r \<Rightarrow> page"
  deref_mut :: "'m \<Rightarrow> 'r \<Rightarrow> (page \<Rightarrow> page) \<Rightarrow> 'm"

type_synonym VecMemory = "page list"

definition vec_get_page :: "u32 \<Rightarrow> ('w \<times> VecMemory, memory_error, nat) stm" where
  "vec_get_page page_index = (\<lambda>(w, pages).
     if unat page_index < length pages then ((w, pages), Ok (unat page_index))
     else ((w, pages), Err PageNotFound))"

definition VecMemory :: "('w, VecMemory, nat) PagedMemory" where
  "VecMemory = \<lparr>get_page = vec_get_page, deref = (\<lambda>pages i. pages ! i),
     deref_mut = (\<lambda>pages i f. pages[i := f (pages ! i)])\<rparr>"

definition VecMemory_new :: "nat \<Rightarrow> VecMemory" where
  "VecMemory_new n_pages = replicate n_pages (replicate PAGE_SIZE 0)"

section \<open>Memory segments\<close>

record 'm MemorySegment =
  start_address :: u32
  seg_size :: u32
  paged_memory :: 'm

definition MemorySegment_new :: "u32 \<Rightarrow> u32 \<Rightarrow> 'm \<Rightarrow> (memory_error, 'm MemorySegment) result" where
  "MemorySegment_new start n m =
     (if n = 0 then Err ZeroSize
      else if start mod 2 \<noteq> 0 then Err StartAddressNotAligned
      else if 2 ^ 32 \<le> unat start + unat (n - 1) then Err Overflow
      else Ok \<lparr>start_address = start, seg_size = n, paged_memory = m\<rparr>)"

definition contains :: "'m MemorySegment \<Rightarrow> u32 \<Rightarrow> bool" where
  "contains seg address =
     (start_address seg \<le> address \<and> address < start_address seg + seg_size seg)"

text \<open>The page index and the offset in the page, and the call of \<open>get_page\<close> on the segment's memory.\<close>

definition locate :: "'m MemorySegment \<Rightarrow> u32 \<Rightarrow> u32 \<times> nat" where
  "locate seg address =
     (let relative_address = address - page_start (start_address seg)
      in (relative_address div of_nat PAGE_SIZE, unat (relative_address mod of_nat PAGE_SIZE)))"

definition seg_get_page ::
  "('w, 'm, 'r) PagedMemory \<Rightarrow> u32 \<Rightarrow> ('w \<times> 'm MemorySegment, memory_error, 'r) stm" where
  "seg_get_page pm page_index = (\<lambda>(w, seg).
     case get_page pm page_index (w, paged_memory seg) of
       ((w', m'), res) \<Rightarrow> ((w', seg\<lparr>paged_memory := m'\<rparr>), res))"

definition seg_read ::
  "('w, 'm, 'r) PagedMemory \<Rightarrow> u32 \<Rightarrow> (page \<Rightarrow> nat \<Rightarrow> 'a) \<Rightarrow>
   ('w \<times> 'm MemorySegment, memory_error, 'a) stm" where
  "seg_read pm address f = (\<lambda>(w, seg).
     let (page_index, offset) = locate seg address in
     bindS (seg_get_page pm page_index)
       (\<lambda>page (w', seg'). returnS (f (deref pm (paged_memory seg') page) offset) (w', seg'))
       (w, seg))"

definition seg_write ::
  "('w, 'm, 'r) PagedMemory \<Rightarrow> u32 \<Rightarrow> (nat \<Rightarrow> page \<Rightarrow> page) \<Rightarrow>
   ('w \<times> 'm MemorySegment, memory_error, unit) stm" where
  "seg_write pm address f = (\<lambda>(w, seg).
     let (page_index, offset) = locate seg address in
     bindS (seg_get_page pm page_index)
       (\<lambda>page (w', seg'). returnS ()
          (w', seg'\<lparr>paged_memory := deref_mut pm (paged_memory seg') page (f offset)\<rparr>))
       (w, seg))"

definition out_of_bounds :: "'m MemorySegment \<Rightarrow> u32 \<Rightarrow> u32 \<Rightarrow> bool" where
  "out_of_bounds seg address n =
     (address < start_address seg \<or> address > start_address seg + seg_size seg - n)"

definition seg_read_u8 ::
  "('w, 'm, 'r) PagedMemory \<Rightarrow> u32 \<Rightarrow> ('w \<times> 'm MemorySegment, memory_error, u8) stm" where
  "seg_read_u8 pm address = (\<lambda>(w, seg).
     if out_of_bounds seg address 1 then throwS AddressOutOfBounds (w, seg)
     else seg_read pm address (\<lambda>data offset. data ! offset) (w, seg))"

definition seg_read_u16 ::
  "('w, 'm, 'r) PagedMemory \<Rightarrow> u32 \<Rightarrow> ('w \<times> 'm MemorySegment, memory_error, u16) stm" where
  "seg_read_u16 pm address = (\<lambda>(w, seg).
     if out_of_bounds seg address 2 then throwS AddressOutOfBounds (w, seg)
     else if address mod 2 \<noteq> 0 then throwS UnalignedAddress (w, seg)
     else seg_read pm address
       (\<lambda>data offset. u16_from_le_bytes (data ! offset) (data ! (offset + 1))) (w, seg))"

definition seg_read_u32 ::
  "('w, 'm, 'r) PagedMemory \<Rightarrow> u32 \<Rightarrow> ('w \<times> 'm MemorySegment, memory_error, u32) stm" where
  "seg_read_u32 pm address = (\<lambda>(w, seg).
     if out_of_bounds seg address 4 then throwS AddressOutOfBounds (w, seg)
     else if address mod 4 \<noteq> 0 then throwS UnalignedAddress (w, seg)
     else seg_read pm address
       (\<lambda>data offset. u32_from_le_bytes (data ! offset) (data ! (offset + 1)) (data ! (offset + 2))
          (data ! (offset + 3))) (w, seg))"

definition seg_write_u8 ::
  "('w, 'm, 'r) PagedMemory \<Rightarrow> u32 \<Rightarrow> u8 \<Rightarrow> ('w \<times> 'm MemorySegment, memory_error, unit) stm" where
  "seg_write_u8 pm address value = (\<lambda>(w, seg).
     if out_of_bounds seg address 1 then throwS AddressOutOfBounds (w, seg)
     else seg_write pm address (\<lambda>offset data. data[offset := value]) (w, seg))"

definition seg_write_u16 ::
  "('w, 'm, 'r) PagedMemory \<Rightarrow> u32 \<Rightarrow> u16 \<Rightarrow> ('w \<times> 'm MemorySegment, memory_error, unit) stm" where
  "seg_write_u16 pm address value = (\<lambda>(w, seg).
     if out_of_bounds seg address 2 then throwS AddressOutOfBounds (w, seg)
     else if address mod 2 \<noteq> 0 then throwS UnalignedAddress (w, seg)
     else seg_write pm address
       (\<lambda>offset data. data[offset := ucast value, offset + 1 := ucast (drop_bit 8 value)]) (w, seg))"

definition seg_write_u32 ::
  "('w, 'm, 'r) PagedMemory \<Rightarrow> u32 \<Rightarrow> u32 \<Rightarrow> ('w \<times> 'm MemorySegment, memory_error, unit) stm" where
  "seg_write_u32 pm address value = (\<lambda>(w, seg).
     if out_of_bounds seg address 4 then throwS AddressOutOfBounds (w, seg)
     else if address mod 4 \<noteq> 0 then throwS UnalignedAddress (w, seg)
     else seg_write pm address
       (\<lambda>offset data. data[offset := ucast value, offset + 1 := ucast (drop_bit 8 value),
          offset + 2 := ucast (drop_bit 16 value), offset + 3 := ucast (drop_bit 24 value)]) (w, seg))"

text \<open>
  The loops of \<open>read_buffer\<close> and \<open>write_buffer\<close>: one page per iteration. \<open>todo\<close> is
  \<open>buffer.len() - bytes_read\<close>; the bytes read so far are returned in front of the rest.
\<close>

definition chunk_len :: "'m MemorySegment \<Rightarrow> u32 \<Rightarrow> nat \<Rightarrow> nat" where
  "chunk_len seg current todo = min (PAGE_SIZE - snd (locate seg current)) todo"

lemma locate_offset_less: "snd (locate seg a) < PAGE_SIZE"
  by (simp add: locate_def PAGE_SIZE_def Let_def unat_mod)

lemma chunk_len_pos: "0 < todo \<Longrightarrow> 0 < chunk_len seg cur todo"
  using locate_offset_less [of seg cur] by (simp add: chunk_len_def)

function read_loop ::
  "('w, 'm, 'r) PagedMemory \<Rightarrow> u32 \<Rightarrow> nat \<Rightarrow> ('w \<times> 'm MemorySegment, memory_error, bytes) stm" where
  "read_loop pm current todo (w, seg) =
     (if todo = 0 then ((w, seg), Ok [])
      else
        let n = chunk_len seg current todo in
        case seg_read pm current (\<lambda>data offset. take n (drop offset data)) (w, seg) of
          (st, Inl e) \<Rightarrow> (st, Err e)
        | (st, Inr chunk) \<Rightarrow>
            (case read_loop pm (current + of_nat n) (todo - n) st of
               (st', Inl e) \<Rightarrow> (st', Err e)
             | (st', Inr rest) \<Rightarrow> (st', Ok (chunk @ rest))))"
  by pat_completeness auto
termination
  by (relation "measure (\<lambda>(pm, cur, todo, st). todo)") (auto simp: chunk_len_pos)

text \<open>
  The ends of the buffers. On the device \<open>usize\<close> has 32 bits, so the cast of the length changes nothing.
\<close>

definition read_buffer ::
  "('w, 'm, 'r) PagedMemory \<Rightarrow> u32 \<Rightarrow> nat \<Rightarrow> ('w \<times> 'm MemorySegment, memory_error, bytes) stm" where
  "read_buffer pm address len = (\<lambda>(w, seg).
     if 2 ^ 32 \<le> unat address + len then throwS Overflow (w, seg)
     else if address < start_address seg
          \<or> address + of_nat len > start_address seg + seg_size seg
       then throwS AddressOutOfBounds (w, seg)
     else read_loop pm address len (w, seg))"

definition overwrite :: "bytes \<Rightarrow> nat \<Rightarrow> page \<Rightarrow> page" where
  "overwrite chunk offset data = take offset data @ chunk @ drop (offset + length chunk) data"

function write_loop ::
  "('w, 'm, 'r) PagedMemory \<Rightarrow> u32 \<Rightarrow> bytes \<Rightarrow> ('w \<times> 'm MemorySegment, memory_error, unit) stm" where
  "write_loop pm current buffer (w, seg) =
     (if buffer = [] then ((w, seg), Ok ())
      else
        let n = chunk_len seg current (length buffer) in
        case seg_write pm current (overwrite (take n buffer)) (w, seg) of
          (st, Inl e) \<Rightarrow> (st, Err e)
        | (st, Inr _) \<Rightarrow> write_loop pm (current + of_nat n) (drop n buffer) st)"
  by pat_completeness auto
termination
  by (relation "measure (\<lambda>(pm, cur, buffer, st). length buffer)") (auto simp: chunk_len_pos)

definition write_buffer ::
  "('w, 'm, 'r) PagedMemory \<Rightarrow> u32 \<Rightarrow> bytes \<Rightarrow> ('w \<times> 'm MemorySegment, memory_error, unit) stm" where
  "write_buffer pm address buffer = (\<lambda>(w, seg).
     if 2 ^ 32 \<le> unat address + length buffer then throwS Overflow (w, seg)
     else if address < start_address seg
          \<or> address + of_nat (length buffer) > start_address seg + seg_size seg
       then throwS AddressOutOfBounds (w, seg)
     else write_loop pm address buffer (w, seg))"


section \<open>Addresses and pages\<close>

definition page_ok :: "page \<Rightarrow> bool" where
  "page_ok data = (length data = PAGE_SIZE)"

definition pages_ok :: "page list \<Rightarrow> bool" where
  "pages_ok ps = list_all page_ok ps"

text \<open>
  A segment fits its pages: it has at least one word, its end is an address, and its last byte
  is on the last page or before.
\<close>

definition seg_fits :: "'m MemorySegment \<Rightarrow> nat \<Rightarrow> bool" where
  "seg_fits seg n \<longleftrightarrow> 4 \<le> seg_size seg \<and>
     unat (start_address seg) + unat (seg_size seg) < 2 ^ 32 \<and>
     unat (start_address seg) mod PAGE_SIZE + unat (seg_size seg) \<le> n * PAGE_SIZE"

text \<open>The position of an address in the byte string that the pages form together.\<close>

definition flat_pos :: "'m MemorySegment \<Rightarrow> u32 \<Rightarrow> nat" where
  "flat_pos seg a = unat a - unat (page_start (start_address seg))"

definition in_seg :: "'m MemorySegment \<Rightarrow> nat \<Rightarrow> nat \<Rightarrow> bool" where
  "in_seg seg a n \<longleftrightarrow> unat (start_address seg) \<le> a \<and> a + n \<le> unat (start_address seg) + unat (seg_size seg)"

lemma page_start_alt: "page_start a = a - take_bit 8 a"
proof -
  have m: "of_nat PAGE_SIZE - 1 = (mask 8 :: u32)"
    by (simp add: PAGE_SIZE_def mask_eq_decr_exp)
  have "(a AND mask 8) + (a AND NOT (mask 8)) = a"
    by (subst disjunctive_add_eq_or) (auto simp: bit_eq_iff bit_simps)
  then show ?thesis
    unfolding page_start_def m take_bit_eq_mask by (simp add: algebra_simps)
qed

lemma unat_page_start: "unat (page_start a) = unat a div PAGE_SIZE * PAGE_SIZE"
proof -
  have "unat (take_bit 8 a) = unat a mod 256"
    by (simp add: unsigned_take_bit_eq take_bit_eq_mod unat_mod)
  moreover have "take_bit 8 a \<le> a"
    by (simp add: word_le_nat_alt unsigned_take_bit_eq take_bit_eq_mod unat_mod)
  ultimately show ?thesis
    by (simp add: page_start_alt unat_sub PAGE_SIZE_def minus_mod_eq_div_mult)
qed

lemma flat_pos_bounds:
  assumes "seg_fits seg n" "in_seg seg (unat a) k"
  shows "flat_pos seg a + k \<le> n * PAGE_SIZE" "unat (page_start (start_address seg)) \<le> unat a"
proof -
  have "unat (page_start (start_address seg)) + unat (start_address seg) mod PAGE_SIZE
      = unat (start_address seg)"
    by (simp add: unat_page_start)
  with assms show "flat_pos seg a + k \<le> n * PAGE_SIZE" "unat (page_start (start_address seg)) \<le> unat a"
    by (auto simp: flat_pos_def seg_fits_def in_seg_def)
qed

lemma locate_flat:
  assumes "seg_fits seg n" "in_seg seg (unat a) k"
  shows "unat (fst (locate seg a)) = flat_pos seg a div PAGE_SIZE"
    "snd (locate seg a) = flat_pos seg a mod PAGE_SIZE"
  using flat_pos_bounds [OF assms]
  by (simp_all add: locate_def Let_def unat_div unat_mod PAGE_SIZE_def flat_pos_def unat_sub
      word_le_nat_alt)

lemma locate_in_pages:
  assumes "seg_fits seg n" "in_seg seg (unat a) k" "0 < k"
  shows "unat (fst (locate seg a)) < n"
proof -
  have "flat_pos seg a < n * PAGE_SIZE"
    using flat_pos_bounds [OF assms(1,2)] assms(3) by simp
  then show ?thesis
    using locate_flat [OF assms(1,2)] by (simp add: less_mult_imp_div_less)
qed

lemma unat_last_access:
  assumes "seg_fits seg n" "k \<le> 4"
  shows "unat (start_address seg + seg_size seg - of_nat k)
    = unat (start_address seg) + unat (seg_size seg) - k"
proof -
  have "unat (start_address seg + seg_size seg) = unat (start_address seg) + unat (seg_size seg)"
    using assms(1) by (simp add: seg_fits_def unat_word_ariths)
  moreover have "unat (of_nat k :: u32) = k" using assms(2) by (simp add: unat_of_nat)
  ultimately show ?thesis
    using assms by (subst unat_sub) (auto simp: word_le_nat_alt seg_fits_def)
qed

lemma out_of_bounds_iff:
  assumes "seg_fits seg n" "k \<le> 4"
  shows "out_of_bounds seg a (of_nat k) \<longleftrightarrow> \<not> in_seg seg (unat a) k"
proof -
  have "4 \<le> unat (seg_size seg)"
    using assms(1) by (auto simp: seg_fits_def word_le_nat_alt)
  with unat_last_access [OF assms] assms(2) show ?thesis
    by (auto simp: out_of_bounds_def in_seg_def word_le_nat_alt word_less_nat_alt)
qed

lemma contains_iff:
  assumes "seg_fits seg n"
  shows "contains seg a \<longleftrightarrow> in_seg seg (unat a) 1"
proof -
  have "unat (start_address seg + seg_size seg) = unat (start_address seg) + unat (seg_size seg)"
    using assms by (simp add: seg_fits_def unat_word_ariths)
  then show ?thesis
    by (auto simp: contains_def in_seg_def word_le_nat_alt word_less_nat_alt)
qed

section \<open>A vector of pages is a byte string\<close>

lemma vec_seg_read:
  assumes "unat (fst (locate seg a)) < length (paged_memory seg)"
  shows "seg_read VecMemory a f (u, seg)
    = ((u, seg), Ok (f (paged_memory seg ! unat (fst (locate seg a))) (snd (locate seg a))))"
  using assms by (auto simp: seg_read_def seg_get_page_def VecMemory_def vec_get_page_def bindS_def
      split: prod.splits)

lemma vec_seg_write:
  assumes "unat (fst (locate seg a)) < length (paged_memory seg)"
  shows "seg_write VecMemory a f (u, seg)
    = ((u, seg\<lparr>paged_memory := (paged_memory seg)[unat (fst (locate seg a)) :=
         f (snd (locate seg a)) (paged_memory seg ! unat (fst (locate seg a)))]\<rparr>), Ok ())"
  using assms by (auto simp: seg_write_def seg_get_page_def VecMemory_def vec_get_page_def bindS_def
      split: prod.splits)

definition flat :: "VecMemory MemorySegment \<Rightarrow> bytes" where
  "flat seg = concat (paged_memory seg)"

definition vec_seg_ok :: "VecMemory MemorySegment \<Rightarrow> bool" where
  "vec_seg_ok seg \<longleftrightarrow> seg_fits seg (length (paged_memory seg)) \<and> pages_ok (paged_memory seg)"

lemma length_flat: "vec_seg_ok seg \<Longrightarrow> length (flat seg) = length (paged_memory seg) * PAGE_SIZE"
  unfolding flat_def vec_seg_ok_def
  by (rule length_concat_uniform) (auto simp: pages_ok_def page_ok_def list_all_iff)

lemma length_page: "vec_seg_ok seg \<Longrightarrow> i < length (paged_memory seg) \<Longrightarrow> length (paged_memory seg ! i) = PAGE_SIZE"
  by (auto simp: vec_seg_ok_def pages_ok_def page_ok_def list_all_length)

lemma flat_chunk:
  assumes ok: "vec_seg_ok seg" and a: "in_seg seg (unat a) k" "0 < k"
    and n: "snd (locate seg a) + n \<le> PAGE_SIZE"
  shows "take n (drop (snd (locate seg a)) (paged_memory seg ! unat (fst (locate seg a))))
    = take n (drop (flat_pos seg a) (flat seg))"
proof -
  let ?i = "unat (fst (locate seg a))" and ?o = "snd (locate seg a)" and ?ps = "paged_memory seg"
  have fits: "seg_fits seg (length ?ps)" using ok by (simp add: vec_seg_ok_def)
  have i: "?i < length ?ps" using locate_in_pages [OF fits a] .
  have k: "flat_pos seg a = ?i * PAGE_SIZE + ?o"
    using locate_flat [OF fits a(1)] by simp
  have "drop (flat_pos seg a) (flat seg) = drop ?o (?ps ! ?i) @ concat (drop (Suc ?i) ?ps)"
    unfolding k flat_def using i n ok
    by (intro drop_concat_uniform) (auto simp: vec_seg_ok_def pages_ok_def page_ok_def list_all_iff)
  then show ?thesis using n length_page [OF ok i] by simp
qed

lemma flat_splice:
  assumes ok: "vec_seg_ok seg" and a: "in_seg seg (unat a) k" "0 < k"
    and n: "snd (locate seg a) + length bs \<le> PAGE_SIZE"
    and seg': "seg' = seg\<lparr>paged_memory := (paged_memory seg)[unat (fst (locate seg a)) :=
         overwrite bs (snd (locate seg a)) (paged_memory seg ! unat (fst (locate seg a)))]\<rparr>"
  shows "flat seg' = overwrite bs (flat_pos seg a) (flat seg)" "vec_seg_ok seg'"
proof -
  let ?i = "unat (fst (locate seg a))" and ?o = "snd (locate seg a)" and ?ps = "paged_memory seg"
  have fits: "seg_fits seg (length ?ps)" using ok by (simp add: vec_seg_ok_def)
  have i: "?i < length ?ps" using locate_in_pages [OF fits a] .
  have k: "flat_pos seg a = ?i * PAGE_SIZE + ?o" "flat_pos seg a + length bs = ?i * PAGE_SIZE + (?o + length bs)"
    using locate_flat [OF fits a(1)] by simp_all
  have u: "x \<in> set ?ps \<Longrightarrow> length x = PAGE_SIZE" for x
    using ok by (auto simp: vec_seg_ok_def pages_ok_def page_ok_def list_all_iff)
  have "take (flat_pos seg a) (flat seg) = concat (take ?i ?ps) @ take ?o (?ps ! ?i)"
    unfolding k(1) flat_def using u i n by (intro take_concat_uniform) auto
  moreover have "drop (flat_pos seg a + length bs) (flat seg)
      = drop (?o + length bs) (?ps ! ?i) @ concat (drop (Suc ?i) ?ps)"
    unfolding k(2) flat_def using u i n by (intro drop_concat_uniform) auto
  moreover have "flat seg' = concat (take ?i ?ps) @ overwrite bs ?o (?ps ! ?i) @ concat (drop (Suc ?i) ?ps)"
    using i by (simp add: flat_def seg' upd_conv_take_nth_drop)
  ultimately show "flat seg' = overwrite bs (flat_pos seg a) (flat seg)"
    by (simp add: overwrite_def)
  have "length (overwrite bs ?o (?ps ! ?i)) = PAGE_SIZE"
    using n u i by (simp add: overwrite_def)
  then show "vec_seg_ok seg'"
    using ok i by (auto simp: seg' vec_seg_ok_def seg_fits_def pages_ok_def page_ok_def
        list_all_length nth_list_update)
qed

lemma chunk_len_bounds:
  "snd (locate seg cur) + chunk_len seg cur n \<le> PAGE_SIZE" "chunk_len seg cur n \<le> n"
  using locate_offset_less [of seg cur] by (auto simp: chunk_len_def)

lemma advance:
  assumes "seg_fits seg n" "in_seg seg (unat cur) k" "j \<le> k"
  shows "unat (cur + of_nat j) = unat cur + j" "in_seg seg (unat (cur + of_nat j)) (k - j)"
    "flat_pos seg (cur + of_nat j) = flat_pos seg cur + j"
proof -
  have "unat cur + j < 2 ^ 32" using assms by (auto simp: seg_fits_def in_seg_def)
  then show 1: "unat (cur + of_nat j) = unat cur + j"
    by (simp add: unat_word_ariths unat_of_nat)
  then show "in_seg seg (unat (cur + of_nat j)) (k - j)"
    using assms by (auto simp: in_seg_def)
  show "flat_pos seg (cur + of_nat j) = flat_pos seg cur + j"
    using 1 flat_pos_bounds(2) [OF assms(1,2)] by (simp add: flat_pos_def)
qed

lemma vec_read_loop:
  assumes "vec_seg_ok seg" "in_seg seg (unat cur) n"
  shows "read_loop VecMemory cur n (u, seg)
    = ((u, seg), Ok (take n (drop (flat_pos seg cur) (flat seg))))"
  using assms(2)
proof (induction n arbitrary: cur rule: less_induct)
  case (less n)
  show ?case
  proof (cases "n = 0")
    case False
    have fits: "seg_fits seg (length (paged_memory seg))" using assms(1) by (simp add: vec_seg_ok_def)
    let ?n = "chunk_len seg cur n"
    have n: "?n \<le> n" "0 < ?n" using False chunk_len_bounds(2) chunk_len_pos by auto
    note adv = advance [OF fits less.prems n(1)]
    have "unat (fst (locate seg cur)) < length (paged_memory seg)"
      using locate_in_pages [OF fits less.prems] False by simp
    then have "seg_read VecMemory cur (\<lambda>data offset. take ?n (drop offset data)) (u, seg)
        = ((u, seg), Ok (take ?n (drop (flat_pos seg cur) (flat seg))))"
      using flat_chunk [OF assms(1) less.prems _ chunk_len_bounds(1)] False by (simp add: vec_seg_read)
    moreover have "read_loop VecMemory (cur + of_nat ?n) (n - ?n) (u, seg)
        = ((u, seg), Ok (take (n - ?n) (drop (flat_pos seg cur + ?n) (flat seg))))"
      using less.IH [of "n - ?n" "cur + of_nat ?n"] n adv by simp
    moreover have "take ?n (drop k xs) @ take (n - ?n) (drop (k + ?n) xs) = take n (drop k xs)"
      for k and xs :: bytes
      using take_add [of ?n "n - ?n" "drop k xs"] n(1) by (simp add: add.commute)
    ultimately show ?thesis
      using False by (simp add: Let_def)
  qed simp
qed

lemma overwrite_nil [simp]: "overwrite [] k xs = xs"
  by (simp add: overwrite_def)

lemma overwrite_overwrite:
  assumes "k + length a + length b \<le> length xs"
  shows "overwrite b (k + length a) (overwrite a k xs) = overwrite (a @ b) k xs"
proof -
  have "min (length xs) k = k" using assms by simp
  then show ?thesis by (simp add: overwrite_def ac_simps)
qed

lemma vec_write_loop:
  assumes "vec_seg_ok seg" "in_seg seg (unat cur) (length buf)"
  shows "\<exists>seg'. write_loop VecMemory cur buf (u, seg) = ((u, seg'), Ok ()) \<and>
     flat seg' = overwrite buf (flat_pos seg cur) (flat seg) \<and> vec_seg_ok seg' \<and>
     start_address seg' = start_address seg \<and> seg_size seg' = seg_size seg"
  using assms
proof (induction "length buf" arbitrary: cur buf seg rule: less_induct)
  case less
  show ?case
  proof (cases "buf = []")
    case False
    let ?n = "chunk_len seg cur (length buf)" and ?i = "unat (fst (locate seg cur))"
    have fits: "seg_fits seg (length (paged_memory seg))" using less.prems(1) by (simp add: vec_seg_ok_def)
    have n: "?n \<le> length buf" "0 < ?n" using False by (simp_all add: chunk_len_bounds chunk_len_pos)
    note adv = advance [OF fits less.prems(2) n(1)]
    have pos: "0 < length buf" using False by simp
    have i: "?i < length (paged_memory seg)" using locate_in_pages [OF fits less.prems(2) pos] .
    define seg1 where "seg1 = seg\<lparr>paged_memory := (paged_memory seg)[?i :=
         overwrite (take ?n buf) (snd (locate seg cur)) (paged_memory seg ! ?i)]\<rparr>"
    have s1: "flat seg1 = overwrite (take ?n buf) (flat_pos seg cur) (flat seg)" "vec_seg_ok seg1"
      using flat_splice [OF less.prems pos _ seg1_def] chunk_len_bounds(1) [of seg cur "length buf"] n(1)
      by (simp_all add: min_def)
    have c: "start_address seg1 = start_address seg" "seg_size seg1 = seg_size seg"
      by (simp_all add: seg1_def)
    then have "flat_pos seg1 = flat_pos seg" "in_seg seg1 = in_seg seg"
      by (auto simp: flat_pos_def in_seg_def fun_eq_iff)
    with less.hyps [of "drop ?n buf" seg1 "cur + of_nat ?n"] n adv s1(2) pos obtain seg' where
      r: "write_loop VecMemory (cur + of_nat ?n) (drop ?n buf) (u, seg1) = ((u, seg'), Ok ())"
      "flat seg' = overwrite (drop ?n buf) (flat_pos seg cur + ?n) (flat seg1)" "vec_seg_ok seg'"
      "start_address seg' = start_address seg1" "seg_size seg' = seg_size seg1"
      by (auto simp: min_def)
    have "flat_pos seg cur + length buf \<le> length (flat seg)"
      using flat_pos_bounds(1) [OF fits less.prems(2)] length_flat [OF less.prems(1)] by simp
    then have "flat seg' = overwrite buf (flat_pos seg cur) (flat seg)"
      using overwrite_overwrite [of "flat_pos seg cur" "take ?n buf" "drop ?n buf" "flat seg"] n(1) r(2) s1(1)
      by (simp add: min_absorb2)
    moreover have "seg_write VecMemory cur (overwrite (take ?n buf)) (u, seg) = ((u, seg1), Ok ())"
      using vec_seg_write [OF i] by (simp add: seg1_def)
    ultimately show ?thesis
      using False r c by (simp add: Let_def)
  qed (use less.prems in auto)
qed

lemma buffer_guard:
  assumes "seg_fits seg m" "n < 2 ^ 32" "unat a + n < 2 ^ 32"
  shows "(a < start_address seg \<or> a + of_nat n > start_address seg + seg_size seg)
    \<longleftrightarrow> \<not> in_seg seg (unat a) n"
proof -
  have "unat (start_address seg + seg_size seg) = unat (start_address seg) + unat (seg_size seg)"
    using assms(1) by (simp add: seg_fits_def unat_word_ariths)
  moreover have "unat (a + of_nat n) = unat a + n"
    using assms(2,3) by (simp add: unat_word_ariths unat_of_nat)
  ultimately show ?thesis
    by (auto simp: in_seg_def word_less_nat_alt)
qed

section \<open>The contract of a paged memory\<close>

text \<open>
  \<open>rep w m ps\<close> says that, seen from the outside world \<open>w\<close>, the memory \<open>m\<close> holds the pages \<open>ps\<close>.
  The world may move on by \<open>le\<close> without changing that, so that operations on one memory do not disturb
  another that shares the world. \<open>ok m\<close> is a condition on the run up to now (none for a vector;
  for the outsourced memory, that no two of the messages hashed so far collide), and \<open>wr m\<close> says
  that the memory keeps what is written to it. \<open>world_rel\<close> relates the world to that of another
  machine, and \<open>world_ok\<close> is a condition on it that cannot hold later without having held earlier.
\<close>

locale paged_memory_laws =
  fixes pm :: "('w, 'm, 'r) PagedMemory"
    and rep :: "'w \<Rightarrow> 'm \<Rightarrow> page list \<Rightarrow> bool"
    and le :: "'w \<Rightarrow> 'w \<Rightarrow> bool"
    and ok :: "'m \<Rightarrow> bool"
    and wr :: "'m \<Rightarrow> bool"
    and world_rel :: "'w \<Rightarrow> 'u \<Rightarrow> bool"
    and world_ok :: "'w \<Rightarrow> bool"
  assumes le_refl: "le w w"
    and le_trans: "le w1 w2 \<Longrightarrow> le w2 w3 \<Longrightarrow> le w1 w3"
    and rep_le: "rep w m ps \<Longrightarrow> le w w' \<Longrightarrow> rep w' m ps"
    and rep_pages_ok: "rep w m ps \<Longrightarrow> pages_ok ps"
    and get_page_le: "get_page pm i (w, m) = ((w', m'), res) \<Longrightarrow> le w w'"
    and get_page_ok: "get_page pm i (w, m) = ((w', m'), res) \<Longrightarrow> ok m' \<Longrightarrow> ok m"
    and get_page_wr: "get_page pm i (w, m) = ((w', m'), res) \<Longrightarrow> wr m' = wr m"
    and get_page_rep:
      "\<lbrakk>get_page pm i (w, m) = ((w', m'), Ok r); ok m'; rep w m ps; unat i < length ps\<rbrakk>
       \<Longrightarrow> rep w' m' ps \<and> deref pm m' r = ps ! unat i"
    and deref_mut_rep:
      "\<lbrakk>get_page pm i (w, m) = ((w', m'), Ok r); ok m'; rep w m ps; unat i < length ps; wr m;
        page_ok (f (ps ! unat i))\<rbrakk>
       \<Longrightarrow> rep w' (deref_mut pm m' r f) (ps[unat i := f (ps ! unat i)])"
    and deref_mut_ok: "ok (deref_mut pm m r f) \<Longrightarrow> ok m \<and> wr m"
    and deref_mut_wr: "wr (deref_mut pm m r f) = wr m"
    and world_rel_le: "world_rel w u \<Longrightarrow> le w w' \<Longrightarrow> world_rel w' u"
    and world_ok_le: "le w w' \<Longrightarrow> world_ok w' \<Longrightarrow> world_ok w"
begin

text \<open>
  A segment over this memory and a segment over a vector of pages that agree. With \<open>b\<close> the
  memory is also required to keep what is written.
\<close>

definition seg_rel :: "bool \<Rightarrow> 'w \<times> 'm MemorySegment \<Rightarrow> 'u \<times> VecMemory MemorySegment \<Rightarrow> bool" where
  "seg_rel b s t \<longleftrightarrow> world_rel (fst s) (fst t) \<and>
     start_address (snd s) = start_address (snd t) \<and> seg_size (snd s) = seg_size (snd t) \<and>
     rep (fst s) (paged_memory (snd s)) (paged_memory (snd t)) \<and>
     seg_fits (snd s) (length (paged_memory (snd t))) \<and> (b \<longrightarrow> wr (paged_memory (snd s)))"

definition seg_run_ok :: "'w \<times> 'm MemorySegment \<Rightarrow> bool" where
  "seg_run_ok s \<longleftrightarrow> ok (paged_memory (snd s)) \<and> world_ok (fst s)"

definition seg_sim ::
  "bool \<Rightarrow> ('w \<times> 'm MemorySegment, memory_error, 'a) stm \<Rightarrow>
   ('u \<times> VecMemory MemorySegment, memory_error, 'a) stm \<Rightarrow> bool" where
  "seg_sim b m m' \<longleftrightarrow> simS (\<lambda>_. False) (seg_rel b) seg_run_ok m m' \<and>
     (\<forall>w seg w' seg' res. m (w, seg) = ((w', seg'), res) \<longrightarrow>
        le w w' \<and> wr (paged_memory seg') = wr (paged_memory seg) \<and>
        start_address seg' = start_address seg \<and> seg_size seg' = seg_size seg)"

lemma seg_relD:
  assumes "seg_rel b (w, seg) (u, vseg)"
  shows "start_address seg = start_address vseg" "seg_size seg = seg_size vseg"
    "rep w (paged_memory seg) (paged_memory vseg)" "seg_fits seg (length (paged_memory vseg))"
    "seg_fits vseg (length (paged_memory vseg))" "b \<Longrightarrow> wr (paged_memory seg)" "world_rel w u"
  using assms by (auto simp: seg_rel_def seg_fits_def)

lemma rel_cong:
  assumes "seg_rel b (w, seg) (u, vseg)"
  shows "locate seg = locate vseg" "out_of_bounds seg = out_of_bounds vseg"
    "in_seg seg = in_seg vseg" "contains seg = contains vseg" "flat_pos seg = flat_pos vseg"
    "chunk_len seg = chunk_len vseg"
  using seg_relD(1,2) [OF assms]
  by (auto simp: locate_def out_of_bounds_def in_seg_def contains_def flat_pos_def chunk_len_def
      fun_eq_iff)

lemma seg_get_page_frame:
  assumes "seg_get_page pm i (w, seg) = ((w', seg'), res)"
  shows "le w w'" "wr (paged_memory seg') = wr (paged_memory seg)"
    "start_address seg' = start_address seg" "seg_size seg' = seg_size seg"
    "ok (paged_memory seg') \<Longrightarrow> ok (paged_memory seg)"
  using assms get_page_le get_page_wr get_page_ok
  by (fastforce simp: seg_get_page_def split: prod.splits)+

lemma seg_read_frame:
  assumes "seg_read pm a f (w, seg) = ((w', seg'), res)"
  shows "le w w'" "wr (paged_memory seg') = wr (paged_memory seg)"
    "start_address seg' = start_address seg" "seg_size seg' = seg_size seg"
    "ok (paged_memory seg') \<Longrightarrow> ok (paged_memory seg)"
  using assms seg_get_page_frame
  by (fastforce simp: seg_read_def bindS_def split: prod.splits sum.splits)+

lemma seg_write_frame:
  assumes "seg_write pm a f (w, seg) = ((w', seg'), res)"
  shows "le w w'" "wr (paged_memory seg') = wr (paged_memory seg)"
    "start_address seg' = start_address seg" "seg_size seg' = seg_size seg"
    "ok (paged_memory seg') \<Longrightarrow> ok (paged_memory seg)"
proof -
  obtain w1 seg1 r where g: "seg_get_page pm (fst (locate seg a)) (w, seg) = ((w1, seg1), r)"
    by (metis surj_pair)
  note fr = seg_get_page_frame [OF g]
  have "w' = w1 \<and> start_address seg' = start_address seg1 \<and> seg_size seg' = seg_size seg1 \<and>
      wr (paged_memory seg') = wr (paged_memory seg1) \<and>
      (ok (paged_memory seg') \<longrightarrow> ok (paged_memory seg1))"
    using assms g by (cases r)
      (auto simp: seg_write_def bindS_def deref_mut_wr dest: deref_mut_ok split: prod.splits)
  with fr show "le w w'" "wr (paged_memory seg') = wr (paged_memory seg)"
    "start_address seg' = start_address seg" "seg_size seg' = seg_size seg"
    "ok (paged_memory seg') \<Longrightarrow> ok (paged_memory seg)" by auto
qed

lemma seg_read_run:
  assumes rel: "seg_rel b (w, seg) (u, vseg)" and a: "in_seg seg (unat a) k" "0 < k"
    and run: "seg_read pm a f (w, seg) = ((w', seg'), Ok v)" and ok: "ok (paged_memory seg')"
  shows "seg_read VecMemory a f (u, vseg) = ((u, vseg), Ok v)" "seg_rel b (w', seg') (u, vseg)"
proof -
  let ?i = "fst (locate seg a)"
  have i: "unat ?i < length (paged_memory vseg)"
    using locate_in_pages seg_relD(4) [OF rel] a by blast
  from run obtain r where g: "get_page pm ?i (w, paged_memory seg) = ((w', paged_memory seg'), Ok r)"
    and v: "v = f (deref pm (paged_memory seg') r) (snd (locate seg a))"
    by (auto simp: seg_read_def seg_get_page_def bindS_Ok_iff split: prod.splits)
  have "rep w' (paged_memory seg') (paged_memory vseg)"
    "deref pm (paged_memory seg') r = paged_memory vseg ! unat ?i"
    using get_page_rep [OF g ok seg_relD(3) [OF rel] i] by auto
  then show "seg_read VecMemory a f (u, vseg) = ((u, vseg), Ok v)" "seg_rel b (w', seg') (u, vseg)"
    using rel seg_read_frame [OF run] i v rel_cong(1) [OF rel] world_rel_le [OF seg_relD(7) [OF rel]]
    by (auto simp: seg_rel_def seg_read_def seg_get_page_def VecMemory_def vec_get_page_def bindS_def
        seg_fits_def split: prod.splits)
qed

lemma seg_write_run:
  assumes rel: "seg_rel b (w, seg) (u, vseg)" and a: "in_seg seg (unat a) k" "0 < k"
    and f: "\<And>data. page_ok data \<Longrightarrow> page_ok (f (snd (locate seg a)) data)"
    and run: "seg_write pm a f (w, seg) = ((w', seg'), Ok v)" and ok: "ok (paged_memory seg')"
  shows "\<exists>vseg'. seg_write VecMemory a f (u, vseg) = ((u, vseg'), Ok v) \<and>
           seg_rel b (w', seg') (u, vseg')"
proof -
  let ?i = "fst (locate seg a)" and ?f = "f (snd (locate seg a))"
  have i: "unat ?i < length (paged_memory vseg)"
    using locate_in_pages seg_relD(4) [OF rel] a by blast
  from run obtain r m1 where g: "get_page pm ?i (w, paged_memory seg) = ((w', m1), Ok r)"
    and seg': "seg' = seg\<lparr>paged_memory := deref_mut pm m1 r ?f\<rparr>"
    by (auto simp: seg_write_def seg_get_page_def bindS_Ok_iff split: prod.splits)
  from deref_mut_ok [of m1 r ?f] ok seg' get_page_wr [OF g] have ok1: "ok m1" "wr (paged_memory seg)" by auto
  have "page_ok (?f (paged_memory vseg ! unat ?i))"
    using rep_pages_ok [OF seg_relD(3) [OF rel]] i f by (auto simp: pages_ok_def list_all_length)
  then have "rep w' (paged_memory seg') ((paged_memory vseg)[unat ?i := ?f (paged_memory vseg ! unat ?i)])"
    using deref_mut_rep [OF g ok1(1) seg_relD(3) [OF rel] i ok1(2)] seg' by simp
  then have "seg_rel b (w', seg') (u, vseg\<lparr>paged_memory :=
      (paged_memory vseg)[unat ?i := ?f (paged_memory vseg ! unat ?i)]\<rparr>)"
    using rel seg_write_frame [OF run] world_rel_le [OF seg_relD(7) [OF rel]] by (auto simp: seg_rel_def seg_fits_def)
  then show ?thesis
    using i rel_cong(1) [OF rel]
    by (auto simp: seg_write_def seg_get_page_def VecMemory_def vec_get_page_def bindS_def
        split: prod.splits)
qed

lemma seg_simI:
  assumes frame: "\<And>w seg w' seg' res. m (w, seg) = ((w', seg'), res) \<Longrightarrow>
      le w w' \<and> wr (paged_memory seg') = wr (paged_memory seg) \<and>
      start_address seg' = start_address seg \<and> seg_size seg' = seg_size seg \<and>
      (ok (paged_memory seg') \<longrightarrow> ok (paged_memory seg))"
    and run: "\<And>w seg w' seg' u vseg v. \<lbrakk>seg_rel b (w, seg) (u, vseg); m (w, seg) = ((w', seg'), Ok v);
      ok (paged_memory seg')\<rbrakk> \<Longrightarrow> \<exists>vseg'. m' (u, vseg) = ((u, vseg'), Ok v) \<and> seg_rel b (w', seg') (u, vseg')"
  shows "seg_sim b m m'"
  unfolding seg_sim_def
proof (intro conjI simSI)
  fix s s' r
  assume "m s = (s', r)" "seg_run_ok s'"
  then show "seg_run_ok s"
    using frame [of "fst s" "snd s" "fst s'" "snd s'" r] world_ok_le by (auto simp: seg_run_ok_def)
next
  fix s t s' v
  assume "seg_rel b s t" "m s = (s', Ok v)" "seg_run_ok s'"
  then show "\<exists>t'. m' t = (t', Ok v) \<and> seg_rel b s' t'"
    using run [of "fst s" "snd s" "fst t" "snd t" "fst s'" "snd s'" v]
    by (cases t) (auto simp: seg_run_ok_def)
qed (use frame in auto)

lemma guarded_read_sim:
  assumes "\<And>w seg. m (w, seg) = (if G seg then throwS E (w, seg) else if Q then throwS E' (w, seg)
       else seg_read pm a f (w, seg))"
    and "\<And>u vseg. m' (u, vseg) = (if G' vseg then throwS E (u, vseg) else if Q then throwS E' (u, vseg)
       else seg_read VecMemory a f (u, vseg))"
    and "\<And>w seg u vseg. seg_rel b (w, seg) (u, vseg) \<Longrightarrow> G' vseg = G seg \<and> (\<not> G seg \<longrightarrow> in_seg seg (unat a) k)"
    and "0 < k"
  shows "seg_sim b m m'"
proof (rule seg_simI)
  fix w seg w' seg' res
  assume "m (w, seg) = ((w', seg'), res)"
  then show "le w w' \<and> wr (paged_memory seg') = wr (paged_memory seg) \<and>
      start_address seg' = start_address seg \<and> seg_size seg' = seg_size seg \<and>
      (ok (paged_memory seg') \<longrightarrow> ok (paged_memory seg))"
    using seg_read_frame [of a f w seg w' seg' res] by (auto simp: assms(1) le_refl split: if_splits)
next
  fix w seg w' seg' u vseg v
  assume rel: "seg_rel b (w, seg) (u, vseg)" and run: "m (w, seg) = ((w', seg'), Ok v)"
    and ok: "ok (paged_memory seg')"
  then have g: "\<not> G seg" "\<not> Q" "seg_read pm a f (w, seg) = ((w', seg'), Ok v)"
    by (auto simp: assms(1) split: if_splits)
  with assms(3) [OF rel] show "\<exists>vseg'. m' (u, vseg) = ((u, vseg'), Ok v) \<and> seg_rel b (w', seg') (u, vseg')"
    using seg_read_run [OF rel _ assms(4) g(3) ok] by (auto simp: assms(2))
qed

lemma guarded_write_sim:
  assumes "\<And>w seg. m (w, seg) = (if G seg then throwS E (w, seg) else if Q then throwS E' (w, seg)
       else seg_write pm a f (w, seg))"
    and "\<And>u vseg. m' (u, vseg) = (if G' vseg then throwS E (u, vseg) else if Q then throwS E' (u, vseg)
       else seg_write VecMemory a f (u, vseg))"
    and "\<And>w seg u vseg. seg_rel b (w, seg) (u, vseg) \<Longrightarrow> G' vseg = G seg \<and> (\<not> G seg \<longrightarrow> in_seg seg (unat a) k)"
    and "0 < k" and "\<And>off data. page_ok data \<Longrightarrow> page_ok (f off data)"
  shows "seg_sim b m m'"
proof (rule seg_simI)
  fix w seg w' seg' res
  assume "m (w, seg) = ((w', seg'), res)"
  then show "le w w' \<and> wr (paged_memory seg') = wr (paged_memory seg) \<and>
      start_address seg' = start_address seg \<and> seg_size seg' = seg_size seg \<and>
      (ok (paged_memory seg') \<longrightarrow> ok (paged_memory seg))"
    using seg_write_frame [of a f w seg w' seg' res] by (auto simp: assms(1) le_refl split: if_splits)
next
  fix w seg w' seg' u vseg v
  assume rel: "seg_rel b (w, seg) (u, vseg)" and run: "m (w, seg) = ((w', seg'), Ok v)"
    and ok: "ok (paged_memory seg')"
  then have g: "\<not> G seg" "\<not> Q" "seg_write pm a f (w, seg) = ((w', seg'), Ok v)"
    by (auto simp: assms(1) split: if_splits)
  with assms(3) [OF rel] show "\<exists>vseg'. m' (u, vseg) = ((u, vseg'), Ok v) \<and> seg_rel b (w', seg') (u, vseg')"
    using seg_write_run [OF rel _ assms(4,5) g(3) ok] by (auto simp: assms(2))
qed

lemma guard_rel:
  assumes "seg_rel b (w, seg) (u, vseg)" "k \<le> 4"
  shows "out_of_bounds vseg a (of_nat k) = out_of_bounds seg a (of_nat k) \<and>
     (\<not> out_of_bounds seg a (of_nat k) \<longrightarrow> in_seg seg (unat a) k)"
  using out_of_bounds_iff [OF seg_relD(4) [OF assms(1)] assms(2)] rel_cong(2) [OF assms(1)] by simp

lemma read_u8_sim: "seg_sim b (seg_read_u8 pm a) (seg_read_u8 VecMemory a)"
  using guard_rel [where k = 1 and a = a]
  by (intro guarded_read_sim [where G = "\<lambda>seg. out_of_bounds seg a 1" and Q = False and k = 1
        and G' = "\<lambda>seg. out_of_bounds seg a 1"])
     (auto simp: seg_read_u8_def)

lemma read_u16_sim: "seg_sim b (seg_read_u16 pm a) (seg_read_u16 VecMemory a)"
  using guard_rel [where k = 2 and a = a]
  by (intro guarded_read_sim [where G = "\<lambda>seg. out_of_bounds seg a 2" and Q = "a mod 2 \<noteq> 0" and k = 2
        and G' = "\<lambda>seg. out_of_bounds seg a 2"])
     (auto simp: seg_read_u16_def)

lemma read_u32_sim: "seg_sim b (seg_read_u32 pm a) (seg_read_u32 VecMemory a)"
  using guard_rel [where k = 4 and a = a]
  by (intro guarded_read_sim [where G = "\<lambda>seg. out_of_bounds seg a 4" and Q = "a mod 4 \<noteq> 0" and k = 4
        and G' = "\<lambda>seg. out_of_bounds seg a 4"])
     (auto simp: seg_read_u32_def)

lemma write_u8_sim: "seg_sim b (seg_write_u8 pm a x) (seg_write_u8 VecMemory a x)"
  using guard_rel [where k = 1 and a = a]
  by (intro guarded_write_sim [where G = "\<lambda>seg. out_of_bounds seg a 1" and Q = False and k = 1
        and G' = "\<lambda>seg. out_of_bounds seg a 1"
        and f = "\<lambda>off data. data[off := x]"])
     (auto simp: seg_write_u8_def page_ok_def)

lemma write_u16_sim: "seg_sim b (seg_write_u16 pm a x) (seg_write_u16 VecMemory a x)"
  using guard_rel [where k = 2 and a = a]
  by (intro guarded_write_sim [where G = "\<lambda>seg. out_of_bounds seg a 2" and Q = "a mod 2 \<noteq> 0" and k = 2
        and G' = "\<lambda>seg. out_of_bounds seg a 2"
        and f = "\<lambda>off data. data[off := ucast x, off + 1 := ucast (drop_bit 8 x)]"])
     (auto simp: seg_write_u16_def page_ok_def)

lemma write_u32_sim: "seg_sim b (seg_write_u32 pm a x) (seg_write_u32 VecMemory a x)"
  using guard_rel [where k = 4 and a = a]
  by (intro guarded_write_sim [where G = "\<lambda>seg. out_of_bounds seg a 4" and Q = "a mod 4 \<noteq> 0" and k = 4
        and G' = "\<lambda>seg. out_of_bounds seg a 4"
        and f = "\<lambda>off data. data[off := ucast x, off + 1 := ucast (drop_bit 8 x),
          off + 2 := ucast (drop_bit 16 x), off + 3 := ucast (drop_bit 24 x)]"])
     (auto simp: seg_write_u32_def page_ok_def)


lemma read_loop_frame:
  assumes "read_loop pm cur n (w, seg) = ((w', seg'), res)"
  shows "le w w' \<and> wr (paged_memory seg') = wr (paged_memory seg) \<and>
      start_address seg' = start_address seg \<and> seg_size seg' = seg_size seg \<and>
      (ok (paged_memory seg') \<longrightarrow> ok (paged_memory seg))"
  using assms
proof (induction n arbitrary: cur w seg res w' seg' rule: less_induct)
  case (less n)
  show ?case
  proof (cases "n = 0")
    case False
    let ?n = "chunk_len seg cur n"
    obtain w1 seg1 r where step:
      "seg_read pm cur (\<lambda>data offset. take ?n (drop offset data)) (w, seg) = ((w1, seg1), r)"
      by (metis surj_pair)
    note fr = seg_read_frame [OF step]
    show ?thesis
    proof (cases r)
      case (Inl e)
      with less.prems step fr False show ?thesis by (auto simp: Let_def)
    next
      case (Inr chunk)
      obtain w2 seg2 r2 where rest: "read_loop pm (cur + of_nat ?n) (n - ?n) (w1, seg1) = ((w2, seg2), r2)"
        by (metis surj_pair)
      have "w' = w2 \<and> seg' = seg2"
        using less.prems step Inr rest False by (auto simp: Let_def split: sum.splits)
      moreover have "n - ?n < n" using False by (simp add: chunk_len_pos)
      ultimately show ?thesis using less.IH [OF _ rest] fr le_trans by auto
    qed
  qed (use less.prems le_refl in auto)
qed

lemma read_loop_run:
  assumes "seg_rel b (w, seg) (u, vseg)" "in_seg seg (unat cur) n"
    and "read_loop pm cur n (w, seg) = ((w', seg'), Ok v)" "ok (paged_memory seg')"
  shows "read_loop VecMemory cur n (u, vseg) = ((u, vseg), Ok v) \<and> seg_rel b (w', seg') (u, vseg)"
  using assms
proof (induction n arbitrary: cur w seg v rule: less_induct)
  case (less n)
  note rel = less.prems(1)
  show ?case
  proof (cases "n = 0")
    case False
    let ?n = "chunk_len seg cur n" and ?f = "\<lambda>data offset. take (chunk_len seg cur n) (drop offset data)"
    obtain w1 seg1 c v2 where step: "seg_read pm cur ?f (w, seg) = ((w1, seg1), Ok c)"
      and rest: "read_loop pm (cur + of_nat ?n) (n - ?n) (w1, seg1) = ((w', seg'), Ok v2)" and v: "v = c @ v2"
      using less.prems(3) False by (auto simp: Let_def split: prod.splits sum.splits)
    have "ok (paged_memory seg1)" using read_loop_frame [OF rest] less.prems(4) by blast
    with seg_read_run [OF rel less.prems(2) _ step] False
    have s: "seg_read VecMemory cur ?f (u, vseg) = ((u, vseg), Ok c)" "seg_rel b (w1, seg1) (u, vseg)"
      by auto
    have in1: "in_seg seg1 (unat (cur + of_nat ?n)) (n - ?n)"
      using advance(2) [OF seg_relD(4) [OF rel] less.prems(2) chunk_len_bounds(2)]
        rel_cong(3) [OF rel] rel_cong(3) [OF s(2)] by simp
    have "n - ?n < n" using False by (simp add: chunk_len_pos)
    from less.IH [OF this s(2) in1 rest less.prems(4)] s(1) v False rel_cong(6) [OF rel]
    show ?thesis by (simp add: Let_def)
  qed (use less.prems in auto)
qed

lemma write_loop_frame:
  assumes "write_loop pm cur buf (w, seg) = ((w', seg'), res)"
  shows "le w w' \<and> wr (paged_memory seg') = wr (paged_memory seg) \<and>
      start_address seg' = start_address seg \<and> seg_size seg' = seg_size seg \<and>
      (ok (paged_memory seg') \<longrightarrow> ok (paged_memory seg))"
  using assms
proof (induction "length buf" arbitrary: cur w seg buf rule: less_induct)
  case less
  show ?case
  proof (cases "buf = []")
    case False
    let ?n = "chunk_len seg cur (length buf)"
    obtain w1 seg1 r where step: "seg_write pm cur (overwrite (take ?n buf)) (w, seg) = ((w1, seg1), r)"
      by (metis surj_pair)
    note fr = seg_write_frame [OF step]
    show ?thesis
    proof (cases r)
      case (Inl e)
      with less.prems step fr False show ?thesis by (auto simp: Let_def)
    next
      case (Inr x)
      have rest: "write_loop pm (cur + of_nat ?n) (drop ?n buf) (w1, seg1) = ((w', seg'), res)"
        using less.prems step Inr False by (auto simp: Let_def)
      have "length (drop ?n buf) < length buf" using False by (simp add: chunk_len_pos)
      from less.hyps [OF this rest] show ?thesis using fr le_trans by auto
    qed
  qed (use less.prems le_refl in auto)
qed

lemma write_loop_run:
  assumes "seg_rel b (w, seg) (u, vseg)" "in_seg seg (unat cur) (length buf)"
    and "write_loop pm cur buf (w, seg) = ((w', seg'), Ok v)" "ok (paged_memory seg')"
  shows "\<exists>vseg'. write_loop VecMemory cur buf (u, vseg) = ((u, vseg'), Ok v) \<and> seg_rel b (w', seg') (u, vseg')"
  using assms
proof (induction "length buf" arbitrary: cur w seg buf vseg rule: less_induct)
  case less
  note rel = less.prems(1)
  show ?case
  proof (cases "buf = []")
    case False
    let ?n = "chunk_len seg cur (length buf)" and ?f = "overwrite (take (chunk_len seg cur (length buf)) buf)"
    obtain w1 seg1 x where step: "seg_write pm cur ?f (w, seg) = ((w1, seg1), Ok x)"
      and rest: "write_loop pm (cur + of_nat ?n) (drop ?n buf) (w1, seg1) = ((w', seg'), Ok v)"
      using less.prems(3) False by (auto simp: Let_def split: prod.splits sum.splits)
    have ok1: "ok (paged_memory seg1)" using write_loop_frame [OF rest] less.prems(4) by blast
    have n: "snd (locate seg cur) + ?n \<le> PAGE_SIZE" "?n \<le> length buf" by (simp_all add: chunk_len_bounds)
    then have f: "page_ok data \<Longrightarrow> page_ok (?f (snd (locate seg cur)) data)" for data
      by (auto simp: page_ok_def overwrite_def)
    obtain vseg1 where s: "seg_write VecMemory cur ?f (u, vseg) = ((u, vseg1), Ok x)"
      "seg_rel b (w1, seg1) (u, vseg1)"
      using seg_write_run [OF rel less.prems(2) _ f step ok1] False by auto
    have in1: "in_seg seg1 (unat (cur + of_nat ?n)) (length (drop ?n buf))"
      using advance(2) [OF seg_relD(4) [OF rel] less.prems(2) n(2)]
        seg_write_frame(3,4) [OF step] by (simp add: in_seg_def)
    have "length (drop ?n buf) < length buf" using False by (simp add: chunk_len_pos)
    from less.hyps [OF this s(2) in1 rest less.prems(4)] s(1) False rel_cong(6) [OF rel]
    show ?thesis by (auto simp: Let_def)
  qed (use less.prems in auto)
qed

lemma buffer_guard_rel:
  assumes "seg_rel b (w, seg) (u, vseg)" "n < 2 ^ 32" "unat a + n < 2 ^ 32"
    and "\<not> (a < start_address seg \<or> a + of_nat n > start_address seg + seg_size seg)"
  shows "in_seg seg (unat a) n"
  using buffer_guard [OF seg_relD(4) [OF assms(1)] assms(2,3)] assms(4) by blast

lemma read_buffer_sim: "seg_sim b (read_buffer pm a n) (read_buffer VecMemory a n)"
proof (rule seg_simI)
  fix w seg w' seg' res
  assume "read_buffer pm a n (w, seg) = ((w', seg'), res)"
  then show "le w w' \<and> wr (paged_memory seg') = wr (paged_memory seg) \<and>
      start_address seg' = start_address seg \<and> seg_size seg' = seg_size seg \<and>
      (ok (paged_memory seg') \<longrightarrow> ok (paged_memory seg))"
    using read_loop_frame [of a n w seg w' seg' res]
    by (auto simp: read_buffer_def le_refl split: if_splits)
next
  fix w seg w' seg' u vseg v
  assume rel: "seg_rel b (w, seg) (u, vseg)" and run: "read_buffer pm a n (w, seg) = ((w', seg'), Ok v)"
    and ok: "ok (paged_memory seg')"
  from run have loop: "read_loop pm a n (w, seg) = ((w', seg'), Ok v)"
    and g: "unat a + n < 2 ^ 32"
      "\<not> (a < start_address seg \<or> a + of_nat n > start_address seg + seg_size seg)"
    by (auto simp: read_buffer_def split: if_splits)
  have "in_seg seg (unat a) n" using buffer_guard_rel [OF rel _ g] g(1) by simp
  from read_loop_run [OF rel this loop ok] g seg_relD(1,2) [OF rel]
  show "\<exists>vseg'. read_buffer VecMemory a n (u, vseg) = ((u, vseg'), Ok v) \<and> seg_rel b (w', seg') (u, vseg')"
    by (auto simp: read_buffer_def)
qed

lemma write_buffer_sim: "seg_sim b (write_buffer pm a buf) (write_buffer VecMemory a buf)"
proof (rule seg_simI)
  fix w seg w' seg' res
  assume "write_buffer pm a buf (w, seg) = ((w', seg'), res)"
  then show "le w w' \<and> wr (paged_memory seg') = wr (paged_memory seg) \<and>
      start_address seg' = start_address seg \<and> seg_size seg' = seg_size seg \<and>
      (ok (paged_memory seg') \<longrightarrow> ok (paged_memory seg))"
    using write_loop_frame [of a buf w seg w' seg' res]
    by (auto simp: write_buffer_def le_refl split: if_splits)
next
  fix w seg w' seg' u vseg v
  assume rel: "seg_rel b (w, seg) (u, vseg)" and run: "write_buffer pm a buf (w, seg) = ((w', seg'), Ok v)"
    and ok: "ok (paged_memory seg')"
  from run have loop: "write_loop pm a buf (w, seg) = ((w', seg'), Ok v)"
    and g: "unat a + length buf < 2 ^ 32"
      "\<not> (a < start_address seg \<or> a + of_nat (length buf) > start_address seg + seg_size seg)"
    by (auto simp: write_buffer_def split: if_splits)
  have "in_seg seg (unat a) (length buf)" using buffer_guard_rel [OF rel _ g] g(1) by simp
  from write_loop_run [OF rel this loop ok] g seg_relD(1,2) [OF rel]
  show "\<exists>vseg'. write_buffer VecMemory a buf (u, vseg) = ((u, vseg'), Ok v) \<and> seg_rel b (w', seg') (u, vseg')"
    by (auto simp: write_buffer_def)
qed

end

interpretation vec_mem: paged_memory_laws VecMemory "\<lambda>_ m ps. m = ps \<and> pages_ok ps" "\<lambda>_ _. True"
  "\<lambda>_. True" "\<lambda>_. True" "\<lambda>_ _. True" "\<lambda>_. True"
  by unfold_locales
    (auto simp: VecMemory_def vec_get_page_def pages_ok_def list_all_length nth_list_update split: if_splits)

section \<open>What the segment operations do\<close>

lemma dvd_less_add_le: "k dvd (m :: nat) \<Longrightarrow> k dvd n \<Longrightarrow> m < n \<Longrightarrow> m + k \<le> n"
  using dvd_imp_le [of k "n - m"] dvd_diff_nat [of k n m] by simp

lemma word_dvd_pow2: "2 ^ n dvd (a :: u32) \<longleftrightarrow> a mod 2 ^ n = 0"
  using take_bit_eq_0_iff [of n a] by (simp only: take_bit_eq_mod)

lemma word_dvd_4: "4 dvd (a :: u32) \<longleftrightarrow> a mod 4 = 0"
  using word_dvd_pow2 [of 2 a] by (simp only: power2_eq_square mult_2_right numeral_plus_numeral semiring_norm)

lemma aligned_offset:
  assumes "vec_seg_ok seg" "in_seg seg (unat a) k" "of_nat k dvd a" "k \<in> {1, 2, 4}"
  shows "snd (locate seg a) + k \<le> PAGE_SIZE"
proof -
  have k: "k dvd PAGE_SIZE" "0 < k" "unat (of_nat k :: u32) = k"
    using assms(4) by (auto simp: PAGE_SIZE_def)
  have fits: "seg_fits seg (length (paged_memory seg))" using assms(1) by (simp add: vec_seg_ok_def)
  obtain n where "of_nat k = (2 ^ n :: u32)"
    using assms(4) that [of 0] that [of 1] that [of 2] by auto
  then have "a mod of_nat k = 0" using assms(3) word_dvd_pow2 [of n a] by simp
  then have "unat (a mod of_nat k) = 0" by simp
  then have "unat a mod k = 0" by (simp only: unat_mod k(3))
  moreover have "k dvd unat (page_start (start_address seg))"
    using k(1) by (simp add: unat_page_start dvd_mult)
  ultimately have "k dvd flat_pos seg a"
    by (simp add: flat_pos_def mod_0_imp_dvd dvd_diff_nat)
  then have "k dvd snd (locate seg a)"
    using locate_flat(2) [OF fits assms(2)] k(1) by (simp add: dvd_mod)
  moreover have "snd (locate seg a) < PAGE_SIZE" by (rule locate_offset_less)
  ultimately show ?thesis using dvd_less_add_le k(1) by blast
qed

lemma take_drop_nth: "k + n \<le> length xs \<Longrightarrow> take n (drop k xs) = map (\<lambda>j. xs ! (k + j)) [0..<n]"
  by (rule nth_equalityI) auto

lemma flat_nth:
  assumes "vec_seg_ok seg" "in_seg seg (unat a) k" "snd (locate seg a) + k \<le> PAGE_SIZE" "j < k"
  shows "paged_memory seg ! unat (fst (locate seg a)) ! (snd (locate seg a) + j) = flat seg ! (flat_pos seg a + j)"
proof -
  have fits: "seg_fits seg (length (paged_memory seg))" using assms(1) by (simp add: vec_seg_ok_def)
  have i: "unat (fst (locate seg a)) < length (paged_memory seg)"
    using locate_in_pages [OF fits assms(2)] assms(4) by simp
  have "flat_pos seg a + k \<le> length (flat seg)"
    using flat_pos_bounds(1) [OF fits assms(2)] length_flat [OF assms(1)] by simp
  with flat_chunk [OF assms(1,2) _ assms(3)] assms(3,4) length_page [OF assms(1) i]
  have "map (\<lambda>j. paged_memory seg ! unat (fst (locate seg a)) ! (snd (locate seg a) + j)) [0..<k]
      = map (\<lambda>j. flat seg ! (flat_pos seg a + j)) [0..<k]"
    by (simp add: take_drop_nth)
  then show ?thesis using assms(4) by (simp add: map_eq_conv)
qed

lemma vec_loads:
  assumes "vec_seg_ok seg"
  shows "seg_read_u8 VecMemory a ((), seg) = (((), seg),
       if in_seg seg (unat a) 1 then Ok (flat seg ! flat_pos seg a) else Err AddressOutOfBounds)
   \<and> seg_read_u16 VecMemory a ((), seg) = (((), seg),
       if \<not> in_seg seg (unat a) 2 then Err AddressOutOfBounds
       else if a mod 2 \<noteq> 0 then Err UnalignedAddress
       else Ok (u16_from_le_bytes (flat seg ! flat_pos seg a) (flat seg ! (flat_pos seg a + 1))))
   \<and> seg_read_u32 VecMemory a ((), seg) = (((), seg),
       if \<not> in_seg seg (unat a) 4 then Err AddressOutOfBounds
       else if a mod 4 \<noteq> 0 then Err UnalignedAddress
       else Ok (u32_from_le_bytes (flat seg ! flat_pos seg a) (flat seg ! (flat_pos seg a + 1))
              (flat seg ! (flat_pos seg a + 2)) (flat seg ! (flat_pos seg a + 3))))"
proof (intro conjI)
  have fits: "seg_fits seg (length (paged_memory seg))" using assms by (simp add: vec_seg_ok_def)
  note oob = out_of_bounds_iff [OF fits, where a = a]
  have load: "seg_read VecMemory a f ((), seg)
      = (((), seg), Ok (f (paged_memory seg ! unat (fst (locate seg a))) (snd (locate seg a))))"
    if "in_seg seg (unat a) k" "0 < k" for f :: "page \<Rightarrow> nat \<Rightarrow> 'b" and k
    using vec_seg_read [OF locate_in_pages [OF fits that]] .
  have nth: "paged_memory seg ! unat (fst (locate seg a)) ! (snd (locate seg a) + j) = flat seg ! (flat_pos seg a + j)"
    if "in_seg seg (unat a) k" "of_nat k dvd a" "k \<in> {1, 2, 4}" "j < k" for j k
    using flat_nth [OF assms that(1) aligned_offset [OF assms that(1-3)] that(4)] .
  show "seg_read_u8 VecMemory a ((), seg) = (((), seg),
       if in_seg seg (unat a) 1 then Ok (flat seg ! flat_pos seg a) else Err AddressOutOfBounds)"
    using oob [of 1] nth [of 1 0] load [of 1 "(!)"] by (auto simp: seg_read_u8_def)
  show "seg_read_u16 VecMemory a ((), seg) = (((), seg),
       if \<not> in_seg seg (unat a) 2 then Err AddressOutOfBounds
       else if a mod 2 \<noteq> 0 then Err UnalignedAddress
       else Ok (u16_from_le_bytes (flat seg ! flat_pos seg a) (flat seg ! (flat_pos seg a + 1))))"
    using oob [of 2] nth [of 2 0] nth [of 2 1] by (auto simp: seg_read_u16_def load)
  show "seg_read_u32 VecMemory a ((), seg) = (((), seg),
       if \<not> in_seg seg (unat a) 4 then Err AddressOutOfBounds
       else if a mod 4 \<noteq> 0 then Err UnalignedAddress
       else Ok (u32_from_le_bytes (flat seg ! flat_pos seg a) (flat seg ! (flat_pos seg a + 1))
              (flat seg ! (flat_pos seg a + 2)) (flat seg ! (flat_pos seg a + 3))))"
    using oob [of 4] nth [of 4 0] nth [of 4 1] nth [of 4 2] nth [of 4 3]
    by (auto simp: seg_read_u32_def load)
qed

text \<open>
  C18: on a vector of pages, the three loads of a segment are loads from one flat byte string, in
  little-endian order, and each fails with the documented error exactly when the access leaves the segment
  or is not aligned. No access straddles two pages or reads past the end of a page.
\<close>

theorem segment_loads:
  assumes "vec_seg_ok seg"
  shows "seg_read_u8 VecMemory a ((), seg) = (((), seg),
       if in_seg seg (unat a) 1 then Ok (flat seg ! flat_pos seg a) else Err AddressOutOfBounds)
   \<and> seg_read_u16 VecMemory a ((), seg) = (((), seg),
       if \<not> in_seg seg (unat a) 2 then Err AddressOutOfBounds
       else if a mod 2 \<noteq> 0 then Err UnalignedAddress
       else Ok (u16_from_le_bytes (flat seg ! flat_pos seg a) (flat seg ! (flat_pos seg a + 1))))
   \<and> seg_read_u32 VecMemory a ((), seg) = (((), seg),
       if \<not> in_seg seg (unat a) 4 then Err AddressOutOfBounds
       else if a mod 4 \<noteq> 0 then Err UnalignedAddress
       else Ok (u32_from_le_bytes (flat seg ! flat_pos seg a) (flat seg ! (flat_pos seg a + 1))
              (flat seg ! (flat_pos seg a + 2)) (flat seg ! (flat_pos seg a + 3))))"
  by (rule vec_loads [OF assms])

lemmas vec_load_u8 = vec_loads [THEN conjunct1]
lemmas vec_load_u16 = vec_loads [THEN conjunct2, THEN conjunct1]
lemmas vec_load_u32 = vec_loads [THEN conjunct2, THEN conjunct2]

text \<open>A segment of 300 bytes over two pages, for the witnesses.\<close>

definition sample_seg :: "VecMemory MemorySegment" where
  "sample_seg = \<lparr>start_address = 0x1010, seg_size = 300, paged_memory = VecMemory_new 2\<rparr>"

lemma sample_seg_ok [simp]: "vec_seg_ok sample_seg"
  by (simp add: vec_seg_ok_def sample_seg_def seg_fits_def VecMemory_new_def pages_ok_def page_ok_def
      PAGE_SIZE_def list_all_iff)

lemma in_sample_seg [simp]: "in_seg sample_seg x k \<longleftrightarrow> 0x1010 \<le> x \<and> x + k \<le> 0x1010 + 300"
  by (simp add: in_seg_def sample_seg_def)

theorem segment_loads_witness:
  "vec_seg_ok sample_seg \<and> snd (seg_read_u32 VecMemory 0x1012 ((), sample_seg)) = Err UnalignedAddress"
  using segment_loads [of sample_seg "0x1012"] by simp

lemma length_overwrite: "k + length bs \<le> length xs \<Longrightarrow> length (overwrite bs k xs) = length xs"
  by (simp add: overwrite_def)

lemma list_update_overwrite: "k < length xs \<Longrightarrow> xs[k := x] = overwrite [x] k xs"
  by (simp add: upd_conv_take_nth_drop overwrite_def)

lemma list_update_overwrite2:
  "k + 2 \<le> length xs \<Longrightarrow> xs[k := x, k + 1 := y] = overwrite [x, y] k xs"
  using overwrite_overwrite [of k "[x]" "[y]" xs] by (simp add: list_update_overwrite length_overwrite)

lemma list_update_overwrite4:
  "k + 4 \<le> length xs \<Longrightarrow> xs[k := x, k + 1 := y, k + 2 := z, k + 3 := v] = overwrite [x, y, z, v] k xs"
  using list_update_overwrite2 [of k xs x y] list_update_overwrite2 [of "k + 2" "overwrite [x, y] k xs" z v]
    overwrite_overwrite [of k "[x, y]" "[z, v]" xs]
  by (simp add: length_overwrite numeral_3_eq_3)

lemma vec_store:
  assumes ok: "vec_seg_ok seg" and a: "in_seg seg (unat a) n" "0 < n" "length bs = n"
    and off: "snd (locate seg a) + n \<le> PAGE_SIZE"
    and f: "\<And>data. page_ok data \<Longrightarrow> f (snd (locate seg a)) data = overwrite bs (snd (locate seg a)) data"
  shows "\<exists>seg'. seg_write VecMemory a f ((), seg) = (((), seg'), Ok ()) \<and>
      flat seg' = overwrite bs (flat_pos seg a) (flat seg) \<and> vec_seg_ok seg' \<and>
      start_address seg' = start_address seg \<and> seg_size seg' = seg_size seg"
proof -
  let ?i = "unat (fst (locate seg a))"
  have fits: "seg_fits seg (length (paged_memory seg))" using ok by (simp add: vec_seg_ok_def)
  have i: "?i < length (paged_memory seg)" using locate_in_pages [OF fits a(1,2)] .
  have "f (snd (locate seg a)) (paged_memory seg ! ?i) = overwrite bs (snd (locate seg a)) (paged_memory seg ! ?i)"
    using f length_page [OF ok i] by (simp add: page_ok_def)
  with flat_splice [OF ok a(1,2) off [folded a(3)] refl] vec_seg_write [OF i, of f "()"] show ?thesis by simp
qed

text \<open>
  C19: on a vector of pages, an aligned store inside the segment replaces exactly the bytes it names in
  the flat byte string, little-endian, and leaves a well-formed segment; any other store fails with the
  documented error and changes nothing.
\<close>

theorem segment_stores:
  assumes "vec_seg_ok seg"
  shows "(if in_seg seg (unat a) 1
     then \<exists>seg'. seg_write_u8 VecMemory a b ((), seg) = (((), seg'), Ok ()) \<and> vec_seg_ok seg' \<and>
            flat seg' = overwrite [b] (flat_pos seg a) (flat seg)
     else seg_write_u8 VecMemory a b ((), seg) = (((), seg), Err AddressOutOfBounds))
   \<and> (if in_seg seg (unat a) 2 \<and> a mod 2 = 0
     then \<exists>seg'. seg_write_u16 VecMemory a h ((), seg) = (((), seg'), Ok ()) \<and> vec_seg_ok seg' \<and>
            flat seg' = overwrite [ucast h, ucast (drop_bit 8 h)] (flat_pos seg a) (flat seg)
     else seg_write_u16 VecMemory a h ((), seg) =
            (((), seg), Err (if in_seg seg (unat a) 2 then UnalignedAddress else AddressOutOfBounds)))
   \<and> (if in_seg seg (unat a) 4 \<and> a mod 4 = 0
     then \<exists>seg'. seg_write_u32 VecMemory a v ((), seg) = (((), seg'), Ok ()) \<and> vec_seg_ok seg' \<and>
            flat seg' = overwrite [ucast v, ucast (drop_bit 8 v), ucast (drop_bit 16 v),
              ucast (drop_bit 24 v)] (flat_pos seg a) (flat seg)
     else seg_write_u32 VecMemory a v ((), seg) =
            (((), seg), Err (if in_seg seg (unat a) 4 then UnalignedAddress else AddressOutOfBounds)))"
proof (intro conjI)
  have fits: "seg_fits seg (length (paged_memory seg))" using assms by (simp add: vec_seg_ok_def)
  note oob = out_of_bounds_iff [OF fits, where a = a]
  have al: "in_seg seg (unat a) 1 \<Longrightarrow> snd (locate seg a) + 1 \<le> PAGE_SIZE"
    "in_seg seg (unat a) 2 \<Longrightarrow> even a \<Longrightarrow> snd (locate seg a) + 2 \<le> PAGE_SIZE"
    "in_seg seg (unat a) 4 \<Longrightarrow> 4 dvd a \<Longrightarrow> snd (locate seg a) + 4 \<le> PAGE_SIZE"
    using aligned_offset [OF assms, of a 1] aligned_offset [OF assms, of a 2]
      aligned_offset [OF assms, of a 4] by auto
  show "if in_seg seg (unat a) 1
     then \<exists>seg'. seg_write_u8 VecMemory a b ((), seg) = (((), seg'), Ok ()) \<and> vec_seg_ok seg' \<and>
            flat seg' = overwrite [b] (flat_pos seg a) (flat seg)
     else seg_write_u8 VecMemory a b ((), seg) = (((), seg), Err AddressOutOfBounds)"
    using oob [of 1] vec_store [OF assms, of a 1 "[b]" "\<lambda>off data. data[off := b]"] al(1)
    by (auto simp: seg_write_u8_def page_ok_def list_update_overwrite)
  show "if in_seg seg (unat a) 2 \<and> a mod 2 = 0
     then \<exists>seg'. seg_write_u16 VecMemory a h ((), seg) = (((), seg'), Ok ()) \<and> vec_seg_ok seg' \<and>
            flat seg' = overwrite [ucast h, ucast (drop_bit 8 h)] (flat_pos seg a) (flat seg)
     else seg_write_u16 VecMemory a h ((), seg) =
            (((), seg), Err (if in_seg seg (unat a) 2 then UnalignedAddress else AddressOutOfBounds))"
    using oob [of 2] vec_store [OF assms, of a 2 "[ucast h, ucast (drop_bit 8 h)]"
        "\<lambda>off data. data[off := ucast h, off + 1 := ucast (drop_bit 8 h)]"]
      al(2) list_update_overwrite2
    by (auto simp: seg_write_u16_def page_ok_def)
  show "if in_seg seg (unat a) 4 \<and> a mod 4 = 0
     then \<exists>seg'. seg_write_u32 VecMemory a v ((), seg) = (((), seg'), Ok ()) \<and> vec_seg_ok seg' \<and>
            flat seg' = overwrite [ucast v, ucast (drop_bit 8 v), ucast (drop_bit 16 v),
              ucast (drop_bit 24 v)] (flat_pos seg a) (flat seg)
     else seg_write_u32 VecMemory a v ((), seg) =
            (((), seg), Err (if in_seg seg (unat a) 4 then UnalignedAddress else AddressOutOfBounds))"
    using oob [of 4] vec_store [OF assms, of a 4 "[ucast v, ucast (drop_bit 8 v),
        ucast (drop_bit 16 v), ucast (drop_bit 24 v)]" "\<lambda>off data. data[off := ucast v,
        off + 1 := ucast (drop_bit 8 v), off + 2 := ucast (drop_bit 16 v),
        off + 3 := ucast (drop_bit 24 v)]"]
      al(3) list_update_overwrite4
    by (auto simp: seg_write_u32_def page_ok_def)
qed

theorem segment_stores_witness:
  "\<exists>seg'. vec_seg_ok sample_seg \<and>
     seg_write_u32 VecMemory 0x1010 0x11223344 ((), sample_seg) = (((), seg'), Ok ())"
  using segment_stores [of sample_seg "0x1010" 0 0 "0x11223344"] by auto

text \<open>
  C17: a buffer written to a segment, across any number of pages, is read back unchanged, and every byte
  of the segment outside the buffer keeps its value.
\<close>

theorem buffer_roundtrip:
  assumes "vec_seg_ok seg" "in_seg seg (unat a) (length buf)"
  shows "\<exists>seg'. write_buffer VecMemory a buf ((), seg) = (((), seg'), Ok ()) \<and>
     read_buffer VecMemory a (length buf) ((), seg') = (((), seg'), Ok buf) \<and>
     flat seg' = overwrite buf (flat_pos seg a) (flat seg)"
proof -
  have fits: "seg_fits seg (length (paged_memory seg))" using assms by (simp add: vec_seg_ok_def)
  have n: "unat a + length buf < 2 ^ 32" "length buf < 2 ^ 32"
    using fits assms(2) by (auto simp: seg_fits_def in_seg_def)
  obtain seg' where w: "write_loop VecMemory a buf ((), seg) = (((), seg'), Ok ())"
    "flat seg' = overwrite buf (flat_pos seg a) (flat seg)" "vec_seg_ok seg'"
    "start_address seg' = start_address seg" "seg_size seg' = seg_size seg"
    using vec_write_loop [OF assms, of "()"] by blast
  have g: "\<not> (a < start_address seg \<or> a + of_nat (length buf) > start_address seg + seg_size seg)"
    using buffer_guard [OF fits n(2,1)] assms(2) by blast
  have same: "flat_pos seg' = flat_pos seg" "in_seg seg' = in_seg seg"
    using w(4,5) by (auto simp: flat_pos_def in_seg_def fun_eq_iff)
  have "flat_pos seg a + length buf \<le> length (flat seg)"
    using flat_pos_bounds(1) [OF fits assms(2)] length_flat [OF assms(1)] by simp
  then have "take (length buf) (drop (flat_pos seg a) (flat seg')) = buf"
    by (simp add: w(2) overwrite_def)
  then have "read_loop VecMemory a (length buf) ((), seg') = (((), seg'), Ok buf)"
    using vec_read_loop [OF w(3), of a "length buf" "()"] assms(2) same by simp
  then show ?thesis
    using w g n by (auto simp: write_buffer_def read_buffer_def)
qed

theorem buffer_roundtrip_witness:
  "\<exists>seg'. vec_seg_ok sample_seg \<and> in_seg sample_seg (unat (0x10fe :: u32)) (length [1, 2, 3, 4 :: u8]) \<and>
     write_buffer VecMemory 0x10fe [1, 2, 3, 4] ((), sample_seg) = (((), seg'), Ok ()) \<and>
     read_buffer VecMemory 0x10fe (length [1, 2, 3, 4 :: u8]) ((), seg') = (((), seg'), Ok [1, 2, 3, 4])"
  using buffer_roundtrip [of sample_seg "0x10fe" "[1, 2, 3, 4]"] by auto

end
