(* ===== verification/Cpu.thy ===== *)
theory Cpu
  imports Riscv_Decode Vm_Memory "HOL-Library.Signed_Division"
begin

text \<open>
  The processor of \<open>common/src/vm.rs\<close>: registers, program counter, three memory segments and the
  reservation of \<open>LR.W\<close>. Every operation of \<open>impl Cpu\<close> is a definition, generic in the paged
  memory as in the source; \<open>execute\<close> has one equation per instruction. The lemmas give the register and
  program-counter invariants, the arithmetic of the M extension, the LR/SC protocol, and a simulation:
  an execution over any memory that keeps the contract of \<open>paged_memory_laws\<close> is matched, step by
  step, by the same execution over plain vectors of pages.
\<close>

section \<open>State\<close>

record 'm cpu =
  pc :: u32
  regs :: "u32 list"
  code_seg :: "'m MemorySegment"
  data_seg :: "'m MemorySegment"
  stack_seg :: "'m MemorySegment"
  reservation_addr :: "u32 option"

datatype 'e cpu_error =
    EcallError 'e
  | MemError memory_error
  | CpuGenericError string

text \<open>The processor's computations, and an \<open>EcallHandler\<close>: what \<open>handle_ecall\<close> does to the processor.\<close>

type_synonym ('w, 'm, 'e, 'a) cpu_m = "('w \<times> 'm cpu, 'e cpu_error, 'a) stm"
type_synonym ('w, 'm, 'e) ecall_handler = "('w \<times> 'm cpu, 'e, unit) stm"

definition Cpu_new ::
  "u32 \<Rightarrow> 'm MemorySegment \<Rightarrow> 'm MemorySegment \<Rightarrow> 'm MemorySegment \<Rightarrow> 'm cpu" where
  "Cpu_new entrypoint code data stack =
     \<lparr>pc = entrypoint, regs = replicate 32 0, code_seg = code, data_seg = data, stack_seg = stack,
      reservation_addr = None\<rparr>"

definition reg :: "u8 \<Rightarrow> ('w, 'm, 'e, u32) cpu_m" where
  "reg r = (\<lambda>(w, c). returnS (regs c ! unat r) (w, c))"

definition set_reg :: "u8 \<Rightarrow> u32 \<Rightarrow> ('w, 'm, 'e, unit) cpu_m" where
  "set_reg r v = (\<lambda>(w, c). returnS () (w, c\<lparr>regs := (regs c)[unat r := v]\<rparr>))"

definition get_pc :: "('w, 'm, 'e, u32) cpu_m" where
  "get_pc = (\<lambda>(w, c). returnS (pc c) (w, c))"

definition set_pc :: "u32 \<Rightarrow> ('w, 'm, 'e, unit) cpu_m" where
  "set_pc v = (\<lambda>(w, c). returnS () (w, c\<lparr>pc := v\<rparr>))"

definition get_reservation :: "('w, 'm, 'e, u32 option) cpu_m" where
  "get_reservation = (\<lambda>(w, c). returnS (reservation_addr c) (w, c))"

definition set_reservation :: "u32 option \<Rightarrow> ('w, 'm, 'e, unit) cpu_m" where
  "set_reservation v = (\<lambda>(w, c). returnS () (w, c\<lparr>reservation_addr := v\<rparr>))"

section \<open>Memory accesses\<close>

text \<open>
  The segments in the order the accesses try them. \<open>on_seg\<close> runs an operation of one segment,
  and turns its error into a \<open>CpuError\<close> as \<open>?\<close> does.
\<close>

datatype seg_id = StackSeg | DataSeg | CodeSeg

primrec the_seg :: "seg_id \<Rightarrow> 'm cpu \<Rightarrow> 'm MemorySegment" where
  "the_seg StackSeg c = stack_seg c"
| "the_seg DataSeg c = data_seg c"
| "the_seg CodeSeg c = code_seg c"

primrec put_seg :: "seg_id \<Rightarrow> 'm MemorySegment \<Rightarrow> 'm cpu \<Rightarrow> 'm cpu" where
  "put_seg StackSeg s c = c\<lparr>stack_seg := s\<rparr>"
| "put_seg DataSeg s c = c\<lparr>data_seg := s\<rparr>"
| "put_seg CodeSeg s c = c\<lparr>code_seg := s\<rparr>"

definition on_seg ::
  "seg_id \<Rightarrow> ('w \<times> 'm MemorySegment, memory_error, 'a) stm \<Rightarrow> ('w, 'm, 'e, 'a) cpu_m" where
  "on_seg i m = (\<lambda>(w, c).
     case m (w, the_seg i c) of
       ((w', s'), Inl e) \<Rightarrow> ((w', put_seg i s' c), Err (MemError e))
     | ((w', s'), Inr v) \<Rightarrow> ((w', put_seg i s' c), Ok v))"

definition get_segment :: "'m cpu \<Rightarrow> u32 \<Rightarrow> ('e cpu_error, seg_id) result" where
  "get_segment c address =
     (if contains (stack_seg c) address then Ok StackSeg
      else if contains (data_seg c) address then Ok DataSeg
      else if contains (code_seg c) address then Ok CodeSeg
      else Err (MemError AddressOutOfBounds))"

definition cpu_read ::
  "('w \<times> 'm MemorySegment, memory_error, 'a) stm \<Rightarrow> u32 \<Rightarrow> ('w, 'm, 'e, 'a) cpu_m" where
  "cpu_read m address = (\<lambda>(w, c).
     if contains (stack_seg c) address then on_seg StackSeg m (w, c)
     else if contains (data_seg c) address then on_seg DataSeg m (w, c)
     else if contains (code_seg c) address then on_seg CodeSeg m (w, c)
     else throwS (MemError AddressOutOfBounds) (w, c))"

definition cpu_read_u8 :: "('w, 'm, 'r) PagedMemory \<Rightarrow> u32 \<Rightarrow> ('w, 'm, 'e, u8) cpu_m" where
  "cpu_read_u8 pm address = cpu_read (seg_read_u8 pm address) address"

definition cpu_read_u16 :: "('w, 'm, 'r) PagedMemory \<Rightarrow> u32 \<Rightarrow> ('w, 'm, 'e, u16) cpu_m" where
  "cpu_read_u16 pm address = cpu_read (seg_read_u16 pm address) address"

definition cpu_read_u32 :: "('w, 'm, 'r) PagedMemory \<Rightarrow> u32 \<Rightarrow> ('w, 'm, 'e, u32) cpu_m" where
  "cpu_read_u32 pm address = cpu_read (seg_read_u32 pm address) address"

definition saturating_sub :: "u32 \<Rightarrow> u32 \<Rightarrow> u32" where
  "saturating_sub a b = (if b \<le> a then a - b else 0)"

text \<open>A store of \<open>n\<close> bytes at \<open>address\<close> drops a reservation whose word it touches.\<close>

definition drop_reservation :: "u32 \<Rightarrow> u32 \<Rightarrow> 'm cpu \<Rightarrow> 'm cpu" where
  "drop_reservation address n c =
     (case reservation_addr c of
        Some res \<Rightarrow>
          if saturating_sub address res < 4 \<and> saturating_sub res address < n
          then c\<lparr>reservation_addr := None\<rparr> else c
      | None \<Rightarrow> c)"

definition invalidate_reservation :: "u32 \<Rightarrow> u32 \<Rightarrow> ('w, 'm, 'e, unit) cpu_m" where
  "invalidate_reservation address n = (\<lambda>(w, c). returnS () (w, drop_reservation address n c))"

definition cpu_write ::
  "('w \<times> 'm MemorySegment, memory_error, unit) stm \<Rightarrow> u32 \<Rightarrow> u32 \<Rightarrow> ('w, 'm, 'e, unit) cpu_m" where
  "cpu_write m address n =
     bindS (\<lambda>(w, c).
       if contains (stack_seg c) address then on_seg StackSeg m (w, c)
       else if contains (data_seg c) address then on_seg DataSeg m (w, c)
       else throwS (MemError AddressOutOfBounds) (w, c))
     (\<lambda>_. invalidate_reservation address n)"

definition cpu_write_u8 :: "('w, 'm, 'r) PagedMemory \<Rightarrow> u32 \<Rightarrow> u8 \<Rightarrow> ('w, 'm, 'e, unit) cpu_m" where
  "cpu_write_u8 pm address v = cpu_write (seg_write_u8 pm address v) address 1"

definition cpu_write_u16 :: "('w, 'm, 'r) PagedMemory \<Rightarrow> u32 \<Rightarrow> u16 \<Rightarrow> ('w, 'm, 'e, unit) cpu_m" where
  "cpu_write_u16 pm address v = cpu_write (seg_write_u16 pm address v) address 2"

definition cpu_write_u32 :: "('w, 'm, 'r) PagedMemory \<Rightarrow> u32 \<Rightarrow> u32 \<Rightarrow> ('w, 'm, 'e, unit) cpu_m" where
  "cpu_write_u32 pm address v = cpu_write (seg_write_u32 pm address v) address 4"

definition fetch_instruction :: "('w, 'm, 'r) PagedMemory \<Rightarrow> ('w, 'm, 'e, u32) cpu_m" where
  "fetch_instruction pm = (\<lambda>(w, c).
     if pc c mod 4 = 0 \<and> contains (code_seg c) (pc c + 3)
     then on_seg CodeSeg (seg_read_u32 pm (pc c)) (w, c)
     else
       bindS (on_seg CodeSeg (seg_read_u16 pm (pc c))) (\<lambda>inst_lo.
         if inst_lo AND 0b11 \<noteq> 0b11 then returnS (ucast inst_lo)
         else bindS (on_seg CodeSeg (seg_read_u16 pm (pc c + 2))) (\<lambda>inst_hi.
           returnS (push_bit 16 (ucast inst_hi) OR ucast inst_lo)))
         (w, c))"

section \<open>Arithmetic\<close>

text \<open>The operators the source writes inline, on 32-bit patterns.\<close>

definition bool_to_u32 :: "bool \<Rightarrow> u32" where
  "bool_to_u32 b = (if b then 1 else 0)"

definition i32_less :: "u32 \<Rightarrow> u32 \<Rightarrow> bool" where
  "i32_less a b = (sint a < sint b)"

definition shl :: "u32 \<Rightarrow> u32 \<Rightarrow> u32" where
  "shl a b = push_bit (unat (b AND 0x1f)) a"

definition shr :: "u32 \<Rightarrow> u32 \<Rightarrow> u32" where
  "shr a b = drop_bit (unat (b AND 0x1f)) a"

definition sar :: "u32 \<Rightarrow> u32 \<Rightarrow> u32" where
  "sar a b = signed_drop_bit (unat (b AND 0x1f)) a"

definition mulh :: "u32 \<Rightarrow> u32 \<Rightarrow> u32" where
  "mulh a b = ucast (signed_drop_bit 32 ((scast a :: 64 word) * scast b))"

definition mulhsu :: "u32 \<Rightarrow> u32 \<Rightarrow> u32" where
  "mulhsu a b = ucast (signed_drop_bit 32 ((scast (scast a :: 64 word) :: 128 word) * ucast (ucast b :: 64 word)))"

definition mulhu :: "u32 \<Rightarrow> u32 \<Rightarrow> u32" where
  "mulhu a b = ucast (drop_bit 32 ((ucast a :: 64 word) * ucast b))"

definition i32_wrapping_div :: "u32 \<Rightarrow> u32 \<Rightarrow> u32" where
  "i32_wrapping_div a b = word_of_int (sint a sdiv sint b)"

definition i32_wrapping_rem :: "u32 \<Rightarrow> u32 \<Rightarrow> u32" where
  "i32_wrapping_rem a b = word_of_int (sint a smod sint b)"

definition div_op :: "u32 \<Rightarrow> u32 \<Rightarrow> u32" where
  "div_op a b = (if b = 0 then 0xffffffff else i32_wrapping_div a b)"

definition divu_op :: "u32 \<Rightarrow> u32 \<Rightarrow> u32" where
  "divu_op a b = (if b = 0 then 0xffffffff else a div b)"

definition rem_op :: "u32 \<Rightarrow> u32 \<Rightarrow> u32" where
  "rem_op a b = (if b = 0 then a else i32_wrapping_rem a b)"

definition remu_op :: "u32 \<Rightarrow> u32 \<Rightarrow> u32" where
  "remu_op a b = (if b = 0 then a else a mod b)"

definition i32_min :: "u32 \<Rightarrow> u32 \<Rightarrow> u32" where
  "i32_min a b = (if sint a \<le> sint b then a else b)"

definition i32_max :: "u32 \<Rightarrow> u32 \<Rightarrow> u32" where
  "i32_max a b = (if sint a \<le> sint b then b else a)"

section \<open>Execution\<close>

text \<open>
  The shapes of instructions. Each returns \<open>pc_inc\<close>; \<open>inst_size\<close> is its value unless a
  control transfer replaces it.
\<close>

definition alu_rr :: "u32 \<Rightarrow> u8 \<Rightarrow> u8 \<Rightarrow> u8 \<Rightarrow> (u32 \<Rightarrow> u32 \<Rightarrow> u32) \<Rightarrow> ('w, 'm, 'e, u32) cpu_m" where
  "alu_rr inst_size rd rs1 rs2 f =
     bindS (reg rs1) (\<lambda>a. bindS (reg rs2) (\<lambda>b. bindS (set_reg rd (f a b)) (\<lambda>_. returnS inst_size)))"

definition alu_ri :: "u32 \<Rightarrow> u8 \<Rightarrow> u8 \<Rightarrow> (u32 \<Rightarrow> u32) \<Rightarrow> ('w, 'm, 'e, u32) cpu_m" where
  "alu_ri inst_size rd rs1 f =
     bindS (reg rs1) (\<lambda>a. bindS (set_reg rd (f a)) (\<lambda>_. returnS inst_size))"

definition branch :: "u32 \<Rightarrow> u8 \<Rightarrow> u8 \<Rightarrow> i32 \<Rightarrow> (u32 \<Rightarrow> u32 \<Rightarrow> bool) \<Rightarrow> ('w, 'm, 'e, u32) cpu_m" where
  "branch inst_size rs1 rs2 imm p =
     bindS (reg rs1) (\<lambda>a. bindS (reg rs2) (\<lambda>b. returnS (if p a b then imm else inst_size)))"

definition load_op ::
  "u32 \<Rightarrow> u8 \<Rightarrow> u8 \<Rightarrow> i32 \<Rightarrow> u32 \<Rightarrow> string \<Rightarrow> (u32 \<Rightarrow> ('w, 'm, 'e, 'a) cpu_m) \<Rightarrow> ('a \<Rightarrow> u32) \<Rightarrow>
   ('w, 'm, 'e, u32) cpu_m" where
  "load_op inst_size rd rs1 imm align msg m ext =
     bindS (reg rs1) (\<lambda>a.
       if (a + imm) AND align \<noteq> 0 then throwS (CpuGenericError msg)
       else bindS (m (a + imm)) (\<lambda>value.
         bindS (set_reg rd (ext value)) (\<lambda>_. returnS inst_size)))"

definition store_op ::
  "u32 \<Rightarrow> u8 \<Rightarrow> u8 \<Rightarrow> i32 \<Rightarrow> u32 \<Rightarrow> string \<Rightarrow> (u32 \<Rightarrow> u32 \<Rightarrow> ('w, 'm, 'e, unit) cpu_m) \<Rightarrow>
   ('w, 'm, 'e, u32) cpu_m" where
  "store_op inst_size rs1 rs2 imm align msg m =
     bindS (reg rs1) (\<lambda>a.
       if (a + imm) AND align \<noteq> 0 then throwS (CpuGenericError msg)
       else bindS (reg rs2) (\<lambda>value.
         bindS (m (a + imm) value) (\<lambda>_. returnS inst_size)))"

definition amo ::
  "('w, 'm, 'r) PagedMemory \<Rightarrow> u32 \<Rightarrow> u8 \<Rightarrow> u8 \<Rightarrow> u8 \<Rightarrow> string \<Rightarrow> (u32 \<Rightarrow> u32 \<Rightarrow> u32) \<Rightarrow>
   ('w, 'm, 'e, u32) cpu_m" where
  "amo pm inst_size rd rs1 rs2 msg f =
     bindS (reg rs1) (\<lambda>addr.
       if addr AND 3 \<noteq> 0 then throwS (CpuGenericError msg)
       else bindS (cpu_read_u32 pm addr) (\<lambda>old.
         bindS (reg rs2) (\<lambda>b.
           bindS (cpu_write_u32 pm addr (f old b)) (\<lambda>_.
             bindS (set_reg rd old) (\<lambda>_. returnS inst_size)))))"

definition lr_w :: "('w, 'm, 'r) PagedMemory \<Rightarrow> u32 \<Rightarrow> u8 \<Rightarrow> u8 \<Rightarrow> ('w, 'm, 'e, u32) cpu_m" where
  "lr_w pm inst_size rd rs1 =
     bindS (reg rs1) (\<lambda>addr.
       if addr AND 3 \<noteq> 0 then throwS (CpuGenericError ''Unaligned LR.W address'')
       else bindS (cpu_read_u32 pm addr) (\<lambda>value.
         bindS (set_reg rd value) (\<lambda>_.
           bindS (set_reservation (Some addr)) (\<lambda>_. returnS inst_size))))"

definition sc_w :: "('w, 'm, 'r) PagedMemory \<Rightarrow> u32 \<Rightarrow> u8 \<Rightarrow> u8 \<Rightarrow> u8 \<Rightarrow> ('w, 'm, 'e, u32) cpu_m" where
  "sc_w pm inst_size rd rs1 rs2 =
     bindS (reg rs1) (\<lambda>addr.
       if addr AND 3 \<noteq> 0 then throwS (CpuGenericError ''Unaligned SC.W address'')
       else bindS get_reservation (\<lambda>res.
         bindS (if res = Some addr
                then bindS (reg rs2) (\<lambda>b. bindS (cpu_write_u32 pm addr b) (\<lambda>_. set_reg rd 0))
                else set_reg rd 1)
           (\<lambda>_. bindS (set_reservation None) (\<lambda>_. returnS inst_size))))"

definition jal :: "u32 \<Rightarrow> u8 \<Rightarrow> i32 \<Rightarrow> ('w, 'm, 'e, u32) cpu_m" where
  "jal inst_size rd imm =
     bindS get_pc (\<lambda>p. bindS (set_reg rd (p + inst_size)) (\<lambda>_. returnS imm))"

definition jalr :: "u32 \<Rightarrow> u8 \<Rightarrow> u8 \<Rightarrow> i32 \<Rightarrow> ('w, 'm, 'e, u32) cpu_m" where
  "jalr inst_size rd rs1 imm =
     bindS (reg rs1) (\<lambda>a. bindS get_pc (\<lambda>p.
       bindS (set_reg rd (p + inst_size)) (\<lambda>_.
         bindS (set_pc ((a + imm) AND NOT 1)) (\<lambda>_. returnS 0))))"

definition ecall :: "('w, 'm, 'e) ecall_handler option \<Rightarrow> u32 \<Rightarrow> ('w, 'm, 'e, u32) cpu_m" where
  "ecall handler inst_size =
     (case handler of
        Some h \<Rightarrow> (\<lambda>st. case h st of
            (st', Inl e) \<Rightarrow> (st', Err (EcallError e))
          | (st', Inr _) \<Rightarrow> (st', Ok inst_size))
      | None \<Rightarrow> throwS (CpuGenericError ''No ECALL handler''))"

primrec execute_op ::
  "('w, 'm, 'r) PagedMemory \<Rightarrow> ('w, 'm, 'e) ecall_handler option \<Rightarrow> u32 \<Rightarrow> op \<Rightarrow> ('w, 'm, 'e, u32) cpu_m" where
  "execute_op pm handler inst_size (Add rd rs1 rs2) = alu_rr inst_size rd rs1 rs2 (+)"
| "execute_op pm handler inst_size (Sub rd rs1 rs2) = alu_rr inst_size rd rs1 rs2 (-)"
| "execute_op pm handler inst_size (Sll rd rs1 rs2) = alu_rr inst_size rd rs1 rs2 shl"
| "execute_op pm handler inst_size (Slt rd rs1 rs2) = alu_rr inst_size rd rs1 rs2 (\<lambda>a b. bool_to_u32 (i32_less a b))"
| "execute_op pm handler inst_size (Sltu rd rs1 rs2) = alu_rr inst_size rd rs1 rs2 (\<lambda>a b. bool_to_u32 (a < b))"
| "execute_op pm handler inst_size (Xor rd rs1 rs2) = alu_rr inst_size rd rs1 rs2 (XOR)"
| "execute_op pm handler inst_size (Srl rd rs1 rs2) = alu_rr inst_size rd rs1 rs2 shr"
| "execute_op pm handler inst_size (Sra rd rs1 rs2) = alu_rr inst_size rd rs1 rs2 sar"
| "execute_op pm handler inst_size (Or rd rs1 rs2) = alu_rr inst_size rd rs1 rs2 (OR)"
| "execute_op pm handler inst_size (And rd rs1 rs2) = alu_rr inst_size rd rs1 rs2 (AND)"
| "execute_op pm handler inst_size (Mul rd rs1 rs2) = alu_rr inst_size rd rs1 rs2 (\<lambda>a b. a * b)"
| "execute_op pm handler inst_size (Mulh rd rs1 rs2) = alu_rr inst_size rd rs1 rs2 mulh"
| "execute_op pm handler inst_size (Mulhsu rd rs1 rs2) = alu_rr inst_size rd rs1 rs2 mulhsu"
| "execute_op pm handler inst_size (Mulhu rd rs1 rs2) = alu_rr inst_size rd rs1 rs2 mulhu"
| "execute_op pm handler inst_size (Div rd rs1 rs2) = alu_rr inst_size rd rs1 rs2 div_op"
| "execute_op pm handler inst_size (Divu rd rs1 rs2) = alu_rr inst_size rd rs1 rs2 divu_op"
| "execute_op pm handler inst_size (Rem rd rs1 rs2) = alu_rr inst_size rd rs1 rs2 rem_op"
| "execute_op pm handler inst_size (Remu rd rs1 rs2) = alu_rr inst_size rd rs1 rs2 remu_op"
| "execute_op pm handler inst_size (Addi rd rs1 imm) = alu_ri inst_size rd rs1 (\<lambda>a. a + imm)"
| "execute_op pm handler inst_size (Andi rd rs1 imm) = alu_ri inst_size rd rs1 (\<lambda>a. a AND imm)"
| "execute_op pm handler inst_size (Auipc rd imm) = bindS get_pc (\<lambda>p. bindS (set_reg rd (p + imm)) (\<lambda>_. returnS inst_size))"
| "execute_op pm handler inst_size (Beq rs1 rs2 imm) = branch inst_size rs1 rs2 imm (=)"
| "execute_op pm handler inst_size (Bne rs1 rs2 imm) = branch inst_size rs1 rs2 imm (\<noteq>)"
| "execute_op pm handler inst_size (Blt rs1 rs2 imm) = branch inst_size rs1 rs2 imm i32_less"
| "execute_op pm handler inst_size (Bge rs1 rs2 imm) = branch inst_size rs1 rs2 imm (\<lambda>a b. \<not> i32_less a b)"
| "execute_op pm handler inst_size (Bltu rs1 rs2 imm) = branch inst_size rs1 rs2 imm (<)"
| "execute_op pm handler inst_size (Bgeu rs1 rs2 imm) = branch inst_size rs1 rs2 imm (\<lambda>a b. b \<le> a)"
| "execute_op pm handler inst_size (Jal rd imm) = jal inst_size rd imm"
| "execute_op pm handler inst_size (Jalr rd rs1 imm) = jalr inst_size rd rs1 imm"
| "execute_op pm handler inst_size (Lb rd rs1 imm) = load_op inst_size rd rs1 imm 0 ''''
     (cpu_read_u8 pm) scast"
| "execute_op pm handler inst_size (Lh rd rs1 imm) = load_op inst_size rd rs1 imm 1 ''Unaligned 16-bit read''
     (cpu_read_u16 pm) scast"
| "execute_op pm handler inst_size (Lw rd rs1 imm) = load_op inst_size rd rs1 imm 3 ''Unaligned 32-bit read''
     (cpu_read_u32 pm) (\<lambda>v. v)"
| "execute_op pm handler inst_size (Lbu rd rs1 imm) = load_op inst_size rd rs1 imm 0 ''''
     (cpu_read_u8 pm) ucast"
| "execute_op pm handler inst_size (Lhu rd rs1 imm) = load_op inst_size rd rs1 imm 1 ''Unaligned 16-bit read''
     (cpu_read_u16 pm) ucast"
| "execute_op pm handler inst_size (Lui rd imm) = bindS (set_reg rd imm) (\<lambda>_. returnS inst_size)"
| "execute_op pm handler inst_size (Ori rd rs1 imm) = alu_ri inst_size rd rs1 (\<lambda>a. a OR imm)"
| "execute_op pm handler inst_size (Sb rs1 rs2 imm) = store_op inst_size rs1 rs2 imm 0 ''''
     (\<lambda>addr v. cpu_write_u8 pm addr (ucast v))"
| "execute_op pm handler inst_size (Sh rs1 rs2 imm) = store_op inst_size rs1 rs2 imm 1 ''Unaligned 16-bit write''
     (\<lambda>addr v. cpu_write_u16 pm addr (ucast v))"
| "execute_op pm handler inst_size (Sw rs1 rs2 imm) = store_op inst_size rs1 rs2 imm 3 ''Unaligned 32-bit write''
     (\<lambda>addr v. cpu_write_u32 pm addr v)"
| "execute_op pm handler inst_size (Slli rd rs1 imm) = alu_ri inst_size rd rs1 (\<lambda>a. shl a imm)"
| "execute_op pm handler inst_size (Slti rd rs1 imm) = alu_ri inst_size rd rs1 (\<lambda>a. bool_to_u32 (i32_less a imm))"
| "execute_op pm handler inst_size (Sltiu rd rs1 imm) = alu_ri inst_size rd rs1 (\<lambda>a. bool_to_u32 (a < imm))"
| "execute_op pm handler inst_size (Srli rd rs1 imm) = alu_ri inst_size rd rs1 (\<lambda>a. shr a imm)"
| "execute_op pm handler inst_size (Srai rd rs1 imm) = alu_ri inst_size rd rs1 (\<lambda>a. sar a imm)"
| "execute_op pm handler inst_size (Xori rd rs1 imm) = alu_ri inst_size rd rs1 (\<lambda>a. a XOR imm)"
| "execute_op pm handler inst_size (LrW rd rs1) = lr_w pm inst_size rd rs1"
| "execute_op pm handler inst_size (ScW rd rs1 rs2) = sc_w pm inst_size rd rs1 rs2"
| "execute_op pm handler inst_size (AmoswapW rd rs1 rs2) = amo pm inst_size rd rs1 rs2 ''Unaligned AMOSWAP.W address'' (\<lambda>old b. b)"
| "execute_op pm handler inst_size (AmoaddW rd rs1 rs2) = amo pm inst_size rd rs1 rs2 ''Unaligned AMOADD.W address'' (+)"
| "execute_op pm handler inst_size (AmoxorW rd rs1 rs2) = amo pm inst_size rd rs1 rs2 ''Unaligned AMOXOR.W address'' (XOR)"
| "execute_op pm handler inst_size (AmoandW rd rs1 rs2) = amo pm inst_size rd rs1 rs2 ''Unaligned AMOAND.W address'' (AND)"
| "execute_op pm handler inst_size (AmoorW rd rs1 rs2) = amo pm inst_size rd rs1 rs2 ''Unaligned AMOOR.W address'' (OR)"
| "execute_op pm handler inst_size (AmominW rd rs1 rs2) = amo pm inst_size rd rs1 rs2 ''Unaligned AMOMIN.W address'' i32_min"
| "execute_op pm handler inst_size (AmomaxW rd rs1 rs2) = amo pm inst_size rd rs1 rs2 ''Unaligned AMOMAX.W address'' i32_max"
| "execute_op pm handler inst_size (AmominuW rd rs1 rs2) = amo pm inst_size rd rs1 rs2 ''Unaligned AMOMINU.W address'' min"
| "execute_op pm handler inst_size (AmomaxuW rd rs1 rs2) = amo pm inst_size rd rs1 rs2 ''Unaligned AMOMAXU.W address'' max"
| "execute_op pm handler inst_size Fence = returnS inst_size"
| "execute_op pm handler inst_size Ecall = ecall handler inst_size"
| "execute_op pm handler inst_size Break = throwS (CpuGenericError ''BREAK instruction is not supported'')"
| "execute_op pm handler inst_size Unknown = throwS (CpuGenericError ''Unknown instruction'')"

definition execute ::
  "('w, 'm, 'r) PagedMemory \<Rightarrow> ('w, 'm, 'e) ecall_handler option \<Rightarrow> u32 \<Rightarrow> ('w, 'm, 'e, unit) cpu_m" where
  "execute pm handler inst =
     (case decode inst of (op, inst_size) \<Rightarrow>
       bindS (execute_op pm handler inst_size op) (\<lambda>pc_inc (w, c).
         returnS () (w, c\<lparr>pc := pc c + pc_inc, regs := (regs c)[0 := 0]\<rparr>)))"

section \<open>The M extension computes the manual's integer results\<close>

lemma ucast_drop_bit_of_int:
  "LENGTH('b) + n \<le> LENGTH('a) \<Longrightarrow>
   ucast (drop_bit n (word_of_int i :: 'a::len word)) = (word_of_int (i div 2 ^ n) :: 'b::len word)"
  by (rule bit_word_eqI) (auto simp: bit_simps simp flip: drop_bit_eq_div)

lemma ucast_signed_drop_bit_of_int:
  "LENGTH('b) + n \<le> LENGTH('a) \<Longrightarrow>
   ucast (signed_drop_bit n (word_of_int i :: 'a::len word)) = (word_of_int (i div 2 ^ n) :: 'b::len word)"
  by (rule bit_word_eqI) (auto simp: bit_simps simp flip: drop_bit_eq_div)

lemma mulh_int: "mulh a b = word_of_int (sint a * sint b div 2 ^ 32)"
proof -
  have p: "(scast a :: 64 word) * scast b = word_of_int (sint a * sint b)"
    by simp
  show ?thesis unfolding mulh_def p by (rule ucast_signed_drop_bit_of_int) simp
qed

lemma mulhsu_int: "mulhsu a b = word_of_int (sint a * uint b div 2 ^ 32)"
proof -
  have p: "(scast (scast a :: 64 word) :: 128 word) * ucast (ucast b :: 64 word)
      = word_of_int (sint a * uint b)"
    by (simp add: scast_up_scast ucast_up_ucast is_up)
  show ?thesis unfolding mulhsu_def p by (rule ucast_signed_drop_bit_of_int) simp
qed

lemma mulhu_int: "mulhu a b = word_of_int (uint a * uint b div 2 ^ 32)"
proof -
  have p: "(ucast a :: 64 word) * ucast b = word_of_int (uint a * uint b)"
    by simp
  show ?thesis unfolding mulhu_def p by (rule ucast_drop_bit_of_int) simp
qed

lemma sint_bounds32: "- (2 ^ 31) \<le> sint (a :: u32)" "sint (a :: u32) < 2 ^ 31"
  using sint_greater_eq [of a] sint_less [of a] by simp_all

lemma sint_word_of_int32: "- (2 ^ 31) \<le> i \<Longrightarrow> i < 2 ^ 31 \<Longrightarrow> sint (word_of_int i :: u32) = i"
  by (simp only: sint_sbintrunc' len_num1 len_bit0) (simp add: signed_take_bit_int_eq_self)

lemma sdiv_no_overflow:
  assumes "- (2 ^ 31) \<le> (x::int)" "x < 2 ^ 31" "y \<noteq> 0" "\<not> (x = - (2 ^ 31) \<and> y = -1)"
  shows "- (2 ^ 31) \<le> x sdiv y" "x sdiv y < 2 ^ 31"
proof -
  have q: "- \<bar>x\<bar> \<le> x sdiv y" "x sdiv y \<le> \<bar>x\<bar>" using sdiv_int_range [of x y] by auto
  then show "- (2 ^ 31) \<le> x sdiv y" using assms(1,2) by linarith
  show "x sdiv y < 2 ^ 31"
  proof (rule ccontr)
    assume "\<not> x sdiv y < 2 ^ 31"
    then have "x = - (2 ^ 31)" "x sdiv y = 2 ^ 31" using q assms(1,2) by linarith+
    moreover have "y * (x sdiv y) + x smod y = x" by (rule mult_sdiv_smod_eq)
    moreover have "\<bar>x smod y\<bar> < \<bar>y\<bar>" using smod_int_range [where a = x and b = y] assms(3) by auto
    ultimately have "y = -1" using assms(3) by simp
    with \<open>x = _\<close> assms(4) show False by blast
  qed
qed

lemma smod_range32:
  assumes "- (2 ^ 31) \<le> (y::int)" "y < 2 ^ 31" "y \<noteq> 0"
  shows "- (2 ^ 31) \<le> x smod y" "x smod y < 2 ^ 31"
  using smod_int_range [where a = x and b = y] assms by auto

text \<open>
  The functions of the arms against the integers: the high halves of the products, division rounding
  towards zero with its remainder, the overflow and the division by zero with their fixed results.
\<close>

lemma m_helpers:
  "mulh a b = word_of_int (sint a * sint b div 2 ^ 32) \<and>
   mulhsu a b = word_of_int (sint a * uint b div 2 ^ 32) \<and>
   mulhu a b = word_of_int (uint a * uint b div 2 ^ 32) \<and>
   (if b = 0 then div_op a b = -1 \<and> rem_op a b = a \<and> divu_op a b = -1 \<and> remu_op a b = a
    else uint (divu_op a b) = uint a div uint b \<and> uint (remu_op a b) = uint a mod uint b \<and>
      (if sint a = - (2 ^ 31) \<and> sint b = -1 then div_op a b = a \<and> rem_op a b = 0
       else sint (div_op a b) = sint a sdiv sint b \<and> sint (rem_op a b) = sint a smod sint b \<and>
            sint a = sint b * sint (div_op a b) + sint (rem_op a b)))"
proof -
  have "sint a = - (2 ^ 31) \<and> sint b = -1 \<Longrightarrow> div_op a b = a \<and> rem_op a b = 0"
  proof -
    assume s: "sint a = - (2 ^ 31) \<and> sint b = -1"
    then have "b \<noteq> 0" by auto
    have "a = word_of_int (sint a)" by simp
    then have "a = word_of_int (- (2 ^ 31))" using s by simp
    with s \<open>b \<noteq> 0\<close> show "div_op a b = a \<and> rem_op a b = 0"
      by (simp add: div_op_def rem_op_def i32_wrapping_div_def i32_wrapping_rem_def
          signed_divide_int_def signed_modulo_int_def)
  qed
  moreover have "sint (div_op a b) = sint a sdiv sint b \<and> sint (rem_op a b) = sint a smod sint b"
    if "b \<noteq> 0" "\<not> (sint a = - (2 ^ 31) \<and> sint b = -1)"
  proof -
    have "sint b \<noteq> 0" using that(1) by (metis of_int_0 of_int_sint scast_id)
    then show ?thesis
      using that sdiv_no_overflow [OF sint_bounds32 _ that(2)] smod_range32 [OF sint_bounds32, of b "sint a"]
      by (simp add: div_op_def rem_op_def i32_wrapping_div_def i32_wrapping_rem_def sint_word_of_int32)
  qed
  moreover have "b \<noteq> 0 \<Longrightarrow> uint (divu_op a b) = uint a div uint b \<and> uint (remu_op a b) = uint a mod uint b"
    by (simp add: divu_op_def remu_op_def uint_div uint_mod)
  ultimately show ?thesis
    using mulh_int mulhsu_int mulhu_int
    by (auto simp: mult_sdiv_smod_eq div_op_def rem_op_def divu_op_def remu_op_def)
qed

text \<open>
  The M extension as the RISC-V manual tabulates it: the operands of its eight instructions, and what
  the destination register holds afterwards.
\<close>

fun m_operands :: "op \<Rightarrow> (u8 \<times> u8 \<times> u8) option" where
  "m_operands (Mul rd rs1 rs2) = Some (rd, rs1, rs2)"
| "m_operands (Mulh rd rs1 rs2) = Some (rd, rs1, rs2)"
| "m_operands (Mulhsu rd rs1 rs2) = Some (rd, rs1, rs2)"
| "m_operands (Mulhu rd rs1 rs2) = Some (rd, rs1, rs2)"
| "m_operands (Div rd rs1 rs2) = Some (rd, rs1, rs2)"
| "m_operands (Divu rd rs1 rs2) = Some (rd, rs1, rs2)"
| "m_operands (Rem rd rs1 rs2) = Some (rd, rs1, rs2)"
| "m_operands (Remu rd rs1 rs2) = Some (rd, rs1, rs2)"
| "m_operands _ = None"

definition div_overflows :: "u32 \<Rightarrow> u32 \<Rightarrow> bool" where
  "div_overflows a b \<longleftrightarrow> sint a = - (2 ^ 31) \<and> sint b = -1"

fun m_result :: "op \<Rightarrow> u32 \<Rightarrow> u32 \<Rightarrow> u32 \<Rightarrow> bool" where
  "m_result (Mul _ _ _) a b v \<longleftrightarrow> uint v = (uint a * uint b) mod 2 ^ 32"
| "m_result (Mulh _ _ _) a b v \<longleftrightarrow> sint v = sint a * sint b div 2 ^ 32"
| "m_result (Mulhsu _ _ _) a b v \<longleftrightarrow> sint v = sint a * uint b div 2 ^ 32"
| "m_result (Mulhu _ _ _) a b v \<longleftrightarrow> uint v = uint a * uint b div 2 ^ 32"
| "m_result (Div _ _ _) a b v \<longleftrightarrow>
     (if b = 0 then sint v = -1 else if div_overflows a b then v = a else sint v = sint a sdiv sint b)"
| "m_result (Divu _ _ _) a b v \<longleftrightarrow> (if b = 0 then uint v = 2 ^ 32 - 1 else uint v = uint a div uint b)"
| "m_result (Rem _ _ _) a b v \<longleftrightarrow>
     (if b = 0 then v = a else if div_overflows a b then v = 0 else sint v = sint a smod sint b)"
| "m_result (Remu _ _ _) a b v \<longleftrightarrow> (if b = 0 then v = a else uint v = uint a mod uint b)"
| "m_result _ a b v \<longleftrightarrow> False"

lemma mul_high_bounds:
  fixes x :: int
  assumes "- (2 ^ 31) \<le> x" "x < 2 ^ 31" "- (2 ^ 31) \<le> y" "y < 2 ^ 32"
  shows "- (2 ^ 31) \<le> x * y div 2 ^ 32" "x * y div 2 ^ 32 < 2 ^ 31"
proof -
  have "\<bar>x\<bar> \<le> 2 ^ 31" "\<bar>y\<bar> \<le> 2 ^ 32" using assms by auto
  then have m: "\<bar>x * y\<bar> \<le> 2 ^ 31 * 2 ^ 32" unfolding abs_mult by (rule mult_mono) auto
  show "- (2 ^ 31) \<le> x * y div 2 ^ 32" using m by simp
  have "x * y < 2 ^ 31 * 2 ^ 32"
  proof (cases "0 < y")
    case True
    then have "x * y < 2 ^ 31 * y" using assms(2) by simp
    also have "\<dots> \<le> 2 ^ 31 * 2 ^ 32" using assms(4) by simp
    finally show ?thesis .
  next
    case False
    have "x * y = (- x) * (- y)" by simp
    also have "\<dots> \<le> \<bar>x\<bar> * \<bar>y\<bar>" by (metis abs_ge_self abs_minus_cancel abs_mult)
    also have "\<dots> \<le> 2 ^ 31 * 2 ^ 31" using assms False by (intro mult_mono) auto
    finally show ?thesis by simp
  qed
  then show "x * y div 2 ^ 32 < 2 ^ 31" by simp
qed

lemma mul_high_results:
  "sint (mulh a b) = sint a * sint b div 2 ^ 32"
  "sint (mulhsu a b) = sint a * uint b div 2 ^ 32"
  "uint (mulhu a b) = uint a * uint b div 2 ^ 32"
proof -
  have u: "uint x < 2 ^ 32" for x :: u32 using uint_lt2p [of x] by simp
  have b: "- (2 ^ 31) \<le> sint x" "sint x < 2 ^ 31" "sint x < 2 ^ 32" for x :: u32
    using sint_bounds32 [of x] by simp_all
  have l: "- (2 ^ 31) \<le> uint x" for x :: u32
    by (rule order.trans [of _ 0]) simp_all
  show "sint (mulh a b) = sint a * sint b div 2 ^ 32"
    unfolding mulh_int by (rule sint_word_of_int32; rule mul_high_bounds; rule b)
  show "sint (mulhsu a b) = sint a * uint b div 2 ^ 32"
    unfolding mulhsu_int by (rule sint_word_of_int32; rule mul_high_bounds; (rule b u l))
  have "uint a * uint b < 2 ^ 32 * 2 ^ 32" using u [of a] u [of b] by (intro mult_strict_mono) auto
  then have "uint a * uint b div 2 ^ 32 < 2 ^ 32" "0 \<le> uint a * uint b div 2 ^ 32"
    by (simp_all add: pos_imp_zdiv_nonneg_iff)
  then show "uint (mulhu a b) = uint a * uint b div 2 ^ 32"
    unfolding mulhu_int by (simp add: uint_word_of_int)
qed

lemma m_results:
  "m_result (Mul d e g) a b (a * b)"
  "m_result (Mulh d e g) a b (mulh a b)" "m_result (Mulhsu d e g) a b (mulhsu a b)"
  "m_result (Mulhu d e g) a b (mulhu a b)"
  "m_result (Div d e g) a b (div_op a b)" "m_result (Divu d e g) a b (divu_op a b)"
  "m_result (Rem d e g) a b (rem_op a b)" "m_result (Remu d e g) a b (remu_op a b)"
  using m_helpers [of a b] mul_high_results [of a b]
  by (simp_all add: uint_word_ariths div_overflows_def split: if_splits)

lemma execute_op_m:
  assumes "m_operands p = Some (rd, rs1, rs2)"
  obtains f where "execute_op pm h n p = alu_rr n rd rs1 rs2 f" "\<And>a b. m_result p a b (f a b)"
proof -
  have "\<exists>f. execute_op pm h n p = alu_rr n rd rs1 rs2 f \<and> (\<forall>a b. m_result p a b (f a b))"
    using assms
    by (cases p; (clarsimp simp del: m_result.simps)?)
       (rule exI, rule conjI [OF refl], intro allI, rule m_results)+
  then show thesis using that by blast
qed

text \<open>
  C15: executing any of the eight instructions of the M extension (MUL, MULH, MULHSU, MULHU, DIV, DIVU, REM,
  REMU) writes to \<open>rd\<close> the result the RISC-V manual gives for the values of \<open>rs1\<close> and \<open>rs2\<close>, in that order:
  the low or high half of the exact signed, mixed or unsigned product; the quotient rounded towards zero
  and the remainder that goes with it; the fixed results for the overflow \<open>-2^31 / -1\<close> and for division by
  zero. \<open>x0\<close> stays zero, the program counter advances by the size of the instruction, and nothing else of
  the state changes. The instruction never fails.
\<close>

theorem m_extension:
  assumes "decode inst = (p, n)" "m_operands p = Some (rd, rs1, rs2)"
  shows "\<exists>v. m_result p (regs c ! unat rs1) (regs c ! unat rs2) v \<and>
    execute pm h inst (w, c) =
      ((w, c\<lparr>pc := pc c + n, regs := (regs c)[unat rd := v, 0 := 0]\<rparr>), Ok ())"
proof -
  let ?a = "regs c ! unat rs1" and ?b = "regs c ! unat rs2"
  obtain f where op: "execute_op pm h n p = alu_rr n rd rs1 rs2 f" and r: "\<And>a b. m_result p a b (f a b)"
    using execute_op_m [OF assms(2), where pm = pm and h = h and n = n] by blast
  have "execute pm h inst (w, c) =
      ((w, c\<lparr>pc := pc c + n, regs := (regs c)[unat rd := f ?a ?b, 0 := 0]\<rparr>), Ok ())"
    by (simp add: execute_def assms(1) op alu_rr_def bindS_def reg_def set_reg_def)
  with r show ?thesis by blast
qed

section \<open>Execution over any paged memory follows execution over vectors\<close>

text \<open>The operations as functions of the whole state, the form the rules for \<^const>\<open>simS\<close> use.\<close>

lemma cpu_read_alt:
  "cpu_read m a = (\<lambda>s.
     if contains (the_seg StackSeg (snd s)) a then on_seg StackSeg m s
     else if contains (the_seg DataSeg (snd s)) a then on_seg DataSeg m s
     else if contains (the_seg CodeSeg (snd s)) a then on_seg CodeSeg m s
     else throwS (MemError AddressOutOfBounds) s)"
  by (auto simp: cpu_read_def fun_eq_iff)

lemma cpu_write_alt:
  "cpu_write m a n = bindS (\<lambda>s.
     if contains (the_seg StackSeg (snd s)) a then on_seg StackSeg m s
     else if contains (the_seg DataSeg (snd s)) a then on_seg DataSeg m s
     else throwS (MemError AddressOutOfBounds) s) (\<lambda>_. invalidate_reservation a n)"
  by (auto simp: cpu_write_def fun_eq_iff bindS_def)

definition fetch_at :: "('w, 'm, 'r) PagedMemory \<Rightarrow> u32 \<Rightarrow> ('w, 'm, 'e, u32) cpu_m" where
  "fetch_at pm p = (\<lambda>s.
     if p mod 4 = 0 \<and> contains (the_seg CodeSeg (snd s)) (p + 3)
     then on_seg CodeSeg (seg_read_u32 pm p) s
     else
       bindS (on_seg CodeSeg (seg_read_u16 pm p)) (\<lambda>inst_lo.
         if inst_lo AND 0b11 \<noteq> 0b11 then returnS (ucast inst_lo)
         else bindS (on_seg CodeSeg (seg_read_u16 pm (p + 2))) (\<lambda>inst_hi.
           returnS (push_bit 16 (ucast inst_hi) OR ucast inst_lo))) s)"

lemma fetch_alt: "fetch_instruction pm = (\<lambda>s. fetch_at pm (pc (snd s)) s)"
  by (simp add: fetch_instruction_def fetch_at_def fun_eq_iff cong: if_cong)

text \<open>
  The errors that must be reproduced: all that the processor raises itself and those of the system-call
  handler in \<open>obs\<close>. A memory error is not among them, since a memory may fail for reasons of its own.
\<close>

primrec cpu_obs :: "('e \<Rightarrow> bool) \<Rightarrow> 'e cpu_error \<Rightarrow> bool" where
  "cpu_obs obs (EcallError e) = obs e"
| "cpu_obs obs (MemError e) = False"
| "cpu_obs obs (CpuGenericError msg) = True"

context paged_memory_laws
begin

definition cpu_rel :: "'w \<times> 'm cpu \<Rightarrow> 'u \<times> VecMemory cpu \<Rightarrow> bool" where
  "cpu_rel s t \<longleftrightarrow>
     pc (snd s) = pc (snd t) \<and> regs (snd s) = regs (snd t) \<and>
     reservation_addr (snd s) = reservation_addr (snd t) \<and>
     (\<forall>i. seg_rel (i \<noteq> CodeSeg) (fst s, the_seg i (snd s)) (fst t, the_seg i (snd t)))"

definition cpu_ok :: "'w \<times> 'm cpu \<Rightarrow> bool" where
  "cpu_ok s \<longleftrightarrow> (\<forall>i. ok (paged_memory (the_seg i (snd s)))) \<and> world_ok (fst s)"

abbreviation cpu_sim ::
  "('e \<Rightarrow> bool) \<Rightarrow> ('w, 'm, 'e, 'a) cpu_m \<Rightarrow> ('u, VecMemory, 'e, 'a) cpu_m \<Rightarrow> bool" where
  "cpu_sim obs \<equiv> simS (cpu_obs obs) cpu_rel cpu_ok"

lemma the_put_seg [simp]: "the_seg j (put_seg i s c) = (if j = i then s else the_seg j c)"
  by (cases i; cases j) auto

lemma put_seg_simps [simp]:
  "pc (put_seg i s c) = pc c" "regs (put_seg i s c) = regs c"
  "reservation_addr (put_seg i s c) = reservation_addr c"
  by (cases i; simp)+

lemma the_seg_simps [simp]:
  "the_seg i (c\<lparr>pc := a\<rparr>) = the_seg i c" "the_seg i (c\<lparr>regs := b\<rparr>) = the_seg i c"
  "the_seg i (c\<lparr>reservation_addr := r\<rparr>) = the_seg i c"
  by (cases i; simp)+

lemma seg_rel_le: "seg_rel b (w, s) (u, t) \<Longrightarrow> le w w' \<Longrightarrow> world_rel w' u' \<Longrightarrow> seg_rel b (w', s) (u', t)"
  using rep_le by (auto simp: seg_rel_def)

lemma on_seg_sim:
  assumes "seg_sim (i \<noteq> CodeSeg) m m'"
  shows "cpu_sim obs (on_seg i m) (on_seg i m')"
proof (rule simSI)
  fix s s' :: "'w \<times> 'm cpu" and r
  assume run: "on_seg i m s = (s', r)" and ok: "cpu_ok s'"
  obtain w1 g1 r1 where m: "m (fst s, the_seg i (snd s)) = ((w1, g1), r1)" by (metis surj_pair)
  then have s': "s' = (w1, put_seg i g1 (snd s))"
    using run by (cases s; cases r1) (auto simp: on_seg_def)
  have "seg_run_ok (w1, g1)" using ok s' by (auto simp: cpu_ok_def seg_run_ok_def dest: spec [of _ i])
  then have "seg_run_ok (fst s, the_seg i (snd s))"
    using simS_ok assms m by (fastforce simp: seg_sim_def)
  then show "cpu_ok s" using ok s' by (auto simp: cpu_ok_def seg_run_ok_def split: if_splits)
next
  fix s s' :: "'w \<times> 'm cpu" and t v
  assume rel: "cpu_rel s t" and run: "on_seg i m s = (s', Ok v)" and ok: "cpu_ok s'"
  obtain w1 g1 where m: "m (fst s, the_seg i (snd s)) = ((w1, g1), Ok v)"
    and s': "s' = (w1, put_seg i g1 (snd s))"
    using run by (cases s) (auto simp: on_seg_def split: prod.splits sum.splits)
  have ok1: "seg_run_ok (w1, g1)" using ok s' by (auto simp: cpu_ok_def seg_run_ok_def dest: spec [of _ i])
  have sim: "simS (\<lambda>_. False) (seg_rel (i \<noteq> CodeSeg)) seg_run_ok m m'" using assms by (simp add: seg_sim_def)
  have rel1: "seg_rel (i \<noteq> CodeSeg) (fst s, the_seg i (snd s)) (fst t, the_seg i (snd t))"
    using rel by (simp add: cpu_rel_def)
  obtain t1 where
    t1: "m' (fst t, the_seg i (snd t)) = (t1, Ok v)" "seg_rel (i \<noteq> CodeSeg) (w1, g1) t1"
    using simS_run [OF sim rel1 m ok1] by auto
  have "le (fst s) w1" using assms m unfolding seg_sim_def by blast
  with rel t1(2) s' have "cpu_rel s' (fst t1, put_seg i (snd t1) (snd t))"
    by (cases t1) (auto simp: cpu_rel_def intro: seg_rel_le dest: seg_relD(7))
  moreover have "on_seg i m' t = ((fst t1, put_seg i (snd t1) (snd t)), Ok v)"
    using t1(1) by (cases t; cases t1) (simp add: on_seg_def)
  ultimately show "\<exists>t'. on_seg i m' t = (t', Ok v) \<and> cpu_rel s' t'" by blast
next
  fix s s' :: "'w \<times> 'm cpu" and t and e
  assume "on_seg i m s = (s', Err e)" "cpu_obs obs e"
  then have False by (auto simp: on_seg_def split: prod.splits sum.splits)
  then show "\<exists>t'. on_seg i m' t = (t', Err e) \<and> cpu_rel s' t'" ..
qed

lemma rel_contains: "cpu_rel s t \<Longrightarrow> contains (the_seg i (snd s)) a = contains (the_seg i (snd t)) a"
  unfolding cpu_rel_def using rel_cong(4) by metis

lemma cpu_read_sim:
  assumes "\<And>b. seg_sim b m m'"
  shows "cpu_sim obs (cpu_read m a) (cpu_read m' a)"
  unfolding cpu_read_alt
  by (intro simS_if rel_contains simS_throw on_seg_sim assms)

lemma invalidate_sim: "cpu_sim obs (invalidate_reservation a n) (invalidate_reservation a n)"
  by (rule simSI)
     (auto simp: invalidate_reservation_def drop_reservation_def cpu_rel_def cpu_ok_def split: option.splits if_splits)

lemma cpu_write_sim:
  assumes "seg_sim True m m'"
  shows "cpu_sim obs (cpu_write m a n) (cpu_write m' a n)"
  unfolding cpu_write_alt
  by (intro simS_bind simS_if rel_contains simS_throw on_seg_sim invalidate_sim) (simp_all add: assms)

lemma access_sim [intro]:
  "cpu_sim obs (cpu_read_u8 pm a) (cpu_read_u8 VecMemory a)"
  "cpu_sim obs (cpu_read_u16 pm a) (cpu_read_u16 VecMemory a)"
  "cpu_sim obs (cpu_read_u32 pm a) (cpu_read_u32 VecMemory a)"
  "cpu_sim obs (cpu_write_u8 pm a x) (cpu_write_u8 VecMemory a x)"
  "cpu_sim obs (cpu_write_u16 pm a y) (cpu_write_u16 VecMemory a y)"
  "cpu_sim obs (cpu_write_u32 pm a z) (cpu_write_u32 VecMemory a z)"
  unfolding cpu_read_u8_def cpu_read_u16_def cpu_read_u32_def cpu_write_u8_def cpu_write_u16_def
    cpu_write_u32_def
  by (intro cpu_read_sim cpu_write_sim read_u8_sim read_u16_sim read_u32_sim write_u8_sim write_u16_sim
      write_u32_sim)+

lemma fetch_at_sim: "cpu_sim obs (fetch_at pm p) (fetch_at VecMemory p)"
  unfolding fetch_at_def
proof (rule simS_if)
  fix s :: "'w \<times> 'm cpu" and t :: "'u \<times> VecMemory cpu"
  assume "cpu_rel s t"
  from rel_contains [OF this, of CodeSeg] show "(p mod 4 = 0 \<and> contains (the_seg CodeSeg (snd s)) (p + 3))
    = (p mod 4 = 0 \<and> contains (the_seg CodeSeg (snd t)) (p + 3))" by blast
qed (intro sim_intros on_seg_sim read_u16_sim read_u32_sim)+

lemma fetch_sim: "cpu_sim obs (fetch_instruction pm) (fetch_instruction VecMemory)"
  unfolding fetch_alt
  by (rule simS_state [where f = "fetch_at pm" and f' = "fetch_at VecMemory"])
     (auto simp: fetch_at_sim cpu_rel_def)

lemma register_sim [intro]:
  "cpu_sim obs (reg r) (reg r)" "cpu_sim obs (set_reg r v) (set_reg r v)" "cpu_sim obs get_pc get_pc"
  "cpu_sim obs (set_pc v) (set_pc v)" "cpu_sim obs get_reservation get_reservation"
  "cpu_sim obs (set_reservation q) (set_reservation q)"
  by (rule simSI;
      auto simp: reg_def set_reg_def get_pc_def set_pc_def get_reservation_def set_reservation_def
        cpu_rel_def cpu_ok_def split: prod.splits)+

lemma finish_sim:
  "cpu_sim obs (\<lambda>(w, c). returnS () (w, c\<lparr>pc := pc c + d, regs := (regs c)[0 := 0]\<rparr>))
     (\<lambda>(w, c). returnS () (w, c\<lparr>pc := pc c + d, regs := (regs c)[0 := 0]\<rparr>))"
  by (rule simSI) (auto simp: cpu_rel_def cpu_ok_def split: prod.splits)

text \<open>A handler of system calls respects the simulation.\<close>

definition handler_sim ::
  "('e \<Rightarrow> bool) \<Rightarrow> ('w, 'm, 'e) ecall_handler option \<Rightarrow>
   ('u, VecMemory, 'e) ecall_handler option \<Rightarrow> bool" where
  "handler_sim obs h h' = (case (h, h') of
      (Some f, Some f') \<Rightarrow> simS obs cpu_rel cpu_ok f f'
    | (None, None) \<Rightarrow> True
    | _ \<Rightarrow> False)"

lemma ecall_sim:
  assumes "handler_sim obs h h'"
  shows "cpu_sim obs (ecall h n) (ecall h' n)"
proof (cases h)
  case (Some f)
  then obtain f' where f': "h' = Some f'" "simS obs cpu_rel cpu_ok f f'"
    using assms by (cases h') (auto simp: handler_sim_def)
  show ?thesis
  proof (rule simSI)
    fix s s' r
    assume "ecall h n s = (s', r)" "cpu_ok s'"
    then show "cpu_ok s"
      using simS_ok [OF f'(2), of s s'] by (auto simp: ecall_def Some split: prod.splits sum.splits)
  next
    fix s t s' v
    assume "cpu_rel s t" "ecall h n s = (s', Ok v)" "cpu_ok s'"
    then show "\<exists>t'. ecall h' n t = (t', Ok v) \<and> cpu_rel s' t'"
      using simS_run [OF f'(2), of s t s'] by (fastforce simp: ecall_def Some f'(1) split: prod.splits sum.splits)
  next
    fix s t s' e
    assume "cpu_rel s t" "ecall h n s = (s', Err e)" "cpu_obs obs e" "cpu_ok s'"
    then show "\<exists>t'. ecall h' n t = (t', Err e) \<and> cpu_rel s' t'"
      using simS_err [OF f'(2), of s t s'] by (fastforce simp: ecall_def Some f'(1) split: prod.splits sum.splits)
  qed
next
  case None
  then have "h' = None" using assms by (cases h') (auto simp: handler_sim_def)
  with None show ?thesis by (simp add: ecall_def simS_throw)
qed

lemma execute_op_sim:
  assumes "handler_sim obs h h'"
  shows "cpu_sim obs (execute_op pm h n p) (execute_op VecMemory h' n p)"
  by (cases p; simp only: execute_op.simps alu_rr_def alu_ri_def branch_def load_op_def store_op_def
      amo_def lr_w_def sc_w_def jal_def jalr_def;
      intro sim_intros register_sim access_sim ecall_sim [OF assms])

lemma execute_sim:
  assumes "handler_sim obs h h'"
  shows "cpu_sim obs (execute pm h inst) (execute VecMemory h' inst)"
  unfolding execute_def
  by (cases "decode inst") (simp only: prod.case, intro simS_bind execute_op_sim [OF assms] finish_sim)

end

section \<open>Invariants of the processor\<close>

text \<open>An invariant that a computation keeps, whatever its result, and a property of the value it returns.\<close>

definition keepsS :: "('s \<Rightarrow> bool) \<Rightarrow> ('s, 'e, 'a) stm \<Rightarrow> ('a \<Rightarrow> bool) \<Rightarrow> bool" where
  "keepsS I m Q \<longleftrightarrow> (\<forall>s s' r. I s \<longrightarrow> m s = (s', r) \<longrightarrow> I s' \<and> (\<forall>v. r = Ok v \<longrightarrow> Q v))"

lemma keepsSI: "(\<And>s s' r. I s \<Longrightarrow> m s = (s', r) \<Longrightarrow> I s' \<and> (\<forall>v. r = Ok v \<longrightarrow> Q v)) \<Longrightarrow> keepsS I m Q"
  by (auto simp: keepsS_def)

lemma keepsSD: "keepsS I m Q \<Longrightarrow> I s \<Longrightarrow> m s = (s', r) \<Longrightarrow> I s'"
  by (auto simp: keepsS_def)

lemma keeps_bind:
  assumes "keepsS I m P" "\<And>a. P a \<Longrightarrow> keepsS I (f a) Q"
  shows "keepsS I (bindS m f) Q"
proof (rule keepsSI)
  fix s s' r
  assume I: "I s" and run: "bindS m f s = (s', r)"
  obtain u q where m: "m s = (u, q)" by (metis surj_pair)
  then have u: "I u" "\<And>a. q = Ok a \<Longrightarrow> P a" using assms(1) I by (auto simp: keepsS_def)
  show "I s' \<and> (\<forall>v. r = Ok v \<longrightarrow> Q v)"
  proof (cases q)
    case (Inl e)
    with m run u show ?thesis by (auto simp: bindS_def)
  next
    case (Inr a)
    with m run have "f a u = (s', r)" by (simp add: bindS_def)
    with assms(2) [OF u(2) [OF Inr]] u(1) show ?thesis by (auto simp: keepsS_def)
  qed
qed

lemma keeps_return: "Q a \<Longrightarrow> keepsS I (returnS a) Q"
  by (auto simp: keepsS_def)

lemma keeps_throw: "keepsS I (throwS e) Q"
  by (auto simp: keepsS_def)

lemma keeps_cond:
  "\<lbrakk>b \<Longrightarrow> keepsS I m Q; \<not> b \<Longrightarrow> keepsS I n Q\<rbrakk> \<Longrightarrow> keepsS I (if b then m else n) Q"
  by simp

lemma keeps_if:
  "keepsS I m Q \<Longrightarrow> keepsS I n Q \<Longrightarrow> keepsS I (\<lambda>s. if P s then m s else n s) Q"
  unfolding keepsS_def by (metis (full_types))

lemmas keeps_then = keeps_bind [where P = "\<lambda>_. True"]
lemmas keeps_intros = keeps_then keeps_cond keeps_return keeps_throw

text \<open>
  What a system-call handler may not do: change the number of registers or jump. The handler of the
  VM writes results to registers and buffers to memory.
\<close>

definition handler_keeps :: "('w \<times> 'm cpu \<Rightarrow> bool) \<Rightarrow> ('w, 'm, 'e) ecall_handler option \<Rightarrow> bool" where
  "handler_keeps I h = (case h of None \<Rightarrow> True | Some f \<Rightarrow> keepsS I f (\<lambda>_. True))"

lemma ecall_keeps: "handler_keeps I h \<Longrightarrow> Q n \<Longrightarrow> keepsS I (ecall h n) Q"
  by (cases h) (fastforce simp: keepsS_def ecall_def handler_keeps_def split: prod.splits sum.splits)+

definition regs_pc_ok :: "'w \<times> 'm cpu \<Rightarrow> bool" where
  "regs_pc_ok s \<longleftrightarrow> length (regs (snd s)) = 32 \<and> even (pc (snd s))"

definition cpu_inv :: "'m cpu \<Rightarrow> bool" where
  "cpu_inv c \<longleftrightarrow> length (regs c) = 32 \<and> regs c ! 0 = 0 \<and> even (pc c)"

lemma keeps_cpu_read:
  assumes "\<And>i. keepsS I (on_seg i m :: ('w, 'm, 'e, 'a) cpu_m) Q"
  shows "keepsS I (cpu_read m a :: ('w, 'm, 'e, 'a) cpu_m) Q"
  unfolding cpu_read_alt by (intro keeps_if keeps_throw assms)

lemma keeps_cpu_write:
  assumes "\<And>i. i \<noteq> CodeSeg \<Longrightarrow> keepsS I (on_seg i m :: ('w, 'm, 'e, unit) cpu_m) (\<lambda>_. True)"
    and "keepsS I (invalidate_reservation a n :: ('w, 'm, 'e, unit) cpu_m) (\<lambda>_. True)"
  shows "keepsS I (cpu_write m a n :: ('w, 'm, 'e, unit) cpu_m) (\<lambda>_. True)"
  unfolding cpu_write_alt by (intro keeps_then keeps_if keeps_throw assms) simp_all

text \<open>
  An invariant of all register updates, of the loads and of the stores is an invariant of
  every instruction, and the distance to the next instruction is even.
\<close>

lemma execute_op_keeps:
  fixes I :: "'w \<times> 'm cpu \<Rightarrow> bool" and pm :: "('w, 'm, 'r) PagedMemory" and h :: "('w, 'm, 'e) ecall_handler option"
  assumes h: "handler_keeps I h" and p: "offset_even p" "even n"
    and regs: "\<And>r. keepsS I (reg r :: ('w, 'm, 'e, u32) cpu_m) (\<lambda>_. True)"
      "\<And>r v. keepsS I (set_reg r v :: ('w, 'm, 'e, unit) cpu_m) (\<lambda>_. True)"
      "keepsS I (get_pc :: ('w, 'm, 'e, u32) cpu_m) (\<lambda>_. True)"
      "\<And>v. even v \<Longrightarrow> keepsS I (set_pc v :: ('w, 'm, 'e, unit) cpu_m) (\<lambda>_. True)"
      "keepsS I (get_reservation :: ('w, 'm, 'e, u32 option) cpu_m) (\<lambda>_. True)"
      "\<And>q. keepsS I (set_reservation q :: ('w, 'm, 'e, unit) cpu_m) (\<lambda>_. True)"
    and mem: "\<And>a. keepsS I (cpu_read_u8 pm a :: ('w, 'm, 'e, u8) cpu_m) (\<lambda>_. True)"
      "\<And>a. keepsS I (cpu_read_u16 pm a :: ('w, 'm, 'e, u16) cpu_m) (\<lambda>_. True)"
      "\<And>a. keepsS I (cpu_read_u32 pm a :: ('w, 'm, 'e, u32) cpu_m) (\<lambda>_. True)"
      "\<And>a x. keepsS I (cpu_write_u8 pm a x :: ('w, 'm, 'e, unit) cpu_m) (\<lambda>_. True)"
      "\<And>a x. keepsS I (cpu_write_u16 pm a x :: ('w, 'm, 'e, unit) cpu_m) (\<lambda>_. True)"
      "\<And>a x. keepsS I (cpu_write_u32 pm a x :: ('w, 'm, 'e, unit) cpu_m) (\<lambda>_. True)"
  shows "keepsS I (execute_op pm h n p) even"
proof -
  have j: "even (a AND NOT 1)" for a :: u32 by (simp add: even_and_iff)
  show ?thesis
    using p
    by (cases p; simp only: execute_op.simps alu_rr_def alu_ri_def branch_def load_op_def store_op_def
        amo_def lr_w_def sc_w_def jal_def jalr_def;
        intro keeps_intros regs mem ecall_keeps [OF h] j;
        simp add: offset_even_def bit_0)
qed

lemma on_seg_keeps_regs: "keepsS regs_pc_ok (on_seg i m) (\<lambda>_. True)"
  by (cases i) (auto simp: keepsS_def on_seg_def regs_pc_ok_def split: prod.splits sum.splits)

lemma register_keeps_regs:
  "keepsS regs_pc_ok (reg r) (\<lambda>_. True)" "keepsS regs_pc_ok (set_reg r v) (\<lambda>_. True)"
  "keepsS regs_pc_ok get_pc (\<lambda>_. True)" "even u \<Longrightarrow> keepsS regs_pc_ok (set_pc u) (\<lambda>_. True)"
  "keepsS regs_pc_ok get_reservation (\<lambda>_. True)" "keepsS regs_pc_ok (set_reservation q) (\<lambda>_. True)"
  "keepsS regs_pc_ok (invalidate_reservation a n) (\<lambda>_. True)"
  by (auto simp: keepsS_def reg_def set_reg_def get_pc_def set_pc_def get_reservation_def
      set_reservation_def invalidate_reservation_def drop_reservation_def regs_pc_ok_def split: prod.splits option.splits if_splits)

lemmas cpu_access_defs = cpu_read_u8_def cpu_read_u16_def cpu_read_u32_def cpu_write_u8_def
  cpu_write_u16_def cpu_write_u32_def

text \<open>
  C13: every instruction keeps the processor well formed: 32 registers, \<open>x0\<close> hard-wired to zero, and an
  even program counter, whatever the memory and whatever the instruction word, if the system-call
  handler keeps the register file and the parity of the program counter.
\<close>

theorem execute_invariant:
  assumes "cpu_inv c" "handler_keeps regs_pc_ok h"
    and "execute pm h inst (w, c) = ((w', c'), Ok ())"
  shows "cpu_inv c'"
proof -
  obtain p n where d: "decode inst = (p, n)" by (metis surj_pair)
  have n: "even n" using d by (auto simp: decode_def split: if_splits)
  have "offset_even p" using op_ok_decode [of inst] d by (simp add: op_ok_def)
  then have k: "keepsS regs_pc_ok (execute_op pm h n p) even"
    using assms(2) n
    by (intro execute_op_keeps register_keeps_regs)
       (auto simp: cpu_access_defs intro!: keeps_cpu_read keeps_cpu_write on_seg_keeps_regs register_keeps_regs)
  obtain w1 c1 d1 where run: "execute_op pm h n p (w, c) = ((w1, c1), Ok d1)"
    and c': "c' = c1\<lparr>pc := pc c1 + d1, regs := (regs c1)[0 := 0]\<rparr>"
    using assms(3) d by (auto simp: execute_def bindS_Ok_iff split: prod.splits)
  have "regs_pc_ok (w, c)" using assms(1) by (simp add: cpu_inv_def regs_pc_ok_def)
  with k run have "regs_pc_ok (w1, c1)" "even d1" by (auto simp: keepsS_def)
  then show ?thesis by (auto simp: cpu_inv_def regs_pc_ok_def c')
qed

text \<open>A processor with one page for each segment, for the witnesses.\<close>

definition sample_page_seg :: "u32 \<Rightarrow> VecMemory MemorySegment" where
  "sample_page_seg start = \<lparr>start_address = start, seg_size = 256, paged_memory = VecMemory_new 1\<rparr>"

definition sample_cpu :: "VecMemory cpu" where
  "sample_cpu = (Cpu_new 0x1000 (sample_page_seg 0x1000) (sample_page_seg 0x2000) (sample_page_seg 0x3000))
     \<lparr>regs := (replicate 32 0)[5 := 0x2000, 6 := 7]\<rparr>"

lemma sample_page_seg_ok [simp]:
  "vec_seg_ok (sample_page_seg 0x1000)" "vec_seg_ok (sample_page_seg 0x2000)" "vec_seg_ok (sample_page_seg 0x3000)"
  by (simp_all add: vec_seg_ok_def sample_page_seg_def seg_fits_def VecMemory_new_def pages_ok_def
      page_ok_def PAGE_SIZE_def)

lemma sample_cpu_inv: "cpu_inv sample_cpu"
  by (simp add: cpu_inv_def sample_cpu_def Cpu_new_def)

lemma decode_addi: "decode 0x00500093 = (Addi 1 0 5, 4)"
  by (simp add: decode_def decode_uncompressed_def inst_rd_def inst_rs1_def i_imm_def)

theorem execute_invariant_witness:
  "\<exists>c'. cpu_inv sample_cpu \<and>
     execute VecMemory (None :: (unit, VecMemory, unit) ecall_handler option) 0x00500093 ((), sample_cpu)
       = (((), c'), Ok ()) \<and> cpu_inv c' \<and> regs c' ! 1 = 5"
proof -
  obtain c' where run: "execute VecMemory (None :: (unit, VecMemory, unit) ecall_handler option) 0x00500093
      ((), sample_cpu) = (((), c'), Ok ())" and r: "regs c' ! 1 = 5"
    by (simp add: execute_def decode_addi alu_ri_def bindS_def reg_def set_reg_def sample_cpu_def Cpu_new_def)
  have "handler_keeps regs_pc_ok (None :: (unit, VecMemory, unit) ecall_handler option)"
    by (simp add: handler_keeps_def)
  from execute_invariant [OF sample_cpu_inv this run] run r sample_cpu_inv show ?thesis by blast
qed

section \<open>The code is never written\<close>

definition code_is :: "VecMemory MemorySegment \<Rightarrow> 'w \<times> VecMemory cpu \<Rightarrow> bool" where
  "code_is seg s \<longleftrightarrow> code_seg (snd s) = seg"

lemma vec_read_same: "seg_read VecMemory a f s = (s', r) \<Longrightarrow> s' = s"
  by (auto simp: seg_read_def seg_get_page_def VecMemory_def vec_get_page_def bindS_def Let_def
      split: prod.splits if_splits)

lemma vec_reads_same:
  "seg_read_u8 VecMemory a s = (s', r8) \<Longrightarrow> s' = s"
  "seg_read_u16 VecMemory a s = (s', r16) \<Longrightarrow> s' = s"
  "seg_read_u32 VecMemory a s = (s', r32) \<Longrightarrow> s' = s"
  by (auto simp: seg_read_u8_def seg_read_u16_def seg_read_u32_def split: prod.splits if_splits
      dest: vec_read_same)

lemma on_seg_keeps_code:
  assumes "i \<noteq> CodeSeg \<or> (\<forall>s s' r. m s = (s', r) \<longrightarrow> s' = s)"
  shows "keepsS (code_is seg) (on_seg i m) (\<lambda>_. True)"
proof (rule keepsSI)
  fix s s' :: "'a \<times> VecMemory cpu" and r
  assume "code_is seg s" "on_seg i m s = (s', r)"
  then show "code_is seg s' \<and> (\<forall>v. r = Ok v \<longrightarrow> True)"
    using assms by (cases i; cases s) (fastforce simp: on_seg_def code_is_def split: prod.splits sum.splits)+
qed

lemma register_keeps_code:
  "keepsS (code_is seg) (reg r) (\<lambda>_. True)" "keepsS (code_is seg) (set_reg r v) (\<lambda>_. True)"
  "keepsS (code_is seg) get_pc (\<lambda>_. True)" "keepsS (code_is seg) (set_pc u) (\<lambda>_. True)"
  "keepsS (code_is seg) get_reservation (\<lambda>_. True)" "keepsS (code_is seg) (set_reservation q) (\<lambda>_. True)"
  "keepsS (code_is seg) (invalidate_reservation a n) (\<lambda>_. True)"
  by (auto simp: keepsS_def reg_def set_reg_def get_pc_def set_pc_def get_reservation_def
      set_reservation_def invalidate_reservation_def drop_reservation_def code_is_def split: prod.splits option.splits if_splits)

text \<open>Only ECALL consults the handler.\<close>

lemma execute_op_no_ecall: "p \<noteq> Ecall \<Longrightarrow> execute_op pm h n p = execute_op pm None n p"
  by (cases p) simp_all

lemma execute_op_code:
  fixes h :: "('w, VecMemory, 'e) ecall_handler option"
  assumes "decode inst = (p, n)" "p \<noteq> Ecall"
  shows "keepsS (code_is seg) (execute_op VecMemory h n p) even"
proof -
  have n: "even n" using assms(1) by (auto simp: decode_def split: if_splits)
  have "offset_even p" using op_ok_decode [of inst] assms(1) by (simp add: op_ok_def)
  moreover have "handler_keeps (code_is seg) (None :: ('w, VecMemory, 'e) ecall_handler option)"
    by (simp add: handler_keeps_def)
  ultimately show ?thesis
    unfolding execute_op_no_ecall [OF assms(2), of _ h] using n
    by (intro execute_op_keeps register_keeps_code)
       (auto simp: cpu_access_defs intro!: keeps_cpu_read keeps_cpu_write on_seg_keeps_code
         register_keeps_code dest: vec_reads_same)
qed

lemma execute_code:
  "code_seg (snd (fst (execute VecMemory h inst s))) =
   code_seg (snd (fst (execute_op VecMemory h (snd (decode inst)) (fst (decode inst)) s)))"
  by (auto simp: execute_def bindS_def split: prod.splits sum.splits)

text \<open>
  C14: for every instruction word, every world and every system-call handler, also when the instruction
  fails: an instruction other than ECALL leaves the code segment as it was (loads do not touch it, and
  stores, atomic operations and store-conditionals go to the stack or data segment or fail), and ECALL
  leaves the code segment that its handler returns; without a handler it is unchanged.
\<close>

theorem execute_keeps_code:
  "code_seg (snd (fst (execute VecMemory h inst (w, c)))) =
   (if fst (decode inst) = Ecall
    then (case h of Some f \<Rightarrow> code_seg (snd (fst (f (w, c)))) | None \<Rightarrow> code_seg c)
    else code_seg c)"
proof (cases "fst (decode inst) = Ecall")
  case True
  then show ?thesis
    by (auto simp: execute_code ecall_def split: prod.splits sum.splits option.splits)
next
  case False
  have "code_is (code_seg c) (w, c)" by (simp add: code_is_def)
  from keepsSD [OF execute_op_code [OF surjective_pairing False] this surjective_pairing]
  show ?thesis using False by (simp add: execute_code code_is_def)
qed

text \<open>
  \<open>sw x6, 0(x5)\<close> with \<open>x5\<close> in the code segment of the sample processor fails, and the code stays.
\<close>

lemma decode_sw: "decode 0x0062a023 = (Sw 5 6 0, 4)"
  by (simp add: decode_def decode_uncompressed_def inst_rs1_def inst_rs2_def s_imm_def)

theorem execute_keeps_code_witness:
  "let s = ((), sample_cpu\<lparr>regs := (regs sample_cpu)[5 := 0x1000]\<rparr>);
       run = execute VecMemory (None :: (unit, VecMemory, unit) ecall_handler option) 0x0062a023 s
   in contains (code_seg sample_cpu) 0x1000 \<and> code_seg (snd (fst run)) = code_seg sample_cpu \<and> (\<exists>e. snd run = Err e)"
proof -
  have w: "\<not> contains (stack_seg sample_cpu) 0x1000" "\<not> contains (data_seg sample_cpu) 0x1000"
    "contains (code_seg sample_cpu) 0x1000"
    by (simp_all add: contains_def sample_page_seg_def sample_cpu_def Cpu_new_def)
  show ?thesis
    unfolding Let_def execute_keeps_code
    using w by (auto simp: decode_sw execute_def store_op_def bindS_def reg_def cpu_write_u32_def cpu_write_def
        throwS_def sample_cpu_def Cpu_new_def)
qed

text \<open>\<open>div x1, x5, x6\<close> with \<open>x5 = 0x2000\<close> and \<open>x6 = 7\<close>.\<close>

lemma decode_div: "decode 0x0262c0b3 = (Div 1 5 6, 4)"
  by (simp add: decode_def decode_uncompressed_def inst_rd_def inst_rs1_def inst_rs2_def)

theorem m_extension_witness:
  "\<exists>c'. execute VecMemory (None :: (unit, VecMemory, unit) ecall_handler option) 0x0262c0b3 ((), sample_cpu)
     = (((), c'), Ok ()) \<and> sint (regs c' ! 1) = 1170 \<and> pc c' = 0x1004"
proof -
  from m_extension [OF decode_div m_operands.simps(5),
      of sample_cpu VecMemory "None :: (unit, VecMemory, unit) ecall_handler option" "()"]
  show ?thesis
    by (auto simp: sample_cpu_def Cpu_new_def div_overflows_def signed_divide_int_def)
qed

section \<open>Stores, loads and reservations\<close>

lemma unat_numeral_4: "unat (4 :: u32) = 4"
  by simp

lemma touches_iff:
  "0 < n \<Longrightarrow> saturating_sub a res < 4 \<and> saturating_sub res a < n \<longleftrightarrow>
   {unat a..<unat a + unat n} \<inter> {unat res..<unat res + 4} \<noteq> {}"
proof -
  assume "0 < n"
  have "unat (saturating_sub x y) = unat x - unat y" for x y
    by (auto simp: saturating_sub_def unat_sub word_le_nat_alt)
  moreover have pos: "0 < unat n" using \<open>0 < n\<close> by (simp add: word_less_nat_alt)
  ultimately have "saturating_sub a res < 4 \<and> saturating_sub res a < n \<longleftrightarrow>
      unat a < unat res + 4 \<and> unat res < unat a + unat n"
    unfolding word_less_nat_alt by (simp only: unat_numeral_4) linarith
  also have "\<dots> \<longleftrightarrow> max (unat a) (unat res) \<in> {unat a..<unat a + unat n} \<inter> {unat res..<unat res + 4}"
    using pos by (auto simp: max_def)
  also have "\<dots> \<longleftrightarrow> {unat a..<unat a + unat n} \<inter> {unat res..<unat res + 4} \<noteq> {}"
    by auto
  finally show ?thesis .
qed

text \<open>A store that succeeds runs on one segment, the first of the two that contains the address.\<close>

lemma cpu_write_cases:
  assumes "cpu_write m a n (w, c) = ((w', c'), Ok ())"
  obtains i seg where "i \<noteq> CodeSeg" "contains (the_seg i c) a" "i = DataSeg \<Longrightarrow> \<not> contains (stack_seg c) a"
    "m (w, the_seg i c) = ((w', seg), Ok ())" "c' = drop_reservation a n (put_seg i seg c)"
proof (cases "contains (stack_seg c) a")
  case True
  with assms show ?thesis
    by (auto intro!: that [of StackSeg] simp: cpu_write_def on_seg_def bindS_Ok_iff invalidate_reservation_def
        split: prod.splits sum.splits)
next
  case False
  with assms show ?thesis
    by (auto intro!: that [of DataSeg] simp: cpu_write_def on_seg_def bindS_Ok_iff invalidate_reservation_def
        split: prod.splits sum.splits if_splits)
qed

lemma drop_reservation_seg [simp]: "the_seg i (drop_reservation a n c) = the_seg i c"
  by (auto simp: drop_reservation_def split: option.splits)

lemma drop_reservation_segs [simp]:
  "stack_seg (drop_reservation a n c) = stack_seg c" "data_seg (drop_reservation a n c) = data_seg c"
  "code_seg (drop_reservation a n c) = code_seg c"
  by (auto simp: drop_reservation_def split: option.splits)

lemma put_seg_same: "the_seg i c = s \<Longrightarrow> put_seg i s c = c"
  by (cases i) auto

text \<open>
  a store of \<open>n\<close> bytes that succeeds ends the reservation exactly when the stored bytes and the reserved
  word have a byte in common.
\<close>

theorem store_reservation:
  assumes "0 < n" "cpu_write m a n (w, c) = ((w', c'), Ok ())"
  shows "reservation_addr c' =
    (case reservation_addr c of
       None \<Rightarrow> None
     | Some res \<Rightarrow> if {unat a..<unat a + unat n} \<inter> {unat res..<unat res + 4} \<noteq> {} then None else Some res)"
proof -
  from assms(2) obtain i seg where "c' = drop_reservation a n (put_seg i seg c)"
    by (rule cpu_write_cases)
  then show ?thesis
    by (auto simp: drop_reservation_def touches_iff [OF assms(1)] split: option.splits)
qed

definition cpu_vec_ok :: "VecMemory cpu \<Rightarrow> bool" where
  "cpu_vec_ok c \<longleftrightarrow> vec_seg_ok (stack_seg c) \<and> vec_seg_ok (data_seg c) \<and> vec_seg_ok (code_seg c)"

lemma vec_same_place:
  assumes "start_address seg' = start_address seg" "seg_size seg' = seg_size seg"
  shows "in_seg seg' = in_seg seg" "flat_pos seg' = flat_pos seg" "contains seg' = contains seg"
  using assms by (auto simp: in_seg_def flat_pos_def contains_def fun_eq_iff)

lemma seg_store_load_u32:
  assumes ok: "vec_seg_ok seg" and run: "seg_write_u32 VecMemory a v ((), seg) = (((), seg'), Ok ())"
  shows "seg_read_u32 VecMemory a ((), seg') = (((), seg'), Ok v)" "contains seg' = contains seg" "vec_seg_ok seg'"
proof -
  have fits: "seg_fits seg (length (paged_memory seg))" using ok by (simp add: vec_seg_ok_def)
  have in4: "in_seg seg (unat a) 4" and al: "a mod 4 = 0"
    using run out_of_bounds_iff [OF fits, of 4 a] by (auto simp: seg_write_u32_def split: if_splits)
  have off: "snd (locate seg a) + 4 \<le> PAGE_SIZE"
    using aligned_offset [OF ok in4] al by (simp add: word_dvd_4)
  have "\<exists>seg'. seg_write_u32 VecMemory a v ((), seg) = (((), seg'), Ok ()) \<and>
      flat seg' = overwrite [ucast v, ucast (drop_bit 8 v), ucast (drop_bit 16 v),
        ucast (drop_bit 24 v)] (flat_pos seg a) (flat seg) \<and> vec_seg_ok seg' \<and>
      start_address seg' = start_address seg \<and> seg_size seg' = seg_size seg"
    using out_of_bounds_iff [OF fits, of 4 a] in4 al off list_update_overwrite4
      vec_store [OF ok, of a 4 "[ucast v, ucast (drop_bit 8 v),
        ucast (drop_bit 16 v), ucast (drop_bit 24 v)]" "\<lambda>off data. data[off := ucast v,
        off + 1 := ucast (drop_bit 8 v), off + 2 := ucast (drop_bit 16 v),
        off + 3 := ucast (drop_bit 24 v)]"]
    by (auto simp: seg_write_u32_def page_ok_def)
  with run have st: "flat seg' = overwrite [ucast v, ucast (drop_bit 8 v), ucast (drop_bit 16 v),
        ucast (drop_bit 24 v)] (flat_pos seg a) (flat seg)"
    "vec_seg_ok seg'" "start_address seg' = start_address seg" "seg_size seg' = seg_size seg"
    by auto
  note same = vec_same_place [OF st(3,4)]
  then show "contains seg' = contains seg" "vec_seg_ok seg'" using st(2) by auto
  have len: "flat_pos seg a + 4 \<le> length (flat seg)"
    using flat_pos_bounds(1) [OF fits in4] length_flat [OF ok] by simp
  have nth: "flat seg' ! (flat_pos seg a + j) = [ucast v, ucast (drop_bit 8 v), ucast (drop_bit 16 v),
        ucast (drop_bit 24 v)] ! j" if "j < 4" for j
    using that len by (auto simp: st(1) overwrite_def nth_append numeral_eq_Suc less_Suc_eq)
  have "seg_read_u32 VecMemory a ((), seg') = (((), seg'), Ok (u32_from_le_bytes (ucast v)
      (ucast (drop_bit 8 v)) (ucast (drop_bit 16 v)) (ucast (drop_bit 24 v))))"
    using vec_load_u32 [OF st(2), of a] in4 al same nth [of 0] nth [of 1] nth [of 2] nth [of 3] by simp
  then show "seg_read_u32 VecMemory a ((), seg') = (((), seg'), Ok v)" by simp
qed

lemma cpu_store_load:
  assumes "cpu_vec_ok c" "cpu_write_u32 VecMemory a v ((), c) = (((), c'), Ok ())"
  shows "cpu_vec_ok c' \<and> cpu_read_u32 VecMemory a ((), c') = (((), c'), Ok v)"
proof -
  from assms(2) obtain i seg where i: "i \<noteq> CodeSeg" "contains (the_seg i c) a"
      "i = DataSeg \<Longrightarrow> \<not> contains (stack_seg c) a"
    and s: "seg_write_u32 VecMemory a v ((), the_seg i c) = (((), seg), Ok ())"
      "c' = drop_reservation a 4 (put_seg i seg c)"
    unfolding cpu_write_u32_def by (rule cpu_write_cases) (rule that)
  have ok: "vec_seg_ok (the_seg i c)" using assms(1) by (cases i) (auto simp: cpu_vec_ok_def)
  from seg_store_load_u32 [OF ok s(1)] assms(1) i s(2) show ?thesis
    by (cases i) (simp_all add: cpu_vec_ok_def cpu_read_u32_def cpu_read_def on_seg_def put_seg_same)
qed

text \<open>
  a word stored by the processor is what the processor reads back at that address.
\<close>

theorem store_load:
  assumes "cpu_vec_ok c" "cpu_write_u32 VecMemory a v ((), c) = (((), c'), Ok ())"
  shows "cpu_vec_ok c' \<and> cpu_read_u32 VecMemory a ((), c') = (((), c'), Ok v)"
  using cpu_store_load [OF assms] .

lemma vec_on_seg_read_u32:
  "on_seg i (seg_read_u32 VecMemory a) ((), c)
   = (((), c), map_sum MemError id (snd (seg_read_u32 VecMemory a ((), the_seg i c))))"
proof -
  obtain r where r: "seg_read_u32 VecMemory a ((), the_seg i c) = (((), the_seg i c), r)"
    using vec_reads_same(3) by (metis surj_pair)
  then show ?thesis by (cases r) (simp_all add: on_seg_def put_seg_same)
qed

lemma vec_cpu_read_u32:
  "cpu_read_u32 VecMemory a ((), c) = (((), c),
     if contains (stack_seg c) a then map_sum MemError id (snd (seg_read_u32 VecMemory a ((), stack_seg c)))
     else if contains (data_seg c) a then map_sum MemError id (snd (seg_read_u32 VecMemory a ((), data_seg c)))
     else if contains (code_seg c) a then map_sum MemError id (snd (seg_read_u32 VecMemory a ((), code_seg c)))
     else Err (MemError AddressOutOfBounds))"
  by (simp add: cpu_read_u32_def cpu_read_def vec_on_seg_read_u32)

text \<open>
  A store-conditional that completes stores exactly when the address is reserved: it then returns 0
  and the word reads back; otherwise it returns 1 and leaves memory unchanged. In both
  cases the reservation is gone.
\<close>

theorem store_conditional:
  assumes "cpu_vec_ok c" "unat rd < length (regs c)"
    and "sc_w VecMemory n rd rs1 rs2 ((), c) = (((), c'), Ok k :: ('e cpu_error, u32) result)"
  shows "reservation_addr c' = None \<and>
    (if reservation_addr c = Some (regs c ! unat rs1)
     then regs c' ! unat rd = 0 \<and>
       cpu_read_u32 VecMemory (regs c ! unat rs1) ((), c')
         = (((), c'), Ok (regs c ! unat rs2) :: ('f cpu_error, u32) result)
     else regs c' = (regs c)[unat rd := 1] \<and> stack_seg c' = stack_seg c \<and> data_seg c' = data_seg c \<and>
       code_seg c' = code_seg c)"
proof (cases "reservation_addr c = Some (regs c ! unat rs1)")
  case True
  let ?a = "regs c ! unat rs1" and ?v = "regs c ! unat rs2"
  from True assms(3) obtain c1 where
    w: "cpu_write_u32 VecMemory ?a ?v ((), c) = (((), c1), Ok () :: ('e cpu_error, unit) result)"
    and c': "c' = c1\<lparr>regs := (regs c1)[unat rd := 0], reservation_addr := None\<rparr>"
    by (auto simp: sc_w_def bindS_Ok_iff reg_def get_reservation_def set_reservation_def set_reg_def
        split: if_splits)
  have r: "regs c1 = regs c"
    using w unfolding cpu_write_u32_def by (rule cpu_write_cases) (auto simp: drop_reservation_def split: option.splits)
  have "cpu_read_u32 VecMemory ?a ((), c1) = (((), c1), Ok ?v :: ('f cpu_error, u32) result)"
    using cpu_store_load [OF assms(1) w] by blast
  then have "cpu_read_u32 VecMemory ?a ((), c') = (((), c'), Ok ?v :: ('f cpu_error, u32) result)"
    by (simp add: c' vec_cpu_read_u32 split: if_splits)
  with c' r assms(2) True show ?thesis by simp
next
  case False
  with assms(3) show ?thesis
    by (auto simp: sc_w_def bindS_Ok_iff reg_def get_reservation_def set_reservation_def set_reg_def
        split: if_splits)
qed

section \<open>Fetching\<close>

lemma le_halves:
  "u32_from_le_bytes a b c d = push_bit 16 (ucast (u16_from_le_bytes c d)) OR ucast (u16_from_le_bytes a b)"
  by (rule word32_eqI)
     (simp_all add: u32_from_le_bytes_def u32_from_be_bytes_def u16_from_le_bytes_def bit_simps bit_u8_out)

lemma halves_low:
  "ucast (push_bit 16 (ucast (hi :: u16)) OR ucast lo :: u32) = (lo :: u16)"
  by (rule bit_word_eqI) (auto simp: bit_simps)

lemma halves_tag:
  "(push_bit 16 (ucast (hi :: u16)) OR ucast (lo :: u16) :: u32) AND 3 = 3 \<longleftrightarrow> lo AND 3 = 3"
proof -
  have "(x AND 3 = 3) \<longleftrightarrow> bit x 0 \<and> bit x 1" if "2 \<le> LENGTH('a)" for x :: "'a::len word"
  proof
    assume "x AND 3 = 3"
    then have "bit (x AND 3) n = bit (3 :: 'a word) n" for n by simp
    from this [of 0] this [of 1] that show "bit x 0 \<and> bit x 1" by (simp add: bit_simps bit_numeral_rec)
  next
    assume "bit x 0 \<and> bit x 1"
    then show "x AND 3 = 3"
      by (intro bit_word_eqI) (auto simp: bit_simps bit_numeral_rec numeral_3_eq_3 less_Suc_eq bit_Suc split: nat.splits)
  qed
  from this [of "push_bit 16 (ucast hi) OR ucast lo :: u32"] this [of lo] show ?thesis
    by (simp add: bit_simps)
qed

lemma decode_halves:
  fixes lo hi :: u16
  shows "decode (push_bit 16 (ucast hi) OR ucast lo) =
    (if lo AND 3 \<noteq> 3 then (decode_compressed lo, 2)
     else (decode_uncompressed (push_bit 16 (ucast hi) OR ucast lo), 4))"
  by (simp add: decode_def halves_low halves_tag)

text \<open>The halfword of the code at an address.\<close>

definition code_half :: "VecMemory cpu \<Rightarrow> u32 \<Rightarrow> u16" where
  "code_half c a = u16_from_le_bytes (flat (code_seg c) ! flat_pos (code_seg c) a)
     (flat (code_seg c) ! (flat_pos (code_seg c) a + 1))"

lemma vec_on_seg_read_u16:
  assumes "vec_seg_ok (code_seg c)"
  shows "on_seg CodeSeg (seg_read_u16 VecMemory a) ((), c) = (((), c),
     if \<not> in_seg (code_seg c) (unat a) 2 then Err (MemError AddressOutOfBounds)
     else if a mod 2 \<noteq> 0 then Err (MemError UnalignedAddress) else Ok (code_half c a))"
  using vec_load_u16 [OF assms, of a] by (simp add: on_seg_def put_seg_same code_half_def)

lemma vec_fetch_word:
  assumes ok: "vec_seg_ok (code_seg c)"
    and run: "on_seg CodeSeg (seg_read_u32 VecMemory a) ((), c) = (((), c'), Ok inst)"
  shows "c' = c" "inst = push_bit 16 (ucast (code_half c (a + 2))) OR ucast (code_half c a)"
proof -
  have fits: "seg_fits (code_seg c) (length (paged_memory (code_seg c)))" using ok by (simp add: vec_seg_ok_def)
  from run vec_load_u32 [OF ok, of a] have in4: "in_seg (code_seg c) (unat a) 4"
    and i: "inst = u32_from_le_bytes (flat (code_seg c) ! flat_pos (code_seg c) a)
      (flat (code_seg c) ! (flat_pos (code_seg c) a + 1)) (flat (code_seg c) ! (flat_pos (code_seg c) a + 2))
      (flat (code_seg c) ! (flat_pos (code_seg c) a + 3))" and "c' = c"
    by (auto simp: on_seg_def put_seg_same split: if_splits)
  have "flat_pos (code_seg c) (a + 2) = flat_pos (code_seg c) a + 2"
    using advance(3) [OF fits in4, of 2] by simp
  with i show "inst = push_bit 16 (ucast (code_half c (a + 2))) OR ucast (code_half c a)"
    by (simp add: le_halves code_half_def numeral_3_eq_3)
  show "c' = c" by fact
qed

text \<open>
  C16: the fast path of the fetch (one aligned word) and the slow path (two halfwords, the second
  only if needed) deliver the same instruction: a compressed one is decoded from its own halfword alone,
  whatever follows it, and a full one from the two halfwords at the program counter.
\<close>

theorem fetch_decodes:
  assumes "vec_seg_ok (code_seg c)"
    and "fetch_instruction VecMemory ((), c) = (((), c'), Ok inst :: ('e cpu_error, u32) result)"
  shows "c' = c \<and> decode inst =
    (if code_half c (pc c) AND 3 \<noteq> 3 then (decode_compressed (code_half c (pc c)), 2)
     else (decode_uncompressed (push_bit 16 (ucast (code_half c (pc c + 2))) OR ucast (code_half c (pc c))), 4))"
proof (cases "pc c mod 4 = 0 \<and> contains (code_seg c) (pc c + 3)")
  case True
  with assms(2) have "on_seg CodeSeg (seg_read_u32 VecMemory (pc c)) ((), c)
      = (((), c'), Ok inst :: ('e cpu_error, u32) result)"
    by (simp add: fetch_instruction_def)
  from vec_fetch_word [OF assms(1) this] show ?thesis by (simp add: decode_halves)
next
  case False
  then have f: "fetch_instruction VecMemory ((), c) =
      bindS (on_seg CodeSeg (seg_read_u16 VecMemory (pc c))) (\<lambda>inst_lo.
         if inst_lo AND 0b11 \<noteq> 0b11 then returnS (ucast inst_lo)
         else bindS (on_seg CodeSeg (seg_read_u16 VecMemory (pc c + 2))) (\<lambda>inst_hi.
           returnS (push_bit 16 (ucast inst_hi) OR ucast inst_lo))) ((), c)"
    unfolding fetch_instruction_def by (simp only: prod.case if_False)
  have lo: "decode (ucast x) = (decode_compressed x, 2)" if "x AND 3 \<noteq> 3" for x :: u16
    using decode_halves [of 0 x] that by simp
  show ?thesis
    using assms(2) unfolding f
    by (auto simp: bindS_Ok_iff vec_on_seg_read_u16 [OF assms(1)] decode_halves lo split: if_splits)
qed

section \<open>Witnesses for the theorems on stores and fetches\<close>

lemma sample_cpu_ok: "cpu_vec_ok (sample_cpu\<lparr>reservation_addr := q\<rparr>)"
  by (simp add: cpu_vec_ok_def sample_cpu_def Cpu_new_def)

lemma contains_sample:
  "\<not> contains (sample_page_seg 0x3000) 0x2000" "contains (sample_page_seg 0x2000) 0x2000"
  by (simp_all add: contains_def sample_page_seg_def)

lemma seg_write_sample:
  obtains seg where "seg_write_u32 VecMemory 0x2000 7 ((), sample_page_seg 0x2000) = (((), seg), Ok ())"
proof -
  have "in_seg (sample_page_seg 0x2000) (unat (0x2000 :: u32)) 4"
    by (simp add: in_seg_def sample_page_seg_def)
  with that show thesis
    by (auto simp: seg_write_u32_def out_of_bounds_def sample_page_seg_def vec_seg_write locate_def
        VecMemory_new_def page_start_def PAGE_SIZE_def)
qed

lemma sample_store:
  obtains c' where "cpu_write_u32 VecMemory 0x2000 7 ((), sample_cpu\<lparr>reservation_addr := q\<rparr>)
    = (((), c'), Ok () :: ('e cpu_error, unit) result)"
  by (rule seg_write_sample)
     (auto simp: cpu_write_u32_def cpu_write_def on_seg_def bindS_def invalidate_reservation_def
       contains_sample sample_cpu_def Cpu_new_def intro: that)

theorem store_reservation_witness:
  "\<exists>c'. cpu_write (seg_write_u32 VecMemory 0x2000 7) 0x2000 4 ((), sample_cpu\<lparr>reservation_addr := Some 0x2000\<rparr>)
      = (((), c'), Ok () :: (unit cpu_error, unit) result) \<and> reservation_addr c' = None"
proof -
  obtain c' where "cpu_write_u32 VecMemory 0x2000 7 ((), sample_cpu\<lparr>reservation_addr := Some 0x2000\<rparr>)
    = (((), c'), Ok () :: (unit cpu_error, unit) result)" by (rule sample_store)
  then have w: "cpu_write (seg_write_u32 VecMemory 0x2000 7) 0x2000 4 ((), sample_cpu\<lparr>reservation_addr := Some 0x2000\<rparr>)
    = (((), c'), Ok () :: (unit cpu_error, unit) result)" by (simp add: cpu_write_u32_def)
  from store_reservation [OF _ w] w show ?thesis by auto
qed

theorem store_load_witness:
  "\<exists>c'. cpu_vec_ok (sample_cpu\<lparr>reservation_addr := None\<rparr>) \<and>
     cpu_write_u32 VecMemory 0x2000 7 ((), sample_cpu\<lparr>reservation_addr := None\<rparr>)
       = (((), c'), Ok () :: (unit cpu_error, unit) result) \<and>
     cpu_read_u32 VecMemory 0x2000 ((), c') = (((), c'), Ok 7 :: (unit cpu_error, u32) result)"
proof -
  obtain c' where w: "cpu_write_u32 VecMemory 0x2000 7 ((), sample_cpu\<lparr>reservation_addr := None\<rparr>)
    = (((), c'), Ok () :: (unit cpu_error, unit) result)" by (rule sample_store)
  from store_load [OF sample_cpu_ok w] w sample_cpu_ok [of None] show ?thesis by auto
qed

theorem store_conditional_witness:
  "\<exists>c'. cpu_vec_ok (sample_cpu\<lparr>reservation_addr := Some 0x2000\<rparr>) \<and>
     sc_w VecMemory 4 7 5 6 ((), sample_cpu\<lparr>reservation_addr := Some 0x2000\<rparr>)
       = (((), c'), Ok 4 :: (unit cpu_error, u32) result) \<and>
     regs c' ! 7 = 0 \<and> cpu_read_u32 VecMemory 0x2000 ((), c') = (((), c'), Ok 7 :: (unit cpu_error, u32) result)"
proof -
  obtain c1 where w: "cpu_write_u32 VecMemory 0x2000 7 ((), sample_cpu\<lparr>reservation_addr := Some 0x2000\<rparr>)
    = (((), c1), Ok () :: (unit cpu_error, unit) result)" by (rule sample_store)
  have r: "regs (sample_cpu\<lparr>reservation_addr := Some 0x2000\<rparr>) ! 5 = 0x2000"
    "regs (sample_cpu\<lparr>reservation_addr := Some 0x2000\<rparr>) ! 6 = 7"
    "length (regs (sample_cpu\<lparr>reservation_addr := Some 0x2000\<rparr>)) = 32"
    by (simp_all add: sample_cpu_def)
  with w obtain c' where run: "sc_w VecMemory 4 7 5 6 ((), sample_cpu\<lparr>reservation_addr := Some 0x2000\<rparr>)
       = (((), c'), Ok 4 :: (unit cpu_error, u32) result)"
    by (auto simp: sc_w_def bindS_def reg_def get_reservation_def set_reservation_def set_reg_def)
  have "unat (7 :: u8) < length (regs (sample_cpu\<lparr>reservation_addr := Some 0x2000\<rparr>))" using r(3) by simp
  from store_conditional [OF sample_cpu_ok this run] r run sample_cpu_ok [of "Some 0x2000"]
  show ?thesis by auto
qed

theorem fetch_decodes_witness:
  "\<exists>c' inst. vec_seg_ok (code_seg sample_cpu) \<and>
     fetch_instruction VecMemory ((), sample_cpu) = (((), c'), Ok inst :: (unit cpu_error, u32) result) \<and>
     c' = sample_cpu"
proof -
  have ok: "vec_seg_ok (code_seg sample_cpu)" by (simp add: sample_cpu_def Cpu_new_def)
  have "contains (code_seg sample_cpu) 0x1003" "pc sample_cpu = 0x1000"
      "in_seg (code_seg sample_cpu) (unat (0x1000 :: u32)) 4"
    by (simp_all add: sample_cpu_def Cpu_new_def contains_def sample_page_seg_def in_seg_def)
  with vec_load_u32 [OF ok, of "0x1000"] obtain c' inst where
    run: "fetch_instruction VecMemory ((), sample_cpu) = (((), c'), Ok inst :: (unit cpu_error, u32) result)"
    by (auto simp: fetch_instruction_def on_seg_def)
  from fetch_decodes [OF ok run] run ok show ?thesis by blast
qed

end
