(* ===== verification/Accumulator.thy ===== *)
theory Accumulator
  imports Prelude
begin

text \<open>
  The Merkle accumulator of \<open>common/src/accumulator.rs\<close>: the prover's tree (\<open>MerkleAccumulator\<close>),
  the verifiers that consume a proof one element at a time, and the computation of a root
  from a stream of leaf hashes. The hash function is a parameter \<open>H\<close>; what is needed of it is that its
  digests have 32 bytes and, for soundness, that the messages actually hashed do not collide: it is
  assumed injective on a finite set that the theorems name, never on all messages (no function to 32
  bytes is).
\<close>

section \<open>Hashers\<close>

text \<open>
  A \<open>ResettableHasher\<close> collects bytes until it is finalised. The field \<open>hasher_log\<close> is not in the
  code: it records the messages that were hashed, which is what the collision hypotheses speak of.
\<close>

type_synonym hash_output = bytes

record hasher =
  hasher_buf :: bytes
  hasher_log :: "bytes list"

definition hasher_new :: hasher where
  "hasher_new = \<lparr>hasher_buf = [], hasher_log = []\<rparr>"

definition hasher_reset :: "hasher \<Rightarrow> hasher" where
  "hasher_reset h = h\<lparr>hasher_buf := []\<rparr>"

definition hasher_update :: "bytes \<Rightarrow> hasher \<Rightarrow> hasher" where
  "hasher_update data h = h\<lparr>hasher_buf := hasher_buf h @ data\<rparr>"

definition digest_inplace :: "(bytes \<Rightarrow> hash_output) \<Rightarrow> hasher \<Rightarrow> hash_output \<times> hasher" where
  "digest_inplace H h = (H (hasher_buf h), h\<lparr>hasher_log := hasher_log h @ [hasher_buf h]\<rparr>)"

definition hash_len :: "(bytes \<Rightarrow> hash_output) \<Rightarrow> bool" where
  "hash_len H \<longleftrightarrow> (\<forall>bs. length (H bs) = 32)"

section \<open>The tree\<close>

record MerkleAccumulator =
  ma_data :: "bytes list"
  ma_tree :: "hash_output list"

datatype accumulator_error = IndexOutOfBounds

definition leaf_message :: "bytes \<Rightarrow> bytes" where
  "leaf_message data = 0x00 # data"

definition node_message :: "hash_output \<Rightarrow> hash_output \<Rightarrow> bytes" where
  "node_message left right = 0x01 # left @ right"

definition hash_leaf :: "(bytes \<Rightarrow> hash_output) \<Rightarrow> bytes \<Rightarrow> hash_output" where
  "hash_leaf H data = fst (digest_inplace H (hasher_update data (hasher_update [0x00] hasher_new)))"

definition hash_internal_node :: "(bytes \<Rightarrow> hash_output) \<Rightarrow> hash_output \<Rightarrow> hash_output \<Rightarrow> hash_output" where
  "hash_internal_node H left right =
     fst (digest_inplace H (hasher_update right (hasher_update left (hasher_update [0x01] hasher_new))))"

lemma hash_leaf_message: "hash_leaf H data = H (leaf_message data)"
  by (simp add: hash_leaf_def digest_inplace_def hasher_update_def hasher_new_def leaf_message_def)

lemma hash_internal_node_message: "hash_internal_node H l r = H (node_message l r)"
  by (simp add: hash_internal_node_def digest_inplace_def hasher_update_def hasher_new_def node_message_def)

fun is_power_of_two :: "nat \<Rightarrow> bool" where
  "is_power_of_two n = (if n = 0 then False else if n = 1 then True else even n \<and> is_power_of_two (n div 2))"

declare is_power_of_two.simps [simp del]

definition has_valid_leaf_count :: "nat \<Rightarrow> bool" where
  "has_valid_leaf_count n \<longleftrightarrow> 0 < n \<and> is_power_of_two n"

text \<open>The loop \<open>for i in (0..n - 1).rev()\<close>.\<close>

fun build_loop :: "(bytes \<Rightarrow> hash_output) \<Rightarrow> nat \<Rightarrow> hash_output list \<Rightarrow> hash_output list" where
  "build_loop H 0 t = t"
| "build_loop H (Suc i) t = build_loop H i (t[i := hash_internal_node H (t ! (2 * i + 1)) (t ! (2 * i + 2))])"

definition build_tree :: "(bytes \<Rightarrow> hash_output) \<Rightarrow> MerkleAccumulator \<Rightarrow> MerkleAccumulator" where
  "build_tree H ma =
     (let n = length (ma_data ma);
          leaves = map (hash_leaf H) (ma_data ma);
          t = replicate (2 * n - 1) (replicate 32 0)
      in ma\<lparr>ma_tree := build_loop H (n - 1) (take (n - 1) t @ leaves)\<rparr>)"

text \<open>\<open>new\<close> panics, here \<^const>\<open>None\<close>, unless the number of leaves is a power of two.\<close>

definition MerkleAccumulator_new :: "(bytes \<Rightarrow> hash_output) \<Rightarrow> bytes list \<Rightarrow> MerkleAccumulator option" where
  "MerkleAccumulator_new H data =
     (if has_valid_leaf_count (length data) then Some (build_tree H \<lparr>ma_data = data, ma_tree = []\<rparr>) else None)"

definition ma_get :: "MerkleAccumulator \<Rightarrow> nat \<Rightarrow> bytes option" where
  "ma_get ma index = (if index < length (ma_data ma) then Some (ma_data ma ! index) else None)"

definition ma_root :: "MerkleAccumulator \<Rightarrow> hash_output" where
  "ma_root ma = ma_tree ma ! 0"

fun prove_loop :: "hash_output list \<Rightarrow> nat \<Rightarrow> hash_output list" where
  "prove_loop t pos =
     (if pos = 0 then []
      else (if pos mod 2 = 0 then t ! (pos - 1) else t ! (pos + 1)) # prove_loop t ((pos - 1) div 2))"

declare prove_loop.simps [simp del]

definition prove :: "MerkleAccumulator \<Rightarrow> nat \<Rightarrow> (accumulator_error, hash_output list) result" where
  "prove ma index =
     (if length (ma_data ma) \<le> index then Err IndexOutOfBounds
      else Ok (prove_loop (ma_tree ma) (length (ma_data ma) - 1 + index)))"

fun update_loop :: "(bytes \<Rightarrow> hash_output) \<Rightarrow> hash_output list \<Rightarrow> nat \<Rightarrow> hash_output list" where
  "update_loop H t pos =
     (if pos = 0 then t
      else let p = (pos - 1) div 2
           in update_loop H (t[p := hash_internal_node H (t ! (2 * p + 1)) (t ! (2 * p + 2))]) p)"

declare update_loop.simps [simp del]

definition ma_update ::
  "(bytes \<Rightarrow> hash_output) \<Rightarrow> MerkleAccumulator \<Rightarrow> nat \<Rightarrow> bytes \<Rightarrow>
   MerkleAccumulator \<times> (accumulator_error, hash_output list \<times> hash_output) result" where
  "ma_update H ma index v =
     (if length (ma_data ma) \<le> index then (ma, Err IndexOutOfBounds)
      else case prove ma index of
        Inl e \<Rightarrow> (ma, Err e)
      | Inr merkle_proof \<Rightarrow>
          let pos = length (ma_data ma) - 1 + index;
              ma' = \<lparr>ma_data = (ma_data ma)[index := v],
                     ma_tree = update_loop H ((ma_tree ma)[pos := hash_leaf H v]) pos\<rparr>
          in (ma', Ok (merkle_proof, ma_root ma')))"

section \<open>Verifiers\<close>

record inclusion_verifier =
  current_hash :: hash_output
  iv_pos :: nat
  iv_root :: hash_output
  iv_verified :: bool

definition begin_inclusion_proof :: "hash_output \<Rightarrow> hash_output \<Rightarrow> nat \<Rightarrow> nat \<Rightarrow> inclusion_verifier" where
  "begin_inclusion_proof root value_hash index n =
     \<lparr>current_hash = value_hash, iv_pos = n - 1 + index, iv_root = root,
      iv_verified = (n = 1 \<and> value_hash = root)\<rparr>"

definition feed ::
  "(bytes \<Rightarrow> hash_output) \<Rightarrow> hash_output \<Rightarrow> inclusion_verifier \<times> hasher \<Rightarrow> inclusion_verifier \<times> hasher" where
  "feed H sibling_hash = (\<lambda>(v, hs).
     if iv_pos v = 0 then (v\<lparr>iv_verified := False\<rparr>, hs)
     else
       let (left, right) = (if iv_pos v mod 2 = 0 then (sibling_hash, current_hash v)
                            else (current_hash v, sibling_hash));
           hs1 = hasher_update right (hasher_update left (hasher_update [0x01] (hasher_reset hs)));
           (d, hs2) = digest_inplace H hs1;
           v1 = v\<lparr>current_hash := d, iv_pos := (iv_pos v - 1) div 2\<rparr>
       in (if iv_pos v1 = 0 then v1\<lparr>iv_verified := (d = iv_root v)\<rparr> else v1, hs2))"

record update_verifier =
  old_verifier :: inclusion_verifier
  new_verifier :: inclusion_verifier

definition begin_update_proof ::
  "hash_output \<Rightarrow> hash_output \<Rightarrow> hash_output \<Rightarrow> hash_output \<Rightarrow> nat \<Rightarrow> nat \<Rightarrow> update_verifier" where
  "begin_update_proof old_root new_root old_value_hash new_value_hash index n =
     \<lparr>old_verifier = begin_inclusion_proof old_root old_value_hash index n,
      new_verifier = begin_inclusion_proof new_root new_value_hash index n\<rparr>"

definition feed_update ::
  "(bytes \<Rightarrow> hash_output) \<Rightarrow> hash_output \<Rightarrow> update_verifier \<times> hasher \<Rightarrow> update_verifier \<times> hasher" where
  "feed_update H sibling_hash = (\<lambda>(v, hs).
     let (o1, hs1) = feed H sibling_hash (old_verifier v, hs);
         (n1, hs2) = feed H sibling_hash (new_verifier v, hs1)
     in (\<lparr>old_verifier = o1, new_verifier = n1\<rparr>, hs2))"

definition update_verified :: "update_verifier \<Rightarrow> bool" where
  "update_verified v \<longleftrightarrow> iv_verified (new_verifier v) \<and> iv_verified (old_verifier v)"

text \<open>The \<open>for el in proof.iter()\<close> loops, left to right.\<close>

definition feed_all ::
  "(bytes \<Rightarrow> hash_output) \<Rightarrow> hash_output list \<Rightarrow> inclusion_verifier \<times> hasher \<Rightarrow> inclusion_verifier \<times> hasher" where
  "feed_all H proof st = fold (feed H) proof st"

definition feed_update_all ::
  "(bytes \<Rightarrow> hash_output) \<Rightarrow> hash_output list \<Rightarrow> update_verifier \<times> hasher \<Rightarrow> update_verifier \<times> hasher" where
  "feed_update_all H proof st = fold (feed_update H) proof st"

definition verify_inclusion_proof ::
  "(bytes \<Rightarrow> hash_output) \<Rightarrow> hash_output \<Rightarrow> hash_output list \<Rightarrow> hash_output \<Rightarrow> nat \<Rightarrow> nat \<Rightarrow> bool" where
  "verify_inclusion_proof H root proof value_hash index n =
     iv_verified (fst (feed_all H proof (begin_inclusion_proof root value_hash index n, hasher_new)))"

definition verify_update_proof ::
  "(bytes \<Rightarrow> hash_output) \<Rightarrow> hash_output \<Rightarrow> hash_output \<Rightarrow> hash_output list \<Rightarrow> hash_output \<Rightarrow> hash_output \<Rightarrow>
   nat \<Rightarrow> nat \<Rightarrow> bool" where
  "verify_update_proof H old_root new_root proof old_value_hash new_value_hash index n =
     update_verified (fst (feed_update_all H proof
       (begin_update_proof old_root new_root old_value_hash new_value_hash index n, hasher_new)))"

section \<open>The root of a stream of leaves\<close>

record root_computer =
  rc_n :: nat
  cur_size :: nat
  hashes :: "hash_output list"

definition RootComputer_new :: "nat \<Rightarrow> root_computer option" where
  "RootComputer_new n =
     (if 0 < n \<and> is_power_of_two n then Some \<lparr>rc_n = n, cur_size = 0, hashes = []\<rparr> else None)"

fun trailing_zeros :: "nat \<Rightarrow> nat" where
  "trailing_zeros n = (if n = 0 then 0 else if odd n then 0 else Suc (trailing_zeros (n div 2)))"

declare trailing_zeros.simps [simp del]

text \<open>
  The stack is the vector \<open>hashes\<close>, its top at the end. A \<open>pop\<close> of an empty vector would be a panic,
  \<^const>\<open>None\<close>.
\<close>

fun combine :: "(bytes \<Rightarrow> hash_output) \<Rightarrow> nat \<Rightarrow> hash_output list \<Rightarrow> hash_output list option" where
  "combine H 0 hs = Some hs"
| "combine H (Suc d) hs =
     (if length hs < 2 then None
      else let right = hs ! (length hs - 1); left = hs ! (length hs - 2)
           in combine H d (take (length hs - 2) hs @ [hash_internal_node H left right]))"

definition rc_feed ::
  "(bytes \<Rightarrow> hash_output) \<Rightarrow> hash_output \<Rightarrow> root_computer \<Rightarrow> root_computer option" where
  "rc_feed H leaf_hash rc =
     (if rc_n rc \<le> cur_size rc then None
      else map_option (\<lambda>hs. rc\<lparr>cur_size := cur_size rc + 1, hashes := hs\<rparr>)
        (combine H (trailing_zeros (cur_size rc + 1)) (hashes rc @ [leaf_hash])))"

definition rc_root :: "root_computer \<Rightarrow> hash_output option" where
  "rc_root rc = (if cur_size rc \<noteq> rc_n rc \<or> hashes rc = [] then None else Some (hashes rc ! 0))"

section \<open>Well-formed trees\<close>

definition node_ok :: "(bytes \<Rightarrow> hash_output) \<Rightarrow> hash_output list \<Rightarrow> nat \<Rightarrow> bool" where
  "node_ok H t i \<longleftrightarrow> t ! i = H (node_message (t ! (2 * i + 1)) (t ! (2 * i + 2)))"

definition tree_ok :: "(bytes \<Rightarrow> hash_output) \<Rightarrow> nat \<Rightarrow> hash_output list \<Rightarrow> bool" where
  "tree_ok H n t \<longleftrightarrow> 0 < n \<and> length t = 2 * n - 1 \<and> (\<forall>i < n - 1. node_ok H t i) \<and>
     (\<forall>i < 2 * n - 1. length (t ! i) = 32)"

definition tree_messages :: "nat \<Rightarrow> hash_output list \<Rightarrow> bytes list" where
  "tree_messages n t = map (\<lambda>i. node_message (t ! (2 * i + 1)) (t ! (2 * i + 2))) [0..<n - 1]"

definition leaves :: "nat \<Rightarrow> hash_output list \<Rightarrow> hash_output list" where
  "leaves n t = drop (n - 1) t"

lemma node_message_inject:
  "\<lbrakk>node_message a b = node_message c d; length a = 32; length c = 32\<rbrakk> \<Longrightarrow> a = c \<and> b = d"
  by (simp add: node_message_def)

lemma node_leaf_disjoint: "node_message a b \<noteq> leaf_message c"
  by (simp add: node_message_def leaf_message_def)

lemma leaf_message_inject [simp]: "leaf_message a = leaf_message b \<longleftrightarrow> a = b"
  by (simp add: leaf_message_def)

lemma length_build_loop [simp]: "length (build_loop H i t) = length t"
  by (induction i arbitrary: t) auto

lemma build_loop_leaf: "i \<le> j \<Longrightarrow> build_loop H i t ! j = t ! j"
  by (induction i arbitrary: t) auto

lemma build_loop_len32:
  "\<lbrakk>hash_len H; \<And>j. j < length t \<Longrightarrow> length (t ! j) = 32; j < length t\<rbrakk> \<Longrightarrow> length (build_loop H i t ! j) = 32"
proof (induction i arbitrary: t)
  case (Suc i)
  have "length (t[i := H x] ! k) = 32" if "k < length t" for k x
    using Suc.prems(1,2) that by (cases "i = k") (auto simp: hash_len_def)
  then show ?case
    unfolding build_loop.simps hash_internal_node_message
    by (intro Suc.IH) (use Suc.prems in auto)
qed simp

lemma build_loop_node:
  "\<lbrakk>i < k; 2 * k < length t\<rbrakk> \<Longrightarrow> node_ok H (build_loop H k t) i"
proof (induction k arbitrary: t)
  case (Suc k)
  let ?t = "t[k := hash_internal_node H (t ! (2 * k + 1)) (t ! (2 * k + 2))]"
  show ?case
  proof (cases "i = k")
    case True
    then show ?thesis
      using Suc.prems by (simp add: node_ok_def build_loop_leaf hash_internal_node_message nth_list_update)
  next
    case False
    then show ?thesis using Suc.IH [of ?t] Suc.prems by simp
  qed
qed simp

text \<open>The tree over a list of leaf hashes.\<close>

definition tree_over :: "(bytes \<Rightarrow> hash_output) \<Rightarrow> hash_output list \<Rightarrow> hash_output list" where
  "tree_over H ls = build_loop H (length ls - 1) (replicate (length ls - 1) (replicate 32 0) @ ls)"

lemma tree_over_ok:
  assumes "hash_len H" "ls \<noteq> []" "\<forall>l\<in>set ls. length l = 32"
  shows "tree_ok H (length ls) (tree_over H ls)" "leaves (length ls) (tree_over H ls) = ls"
proof -
  let ?n = "length ls"
  let ?t = "replicate (?n - 1) (replicate 32 0) @ ls"
  have n: "0 < ?n" using assms(2) by simp
  have len: "length ?t = 2 * ?n - 1" using n by simp
  have l32: "length (?t ! j) = 32" if "j < length ?t" for j
    using that assms(3) by (auto simp: nth_append)
  show "tree_ok H ?n (tree_over H ls)"
    unfolding tree_over_def tree_ok_def
    using build_loop_len32 [OF assms(1) l32] build_loop_node [of _ "?n - 1" ?t] n len by auto
  show "leaves ?n (tree_over H ls) = ls"
    unfolding tree_over_def leaves_def
    by (rule nth_equalityI) (use n in \<open>auto simp: build_loop_leaf nth_append\<close>)
qed

lemma build_tree_ok:
  assumes "hash_len H" "0 < length data"
  shows "tree_ok H (length data) (ma_tree (build_tree H \<lparr>ma_data = data, ma_tree = []\<rparr>))"
    and "leaves (length data) (ma_tree (build_tree H \<lparr>ma_data = data, ma_tree = []\<rparr>)) = map (hash_leaf H) data"
proof -
  have "ma_tree (build_tree H \<lparr>ma_data = data, ma_tree = []\<rparr>) = tree_over H (map (hash_leaf H) data)"
    by (simp add: build_tree_def tree_over_def Let_def)
  moreover have "map (hash_leaf H) data \<noteq> []" "\<forall>l\<in>set (map (hash_leaf H) data). length l = 32"
    using assms by (auto simp: hash_leaf_message hash_len_def)
  ultimately show "tree_ok H (length data) (ma_tree (build_tree H \<lparr>ma_data = data, ma_tree = []\<rparr>))"
    "leaves (length data) (ma_tree (build_tree H \<lparr>ma_data = data, ma_tree = []\<rparr>)) = map (hash_leaf H) data"
    using tree_over_ok [OF assms(1)] by (metis length_map)+
qed

text \<open>The root determines the tree, unless two of the messages collide.\<close>

lemma tree_unique:
  assumes "tree_ok H n t" "tree_ok H n t'" "t ! 0 = t' ! 0"
    and inj: "inj_on H (set (tree_messages n t) \<union> set (tree_messages n t'))"
  shows "t = t'"
proof (rule nth_equalityI)
  show len: "length t = length t'" using assms(1,2) by (simp add: tree_ok_def)
  show "t ! i = t' ! i" if "i < length t" for i
    using that
  proof (induction i rule: less_induct)
    case (less i)
    show ?case
    proof (cases i)
      case 0
      then show ?thesis using assms(3) by simp
    next
      case (Suc k)
      let ?p = "k div 2"
      have p: "?p < i" "?p < n - 1" "?p < length t" using Suc less.prems assms(1) by (auto simp: tree_ok_def)
      let ?m = "\<lambda>t. node_message (t ! (2 * ?p + 1)) (t ! (2 * ?p + 2))"
      have "H (?m t) = H (?m t')"
        using less.IH [OF p(1,3)] assms(1,2) p(2) by (simp add: tree_ok_def node_ok_def)
      moreover have "?m t \<in> set (tree_messages n t)" "?m t' \<in> set (tree_messages n t')"
        using p(2) by (auto simp: tree_messages_def)
      ultimately have "?m t = ?m t'" using inj by (auto dest: inj_onD)
      moreover have "length (t ! (2 * ?p + 1)) = 32" "length (t' ! (2 * ?p + 1)) = 32"
        using assms(1,2) p(2) by (simp_all add: tree_ok_def)
      ultimately have "t ! (2 * ?p + 1) = t' ! (2 * ?p + 1)" "t ! (2 * ?p + 2) = t' ! (2 * ?p + 2)"
        using node_message_inject by blast+
      moreover have "i = 2 * ?p + 1 \<or> i = 2 * ?p + 2" using Suc by auto
      ultimately show ?thesis by metis
    qed
  qed
qed

section \<open>Paths\<close>

fun ancestors :: "nat \<Rightarrow> nat list" where
  "ancestors pos = (if pos = 0 then [] else (pos - 1) div 2 # ancestors ((pos - 1) div 2))"

declare ancestors.simps [simp del]

lemma ancestors_0 [simp]: "ancestors 0 = []"
  by (simp add: ancestors.simps)

lemma ancestors_less: "p \<in> set (ancestors pos) \<Longrightarrow> p < pos"
proof (induction pos rule: ancestors.induct)
  case (1 pos)
  then show ?case by (subst (asm) (2) ancestors.simps) (force split: if_splits)
qed

lemma ancestors_parent:
  assumes "2 * i + 1 \<in> insert pos (set (ancestors pos)) \<or> 2 * i + 2 \<in> insert pos (set (ancestors pos))"
  shows "i \<in> set (ancestors pos)"
  using assms
proof (induction pos rule: ancestors.induct)
  case (1 pos)
  show ?case
  proof (cases "pos = 0")
    case False
    let ?p = "(pos - 1) div 2"
    have a: "set (ancestors pos) = insert ?p (set (ancestors ?p))"
      using False by (subst ancestors.simps) simp
    show ?thesis
    proof (cases "2 * i + 1 = pos \<or> 2 * i + 2 = pos")
      case True
      then have "i = ?p" by auto
      then show ?thesis using a by simp
    next
      case False
      then show ?thesis using 1 a \<open>pos \<noteq> 0\<close> by auto
    qed
  qed (use 1 in auto)
qed

text \<open>The messages that a verifier hashes while it consumes a proof.\<close>

definition feed_message :: "inclusion_verifier \<Rightarrow> hash_output \<Rightarrow> bytes list" where
  "feed_message v s =
     (if iv_pos v = 0 then []
      else if even (iv_pos v) then [node_message s (current_hash v)] else [node_message (current_hash v) s])"

definition feed_step :: "(bytes \<Rightarrow> hash_output) \<Rightarrow> hash_output \<Rightarrow> inclusion_verifier \<Rightarrow> inclusion_verifier" where
  "feed_step H s v =
     (if iv_pos v = 0 then v\<lparr>iv_verified := False\<rparr>
      else let d = H (hd (feed_message v s)); p = (iv_pos v - 1) div 2
           in v\<lparr>current_hash := d, iv_pos := p, iv_verified := (if p = 0 then d = iv_root v else iv_verified v)\<rparr>)"

fun feed_messages :: "(bytes \<Rightarrow> hash_output) \<Rightarrow> hash_output list \<Rightarrow> inclusion_verifier \<Rightarrow> bytes list" where
  "feed_messages H [] v = []"
| "feed_messages H (s # ss) v = feed_message v s @ feed_messages H ss (feed_step H s v)"

lemma feed_eq:
  "fst (feed H s (v, hs)) = feed_step H s v"
  "hasher_log (snd (feed H s (v, hs))) = hasher_log hs @ feed_message v s"
  by (auto simp: feed_def feed_step_def feed_message_def digest_inplace_def hasher_update_def hasher_reset_def
      node_message_def Let_def mod2_eq_if)

lemma feed_all_eq:
  "fst (feed_all H proof (v, hs)) = fold (feed_step H) proof v \<and>
   hasher_log (snd (feed_all H proof (v, hs))) = hasher_log hs @ feed_messages H proof v"
proof (induction "proof" arbitrary: v hs)
  case (Cons s ss)
  obtain v1 hs1 where 1: "feed H s (v, hs) = (v1, hs1)" by (metis surj_pair)
  have 2: "v1 = feed_step H s v" "hasher_log hs1 = hasher_log hs @ feed_message v s"
    using feed_eq [of H s v hs] 1 by auto
  then show ?case using Cons.IH [of v1 hs1] 1 by (simp add: feed_all_def)
qed (simp add: feed_all_def)

lemma feed_update_all_eq:
  "old_verifier (fst (feed_update_all H proof (v, hs))) = fold (feed_step H) proof (old_verifier v) \<and>
   new_verifier (fst (feed_update_all H proof (v, hs))) = fold (feed_step H) proof (new_verifier v) \<and>
   set (hasher_log (snd (feed_update_all H proof (v, hs)))) =
     set (hasher_log hs) \<union> set (feed_messages H proof (old_verifier v)) \<union> set (feed_messages H proof (new_verifier v))"
proof (induction "proof" arbitrary: v hs)
  case (Cons s ss)
  obtain o1 hs1 where o: "feed H s (old_verifier v, hs) = (o1, hs1)" by (metis surj_pair)
  obtain n1 hs2 where n: "feed H s (new_verifier v, hs1) = (n1, hs2)" by (metis surj_pair)
  have e: "feed_update_all H (s # ss) (v, hs) = feed_update_all H ss (\<lparr>old_verifier = o1, new_verifier = n1\<rparr>, hs2)"
    by (simp add: feed_update_all_def feed_update_def o n)
  have f: "o1 = feed_step H s (old_verifier v)" "hasher_log hs1 = hasher_log hs @ feed_message (old_verifier v) s"
    "n1 = feed_step H s (new_verifier v)" "hasher_log hs2 = hasher_log hs1 @ feed_message (new_verifier v) s"
    using feed_eq [of H s "old_verifier v" hs] feed_eq [of H s "new_verifier v" hs1] o n by auto
  show ?case unfolding e using Cons.IH [of "\<lparr>old_verifier = o1, new_verifier = n1\<rparr>" hs2] f by auto
qed (simp add: feed_update_all_def)

section \<open>Completeness\<close>

lemma child_parity:
  "0 < pos \<Longrightarrow> even pos \<Longrightarrow> 2 * ((pos - 1) div 2) + 2 = (pos :: nat) \<and> 2 * ((pos - 1) div 2) + 1 = pos - 1"
  "0 < pos \<Longrightarrow> odd pos \<Longrightarrow> 2 * ((pos - 1) div 2) + 1 = (pos :: nat) \<and> 2 * ((pos - 1) div 2) + 2 = pos + 1"
  by (auto elim!: evenE oddE)

lemma prove_loop_unfold:
  "0 < pos \<Longrightarrow> prove_loop t pos = (if even pos then t ! (pos - 1) else t ! (pos + 1)) # prove_loop t ((pos - 1) div 2)"
  by (subst prove_loop.simps) (simp add: mod2_eq_if)

lemma prove_loop_0 [simp]: "prove_loop t 0 = []"
  by (simp add: prove_loop.simps)

lemma path_message:
  assumes "0 < iv_pos v" "current_hash v = t ! iv_pos v"
  shows "feed_message v (if even (iv_pos v) then t ! (iv_pos v - 1) else t ! (iv_pos v + 1))
    = [node_message (t ! (2 * ((iv_pos v - 1) div 2) + 1)) (t ! (2 * ((iv_pos v - 1) div 2) + 2))]"
  using assms child_parity [of "iv_pos v"] by (auto simp: feed_message_def)

text \<open>
  Fed with the siblings of a path in a well-formed tree, a verifier that starts at the right hash
  arrives at the root of the tree and accepts exactly if that is the root it expects; it hashes the messages
  of the path.
\<close>

lemma feed_path:
  assumes "tree_ok H n t" "iv_pos v < 2 * n - 1" "current_hash v = t ! iv_pos v"
    and "iv_pos v = 0 \<Longrightarrow> iv_verified v = (iv_root v = t ! 0)"
  shows "iv_verified (fold (feed_step H) (prove_loop t (iv_pos v)) v) = (iv_root v = t ! 0) \<and>
     feed_messages H (prove_loop t (iv_pos v)) v =
       map (\<lambda>i. node_message (t ! (2 * i + 1)) (t ! (2 * i + 2))) (ancestors (iv_pos v))"
  using assms(2-)
proof (induction "iv_pos v" arbitrary: v rule: less_induct)
  case less
  show ?case
  proof (cases "iv_pos v = 0")
    case False
    let ?p = "(iv_pos v - 1) div 2" and ?s = "if even (iv_pos v) then t ! (iv_pos v - 1) else t ! (iv_pos v + 1)"
    let ?v = "feed_step H ?s v"
    have msg: "feed_message v ?s = [node_message (t ! (2 * ?p + 1)) (t ! (2 * ?p + 2))]"
      using path_message less.prems(2) False by simp
    have "?p < n - 1" using less.prems(1) False by linarith
    then have "H (node_message (t ! (2 * ?p + 1)) (t ! (2 * ?p + 2))) = t ! ?p"
      using assms(1) by (simp add: tree_ok_def node_ok_def)
    then have v: "iv_pos ?v = ?p" "current_hash ?v = t ! ?p" "iv_root ?v = iv_root v"
      "?p = 0 \<Longrightarrow> iv_verified ?v = (iv_root v = t ! 0)"
      using False msg by (auto simp: feed_step_def Let_def)
    have "iv_verified (fold (feed_step H) (prove_loop t (iv_pos ?v)) ?v) = (iv_root ?v = t ! 0) \<and>
        feed_messages H (prove_loop t (iv_pos ?v)) ?v =
         map (\<lambda>i. node_message (t ! (2 * i + 1)) (t ! (2 * i + 2))) (ancestors (iv_pos ?v))"
      using less.prems(1) False v by (intro less.hyps) auto
    then show ?thesis
      using False msg v prove_loop_unfold [of "iv_pos v" t] ancestors.simps [of "iv_pos v"] by simp
  qed (use less.prems in auto)
qed

section \<open>Soundness\<close>

text \<open>
  An accepted proof consists of the siblings in the tree, and the hash it was accepted for is the one
  in the tree, unless two of the messages in the tree or hashed by the verifier collide.
\<close>

lemma feed_sound:
  assumes "tree_ok H n t" "hash_len H" "iv_pos v < 2 * n - 1" "iv_root v = t ! 0"
    and "length (current_hash v) = 32" "list_all (\<lambda>s. length s = 32) proof"
    and "iv_verified v \<Longrightarrow> iv_pos v = 0 \<and> current_hash v = iv_root v"
    and "iv_verified (fold (feed_step H) proof v)"
    and "inj_on H (set (feed_messages H proof v) \<union> set (tree_messages n t))"
  shows "current_hash v = t ! iv_pos v \<and> proof = prove_loop t (iv_pos v)"
  using assms(3-)
proof (induction "proof" arbitrary: v)
  case (Cons s ss)
  show ?case
  proof (cases "iv_pos v = 0")
    case True
    let ?v = "v\<lparr>iv_verified := False\<rparr>"
    have e: "feed_step H s v = ?v" using True by (simp add: feed_step_def)
    have "current_hash ?v = t ! iv_pos ?v \<and> ss = prove_loop t (iv_pos ?v)"
      using Cons.prems True e by (intro Cons.IH) (auto simp: feed_message_def)
    then have "ss = []" using True by simp
    with Cons.prems(6) e show ?thesis by simp
  next
    case False
    let ?p = "(iv_pos v - 1) div 2" and ?v = "feed_step H s v"
    have m: "feed_message v s = [hd (feed_message v s)]" using False by (auto simp: feed_message_def)
    have v: "iv_pos ?v = ?p" "iv_root ?v = t ! 0" "current_hash ?v = H (hd (feed_message v s))"
      using False Cons.prems(2) by (auto simp: feed_step_def Let_def)
    have "\<not> iv_verified v" using Cons.prems(5) False by blast
    then have ver: "iv_verified ?v \<Longrightarrow> iv_pos ?v = 0 \<and> current_hash ?v = iv_root ?v"
      using False by (auto simp: feed_step_def Let_def split: if_splits)
    have p: "?p < n - 1" using Cons.prems(1) False by linarith
    have ih: "current_hash ?v = t ! iv_pos ?v \<and> ss = prove_loop t (iv_pos ?v)"
    proof (rule Cons.IH [OF _ _ _ _ ver])
      show "length (current_hash ?v) = 32" using v assms(2) by (simp add: hash_len_def)
      show "inj_on H (set (feed_messages H ss ?v) \<union> set (tree_messages n t))"
        using Cons.prems(7) by (auto intro: inj_on_subset)
    qed (use v p Cons.prems in auto)
    let ?M = "node_message (t ! (2 * ?p + 1)) (t ! (2 * ?p + 2))"
    have "?M \<in> set (tree_messages n t)" using p by (auto simp: tree_messages_def)
    moreover have "hd (feed_message v s) \<in> set (feed_messages H (s # ss) v)"
      using m by (metis UnI1 feed_messages.simps(2) list.set_intros(1) set_append)
    moreover have "H (hd (feed_message v s)) = H ?M"
      using ih v p assms(1) by (simp add: tree_ok_def node_ok_def)
    ultimately have eq: "hd (feed_message v s) = ?M"
      using Cons.prems(7) by (auto dest: inj_onD)
    have t32: "length (t ! (2 * ?p + 1)) = 32" using assms(1) p by (simp add: tree_ok_def)
    have "(if even (iv_pos v) then s = t ! (iv_pos v - 1) else s = t ! (iv_pos v + 1)) \<and>
        current_hash v = t ! iv_pos v"
      using eq False Cons.prems(3,4) child_parity [of "iv_pos v"] t32
      by (auto simp: feed_message_def dest: node_message_inject)
    then show ?thesis using ih v False prove_loop_unfold [of "iv_pos v" t] by auto
  qed
qed simp

section \<open>Updates\<close>

lemma update_loop_unfold:
  "0 < pos \<Longrightarrow> update_loop H t pos =
     update_loop H (t[(pos - 1) div 2 := H (node_message (t ! (2 * ((pos - 1) div 2) + 1))
       (t ! (2 * ((pos - 1) div 2) + 2)))]) ((pos - 1) div 2)"
  by (subst update_loop.simps) (simp add: Let_def hash_internal_node_message)

lemma update_loop_0 [simp]: "update_loop H t 0 = t"
  by (simp add: update_loop.simps)

lemma length_update_loop [simp]: "length (update_loop H t pos) = length t"
proof (induction pos arbitrary: t rule: less_induct)
  case (less pos)
  show ?case
  proof (cases "pos = 0")
    case False
    then have "(pos - 1) div 2 < pos" by linarith
    then show ?thesis using less.IH False by (simp add: update_loop_unfold)
  qed simp
qed

lemma ancestors_unfold: "0 < pos \<Longrightarrow> ancestors pos = (pos - 1) div 2 # ancestors ((pos - 1) div 2)"
  by (subst ancestors.simps) simp

lemma ancestors_le: "i \<in> set (ancestors pos) \<Longrightarrow> i \<le> (pos - 1) div 2"
proof (cases "pos = 0")
  case False
  assume "i \<in> set (ancestors pos)"
  then show ?thesis using False ancestors_less [of i "(pos - 1) div 2"] by (auto simp: ancestors_unfold)
qed simp

lemma ancestors_bound:
  assumes "i \<in> set (ancestors pos)" "pos < 2 * n - 1"
  shows "i < n - 1"
proof -
  have "pos \<noteq> 0" using assms(1) by (cases pos) auto
  with ancestors_le [OF assms(1)] assms(2) show ?thesis by linarith
qed

lemma prove_loop_cong:
  "(\<And>j. j \<notin> insert pos (set (ancestors pos)) \<Longrightarrow> j \<le> pos + 1 \<Longrightarrow> t' ! j = t ! j)
   \<Longrightarrow> prove_loop t' pos = prove_loop t pos"
proof (induction pos rule: less_induct)
  case (less pos)
  show ?case
  proof (cases "pos = 0")
    case False
    let ?p = "(pos - 1) div 2"
    have a: "set (ancestors pos) = insert ?p (set (ancestors ?p))" using False by (simp add: ancestors_unfold)
    have "prove_loop t' ?p = prove_loop t ?p"
    proof (cases "?p = 0")
      case False
      show ?thesis
      proof (rule less.IH)
        fix j assume j: "j \<notin> insert ?p (set (ancestors ?p))" "j \<le> ?p + 1"
        have "j \<noteq> pos" "j \<le> pos + 1" using j(2) False by linarith+
        then show "t' ! j = t ! j" using less.prems [of j] j(1) a by auto
      qed (use \<open>pos \<noteq> 0\<close> in linarith)
    qed simp
    moreover have "(if even pos then t' ! (pos - 1) else t' ! (pos + 1)) = (if even pos then t ! (pos - 1) else t ! (pos + 1))"
    proof -
      have "pos + 1 \<notin> set (ancestors pos)" using ancestors_less [of "pos + 1" pos] by auto
      moreover have "pos - 1 \<notin> set (ancestors pos)" if "even pos"
        using ancestors_le [of "pos - 1" pos] that False by (auto elim!: evenE)
      ultimately show ?thesis using less.prems [of "pos - 1"] less.prems [of "pos + 1"] False by auto
    qed
    ultimately show ?thesis using False by (simp add: prove_loop_unfold)
  qed simp
qed

lemma update_loop_other:
  "j \<notin> set (ancestors pos) \<Longrightarrow> update_loop H t pos ! j = t ! j"
proof (induction pos arbitrary: t rule: less_induct)
  case (less pos)
  show ?case
  proof (cases "pos = 0")
    case False
    have "j \<noteq> (pos - 1) div 2" "j \<notin> set (ancestors ((pos - 1) div 2))"
      using less.prems False ancestors.simps [of pos] by auto
    moreover have "(pos - 1) div 2 < pos" using False by linarith
    ultimately show ?thesis using less.IH False by (simp add: update_loop_unfold)
  qed simp
qed

lemma update_loop_ok:
  assumes "hash_len H" "length t = 2 * n - 1" "0 < n" "pos < 2 * n - 1"
    and "\<And>i. i < n - 1 \<Longrightarrow> pos = 0 \<or> i \<noteq> (pos - 1) div 2 \<Longrightarrow> node_ok H t i"
    and "\<And>i. i < 2 * n - 1 \<Longrightarrow> length (t ! i) = 32"
  shows "tree_ok H n (update_loop H t pos)"
  using assms(2-)
proof (induction pos arbitrary: t rule: less_induct)
  case (less pos)
  show ?case
  proof (cases "pos = 0")
    case True
    then show ?thesis using less.prems by (simp add: tree_ok_def)
  next
    case False
    let ?p = "(pos - 1) div 2"
    let ?t = "t[?p := H (node_message (t ! (2 * ?p + 1)) (t ! (2 * ?p + 2)))]"
    have p: "?p < n - 1" "?p < pos" using less.prems(3) False by linarith+
    have "tree_ok H n (update_loop H ?t ?p)"
    proof (rule less.IH [OF p(2)])
      show "node_ok H ?t i" if "i < n - 1" "?p = 0 \<or> i \<noteq> (?p - 1) div 2" for i
      proof (cases "i = ?p")
        case True
        then show ?thesis using p(1) less.prems(1) by (simp add: node_ok_def nth_list_update)
      next
        case False
        have "2 * i + 1 \<noteq> ?p" "2 * i + 2 \<noteq> ?p" using that(2) by auto
        then show ?thesis using less.prems(4) [OF that(1)] False by (simp add: node_ok_def nth_list_update)
      qed
      show "length (?t ! i) = 32" if "i < 2 * n - 1" for i
        using less.prems(1,5) that assms(1) by (cases "i = ?p") (auto simp: hash_len_def)
    qed (use less.prems p in auto)
    then show ?thesis using False by (simp add: update_loop_unfold)
  qed
qed

text \<open>The tree after the leaf \<open>index\<close> has been replaced.\<close>

definition set_leaf :: "(bytes \<Rightarrow> hash_output) \<Rightarrow> nat \<Rightarrow> hash_output list \<Rightarrow> nat \<Rightarrow> hash_output \<Rightarrow> hash_output list" where
  "set_leaf H n t index x = update_loop H (t[n - 1 + index := x]) (n - 1 + index)"

lemma set_leaf_ok:
  assumes "tree_ok H n t" "hash_len H" "index < n" "length x = 32"
  shows "tree_ok H n (set_leaf H n t index x)" "set_leaf H n t index x ! (n - 1 + index) = x"
    "leaves n (set_leaf H n t index x) = (leaves n t)[index := x]"
    "prove_loop (set_leaf H n t index x) (n - 1 + index) = prove_loop t (n - 1 + index)"
proof -
  let ?pos = "n - 1 + index" and ?t = "t[n - 1 + index := x]"
  have t: "length t = 2 * n - 1" "0 < n" using assms(1) by (auto simp: tree_ok_def)
  have anc: "i \<in> set (ancestors ?pos) \<Longrightarrow> i < n - 1" for i
    using ancestors_bound [of i ?pos n] assms(3) by simp
  show "tree_ok H n (set_leaf H n t index x)"
    unfolding set_leaf_def
  proof (rule update_loop_ok [OF assms(2)])
    show "node_ok H ?t i" if "i < n - 1" "?pos = 0 \<or> i \<noteq> (?pos - 1) div 2" for i
    proof -
      have "2 * i + 1 \<noteq> ?pos" "2 * i + 2 \<noteq> ?pos" "i \<noteq> ?pos" using that by auto
      then show ?thesis using assms(1) that(1) by (simp add: tree_ok_def node_ok_def nth_list_update)
    qed
    show "length (?t ! i) = 32" if "i < 2 * n - 1" for i
      using that assms(1,4) by (cases "i = ?pos") (auto simp: tree_ok_def)
  qed (use t assms(3) in auto)
  have other: "set_leaf H n t index x ! j = ?t ! j" if "j \<notin> set (ancestors ?pos)" for j
    unfolding set_leaf_def using that by (rule update_loop_other)
  show "set_leaf H n t index x ! ?pos = x"
    using other [of ?pos] ancestors_less [of ?pos ?pos] t assms(3) by auto
  show "leaves n (set_leaf H n t index x) = (leaves n t)[index := x]"
  proof (rule nth_equalityI)
    fix j assume "j < length (leaves n (set_leaf H n t index x))"
    then have j: "j < n" using t by (simp add: leaves_def set_leaf_def)
    have "n - 1 + j \<notin> set (ancestors ?pos)" using anc [of "n - 1 + j"] by auto
    then show "leaves n (set_leaf H n t index x) ! j = (leaves n t)[index := x] ! j"
      using other j t by (cases "j = index") (auto simp: leaves_def set_leaf_def)
  qed (use t in \<open>simp add: leaves_def set_leaf_def\<close>)
  show "prove_loop (set_leaf H n t index x) ?pos = prove_loop t ?pos"
  proof (rule prove_loop_cong)
    fix j assume "j \<notin> insert ?pos (set (ancestors ?pos))"
    then show "set_leaf H n t index x ! j = t ! j" using other [of j] by simp
  qed
qed

lemma set_leaf_messages:
  assumes "tree_ok H n t" "hash_len H" "index < n" "length x = 32"
  shows "set (tree_messages n (set_leaf H n t index x)) \<subseteq> set (tree_messages n t) \<union>
    set (map (\<lambda>i. node_message (set_leaf H n t index x ! (2 * i + 1)) (set_leaf H n t index x ! (2 * i + 2)))
      (ancestors (n - 1 + index)))"
proof
  let ?pos = "n - 1 + index" and ?t = "set_leaf H n t index x"
  fix msg assume "msg \<in> set (tree_messages n ?t)"
  then obtain i where i: "i < n - 1" and msg: "msg = node_message (?t ! (2 * i + 1)) (?t ! (2 * i + 2))"
    by (auto simp: tree_messages_def)
  show "msg \<in> set (tree_messages n t) \<union> set (map (\<lambda>i. node_message (?t ! (2 * i + 1)) (?t ! (2 * i + 2))) (ancestors ?pos))"
  proof (cases "i \<in> set (ancestors ?pos)")
    case False
    have "?t ! j = t ! j" if "j = 2 * i + 1 \<or> j = 2 * i + 2" for j
    proof -
      have "j \<notin> insert ?pos (set (ancestors ?pos))" using ancestors_parent [of i ?pos] False that by auto
      then show ?thesis unfolding set_leaf_def by (simp add: update_loop_other)
    qed
    then show ?thesis using msg i by (auto simp: tree_messages_def)
  qed (use msg in auto)
qed

section \<open>What the accumulator guarantees\<close>

text \<open>The state of a prover: a well-formed tree over the hashes of its data.\<close>

definition acc_ok :: "(bytes \<Rightarrow> hash_output) \<Rightarrow> MerkleAccumulator \<Rightarrow> bool" where
  "acc_ok H ma \<longleftrightarrow> tree_ok H (length (ma_data ma)) (ma_tree ma) \<and>
     leaves (length (ma_data ma)) (ma_tree ma) = map (hash_leaf H) (ma_data ma)"

lemma acc_leaf:
  assumes "acc_ok H ma" "index < length (ma_data ma)"
  shows "ma_tree ma ! (length (ma_data ma) - 1 + index) = hash_leaf H (ma_data ma ! index)"
proof -
  have "leaves (length (ma_data ma)) (ma_tree ma) ! index = hash_leaf H (ma_data ma ! index)"
    using assms by (simp add: acc_ok_def)
  moreover have "length (ma_data ma) - 1 \<le> length (ma_tree ma)"
    using assms by (auto simp: acc_ok_def tree_ok_def)
  ultimately show ?thesis by (simp only: leaves_def nth_drop)
qed

lemma verify_inclusion_fold:
  "verify_inclusion_proof H root proof x index n =
     iv_verified (fold (feed_step H) proof (begin_inclusion_proof root x index n))"
  by (simp add: verify_inclusion_proof_def feed_all_eq)

lemma verify_update_fold:
  "verify_update_proof H old_root new_root proof x y index n \<longleftrightarrow>
     verify_inclusion_proof H new_root proof y index n \<and> verify_inclusion_proof H old_root proof x index n"
  by (simp add: verify_update_proof_def update_verified_def feed_update_all_eq verify_inclusion_fold
      begin_update_proof_def)

lemma verify_path:
  assumes "tree_ok H n t" "index < n" "t ! (n - 1 + index) = x"
  shows "verify_inclusion_proof H root (prove_loop t (n - 1 + index)) x index n \<longleftrightarrow> root = t ! 0"
proof -
  let ?v = "begin_inclusion_proof root x index n"
  have "iv_pos ?v < 2 * n - 1" "current_hash ?v = t ! iv_pos ?v" "iv_root ?v = root"
    "iv_pos ?v = 0 \<Longrightarrow> iv_verified ?v = (iv_root ?v = t ! 0)"
    using assms by (cases index; auto simp: begin_inclusion_proof_def)+
  from feed_path [OF assms(1) this(1,2,4)] this(3) show ?thesis
    by (simp add: verify_inclusion_fold begin_inclusion_proof_def)
qed

lemma verify_sound:
  assumes "tree_ok H n t" "hash_len H" "index < n" "length x = 32" "list_all (\<lambda>s. length s = 32) proof"
    and "iv_verified (fold (feed_step H) proof (begin_inclusion_proof (t ! 0) x index n))"
    and "inj_on H (set (feed_messages H proof (begin_inclusion_proof (t ! 0) x index n)) \<union> set (tree_messages n t))"
  shows "x = t ! (n - 1 + index) \<and> proof = prove_loop t (n - 1 + index)"
  using feed_sound [OF assms(1,2), of "begin_inclusion_proof (t ! 0) x index n" "proof"] assms
  by (auto simp: begin_inclusion_proof_def tree_ok_def)

text \<open>What the constructor and \<open>update\<close> return, on every branch.\<close>

lemma new_update_ok:
  assumes "hash_len H"
  shows "(if has_valid_leaf_count (length data)
     then \<exists>ma. MerkleAccumulator_new H data = Some ma \<and> acc_ok H ma \<and> ma_data ma = data
     else MerkleAccumulator_new H data = None) \<and>
   (if acc_ok H ma \<and> index < length (ma_data ma)
    then \<exists>ma' pr. ma_update H ma index v = (ma', Ok (pr, ma_root ma')) \<and> acc_ok H ma' \<and>
           ma_data ma' = (ma_data ma)[index := v]
    else \<not> acc_ok H ma \<or> ma_update H ma index v = (ma, Err IndexOutOfBounds))"
proof (intro conjI)
  show "if has_valid_leaf_count (length data)
     then \<exists>ma. MerkleAccumulator_new H data = Some ma \<and> acc_ok H ma \<and> ma_data ma = data
     else MerkleAccumulator_new H data = None"
    using build_tree_ok [OF assms, of data]
    by (auto simp: MerkleAccumulator_new_def has_valid_leaf_count_def acc_ok_def build_tree_def Let_def)
  show "if acc_ok H ma \<and> index < length (ma_data ma)
    then \<exists>ma' pr. ma_update H ma index v = (ma', Ok (pr, ma_root ma')) \<and> acc_ok H ma' \<and>
           ma_data ma' = (ma_data ma)[index := v]
    else \<not> acc_ok H ma \<or> ma_update H ma index v = (ma, Err IndexOutOfBounds)"
    using set_leaf_ok [of H "length (ma_data ma)" "ma_tree ma" index "hash_leaf H v"] assms
    by (auto simp: ma_update_def prove_def Let_def acc_ok_def set_leaf_def map_update hash_leaf_message hash_len_def)
qed

text \<open>
  C11: the constructor builds a well-formed tree, and \<open>update\<close> keeps it so: after it the accumulator
  is a well-formed tree over the vector with the one element replaced.
\<close>

theorem accumulator_invariant:
  assumes "hash_len H"
  shows "(if has_valid_leaf_count (length data)
     then \<exists>ma. MerkleAccumulator_new H data = Some ma \<and> acc_ok H ma \<and> ma_data ma = data
     else MerkleAccumulator_new H data = None) \<and>
   (if acc_ok H ma \<and> index < length (ma_data ma)
    then \<exists>ma' pr. ma_update H ma index v = (ma', Ok (pr, ma_root ma')) \<and> acc_ok H ma' \<and>
           ma_data ma' = (ma_data ma)[index := v]
    else \<not> acc_ok H ma \<or> ma_update H ma index v = (ma, Err IndexOutOfBounds))"
  by (rule new_update_ok [OF assms])

lemma acc_complete:
  assumes "hash_len H" "acc_ok H ma"
  shows "if index < length (ma_data ma)
     then \<exists>pr ma'. prove ma index = Ok pr \<and>
        verify_inclusion_proof H (ma_root ma) pr (hash_leaf H (ma_data ma ! index)) index (length (ma_data ma)) \<and>
        ma_update H ma index v = (ma', Ok (pr, ma_root ma')) \<and>
        verify_update_proof H (ma_root ma) (ma_root ma') pr (hash_leaf H (ma_data ma ! index)) (hash_leaf H v)
          index (length (ma_data ma))
     else prove ma index = Err IndexOutOfBounds \<and> ma_update H ma index v = (ma, Err IndexOutOfBounds)"
proof (cases "index < length (ma_data ma)")
  case True
  let ?n = "length (ma_data ma)" and ?t = "ma_tree ma" and ?x = "hash_leaf H v"
  have t: "tree_ok H ?n ?t" using assms(2) by (simp add: acc_ok_def)
  have x: "length ?x = 32" using assms(1) by (simp add: hash_leaf_message hash_len_def)
  note s = set_leaf_ok [OF t assms(1) True x]
  have p: "prove ma index = Ok (prove_loop ?t (?n - 1 + index))" using True by (simp add: prove_def)
  define ma' where "ma' = \<lparr>ma_data = (ma_data ma)[index := v], ma_tree = set_leaf H ?n ?t index ?x\<rparr>"
  have u: "ma_update H ma index v = (ma', Ok (prove_loop ?t (?n - 1 + index), ma_root ma'))"
    using True p by (simp add: ma_update_def ma'_def set_leaf_def Let_def)
  have 1: "verify_inclusion_proof H (ma_root ma) (prove_loop ?t (?n - 1 + index))
      (hash_leaf H (ma_data ma ! index)) index ?n"
    using verify_path [OF t True acc_leaf [OF assms(2) True]] by (simp add: ma_root_def)
  have 2: "verify_inclusion_proof H (ma_root ma') (prove_loop ?t (?n - 1 + index)) ?x index ?n"
    using verify_path [OF s(1) True s(2)] s(4) by (simp add: ma_root_def ma'_def)
  show ?thesis using True p u 1 2 by (auto simp: verify_update_fold)
qed (simp add: prove_def ma_update_def)

text \<open>
  C10: honest proofs are accepted. For every index of a well-formed accumulator, the proof it produces
  verifies against its root and the hash of its element, and the proof returned by \<open>update\<close> verifies the
  transition from the old root and element to the new ones; out of range, both operations report the error.
\<close>

theorem accumulator_complete:
  assumes "hash_len H" "acc_ok H ma"
  shows "if index < length (ma_data ma)
     then \<exists>pr ma'. prove ma index = Ok pr \<and>
        verify_inclusion_proof H (ma_root ma) pr (hash_leaf H (ma_data ma ! index)) index (length (ma_data ma)) \<and>
        ma_update H ma index v = (ma', Ok (pr, ma_root ma')) \<and>
        verify_update_proof H (ma_root ma) (ma_root ma') pr (hash_leaf H (ma_data ma ! index)) (hash_leaf H v)
          index (length (ma_data ma))
     else prove ma index = Err IndexOutOfBounds \<and> ma_update H ma index v = (ma, Err IndexOutOfBounds)"
  by (rule acc_complete [OF assms])

text \<open>
  C8: a proof that is accepted tells the truth. If a verifier holding the root of a well-formed tree accepts a
  hash for an index of the tree, then that is the hash at this index, provided no two of the messages in
  the tree and hashed by the verifier collide; and the proof is the one an honest prover sends.
\<close>

theorem inclusion_sound:
  assumes "hash_len H" "acc_ok H ma" "index < length (ma_data ma)" "length x = 32"
    and "list_all (\<lambda>s. length s = 32) pr"
    and "verify_inclusion_proof H (ma_root ma) pr x index (length (ma_data ma))"
    and "inj_on H (set (feed_messages H pr (begin_inclusion_proof (ma_root ma) x index (length (ma_data ma)))) \<union>
           set (tree_messages (length (ma_data ma)) (ma_tree ma)))"
  shows "x = hash_leaf H (ma_data ma ! index) \<and> prove ma index = Ok pr"
proof -
  have t: "tree_ok H (length (ma_data ma)) (ma_tree ma)" using assms(2) by (simp add: acc_ok_def)
  have "x = ma_tree ma ! (length (ma_data ma) - 1 + index) \<and> pr = prove_loop (ma_tree ma) (length (ma_data ma) - 1 + index)"
    using assms(6,7) by (intro verify_sound [OF t assms(1,3-5)]) (simp_all add: verify_inclusion_fold ma_root_def)
  then show ?thesis using acc_leaf [OF assms(2,3)] assms(3) by (simp add: prove_def)
qed

lemma update_tree_sound:
  assumes "tree_ok H n t" "hash_len H" "index < n" "length x = 32" "length y = 32"
    and "list_all (\<lambda>s. length s = 32) pr"
    and "verify_update_proof H (t ! 0) new_root pr x y index n"
    and "inj_on H (set (feed_messages H pr (begin_inclusion_proof (t ! 0) x index n)) \<union> set (tree_messages n t))"
  shows "x = t ! (n - 1 + index) \<and> pr = prove_loop t (n - 1 + index) \<and> new_root = set_leaf H n t index y ! 0"
proof -
  have v: "verify_inclusion_proof H new_root pr y index n" "verify_inclusion_proof H (t ! 0) pr x index n"
    using assms(7) by (auto simp: verify_update_fold)
  have x: "x = t ! (n - 1 + index) \<and> pr = prove_loop t (n - 1 + index)"
    using v(2) assms(8) by (intro verify_sound [OF assms(1-4,6)]) (simp_all add: verify_inclusion_fold)
  note s = set_leaf_ok [OF assms(1-3,5)]
  from verify_path [OF s(1) assms(3) s(2)] v(1) x s(4) show ?thesis by auto
qed

text \<open>
  C9: an update that is accepted is the requested one. If a verifier holding the root of a well-formed
  tree accepts an update proof, then the old hash was the one at this index and the new root is the root
  of the tree in which only this leaf is replaced, under the same hypothesis on collisions.
\<close>

theorem update_sound:
  assumes "hash_len H" "acc_ok H ma" "index < length (ma_data ma)" "length x = 32"
    and "list_all (\<lambda>s. length s = 32) pr"
    and "verify_update_proof H (ma_root ma) new_root pr x (hash_leaf H v) index (length (ma_data ma))"
    and "inj_on H (set (feed_messages H pr (begin_inclusion_proof (ma_root ma) x index (length (ma_data ma)))) \<union>
           set (tree_messages (length (ma_data ma)) (ma_tree ma)))"
  shows "x = hash_leaf H (ma_data ma ! index) \<and>
     new_root = ma_root (fst (ma_update H ma index v))"
proof -
  have t: "tree_ok H (length (ma_data ma)) (ma_tree ma)" using assms(2) by (simp add: acc_ok_def)
  have y: "length (hash_leaf H v) = 32" using assms(1) by (simp add: hash_leaf_message hash_len_def)
  show ?thesis
    using update_tree_sound [OF t assms(1,3,4) y assms(5) assms(6)[unfolded ma_root_def]] assms(7)
      acc_leaf [OF assms(2,3)] assms(3)
    by (simp add: ma_root_def ma_update_def prove_def Let_def set_leaf_def)
qed

section \<open>The streaming root computation\<close>

lemma is_power_of_two_0_1 [simp]: "\<not> is_power_of_two 0" "is_power_of_two (Suc 0)"
  by (subst is_power_of_two.simps, simp)+

lemma is_power_of_two_pow: "is_power_of_two n \<longleftrightarrow> (\<exists>k. n = 2 ^ k)"
proof (induction n rule: is_power_of_two.induct)
  case (1 n)
  show ?case
  proof (cases "n = 0 \<or> n = 1")
    case True
    then have "n = 0 \<and> \<not> is_power_of_two n \<or> n = 2 ^ 0 \<and> is_power_of_two n" by auto
    then show ?thesis by (metis power_not_zero zero_neq_numeral)
  next
    case False
    then have "is_power_of_two n \<longleftrightarrow> even n \<and> (\<exists>k. n div 2 = 2 ^ k)"
      using 1 by (subst is_power_of_two.simps) auto
    also have "\<dots> \<longleftrightarrow> (\<exists>k. n = 2 ^ k)"
    proof
      assume "even n \<and> (\<exists>k. n div 2 = 2 ^ k)"
      then obtain k where "n = 2 * 2 ^ k" by (metis dvd_mult_div_cancel)
      then show "\<exists>k. n = 2 ^ k" by (metis power_Suc)
    next
      assume "\<exists>k. n = 2 ^ k"
      then obtain k where "n = 2 ^ k" by blast
      with False obtain j where "k = Suc j" by (cases k) auto
      with \<open>n = 2 ^ k\<close> show "even n \<and> (\<exists>k. n div 2 = 2 ^ k)" by auto
    qed
    finally show ?thesis .
  qed
qed

text \<open>The hash of node \<open>j\<close> of level \<open>d\<close>, counted from the leaves, and the stack after \<open>k\<close> leaves.\<close>

fun level :: "(bytes \<Rightarrow> hash_output) \<Rightarrow> hash_output list \<Rightarrow> nat \<Rightarrow> nat \<Rightarrow> hash_output" where
  "level H ls 0 j = ls ! j"
| "level H ls (Suc d) j = H (node_message (level H ls d (2 * j)) (level H ls d (2 * j + 1)))"

fun stack_at :: "(nat \<Rightarrow> nat \<Rightarrow> hash_output) \<Rightarrow> nat \<Rightarrow> nat \<Rightarrow> hash_output list" where
  "stack_at nd d k =
     (if k = 0 then [] else stack_at nd (Suc d) (k div 2) @ (if odd k then [nd d (k - 1)] else []))"

declare stack_at.simps [simp del]

lemma combine_two: "combine H (Suc d) (hs @ [l, r]) = combine H d (hs @ [H (node_message l r)])"
  by (simp add: hash_internal_node_message nth_append)

lemma combine_stack:
  assumes "\<And>d j. nd (Suc d) j = H (node_message (nd d (2 * j)) (nd d (2 * j + 1)))"
  shows "combine H (trailing_zeros (k + 1)) (stack_at nd d k @ [nd d k]) = Some (stack_at nd d (k + 1))"
proof (induction k arbitrary: d rule: less_induct)
  case (less k)
  show ?case
  proof (cases "even k")
    case True
    then show ?thesis
      by (subst trailing_zeros.simps, subst (2) stack_at.simps) (auto simp: stack_at.simps)
  next
    case False
    then have k: "k = 2 * (k div 2) + 1" "0 < k" "k div 2 < k" by (auto elim: oddE)
    have "trailing_zeros (k + 1) = Suc (trailing_zeros (k div 2 + 1))"
      using False k by (subst trailing_zeros.simps) simp
    moreover have "stack_at nd d k = stack_at nd (Suc d) (k div 2) @ [nd d (2 * (k div 2))]"
      using False k by (subst stack_at.simps) simp
    moreover have "nd (Suc d) (k div 2) = H (node_message (nd d (2 * (k div 2))) (nd d k))"
      using assms [of d "k div 2"] k(1) by simp
    moreover have "stack_at nd d (k + 1) = stack_at nd (Suc d) (k div 2 + 1)"
      using False by (subst stack_at.simps) simp
    ultimately show ?thesis
      using less.IH [OF k(3), of "Suc d"] combine_two by simp
  qed
qed

lemma stack_at_pow: "stack_at nd d (2 ^ m) = [nd (d + m) 0]"
proof (induction m arbitrary: d)
  case 0
  show ?case by (subst stack_at.simps) (simp add: stack_at.simps)
next
  case (Suc m)
  then show ?case by (subst stack_at.simps) simp
qed

fun feed_leaves :: "(bytes \<Rightarrow> hash_output) \<Rightarrow> hash_output list \<Rightarrow> root_computer \<Rightarrow> root_computer option" where
  "feed_leaves H [] rc = Some rc"
| "feed_leaves H (l # ls) rc = (case rc_feed H l rc of None \<Rightarrow> None | Some rc' \<Rightarrow> feed_leaves H ls rc')"

lemma feed_leaves_stack:
  assumes "k + length xs \<le> n" "\<And>j. j < length xs \<Longrightarrow> ls ! (k + j) = xs ! j"
  shows "feed_leaves H xs \<lparr>rc_n = n, cur_size = k, hashes = stack_at (level H ls) 0 k\<rparr>
    = Some \<lparr>rc_n = n, cur_size = k + length xs, hashes = stack_at (level H ls) 0 (k + length xs)\<rparr>"
  using assms
proof (induction xs arbitrary: k)
  case (Cons x xs)
  have "level H ls 0 k = x" using Cons.prems(2) [of 0] by simp
  then have "rc_feed H x \<lparr>rc_n = n, cur_size = k, hashes = stack_at (level H ls) 0 k\<rparr>
      = Some \<lparr>rc_n = n, cur_size = k + 1, hashes = stack_at (level H ls) 0 (k + 1)\<rparr>"
    using combine_stack [of "level H ls" H k 0] Cons.prems(1) by (simp add: rc_feed_def)
  moreover have "ls ! (k + 1 + j) = xs ! j" if "j < length xs" for j
    using Cons.prems(2) [of "Suc j"] that by simp
  ultimately show ?case using Cons.IH [of "k + 1"] Cons.prems(1) by simp
qed simp

lemma tree_level:
  assumes "tree_ok H (2 ^ m) t"
  shows "d \<le> m \<Longrightarrow> j < 2 ^ (m - d) \<Longrightarrow> t ! (2 ^ (m - d) - 1 + j) = level H (leaves (2 ^ m) t) d j"
proof (induction d arbitrary: j)
  case 0
  then show ?case using assms by (simp add: leaves_def tree_ok_def)
next
  case (Suc d)
  let ?q = "2 ^ (m - Suc d) :: nat"
  have e: "2 ^ (m - d) = 2 * ?q" using Suc.prems(1) by (simp flip: power_Suc add: Suc_diff_Suc)
  have "?q - 1 + j < 2 ^ m - 1"
  proof -
    have "2 * ?q \<le> 2 ^ m" using e power_increasing [of "m - d" m "2 :: nat"] by simp
    then show ?thesis using Suc.prems(2) by simp
  qed
  then have "t ! (?q - 1 + j) = H (node_message (t ! (2 * (?q - 1 + j) + 1)) (t ! (2 * (?q - 1 + j) + 2)))"
    using assms by (simp add: tree_ok_def node_ok_def)
  moreover have "2 * (?q - 1 + j) + 1 = 2 ^ (m - d) - 1 + 2 * j" "2 * (?q - 1 + j) + 2 = 2 ^ (m - d) - 1 + (2 * j + 1)"
    unfolding e by (cases ?q; simp)+
  ultimately show ?case
    using Suc.IH [of "2 * j"] Suc.IH [of "2 * j + 1"] Suc.prems e by simp
qed

lemma feed_leaves_root:
  assumes "tree_ok H n t" "is_power_of_two n"
  shows "\<exists>rc rc'. RootComputer_new n = Some rc \<and> feed_leaves H (leaves n t) rc = Some rc' \<and> rc_root rc' = Some (t ! 0)"
proof -
  obtain m where m: "n = 2 ^ m" using assms(2) is_power_of_two_pow by blast
  have len: "length (leaves n t) = n" using assms(1) by (simp add: leaves_def tree_ok_def)
  have "stack_at (level H (leaves n t)) 0 0 = []" by (simp add: stack_at.simps)
  then have "feed_leaves H (leaves n t) \<lparr>rc_n = n, cur_size = 0, hashes = []\<rparr>
      = Some \<lparr>rc_n = n, cur_size = n, hashes = [level H (leaves n t) m 0]\<rparr>"
    using feed_leaves_stack [of 0 "leaves n t" n "leaves n t" H] len stack_at_pow [of _ 0 m] m by simp
  moreover have "level H (leaves n t) m 0 = t ! 0"
    using tree_level [of H m t m 0] assms(1) m by simp
  ultimately show ?thesis using assms(2) m by (simp add: RootComputer_new_def rc_root_def)
qed

text \<open>
  C12: feeding the leaf hashes of a vector to the streaming computation, in order, never panics and
  yields the root of the tree the accumulator builds over the same vector.
\<close>

theorem root_computer_root:
  assumes "hash_len H" "has_valid_leaf_count (length data)"
  shows "\<exists>ma rc rc'. MerkleAccumulator_new H data = Some ma \<and> RootComputer_new (length data) = Some rc \<and>
     feed_leaves H (map (hash_leaf H) data) rc = Some rc' \<and> rc_root rc' = Some (ma_root ma)"
proof -
  let ?ma = "build_tree H \<lparr>ma_data = data, ma_tree = []\<rparr>"
  have "0 < length data" using assms(2) by (simp add: has_valid_leaf_count_def)
  note b = build_tree_ok [OF assms(1) this]
  from feed_leaves_root [OF b(1)] b(2) assms(2) show ?thesis
    by (simp add: MerkleAccumulator_new_def has_valid_leaf_count_def ma_root_def)
qed

section \<open>Witnesses\<close>

text \<open>A function with 32-byte values and a tree with two leaves.\<close>

definition toy_hash :: "bytes \<Rightarrow> hash_output" where
  "toy_hash bs = take 32 (rev bs @ replicate 32 0)"

definition toy_acc :: MerkleAccumulator where
  "toy_acc = build_tree toy_hash \<lparr>ma_data = [[1], [2]], ma_tree = []\<rparr>"

lemma toy_hash_len: "hash_len toy_hash"
  by (auto simp: hash_len_def toy_hash_def min_def)

lemma toy_data: "ma_data toy_acc = [[1], [2]]"
  by (simp add: toy_acc_def build_tree_def Let_def)

lemma toy_acc_ok: "acc_ok toy_hash toy_acc"
  using build_tree_ok [OF toy_hash_len, of "[[1], [2]]"] by (simp add: acc_ok_def toy_acc_def build_tree_def Let_def)

lemma toy_valid: "has_valid_leaf_count (length [[1], [2 :: u8]])"
  by (subst has_valid_leaf_count_def, subst is_power_of_two.simps) simp

theorem accumulator_invariant_witness:
  "hash_len toy_hash \<and> (\<exists>ma' pr. ma_update toy_hash toy_acc 1 [7] = (ma', Ok (pr, ma_root ma')) \<and>
     acc_ok toy_hash ma' \<and> ma_data ma' = [[1], [7]])"
  using accumulator_invariant [OF toy_hash_len, of "[]" toy_acc 1 "[7]"] toy_acc_ok toy_hash_len
  by (auto simp: toy_data)

lemma toy_complete:
  obtains pr ma' where "prove toy_acc 0 = Ok pr"
    "verify_inclusion_proof toy_hash (ma_root toy_acc) pr (hash_leaf toy_hash [1]) 0 2"
    "ma_update toy_hash toy_acc 0 [9] = (ma', Ok (pr, ma_root ma'))"
    "verify_update_proof toy_hash (ma_root toy_acc) (ma_root ma') pr (hash_leaf toy_hash [1]) (hash_leaf toy_hash [9]) 0 2"
  using acc_complete [OF toy_hash_len toy_acc_ok, of 0 "[9]"] that by (auto simp: toy_data numeral_2_eq_2)

lemma toy_tree: "tree_ok toy_hash 2 (ma_tree toy_acc)"
  using toy_acc_ok by (simp add: acc_ok_def toy_data numeral_2_eq_2)

lemma toy_proof:
  assumes "prove toy_acc 0 = Ok pr"
  shows "pr = [ma_tree toy_acc ! 2]" "list_all (\<lambda>s. length s = 32) pr"
    "feed_messages toy_hash pr (begin_inclusion_proof (ma_root toy_acc) (hash_leaf toy_hash [1]) 0 2)
      = tree_messages 2 (ma_tree toy_acc)"
proof -
  have l: "ma_tree toy_acc ! 1 = hash_leaf toy_hash [1]"
    using acc_leaf [OF toy_acc_ok, of 0] by (simp add: toy_data)
  show pr: "pr = [ma_tree toy_acc ! 2]"
    using assms by (simp add: prove_def toy_data prove_loop_unfold numeral_2_eq_2)
  show "list_all (\<lambda>s. length s = 32) pr" using toy_tree by (simp add: pr tree_ok_def)
  show "feed_messages toy_hash pr (begin_inclusion_proof (ma_root toy_acc) (hash_leaf toy_hash [1]) 0 2)
      = tree_messages 2 (ma_tree toy_acc)"
    by (simp add: pr feed_message_def begin_inclusion_proof_def tree_messages_def l [simplified] numeral_2_eq_2)
qed

theorem accumulator_complete_witness:
  "\<exists>pr. hash_len toy_hash \<and> acc_ok toy_hash toy_acc \<and> prove toy_acc 0 = Ok pr \<and>
     verify_inclusion_proof toy_hash (ma_root toy_acc) pr (hash_leaf toy_hash [1]) 0 (length [[1], [2 :: u8]])"
  using accumulator_complete [OF toy_hash_len toy_acc_ok, of 0 "[9]"] toy_hash_len toy_acc_ok
  by (auto simp: toy_data)

lemma toy_inj: "inj_on toy_hash (set (tree_messages 2 t))"
  by (simp add: tree_messages_def)

theorem inclusion_sound_witness:
  "\<exists>pr. verify_inclusion_proof toy_hash (ma_root toy_acc) pr (hash_leaf toy_hash [1]) 0 2 \<and>
     prove toy_acc 0 = Ok pr"
proof -
  obtain pr ma' where p: "prove toy_acc 0 = Ok pr"
    and v: "verify_inclusion_proof toy_hash (ma_root toy_acc) pr (hash_leaf toy_hash [1]) 0 2"
    by (rule toy_complete)
  have x: "length (hash_leaf toy_hash [1]) = 32" using toy_hash_len by (simp add: hash_leaf_message hash_len_def)
  have n: "length (ma_data toy_acc) = 2" by (simp add: toy_data)
  have "prove toy_acc 0 = Ok pr"
    using inclusion_sound [OF toy_hash_len toy_acc_ok, of 0 "hash_leaf toy_hash [1]" pr] x v toy_proof [OF p] toy_inj
    by (simp add: n)
  with v show ?thesis by blast
qed

theorem update_sound_witness:
  "\<exists>pr r. verify_update_proof toy_hash (ma_root toy_acc) r pr (hash_leaf toy_hash [1]) (hash_leaf toy_hash [9]) 0 2 \<and>
     r = ma_root (fst (ma_update toy_hash toy_acc 0 [9]))"
proof -
  obtain pr ma' where p: "prove toy_acc 0 = Ok pr"
    and v: "verify_update_proof toy_hash (ma_root toy_acc) (ma_root ma') pr (hash_leaf toy_hash [1]) (hash_leaf toy_hash [9]) 0 2"
    by (rule toy_complete)
  have x: "length (hash_leaf toy_hash [1]) = 32" using toy_hash_len by (simp add: hash_leaf_message hash_len_def)
  have n: "length (ma_data toy_acc) = 2" by (simp add: toy_data)
  have "ma_root ma' = ma_root (fst (ma_update toy_hash toy_acc 0 [9]))"
    using update_sound [OF toy_hash_len toy_acc_ok, of 0 "hash_leaf toy_hash [1]" pr "ma_root ma'" "[9]"]
      x v toy_proof [OF p] toy_inj by (simp add: n)
  with v show ?thesis by blast
qed

theorem root_computer_root_witness:
  "\<exists>ma rc rc'. has_valid_leaf_count (length [[1], [2 :: u8]]) \<and> MerkleAccumulator_new toy_hash [[1], [2]] = Some ma \<and>
     RootComputer_new (length [[1], [2 :: u8]]) = Some rc \<and>
     feed_leaves toy_hash (map (hash_leaf toy_hash) [[1], [2]]) rc = Some rc' \<and> rc_root rc' = Some (ma_root ma)"
  using root_computer_root [OF toy_hash_len toy_valid] toy_valid by blast

end
