(* ===== verification/Evict.thy ===== *)
theory Evict
  imports Prelude
begin

text \<open>
  The page eviction strategies of the outsourced memory's cache
  (\<open>vm/src/handlers/lib/evict.rs\<close>): the trait \<open>PageEvictionStrategy\<close> as a record of operations over
  the strategy's own state, and its two implementations, LRU and 2Q. An out-of-range index and
  \<open>unreachable!\<close> panic in the source; here they are \<^const>\<open>None\<close>.

  Both keep time stamps of a 32-bit counter that wraps. Below the wrap each refines a queue: LRU the
  list of occupied slots in order of last use, 2Q the FIFO queue A1 of slots loaded once, the LRU
  queue Am of slots loaded again after a recent eviction, and the bounded list A1out of pages evicted
  from A1. The locale \<open>eviction_laws\<close> is what the cache relies on: as long as it follows the protocol
  (load only into free slots, invalidate and access only occupied ones), no call panics and a full
  cache always has a victim.
\<close>

section \<open>The trait\<close>

record 's eviction_strategy =
  on_access :: "nat \<Rightarrow> u32 \<Rightarrow> 's \<Rightarrow> 's option"
  on_load :: "nat \<Rightarrow> u32 \<Rightarrow> 's \<Rightarrow> 's option"
  choose_victim :: "'s \<Rightarrow> nat option"
  on_invalidate :: "nat \<Rightarrow> u32 \<Rightarrow> 's \<Rightarrow> 's option"

text \<open>
  The loop that all victim searches share: over the slots in order, remember the first one with the
  smallest time stamp below \<open>u32::MAX\<close>, among those that carry one.
\<close>

fun oldest_scan :: "('a \<Rightarrow> u32 option) \<Rightarrow> 'a list \<Rightarrow> nat \<Rightarrow> u32 \<Rightarrow> nat \<Rightarrow> bool \<Rightarrow> nat \<times> bool" where
  "oldest_scan time [] i oldest victim found = (victim, found)"
| "oldest_scan time (x # xs) i oldest victim found =
     (case time x of
        None \<Rightarrow> oldest_scan time xs (Suc i) oldest victim found
      | Some t \<Rightarrow> if t < oldest then oldest_scan time xs (Suc i) t i True
                 else oldest_scan time xs (Suc i) oldest victim found)"

definition U32_MAX :: u32 where
  "U32_MAX = 2 ^ 32 - 1"

section \<open>LRU\<close>

record LruEvictionStrategy =
  usage_counters :: "u32 list"
  lru_global_counter :: u32

definition Lru_new :: "nat \<Rightarrow> LruEvictionStrategy" where
  "Lru_new num_slots = \<lparr>usage_counters = replicate num_slots 0, lru_global_counter = 0\<rparr>"

definition lru_on_access :: "nat \<Rightarrow> u32 \<Rightarrow> LruEvictionStrategy \<Rightarrow> LruEvictionStrategy option" where
  "lru_on_access slot_index page_index s =
     (let c = lru_global_counter s + 1 in
      if slot_index < length (usage_counters s)
      then Some \<lparr>usage_counters = (usage_counters s)[slot_index := c], lru_global_counter = c\<rparr>
      else None)"

definition lru_on_load :: "nat \<Rightarrow> u32 \<Rightarrow> LruEvictionStrategy \<Rightarrow> LruEvictionStrategy option" where
  "lru_on_load slot_index page_index s =
     (let c = lru_global_counter s + 1 in
      if slot_index < length (usage_counters s)
      then Some \<lparr>usage_counters = (usage_counters s)[slot_index := c], lru_global_counter = c\<rparr>
      else None)"

definition lru_choose_victim :: "LruEvictionStrategy \<Rightarrow> nat option" where
  "lru_choose_victim s = Some (fst (oldest_scan Some (usage_counters s) 0 U32_MAX 0 False))"

definition lru_on_invalidate :: "nat \<Rightarrow> u32 \<Rightarrow> LruEvictionStrategy \<Rightarrow> LruEvictionStrategy option" where
  "lru_on_invalidate slot_index page_index s =
     (if slot_index < length (usage_counters s)
      then Some (s\<lparr>usage_counters := (usage_counters s)[slot_index := 0]\<rparr>) else None)"

definition Lru :: "LruEvictionStrategy eviction_strategy" where
  "Lru = \<lparr>on_access = lru_on_access, on_load = lru_on_load, choose_victim = lru_choose_victim,
          on_invalidate = lru_on_invalidate\<rparr>"

section \<open>2Q\<close>

datatype PageState = Free | A1 u32 | Am u32

primrec a1_time :: "PageState \<Rightarrow> u32 option" where
  "a1_time Free = None"
| "a1_time (A1 time) = Some time"
| "a1_time (Am time) = None"

primrec am_time :: "PageState \<Rightarrow> u32 option" where
  "am_time Free = None"
| "am_time (A1 time) = None"
| "am_time (Am time) = Some time"

record TwoQEvictionStrategy =
  states :: "PageState list"
  global_counter :: u32
  a1_max_size :: nat
  a1_size :: nat
  a1out :: "u32 list"
  a1out_max_size :: nat

definition TwoQ_new :: "nat \<Rightarrow> nat \<Rightarrow> nat \<Rightarrow> TwoQEvictionStrategy option" where
  "TwoQ_new num_slots a1_max a1out_max =
     (if a1_max \<ge> num_slots then None
      else Some \<lparr>states = replicate num_slots Free, global_counter = 0, a1_max_size = a1_max,
                a1_size = 0, a1out = [], a1out_max_size = a1out_max\<rparr>)"

definition twoq_on_access :: "nat \<Rightarrow> u32 \<Rightarrow> TwoQEvictionStrategy \<Rightarrow> TwoQEvictionStrategy option" where
  "twoq_on_access slot_index page_index s =
     (let c = global_counter s + 1; s1 = s\<lparr>global_counter := c\<rparr> in
      if slot_index < length (states s)
      then Some (case states s ! slot_index of
          A1 _ \<Rightarrow> s1
        | Am _ \<Rightarrow> s1\<lparr>states := (states s)[slot_index := Am c]\<rparr>
        | Free \<Rightarrow> s1)
      else None)"

definition twoq_on_load :: "nat \<Rightarrow> u32 \<Rightarrow> TwoQEvictionStrategy \<Rightarrow> TwoQEvictionStrategy option" where
  "twoq_on_load slot_index page_index s =
     (let c = global_counter s + 1; s1 = s\<lparr>global_counter := c\<rparr> in
      if slot_index < length (states s)
      then Some (if page_index \<in> set (a1out s)
        then s1\<lparr>a1out := remove1 page_index (a1out s), states := (states s)[slot_index := Am c]\<rparr>
        else s1\<lparr>states := (states s)[slot_index := A1 c], a1_size := a1_size s + 1\<rparr>)
      else None)"

definition choose_victim_from_a1_fallback :: "TwoQEvictionStrategy \<Rightarrow> nat option" where
  "choose_victim_from_a1_fallback s =
     (case oldest_scan a1_time (states s) 0 U32_MAX 0 False of
        (victim_index, found) \<Rightarrow> if \<not> found then None else Some victim_index)"

definition twoq_choose_victim :: "TwoQEvictionStrategy \<Rightarrow> nat option" where
  "twoq_choose_victim s =
     (if a1_size s \<ge> a1_max_size s
      then Some (fst (oldest_scan a1_time (states s) 0 U32_MAX 0 False))
      else case oldest_scan am_time (states s) 0 U32_MAX 0 False of
        (victim_index, found_in_am) \<Rightarrow>
          if \<not> found_in_am then choose_victim_from_a1_fallback s else Some victim_index)"

definition twoq_on_invalidate :: "nat \<Rightarrow> u32 \<Rightarrow> TwoQEvictionStrategy \<Rightarrow> TwoQEvictionStrategy option" where
  "twoq_on_invalidate slot_index page_index s =
     (if slot_index < length (states s)
      then let s1 = (case states s ! slot_index of
                 A1 _ \<Rightarrow> let out = (if length (a1out s) = a1out_max_size s then tl (a1out s) else a1out s)
                          in s\<lparr>a1_size := a1_size s - 1, a1out := out @ [page_index]\<rparr>
               | _ \<Rightarrow> s)
           in Some (s1\<lparr>states := (states s)[slot_index := Free]\<rparr>)
      else None)"

definition TwoQ :: "TwoQEvictionStrategy eviction_strategy" where
  "TwoQ = \<lparr>on_access = twoq_on_access, on_load = twoq_on_load, choose_victim = twoq_choose_victim,
           on_invalidate = twoq_on_invalidate\<rparr>"

section \<open>The search for the oldest slot\<close>

definition first_min :: "('a \<Rightarrow> u32 option) \<Rightarrow> 'a list \<Rightarrow> nat \<Rightarrow> u32 \<Rightarrow> bool" where
  "first_min time xs j t \<longleftrightarrow> j < length xs \<and> time (xs ! j) = Some t \<and>
     (\<forall>k<length xs. \<forall>u. time (xs ! k) = Some u \<longrightarrow> t \<le> u \<and> (k < j \<longrightarrow> t < u))"

lemma first_min_skip:
  assumes "first_min time xs j t" "\<And>u. time x = Some u \<Longrightarrow> t < u"
  shows "first_min time (x # xs) (Suc j) t"
  unfolding first_min_def
proof (intro conjI allI impI)
  show "Suc j < length (x # xs)" "time ((x # xs) ! Suc j) = Some t"
    using assms(1) by (auto simp: first_min_def)
  fix k u
  assume k: "k < length (x # xs)" "time ((x # xs) ! k) = Some u"
  show "t \<le> u"
    using k assms by (cases k) (auto simp: first_min_def dest: less_imp_le)
  show "t < u" if "k < Suc j"
  proof (cases k)
    case (Suc m)
    with that assms(1) have "m < length xs" "m < j" by (auto simp: first_min_def)
    with k(2) assms(1) Suc show ?thesis unfolding first_min_def by fastforce
  qed (use k assms(2) in simp)
qed

lemma oldest_scan_spec:
  "if \<exists>j<length xs. \<exists>t. time (xs ! j) = Some t \<and> t < oldest
   then \<exists>j t. first_min time xs j t \<and> t < oldest \<and>
          oldest_scan time xs i oldest victim found = (i + j, True)
   else oldest_scan time xs i oldest victim found = (victim, found)"
proof (induction xs arbitrary: i oldest victim found)
  case (Cons x xs)
  show ?case
  proof (cases "\<exists>t. time x = Some t \<and> t < oldest")
    case True
    then obtain t where t: "time x = Some t" "t < oldest" by blast
    then have ex: "\<exists>j<length (x # xs). \<exists>t. time ((x # xs) ! j) = Some t \<and> t < oldest"
      by (intro exI [of _ 0]) auto
    have "\<exists>j u. first_min time (x # xs) j u \<and> u < oldest \<and>
        oldest_scan time (x # xs) i oldest victim found = (i + j, True)"
    proof (cases "\<exists>j<length xs. \<exists>u. time (xs ! j) = Some u \<and> u < t")
      case True
      with Cons.IH [of t "Suc i" i True] obtain j u where
        "first_min time xs j u" "u < t" "oldest_scan time xs (Suc i) t i True = (Suc i + j, True)"
        by auto
      moreover from this have "first_min time (x # xs) (Suc j) u"
        using t by (intro first_min_skip) auto
      ultimately show ?thesis using t by (intro exI [of _ "Suc j"] exI [of _ u]) auto
    next
      case False
      with Cons.IH [of t "Suc i" i True] have "oldest_scan time xs (Suc i) t i True = (i, True)"
        by simp
      moreover have "t \<le> u" if "k < length xs" "time (xs ! k) = Some u" for k u
        using False that by (metis not_less)
      then have "first_min time (x # xs) 0 t"
        using t by (auto simp: first_min_def nth_Cons split: nat.splits)
      ultimately show ?thesis using t by (intro exI [of _ 0] exI [of _ t]) auto
    qed
    with ex show ?thesis by simp
  next
    case False
    then have step: "oldest_scan time (x # xs) i oldest victim found
        = oldest_scan time xs (Suc i) oldest victim found"
      by (auto split: option.splits)
    have "(\<exists>j<length (x # xs). \<exists>t. time ((x # xs) ! j) = Some t \<and> t < oldest)
        \<longleftrightarrow> (\<exists>j<length xs. \<exists>t. time (xs ! j) = Some t \<and> t < oldest)" (is "?A \<longleftrightarrow> ?B")
      using False by (simp only: list.size add_0_right add_Suc_right Ex_less_Suc2 nth_Cons_0 nth_Cons_Suc simp_thms)
    moreover have "\<exists>j t. first_min time (x # xs) j t \<and> t < oldest \<and>
        oldest_scan time (x # xs) i oldest victim found = (i + j, True)" if ?B
    proof -
      from that Cons.IH [of oldest "Suc i" victim found] obtain j t where
        *: "first_min time xs j t" "t < oldest"
          "oldest_scan time xs (Suc i) oldest victim found = (Suc i + j, True)"
        by auto
      moreover from * False have "first_min time (x # xs) (Suc j) t"
        by (intro first_min_skip) (auto simp: not_less)
      ultimately show ?thesis unfolding step by (intro exI [of _ "Suc j"] exI [of _ t]) auto
    qed
    moreover have "oldest_scan time (x # xs) i oldest victim found = (victim, found)" if "\<not> ?B"
      using that Cons.IH [of oldest "Suc i" victim found] unfolding step by simp
    ultimately show ?thesis by presburger
  qed
qed simp

text \<open>
  The list of the slots that carry a time stamp, in the order of their stamps, all at most \<open>k\<close>: the
  victim is at its head.
\<close>

definition timed_queue :: "(nat \<Rightarrow> u32 option) \<Rightarrow> nat \<Rightarrow> nat \<Rightarrow> nat list \<Rightarrow> bool" where
  "timed_queue stamp n k q \<longleftrightarrow> distinct q \<and> set q = {i. i < n \<and> stamp i \<noteq> None} \<and>
     (\<forall>i\<in>set q. unat (the (stamp i)) \<le> k) \<and>
     sorted_wrt (\<lambda>i j. the (stamp i) < the (stamp j)) q"

lemma oldest_scan_queue:
  assumes q: "timed_queue (\<lambda>i. time (xs ! i)) (length xs) k q" and k: "k < 2 ^ 32 - 1"
  shows "oldest_scan time xs 0 U32_MAX 0 False = (if q = [] then (0, False) else (hd q, True))"
proof (cases q)
  case Nil
  with q have "\<not> (\<exists>j<length xs. \<exists>t. time (xs ! j) = Some t \<and> t < U32_MAX)"
    by (auto simp: timed_queue_def)
  with oldest_scan_spec [of xs time U32_MAX 0 0 False] Nil show ?thesis by simp
next
  case (Cons v r)
  with q have "v \<in> {i. i < length xs \<and> time (xs ! i) \<noteq> None}" "unat (the (time (xs ! v))) \<le> k"
    unfolding timed_queue_def by auto
  then obtain t where v: "v < length xs" "time (xs ! v) = Some t" "unat t \<le> k" by auto
  have "unat U32_MAX = 2 ^ 32 - 1" by (simp add: U32_MAX_def)
  with v k have "t < U32_MAX" by (simp add: word_less_nat_alt)
  with v have "\<exists>j<length xs. \<exists>t. time (xs ! j) = Some t \<and> t < U32_MAX" by blast
  with oldest_scan_spec [of xs time U32_MAX 0 0 False] obtain j u where
    j: "first_min time xs j u" "oldest_scan time xs 0 U32_MAX 0 False = (j, True)"
    by (auto split: if_splits)
  have "j = v"
  proof (rule ccontr)
    assume "j \<noteq> v"
    with j q Cons have "j \<in> set r" by (auto simp: timed_queue_def first_min_def)
    with q Cons have "t < the (time (xs ! j))" by (auto simp: timed_queue_def v)
    moreover have "u \<le> t" "time (xs ! j) = Some u" using j v by (auto simp: first_min_def)
    ultimately show False by simp
  qed
  with j Cons show ?thesis by simp
qed

lemma timed_queue_cong:
  assumes q: "timed_queue stamp n k q" and eq: "\<And>i. i < n \<Longrightarrow> stamp i = stamp' i"
  shows "timed_queue stamp' n k q"
proof -
  have *: "stamp' i = stamp i" if "i \<in> set q" for i
    using that q by (simp add: timed_queue_def eq)
  have "sorted_wrt (\<lambda>i j. the (stamp i) < the (stamp j)) q" using q by (simp add: timed_queue_def)
  then have "sorted_wrt (\<lambda>i j. the (stamp' i) < the (stamp' j)) q"
    by (rule sorted_wrt_mono_rel [rotated]) (simp add: *)
  moreover have "{i. i < n \<and> stamp i \<noteq> None} = {i. i < n \<and> stamp' i \<noteq> None}"
    by (rule Collect_cong) (auto simp: eq)
  moreover have "\<forall>i\<in>set q. unat (the (stamp' i)) \<le> k"
    using q by (simp add: timed_queue_def *)
  ultimately show ?thesis using q unfolding timed_queue_def by (simp only: simp_thms)
qed

lemma timed_queue_clear:
  assumes "timed_queue stamp n k q"
  shows "timed_queue (stamp(i := None)) n k (removeAll i q)"
proof -
  have "sorted_wrt (\<lambda>a b. the (stamp a) < the (stamp b)) (filter ((\<noteq>) i) q)"
    using assms by (auto simp: timed_queue_def intro: sorted_wrt_filter)
  then have "sorted_wrt (\<lambda>a b. the ((stamp(i := None)) a) < the ((stamp(i := None)) b)) (removeAll i q)"
    unfolding removeAll_filter_not_eq by (rule sorted_wrt_mono_rel [rotated]) auto
  then show ?thesis
    using assms unfolding timed_queue_def by (auto simp: distinct_removeAll)
qed

lemma timed_queue_stamp:
  assumes q: "timed_queue stamp n k q" and i: "i < n" and c: "unat c = Suc k"
  shows "timed_queue (stamp(i := Some c)) n (Suc k) (removeAll i q @ [i])"
proof -
  let ?q = "removeAll i q"
  have 1: "timed_queue (stamp(i := None)) n k ?q" using q by (rule timed_queue_clear)
  have "sorted_wrt (\<lambda>a b. the ((stamp(i := Some c)) a) < the ((stamp(i := Some c)) b)) ?q"
    by (rule sorted_wrt_mono_rel [where P = "\<lambda>a b. the ((stamp(i := None)) a) < the ((stamp(i := None)) b)"])
      (use 1 in \<open>auto simp: timed_queue_def\<close>)
  moreover have "the (stamp a) < c" if "a \<in> set ?q" for a
  proof -
    have "unat (the (stamp a)) \<le> k" using that q by (auto simp: timed_queue_def)
    with c show ?thesis by (simp add: word_less_nat_alt)
  qed
  ultimately have "sorted_wrt (\<lambda>a b. the ((stamp(i := Some c)) a) < the ((stamp(i := Some c)) b)) (?q @ [i])"
    by (auto simp: sorted_wrt_append)
  moreover have "unat (the ((stamp(i := Some c)) a)) \<le> Suc k" if "a \<in> set (?q @ [i])" for a
    using that q c by (auto simp: timed_queue_def intro: le_SucI)
  moreover have "set (?q @ [i]) = {a. a < n \<and> (stamp(i := Some c)) a \<noteq> None}"
    using q i by (auto simp: timed_queue_def)
  moreover have "distinct (?q @ [i])" using q by (simp add: timed_queue_def distinct_removeAll)
  ultimately show ?thesis unfolding timed_queue_def by blast
qed

lemma timed_queue_later: "timed_queue stamp n k q \<Longrightarrow> timed_queue stamp n (Suc k) q"
  by (auto simp: timed_queue_def intro: le_SucI)

lemma unat_of_nat_Suc: "k < 2 ^ 32 - 1 \<Longrightarrow> unat (of_nat k + 1 :: u32) = Suc k"
  by (simp add: unat_word_ariths unat_of_nat)

section \<open>What the cache relies on\<close>

text \<open>
  The calls of the cache as events, when they follow the protocol, and how they change the set of
  occupied slots and the counter.
\<close>

datatype cache_event = Access nat u32 | Load nat u32 | Invalidate nat u32

primrec es_step :: "'s eviction_strategy \<Rightarrow> cache_event \<Rightarrow> 's \<Rightarrow> 's option" where
  "es_step es (Access i p) s = on_access es i p s"
| "es_step es (Load i p) s = on_load es i p s"
| "es_step es (Invalidate i p) s = on_invalidate es i p s"

fun es_run :: "'s eviction_strategy \<Rightarrow> cache_event list \<Rightarrow> 's \<Rightarrow> 's option" where
  "es_run es [] s = Some s"
| "es_run es (e # evs) s = Option.bind (es_step es e s) (es_run es evs)"

primrec allowed :: "nat \<Rightarrow> nat set \<Rightarrow> cache_event \<Rightarrow> bool" where
  "allowed n occ (Access i p) \<longleftrightarrow> i \<in> occ"
| "allowed n occ (Load i p) \<longleftrightarrow> i < n \<and> i \<notin> occ"
| "allowed n occ (Invalidate i p) \<longleftrightarrow> i \<in> occ"

primrec occupied :: "cache_event \<Rightarrow> nat set \<Rightarrow> nat set" where
  "occupied (Access i p) occ = occ"
| "occupied (Load i p) occ = insert i occ"
| "occupied (Invalidate i p) occ = occ - {i}"

primrec ticks :: "cache_event \<Rightarrow> nat" where
  "ticks (Access i p) = 1"
| "ticks (Load i p) = 1"
| "ticks (Invalidate i p) = 0"

fun protocol :: "nat \<Rightarrow> nat set \<Rightarrow> cache_event list \<Rightarrow> bool" where
  "protocol n occ [] \<longleftrightarrow> True"
| "protocol n occ (e # evs) \<longleftrightarrow> allowed n occ e \<and> protocol n (occupied e occ) evs"

text \<open>
  \<open>inv n occ k s\<close>: the strategy manages \<open>n\<close> slots, those in \<open>occ\<close> are occupied, and its counter has
  been advanced \<open>k\<close> times. The laws hold up to \<open>2^32 - 2\<close> accesses and loads, before the counter
  reaches \<open>u32::MAX\<close> and wraps.
\<close>

locale eviction_laws =
  fixes es :: "'s eviction_strategy"
    and inv :: "nat \<Rightarrow> nat set \<Rightarrow> nat \<Rightarrow> 's \<Rightarrow> bool"
  assumes step_ok: "\<lbrakk>inv n occ k s; allowed n occ e; k + ticks e \<le> 2 ^ 32 - 2\<rbrakk>
      \<Longrightarrow> \<exists>s'. es_step es e s = Some s' \<and> inv n (occupied e occ) (k + ticks e) s'"
    and victim_ok: "\<lbrakk>inv n {..<n} k s; 0 < n\<rbrakk> \<Longrightarrow> \<exists>v<n. choose_victim es s = Some v"
begin

text \<open>Evicting the victim of a full cache and loading a page in its place, as the cache does.\<close>

lemma replace_ok:
  assumes inv: "inv n {..<n} k s" and "0 < n" "k < 2 ^ 32 - 2"
  shows "\<exists>v s1 s2. v < n \<and> choose_victim es s = Some v \<and> on_invalidate es v old s = Some s1
           \<and> on_load es v new s1 = Some s2 \<and> inv n {..<n} (Suc k) s2"
proof -
  obtain v where v: "v < n" "choose_victim es s = Some v" using victim_ok [OF inv \<open>0 < n\<close>] by blast
  then obtain s1 where s1: "on_invalidate es v old s = Some s1" "inv n ({..<n} - {v}) k s1"
    using step_ok [OF inv, of "Invalidate v old"] assms(3) by auto
  then obtain s2 where "on_load es v new s1 = Some s2" "inv n (insert v ({..<n} - {v})) (Suc k) s2"
    using step_ok [OF s1(2), of "Load v new"] v assms(3) by auto
  moreover have "insert v ({..<n} - {v}) = {..<n}" using v by auto
  ultimately show ?thesis using v s1 by auto
qed

end

text \<open>
  A strategy that refines a queue: \<open>spec\<close> is what an event does to the queue, \<open>slots\<close> the occupied
  slots and \<open>victim\<close> the one it names when all slots are occupied.
\<close>

locale eviction_refinement =
  fixes es :: "'s eviction_strategy"
    and rel :: "nat \<Rightarrow> 'q \<Rightarrow> nat \<Rightarrow> 's \<Rightarrow> bool"
    and spec :: "cache_event \<Rightarrow> 'q \<Rightarrow> 'q"
    and slots :: "'q \<Rightarrow> nat set"
    and victim :: "'q \<Rightarrow> nat"
  assumes step_refines: "\<lbrakk>rel n q k s; allowed n (slots q) e; k + ticks e \<le> 2 ^ 32 - 2\<rbrakk>
      \<Longrightarrow> \<exists>s'. es_step es e s = Some s' \<and> rel n (spec e q) (k + ticks e) s'"
    and slots_spec: "allowed n (slots q) e \<Longrightarrow> slots (spec e q) = occupied e (slots q)"
    and victim_refines: "\<lbrakk>rel n q k s; slots q = {..<n}; 0 < n\<rbrakk>
      \<Longrightarrow> choose_victim es s = Some (victim q) \<and> victim q < n"
begin

lemma run_refines:
  "\<lbrakk>rel n q k s; protocol n (slots q) evs; k + length evs \<le> 2 ^ 32 - 2\<rbrakk>
   \<Longrightarrow> \<exists>s' k'. es_run es evs s = Some s' \<and> rel n (fold spec evs q) k' s'"
proof (induction evs arbitrary: q k s)
  case (Cons e evs)
  have "ticks e \<le> 1" by (cases e) auto
  with Cons.prems obtain s1 where
    s1: "es_step es e s = Some s1" "rel n (spec e q) (k + ticks e) s1"
    using step_refines [of n q k s e] by auto
  moreover have "protocol n (slots (spec e q)) evs" using Cons.prems(2) slots_spec by auto
  ultimately show ?case
    using Cons.IH [of "spec e q" "k + ticks e" s1] Cons.prems(3) \<open>ticks e \<le> 1\<close> by auto
qed auto

lemma run_victim:
  assumes "rel n q k s" "protocol n (slots q) evs" "k + length evs \<le> 2 ^ 32 - 2"
  shows "\<exists>s'. es_run es evs s = Some s' \<and>
    (slots (fold spec evs q) = {..<n} \<longrightarrow> 0 < n \<longrightarrow> choose_victim es s' = Some (victim (fold spec evs q)))"
  using run_refines [OF assms] victim_refines by blast

end

sublocale eviction_refinement \<subseteq> eviction_laws es "\<lambda>n occ k s. \<exists>q. rel n q k s \<and> slots q = occ"
proof
  show "\<exists>s'. es_step es e s = Some s' \<and> (\<exists>q. rel n q (k + ticks e) s' \<and> slots q = occupied e occ)"
    if ex: "\<exists>q. rel n q k s \<and> slots q = occ"
      and al: "allowed n occ e" "k + ticks e \<le> 2 ^ 32 - 2" for n occ k s e
  proof -
    obtain q where q: "rel n q k s" "slots q = occ" using ex by blast
    with step_refines [OF q(1), of e] slots_spec [of n q e] al show ?thesis by auto
  qed
  show "\<exists>v<n. choose_victim es s = Some v"
    if "\<exists>q. rel n q k s \<and> slots q = {..<n}" "0 < n" for n k s
    using that victim_refines by blast
qed

section \<open>LRU refines the recency list\<close>

definition lru_stamp :: "nat list \<Rightarrow> u32 list \<Rightarrow> nat \<Rightarrow> u32 option" where
  "lru_stamp q counters i = (if i \<in> set q then Some (counters ! i) else None)"

definition lru_rel :: "nat \<Rightarrow> nat list \<Rightarrow> nat \<Rightarrow> LruEvictionStrategy \<Rightarrow> bool" where
  "lru_rel n q k s \<longleftrightarrow> length (usage_counters s) = n \<and> lru_global_counter s = of_nat k
     \<and> k \<le> 2 ^ 32 - 2
     \<and> timed_queue (lru_stamp q (usage_counters s)) n k q"

lemma lru_rel_new: "lru_rel n [] 0 (Lru_new n)"
  by (simp add: lru_rel_def Lru_new_def timed_queue_def lru_stamp_def)

lemma lru_rel_touch:
  assumes "lru_rel n q k s" "i < n" "k < 2 ^ 32 - 2"
  shows "lru_rel n (removeAll i q @ [i]) (Suc k)
    \<lparr>usage_counters = (usage_counters s)[i := lru_global_counter s + 1],
     lru_global_counter = lru_global_counter s + 1\<rparr>"
proof -
  have "unat (lru_global_counter s + 1) = Suc k"
    using assms unat_of_nat_Suc [of k] by (simp add: lru_rel_def)
  then have "timed_queue ((lru_stamp q (usage_counters s))(i := Some (lru_global_counter s + 1))) n (Suc k) (removeAll i q @ [i])"
    using assms by (intro timed_queue_stamp) (auto simp: lru_rel_def)
  then have "timed_queue (lru_stamp (removeAll i q @ [i]) ((usage_counters s)[i := lru_global_counter s + 1]))
      n (Suc k) (removeAll i q @ [i])"
    by (rule timed_queue_cong) (use assms in \<open>auto simp: lru_rel_def lru_stamp_def nth_list_update\<close>)
  then show ?thesis using assms unfolding lru_rel_def by simp
qed

lemma lru_rel_drop:
  assumes "lru_rel n q k s" "i < n"
  shows "lru_rel n (removeAll i q) k (s\<lparr>usage_counters := (usage_counters s)[i := 0]\<rparr>)"
proof -
  have "timed_queue ((lru_stamp q (usage_counters s))(i := None)) n k (removeAll i q)"
    using assms by (intro timed_queue_clear) (simp add: lru_rel_def)
  then have "timed_queue (lru_stamp (removeAll i q) ((usage_counters s)[i := 0])) n k (removeAll i q)"
    by (rule timed_queue_cong) (auto simp: lru_stamp_def nth_list_update)
  then show ?thesis using assms unfolding lru_rel_def by simp
qed

lemma lru_rel_victim:
  assumes r: "lru_rel n q k s" and "set q = {..<n}" "0 < n"
  shows "lru_choose_victim s = Some (hd q) \<and> hd q < n"
proof -
  have tq: "timed_queue (lru_stamp q (usage_counters s)) n k q" and n: "length (usage_counters s) = n"
    and k: "k < 2 ^ 32 - 1"
    using r by (auto simp: lru_rel_def)
  have "timed_queue (\<lambda>i. Some (usage_counters s ! i)) (length (usage_counters s)) k q"
    unfolding n by (rule timed_queue_cong [OF tq]) (simp add: lru_stamp_def assms(2))
  from oldest_scan_queue [OF this k]
  have scan: "oldest_scan Some (usage_counters s) 0 U32_MAX 0 False
      = (if q = [] then (0, False) else (hd q, True))" .
  have "0 \<in> set q" unfolding assms(2) using assms(3) by simp
  then have "q \<noteq> []" by auto
  then have "hd q \<in> {..<n}" unfolding assms(2) [symmetric] by (rule hd_in_set)
  with scan \<open>q \<noteq> []\<close> show ?thesis by (simp add: lru_choose_victim_def)
qed

primrec lru_spec :: "cache_event \<Rightarrow> nat list \<Rightarrow> nat list" where
  "lru_spec (Access i p) q = removeAll i q @ [i]"
| "lru_spec (Load i p) q = removeAll i q @ [i]"
| "lru_spec (Invalidate i p) q = removeAll i q"

interpretation lru: eviction_refinement Lru lru_rel lru_spec set hd
proof
  fix n q k s e
  show "\<exists>s'. es_step Lru e s = Some s' \<and> lru_rel n (lru_spec e q) (k + ticks e) s'"
    if r: "lru_rel n q k s" and al: "allowed n (set q) e" and k: "k + ticks e \<le> 2 ^ 32 - 2"
  proof -
    have len: "length (usage_counters s) = n" and bound: "\<And>i. i \<in> set q \<Longrightarrow> i < n"
      using r by (auto simp: lru_rel_def timed_queue_def)
    show ?thesis
    proof (cases e)
      case (Access i p)
      with al k bound have "i < n" "k < 2 ^ 32 - 2" by auto
      with lru_rel_touch [OF r this] show ?thesis
        by (simp add: Access Lru_def lru_on_access_def len Let_def)
    next
      case (Load i p)
      with al k have "i < n" "k < 2 ^ 32 - 2" by auto
      with lru_rel_touch [OF r this] show ?thesis
        by (simp add: Load Lru_def lru_on_load_def len Let_def)
    next
      case (Invalidate i p)
      with al bound have "i < n" by auto
      with lru_rel_drop [OF r this] show ?thesis
        by (simp add: Invalidate Lru_def lru_on_invalidate_def len)
    qed
  qed
  show "set (lru_spec e q) = occupied e (set q)" if "allowed n (set q) e"
    using that by (cases e) auto
  show "choose_victim Lru s = Some (hd q) \<and> hd q < n" if "lru_rel n q k s" "set q = {..<n}" "0 < n"
    using lru_rel_victim [OF that] by (simp add: Lru_def)
qed

section \<open>2Q refines its two queues\<close>

definition twoq_rel :: "nat \<Rightarrow> nat list \<Rightarrow> nat list \<Rightarrow> nat \<Rightarrow> TwoQEvictionStrategy \<Rightarrow> bool" where
  "twoq_rel n a1 am k s \<longleftrightarrow> length (states s) = n \<and> global_counter s = of_nat k \<and> k \<le> 2 ^ 32 - 2
     \<and> timed_queue (\<lambda>i. a1_time (states s ! i)) n k a1
     \<and> timed_queue (\<lambda>i. am_time (states s ! i)) n k am
     \<and> a1_size s = length a1 \<and> (0 < a1out_max_size s \<longrightarrow> length (a1out s) \<le> a1out_max_size s)"

lemma timed_queue_update:
  assumes "timed_queue ((\<lambda>j. time (xs ! j))(i := time y)) n k q" "length xs = n" "i < n"
  shows "timed_queue (\<lambda>j. time (xs[i := y] ! j)) n k q"
  by (rule timed_queue_cong [OF assms(1)]) (use assms in \<open>auto simp: nth_list_update\<close>)

lemma twoq_relD:
  assumes "twoq_rel n a1 am k s"
  shows "length (states s) = n" "global_counter s = of_nat k" "k \<le> 2 ^ 32 - 2" "a1_size s = length a1"
    "timed_queue (\<lambda>i. a1_time (states s ! i)) n k a1" "timed_queue (\<lambda>i. am_time (states s ! i)) n k am"
    "i \<in> set a1 \<longleftrightarrow> i < n \<and> (\<exists>t. states s ! i = A1 t)"
    "i \<in> set am \<longleftrightarrow> i < n \<and> (\<exists>t. states s ! i = Am t)"
proof -
  show "length (states s) = n" "global_counter s = of_nat k" "k \<le> 2 ^ 32 - 2" "a1_size s = length a1"
    and a1: "timed_queue (\<lambda>i. a1_time (states s ! i)) n k a1"
    and am: "timed_queue (\<lambda>i. am_time (states s ! i)) n k am"
    using assms by (simp_all add: twoq_rel_def)
  show "i \<in> set a1 \<longleftrightarrow> i < n \<and> (\<exists>t. states s ! i = A1 t)"
    using a1 by (cases "states s ! i") (auto simp: timed_queue_def)
  show "i \<in> set am \<longleftrightarrow> i < n \<and> (\<exists>t. states s ! i = Am t)"
    using am by (cases "states s ! i") (auto simp: timed_queue_def)
qed

lemma twoq_rel_new:
  "TwoQ_new n a1_max a1out_max = Some s \<Longrightarrow> twoq_rel n [] [] 0 s"
  by (auto simp: TwoQ_new_def twoq_rel_def timed_queue_def split: if_splits)

text \<open>A slot gets a fresh stamp in one of the queues and leaves the other.\<close>

lemma twoq_stamp_am:
  assumes r: "twoq_rel n a1 am k s" and i: "i < n" "i \<notin> set a1" and k: "k < 2 ^ 32 - 2"
  shows "timed_queue (\<lambda>j. a1_time ((states s)[i := Am (global_counter s + 1)] ! j)) n (Suc k) a1"
    and "timed_queue (\<lambda>j. am_time ((states s)[i := Am (global_counter s + 1)] ! j)) n (Suc k) (removeAll i am @ [i])"
proof -
  note d = twoq_relD [OF r]
  have c: "unat (global_counter s + 1) = Suc k" using d(2) k unat_of_nat_Suc [of k] by simp
  show "timed_queue (\<lambda>j. a1_time ((states s)[i := Am (global_counter s + 1)] ! j)) n (Suc k) a1"
    using timed_queue_later [OF timed_queue_clear [OF d(5), of i]] i d(1)
    by (intro timed_queue_update) (auto simp: removeAll_id)
  show "timed_queue (\<lambda>j. am_time ((states s)[i := Am (global_counter s + 1)] ! j)) n (Suc k) (removeAll i am @ [i])"
    using timed_queue_stamp [OF d(6) i(1) c] i d(1) by (intro timed_queue_update) auto
qed

lemma twoq_stamp_a1:
  assumes r: "twoq_rel n a1 am k s" and i: "i < n" "i \<notin> set a1" "i \<notin> set am" and k: "k < 2 ^ 32 - 2"
  shows "timed_queue (\<lambda>j. a1_time ((states s)[i := A1 (global_counter s + 1)] ! j)) n (Suc k) (a1 @ [i])"
    and "timed_queue (\<lambda>j. am_time ((states s)[i := A1 (global_counter s + 1)] ! j)) n (Suc k) am"
proof -
  note d = twoq_relD [OF r]
  have c: "unat (global_counter s + 1) = Suc k" using d(2) k unat_of_nat_Suc [of k] by simp
  show "timed_queue (\<lambda>j. a1_time ((states s)[i := A1 (global_counter s + 1)] ! j)) n (Suc k) (a1 @ [i])"
    using timed_queue_stamp [OF d(5) i(1) c] i d(1)
    by (intro timed_queue_update) (auto simp: removeAll_id)
  show "timed_queue (\<lambda>j. am_time ((states s)[i := A1 (global_counter s + 1)] ! j)) n (Suc k) am"
    using timed_queue_later [OF timed_queue_clear [OF d(6), of i]] i d(1)
    by (intro timed_queue_update) (auto simp: removeAll_id)
qed

lemma twoq_access:
  assumes r: "twoq_rel n a1 am k s" and i: "i \<in> set a1 \<union> set am" and k: "k < 2 ^ 32 - 2"
  shows "\<exists>s'. twoq_on_access i p s = Some s' \<and> a1out s' = a1out s \<and>
    twoq_rel n a1 (if i \<in> set am then removeAll i am @ [i] else am) (Suc k) s'"
proof -
  note d = twoq_relD [OF r]
  have n: "i < n" using i d(7,8) by auto
  show ?thesis
  proof (cases "i \<in> set am")
    case True
    then obtain t where t: "states s ! i = Am t" and "i \<notin> set a1" using d(7,8) by auto
    from twoq_stamp_am [OF r n \<open>i \<notin> set a1\<close> k] True n k show ?thesis
      using r unfolding twoq_on_access_def twoq_rel_def by (simp add: t d(1) Let_def)
  next
    case False
    with i d(7) obtain t where t: "states s ! i = A1 t" by auto
    show ?thesis
      using r False n k timed_queue_later [OF d(5)] timed_queue_later [OF d(6)]
      unfolding twoq_on_access_def twoq_rel_def by (simp add: t Let_def)
  qed
qed

lemma twoq_load:
  assumes r: "twoq_rel n a1 am k s" and i: "i < n" "i \<notin> set a1" "i \<notin> set am" and k: "k < 2 ^ 32 - 2"
  shows "\<exists>s'. twoq_on_load i p s = Some s' \<and> a1out s' = remove1 p (a1out s) \<and>
    (if p \<in> set (a1out s) then twoq_rel n a1 (am @ [i]) (Suc k) s' else twoq_rel n (a1 @ [i]) am (Suc k) s')"
proof (cases "p \<in> set (a1out s)")
  case True
  then have "length (remove1 p (a1out s)) \<le> length (a1out s)" by (simp add: length_remove1)
  with True twoq_stamp_am [OF r i(1,2) k] r i(1) k show ?thesis
    unfolding twoq_on_load_def twoq_rel_def by (auto simp: Let_def removeAll_id [OF i(3)])
next
  case False
  then show ?thesis
    using twoq_stamp_a1 [OF r i k] r i(1) k
    unfolding twoq_on_load_def twoq_rel_def by (simp add: Let_def remove1_idem)
qed

lemma twoq_invalidate:
  assumes r: "twoq_rel n a1 am k s" and i: "i \<in> set a1 \<union> set am"
  shows "\<exists>s'. twoq_on_invalidate i p s = Some s' \<and> twoq_rel n (removeAll i a1) (removeAll i am) k s' \<and>
    a1out s' = (if i \<in> set a1
      then (if length (a1out s) = a1out_max_size s then tl (a1out s) else a1out s) @ [p] else a1out s)"
proof -
  note d = twoq_relD [OF r]
  have n: "i < n" using i d(7,8) by auto
  have q: "timed_queue (\<lambda>j. a1_time ((states s)[i := Free] ! j)) n k (removeAll i a1)"
    "timed_queue (\<lambda>j. am_time ((states s)[i := Free] ! j)) n k (removeAll i am)"
    using timed_queue_clear [OF d(5), of i] timed_queue_clear [OF d(6), of i] n d(1)
    by (auto intro!: timed_queue_update)
  show ?thesis
  proof (cases "i \<in> set a1")
    case True
    then obtain t where t: "states s ! i = A1 t" using d(7) by auto
    have "distinct a1" using d(5) by (simp add: timed_queue_def)
    then have "length (removeAll i a1) = length a1 - 1"
      using True by (simp add: distinct_remove1_removeAll [symmetric] length_remove1)
    then show ?thesis
      using r True n q unfolding twoq_on_invalidate_def twoq_rel_def by (auto simp: t Let_def)
  next
    case False
    with i d(8) obtain t where t: "states s ! i = Am t" by auto
    show ?thesis
      using r False n q unfolding twoq_on_invalidate_def twoq_rel_def
      by (simp add: t Let_def removeAll_id)
  qed
qed

lemma twoq_victim:
  assumes r: "twoq_rel n a1 am k s" and occ: "set a1 \<union> set am = {..<n}" and "0 < n"
  shows "twoq_choose_victim s = Some (if a1_max_size s \<le> length a1 then (if a1 = [] then 0 else hd a1)
           else if am = [] then hd a1 else hd am)"
proof -
  note d = twoq_relD [OF r]
  have k: "k < 2 ^ 32 - 1" using d(3) by simp
  have "0 \<in> set a1 \<union> set am" unfolding occ using \<open>0 < n\<close> by simp
  then have "a1 \<noteq> []" if "am = []" using that by auto
  moreover have "oldest_scan a1_time (states s) 0 U32_MAX 0 False = (if a1 = [] then (0, False) else (hd a1, True))"
    by (rule oldest_scan_queue [OF _ k]) (use d(1,5) in simp)
  moreover have "oldest_scan am_time (states s) 0 U32_MAX 0 False = (if am = [] then (0, False) else (hd am, True))"
    by (rule oldest_scan_queue [OF _ k]) (use d(1,6) in simp)
  ultimately show ?thesis
    by (simp add: twoq_choose_victim_def choose_victim_from_a1_fallback_def d(4))
qed

text \<open>
  The queues of the 2Q algorithm, with the limits it was built with: an access moves a slot of Am to
  its end, a load goes to Am if the page was recently evicted from A1 and to A1 otherwise, and an
  eviction from A1 is remembered in the bounded list.
\<close>

record twoq_queues =
  a1q :: "nat list"
  amq :: "nat list"
  outq :: "u32 list"
  a1_limit :: nat
  out_limit :: nat

primrec twoq_spec :: "cache_event \<Rightarrow> twoq_queues \<Rightarrow> twoq_queues" where
  "twoq_spec (Access i p) q =
     (if i \<in> set (amq q) then q\<lparr>amq := removeAll i (amq q) @ [i]\<rparr> else q)"
| "twoq_spec (Load i p) q =
     (if p \<in> set (outq q) then q\<lparr>amq := amq q @ [i], outq := remove1 p (outq q)\<rparr>
      else q\<lparr>a1q := a1q q @ [i]\<rparr>)"
| "twoq_spec (Invalidate i p) q =
     (if i \<in> set (a1q q)
      then q\<lparr>a1q := removeAll i (a1q q), amq := removeAll i (amq q),
             outq := (if length (outq q) = out_limit q then tl (outq q) else outq q) @ [p]\<rparr>
      else q\<lparr>a1q := removeAll i (a1q q), amq := removeAll i (amq q)\<rparr>)"

definition twoq_slots :: "twoq_queues \<Rightarrow> nat set" where
  "twoq_slots q = set (a1q q) \<union> set (amq q)"

definition twoq_victim_of :: "twoq_queues \<Rightarrow> nat" where
  "twoq_victim_of q =
     (if a1_limit q \<le> length (a1q q) then (if a1q q = [] then 0 else hd (a1q q))
      else if amq q = [] then hd (a1q q) else hd (amq q))"

definition twoq_refines :: "nat \<Rightarrow> twoq_queues \<Rightarrow> nat \<Rightarrow> TwoQEvictionStrategy \<Rightarrow> bool" where
  "twoq_refines n q k s \<longleftrightarrow> twoq_rel n (a1q q) (amq q) k s \<and> a1out s = outq q
     \<and> a1_max_size s = a1_limit q \<and> a1out_max_size s = out_limit q"

lemma twoq_limits:
  "twoq_on_access i p s = Some s' \<Longrightarrow> a1_max_size s' = a1_max_size s \<and> a1out_max_size s' = a1out_max_size s"
  "twoq_on_load i p s = Some s' \<Longrightarrow> a1_max_size s' = a1_max_size s \<and> a1out_max_size s' = a1out_max_size s"
  "twoq_on_invalidate i p s = Some s' \<Longrightarrow> a1_max_size s' = a1_max_size s \<and> a1out_max_size s' = a1out_max_size s"
  by (auto simp: twoq_on_access_def twoq_on_load_def twoq_on_invalidate_def Let_def
      split: if_splits PageState.splits)

lemma twoq_step_refines:
  assumes r: "twoq_refines n q k s" and al: "allowed n (twoq_slots q) e" and k: "k + ticks e \<le> 2 ^ 32 - 2"
  shows "\<exists>s'. es_step TwoQ e s = Some s' \<and> twoq_refines n (twoq_spec e q) (k + ticks e) s'"
proof -
  have rel: "twoq_rel n (a1q q) (amq q) k s" and out: "a1out s = outq q"
    and lim: "a1_max_size s = a1_limit q" "a1out_max_size s = out_limit q"
    using r by (auto simp: twoq_refines_def)
  show ?thesis
  proof (cases e)
    case (Access i p)
    with al k have "i \<in> set (a1q q) \<union> set (amq q)" "k < 2 ^ 32 - 2" by (auto simp: twoq_slots_def)
    from twoq_access [OF rel this, of p] show ?thesis
      using lim out twoq_limits(1) [of i p s] by (auto simp: Access TwoQ_def twoq_refines_def)
  next
    case (Load i p)
    with al k have "i < n" "i \<notin> set (a1q q)" "i \<notin> set (amq q)" "k < 2 ^ 32 - 2"
      by (auto simp: twoq_slots_def)
    from twoq_load [OF rel this, of p] show ?thesis
      using lim out twoq_limits(2) [of i p s]
      by (auto simp: Load TwoQ_def twoq_refines_def remove1_idem split: if_splits)
  next
    case (Invalidate i p)
    with al have i: "i \<in> set (a1q q) \<union> set (amq q)" by (auto simp: twoq_slots_def)
    from twoq_invalidate [OF rel i, of p] show ?thesis
      using lim out twoq_limits(3) [of i p s]
      by (auto simp: Invalidate TwoQ_def twoq_refines_def split: if_splits)
  qed
qed

interpretation twoq: eviction_refinement TwoQ twoq_refines twoq_spec twoq_slots twoq_victim_of
proof
  fix n q k s e
  show "\<exists>s'. es_step TwoQ e s = Some s' \<and> twoq_refines n (twoq_spec e q) (k + ticks e) s'"
    if "twoq_refines n q k s" "allowed n (twoq_slots q) e" "k + ticks e \<le> 2 ^ 32 - 2"
    using that by (rule twoq_step_refines)
  show "twoq_slots (twoq_spec e q) = occupied e (twoq_slots q)" if "allowed n (twoq_slots q) e"
    using that by (cases e) (auto simp: twoq_slots_def)
  show "choose_victim TwoQ s = Some (twoq_victim_of q) \<and> twoq_victim_of q < n"
    if r: "twoq_refines n q k s" and occ: "twoq_slots q = {..<n}" and "0 < n"
  proof -
    have rel: "twoq_rel n (a1q q) (amq q) k s" and "a1_max_size s = a1_limit q"
      using r by (auto simp: twoq_refines_def)
    moreover have occ': "set (a1q q) \<union> set (amq q) = {..<n}" using occ by (simp add: twoq_slots_def)
    ultimately have "choose_victim TwoQ s = Some (twoq_victim_of q)"
      using twoq_victim [OF rel occ' \<open>0 < n\<close>] by (simp add: TwoQ_def twoq_victim_of_def)
    moreover have bound: "x < n" if "x \<in> set (a1q q) \<union> set (amq q)" for x using that unfolding occ' by simp
    have "0 \<in> set (a1q q) \<union> set (amq q)" unfolding occ' using \<open>0 < n\<close> by simp
    then have "a1q q \<noteq> [] \<or> amq q \<noteq> []" by auto
    then have "twoq_victim_of q < n"
      using \<open>0 < n\<close> bound [of "hd (a1q q)"] bound [of "hd (amq q)"] by (auto simp: twoq_victim_of_def)
    ultimately show ?thesis by blast
  qed
qed

section \<open>Properties\<close>

text \<open>
  C25: (LRU) Starting from a new LRU strategy, any sequence of calls that follows the protocol (fewer
  than 2^32 - 2 of them, so the counter has not wrapped) runs without a panic, and when all slots
  are occupied the victim is the slot whose last load or access is the least recent: the head of the
  list in which every access and load moves its slot to the end.
\<close>

theorem lru_least_recent:
  assumes "protocol n {} evs" "length evs \<le> 2 ^ 32 - 2"
  shows "\<exists>s. es_run Lru evs (Lru_new n) = Some s \<and>
    (set (fold lru_spec evs []) = {..<n} \<longrightarrow> 0 < n \<longrightarrow>
       lru_choose_victim s = Some (hd (fold lru_spec evs [])))"
proof -
  have "\<exists>s. es_run Lru evs (Lru_new n) = Some s \<and> (set (fold lru_spec evs []) = {..<n} \<longrightarrow> 0 < n \<longrightarrow>
      choose_victim Lru s = Some (hd (fold lru_spec evs [])))"
    using lru.run_victim [OF lru_rel_new, of n evs] assms by simp
  then show ?thesis by (simp add: Lru_def)
qed

theorem lru_least_recent_witness:
  "protocol 2 {} [Load 0 7, Load 1 8, Access 0 7] \<and>
   (\<exists>s. es_run Lru [Load 0 7, Load 1 8, Access 0 7] (Lru_new 2) = Some s \<and> lru_choose_victim s = Some 1)"
  using lru_least_recent [of 2 "[Load 0 7, Load 1 8, Access 0 7]"] by (auto simp: lessThan_nat_numeral)

text \<open>
  C26: (2Q) The same for 2Q: below the counter's wrap no sequence of protocol calls panics, the state
  refines the queues A1 and Am and the list A1out of the algorithm, and a full cache evicts the
  oldest slot of A1 when A1 has reached its limit, otherwise the least recently used slot of Am, and
  the oldest of A1 when Am is empty. The count \<open>a1_size\<close> is the length of A1, and A1out never grows
  beyond its limit, when that is positive.
\<close>

definition empty_queues :: "nat \<Rightarrow> nat \<Rightarrow> twoq_queues" where
  "empty_queues a1_max a1out_max = \<lparr>a1q = [], amq = [], outq = [], a1_limit = a1_max, out_limit = a1out_max\<rparr>"

theorem twoq_evicts:
  assumes "TwoQ_new n a1_max a1out_max = Some s0" "protocol n {} evs" "length evs \<le> 2 ^ 32 - 2"
  shows "\<exists>s. es_run TwoQ evs s0 = Some s \<and>
    (let q = fold twoq_spec evs (empty_queues a1_max a1out_max) in
       a1_size s = length (a1q q) \<and> a1out s = outq q \<and> (0 < a1out_max \<longrightarrow> length (a1out s) \<le> a1out_max) \<and>
       (twoq_slots q = {..<n} \<longrightarrow> twoq_choose_victim s = Some (twoq_victim_of q)))"
proof -
  let ?q = "fold twoq_spec evs (empty_queues a1_max a1out_max)"
  have "0 < n" "a1_max_size s0 = a1_max" "a1out_max_size s0 = a1out_max" "a1out s0 = []"
    using assms(1) by (auto simp: TwoQ_new_def split: if_splits)
  then have "twoq_refines n (empty_queues a1_max a1out_max) 0 s0"
    using twoq_rel_new [OF assms(1)] by (simp add: twoq_refines_def empty_queues_def)
  moreover have "protocol n (twoq_slots (empty_queues a1_max a1out_max)) evs"
    using assms(2) by (simp add: twoq_slots_def empty_queues_def)
  ultimately obtain s k where s: "es_run TwoQ evs s0 = Some s" "twoq_refines n ?q k s"
    using twoq.run_refines [of n "empty_queues a1_max a1out_max" 0 s0 evs] assms(3) by auto
  have "a1out_max_size s = out_limit ?q" "out_limit ?q = a1out_max"
  proof -
    have "out_limit (fold twoq_spec evs q) = out_limit q" for q
    proof (induction evs arbitrary: q)
      case (Cons e evs)
      have "out_limit (twoq_spec e q) = out_limit q" by (cases e) auto
      with Cons show ?case by simp
    qed simp
    then show "out_limit ?q = a1out_max" by (simp add: empty_queues_def)
  qed (use s in \<open>simp add: twoq_refines_def\<close>)
  then have "a1_size s = length (a1q ?q)" "a1out s = outq ?q"
    "0 < a1out_max \<longrightarrow> length (a1out s) \<le> a1out_max"
    using s(2) by (auto simp: twoq_refines_def twoq_rel_def)
  moreover have "twoq_choose_victim s = Some (twoq_victim_of ?q)" if "twoq_slots ?q = {..<n}"
    using twoq.victim_refines [OF s(2) that \<open>0 < n\<close>] by (simp add: TwoQ_def)
  ultimately show ?thesis using s(1) by (auto simp: Let_def)
qed

theorem twoq_evicts_witness:
  "(\<exists>s0. TwoQ_new 3 1 2 = Some s0) \<and>
   protocol 3 {} [Load 0 7, Invalidate 0 7, Load 0 7, Load 1 8, Load 2 9] \<and>
   (\<exists>s. es_run TwoQ [Load 0 7, Invalidate 0 7, Load 0 7, Load 1 8, Load 2 9] (the (TwoQ_new 3 1 2)) = Some s
      \<and> a1_size s = 2 \<and> twoq_choose_victim s = Some 1)"
proof -
  obtain s0 where s0: "TwoQ_new 3 1 2 = Some s0" by (simp add: TwoQ_new_def)
  have "twoq_slots (fold twoq_spec [Load 0 7, Invalidate 0 7, Load 0 7, Load 1 8, Load 2 9] (empty_queues 1 2)) = {..<3}"
    by (auto simp: twoq_slots_def empty_queues_def lessThan_nat_numeral)
  then show ?thesis
    using twoq_evicts [OF s0, of "[Load 0 7, Invalidate 0 7, Load 0 7, Load 1 8, Load 2 9]"] s0
    by (auto simp: Let_def empty_queues_def twoq_victim_of_def)
qed

end
