(* ===== verification/Client_Commands.thy ===== *)
theory Client_Commands
  imports Vm_Memory
begin

text \<open>
  The messages between the VM and the host that runs its virtual memory
  (\<open>common/src/client_commands.rs\<close>, and \<open>BufferType\<close> of \<open>common/src/lib.rs\<close>). A message type is a
  record with the fields of the struct; \<open>X_new\<close>, \<open>X_serialize\<close> and \<open>X_deserialize\<close> are its
  functions, \<open>serialize_with\<close> being the concatenation of the slices it passes to its callback. A fixed
  size array is a byte list, and \<open>X_wf\<close> states its length and what \<open>deserialize\<close> checks.

  The trait \<open>Message\<close> is the locale \<open>message_codec\<close>, interpreted for every message: a well-formed
  message is read back, and what is read is well formed. \<open>canonical_codec\<close> adds that the bytes are
  the only ones that are read as that message, which holds for all but the two messages that carry a
  nonce, whose bytes are ignored when the page is not encrypted.
\<close>

section \<open>Codes and errors\<close>

definition MAX_APDU_DATA_SIZE :: nat where
  "MAX_APDU_DATA_SIZE = 590"

datatype MessageDeserializationError =
    InvalidClientCommandCode
  | MismatchingClientCommandCode
  | InvalidSectionKind
  | InvalidPageProofKind
  | InvalidDataLength
  | UnexpectedCommandCode
  | InvalidBufferType

datatype ClientCommandCode =
    GetPage
  | GetPageProofContinued
  | CommitPage
  | CommitPageProofContinued
  | SendBuffer
  | SendBufferContinued
  | ReceiveBuffer
  | GetCodePageHashesCode

primrec ClientCommandCode_as_u8 :: "ClientCommandCode \<Rightarrow> u8" where
  "ClientCommandCode_as_u8 GetPage = 0"
| "ClientCommandCode_as_u8 GetPageProofContinued = 1"
| "ClientCommandCode_as_u8 CommitPage = 2"
| "ClientCommandCode_as_u8 CommitPageProofContinued = 3"
| "ClientCommandCode_as_u8 SendBuffer = 4"
| "ClientCommandCode_as_u8 SendBufferContinued = 5"
| "ClientCommandCode_as_u8 ReceiveBuffer = 6"
| "ClientCommandCode_as_u8 GetCodePageHashesCode = 7"

definition ClientCommandCode_try_from :: "u8 \<Rightarrow> (string, ClientCommandCode) result" where
  "ClientCommandCode_try_from value =
     (if value = 0 then Ok GetPage
      else if value = 1 then Ok GetPageProofContinued
      else if value = 2 then Ok CommitPage
      else if value = 3 then Ok CommitPageProofContinued
      else if value = 4 then Ok SendBuffer
      else if value = 5 then Ok SendBufferContinued
      else if value = 6 then Ok ReceiveBuffer
      else if value = 7 then Ok GetCodePageHashesCode
      else Err ''Invalid value for ClientCommandCode'')"

datatype SectionKind = Code | Data | Stack

primrec SectionKind_as_u8 :: "SectionKind \<Rightarrow> u8" where
  "SectionKind_as_u8 Code = 0"
| "SectionKind_as_u8 Data = 1"
| "SectionKind_as_u8 Stack = 2"

definition SectionKind_try_from :: "u8 \<Rightarrow> (string, SectionKind) result" where
  "SectionKind_try_from value =
     (if value = 0 then Ok Code
      else if value = 1 then Ok Data
      else if value = 2 then Ok Stack
      else Err ''Invalid section kind'')"

datatype PageProofKind = Merkle | Hmac

primrec PageProofKind_as_u8 :: "PageProofKind \<Rightarrow> u8" where
  "PageProofKind_as_u8 Merkle = 0"
| "PageProofKind_as_u8 Hmac = 1"

definition PageProofKind_try_from :: "u8 \<Rightarrow> (string, PageProofKind) result" where
  "PageProofKind_try_from value =
     (if value = 0 then Ok Merkle
      else if value = 1 then Ok Hmac
      else Err ''Invalid page proof kind'')"

datatype BufferType = VAppMessage | Panic | Print

primrec BufferType_as_u8 :: "BufferType \<Rightarrow> u8" where
  "BufferType_as_u8 VAppMessage = 0"
| "BufferType_as_u8 Panic = 1"
| "BufferType_as_u8 Print = 2"

definition BufferType_try_from :: "u8 \<Rightarrow> (string, BufferType) result" where
  "BufferType_try_from value =
     (if value = 0 then Ok VAppMessage
      else if value = 1 then Ok Panic
      else if value = 2 then Ok Print
      else Err ''Invalid buffer type'')"

text \<open>
  \<open>expect_code\<close> is the guard every VM message starts with: the first byte must be a command code, and
  the one of this message.
\<close>

definition expect_code :: "ClientCommandCode \<Rightarrow> u8 \<Rightarrow> (MessageDeserializationError, ClientCommandCode) result" where
  "expect_code code b =
     bindR (map_err (\<lambda>_. InvalidClientCommandCode) (ClientCommandCode_try_from b))
       (\<lambda>command_code. if command_code \<noteq> code then Err MismatchingClientCommandCode
                       else Ok command_code)"

definition be_u32_at :: "bytes \<Rightarrow> nat \<Rightarrow> u32" where
  "be_u32_at data i = u32_from_be_bytes (data ! i) (data ! (i + 1)) (data ! (i + 2)) (data ! (i + 3))"

definition bool_as_u8 :: "bool \<Rightarrow> u8" where
  "bool_as_u8 b = (if b then 1 else 0)"

section \<open>Page requests\<close>

record GetPageMessage =
  gpm_command_code :: ClientCommandCode
  gpm_section_kind :: SectionKind
  gpm_page_index :: u32

definition GetPageMessage_new :: "SectionKind \<Rightarrow> u32 \<Rightarrow> GetPageMessage" where
  "GetPageMessage_new section_kind page_index =
     \<lparr>gpm_command_code = GetPage, gpm_section_kind = section_kind, gpm_page_index = page_index\<rparr>"

definition GetPageMessage_serialize :: "GetPageMessage \<Rightarrow> bytes" where
  "GetPageMessage_serialize m =
     [ClientCommandCode_as_u8 (gpm_command_code m)] @ [SectionKind_as_u8 (gpm_section_kind m)]
     @ u32_to_be_bytes (gpm_page_index m)"

definition GetPageMessage_deserialize :: "bytes \<Rightarrow> (MessageDeserializationError, GetPageMessage) result" where
  "GetPageMessage_deserialize data =
     (if length data \<noteq> 6 then Err InvalidDataLength
      else bindR (expect_code GetPage (data ! 0)) (\<lambda>command_code.
        bindR (map_err (\<lambda>_. InvalidSectionKind) (SectionKind_try_from (data ! 1))) (\<lambda>section_kind.
          Ok \<lparr>gpm_command_code = command_code, gpm_section_kind = section_kind,
              gpm_page_index = be_u32_at data 2\<rparr>)))"

record GetPageResponse =
  gpr_page_data :: bytes
  gpr_is_encrypted :: bool
  gpr_nonce :: bytes
  gpr_n :: u8
  gpr_t :: u8
  gpr_proof_kind :: PageProofKind
  gpr_proof :: "bytes list"

definition GetPageResponse_new ::
  "bytes \<Rightarrow> bool \<Rightarrow> bytes \<Rightarrow> u8 \<Rightarrow> u8 \<Rightarrow> PageProofKind \<Rightarrow> bytes list \<Rightarrow> GetPageResponse" where
  "GetPageResponse_new page_data is_encrypted nonce n t proof_kind proof_elements =
     \<lparr>gpr_page_data = page_data, gpr_is_encrypted = is_encrypted, gpr_nonce = nonce, gpr_n = n,
      gpr_t = t, gpr_proof_kind = proof_kind, gpr_proof = proof_elements\<rparr>"

definition GetPageResponse_max_proof_size :: nat where
  "GetPageResponse_max_proof_size = (MAX_APDU_DATA_SIZE - PAGE_SIZE - 1 - 1 - 1 - 12 - 1) div 32"

definition GetPageResponse_serialize :: "GetPageResponse \<Rightarrow> bytes" where
  "GetPageResponse_serialize m =
     gpr_page_data m @ [gpr_n m] @ [gpr_t m] @ [bool_as_u8 (gpr_is_encrypted m)] @ gpr_nonce m
     @ [PageProofKind_as_u8 (gpr_proof_kind m)] @ concat (gpr_proof m)"

definition GetPageResponse_deserialize :: "bytes \<Rightarrow> (MessageDeserializationError, GetPageResponse) result" where
  "GetPageResponse_deserialize data =
     (if length data < PAGE_SIZE + 1 + 1 + 1 + 12 + 1 then Err InvalidDataLength
      else let page_data = take PAGE_SIZE data;
               n = data ! PAGE_SIZE;
               t = data ! (PAGE_SIZE + 1);
               is_encrypted = (data ! (PAGE_SIZE + 2) = 1);
               nonce = (if is_encrypted then take 12 (drop (PAGE_SIZE + 3) data) else replicate 12 0);
               pk_byte = data ! (PAGE_SIZE + 15)
        in bindR (map_err (\<lambda>_. InvalidPageProofKind) (PageProofKind_try_from pk_byte)) (\<lambda>proof_kind.
          let proof_len = length data - (PAGE_SIZE + 1 + 1 + 1 + 12 + 1)
          in if proof_len mod 32 \<noteq> 0 then Err InvalidDataLength
             else let slice_len = proof_len div 32
               in if unat t \<noteq> slice_len then Err InvalidDataLength
                  else Ok \<lparr>gpr_page_data = page_data, gpr_is_encrypted = is_encrypted,
                          gpr_nonce = nonce, gpr_n = n, gpr_t = t, gpr_proof_kind = proof_kind,
                          gpr_proof = split_chunks 32 slice_len
                            (drop (PAGE_SIZE + 1 + 1 + 1 + 12 + 1) data)\<rparr>))"

record GetPageProofContinuedMessage =
  gpc_command_code :: ClientCommandCode

definition GetPageProofContinuedMessage_new :: GetPageProofContinuedMessage where
  "GetPageProofContinuedMessage_new = \<lparr>gpc_command_code = GetPageProofContinued\<rparr>"

definition GetPageProofContinuedMessage_serialize :: "GetPageProofContinuedMessage \<Rightarrow> bytes" where
  "GetPageProofContinuedMessage_serialize m = [ClientCommandCode_as_u8 (gpc_command_code m)]"

definition GetPageProofContinuedMessage_deserialize ::
  "bytes \<Rightarrow> (MessageDeserializationError, GetPageProofContinuedMessage) result" where
  "GetPageProofContinuedMessage_deserialize data =
     (if length data \<noteq> 1 then Err InvalidDataLength
      else bindR (expect_code GetPageProofContinued (data ! 0))
        (\<lambda>command_code. Ok \<lparr>gpc_command_code = command_code\<rparr>))"

record GetPageProofContinuedResponse =
  gcr_t :: u8
  gcr_proof :: "bytes list"

definition GetPageProofContinuedResponse_new :: "u8 \<Rightarrow> bytes list \<Rightarrow> GetPageProofContinuedResponse" where
  "GetPageProofContinuedResponse_new t proof_elements = \<lparr>gcr_t = t, gcr_proof = proof_elements\<rparr>"

definition GetPageProofContinuedResponse_max_proof_size :: nat where
  "GetPageProofContinuedResponse_max_proof_size = (MAX_APDU_DATA_SIZE - 1) div 32"

definition GetPageProofContinuedResponse_serialize :: "GetPageProofContinuedResponse \<Rightarrow> bytes" where
  "GetPageProofContinuedResponse_serialize m = [gcr_t m] @ concat (gcr_proof m)"

definition GetPageProofContinuedResponse_deserialize ::
  "bytes \<Rightarrow> (MessageDeserializationError, GetPageProofContinuedResponse) result" where
  "GetPageProofContinuedResponse_deserialize data =
     (if length data < 1 then Err InvalidDataLength
      else let t = data ! 0; proof_len = length data - 1
        in if proof_len mod 32 \<noteq> 0 then Err InvalidDataLength
           else Ok \<lparr>gcr_t = t, gcr_proof = split_chunks 32 (proof_len div 32) (drop 1 data)\<rparr>)"

section \<open>Page commits\<close>

record CommitPageMessage =
  cpm_command_code :: ClientCommandCode
  cpm_section_kind :: SectionKind
  cpm_page_index :: u32
  cpm_is_encrypted :: bool
  cpm_nonce :: bytes
  cpm_data :: bytes

definition CommitPageMessage_new ::
  "SectionKind \<Rightarrow> u32 \<Rightarrow> bool \<Rightarrow> bytes \<Rightarrow> bytes \<Rightarrow> CommitPageMessage" where
  "CommitPageMessage_new section_kind page_index is_encrypted nonce data =
     \<lparr>cpm_command_code = CommitPage, cpm_section_kind = section_kind, cpm_page_index = page_index,
      cpm_is_encrypted = is_encrypted, cpm_nonce = nonce, cpm_data = data\<rparr>"

definition CommitPageMessage_serialize :: "CommitPageMessage \<Rightarrow> bytes" where
  "CommitPageMessage_serialize m =
     [ClientCommandCode_as_u8 (cpm_command_code m)] @ [SectionKind_as_u8 (cpm_section_kind m)]
     @ u32_to_be_bytes (cpm_page_index m)
     @ (if cpm_is_encrypted m then [1] @ cpm_nonce m else replicate 13 0)
     @ cpm_data m"

definition CommitPageMessage_deserialize :: "bytes \<Rightarrow> (MessageDeserializationError, CommitPageMessage) result" where
  "CommitPageMessage_deserialize data =
     (if length data \<noteq> 1 + 1 + 4 + 1 + 12 + PAGE_SIZE then Err InvalidDataLength
      else bindR (expect_code CommitPage (data ! 0)) (\<lambda>command_code.
        bindR (map_err (\<lambda>_. InvalidSectionKind) (SectionKind_try_from (data ! 1))) (\<lambda>section_kind.
          let is_encrypted = (data ! 6 = 1)
          in Ok \<lparr>cpm_command_code = command_code, cpm_section_kind = section_kind,
                cpm_page_index = be_u32_at data 2, cpm_is_encrypted = is_encrypted,
                cpm_nonce = (if is_encrypted then take 12 (drop 7 data) else replicate 12 0),
                cpm_data = take PAGE_SIZE (drop (1 + 1 + 4 + 1 + 12) data)\<rparr>)))"

record CommitPageProofResponse =
  cpr_n :: u8
  cpr_t :: u8
  cpr_new_root :: bytes
  cpr_proof :: "bytes list"

definition CommitPageProofResponse_new :: "u8 \<Rightarrow> u8 \<Rightarrow> bytes \<Rightarrow> bytes list \<Rightarrow> CommitPageProofResponse" where
  "CommitPageProofResponse_new n t new_root proof_elements =
     \<lparr>cpr_n = n, cpr_t = t, cpr_new_root = new_root, cpr_proof = proof_elements\<rparr>"

definition CommitPageProofResponse_max_proof_size :: nat where
  "CommitPageProofResponse_max_proof_size = (MAX_APDU_DATA_SIZE - 2 - 32) div 32"

definition CommitPageProofResponse_serialize :: "CommitPageProofResponse \<Rightarrow> bytes" where
  "CommitPageProofResponse_serialize m =
     [cpr_n m] @ [cpr_t m] @ cpr_new_root m @ concat (cpr_proof m)"

definition CommitPageProofResponse_deserialize ::
  "bytes \<Rightarrow> (MessageDeserializationError, CommitPageProofResponse) result" where
  "CommitPageProofResponse_deserialize data =
     (if length data < 2 + 32 then Err InvalidDataLength
      else let n = data ! 0; t = data ! 1; new_root = take 32 (drop 2 data);
               proof_len = length data - (2 + 32)
        in if proof_len mod 32 \<noteq> 0 then Err InvalidDataLength
           else Ok \<lparr>cpr_n = n, cpr_t = t, cpr_new_root = new_root,
                   cpr_proof = split_chunks 32 (proof_len div 32) (drop (2 + 32) data)\<rparr>)"

record CommitPageProofContinuedMessage =
  cpc_command_code :: ClientCommandCode

definition CommitPageProofContinuedMessage_new :: CommitPageProofContinuedMessage where
  "CommitPageProofContinuedMessage_new = \<lparr>cpc_command_code = CommitPageProofContinued\<rparr>"

definition CommitPageProofContinuedMessage_serialize :: "CommitPageProofContinuedMessage \<Rightarrow> bytes" where
  "CommitPageProofContinuedMessage_serialize m = [ClientCommandCode_as_u8 (cpc_command_code m)]"

definition CommitPageProofContinuedMessage_deserialize ::
  "bytes \<Rightarrow> (MessageDeserializationError, CommitPageProofContinuedMessage) result" where
  "CommitPageProofContinuedMessage_deserialize data =
     (if length data \<noteq> 1 then Err InvalidDataLength
      else bindR (expect_code CommitPageProofContinued (data ! 0))
        (\<lambda>command_code. Ok \<lparr>cpc_command_code = command_code\<rparr>))"

record CommitPageProofContinuedResponse =
  ccr_t :: u8
  ccr_proof :: "bytes list"

definition CommitPageProofContinuedResponse_new :: "u8 \<Rightarrow> bytes list \<Rightarrow> CommitPageProofContinuedResponse" where
  "CommitPageProofContinuedResponse_new t proof_elements = \<lparr>ccr_t = t, ccr_proof = proof_elements\<rparr>"

definition CommitPageProofContinuedResponse_max_proof_size :: nat where
  "CommitPageProofContinuedResponse_max_proof_size = (MAX_APDU_DATA_SIZE - 1) div 32"

definition CommitPageProofContinuedResponse_serialize :: "CommitPageProofContinuedResponse \<Rightarrow> bytes" where
  "CommitPageProofContinuedResponse_serialize m = [ccr_t m] @ concat (ccr_proof m)"

definition CommitPageProofContinuedResponse_deserialize ::
  "bytes \<Rightarrow> (MessageDeserializationError, CommitPageProofContinuedResponse) result" where
  "CommitPageProofContinuedResponse_deserialize data =
     (if length data < 1 then Err InvalidDataLength
      else let t = data ! 0; proof_len = length data - 1
        in if proof_len mod 32 \<noteq> 0 then Err InvalidDataLength
           else Ok \<lparr>ccr_t = t, ccr_proof = split_chunks 32 (proof_len div 32) (drop 1 data)\<rparr>)"

section \<open>Buffers\<close>

record SendBufferMessage =
  sbm_command_code :: ClientCommandCode
  sbm_buffer_type :: BufferType
  sbm_total_size :: u32
  sbm_data :: bytes

text \<open>
  \<open>SendBufferMessage::new\<close> panics when the chunk is longer than the announced total, and
  \<open>deserialize\<close> indexes the first byte before it looks at the length; a panic is the value
  \<^const>\<open>None\<close>.
\<close>

definition SendBufferMessage_new :: "u32 \<Rightarrow> BufferType \<Rightarrow> bytes \<Rightarrow> SendBufferMessage option" where
  "SendBufferMessage_new total_size buffer_type data =
     (if length data > unat total_size then None
      else Some \<lparr>sbm_command_code = SendBuffer, sbm_buffer_type = buffer_type,
                sbm_total_size = total_size, sbm_data = data\<rparr>)"

definition SendBufferMessage_max_data_size :: nat where
  "SendBufferMessage_max_data_size = MAX_APDU_DATA_SIZE - 6"

definition SendBufferMessage_serialize :: "SendBufferMessage \<Rightarrow> bytes" where
  "SendBufferMessage_serialize m =
     [ClientCommandCode_as_u8 (sbm_command_code m)] @ [BufferType_as_u8 (sbm_buffer_type m)]
     @ u32_to_be_bytes (sbm_total_size m) @ sbm_data m"

definition SendBufferMessage_deserialize ::
  "bytes \<Rightarrow> (MessageDeserializationError, SendBufferMessage) result option" where
  "SendBufferMessage_deserialize data =
     (if data = [] then None
      else Some (bindR (map_err (\<lambda>_. InvalidClientCommandCode) (ClientCommandCode_try_from (data ! 0)))
        (\<lambda>command_code.
          if command_code \<noteq> SendBuffer \<or> length data < 6 then Err MismatchingClientCommandCode
          else bindR (map_err (\<lambda>_. InvalidBufferType) (BufferType_try_from (data ! 1))) (\<lambda>buffer_type.
            let total_size = be_u32_at data 2; content = drop 6 data
            in if length content > unat total_size then Err InvalidDataLength
               else Ok \<lparr>sbm_command_code = command_code, sbm_buffer_type = buffer_type,
                       sbm_total_size = total_size, sbm_data = content\<rparr>))))"

record SendBufferContinuedMessage =
  sbc_command_code :: ClientCommandCode
  sbc_data :: bytes

definition SendBufferContinuedMessage_new :: "bytes \<Rightarrow> SendBufferContinuedMessage" where
  "SendBufferContinuedMessage_new data =
     \<lparr>sbc_command_code = SendBufferContinued, sbc_data = data\<rparr>"

definition SendBufferContinuedMessage_max_data_size :: nat where
  "SendBufferContinuedMessage_max_data_size = MAX_APDU_DATA_SIZE - 1"

definition SendBufferContinuedMessage_serialize :: "SendBufferContinuedMessage \<Rightarrow> bytes" where
  "SendBufferContinuedMessage_serialize m =
     [ClientCommandCode_as_u8 (sbc_command_code m)] @ sbc_data m"

definition SendBufferContinuedMessage_deserialize ::
  "bytes \<Rightarrow> (MessageDeserializationError, SendBufferContinuedMessage) result" where
  "SendBufferContinuedMessage_deserialize data =
     (if length data < 1 then Err InvalidDataLength
      else bindR (expect_code SendBufferContinued (data ! 0)) (\<lambda>command_code.
        Ok \<lparr>sbc_command_code = command_code, sbc_data = drop 1 data\<rparr>))"

record ReceiveBufferMessage =
  rbm_command_code :: ClientCommandCode

definition ReceiveBufferMessage_new :: ReceiveBufferMessage where
  "ReceiveBufferMessage_new = \<lparr>rbm_command_code = ReceiveBuffer\<rparr>"

definition ReceiveBufferMessage_serialize :: "ReceiveBufferMessage \<Rightarrow> bytes" where
  "ReceiveBufferMessage_serialize m = [ClientCommandCode_as_u8 (rbm_command_code m)]"

definition ReceiveBufferMessage_deserialize ::
  "bytes \<Rightarrow> (MessageDeserializationError, ReceiveBufferMessage) result" where
  "ReceiveBufferMessage_deserialize data =
     (if length data \<noteq> 1 then Err InvalidDataLength
      else bindR (expect_code ReceiveBuffer (data ! 0))
        (\<lambda>command_code. Ok \<lparr>rbm_command_code = command_code\<rparr>))"

record ReceiveBufferResponse =
  rbr_remaining_length :: u32
  rbr_content :: bytes

definition ReceiveBufferResponse_new :: "u32 \<Rightarrow> bytes \<Rightarrow> ReceiveBufferResponse" where
  "ReceiveBufferResponse_new remaining_length content =
     \<lparr>rbr_remaining_length = remaining_length, rbr_content = content\<rparr>"

definition ReceiveBufferResponse_max_chunk_size :: nat where
  "ReceiveBufferResponse_max_chunk_size = MAX_APDU_DATA_SIZE - 4"

definition ReceiveBufferResponse_serialize :: "ReceiveBufferResponse \<Rightarrow> bytes" where
  "ReceiveBufferResponse_serialize m = u32_to_be_bytes (rbr_remaining_length m) @ rbr_content m"

definition ReceiveBufferResponse_deserialize ::
  "bytes \<Rightarrow> (MessageDeserializationError, ReceiveBufferResponse) result" where
  "ReceiveBufferResponse_deserialize data =
     (if length data < 4 then Err InvalidDataLength
      else let remaining_length = be_u32_at data 0
        in if length data - 4 > unat remaining_length then Err InvalidDataLength
           else Ok \<lparr>rbr_remaining_length = remaining_length, rbr_content = drop 4 data\<rparr>)"

section \<open>Code page hashes\<close>

record GetCodePageHashes =
  gch_command_code :: ClientCommandCode
  gch_n_prev_batch_pages :: u32
  gch_prev_batch_enc_hmacs :: "bytes list"

definition GetCodePageHashes_new :: "u32 \<Rightarrow> bytes list \<Rightarrow> GetCodePageHashes" where
  "GetCodePageHashes_new n_prev_batch_pages prev_batch_enc_hmacs =
     \<lparr>gch_command_code = GetCodePageHashesCode, gch_n_prev_batch_pages = n_prev_batch_pages,
      gch_prev_batch_enc_hmacs = prev_batch_enc_hmacs\<rparr>"

definition GetCodePageHashes_max_hashes :: nat where
  "GetCodePageHashes_max_hashes = (MAX_APDU_DATA_SIZE - 4 - 1) div 32"

definition GetCodePageHashes_serialize :: "GetCodePageHashes \<Rightarrow> bytes" where
  "GetCodePageHashes_serialize m =
     [ClientCommandCode_as_u8 (gch_command_code m)] @ u32_to_be_bytes (gch_n_prev_batch_pages m)
     @ concat (gch_prev_batch_enc_hmacs m)"

definition GetCodePageHashes_deserialize ::
  "bytes \<Rightarrow> (MessageDeserializationError, GetCodePageHashes) result" where
  "GetCodePageHashes_deserialize data =
     (if length data < 1 + 4 then Err InvalidDataLength
      else bindR (expect_code GetCodePageHashesCode (data ! 0)) (\<lambda>command_code.
        let n_prev_batch_pages = be_u32_at data 1; hmacs_len = length data - 5
        in if hmacs_len mod 32 \<noteq> 0 then Err InvalidDataLength
           else Ok \<lparr>gch_command_code = command_code, gch_n_prev_batch_pages = n_prev_batch_pages,
                   gch_prev_batch_enc_hmacs = split_chunks 32 (hmacs_len div 32) (drop 5 data)\<rparr>))"

record GetCodePageHashesResponse =
  ghr_n_code_pages :: u32
  ghr_code_page_hashes :: "bytes list"

definition GetCodePageHashesResponse_new :: "u32 \<Rightarrow> bytes list \<Rightarrow> GetCodePageHashesResponse" where
  "GetCodePageHashesResponse_new n_code_pages code_page_hashes =
     \<lparr>ghr_n_code_pages = n_code_pages, ghr_code_page_hashes = code_page_hashes\<rparr>"

definition GetCodePageHashesResponse_max_hashes :: nat where
  "GetCodePageHashesResponse_max_hashes = GetCodePageHashes_max_hashes"

definition GetCodePageHashesResponse_serialize :: "GetCodePageHashesResponse \<Rightarrow> bytes" where
  "GetCodePageHashesResponse_serialize m =
     u32_to_be_bytes (ghr_n_code_pages m) @ concat (ghr_code_page_hashes m)"

definition GetCodePageHashesResponse_deserialize ::
  "bytes \<Rightarrow> (MessageDeserializationError, GetCodePageHashesResponse) result" where
  "GetCodePageHashesResponse_deserialize data =
     (if length data < 4 then Err InvalidDataLength
      else let n_code_pages = be_u32_at data 0; hashes_len = length data - 4
        in if hashes_len mod 32 \<noteq> 0 then Err InvalidDataLength
           else let slice_len = hashes_len div 32
             in if slice_len \<noteq> unat n_code_pages then Err InvalidDataLength
                else Ok \<lparr>ghr_n_code_pages = n_code_pages,
                        ghr_code_page_hashes = split_chunks 32 slice_len (drop 4 data)\<rparr>)"

section \<open>Well-formed messages\<close>

text \<open>
  What the Rust types enforce (array lengths, the command code set by \<open>new\<close>) and the conditions
  between fields that \<open>deserialize\<close> checks.
\<close>

definition arrays32 :: "bytes list \<Rightarrow> bool" where
  "arrays32 xs \<longleftrightarrow> (\<forall>x\<in>set xs. length x = 32)"

definition nonce_wf :: "bool \<Rightarrow> bytes \<Rightarrow> bool" where
  "nonce_wf is_encrypted nonce \<longleftrightarrow> length nonce = 12 \<and> (is_encrypted \<or> nonce = replicate 12 0)"

definition GetPageMessage_wf :: "GetPageMessage \<Rightarrow> bool" where
  "GetPageMessage_wf m \<longleftrightarrow> gpm_command_code m = GetPage"

definition GetPageResponse_wf :: "GetPageResponse \<Rightarrow> bool" where
  "GetPageResponse_wf m \<longleftrightarrow> length (gpr_page_data m) = PAGE_SIZE
     \<and> nonce_wf (gpr_is_encrypted m) (gpr_nonce m)
     \<and> arrays32 (gpr_proof m) \<and> length (gpr_proof m) = unat (gpr_t m)"

definition GetPageProofContinuedMessage_wf :: "GetPageProofContinuedMessage \<Rightarrow> bool" where
  "GetPageProofContinuedMessage_wf m \<longleftrightarrow> gpc_command_code m = GetPageProofContinued"

definition GetPageProofContinuedResponse_wf :: "GetPageProofContinuedResponse \<Rightarrow> bool" where
  "GetPageProofContinuedResponse_wf m \<longleftrightarrow> arrays32 (gcr_proof m)"

definition CommitPageMessage_wf :: "CommitPageMessage \<Rightarrow> bool" where
  "CommitPageMessage_wf m \<longleftrightarrow> cpm_command_code m = CommitPage
     \<and> nonce_wf (cpm_is_encrypted m) (cpm_nonce m) \<and> length (cpm_data m) = PAGE_SIZE"

definition CommitPageProofResponse_wf :: "CommitPageProofResponse \<Rightarrow> bool" where
  "CommitPageProofResponse_wf m \<longleftrightarrow> length (cpr_new_root m) = 32 \<and> arrays32 (cpr_proof m)"

definition CommitPageProofContinuedMessage_wf :: "CommitPageProofContinuedMessage \<Rightarrow> bool" where
  "CommitPageProofContinuedMessage_wf m \<longleftrightarrow> cpc_command_code m = CommitPageProofContinued"

definition CommitPageProofContinuedResponse_wf :: "CommitPageProofContinuedResponse \<Rightarrow> bool" where
  "CommitPageProofContinuedResponse_wf m \<longleftrightarrow> arrays32 (ccr_proof m)"

definition SendBufferMessage_wf :: "SendBufferMessage \<Rightarrow> bool" where
  "SendBufferMessage_wf m \<longleftrightarrow>
     sbm_command_code m = SendBuffer \<and> length (sbm_data m) \<le> unat (sbm_total_size m)"

definition SendBufferContinuedMessage_wf :: "SendBufferContinuedMessage \<Rightarrow> bool" where
  "SendBufferContinuedMessage_wf m \<longleftrightarrow> sbc_command_code m = SendBufferContinued"

definition ReceiveBufferMessage_wf :: "ReceiveBufferMessage \<Rightarrow> bool" where
  "ReceiveBufferMessage_wf m \<longleftrightarrow> rbm_command_code m = ReceiveBuffer"

definition ReceiveBufferResponse_wf :: "ReceiveBufferResponse \<Rightarrow> bool" where
  "ReceiveBufferResponse_wf m \<longleftrightarrow> length (rbr_content m) \<le> unat (rbr_remaining_length m)"

definition GetCodePageHashes_wf :: "GetCodePageHashes \<Rightarrow> bool" where
  "GetCodePageHashes_wf m \<longleftrightarrow> gch_command_code m = GetCodePageHashesCode
     \<and> arrays32 (gch_prev_batch_enc_hmacs m)"

definition GetCodePageHashesResponse_wf :: "GetCodePageHashesResponse \<Rightarrow> bool" where
  "GetCodePageHashesResponse_wf m \<longleftrightarrow> arrays32 (ghr_code_page_hashes m)
     \<and> length (ghr_code_page_hashes m) = unat (ghr_n_code_pages m)"

section \<open>The interface \<open>Message\<close>\<close>

locale message_codec =
  fixes ser :: "'m \<Rightarrow> bytes"
    and des :: "bytes \<Rightarrow> (MessageDeserializationError, 'm) result option"
    and wf :: "'m \<Rightarrow> bool"
  assumes des_ser: "wf m \<Longrightarrow> des (ser m) = Some (Ok m)"
    and des_wf: "des bs = Some (Ok m) \<Longrightarrow> wf m"
begin

lemma ser_inject:
  assumes "wf m" "wf m'" "ser m = ser m'"
  shows "m = m'"
proof -
  have "des (ser m) = des (ser m')" using assms(3) by (rule arg_cong)
  then show ?thesis unfolding des_ser [OF assms(1)] des_ser [OF assms(2)] by simp
qed

text \<open>Reading and writing again gives bytes that are read as the same message.\<close>

lemma des_stable: "des bs = Some (Ok m) \<Longrightarrow> des (ser m) = Some (Ok m)"
  using des_wf des_ser by blast

end

locale canonical_codec = message_codec +
  assumes ser_des: "des bs = Some (Ok m) \<Longrightarrow> ser m = bs"
begin

text \<open>The accepted byte strings are exactly the encodings of the well-formed messages.\<close>

lemma des_iff: "des bs = Some (Ok m) \<longleftrightarrow> wf m \<and> bs = ser m"
  using des_ser des_wf ser_des by blast

lemma des_rejects: "(\<forall>m. wf m \<longrightarrow> bs \<noteq> ser m) \<longleftrightarrow> (\<forall>m. des bs \<noteq> Some (Ok m))"
  using des_iff by blast

end

lemma codecI:
  fixes wf :: "'m \<Rightarrow> bool"
  assumes "\<And>m. wf m \<Longrightarrow> des (ser m) = Ok m" "\<And>bs m. des bs = Ok m \<Longrightarrow> wf m"
  shows "message_codec ser (\<lambda>bs. Some (des bs)) wf"
  by (rule message_codec.intro) (use assms in simp_all)

lemma canonicalI:
  fixes wf :: "'m \<Rightarrow> bool"
  assumes "\<And>m. wf m \<Longrightarrow> des (ser m) = Ok m" "\<And>bs m. des bs = Ok m \<Longrightarrow> wf m \<and> ser m = bs"
  shows "canonical_codec ser (\<lambda>bs. Some (des bs)) wf"
proof (rule canonical_codec.intro)
  show "message_codec ser (\<lambda>bs. Some (des bs)) wf"
    by (rule codecI) (use assms in blast)+
  show "canonical_codec_axioms ser (\<lambda>bs. Some (des bs))"
    by (rule canonical_codec_axioms.intro) (use assms in simp)
qed

subsection \<open>Facts the interpretations share\<close>

lemma ClientCommandCode_try_from_iff [simp]:
  "ClientCommandCode_try_from b = Ok c \<longleftrightarrow> b = ClientCommandCode_as_u8 c"
  by (cases c) (auto simp: ClientCommandCode_try_from_def)

lemma SectionKind_try_from_iff [simp]:
  "SectionKind_try_from b = Ok k \<longleftrightarrow> b = SectionKind_as_u8 k"
  by (cases k) (auto simp: SectionKind_try_from_def)

lemma PageProofKind_try_from_iff [simp]:
  "PageProofKind_try_from b = Ok k \<longleftrightarrow> b = PageProofKind_as_u8 k"
  by (cases k) (auto simp: PageProofKind_try_from_def)

lemma BufferType_try_from_iff [simp]:
  "BufferType_try_from b = Ok k \<longleftrightarrow> b = BufferType_as_u8 k"
  by (cases k) (auto simp: BufferType_try_from_def)

lemma ClientCommandCode_as_u8_inject [simp]:
  "ClientCommandCode_as_u8 c = ClientCommandCode_as_u8 c' \<longleftrightarrow> c = c'"
  by (metis ClientCommandCode_try_from_iff Inr_inject)

lemma try_from_as_u8 [simp]:
  "ClientCommandCode_try_from (ClientCommandCode_as_u8 c) = Ok c"
  "SectionKind_try_from (SectionKind_as_u8 k) = Ok k"
  "PageProofKind_try_from (PageProofKind_as_u8 p) = Ok p"
  "BufferType_try_from (BufferType_as_u8 t) = Ok t"
  by simp_all

lemma expect_code_iff [simp]:
  "expect_code c b = Ok c' \<longleftrightarrow> c' = c \<and> b = ClientCommandCode_as_u8 c"
  unfolding expect_code_def by (auto simp: bindR_Ok_iff)

lemma expect_code_self [simp]: "expect_code c (ClientCommandCode_as_u8 c) = Ok c"
  by simp

lemma be_u32_at_be [simp]: "be_u32_at (u32_to_be_bytes w @ ys) 0 = w"
  by (simp add: be_u32_at_def u32_to_be_bytes_def)

lemma be_u32_at_Cons [simp]: "be_u32_at (x # xs) (Suc i) = be_u32_at xs i"
  by (simp add: be_u32_at_def add.commute)

lemma be_u32_at_numeral [simp]: "be_u32_at (x # xs) (numeral k) = be_u32_at xs (pred_numeral k)"
  by (simp add: numeral_eq_Suc)

lemma be_u32_bytes:
  "4 \<le> length data \<Longrightarrow> u32_to_be_bytes (be_u32_at data 0) = take 4 data"
proof -
  assume "4 \<le> length data"
  then obtain a b c d r where "data = a # b # c # d # r"
    by (auto simp: Suc_le_length_iff eval_nat_numeral)
  then show ?thesis by (simp add: be_u32_at_def u32_to_be_bytes_def)
qed

lemma arrays32_concat [simp]: "arrays32 xs \<Longrightarrow> length (concat xs) = length xs * 32"
  unfolding arrays32_def by (rule length_concat_uniform) auto

lemma arrays32_split [simp]: "arrays32 xs \<Longrightarrow> split_chunks 32 (length xs) (concat xs) = xs"
  unfolding arrays32_def by (rule split_chunks_concat) auto

lemma split_arrays32: "length bs mod 32 = 0 \<Longrightarrow> arrays32 (split_chunks 32 (length bs div 32) bs)"
proof -
  assume "length bs mod 32 = 0"
  then have "length bs = length bs div 32 * 32" by presburger
  then show ?thesis unfolding arrays32_def by (blast intro: split_chunks_width)
qed

lemma concat_split32: "length bs mod 32 = 0 \<Longrightarrow> concat (split_chunks 32 (length bs div 32) bs) = bs"
  by (rule concat_split_chunks) auto

lemmas wf_defs = nonce_wf_def GetPageMessage_wf_def GetPageResponse_wf_def
  GetPageProofContinuedMessage_wf_def GetPageProofContinuedResponse_wf_def CommitPageMessage_wf_def
  CommitPageProofResponse_wf_def CommitPageProofContinuedMessage_wf_def
  CommitPageProofContinuedResponse_wf_def SendBufferMessage_wf_def SendBufferContinuedMessage_wf_def
  ReceiveBufferMessage_wf_def ReceiveBufferResponse_wf_def GetCodePageHashes_wf_def
  GetCodePageHashesResponse_wf_def

lemmas ser_defs = GetPageMessage_serialize_def GetPageResponse_serialize_def
  GetPageProofContinuedMessage_serialize_def GetPageProofContinuedResponse_serialize_def
  CommitPageMessage_serialize_def CommitPageProofResponse_serialize_def
  CommitPageProofContinuedMessage_serialize_def CommitPageProofContinuedResponse_serialize_def
  SendBufferMessage_serialize_def SendBufferContinuedMessage_serialize_def
  ReceiveBufferMessage_serialize_def ReceiveBufferResponse_serialize_def
  GetCodePageHashes_serialize_def GetCodePageHashesResponse_serialize_def

lemmas des_defs = GetPageMessage_deserialize_def GetPageResponse_deserialize_def
  GetPageProofContinuedMessage_deserialize_def GetPageProofContinuedResponse_deserialize_def
  CommitPageMessage_deserialize_def CommitPageProofResponse_deserialize_def
  CommitPageProofContinuedMessage_deserialize_def CommitPageProofContinuedResponse_deserialize_def
  SendBufferMessage_deserialize_def SendBufferContinuedMessage_deserialize_def
  ReceiveBufferMessage_deserialize_def ReceiveBufferResponse_deserialize_def
  GetCodePageHashes_deserialize_def GetCodePageHashesResponse_deserialize_def

subsection \<open>Interpretations\<close>

interpretation get_page: canonical_codec GetPageMessage_serialize "\<lambda>bs. Some (GetPageMessage_deserialize bs)" GetPageMessage_wf
proof (rule canonicalI)
  show "GetPageMessage_deserialize (GetPageMessage_serialize m) = Ok m" if "GetPageMessage_wf m" for m
    using that be_u32_at_be [of "gpm_page_index m" "[]"]
    by (simp add: wf_defs ser_defs des_defs bindR_Ok_iff)
  show "GetPageMessage_wf m \<and> GetPageMessage_serialize m = bs" if "GetPageMessage_deserialize bs = Ok m" for bs m
  proof -
    from that have "length bs = 6" by (simp add: des_defs split: if_splits)
    then obtain a b r where "bs = a # b # r" "length r = 4"
      by (auto simp: length_Suc_conv eval_nat_numeral)
    with that show ?thesis
      by (auto simp: wf_defs ser_defs des_defs bindR_Ok_iff be_u32_bytes split: if_splits)
  qed
qed

interpretation get_page_continued: canonical_codec GetPageProofContinuedMessage_serialize
  "\<lambda>bs. Some (GetPageProofContinuedMessage_deserialize bs)" GetPageProofContinuedMessage_wf
  by (rule canonicalI) (auto simp: wf_defs ser_defs des_defs bindR_Ok_iff length_Suc_conv split: if_splits)

interpretation commit_continued: canonical_codec CommitPageProofContinuedMessage_serialize
  "\<lambda>bs. Some (CommitPageProofContinuedMessage_deserialize bs)" CommitPageProofContinuedMessage_wf
  by (rule canonicalI) (auto simp: wf_defs ser_defs des_defs bindR_Ok_iff length_Suc_conv split: if_splits)

interpretation receive_buffer: canonical_codec ReceiveBufferMessage_serialize
  "\<lambda>bs. Some (ReceiveBufferMessage_deserialize bs)" ReceiveBufferMessage_wf
  by (rule canonicalI) (auto simp: wf_defs ser_defs des_defs bindR_Ok_iff length_Suc_conv split: if_splits)

interpretation send_buffer_continued: canonical_codec SendBufferContinuedMessage_serialize
  "\<lambda>bs. Some (SendBufferContinuedMessage_deserialize bs)" SendBufferContinuedMessage_wf
  by (rule canonicalI)
    (auto simp: wf_defs ser_defs des_defs bindR_Ok_iff neq_Nil_conv split: if_splits)

interpretation get_page_continued_response: canonical_codec GetPageProofContinuedResponse_serialize
  "\<lambda>bs. Some (GetPageProofContinuedResponse_deserialize bs)" GetPageProofContinuedResponse_wf
proof (rule canonicalI)
  show "GetPageProofContinuedResponse_deserialize (GetPageProofContinuedResponse_serialize m) = Ok m"
    if "GetPageProofContinuedResponse_wf m" for m
    using that by (simp add: wf_defs ser_defs des_defs)
  show "GetPageProofContinuedResponse_wf m \<and> GetPageProofContinuedResponse_serialize m = bs"
    if "GetPageProofContinuedResponse_deserialize bs = Ok m" for bs m
    using that by (cases bs)
      (auto simp: wf_defs ser_defs des_defs Let_def split_arrays32 concat_split32 split: if_splits)
qed

interpretation commit_continued_response: canonical_codec CommitPageProofContinuedResponse_serialize
  "\<lambda>bs. Some (CommitPageProofContinuedResponse_deserialize bs)" CommitPageProofContinuedResponse_wf
proof (rule canonicalI)
  show "CommitPageProofContinuedResponse_deserialize (CommitPageProofContinuedResponse_serialize m) = Ok m"
    if "CommitPageProofContinuedResponse_wf m" for m
    using that by (simp add: wf_defs ser_defs des_defs)
  show "CommitPageProofContinuedResponse_wf m \<and> CommitPageProofContinuedResponse_serialize m = bs"
    if "CommitPageProofContinuedResponse_deserialize bs = Ok m" for bs m
    using that by (cases bs)
      (auto simp: wf_defs ser_defs des_defs Let_def split_arrays32 concat_split32 split: if_splits)
qed

interpretation commit_response: canonical_codec CommitPageProofResponse_serialize
  "\<lambda>bs. Some (CommitPageProofResponse_deserialize bs)" CommitPageProofResponse_wf
proof (rule canonicalI)
  show "CommitPageProofResponse_deserialize (CommitPageProofResponse_serialize m) = Ok m"
    if "CommitPageProofResponse_wf m" for m
    using that by (simp add: wf_defs ser_defs des_defs Let_def)
  show "CommitPageProofResponse_wf m \<and> CommitPageProofResponse_serialize m = bs"
    if *: "CommitPageProofResponse_deserialize bs = Ok m" for bs m
  proof -
    from * have "34 \<le> length bs" by (simp add: des_defs split: if_splits)
    then obtain a b r where bs: "bs = a # b # r" and "32 \<le> length r"
      by (cases bs; cases "tl bs") auto
    with * have "length (drop 32 r) mod 32 = 0"
      by (simp add: des_defs Let_def bs split: if_splits)
    with * show ?thesis
      using split_arrays32 [of "drop 32 r"] concat_split32 [of "drop 32 r"] \<open>32 \<le> length r\<close>
      by (auto simp: wf_defs ser_defs des_defs Let_def bs split: if_splits)
  qed
qed

interpretation send_buffer: canonical_codec SendBufferMessage_serialize
  SendBufferMessage_deserialize SendBufferMessage_wf
proof
  show "SendBufferMessage_deserialize (SendBufferMessage_serialize m) = Some (Ok m)"
    if "SendBufferMessage_wf m" for m
    using that by (simp add: wf_defs ser_defs des_defs Let_def bindR_Ok_iff)
  have *: "SendBufferMessage_wf m \<and> SendBufferMessage_serialize m = bs"
    if *: "SendBufferMessage_deserialize bs = Some (Ok m)" for bs m
  proof -
    from * have "6 \<le> length bs" by (auto simp: des_defs bindR_Ok_iff split: if_splits)
    then obtain a b r where bs: "bs = a # b # r" and "4 \<le> length r"
      by (cases bs; cases "tl bs") auto
    with * show ?thesis
      by (auto simp: wf_defs ser_defs des_defs Let_def bindR_Ok_iff be_u32_bytes split: if_splits)
  qed
  show "SendBufferMessage_wf m" if "SendBufferMessage_deserialize bs = Some (Ok m)" for bs m
    using * that by blast
  show "SendBufferMessage_serialize m = bs" if "SendBufferMessage_deserialize bs = Some (Ok m)" for bs m
    using * that by blast
qed

interpretation receive_buffer_response: canonical_codec ReceiveBufferResponse_serialize
  "\<lambda>bs. Some (ReceiveBufferResponse_deserialize bs)" ReceiveBufferResponse_wf
proof (rule canonicalI)
  show "ReceiveBufferResponse_deserialize (ReceiveBufferResponse_serialize m) = Ok m"
    if "ReceiveBufferResponse_wf m" for m
    using that by (simp add: wf_defs ser_defs des_defs Let_def)
  show "ReceiveBufferResponse_wf m \<and> ReceiveBufferResponse_serialize m = bs"
    if "ReceiveBufferResponse_deserialize bs = Ok m" for bs m
    using that by (auto simp: wf_defs ser_defs des_defs Let_def be_u32_bytes split: if_splits)
qed

interpretation get_code_hashes: canonical_codec GetCodePageHashes_serialize
  "\<lambda>bs. Some (GetCodePageHashes_deserialize bs)" GetCodePageHashes_wf
proof (rule canonicalI)
  show "GetCodePageHashes_deserialize (GetCodePageHashes_serialize m) = Ok m"
    if "GetCodePageHashes_wf m" for m
    using that by (simp add: wf_defs ser_defs des_defs Let_def bindR_Ok_iff)
  show "GetCodePageHashes_wf m \<and> GetCodePageHashes_serialize m = bs"
    if *: "GetCodePageHashes_deserialize bs = Ok m" for bs m
  proof -
    from * have "5 \<le> length bs" by (simp add: des_defs split: if_splits)
    then obtain a r where bs: "bs = a # r" and "4 \<le> length r" by (cases bs) auto
    with * have "length (drop 4 r) mod 32 = 0"
      by (simp add: des_defs Let_def bindR_Ok_iff bs split: if_splits)
    with * show ?thesis
      using split_arrays32 [of "drop 4 r"] concat_split32 [of "drop 4 r"] \<open>4 \<le> length r\<close>
      by (auto simp: wf_defs ser_defs des_defs Let_def bs bindR_Ok_iff be_u32_bytes split: if_splits)
  qed
qed

interpretation get_code_hashes_response: canonical_codec GetCodePageHashesResponse_serialize
  "\<lambda>bs. Some (GetCodePageHashesResponse_deserialize bs)" GetCodePageHashesResponse_wf
proof (rule canonicalI)
  show "GetCodePageHashesResponse_deserialize (GetCodePageHashesResponse_serialize m) = Ok m"
    if "GetCodePageHashesResponse_wf m" for m
    using that arrays32_split [of "ghr_code_page_hashes m"] by (simp add: wf_defs ser_defs des_defs Let_def)
  show "GetCodePageHashesResponse_wf m \<and> GetCodePageHashesResponse_serialize m = bs"
    if *: "GetCodePageHashesResponse_deserialize bs = Ok m" for bs m
  proof -
    from * have 4: "4 \<le> length bs" by (simp add: des_defs split: if_splits)
    with * have "length (drop 4 bs) mod 32 = 0" by (simp add: des_defs Let_def split: if_splits)
    with * 4 show ?thesis
      using split_arrays32 [of "drop 4 bs"] concat_split32 [of "drop 4 bs"]
      by (auto simp: wf_defs ser_defs des_defs Let_def be_u32_bytes split: if_splits)
  qed
qed

text \<open>The two messages with a nonce: not canonical, since the nonce bytes of an unencrypted page
  and the value of a flag other than 1 are ignored.\<close>

lemma GetPageResponse_read:
  assumes "GetPageResponse_wf m"
  shows "GetPageResponse_deserialize (GetPageResponse_serialize m) = Ok m"
  using assms arrays32_split [of "gpr_proof m"]
  by (cases m; cases "gpr_is_encrypted m")
    (simp_all add: wf_defs ser_defs des_defs Let_def bindR_Ok_iff PAGE_SIZE_def nth_append bool_as_u8_def)

lemma GetPageResponse_accepted:
  assumes "GetPageResponse_deserialize bs = Ok m"
  shows "GetPageResponse_wf m"
proof -
  from assms have "272 \<le> length bs" "length (drop 272 bs) mod 32 = 0"
    by (auto simp: des_defs PAGE_SIZE_def Let_def bindR_Ok_iff split: if_splits)
  then show ?thesis
    using assms split_arrays32 [of "drop 272 bs"]
    by (auto simp: wf_defs des_defs PAGE_SIZE_def Let_def bindR_Ok_iff split: if_splits)
qed

interpretation get_page_response: message_codec GetPageResponse_serialize
  "\<lambda>bs. Some (GetPageResponse_deserialize bs)" GetPageResponse_wf
  by (rule codecI) (use GetPageResponse_read GetPageResponse_accepted in blast)+

lemma CommitPageMessage_read:
  assumes "CommitPageMessage_wf m"
  shows "CommitPageMessage_deserialize (CommitPageMessage_serialize m) = Ok m"
  using assms
  by (cases m; cases "cpm_is_encrypted m")
    (simp_all add: wf_defs ser_defs des_defs Let_def bindR_Ok_iff PAGE_SIZE_def nth_append)

lemma CommitPageMessage_accepted:
  assumes "CommitPageMessage_deserialize bs = Ok m"
  shows "CommitPageMessage_wf m"
  using assms by (auto simp: wf_defs des_defs PAGE_SIZE_def Let_def bindR_Ok_iff split: if_splits)

interpretation commit_page: message_codec CommitPageMessage_serialize
  "\<lambda>bs. Some (CommitPageMessage_deserialize bs)" CommitPageMessage_wf
  by (rule codecI) (use CommitPageMessage_read CommitPageMessage_accepted in blast)+

section \<open>Properties\<close>

lemmas new_defs = GetPageMessage_new_def GetPageResponse_new_def GetPageProofContinuedMessage_new_def
  GetPageProofContinuedResponse_new_def CommitPageMessage_new_def CommitPageProofResponse_new_def
  CommitPageProofContinuedMessage_new_def CommitPageProofContinuedResponse_new_def
  SendBufferMessage_new_def SendBufferContinuedMessage_new_def ReceiveBufferMessage_new_def
  ReceiveBufferResponse_new_def GetCodePageHashes_new_def GetCodePageHashesResponse_new_def

lemma reads: 
  "GetPageMessage_wf m1 \<Longrightarrow> GetPageMessage_deserialize (GetPageMessage_serialize m1) = Ok m1"
  "GetPageProofContinuedMessage_wf m2 \<Longrightarrow>
     GetPageProofContinuedMessage_deserialize (GetPageProofContinuedMessage_serialize m2) = Ok m2"
  "CommitPageProofContinuedMessage_wf m3 \<Longrightarrow>
     CommitPageProofContinuedMessage_deserialize (CommitPageProofContinuedMessage_serialize m3) = Ok m3"
  "SendBufferMessage_wf m4 \<Longrightarrow> SendBufferMessage_deserialize (SendBufferMessage_serialize m4) = Some (Ok m4)"
  "SendBufferContinuedMessage_wf m5 \<Longrightarrow>
     SendBufferContinuedMessage_deserialize (SendBufferContinuedMessage_serialize m5) = Ok m5"
  "ReceiveBufferMessage_wf m6 \<Longrightarrow> ReceiveBufferMessage_deserialize (ReceiveBufferMessage_serialize m6) = Ok m6"
  "GetCodePageHashes_wf m7 \<Longrightarrow> GetCodePageHashes_deserialize (GetCodePageHashes_serialize m7) = Ok m7"
  "GetPageProofContinuedResponse_wf m8 \<Longrightarrow>
     GetPageProofContinuedResponse_deserialize (GetPageProofContinuedResponse_serialize m8) = Ok m8"
  "CommitPageProofResponse_wf m9 \<Longrightarrow>
     CommitPageProofResponse_deserialize (CommitPageProofResponse_serialize m9) = Ok m9"
  "CommitPageProofContinuedResponse_wf m10 \<Longrightarrow>
     CommitPageProofContinuedResponse_deserialize (CommitPageProofContinuedResponse_serialize m10) = Ok m10"
  "ReceiveBufferResponse_wf m11 \<Longrightarrow> ReceiveBufferResponse_deserialize (ReceiveBufferResponse_serialize m11) = Ok m11"
  "GetCodePageHashesResponse_wf m12 \<Longrightarrow>
     GetCodePageHashesResponse_deserialize (GetCodePageHashesResponse_serialize m12) = Ok m12"
  using get_page.des_ser get_page_continued.des_ser commit_continued.des_ser send_buffer.des_ser
    send_buffer_continued.des_ser receive_buffer.des_ser get_code_hashes.des_ser
    get_page_continued_response.des_ser commit_response.des_ser commit_continued_response.des_ser
    receive_buffer_response.des_ser get_code_hashes_response.des_ser
  by simp_all

text \<open>
  C22: (messages of the VM) Every message the VM builds with \<open>new\<close> is read back by the host's
  deserializer as the message that was sent: page requests and commits, proof continuations, buffer
  chunks and code hash requests. The array arguments have the lengths of their Rust types, the nonce
  of an unencrypted page is zero, and \<open>SendBufferMessage::new\<close> did not panic.
\<close>

theorem vm_messages_roundtrip:
  assumes "nonce_wf enc nonce" "length page = PAGE_SIZE" "arrays32 hmacs"
    and "SendBufferMessage_new total_size btype chunk = Some sbm"
  shows "GetPageMessage_deserialize (GetPageMessage_serialize (GetPageMessage_new kind i))
           = Ok (GetPageMessage_new kind i)
    \<and> CommitPageMessage_deserialize (CommitPageMessage_serialize (CommitPageMessage_new kind i enc nonce page))
           = Ok (CommitPageMessage_new kind i enc nonce page)
    \<and> GetPageProofContinuedMessage_deserialize
           (GetPageProofContinuedMessage_serialize GetPageProofContinuedMessage_new)
           = Ok GetPageProofContinuedMessage_new
    \<and> CommitPageProofContinuedMessage_deserialize
           (CommitPageProofContinuedMessage_serialize CommitPageProofContinuedMessage_new)
           = Ok CommitPageProofContinuedMessage_new
    \<and> SendBufferMessage_deserialize (SendBufferMessage_serialize sbm) = Some (Ok sbm)
    \<and> SendBufferContinuedMessage_deserialize
           (SendBufferContinuedMessage_serialize (SendBufferContinuedMessage_new content))
           = Ok (SendBufferContinuedMessage_new content)
    \<and> ReceiveBufferMessage_deserialize (ReceiveBufferMessage_serialize ReceiveBufferMessage_new)
           = Ok ReceiveBufferMessage_new
    \<and> GetCodePageHashes_deserialize (GetCodePageHashes_serialize (GetCodePageHashes_new np hmacs))
           = Ok (GetCodePageHashes_new np hmacs)"
  using assms
  by (intro conjI; intro reads CommitPageMessage_read) (auto simp: new_defs wf_defs split: if_splits)

theorem vm_messages_roundtrip_witness:
  "nonce_wf True [1, 2, 3, 4, 5, 6, 7, 8, 9, 10, 11, 12]
   \<and> CommitPageMessage_deserialize (CommitPageMessage_serialize
       (CommitPageMessage_new Data 7 True [1, 2, 3, 4, 5, 6, 7, 8, 9, 10, 11, 12] (replicate 256 9)))
     = Ok (CommitPageMessage_new Data 7 True [1, 2, 3, 4, 5, 6, 7, 8, 9, 10, 11, 12] (replicate 256 9))
   \<and> SendBufferMessage_new 3 Print [104, 105]
       = Some \<lparr>sbm_command_code = SendBuffer, sbm_buffer_type = Print, sbm_total_size = 3, sbm_data = [104, 105]\<rparr>"
proof (intro conjI)
  show nonce: "nonce_wf True [1, 2, 3, 4, 5, 6, 7, 8, 9, 10, 11, 12]" by (simp add: nonce_wf_def)
  show new: "SendBufferMessage_new 3 Print [104, 105]
      = Some \<lparr>sbm_command_code = SendBuffer, sbm_buffer_type = Print, sbm_total_size = 3, sbm_data = [104, 105]\<rparr>"
    by (simp add: SendBufferMessage_new_def)
  show "CommitPageMessage_deserialize (CommitPageMessage_serialize
       (CommitPageMessage_new Data 7 True [1, 2, 3, 4, 5, 6, 7, 8, 9, 10, 11, 12] (replicate 256 9)))
     = Ok (CommitPageMessage_new Data 7 True [1, 2, 3, 4, 5, 6, 7, 8, 9, 10, 11, 12] (replicate 256 9))"
    using vm_messages_roundtrip [OF nonce, of "replicate 256 9" "[]", OF _ _ new]
    by (simp add: PAGE_SIZE_def arrays32_def)
qed

text \<open>
  C23: (responses of the host) Every response the host builds with \<open>new\<close> is read back by the VM as
  the response that was sent, provided its counts agree with its arrays: \<open>t\<close> with the proof elements
  of a page response, the number of code pages with the hashes, the remaining length with the chunk.
\<close>

theorem host_responses_roundtrip:
  assumes "nonce_wf enc nonce" "length page = PAGE_SIZE" "arrays32 elems" "length elems = unat t"
    and "length root = 32" "length content \<le> unat remaining" "length elems = unat np"
  shows "GetPageResponse_deserialize (GetPageResponse_serialize (GetPageResponse_new page enc nonce n t pk elems))
           = Ok (GetPageResponse_new page enc nonce n t pk elems)
    \<and> GetPageProofContinuedResponse_deserialize
           (GetPageProofContinuedResponse_serialize (GetPageProofContinuedResponse_new t elems))
           = Ok (GetPageProofContinuedResponse_new t elems)
    \<and> CommitPageProofResponse_deserialize
           (CommitPageProofResponse_serialize (CommitPageProofResponse_new n t root elems))
           = Ok (CommitPageProofResponse_new n t root elems)
    \<and> CommitPageProofContinuedResponse_deserialize
           (CommitPageProofContinuedResponse_serialize (CommitPageProofContinuedResponse_new t elems))
           = Ok (CommitPageProofContinuedResponse_new t elems)
    \<and> ReceiveBufferResponse_deserialize
           (ReceiveBufferResponse_serialize (ReceiveBufferResponse_new remaining content))
           = Ok (ReceiveBufferResponse_new remaining content)
    \<and> GetCodePageHashesResponse_deserialize
           (GetCodePageHashesResponse_serialize (GetCodePageHashesResponse_new np elems))
           = Ok (GetCodePageHashesResponse_new np elems)"
  using assms
  by (intro conjI; intro reads GetPageResponse_read) (auto simp: new_defs wf_defs)

theorem host_responses_roundtrip_witness:
  "GetPageResponse_deserialize (GetPageResponse_serialize
       (GetPageResponse_new (replicate 256 3) False (replicate 12 0) 5 2 Merkle [replicate 32 1, replicate 32 2]))
     = Ok (GetPageResponse_new (replicate 256 3) False (replicate 12 0) 5 2 Merkle [replicate 32 1, replicate 32 2])
   \<and> nonce_wf False (replicate 12 0) \<and> arrays32 [replicate 32 1, replicate 32 2]"
  using host_responses_roundtrip [of False "replicate 12 0" "replicate 256 3"
      "[replicate 32 1, replicate 32 2]" 2 "replicate 32 0" "[]" 0 2 5 Merkle]
  by (simp add: nonce_wf_def arrays32_def PAGE_SIZE_def)

text \<open>
  C24: (canonical encodings) For the twelve messages without a nonce the encoding is canonical: a byte
  string is accepted as a message exactly when the message is well formed and the bytes are its
  encoding, so every other byte string is refused, and no two byte strings mean the same message.
\<close>

theorem messages_canonical:
  "(GetPageMessage_deserialize bs = Ok m1 \<longleftrightarrow> GetPageMessage_wf m1 \<and> bs = GetPageMessage_serialize m1)
   \<and> (GetPageProofContinuedMessage_deserialize bs = Ok m2 \<longleftrightarrow>
     GetPageProofContinuedMessage_wf m2 \<and> bs = GetPageProofContinuedMessage_serialize m2)
   \<and> (GetPageProofContinuedResponse_deserialize bs = Ok m3 \<longleftrightarrow>
     GetPageProofContinuedResponse_wf m3 \<and> bs = GetPageProofContinuedResponse_serialize m3)
   \<and> (CommitPageProofResponse_deserialize bs = Ok m4 \<longleftrightarrow>
     CommitPageProofResponse_wf m4 \<and> bs = CommitPageProofResponse_serialize m4)
   \<and> (CommitPageProofContinuedMessage_deserialize bs = Ok m5 \<longleftrightarrow>
     CommitPageProofContinuedMessage_wf m5 \<and> bs = CommitPageProofContinuedMessage_serialize m5)
   \<and> (CommitPageProofContinuedResponse_deserialize bs = Ok m6 \<longleftrightarrow>
     CommitPageProofContinuedResponse_wf m6 \<and> bs = CommitPageProofContinuedResponse_serialize m6)
   \<and> (SendBufferMessage_deserialize bs = Some (Ok m7) \<longleftrightarrow> SendBufferMessage_wf m7 \<and> bs = SendBufferMessage_serialize m7)
   \<and> (SendBufferContinuedMessage_deserialize bs = Ok m8 \<longleftrightarrow>
     SendBufferContinuedMessage_wf m8 \<and> bs = SendBufferContinuedMessage_serialize m8)
   \<and> (ReceiveBufferMessage_deserialize bs = Ok m9 \<longleftrightarrow> ReceiveBufferMessage_wf m9 \<and> bs = ReceiveBufferMessage_serialize m9)
   \<and> (ReceiveBufferResponse_deserialize bs = Ok m10 \<longleftrightarrow>
     ReceiveBufferResponse_wf m10 \<and> bs = ReceiveBufferResponse_serialize m10)
   \<and> (GetCodePageHashes_deserialize bs = Ok m11 \<longleftrightarrow> GetCodePageHashes_wf m11 \<and> bs = GetCodePageHashes_serialize m11)
   \<and> (GetCodePageHashesResponse_deserialize bs = Ok m12 \<longleftrightarrow>
     GetCodePageHashesResponse_wf m12 \<and> bs = GetCodePageHashesResponse_serialize m12)"
  using get_page.des_iff get_page_continued.des_iff get_page_continued_response.des_iff
    commit_response.des_iff commit_continued.des_iff commit_continued_response.des_iff
    send_buffer.des_iff send_buffer_continued.des_iff receive_buffer.des_iff
    receive_buffer_response.des_iff get_code_hashes.des_iff get_code_hashes_response.des_iff
  by simp_all

text \<open>
  (chunk sizes) The announced maxima are exactly what an APDU of 590 bytes holds: a response or
  message with that many proof elements, hashes or data bytes fits, and one with one more does not.
\<close>

theorem messages_fit_apdu:
  assumes "GetPageResponse_wf m1" "GetPageProofContinuedResponse_wf m2" "CommitPageProofResponse_wf m3"
    and "CommitPageProofContinuedResponse_wf m4" "GetCodePageHashes_wf m5" "GetCodePageHashesResponse_wf m6"
  shows "(length (GetPageResponse_serialize m1) \<le> MAX_APDU_DATA_SIZE
           \<longleftrightarrow> length (gpr_proof m1) \<le> GetPageResponse_max_proof_size)
    \<and> (length (GetPageProofContinuedResponse_serialize m2) \<le> MAX_APDU_DATA_SIZE
           \<longleftrightarrow> length (gcr_proof m2) \<le> GetPageProofContinuedResponse_max_proof_size)
    \<and> (length (CommitPageProofResponse_serialize m3) \<le> MAX_APDU_DATA_SIZE
           \<longleftrightarrow> length (cpr_proof m3) \<le> CommitPageProofResponse_max_proof_size)
    \<and> (length (CommitPageProofContinuedResponse_serialize m4) \<le> MAX_APDU_DATA_SIZE
           \<longleftrightarrow> length (ccr_proof m4) \<le> CommitPageProofContinuedResponse_max_proof_size)
    \<and> (length (GetCodePageHashes_serialize m5) \<le> MAX_APDU_DATA_SIZE
           \<longleftrightarrow> length (gch_prev_batch_enc_hmacs m5) \<le> GetCodePageHashes_max_hashes)
    \<and> (length (GetCodePageHashesResponse_serialize m6) \<le> MAX_APDU_DATA_SIZE
           \<longleftrightarrow> length (ghr_code_page_hashes m6) \<le> GetCodePageHashesResponse_max_hashes)
    \<and> (length (SendBufferMessage_serialize m7) \<le> MAX_APDU_DATA_SIZE
           \<longleftrightarrow> length (sbm_data m7) \<le> SendBufferMessage_max_data_size)
    \<and> (length (SendBufferContinuedMessage_serialize m8) \<le> MAX_APDU_DATA_SIZE
           \<longleftrightarrow> length (sbc_data m8) \<le> SendBufferContinuedMessage_max_data_size)
    \<and> (length (ReceiveBufferResponse_serialize m9) \<le> MAX_APDU_DATA_SIZE
           \<longleftrightarrow> length (rbr_content m9) \<le> ReceiveBufferResponse_max_chunk_size)"
  using assms
  by (auto simp: ser_defs wf_defs MAX_APDU_DATA_SIZE_def GetPageResponse_max_proof_size_def
      GetPageProofContinuedResponse_max_proof_size_def CommitPageProofResponse_max_proof_size_def
      CommitPageProofContinuedResponse_max_proof_size_def GetCodePageHashes_max_hashes_def
      GetCodePageHashesResponse_max_hashes_def SendBufferMessage_max_data_size_def
      SendBufferContinuedMessage_max_data_size_def ReceiveBufferResponse_max_chunk_size_def PAGE_SIZE_def)

theorem messages_fit_apdu_witness:
  "let m1 = GetPageResponse_new (replicate 256 3) False (replicate 12 0) 9 9 Merkle (replicate 9 (replicate 32 1));
       m2 = GetPageProofContinuedResponse_new 19 (replicate 19 (replicate 32 1))
   in GetPageResponse_wf m1 \<and> length (GetPageResponse_serialize m1) \<le> MAX_APDU_DATA_SIZE
      \<and> \<not> length (GetPageProofContinuedResponse_serialize m2) \<le> MAX_APDU_DATA_SIZE"
proof -
  let ?m1 = "GetPageResponse_new (replicate 256 3) False (replicate 12 0) 9 9 Merkle (replicate 9 (replicate 32 1))"
  let ?m2 = "GetPageProofContinuedResponse_new 19 (replicate 19 (replicate 32 1))"
  have wf: "GetPageResponse_wf ?m1" "GetPageProofContinuedResponse_wf ?m2"
    "CommitPageProofResponse_wf (CommitPageProofResponse_new 0 0 (replicate 32 0) [])"
    "CommitPageProofContinuedResponse_wf (CommitPageProofContinuedResponse_new 0 [])"
    "GetCodePageHashes_wf (GetCodePageHashes_new 0 [])"
    "GetCodePageHashesResponse_wf (GetCodePageHashesResponse_new 0 [])"
    by (simp_all add: wf_defs new_defs arrays32_def PAGE_SIZE_def)
  have "length (gpr_proof ?m1) \<le> GetPageResponse_max_proof_size"
    "\<not> length (gcr_proof ?m2) \<le> GetPageProofContinuedResponse_max_proof_size"
    by (simp_all add: new_defs GetPageResponse_max_proof_size_def
        GetPageProofContinuedResponse_max_proof_size_def MAX_APDU_DATA_SIZE_def PAGE_SIZE_def)
  then show ?thesis
    unfolding Let_def using messages_fit_apdu [OF wf] wf(1) by simp
qed

text \<open>
  What the host does with bytes that are not a \<open>SendBufferMessage\<close>,
  case by case: it panics on an empty message, which it indexes before checking the length, reports an
  unknown command code and a wrong one (or a short message) differently, then an unknown buffer type,
  and finally a chunk longer than the announced total size.
\<close>

theorem send_buffer_errors:
  "SendBufferMessage_deserialize [] = None \<and>
   SendBufferMessage_deserialize (b # bs) =
     Some (if 7 < b then Err InvalidClientCommandCode
           else if \<not> (b = 4 \<and> 5 \<le> length bs) then Err MismatchingClientCommandCode
           else if 2 < bs ! 0 then Err InvalidBufferType
           else if unat (be_u32_at bs 1) < length bs - 5 then Err InvalidDataLength
           else Ok \<lparr>sbm_command_code = SendBuffer,
                   sbm_buffer_type = (if bs ! 0 = 0 then VAppMessage else if bs ! 0 = 1 then Panic else Print),
                   sbm_total_size = be_u32_at bs 1, sbm_data = drop 5 bs\<rparr>)"
proof -
  have b: "b \<in> {0, 1, 2, 3, 4, 5, 6, 7}" if "\<not> 7 < b"
  proof -
    from that have "unat b \<le> 7" by (simp add: word_le_nat_alt not_less)
    then have "unat b \<in> {0, 1, 2, 3, 4, 5, 6, 7}" by (simp, presburger)
    then show ?thesis by (simp add: word_unat_eq_iff)
  qed
  have t: "c \<in> {0, 1, 2}" if "\<not> 2 < c" for c :: u8
  proof -
    from that have "unat c \<le> 2" by (simp add: word_le_nat_alt not_less)
    then have "unat c \<in> {0, 1, 2}" by (simp, presburger)
    then show ?thesis by (simp add: word_unat_eq_iff)
  qed
  have "SendBufferMessage_deserialize (b # bs) =
     Some (if 7 < b then Err InvalidClientCommandCode
           else if \<not> (b = 4 \<and> 5 \<le> length bs) then Err MismatchingClientCommandCode
           else if 2 < bs ! 0 then Err InvalidBufferType
           else if unat (be_u32_at bs 1) < length bs - 5 then Err InvalidDataLength
           else Ok \<lparr>sbm_command_code = SendBuffer,
                   sbm_buffer_type = (if bs ! 0 = 0 then VAppMessage else if bs ! 0 = 1 then Panic else Print),
                   sbm_total_size = be_u32_at bs 1, sbm_data = drop 5 bs\<rparr>)"
    using b t [of "bs ! 0"]
    by (auto simp: SendBufferMessage_deserialize_def ClientCommandCode_try_from_def
        BufferType_try_from_def Let_def)
  then show ?thesis by (simp add: SendBufferMessage_deserialize_def)
qed

end
