(* ===== verification/Aes.thy ===== *)
theory Aes
  imports Prelude
begin

text \<open>
  AES in counter mode as the VM uses it to encrypt the pages it sends to the host
  (\<open>vm/src/aes.rs\<close>). The block cipher is code of the device's SDK: it is the parameter \<open>cx_enc\<close>
  (\<open>cx_aes_enc_block\<close>), which maps a key and a 16-byte block to 16 bytes or fails; the key schedule
  and the random generator are parameters as well. Everything built on it is modelled: the big-endian
  increment, the counter blocks, the keystream loop over 16-byte chunks, and the nonce that is
  advanced by every encryption.
\<close>

section \<open>Definitions\<close>

datatype AesError = KeyInitFailed | InvalidInputLength | EncryptionFailed

type_synonym 'k block_cipher = "'k \<Rightarrow> bytes \<Rightarrow> bytes option"

text \<open>
  \<open>AesKey::new_random\<close>: \<open>random_bytes\<close> is the outcome of \<open>cx_get_random_bytes\<close> on 16 bytes and
  \<open>init_key\<close> stands for \<open>cx_aes_init_key_no_throw\<close>.
\<close>

definition AesKey_new_random :: "bytes option \<Rightarrow> (bytes \<Rightarrow> 'k option) \<Rightarrow> (AesError, 'k) result" where
  "AesKey_new_random random_bytes init_key =
     (case random_bytes of None \<Rightarrow> Err KeyInitFailed
      | Some key_data \<Rightarrow> (case init_key key_data of None \<Rightarrow> Err KeyInitFailed | Some key \<Rightarrow> Ok key))"

definition encrypt_block :: "'k block_cipher \<Rightarrow> 'k \<Rightarrow> bytes \<Rightarrow> (AesError, bytes) result" where
  "encrypt_block cx_enc key input =
     (if length input \<noteq> 16 then Err InvalidInputLength
      else case cx_enc key input of None \<Rightarrow> Err EncryptionFailed | Some output \<Rightarrow> Ok output)"

record 'k AesCtr =
  aes_key :: 'k
  aes_nonce :: bytes

definition AesCtr_new :: "'k \<Rightarrow> 'k AesCtr" where
  "AesCtr_new key = \<lparr>aes_key = key, aes_nonce = replicate 12 0\<rparr>"

text \<open>The loop of \<open>increment_be_slice\<close> runs from the last byte down: here, from the head of the
  reversed slice.\<close>

fun increment_loop :: "bytes \<Rightarrow> bytes" where
  "increment_loop [] = []"
| "increment_loop (b # bs) = (let c = b + 1 in if c \<noteq> 0 then c # bs else c # increment_loop bs)"

definition increment_be_slice :: "bytes \<Rightarrow> bytes" where
  "increment_be_slice counter = rev (increment_loop (rev counter))"

function process_loop :: "'k block_cipher \<Rightarrow> 'k \<Rightarrow> bytes \<Rightarrow> bytes \<Rightarrow> (AesError, bytes) result" where
  "process_loop cx_enc key [] counter = Ok []"
| "process_loop cx_enc key (b # input) counter =
     bindR (encrypt_block cx_enc key counter) (\<lambda>keystream.
     bindR (process_loop cx_enc key (drop 16 (b # input)) (increment_be_slice counter)) (\<lambda>output.
       Ok (map2 (XOR) (take 16 (b # input)) keystream @ output)))"
  by pat_completeness auto
termination by (relation "measure (\<lambda>(cx_enc, key, input, counter). length input)") auto

definition process_with_counter ::
  "'k block_cipher \<Rightarrow> 'k AesCtr \<Rightarrow> bytes \<Rightarrow> bytes \<Rightarrow> (AesError, bytes) result" where
  "process_with_counter cx_enc ctr input counter =
     (if input = [] then Ok [] else process_loop cx_enc (aes_key ctr) input counter)"

definition create_counter_block :: "bytes \<Rightarrow> u32 \<Rightarrow> bytes" where
  "create_counter_block nonce initial_counter = nonce @ u32_to_be_bytes initial_counter"

definition encrypt_with_initial_counter ::
  "'k block_cipher \<Rightarrow> bytes \<Rightarrow> u32 \<Rightarrow> ('k AesCtr, AesError, bytes \<times> bytes) stm" where
  "encrypt_with_initial_counter cx_enc plaintext initial_counter ctr =
     (let nonce = aes_nonce ctr;
          ctr' = ctr\<lparr>aes_nonce := increment_be_slice (aes_nonce ctr)\<rparr>;
          counter_block = create_counter_block nonce initial_counter
      in (ctr', bindR (process_with_counter cx_enc ctr' plaintext counter_block)
                  (\<lambda>ciphertext. Ok (nonce, ciphertext))))"

definition encrypt :: "'k block_cipher \<Rightarrow> bytes \<Rightarrow> ('k AesCtr, AesError, bytes \<times> bytes) stm" where
  "encrypt cx_enc plaintext = encrypt_with_initial_counter cx_enc plaintext 0"

definition decrypt_with_initial_counter ::
  "'k block_cipher \<Rightarrow> 'k AesCtr \<Rightarrow> bytes \<Rightarrow> bytes \<Rightarrow> u32 \<Rightarrow> (AesError, bytes) result" where
  "decrypt_with_initial_counter cx_enc ctr nonce ciphertext initial_counter =
     process_with_counter cx_enc ctr ciphertext (create_counter_block nonce initial_counter)"

definition decrypt :: "'k block_cipher \<Rightarrow> 'k AesCtr \<Rightarrow> bytes \<Rightarrow> bytes \<Rightarrow> (AesError, bytes) result" where
  "decrypt cx_enc ctr nonce ciphertext = decrypt_with_initial_counter cx_enc ctr nonce ciphertext 0"

section \<open>The counter\<close>

text \<open>The number a big-endian byte string stands for.\<close>

fun le_value :: "bytes \<Rightarrow> nat" where
  "le_value [] = 0"
| "le_value (b # bs) = unat b + 256 * le_value bs"

definition be_value :: "bytes \<Rightarrow> nat" where
  "be_value bs = le_value (rev bs)"

lemma u8_less: "unat (b :: u8) < 256"
proof -
  have "unat b < 2 ^ LENGTH(8)" by (rule unsigned_less)
  then show ?thesis by simp
qed

lemma le_value_less: "le_value bs < 256 ^ length bs"
proof (induction bs)
  case (Cons b bs)
  have "unat b < 256" by (rule u8_less)
  with Cons show ?case by simp
qed simp

lemma be_value_less: "be_value bs < 256 ^ length bs"
  using le_value_less [of "rev bs"] by (simp add: be_value_def)

lemma le_value_inject: "length as = length bs \<Longrightarrow> le_value as = le_value bs \<Longrightarrow> as = bs"
proof (induction as bs rule: list_induct2)
  case (Cons a as b bs)
  have "unat a < 256" "unat b < 256" by (rule u8_less)+
  moreover have eq: "unat a + 256 * le_value as = unat b + 256 * le_value bs"
    using Cons.prems by simp
  then have "(unat a + 256 * le_value as) mod 256 = (unat b + 256 * le_value bs) mod 256"
    by (rule arg_cong)
  ultimately have "unat a = unat b" by simp
  with eq Cons.IH show ?case by (simp add: word_unat_eq_iff)
qed simp

lemma be_value_inject: "length as = length bs \<Longrightarrow> be_value as = be_value bs \<Longrightarrow> as = bs"
  unfolding be_value_def using le_value_inject [of "rev as" "rev bs"] by simp

lemma be_value_append: "be_value (as @ bs) = be_value as * 256 ^ length bs + be_value bs"
proof -
  have "le_value (xs @ ys) = le_value xs + 256 ^ length xs * le_value ys" for xs ys
    by (induction xs) (auto simp: algebra_simps)
  then show ?thesis by (simp add: be_value_def)
qed

lemma length_increment_loop [simp]: "length (increment_loop bs) = length bs"
  by (induction bs) (auto simp: Let_def)

lemma length_increment [simp]: "length (increment_be_slice bs) = length bs"
  by (simp add: increment_be_slice_def)

lemma increment_loop_value: "le_value (increment_loop bs) = Suc (le_value bs) mod 256 ^ length bs"
proof (induction bs)
  case (Cons b bs)
  have b: "unat b < 256" by (rule u8_less)
  show ?case
  proof (cases "b + 1 = 0")
    case False
    then have u: "unat (b + 1) = Suc (unat b)" using unatSuc [of b] by (simp add: add.commute)
    moreover have "Suc (unat b) < 256" using u8_less [of "b + 1"] u by simp
    with le_value_less [of bs] have "Suc (unat b + 256 * le_value bs) < 256 * 256 ^ length bs"
      by simp
    ultimately show ?thesis using False by (simp add: Let_def)
  next
    case True
    then have "unat (b + 1) = 0" by simp
    then have "unat b = 255" using b by (simp add: unat_word_ariths) presburger
    with True Cons show ?thesis by (simp add: Let_def mult_mod_right)
  qed
qed simp

lemma increment_value: "be_value (increment_be_slice bs) = Suc (be_value bs) mod 256 ^ length bs"
  by (simp add: be_value_def increment_be_slice_def increment_loop_value)

lemma length_increment_funpow [simp]: "length ((increment_be_slice ^^ i) bs) = length bs"
  by (induction i) auto

lemma increment_funpow_value:
  "be_value ((increment_be_slice ^^ i) bs) = (be_value bs + i) mod 256 ^ length bs"
  using be_value_less [of bs] by (induction i) (auto simp: increment_value mod_simps)

lemma be_value_zeros [simp]: "be_value (replicate n 0) = 0"
proof -
  have "le_value (replicate n 0) = 0" by (induction n) auto
  then show ?thesis by (simp add: be_value_def)
qed

section \<open>The keystream\<close>

text \<open>
  The counter blocks a message of a given length consumes. What the loop computes is the input xored
  with the encryptions of these blocks.
\<close>

definition counter_blocks :: "bytes \<Rightarrow> nat \<Rightarrow> bytes list" where
  "counter_blocks counter len = map (\<lambda>i. (increment_be_slice ^^ i) counter) [0..<(len + 15) div 16]"

lemma counter_blocks_Nil [simp]: "counter_blocks c 0 = []"
  by (simp add: counter_blocks_def)

lemma counter_blocks_step:
  assumes "0 < len"
  shows "counter_blocks c len = c # counter_blocks (increment_be_slice c) (len - 16)"
proof -
  have len: "(len + 15) div 16 = Suc ((len - 16 + 15) div 16)"
  proof (cases "16 \<le> len")
    case True
    then have "len + 15 = (len - 16 + 15) + 16" by simp
    then show ?thesis by (simp only: div_add_self2)
  next
    case False
    with assms have "(len + 15) div 16 = 1" "len - 16 = 0" by (auto intro: div_nat_eqI)
    then show ?thesis by simp
  qed
  have upt: "[0..<Suc m] = 0 # map Suc [0..<m]" for m
    by (simp add: map_Suc_upt upt_conv_Cons del: upt_Suc)
  show ?thesis unfolding counter_blocks_def len upt by (simp add: funpow_Suc_right del: funpow.simps)
qed

text \<open>
  The documented behaviour of \<open>cx_aes_enc_block\<close>: it writes a 16-byte block, or reports an error.
\<close>

definition block_cipher_ok :: "'k block_cipher \<Rightarrow> bool" where
  "block_cipher_ok cx_enc \<longleftrightarrow> (\<forall>key b out. cx_enc key b = Some out \<longrightarrow> length out = 16)"

definition keystream :: "'k block_cipher \<Rightarrow> 'k \<Rightarrow> bytes \<Rightarrow> nat \<Rightarrow> bytes" where
  "keystream cx_enc key counter len = concat (map (\<lambda>b. the (cx_enc key b)) (counter_blocks counter len))"

lemma map2_append_take:
  "length ks = w \<Longrightarrow> map2 f (take w xs) ks @ map2 f (drop w xs) ys = map2 f xs (ks @ ys)"
proof (induction ks arbitrary: w xs)
  case (Cons k ks)
  then show ?case by (cases xs; cases w) auto
qed simp

lemma process_loop_keystream:
  "block_cipher_ok cx_enc \<Longrightarrow> length counter = 16 \<Longrightarrow> process_loop cx_enc key input counter =
    (if \<forall>b\<in>set (counter_blocks counter (length input)). cx_enc key b \<noteq> None
     then Ok (map2 (XOR) input (keystream cx_enc key counter (length input)))
     else Err EncryptionFailed)"
proof (induction cx_enc key input counter rule: process_loop.induct)
  case (2 cx_enc key b input counter)
  let ?xs = "b # input" and ?c = "increment_be_slice counter"
  have step: "counter_blocks counter (length ?xs) = counter # counter_blocks ?c (length (drop 16 ?xs))"
    using counter_blocks_step [of "length ?xs" counter] by simp
  show ?case
  proof (cases "cx_enc key counter")
    case None
    then show ?thesis using 2(3) unfolding step by (simp add: encrypt_block_def)
  next
    case (Some ks)
    then have enc: "encrypt_block cx_enc key counter = Ok ks" using 2(3) by (simp add: encrypt_block_def)
    have ks: "length ks = 16" using Some 2(2) by (auto simp: block_cipher_ok_def)
    have IH: "process_loop cx_enc key (drop 16 ?xs) ?c =
        (if \<forall>b\<in>set (counter_blocks ?c (length (drop 16 ?xs))). cx_enc key b \<noteq> None
         then Ok (map2 (XOR) (drop 16 ?xs) (keystream cx_enc key ?c (length (drop 16 ?xs))))
         else Err EncryptionFailed)"
      using 2(1) 2(2,3) by simp
    have "keystream cx_enc key counter (length ?xs) = ks @ keystream cx_enc key ?c (length (drop 16 ?xs))"
      unfolding keystream_def step by (simp add: Some)
    with map2_append_take [OF ks, of "(XOR)" ?xs] show ?thesis
      unfolding process_loop.simps enc bindR_simps IH step by (simp add: Some del: drop_Cons' take_Cons')
  qed
qed (simp add: keystream_def)

lemma length_counter_block [simp]: "length (create_counter_block nonce i) = length nonce + 4"
  by (simp add: create_counter_block_def)

lemma length_keystream:
  assumes "block_cipher_ok cx_enc" "\<forall>b\<in>set (counter_blocks c len). cx_enc key b \<noteq> None"
  shows "len \<le> length (keystream cx_enc key c len)"
proof -
  have "length x = 16" if "x \<in> set (map (\<lambda>b. the (cx_enc key b)) (counter_blocks c len))" for x
    using that assms by (auto simp: block_cipher_ok_def)
  then have "length (keystream cx_enc key c len) = length (counter_blocks c len) * 16"
    unfolding keystream_def using length_concat_uniform [of "map (\<lambda>b. the (cx_enc key b)) (counter_blocks c len)" 16]
    by simp
  then have "length (keystream cx_enc key c len) = (len + 15) div 16 * 16"
    by (simp add: counter_blocks_def)
  then show ?thesis by presburger
qed

lemma map2_xor_twice:
  "length xs \<le> length ks \<Longrightarrow> map2 (XOR) (map2 (XOR) xs ks) ks = (xs :: bytes)"
proof (induction xs ks rule: list_induct2')
  case (4 x xs k ks)
  have "(x XOR k) XOR k = x" by (simp add: xor.assoc)
  with 4 show ?case by simp
qed auto

text \<open>
  One encryption: which nonce it uses, how it advances the state, and that it fails only when the
  block cipher does.
\<close>

lemma encrypt_result:
  assumes "block_cipher_ok cx_enc" "length (aes_nonce ctr) = 12"
  shows "encrypt cx_enc plaintext ctr =
    (ctr\<lparr>aes_nonce := increment_be_slice (aes_nonce ctr)\<rparr>,
     let c = create_counter_block (aes_nonce ctr) 0; len = length plaintext in
     if \<forall>b\<in>set (counter_blocks c len). cx_enc (aes_key ctr) b \<noteq> None
     then Ok (aes_nonce ctr, map2 (XOR) plaintext (keystream cx_enc (aes_key ctr) c len))
     else Err EncryptionFailed)"
  using process_loop_keystream [OF assms(1), of "create_counter_block (aes_nonce ctr) 0" "aes_key ctr" plaintext] assms(2)
  by (simp add: encrypt_def encrypt_with_initial_counter_def process_with_counter_def Let_def)

lemma decrypt_encrypt:
  assumes ok: "block_cipher_ok cx_enc" and len: "length (aes_nonce ctr) = 12"
    and enc: "encrypt cx_enc plaintext ctr = (ctr', Ok (nonce, ciphertext))"
    and key: "aes_key ctr2 = aes_key ctr"
  shows "length ciphertext = length plaintext" "decrypt cx_enc ctr2 nonce ciphertext = Ok plaintext"
proof -
  let ?c = "create_counter_block (aes_nonce ctr) 0" and ?k = "aes_key ctr" and ?n = "length plaintext"
  from enc have nonce: "nonce = aes_nonce ctr"
    and ct: "ciphertext = map2 (XOR) plaintext (keystream cx_enc ?k ?c ?n)"
    and all: "\<forall>b\<in>set (counter_blocks ?c ?n). cx_enc ?k b \<noteq> None"
    unfolding encrypt_result [OF ok len] by (auto simp: Let_def split: if_splits)
  have ks: "?n \<le> length (keystream cx_enc ?k ?c ?n)" by (rule length_keystream [OF ok all])
  then show n: "length ciphertext = length plaintext" by (simp add: ct)
  have "decrypt cx_enc ctr2 nonce ciphertext = Ok (map2 (XOR) ciphertext (keystream cx_enc ?k ?c ?n))"
    using process_loop_keystream [OF ok, of ?c ?k ciphertext] len all n
    by (auto simp: decrypt_def decrypt_with_initial_counter_def process_with_counter_def nonce key)
  then show "decrypt cx_enc ctr2 nonce ciphertext = Ok plaintext"
    by (simp add: ct map2_xor_twice [OF ks])
qed

section \<open>Properties\<close>

text \<open>A cipher for the witnesses: it xors the block with the key byte.\<close>

definition toy_cipher :: "u8 block_cipher" where
  "toy_cipher key b = (if length b = 16 then Some (map (\<lambda>x. x XOR key) b) else None)"

lemma toy_cipher_ok: "block_cipher_ok toy_cipher"
  by (simp add: block_cipher_ok_def toy_cipher_def)

text \<open>
  C27: (decryption) What \<open>encrypt\<close> returns is decrypted to the plaintext, with the nonce it returned and
  at any later time (any counter-mode state with the same key), and the ciphertext is as long as the
  plaintext: pages stay pages. The only assumption on the block cipher is that a block has 16 bytes.
\<close>

theorem ctr_roundtrip:
  assumes "block_cipher_ok cx_enc" "length (aes_nonce ctr) = 12"
    and "encrypt cx_enc plaintext ctr = (ctr', Ok (nonce, ciphertext))"
    and "aes_key ctr2 = aes_key ctr"
  shows "length ciphertext = length plaintext \<and> length nonce = 12 \<and>
    decrypt cx_enc ctr2 nonce ciphertext = Ok plaintext"
  using decrypt_encrypt [OF assms] assms(2,3) encrypt_result [OF assms(1,2), of plaintext]
  by (auto simp: Let_def split: if_splits)

theorem ctr_roundtrip_witness:
  "encrypt toy_cipher [1, 2, 3] (AesCtr_new 5) = (\<lparr>aes_key = 5, aes_nonce = [0, 0, 0, 0, 0, 0, 0, 0, 0, 0, 0, 1]\<rparr>,
     Ok (replicate 12 0, [4, 7, 6]))
   \<and> decrypt toy_cipher (AesCtr_new 5) (replicate 12 0) [4, 7, 6] = Ok [1, 2, 3]"
proof -
  have enc: "encrypt toy_cipher [1, 2, 3] (AesCtr_new 5)
    = (\<lparr>aes_key = 5, aes_nonce = [0, 0, 0, 0, 0, 0, 0, 0, 0, 0, 0, 1]\<rparr>, Ok (replicate 12 0, [4, 7, 6]))"
    by code_simp
  show ?thesis
    using ctr_roundtrip [OF toy_cipher_ok _ enc, of "AesCtr_new 5"] enc by (simp add: AesCtr_new_def)
qed

text \<open>
  Block \<open>i\<close> of message number \<open>j\<close> (the nonce incremented \<open>j\<close> times) is the same as block \<open>i'\<close> of message
  \<open>j'\<close> only if both numbers agree.
\<close>

lemma counter_block_inject:
  assumes "length nonce = 12" "j < 2 ^ 96" "j' < 2 ^ 96" "i < 2 ^ 32" "i' < 2 ^ 32"
  shows "(increment_be_slice ^^ i) (create_counter_block ((increment_be_slice ^^ j) nonce) 0)
       = (increment_be_slice ^^ i') (create_counter_block ((increment_be_slice ^^ j') nonce) 0)
     \<longleftrightarrow> j = j' \<and> i = i'"
proof -
  let ?N = "\<lambda>j. (increment_be_slice ^^ j) nonce"
  have N: "be_value (?N j) = (be_value nonce + j) mod 2 ^ 96" for j
    using increment_funpow_value [of j nonce] assms(1) by (simp add: power_mult [symmetric, of 2 8, simplified])
  have zero: "u32_to_be_bytes 0 = replicate 4 0" by (simp add: u32_to_be_bytes_def numeral_eq_Suc)
  have val: "be_value ((increment_be_slice ^^ i) (create_counter_block (?N j) 0)) = be_value (?N j) * 2 ^ 32 + i"
    if "i < 2 ^ 32" for i j
  proof -
    have "be_value (?N j) < 2 ^ 96" by (simp add: N)
    with that have "be_value (?N j) * 2 ^ 32 + i < 2 ^ 128" by simp
    moreover have "be_value (create_counter_block (?N j) 0) = be_value (?N j) * 2 ^ 32"
      by (simp add: create_counter_block_def be_value_append zero)
    ultimately show ?thesis using assms(1) by (simp add: increment_funpow_value)
  qed
  show ?thesis
  proof
    assume eq: "(increment_be_slice ^^ i) (create_counter_block (?N j) 0)
      = (increment_be_slice ^^ i') (create_counter_block (?N j') 0)"
    then have sum: "be_value (?N j) * 2 ^ 32 + i = be_value (?N j') * 2 ^ 32 + i'"
      using val [OF assms(4), of j] val [OF assms(5), of j'] by simp
    from arg_cong [OF sum, of "\<lambda>x. x mod 2 ^ 32"] have "i = i'" using assms(4,5) by simp
    with sum have "(be_value nonce + j) mod 2 ^ 96 = (be_value nonce + j') mod 2 ^ 96" by (simp add: N)
    then have "j mod 2 ^ 96 = j' mod 2 ^ 96" by (simp add: mod_add_cong nat_mod_eq_iff)
    with assms(2,3) \<open>i = i'\<close> show "j = j' \<and> i = i'" by simp
  qed auto
qed

text \<open>
  A sequence of encryptions, as the VM makes them while it evicts pages: each one starts in the state
  the one before left, also when that one failed.
\<close>

primrec encrypt_all ::
  "'k block_cipher \<Rightarrow> bytes list \<Rightarrow> 'k AesCtr \<Rightarrow> 'k AesCtr \<times> (AesError, bytes \<times> bytes) result list" where
  "encrypt_all cx_enc [] ctr = (ctr, [])"
| "encrypt_all cx_enc (p # ps) ctr =
     (case encrypt cx_enc p ctr of (ctr1, r) \<Rightarrow>
      case encrypt_all cx_enc ps ctr1 of (ctr2, rs) \<Rightarrow> (ctr2, r # rs))"

text \<open>What an encryption yields that calls the block cipher on exactly the given blocks.\<close>

definition xor_with :: "'k block_cipher \<Rightarrow> 'k \<Rightarrow> bytes list \<Rightarrow> bytes \<Rightarrow> (AesError, bytes) result" where
  "xor_with cx_enc key blocks plaintext =
     (if \<forall>b\<in>set blocks. cx_enc key b \<noteq> None
      then Ok (map2 (XOR) plaintext (concat (map (\<lambda>b. the (cx_enc key b)) blocks)))
      else Err EncryptionFailed)"

definition ciphertext_of :: "(AesError, bytes \<times> bytes) result \<Rightarrow> (AesError, bytes) result" where
  "ciphertext_of r = bindR r (\<lambda>(nonce, ciphertext). Ok ciphertext)"

definition nonce_at :: "'k AesCtr \<Rightarrow> nat \<Rightarrow> bytes" where
  "nonce_at ctr j = (increment_be_slice ^^ j) (aes_nonce ctr)"

lemma encrypt_all_nth:
  "length (snd (encrypt_all cx_enc ps ctr)) = length ps \<and>
   (j < length ps \<longrightarrow> snd (encrypt_all cx_enc ps ctr) ! j =
      snd (encrypt cx_enc (ps ! j) (ctr\<lparr>aes_nonce := nonce_at ctr j\<rparr>)))"
proof (induction ps arbitrary: ctr j)
  case (Cons p ps)
  let ?c = "ctr\<lparr>aes_nonce := increment_be_slice (aes_nonce ctr)\<rparr>"
  have step: "fst (encrypt cx_enc p ctr) = ?c"
    by (simp add: encrypt_def encrypt_with_initial_counter_def Let_def)
  have "nonce_at ?c i = nonce_at ctr (Suc i)" for i
    by (simp add: nonce_at_def funpow_Suc_right del: funpow.simps)
  with Cons.IH [of ?c] step show ?case
    by (cases j) (auto simp: nonce_at_def split: prod.splits)
qed simp

lemma encrypt_uses_blocks:
  assumes "block_cipher_ok cx_enc" "length (aes_nonce ctr) = 12" "j < length ps"
  shows "ciphertext_of (snd (encrypt_all cx_enc ps ctr) ! j) =
    xor_with cx_enc (aes_key ctr)
      (counter_blocks (create_counter_block (nonce_at ctr j) 0) (length (ps ! j))) (ps ! j)"
proof -
  have "length (nonce_at ctr j) = 12" using assms(2) by (simp add: nonce_at_def)
  then show ?thesis
    using encrypt_all_nth [of cx_enc ps ctr j] assms(3)
      encrypt_result [OF assms(1), of "ctr\<lparr>aes_nonce := nonce_at ctr j\<rparr>" "ps ! j"]
    by (simp add: ciphertext_of_def xor_with_def keystream_def Let_def)
qed

lemma distinct_concat_upt:
  assumes "\<And>j. j < n \<Longrightarrow> distinct (f j)"
    and "\<And>j k. j < n \<Longrightarrow> k < n \<Longrightarrow> j \<noteq> k \<Longrightarrow> set (f j) \<inter> set (f k) = {}"
  shows "distinct (concat (map f [0..<n]))"
  using assms
proof (induction n)
  case (Suc n)
  have "(\<Union>j<n. set (f j)) \<inter> set (f n) = {}" using Suc.prems(2) [of _ n] by (auto simp: less_Suc_eq)
  moreover have "distinct (concat (map f [0..<n]))" by (rule Suc.IH) (simp_all add: Suc.prems)
  moreover have "distinct (f n)" by (simp add: Suc.prems)
  ultimately show ?case by (simp add: atLeast0LessThan)
qed simp

lemma counter_block_index:
  assumes "b \<in> set (counter_blocks c n)" "n \<le> 2 ^ 32 * 16"
  obtains i where "i < 2 ^ 32" "b = (increment_be_slice ^^ i) c"
proof -
  obtain i where i: "i < (n + 15) div 16" "b = (increment_be_slice ^^ i) c"
    using assms(1) by (auto simp: counter_blocks_def)
  have "(n + 15) div 16 \<le> 2 ^ 32" using assms(2) by simp
  from less_le_trans [OF i(1) this] i(2) show thesis by (rule that)
qed

text \<open>The blocks of message \<open>j\<close> of a sequence.\<close>

definition message_blocks :: "'k AesCtr \<Rightarrow> bytes list \<Rightarrow> nat \<Rightarrow> bytes list" where
  "message_blocks ctr ps j = counter_blocks (create_counter_block (nonce_at ctr j) 0) (length (ps ! j))"

lemma length_message_blocks [simp]: "length (message_blocks ctr ps j) = (length (ps ! j) + 15) div 16"
  by (simp add: message_blocks_def counter_blocks_def)

lemma message_block_index:
  assumes "b \<in> set (message_blocks ctr ps j)" "length (ps ! j) \<le> 2 ^ 32 * 16"
  obtains i where "i < 2 ^ 32" "b = (increment_be_slice ^^ i) (create_counter_block (nonce_at ctr j) 0)"
  using counter_block_index [OF assms [unfolded message_blocks_def]] .

lemma message_blocks_disjoint:
  assumes n: "length (aes_nonce ctr) = 12"
    and j: "j < 2 ^ 96" "length (ps ! j) \<le> 2 ^ 32 * 16" and k: "k < 2 ^ 96" "length (ps ! k) \<le> 2 ^ 32 * 16"
    and ne: "j \<noteq> k"
  shows "set (message_blocks ctr ps j) \<inter> set (message_blocks ctr ps k) = {}"
proof (rule equals0I)
  fix b assume "b \<in> set (message_blocks ctr ps j) \<inter> set (message_blocks ctr ps k)"
  then have bj: "b \<in> set (message_blocks ctr ps j)" and bk: "b \<in> set (message_blocks ctr ps k)" by simp_all
  obtain i where i: "i < 2 ^ 32" "b = (increment_be_slice ^^ i) (create_counter_block (nonce_at ctr j) 0)"
    by (rule message_block_index [OF bj j(2)])
  obtain i' where i': "i' < 2 ^ 32" "b = (increment_be_slice ^^ i') (create_counter_block (nonce_at ctr k) 0)"
    by (rule message_block_index [OF bk k(2)])
  have "j = k \<and> i = i'"
    by (rule iffD1 [OF counter_block_inject [OF n j(1) k(1) i(1) i'(1), folded nonce_at_def]
          trans [OF i(2) [symmetric] i'(2)]])
  with ne show False by blast
qed

lemma message_blocks_distinct:
  assumes n: "length (aes_nonce ctr) = 12" and j: "j < 2 ^ 96" "length (ps ! j) \<le> 2 ^ 32 * 16"
  shows "distinct (message_blocks ctr ps j)"
proof -
  have l: "(length (ps ! j) + 15) div 16 \<le> 2 ^ 32" using j(2) by simp
  have i: "i < 2 ^ 32" if "i < (length (ps ! j) + 15) div 16" for i by (rule less_le_trans [OF that l])
  show ?thesis
    unfolding message_blocks_def counter_blocks_def distinct_map
  proof (intro conjI inj_onI distinct_upt)
    fix x y
    assume x: "x \<in> set [0..<(length (ps ! j) + 15) div 16]" and y: "y \<in> set [0..<(length (ps ! j) + 15) div 16]"
      and e: "(increment_be_slice ^^ x) (create_counter_block (nonce_at ctr j) 0)
        = (increment_be_slice ^^ y) (create_counter_block (nonce_at ctr j) 0)"
    have "x < 2 ^ 32" "y < 2 ^ 32" using x y by (simp_all only: set_upt atLeastLessThan_iff i)
    from counter_block_inject [OF n j(1) j(1) this] e show "x = y" unfolding nonce_at_def by blast
  qed
qed

text \<open>
  C28: (no keystream reuse) Take any sequence of encryptions, each in the state the one before left, of up
  to 2^96 plaintexts of up to 2^32 blocks (64 GiB) each. There is one list of counter blocks for each
  plaintext, a block for each 16 bytes begun, such that, whatever the block cipher is, encryption \<open>j\<close>
  returns its plaintext xored with the cipher's output on list \<open>j\<close> (and fails exactly when the cipher
  fails on one of these blocks), and no block occurs twice, within one encryption or across them.
\<close>

theorem ctr_blocks_distinct:
  fixes ctr :: "'k AesCtr"
  assumes "length (aes_nonce ctr) = 12" "length ps \<le> 2 ^ 96" "\<forall>p\<in>set ps. length p \<le> 2 ^ 32 * 16"
  shows "\<exists>blocks. map length blocks = map (\<lambda>p. (length p + 15) div 16) ps \<and> distinct (concat blocks) \<and>
    (\<forall>(cx_enc :: 'k block_cipher) j. block_cipher_ok cx_enc \<longrightarrow> j < length ps \<longrightarrow>
       ciphertext_of (snd (encrypt_all cx_enc ps ctr) ! j) = xor_with cx_enc (aes_key ctr) (blocks ! j) (ps ! j))"
proof (intro exI conjI)
  let ?blocks = "map (message_blocks ctr ps) [0..<length ps]"
  have len: "j < 2 ^ 96" "length (ps ! j) \<le> 2 ^ 32 * 16" if "j < length ps" for j
    using less_le_trans [OF that assms(2)] assms(3) nth_mem [OF that] by blast+
  show "map length ?blocks = map (\<lambda>p. (length p + 15) div 16) ps"
    by (rule nth_equalityI) simp_all
  show "distinct (concat ?blocks)"
    by (rule distinct_concat_upt)
       (rule message_blocks_distinct [OF assms(1) len] message_blocks_disjoint [OF assms(1) len len]; assumption)+
  show "\<forall>(cx_enc :: 'k block_cipher) j. block_cipher_ok cx_enc \<longrightarrow> j < length ps \<longrightarrow>
       ciphertext_of (snd (encrypt_all cx_enc ps ctr) ! j) = xor_with cx_enc (aes_key ctr) (?blocks ! j) (ps ! j)"
    using encrypt_uses_blocks [OF _ assms(1)] by (simp add: message_blocks_def)
qed

text \<open>The same plaintext twice: the two encryptions use different blocks, and the ciphertexts differ.\<close>

definition twice :: "bytes list" where
  "twice = [replicate 12 0, replicate 12 0]"

theorem ctr_blocks_distinct_witness:
  "map ciphertext_of (snd (encrypt_all toy_cipher twice (AesCtr_new 5))) =
     [Ok (replicate 12 5), Ok (replicate 11 5 @ [4])]
   \<and> (\<exists>a b. a \<noteq> b \<and>
        ciphertext_of (snd (encrypt_all toy_cipher twice (AesCtr_new 5)) ! 0) = xor_with toy_cipher 5 [a] (replicate 12 0) \<and>
        ciphertext_of (snd (encrypt_all toy_cipher twice (AesCtr_new 5)) ! 1) = xor_with toy_cipher 5 [b] (replicate 12 0))"
proof -
  have ctr: "length (aes_nonce (AesCtr_new (5 :: u8))) = 12" "aes_key (AesCtr_new (5 :: u8)) = 5"
    by (simp_all add: AesCtr_new_def)
  have ps: "length twice = 2" "length twice \<le> 2 ^ 96" "\<forall>p\<in>set twice. length p \<le> 2 ^ 32 * 16"
    "twice ! 0 = replicate 12 0" "twice ! 1 = replicate 12 0"
    by (simp_all add: twice_def)
  obtain blocks where b: "map length blocks = map (\<lambda>p. (length p + 15) div 16) twice" "distinct (concat blocks)"
    and c: "\<forall>cx_enc j. block_cipher_ok cx_enc \<longrightarrow> j < length twice \<longrightarrow>
      ciphertext_of (snd (encrypt_all cx_enc twice (AesCtr_new (5 :: u8))) ! j)
      = xor_with cx_enc (aes_key (AesCtr_new 5)) (blocks ! j) (twice ! j)"
    using ctr_blocks_distinct [OF ctr(1) ps(2,3)] by blast
  from b obtain x y where xy: "blocks = [[x], [y]]" "x \<noteq> y"
    by (auto simp: map_eq_Cons_conv length_Suc_conv twice_def)
  have "map ciphertext_of (snd (encrypt_all toy_cipher twice (AesCtr_new 5))) =
     [Ok (replicate 12 5), Ok (replicate 11 5 @ [4])]"
    by code_simp
  moreover have "ciphertext_of (snd (encrypt_all toy_cipher twice (AesCtr_new 5)) ! 0) = xor_with toy_cipher 5 [x] (replicate 12 0)"
    "ciphertext_of (snd (encrypt_all toy_cipher twice (AesCtr_new 5)) ! 1) = xor_with toy_cipher 5 [y] (replicate 12 0)"
    using c [rule_format, OF toy_cipher_ok, of 0] c [rule_format, OF toy_cipher_ok, of 1] ps xy(1) ctr(2)
    by (simp_all only: nth_Cons_0 nth_Cons_Suc One_nat_def)
  ultimately show ?thesis using xy(2) by blast
qed

end
