(* ===== verification/Vm_Io.thy ===== *)
theory Vm_Io
  imports Client_Commands Aes
begin

text \<open>
  The connection between the VM and the host: status words and instructions of the APDU protocol
  (\<open>vm/src/main.rs\<close>), and \<open>interrupt\<close> (\<open>vm/src/io.rs\<close>), which sends a message to the host and waits
  for the answer. The transport itself belongs to the device's SDK. It is modelled by its other end:
  the host is a function from everything it has been sent to the command it sends next, so it may
  answer anything and may adapt to all it has seen, but it always answers. The world that the
  components share is this connection and the counter-mode state for page encryption.
\<close>

section \<open>Commands and instructions\<close>

datatype AppSW =
    Deny | StoreFullSW | IncorrectData | WrongP1P2 | InsNotSupported | ClaNotSupported | SignatureFail
  | KeyDeriveFail | VersionParsingFail | InterruptedExecution | WrongApduLength | VMRuntimeError
  | VAppPanic | DecodingFailed | OkSW

datatype Instruction = GetAppInfo | RegisterVApp | StartVApp | PreloadVApp | Continue u8 u8

record command =
  cmd_ins :: u8
  cmd_p1 :: u8
  cmd_p2 :: u8
  cmd_data :: bytes

definition Instruction_try_from :: "command \<Rightarrow> (AppSW, Instruction) result" where
  "Instruction_try_from c =
     (let zero = (cmd_p1 c = 0 \<and> cmd_p2 c = 0) in
      if cmd_ins c = 0 \<and> zero then Ok GetAppInfo
      else if cmd_ins c = 2 \<and> zero then Ok RegisterVApp
      else if cmd_ins c = 3 \<and> zero then Ok StartVApp
      else if cmd_ins c = 4 \<and> zero then Ok PreloadVApp
      else if cmd_ins c = 0 \<or> cmd_ins c = 2 \<or> cmd_ins c = 3 \<or> cmd_ins c = 4 then Err WrongP1P2
      else if cmd_ins c = 0xff then Ok (Continue (cmd_p1 c) (cmd_p2 c))
      else Err InsNotSupported)"

section \<open>Interrupts\<close>

datatype InterruptError = InvalidResponse | UnsupportedInstruction | WrongParameters

primrec InterruptError_as_str :: "InterruptError \<Rightarrow> string" where
  "InterruptError_as_str InvalidResponse = ''Invalid response''"
| "InterruptError_as_str UnsupportedInstruction = ''INS not supported''"
| "InterruptError_as_str WrongParameters = ''Wrong P1/P2''"

record 'k world =
  host :: "bytes list \<Rightarrow> command"
  sent :: "bytes list"
  aes_ctr :: "'k AesCtr"

definition interrupt :: "bytes \<Rightarrow> (('k, 'z) world_scheme, InterruptError, bytes) stm" where
  "interrupt response w =
     (let w1 = w\<lparr>sent := sent w @ [response]\<rparr>;
          command = host w (sent w1)
      in case Instruction_try_from command of
           Inl _ \<Rightarrow> (w1, Err InvalidResponse)
         | Inr (Continue p1 p2) \<Rightarrow>
             if (p1, p2) \<noteq> (0, 0) then (w1, Err WrongParameters) else (w1, Ok (cmd_data command))
         | Inr _ \<Rightarrow> (w1, Err UnsupportedInstruction))"

text \<open>The world of a later time: the host and the key are the same, and the nonce is still 12 bytes.\<close>

definition world_le :: "('k, 'z) world_scheme \<Rightarrow> ('k, 'z) world_scheme \<Rightarrow> bool" where
  "world_le w w' \<longleftrightarrow> host w' = host w \<and> aes_key (aes_ctr w') = aes_key (aes_ctr w) \<and>
     length (aes_nonce (aes_ctr w')) = length (aes_nonce (aes_ctr w)) \<and>
     (\<exists>ms. sent w' = sent w @ ms)"

lemma world_le_refl [simp, intro]: "world_le w w"
  by (simp add: world_le_def)

lemma world_le_trans: "world_le w1 w2 \<Longrightarrow> world_le w2 w3 \<Longrightarrow> world_le w1 w3"
  unfolding world_le_def by auto

lemma interrupt_world:
  "interrupt response w = (w', res) \<Longrightarrow> w' = w\<lparr>sent := sent w @ [response]\<rparr>"
  by (auto simp: interrupt_def Let_def split: sum.splits Instruction.splits if_splits)

lemma interrupt_le: "interrupt response w = (w', res) \<Longrightarrow> world_le w w'"
  by (auto dest!: interrupt_world simp: world_le_def)

text \<open>
  (interrupts) An answer of the host is accepted exactly when it is the instruction \<open>Continue\<close> (0xff)
  with both parameters zero, and then its data is returned; every other command is reported by the
  error for it, and in all cases the message was sent, once.
\<close>

theorem interrupt_accepts:
  "interrupt response w =
    (w\<lparr>sent := sent w @ [response]\<rparr>,
     let c = host w (sent w @ [response]) in
     if cmd_ins c = 0xff
     then (if cmd_p1 c = 0 \<and> cmd_p2 c = 0 then Ok (cmd_data c) else Err WrongParameters)
     else if cmd_ins c \<in> {0, 2, 3, 4} \<and> cmd_p1 c = 0 \<and> cmd_p2 c = 0 then Err UnsupportedInstruction
     else Err InvalidResponse)"
  by (auto simp: interrupt_def Instruction_try_from_def Let_def)

end
