(* ===== verification/Auth.thy ===== *)
theory Auth
  imports Accumulator
begin

text \<open>
  Persistent storage cells (\<open>vm/src/nvm.rs\<close>) and the keys and tags derived from the VM's secret
  (\<open>vm/src/auth.rs\<close>). The non-volatile memory of the device writes one cell at a time; an operation of
  \<open>LazyStorage\<close> is given as the list of its writes, so that the states a loss of power can leave behind are
  its prefixes. SHA-256 and HMAC-SHA-256 are parameters.
\<close>

section \<open>Lazily initialised storage\<close>

definition STORAGE_VALID :: u8 where
  "STORAGE_VALID = 0xa5"

record 'a LazyStorage =
  ls_flag :: u8
  ls_value :: 'a

datatype 'a nvm_write = WriteFlag u8 | WriteValue 'a

primrec apply_write :: "'a nvm_write \<Rightarrow> 'a LazyStorage \<Rightarrow> 'a LazyStorage" where
  "apply_write (WriteFlag f) s = s\<lparr>ls_flag := f\<rparr>"
| "apply_write (WriteValue v) s = s\<lparr>ls_value := v\<rparr>"

definition nvm_writes :: "'a nvm_write list \<Rightarrow> 'a LazyStorage \<Rightarrow> 'a LazyStorage" where
  "nvm_writes ws s = fold apply_write ws s"

text \<open>\<open>zeroed\<close> is the all-zero value of the type that the constructor and \<open>clear\<close> use; a panic is
  \<^const>\<open>None\<close>.\<close>

definition LazyStorage_new :: "'a \<Rightarrow> 'a LazyStorage" where
  "LazyStorage_new zeroed = \<lparr>ls_flag = 0, ls_value = zeroed\<rparr>"

definition is_initialized :: "'a LazyStorage \<Rightarrow> bool" where
  "is_initialized s \<longleftrightarrow> ls_flag s = STORAGE_VALID"

lemma storage_valid_nonzero [simp]: "STORAGE_VALID \<noteq> 0" "0 \<noteq> STORAGE_VALID"
  by (simp_all add: STORAGE_VALID_def)

definition initialize_writes :: "'a \<Rightarrow> 'a LazyStorage \<Rightarrow> 'a nvm_write list option" where
  "initialize_writes value s =
     (if is_initialized s then None else Some [WriteValue value, WriteFlag STORAGE_VALID])"

definition ls_get_ref :: "'a LazyStorage \<Rightarrow> 'a option" where
  "ls_get_ref s = (if \<not> is_initialized s then None else Some (ls_value s))"

definition update_writes :: "'a \<Rightarrow> 'a LazyStorage \<Rightarrow> 'a nvm_write list option" where
  "update_writes value s =
     (if \<not> is_initialized s then None
      else Some [WriteFlag 0, WriteValue value, WriteFlag STORAGE_VALID])"

definition clear_writes :: "'a \<Rightarrow> 'a nvm_write list" where
  "clear_writes zeroed = [WriteFlag 0, WriteValue zeroed]"

definition initialize :: "'a \<Rightarrow> 'a LazyStorage \<Rightarrow> 'a LazyStorage option" where
  "initialize value s = map_option (\<lambda>ws. nvm_writes ws s) (initialize_writes value s)"

definition ls_update :: "'a \<Rightarrow> 'a LazyStorage \<Rightarrow> 'a LazyStorage option" where
  "ls_update value s = map_option (\<lambda>ws. nvm_writes ws s) (update_writes value s)"

definition ls_clear :: "'a \<Rightarrow> 'a LazyStorage \<Rightarrow> 'a LazyStorage" where
  "ls_clear zeroed s = nvm_writes (clear_writes zeroed) s"

lemma ls_ops [simp]:
  "\<not> is_initialized s \<Longrightarrow> initialize v s = Some \<lparr>ls_flag = STORAGE_VALID, ls_value = v\<rparr>"
  "is_initialized s \<Longrightarrow> initialize v s = None"
  "is_initialized s \<Longrightarrow> ls_update v s = Some \<lparr>ls_flag = STORAGE_VALID, ls_value = v\<rparr>"
  "\<not> is_initialized s \<Longrightarrow> ls_update v s = None"
  "ls_clear v s = \<lparr>ls_flag = 0, ls_value = v\<rparr>"
  "is_initialized (LazyStorage_new v) \<longleftrightarrow> False"
  "is_initialized \<lparr>ls_flag = STORAGE_VALID, ls_value = v\<rparr> \<longleftrightarrow> True"
  "is_initialized \<lparr>ls_flag = 0, ls_value = v\<rparr> \<longleftrightarrow> False"
  by (cases s; simp add: initialize_def initialize_writes_def ls_update_def update_writes_def
      ls_clear_def clear_writes_def nvm_writes_def is_initialized_def LazyStorage_new_def)+

text \<open>
  C29: (loss of power) Whatever prefix of the writes of \<open>initialize\<close>, \<open>update\<close> or \<open>clear\<close> reaches the
  memory, the cell is afterwards either uninitialised or holds a value that was completely written: the
  old one if the operation had not begun, the new one if it has finished.
\<close>

theorem nvm_power_loss:
  fixes s :: "'a LazyStorage"
  shows "(initialize_writes v s = Some ws \<longrightarrow>
     ls_get_ref (nvm_writes (take k ws) s) = (if k < 2 then None else Some v))
   \<and> (update_writes v s = Some ws \<longrightarrow>
     ls_get_ref (nvm_writes (take k ws) s) = (if k = 0 then ls_get_ref s else if k < 3 then None else Some v))
   \<and> (is_initialized s \<longrightarrow>
     ls_get_ref (nvm_writes (take k (clear_writes v)) s) = (if k = 0 then ls_get_ref s else None))"
proof -
  have k: "k = 0 \<or> k = 1 \<or> k = 2 \<or> 3 \<le> k" by auto
  show ?thesis
    using k by (elim disjE)
      (auto simp: initialize_writes_def update_writes_def clear_writes_def nvm_writes_def ls_get_ref_def
        is_initialized_def numeral_2_eq_2 numeral_3_eq_3 take_Cons' split: if_splits)
qed

theorem nvm_power_loss_witness:
  "ls_get_ref (nvm_writes (take 2 [WriteFlag 0, WriteValue 7, WriteFlag STORAGE_VALID])
     \<lparr>ls_flag = STORAGE_VALID, ls_value = (5 :: nat)\<rparr>) = None
   \<and> update_writes 7 \<lparr>ls_flag = STORAGE_VALID, ls_value = (5 :: nat)\<rparr>
       = Some [WriteFlag 0, WriteValue 7, WriteFlag STORAGE_VALID]"
  using nvm_power_loss [of "7 :: nat" "\<lparr>ls_flag = STORAGE_VALID, ls_value = 5\<rparr>"
      "[WriteFlag 0, WriteValue 7, WriteFlag STORAGE_VALID]" 2]
  by (simp add: update_writes_def is_initialized_def)

section \<open>The secret of the VM and what is derived from it\<close>

text \<open>\<open>VMAuthKey::get\<close>: initialise the secret on first use with the outcome of the random generator;
  a failure of the generator panics.\<close>

definition ensure_initialized :: "bytes option \<Rightarrow> bytes LazyStorage \<Rightarrow> bytes LazyStorage option" where
  "ensure_initialized random_bytes storage =
     (if \<not> is_initialized storage
      then (case random_bytes of None \<Rightarrow> None | Some key \<Rightarrow> initialize key storage)
      else Some storage)"

definition ascii :: "string \<Rightarrow> bytes" where
  "ascii s = map of_char s"

definition TAG_APP_ID :: bytes where
  "TAG_APP_ID = ascii ''VND_APP_ID''"

definition TAG_APP_AUTH_KEY :: bytes where
  "TAG_APP_AUTH_KEY = ascii ''VND_APP_AUTH_KEY''"

definition TAG_PAGE_HMAC :: bytes where
  "TAG_PAGE_HMAC = ascii ''VND_PAGE_TAG''"

definition TAG_PAGE_HMAC_MASK :: bytes where
  "TAG_PAGE_HMAC_MASK = ascii ''VND_HMAC_MASK''"

definition tagged_hash :: "(bytes \<Rightarrow> bytes) \<Rightarrow> bytes \<Rightarrow> bytes \<Rightarrow> bytes \<Rightarrow> bytes" where
  "tagged_hash H auth_key tag buffer =
     (let tag_hash = fst (digest_inplace H (hasher_update tag hasher_new))
      in fst (digest_inplace H
           (hasher_update buffer (hasher_update auth_key (hasher_update tag_hash hasher_new)))))"

definition get_vapp_auth_key :: "(bytes \<Rightarrow> bytes) \<Rightarrow> bytes \<Rightarrow> bytes \<Rightarrow> bytes" where
  "get_vapp_auth_key H auth_key vapp_hash = tagged_hash H auth_key TAG_APP_AUTH_KEY vapp_hash"

text \<open>\<open>hmac\<close> maps a key and the concatenation of the updates to the tag, or fails.\<close>

definition page_hmac_message :: "bytes \<Rightarrow> u32 \<Rightarrow> bytes \<Rightarrow> bytes" where
  "page_hmac_message vapp_hash page_index page_hash =
     TAG_PAGE_HMAC @ vapp_hash @ u32_to_be_bytes page_index @ page_hash"

definition compute_code_page_hmac ::
  "(bytes \<Rightarrow> bytes \<Rightarrow> bytes option) \<Rightarrow> bytes \<Rightarrow> bytes \<Rightarrow> u32 \<Rightarrow> bytes \<Rightarrow> (unit, bytes) result" where
  "compute_code_page_hmac hmac app_auth_key vapp_hash page_index page_hash =
     (case hmac app_auth_key (page_hmac_message vapp_hash page_index page_hash) of
        None \<Rightarrow> Err () | Some out \<Rightarrow> Ok out)"

definition compute_page_hmac_mask :: "(bytes \<Rightarrow> bytes) \<Rightarrow> bytes \<Rightarrow> u32 \<Rightarrow> bytes" where
  "compute_page_hmac_mask H ephemeral_sk page_index =
     fst (digest_inplace H (hasher_update (u32_to_be_bytes page_index)
       (hasher_update ephemeral_sk (hasher_update TAG_PAGE_HMAC_MASK hasher_new))))"

definition get_vanadium_app_id :: "(bytes \<Rightarrow> bytes) \<Rightarrow> bytes \<Rightarrow> bytes" where
  "get_vanadium_app_id H auth_key = tagged_hash H auth_key TAG_APP_ID []"

lemma hash_updates [simp]:
  "fst (digest_inplace H (hasher_update c (hasher_update b (hasher_update a hasher_new)))) = H (a @ b @ c)"
  "fst (digest_inplace H (hasher_update a hasher_new)) = H a"
  by (simp_all add: digest_inplace_def hasher_update_def hasher_new_def)

lemma tags_differ: "TAG_APP_ID \<noteq> TAG_APP_AUTH_KEY"
  by (simp add: TAG_APP_ID_def TAG_APP_AUTH_KEY_def ascii_def)

text \<open>
  What the hashes are taken of. The three kinds of inputs have 64, 96 and 49 bytes.
\<close>

lemma derived_inputs:
  "get_vapp_auth_key H a v = H (H TAG_APP_AUTH_KEY @ a @ v)"
  "get_vanadium_app_id H a = H (H TAG_APP_ID @ a)"
  "compute_page_hmac_mask H sk i = H (TAG_PAGE_HMAC_MASK @ sk @ u32_to_be_bytes i)"
  unfolding get_vapp_auth_key_def get_vanadium_app_id_def compute_page_hmac_mask_def tagged_hash_def Let_def
    hash_updates by simp_all

text \<open>
  A page tag commits to the V-App, the index and the hash of the page: two equal tags, of any V-Apps, are
  of the same page, unless HMAC collides on the two named inputs.
\<close>

theorem page_tags_commit:
  assumes "length v = 32" "length v' = 32"
    and "compute_code_page_hmac hmac (get_vapp_auth_key H a v) v i h = Ok tag"
    and "compute_code_page_hmac hmac (get_vapp_auth_key H a v') v' i' h' = Ok tag"
    and "inj_on (\<lambda>(k, m). hmac k m) {(get_vapp_auth_key H a v, page_hmac_message v i h),
          (get_vapp_auth_key H a v', page_hmac_message v' i' h')}"
  shows "v = v' \<and> i = i' \<and> h = h'"
proof -
  have "page_hmac_message v i h = page_hmac_message v' i' h'"
    using inj_onD [OF assms(5), of "(get_vapp_auth_key H a v, page_hmac_message v i h)"
        "(get_vapp_auth_key H a v', page_hmac_message v' i' h')"] assms(3,4)
    by (simp add: compute_code_page_hmac_def split: option.splits)
  then show ?thesis unfolding page_hmac_message_def using assms(1,2) by simp
qed

text \<open>
  The values derived by hashing never coincide: the application identifier, the authentication keys of two
  V-Apps and the masks of two pages are five different values, unless SHA-256 collides on the named
  inputs.
\<close>

theorem derived_keys_separate:
  assumes "length v = 32" "length v' = 32" "length a = 32" "length sk = 32" "hash_len H"
    and "H TAG_APP_ID \<noteq> H TAG_APP_AUTH_KEY"
    and inj: "inj_on H {H TAG_APP_ID @ a, H TAG_APP_AUTH_KEY @ a @ v, H TAG_APP_AUTH_KEY @ a @ v',
        TAG_PAGE_HMAC_MASK @ sk @ u32_to_be_bytes i, TAG_PAGE_HMAC_MASK @ sk @ u32_to_be_bytes i'}"
    and "v \<noteq> v'" "i \<noteq> i'"
  shows "distinct [get_vanadium_app_id H a, get_vapp_auth_key H a v, get_vapp_auth_key H a v',
      compute_page_hmac_mask H sk i, compute_page_hmac_mask H sk i']"
proof -
  let ?in = "[H TAG_APP_ID @ a, H TAG_APP_AUTH_KEY @ a @ v, H TAG_APP_AUTH_KEY @ a @ v',
        TAG_PAGE_HMAC_MASK @ sk @ u32_to_be_bytes i, TAG_PAGE_HMAC_MASK @ sk @ u32_to_be_bytes i']"
  have len: "map length ?in = [64, 96, 96, 49, 49]"
    using assms(1-5) by (simp add: hash_len_def TAG_PAGE_HMAC_MASK_def ascii_def)
  have "x \<noteq> y" if "length x \<noteq> length y" for x y :: bytes using that by blast
  with len assms(8,9) have "distinct ?in" by auto
  moreover have "inj_on H (set ?in)" using inj by simp
  ultimately have "distinct (map H ?in)" by (simp only: distinct_map)
  then show ?thesis by (simp add: derived_inputs)
qed

end
