(* ===== verification/Outsourced_Mem.thy ===== *)
theory Outsourced_Mem
  imports Vm_Memory Accumulator Evict Vm_Io Auth
begin

text \<open>
  The outsourced memory of the VM (\<open>vm/src/handlers/lib/outsourced_mem.rs\<close>): a cache of pages in
  front of an untrusted host. A page that is not cached is requested from the host and accepted with a
  Merkle proof against the root the VM keeps, or, for code pages, with a tag that the VM issued when the
  application was preloaded. A modified page is encrypted when it is evicted and the host has to prove
  what the new root is. The host is arbitrary (see \<open>Vm_Io\<close>).

  The locale \<open>paged_memory_laws\<close> of \<open>Vm_Memory\<close> is interpreted on it: unless two hashed messages
  collide or a tag was forged, the pages the VM works with are those of a plain vector of pages.
  So every property of the processor over \<open>VecMemory\<close> carries over to the outsourced memory.
\<close>

section \<open>State\<close>

text \<open>The cryptography of the device: code that is not in the repository.\<close>

record 'k crypto =
  sha256 :: "bytes \<Rightarrow> bytes"
  hmac_sha256 :: "bytes \<Rightarrow> bytes \<Rightarrow> bytes option"
  aes_block :: "'k block_cipher"
  vm_auth_key :: bytes

record CachedPage =
  cp_idx :: u32
  cp_page :: page
  cp_hash :: hash_output
  cp_valid :: bool
  cp_modified :: bool

definition CachedPage_default :: CachedPage where
  "CachedPage_default =
     \<lparr>cp_idx = 0, cp_page = replicate PAGE_SIZE 0, cp_hash = replicate 32 0, cp_valid = False, cp_modified = False\<rparr>"

text \<open>
  The connection and the counter-mode state are shared by all memories: they are the world. The
  strategy's operations are an argument of the functions and its state is a field. The last two fields are
  not in the code: they list the index and hash of every page accepted with a tag, and record whether
  a page of a read-only memory was written to in the cache.
\<close>

record 's OutsourcedMemory =
  cached_pages :: "CachedPage list"
  n_pages :: u32
  merkle_root :: hash_output
  om_hasher :: hasher
  is_readonly :: bool
  section_kind :: SectionKind
  evict_state :: 's
  last_accessed_page :: "(u32 \<times> nat) option"
  om_vapp_hash :: bytes
  accepted_tags :: "(u32 \<times> hash_output) list"
  readonly_written :: bool

type_synonym ('k, 'z, 's, 'a) om = "(('k, 'z) world_scheme \<times> 's OutsourcedMemory, memory_error, 'a) stm"

definition OutsourcedMemory_new ::
  "nat \<Rightarrow> bool \<Rightarrow> SectionKind \<Rightarrow> u32 \<Rightarrow> hash_output \<Rightarrow> 's \<Rightarrow> bytes \<Rightarrow> 's OutsourcedMemory" where
  "OutsourcedMemory_new max_pages_in_cache readonly kind pages root strategy vapp_hash =
     \<lparr>cached_pages = replicate max_pages_in_cache CachedPage_default, n_pages = pages, merkle_root = root,
      om_hasher = hasher_new, is_readonly = readonly, section_kind = kind, evict_state = strategy,
      last_accessed_page = None, om_vapp_hash = vapp_hash, accepted_tags = [],
      readonly_written = False\<rparr>"

text \<open>\<open>usize::checked_next_power_of_two\<close> on the 32-bit target.\<close>

fun next_power_of_two :: "nat \<Rightarrow> nat" where
  "next_power_of_two n = (if n \<le> 1 then 1 else 2 * next_power_of_two ((n + 1) div 2))"

declare next_power_of_two.simps [simp del]

definition checked_next_power_of_two :: "nat \<Rightarrow> nat option" where
  "checked_next_power_of_two n = (if n \<le> 2 ^ 31 then Some (next_power_of_two n) else None)"

lemma checked_next_power_of_two_code [code]:
  "checked_next_power_of_two n = (if int n \<le> 2147483648 then Some (next_power_of_two n) else None)"
  by (simp add: checked_next_power_of_two_def)

section \<open>Operations\<close>

definition page_message :: "bytes \<Rightarrow> bytes option \<Rightarrow> bytes" where
  "page_message data nonce =
     (case nonce of Some nonce \<Rightarrow> [0x01] @ nonce | None \<Rightarrow> replicate 13 0) @ data"

definition get_page_hash :: "(bytes \<Rightarrow> bytes) \<Rightarrow> bytes \<Rightarrow> bytes option \<Rightarrow> hasher \<Rightarrow> hash_output \<times> hasher" where
  "get_page_hash H data nonce hs =
     (let hs1 = hasher_update [0x00] (hasher_reset hs);
          hs2 = (case nonce of Some nonce \<Rightarrow> hasher_update nonce (hasher_update [0x01] hs1)
                             | None \<Rightarrow> hasher_update (replicate 13 0) hs1)
      in digest_inplace H (hasher_update data hs2))"

text \<open>Access to the two halves of the state, \<open>map_err\<close> with an error of \<open>MemoryError\<close>, and panics.\<close>

definition generic :: "string \<Rightarrow> ('k, 'z, 's, 'a) om" where
  "generic msg = throwS (GenericError msg)"

definition panic :: "string \<Rightarrow> ('k, 'z, 's, 'a) om" where
  "panic msg = throwS (Panicked msg)"

definition hash_page :: "'k crypto \<Rightarrow> bytes \<Rightarrow> bytes option \<Rightarrow> ('k, 'z, 's, hash_output) om" where
  "hash_page cr data nonce = (\<lambda>(w, m).
     case get_page_hash (sha256 cr) data nonce (om_hasher m) of
       (h, hs) \<Rightarrow> ((w, m\<lparr>om_hasher := hs\<rparr>), Ok h))"

definition ask_host :: "bytes \<Rightarrow> ('k, 'z, 's, bytes) om" where
  "ask_host message = (\<lambda>(w, m).
     case interrupt message w of (w', res) \<Rightarrow> ((w', m), map_err (\<lambda>e. GenericError (InterruptError_as_str e)) res))"

definition lift_result :: "(memory_error, 'a) result \<Rightarrow> ('k, 'z, 's, 'a) om" where
  "lift_result r = (case r of Inl e \<Rightarrow> throwS e | Inr a \<Rightarrow> returnS a)"

definition encrypt_page :: "'k crypto \<Rightarrow> page \<Rightarrow> ('k, 'z, 's, bytes \<times> bytes) om" where
  "encrypt_page cr data = (\<lambda>(w, m).
     case encrypt (aes_block cr) data (aes_ctr w) of
       (ctr, res) \<Rightarrow> ((w\<lparr>aes_ctr := ctr\<rparr>, m), map_err (\<lambda>_. GenericError ''AES encryption failed'') res))"

text \<open>
  The loop that fetches the rest of a proof: as long as fewer than \<open>n\<close> elements have come, it sends
  \<open>request\<close>, decodes the answer into its count and its elements, and feeds these to the verifier. A
  host that keeps sending empty continuations keeps it running forever; \<^const>\<open>None\<close> is that it does
  not return. Both users of the loop have the same error messages.
\<close>

partial_function (option) proof_loop ::
  "bytes \<Rightarrow> (bytes \<Rightarrow> (nat \<times> hash_output list) option) \<Rightarrow>
   (hash_output \<Rightarrow> 'v \<times> hasher \<Rightarrow> 'v \<times> hasher) \<Rightarrow> nat \<Rightarrow> nat \<Rightarrow> 'v \<times> hasher \<Rightarrow> ('k, 'z) world_scheme \<Rightarrow>
   ((('k, 'z) world_scheme \<times> 'v \<times> hasher) \<times> (memory_error, unit) result) option" where
  "proof_loop request decode step n done v w =
     (if done < n then
        (case interrupt request w of
           (w1, Inl e) \<Rightarrow> Some ((w1, v), Err (GenericError (InterruptError_as_str e)))
         | (w1, Inr data) \<Rightarrow>
             (case decode data of
                None \<Rightarrow> Some ((w1, v), Err (GenericError ''Invalid continued proof data''))
              | Some (t, elements) \<Rightarrow>
                  if t \<noteq> length elements
                  then Some ((w1, v), Err (GenericError
                    ''Continued proof size does not match the expected number of elements''))
                  else proof_loop request decode step n (done + t) (fold step elements v) w1))
      else Some ((w, v), Ok ()))"

declare proof_loop.simps [code]

definition decode_commit_continued :: "bytes \<Rightarrow> (nat \<times> hash_output list) option" where
  "decode_commit_continued data =
     (case CommitPageProofContinuedResponse_deserialize data of
        Inl _ \<Rightarrow> None | Inr r \<Rightarrow> Some (unat (ccr_t r), ccr_proof r))"

definition decode_get_continued :: "bytes \<Rightarrow> (nat \<times> hash_output list) option" where
  "decode_get_continued data =
     (case GetPageProofContinuedResponse_deserialize data of
        Inl _ \<Rightarrow> None | Inr r \<Rightarrow> Some (unat (gcr_t r), gcr_proof r))"

text \<open>The first elements of a proof, and then the loop.\<close>

definition run_verifier ::
  "bytes \<Rightarrow> (bytes \<Rightarrow> (nat \<times> hash_output list) option) \<Rightarrow>
   (hash_output \<Rightarrow> 'v \<times> hasher \<Rightarrow> 'v \<times> hasher) \<Rightarrow> 'v \<Rightarrow> hash_output list \<Rightarrow> nat \<Rightarrow> ('k, 'z, 's, 'v) om" where
  "run_verifier request decode step v elements n = (\<lambda>(w, m).
     case proof_loop request decode step n (length elements) (fold step elements (v, om_hasher m)) w of
       None \<Rightarrow> ((w, m), Err Diverged)
     | Some ((w', v', hs), res) \<Rightarrow>
         ((w', m\<lparr>om_hasher := hs\<rparr>), (case res of Inl e \<Rightarrow> Err e | Inr _ \<Rightarrow> Ok v')))"

definition commit_page_at :: "'k crypto \<Rightarrow> nat \<Rightarrow> ('k, 'z, 's, unit) om" where
  "commit_page_at cr index = (\<lambda>(w, m).
     (if length (cached_pages m) \<le> index then panic ''index out of bounds''
     else let cached_page = cached_pages m ! index in
     if \<not> cp_valid cached_page then panic ''Trying to commit an invalid page''
     else bindS (encrypt_page cr (cp_page cached_page)) (\<lambda>(nonce, payload).
       bindS (hash_page cr payload (Some nonce)) (\<lambda>new_page_hash.
       if length payload \<noteq> PAGE_SIZE then panic ''assertion failed''
       else bindS (ask_host (CommitPageMessage_serialize
           (CommitPageMessage_new (section_kind m) (cp_idx cached_page) True nonce payload))) (\<lambda>proof_data.
       bindS (lift_result (map_err (\<lambda>_. GenericError ''Invalid proof data'')
           (CommitPageProofResponse_deserialize proof_data))) (\<lambda>proof_response.
       if cpr_n proof_response = 0 then generic ''Proof must contain at least one element''
       else if unat (cpr_t proof_response) \<noteq> length (cpr_proof proof_response)
       then generic ''Proof fragment size does not match the expected number of elements''
       else case checked_next_power_of_two (unat (n_pages m)) of
         None \<Rightarrow> panic ''Number of pages exceeds the maximum allowed''
       | Some n_adjusted \<Rightarrow>
           bindS (run_verifier
               (CommitPageProofContinuedMessage_serialize CommitPageProofContinuedMessage_new)
               decode_commit_continued (feed_update (sha256 cr))
               (begin_update_proof (merkle_root m) (cpr_new_root proof_response) (cp_hash cached_page)
                 new_page_hash (unat (cp_idx cached_page)) n_adjusted)
               (cpr_proof proof_response) (unat (cpr_n proof_response))) (\<lambda>verifier.
           if \<not> update_verified verifier then generic ''Merkle update verification failed''
           else (\<lambda>(w, m). ((w, m\<lparr>merkle_root := cpr_new_root proof_response\<rparr>), Ok ())))))))) (w, m))"

definition decrypt_page :: "'k crypto \<Rightarrow> bytes \<Rightarrow> bytes \<Rightarrow> ('k, 'z, 's, page) om" where
  "decrypt_page cr nonce data = (\<lambda>(w, m).
     (case decrypt (aes_block cr) (aes_ctr w) nonce data of
        Inl _ \<Rightarrow> generic ''AES decryption failed''
      | Inr decrypted_data \<Rightarrow>
          if length decrypted_data \<noteq> PAGE_SIZE then generic ''Decrypted page size mismatch''
          else returnS decrypted_data) (w, m))"

text \<open>The two kinds of proof \<open>load_page\<close> accepts.\<close>

definition load_merkle :: "'k crypto \<Rightarrow> u32 \<Rightarrow> GetPageResponse \<Rightarrow> hash_output \<Rightarrow> ('k, 'z, 's, page \<times> hash_output) om" where
  "load_merkle cr page_index page_response page_hash = (\<lambda>(w, m).
     (if unat (gpr_t page_response) \<noteq> length (gpr_proof page_response)
      then generic ''Proof fragment size does not match the expected number of elements''
      else case checked_next_power_of_two (unat (n_pages m)) of
        None \<Rightarrow> panic ''Too many pages''
      | Some n_adjusted \<Rightarrow>
          bindS (run_verifier
              (GetPageProofContinuedMessage_serialize GetPageProofContinuedMessage_new)
              decode_get_continued (feed (sha256 cr))
              (begin_inclusion_proof (merkle_root m) page_hash (unat page_index) n_adjusted)
              (gpr_proof page_response) (unat (gpr_n page_response))) (\<lambda>verifier.
          if \<not> iv_verified verifier then generic ''Merkle inclusion verification failed''
          else if gpr_is_encrypted page_response
          then bindS (decrypt_page cr (gpr_nonce page_response) (gpr_page_data page_response))
                 (\<lambda>page_data. returnS (page_data, page_hash))
          else returnS (gpr_page_data page_response, page_hash))) (w, m))"

definition load_tagged :: "'k crypto \<Rightarrow> u32 \<Rightarrow> GetPageResponse \<Rightarrow> hash_output \<Rightarrow> ('k, 'z, 's, page \<times> hash_output) om" where
  "load_tagged cr page_index page_response page_hash = (\<lambda>(w, m).
     (if gpr_is_encrypted page_response then generic ''HMAC proof not allowed for encrypted pages''
      else if gpr_n page_response \<noteq> 1 \<or> gpr_t page_response \<noteq> 1
      then generic ''HMAC proof must contain exactly one element''
      else if length (gpr_proof page_response) \<noteq> 1
      then generic ''HMAC proof must contain exactly one element''
      else let hmac = gpr_proof page_response ! 0 in
      if section_kind m \<noteq> Code then generic ''HMAC proof not allowed for non-code section''
      else let app_auth_key = get_vapp_auth_key (sha256 cr) (vm_auth_key cr) (om_vapp_hash m) in
      bindS (lift_result (map_err (\<lambda>_. GenericError ''HMAC computation failed'')
          (compute_code_page_hmac (hmac_sha256 cr) app_auth_key (om_vapp_hash m) page_index page_hash)))
        (\<lambda>expected_hmac.
      if hmac \<noteq> expected_hmac then generic ''HMAC verification failed''
      else (\<lambda>(w, m). ((w, m\<lparr>accepted_tags := accepted_tags m @ [(page_index, page_hash)]\<rparr>),
             Ok (gpr_page_data page_response, page_hash))))) (w, m))"

definition load_page :: "'k crypto \<Rightarrow> u32 \<Rightarrow> ('k, 'z, 's, page \<times> hash_output) om" where
  "load_page cr page_index = (\<lambda>(w, m).
     bindS (ask_host (GetPageMessage_serialize (GetPageMessage_new (section_kind m) page_index)))
       (\<lambda>data.
     bindS (lift_result (map_err (\<lambda>_. GenericError ''Invalid page data'') (GetPageResponse_deserialize data)))
       (\<lambda>page_response.
     bindS (hash_page cr (gpr_page_data page_response)
         (if gpr_is_encrypted page_response then Some (gpr_nonce page_response) else None))
       (\<lambda>page_hash.
     case gpr_proof_kind page_response of
       Merkle \<Rightarrow> load_merkle cr page_index page_response page_hash
     | Hmac \<Rightarrow> load_tagged cr page_index page_response page_hash))) (w, m))"

section \<open>The cache\<close>

definition find_slot :: "(CachedPage \<Rightarrow> bool) \<Rightarrow> CachedPage list \<Rightarrow> nat option" where
  "find_slot p cache = List.find (\<lambda>i. p (cache ! i)) [0..<length cache]"

text \<open>A call of the eviction strategy, which may panic.\<close>

definition notify :: "('s \<Rightarrow> 's option) \<Rightarrow> ('k, 'z, 's, unit) om" where
  "notify f = (\<lambda>(w, m). case f (evict_state m) of
     None \<Rightarrow> panic ''eviction strategy'' (w, m)
   | Some s \<Rightarrow> ((w, m\<lparr>evict_state := s\<rparr>), Ok ()))"

definition get_cached_page_ref :: "u32 \<Rightarrow> nat \<Rightarrow> ('k, 'z, 's, nat) om" where
  "get_cached_page_ref page_index slot = (\<lambda>(w, m).
     let m1 = m\<lparr>last_accessed_page := Some (page_index, slot)\<rparr> in
     if slot < length (cached_pages m1) then ((w, m1), Ok slot)
     else panic ''index out of bounds'' (w, m1))"

text \<open>Make room: commit the victim if it was modified, and invalidate it.\<close>

definition evict_page :: "'k crypto \<Rightarrow> 's eviction_strategy \<Rightarrow> ('k, 'z, 's, nat) om" where
  "evict_page cr es = (\<lambda>(w, m).
     (case choose_victim es (evict_state m) of
       None \<Rightarrow> panic ''unreachable''
     | Some evict_index \<Rightarrow>
         if length (cached_pages m) \<le> evict_index then panic ''index out of bounds''
         else bindS (if \<not> is_readonly m \<and> cp_modified (cached_pages m ! evict_index)
                     then commit_page_at cr evict_index else returnS ()) (\<lambda>_ (w, m).
           let evicted_page_index = cp_idx (cached_pages m ! evict_index);
               m1 = m\<lparr>cached_pages := (cached_pages m)
                 [evict_index := (cached_pages m ! evict_index)\<lparr>cp_valid := False\<rparr>]\<rparr>
           in bindS (notify (on_invalidate es evict_index evicted_page_index))
                (\<lambda>_. returnS evict_index) (w, m1))) (w, m))"

definition store_page :: "u32 \<Rightarrow> nat \<Rightarrow> page \<times> hash_output \<Rightarrow> ('k, 'z, 's, unit) om" where
  "store_page page_index slot p = (\<lambda>(w, m).
     ((w, m\<lparr>cached_pages := (cached_pages m)
        [slot := \<lparr>cp_idx = page_index, cp_page = fst p, cp_hash = snd p, cp_valid = True, cp_modified = False\<rparr>]\<rparr>),
      Ok ()))"

definition search_page :: "'k crypto \<Rightarrow> 's eviction_strategy \<Rightarrow> u32 \<Rightarrow> ('k, 'z, 's, nat) om" where
  "search_page cr es page_index = (\<lambda>(w, m).
     (case find_slot (\<lambda>c. cp_valid c \<and> cp_idx c = page_index) (cached_pages m) of
        Some i \<Rightarrow> bindS (notify (on_access es i page_index)) (\<lambda>_. get_cached_page_ref page_index i)
      | None \<Rightarrow>
          bindS (case find_slot (\<lambda>c. \<not> cp_valid c) (cached_pages m) of
                   Some slot \<Rightarrow> returnS slot | None \<Rightarrow> evict_page cr es) (\<lambda>slot.
          bindS (load_page cr page_index) (\<lambda>p.
          bindS (store_page page_index slot p) (\<lambda>_.
          bindS (notify (on_load es slot page_index)) (\<lambda>_.
            get_cached_page_ref page_index slot))))) (w, m))"

definition om_get_page :: "'k crypto \<Rightarrow> 's eviction_strategy \<Rightarrow> u32 \<Rightarrow> ('k, 'z, 's, nat) om" where
  "om_get_page cr es page_index = (\<lambda>(w, m).
     case last_accessed_page m of
       Some (last_page_index, last_slot) \<Rightarrow>
         if page_index = last_page_index then get_cached_page_ref page_index last_slot (w, m)
         else search_page cr es page_index (w, m)
     | None \<Rightarrow> search_page cr es page_index (w, m))"

definition outsourced :: "'k crypto \<Rightarrow> 's eviction_strategy \<Rightarrow> (('k, 'z) world_scheme, 's OutsourcedMemory, nat) PagedMemory" where
  "outsourced cr es =
     \<lparr>get_page = om_get_page cr es,
      deref = (\<lambda>m slot. cp_page (cached_pages m ! slot)),
      deref_mut = (\<lambda>m slot f. m\<lparr>cached_pages := (cached_pages m)
        [slot := (cached_pages m ! slot)
          \<lparr>cp_modified := True, cp_page := f (cp_page (cached_pages m ! slot))\<rparr>],
        readonly_written := readonly_written m \<or> is_readonly m\<rparr>)\<rparr>"

section \<open>What an operation may change\<close>

text \<open>\<open>steps P op\<close>: whatever \<open>op\<close> returns, its state is related to the one it started in.\<close>

definition steps :: "('s \<Rightarrow> 's \<Rightarrow> bool) \<Rightarrow> ('s, 'e, 'a) stm \<Rightarrow> bool" where
  "steps P op \<longleftrightarrow> (\<forall>s. P s (fst (op s)))"

lemma stepsD: "steps P op \<Longrightarrow> op s = (s', r) \<Longrightarrow> P s s'"
  by (metis steps_def fst_conv)

lemma steps_bind:
  assumes "transp P" "steps P m" "\<And>a. steps P (f a)"
  shows "steps P (bindS m f)"
  unfolding steps_def
proof
  fix s
  obtain s1 r where m: "m s = (s1, r)" by fastforce
  then have "P s s1" using assms(2) by (auto dest: stepsD)
  moreover have "P s1 (fst (f a s1))" for a using assms(3) by (simp add: steps_def)
  ultimately show "P s (fst (bindS m f s))"
    using transpD [OF assms(1)] by (cases r) (auto simp: bindS_def m)
qed

lemma steps_return: "reflp P \<Longrightarrow> steps P (returnS a)"
  by (simp add: steps_def reflp_def)

lemma steps_throw: "reflp P \<Longrightarrow> steps P (throwS e)"
  by (simp add: steps_def reflp_def)

lemma steps_state: "(\<And>w m. steps P (f w m)) \<Longrightarrow> steps P (\<lambda>(w, m). f w m (w, m))"
  by (auto simp: steps_def)

lemma steps_lift: "reflp P \<Longrightarrow> steps P (lift_result r)"
  by (cases r) (auto simp: lift_result_def intro: steps_return steps_throw)

text \<open>
  The operations below the cache leave it alone: they move on in the world, hash, accept tags and
  replace the root.
\<close>

definition om_touch :: "('k, 'z) world_scheme \<times> 's OutsourcedMemory \<Rightarrow> ('k, 'z) world_scheme \<times> 's OutsourcedMemory \<Rightarrow> bool" where
  "om_touch s s' \<longleftrightarrow> world_le (fst s) (fst s') \<and>
     (\<exists>hs ts r. snd s' = (snd s)\<lparr>om_hasher := hs, accepted_tags := ts, merkle_root := r\<rparr> \<and>
        set (hasher_log (om_hasher (snd s))) \<subseteq> set (hasher_log hs) \<and> set (accepted_tags (snd s)) \<subseteq> set ts)"

text \<open>Any operation keeps what is fixed when the memory is made, and its log and tags grow.\<close>

definition om_le :: "('k, 'z) world_scheme \<times> 's OutsourcedMemory \<Rightarrow> ('k, 'z) world_scheme \<times> 's OutsourcedMemory \<Rightarrow> bool" where
  "om_le s s' \<longleftrightarrow> world_le (fst s) (fst s') \<and>
     set (hasher_log (om_hasher (snd s))) \<subseteq> set (hasher_log (om_hasher (snd s'))) \<and>
     set (accepted_tags (snd s)) \<subseteq> set (accepted_tags (snd s')) \<and> readonly_written (snd s') = readonly_written (snd s) \<and>
     n_pages (snd s') = n_pages (snd s) \<and> is_readonly (snd s') = is_readonly (snd s) \<and>
     section_kind (snd s') = section_kind (snd s) \<and>
     length (cached_pages (snd s')) = length (cached_pages (snd s))"

lemma om_touchI:
  assumes "world_le w w'" "set (hasher_log (om_hasher m)) \<subseteq> set (hasher_log hs)" "set (accepted_tags m) \<subseteq> set ts"
  shows "om_touch (w, m) (w', m\<lparr>om_hasher := hs, accepted_tags := ts, merkle_root := r\<rparr>)"
  unfolding om_touch_def fst_conv snd_conv using assms by blast

lemma om_touchE:
  assumes "om_touch (w, m) (w', m')"
  obtains hs ts r where "world_le w w'" "m' = m\<lparr>om_hasher := hs, accepted_tags := ts, merkle_root := r\<rparr>"
    "set (hasher_log (om_hasher m)) \<subseteq> set (hasher_log hs)" "set (accepted_tags m) \<subseteq> set ts"
  using assms unfolding om_touch_def fst_conv snd_conv by blast

lemma om_touch_refl: "om_touch s s"
proof (cases s)
  case (Pair w m)
  then show ?thesis using om_touchI [of w w m "om_hasher m" "accepted_tags m" "merkle_root m"] by simp
qed

lemma om_touch_trans: "om_touch a b \<Longrightarrow> om_touch b c \<Longrightarrow> om_touch a c"
proof (cases a; cases b; cases c)
  fix w m w1 m1 w2 m2
  assume "a = (w, m)" "b = (w1, m1)" "c = (w2, m2)" and ab: "om_touch a b" and bc: "om_touch b c"
  note eqs = this(1-3)
  obtain hs ts r where 1: "world_le w w1" "m1 = m\<lparr>om_hasher := hs, accepted_tags := ts, merkle_root := r\<rparr>"
    "set (hasher_log (om_hasher m)) \<subseteq> set (hasher_log hs)" "set (accepted_tags m) \<subseteq> set ts"
    using ab unfolding eqs by (rule om_touchE)
  obtain hs' ts' r' where 2: "world_le w1 w2" "m2 = m1\<lparr>om_hasher := hs', accepted_tags := ts', merkle_root := r'\<rparr>"
    "set (hasher_log (om_hasher m1)) \<subseteq> set (hasher_log hs')" "set (accepted_tags m1) \<subseteq> set ts'"
    using bc unfolding eqs by (rule om_touchE)
  have "set (hasher_log (om_hasher m)) \<subseteq> set (hasher_log hs')" "set (accepted_tags m) \<subseteq> set ts'"
    using 1(2-4) 2(3,4) by auto
  with om_touchI [OF world_le_trans [OF 1(1) 2(1)], of m hs' ts' r'] show "om_touch a c"
    by (simp add: eqs 1(2) 2(2))
qed

lemma om_touch_preorder: "reflp om_touch" "transp om_touch"
proof -
  show "reflp om_touch" by (rule reflpI) (rule om_touch_refl)
  show "transp om_touch" by (rule transpI) (rule om_touch_trans)
qed

lemma om_le_trans: "om_le a b \<Longrightarrow> om_le b c \<Longrightarrow> om_le a c"
  unfolding om_le_def by (intro conjI; elim conjE) (auto elim: world_le_trans)

lemma om_le_preorder: "reflp om_le" "transp om_le"
proof -
  show "reflp om_le" by (rule reflpI) (simp add: om_le_def)
  show "transp om_le" by (rule transpI) (rule om_le_trans)
qed

lemma om_touch_le: "om_touch s s' \<Longrightarrow> om_le s s'"
  by (cases s; cases s'; simp only:; erule om_touchE) (simp add: om_le_def)

lemma steps_touch_le: "steps om_touch op \<Longrightarrow> steps om_le op"
  unfolding steps_def using om_touch_le by blast

lemmas touch_intros = steps_bind [OF om_touch_preorder(2)] steps_return [OF om_touch_preorder(1)]
  steps_throw [OF om_touch_preorder(1)] steps_lift [OF om_touch_preorder(1)] steps_state

lemma get_page_hash_eq:
  "fst (get_page_hash H data nonce hs) = H (leaf_message (page_message data nonce))"
  "hasher_log (snd (get_page_hash H data nonce hs)) =
     hasher_log hs @ [leaf_message (page_message data nonce)]"
  by (auto simp: get_page_hash_def page_message_def leaf_message_def digest_inplace_def hasher_update_def
      hasher_reset_def split: option.splits)

lemma touch_hash_page: "steps om_touch (hash_page cr data nonce)"
  unfolding steps_def
proof
  fix s :: "('a, 'b) world_scheme \<times> 'c OutsourcedMemory"
  obtain w m where s: "s = (w, m)" by fastforce
  obtain h hs where g: "get_page_hash (sha256 cr) data nonce (om_hasher m) = (h, hs)" by fastforce
  then have "set (hasher_log (om_hasher m)) \<subseteq> set (hasher_log hs)"
    using get_page_hash_eq(2) [of "sha256 cr" data nonce "om_hasher m"] by auto
  from om_touchI [OF world_le_refl this, of "accepted_tags m" w "merkle_root m"]
  show "om_touch s (fst (hash_page cr data nonce s))" by (simp add: s hash_page_def g)
qed

lemma touch_world: "world_le w w' \<Longrightarrow> om_touch (w, m) (w', m)"
  using om_touchI [of w w' m "om_hasher m" "accepted_tags m" "merkle_root m"] by simp

lemma touch_ask_host: "steps om_touch (ask_host message)"
  unfolding steps_def ask_host_def by (auto intro!: touch_world dest: interrupt_le split: prod.splits)

lemma encrypt_world:
  "encrypt cx data ctr = (ctr', res) \<Longrightarrow> ctr' = ctr\<lparr>aes_nonce := increment_be_slice (aes_nonce ctr)\<rparr>"
  by (auto simp: encrypt_def encrypt_with_initial_counter_def Let_def)

lemma touch_encrypt_page: "steps om_touch (encrypt_page cr data)"
  unfolding steps_def encrypt_page_def
  by (auto intro!: touch_world dest!: encrypt_world simp: world_le_def split: prod.splits)

text \<open>What the verifier loop does: it folds the step over some list of further proof elements.\<close>

definition decodes32 :: "(bytes \<Rightarrow> (nat \<times> hash_output list) option) \<Rightarrow> bool" where
  "decodes32 decode \<longleftrightarrow> (\<forall>data t els. decode data = Some (t, els) \<longrightarrow> arrays32 els)"

lemma decodes32_commit: "decodes32 decode_commit_continued"
proof -
  have "arrays32 (ccr_proof r)" if "CommitPageProofContinuedResponse_deserialize data = Ok r" for data r
  proof -
    have "CommitPageProofContinuedResponse_wf r"
      by (rule commit_continued_response.des_wf [of data]) (simp add: that)
    then show ?thesis by (simp add: CommitPageProofContinuedResponse_wf_def)
  qed
  then show ?thesis by (auto simp: decodes32_def decode_commit_continued_def split: sum.splits)
qed

lemma decodes32_get: "decodes32 decode_get_continued"
proof -
  have "arrays32 (gcr_proof r)" if "GetPageProofContinuedResponse_deserialize data = Ok r" for data r
  proof -
    have "GetPageProofContinuedResponse_wf r"
      by (rule get_page_continued_response.des_wf [of data]) (simp add: that)
    then show ?thesis by (simp add: GetPageProofContinuedResponse_wf_def)
  qed
  then show ?thesis by (auto simp: decodes32_def decode_get_continued_def split: sum.splits)
qed

lemma arrays32_append [simp]: "arrays32 (xs @ ys) \<longleftrightarrow> arrays32 xs \<and> arrays32 ys"
  by (auto simp: arrays32_def)

lemma arrays32_Nil [simp]: "arrays32 []"
  by (simp add: arrays32_def)

lemma proof_loop_folds:
  assumes "proof_loop request decode step n k v w = Some ((w', v'), res)"
  shows "world_le w w' \<and> (\<exists>els. v' = fold step els v \<and> (decodes32 decode \<longrightarrow> arrays32 els))"
proof -
  have "case out of ((w', v'), res) \<Rightarrow>
      world_le w w' \<and> (\<exists>els. v' = fold step els v \<and> (decodes32 decode \<longrightarrow> arrays32 els))"
    if "proof_loop request decode step n k v w = Some out" for out
  proof (rule proof_loop.raw_induct [OF _ that], goal_cases)
    case (1 loop request decode step n k v w out)
    show ?case
    proof (cases "k < n")
      case False
      with 1(2) have "out = ((w, v), Ok ())" by simp
      then show ?thesis by (auto intro: exI [of _ "[]"])
    next
      case True
      obtain w1 r where i: "interrupt request w = (w1, r)" by fastforce
      note le = interrupt_le [OF i]
      have stop: "out = ((w1, v), e) \<Longrightarrow> ?thesis" for e using le by (auto intro: exI [of _ "[]"])
      show ?thesis
      proof (cases r)
        case (Inl e)
        with 1(2) True i have "out = ((w1, v), Err (GenericError (InterruptError_as_str e)))" by simp
        then show ?thesis by (rule stop)
      next
        case (Inr data)
        show ?thesis
        proof (cases "decode data")
          case None
          with 1(2) True i Inr have "out = ((w1, v), Err (GenericError ''Invalid continued proof data''))"
            by simp
          then show ?thesis by (rule stop)
        next
          case (Some p)
          obtain t els where p: "p = (t, els)" by fastforce
          show ?thesis
          proof (cases "t = length els")
            case False
            with 1(2) True i Inr Some p have "out = ((w1, v), Err (GenericError
                ''Continued proof size does not match the expected number of elements''))" by simp
            then show ?thesis by (rule stop)
          next
            case t: True
            obtain w2 v2 res2 where out: "out = ((w2, v2), res2)" by (metis surj_pair)
            from 1(2) True i Inr Some p t
            have "loop request decode step n (k + t) (fold step els v) w1 = Some out" by simp
            from 1(1) [OF this] out obtain els' where IH: "world_le w1 w2"
              "v2 = fold step els' (fold step els v)" "decodes32 decode \<longrightarrow> arrays32 els'" by auto
            have "decodes32 decode \<longrightarrow> arrays32 els" using Some p by (auto simp: decodes32_def)
            with IH show ?thesis
              using world_le_trans [OF le] out by (auto intro!: exI [of _ "els @ els'"])
          qed
        qed
      qed
    qed
  qed
  from this [OF assms] show ?thesis by simp
qed

definition grows :: "(hash_output \<Rightarrow> 'v \<times> hasher \<Rightarrow> 'v \<times> hasher) \<Rightarrow> bool" where
  "grows step \<longleftrightarrow> (\<forall>els v hs. set (hasher_log hs) \<subseteq> set (hasher_log (snd (fold step els (v, hs)))))"

lemma grows_feed: "grows (feed H)"
proof -
  have "set (hasher_log hs) \<subseteq> set (hasher_log (snd (feed_all H els (v, hs))))" for els v hs
    using feed_all_eq [of H els v hs] by auto
  then show ?thesis by (simp add: grows_def feed_all_def)
qed

lemma grows_feed_update: "grows (feed_update H)"
proof -
  have "set (hasher_log hs) \<subseteq> set (hasher_log (snd (feed_update_all H els (v, hs))))" for els v hs
    using feed_update_all_eq [of H els v hs] by auto
  then show ?thesis by (simp add: grows_def feed_update_all_def)
qed

lemma run_verifier_folds:
  assumes "run_verifier request decode step v els n (w, m) = ((w', m'), res)"
  shows "world_le w w' \<and> (m' = m \<or> (\<exists>els' v'. m' = m\<lparr>om_hasher := snd (fold step (els @ els') (v, om_hasher m))\<rparr> \<and>
    v' = fst (fold step (els @ els') (v, om_hasher m)) \<and> (\<forall>x. res = Ok x \<longrightarrow> x = v') \<and>
    (decodes32 decode \<longrightarrow> arrays32 els')))
    \<and> (\<forall>x. res = Ok x \<longrightarrow> (\<exists>els'. m' = m\<lparr>om_hasher := snd (fold step (els @ els') (v, om_hasher m))\<rparr> \<and>
    x = fst (fold step (els @ els') (v, om_hasher m)) \<and> (decodes32 decode \<longrightarrow> arrays32 els')))"
proof (cases "proof_loop request decode step n (length els) (fold step els (v, om_hasher m)) w")
  case None
  with assms show ?thesis by (auto simp: run_verifier_def)
next
  case (Some out)
  obtain w1 v1 hs1 r1 where out: "out = ((w1, (v1, hs1)), r1)" by (metis surj_pair)
  from proof_loop_folds [OF Some [unfolded out]] obtain els' where
    f: "world_le w w1" "(v1, hs1) = fold step els' (fold step els (v, om_hasher m))"
      "decodes32 decode \<longrightarrow> arrays32 els'" by auto
  have e: "fold step (els @ els') (v, om_hasher m) = (v1, hs1)" using f(2) by simp
  from assms Some out have "w' = w1" "m' = m\<lparr>om_hasher := hs1\<rparr>" "\<And>x. res = Ok x \<Longrightarrow> x = v1"
    by (auto simp: run_verifier_def split: sum.splits)
  with f(1,3) e show ?thesis by (metis fst_conv snd_conv)
qed

lemma touch_run_verifier: "grows step \<Longrightarrow> steps om_touch (run_verifier request decode step v els n)"
  unfolding steps_def
proof
  fix s :: "('b, 'c) world_scheme \<times> 'd OutsourcedMemory"
  assume g: "grows step"
  obtain w m where s: "s = (w, m)" by fastforce
  obtain w' m' res where r: "run_verifier request decode step v els n (w, m) = ((w', m'), res)"
    by (metis surj_pair)
  from run_verifier_folds [OF r] have le: "world_le w w'" and
    m': "m' = m \<or> (\<exists>els'. m' = m\<lparr>om_hasher := snd (fold step els' (v, om_hasher m))\<rparr>)"
    by blast+
  from m' have "om_touch (w, m) (w', m')"
  proof
    assume "m' = m"
    with touch_world [OF le] show ?thesis by simp
  next
    assume "\<exists>els'. m' = m\<lparr>om_hasher := snd (fold step els' (v, om_hasher m))\<rparr>"
    then obtain els' where e: "m' = m\<lparr>om_hasher := snd (fold step els' (v, om_hasher m))\<rparr>" by blast
    have "set (hasher_log (om_hasher m)) \<subseteq> set (hasher_log (snd (fold step els' (v, om_hasher m))))"
      using g by (simp add: grows_def)
    from om_touchI [OF le this, of "accepted_tags m" "merkle_root m"] e show ?thesis by simp
  qed
  then show "om_touch s (fst (run_verifier request decode step v els n s))" by (simp add: s r)
qed

lemma touch_root: "steps om_touch (\<lambda>(w, m). ((w, m\<lparr>merkle_root := r\<rparr>), Ok ()))"
  unfolding steps_def
proof
  fix s :: "('a, 'b) world_scheme \<times> 'c OutsourcedMemory"
  obtain w m where s: "s = (w, m)" by fastforce
  show "om_touch s (fst ((\<lambda>(w, m). ((w, m\<lparr>merkle_root := r\<rparr>), Ok ())) s))"
    using om_touchI [of w w m "om_hasher m" "accepted_tags m" r] by (simp add: s)
qed

lemma touch_tag: "steps om_touch (\<lambda>(w, m). ((w, m\<lparr>accepted_tags := accepted_tags m @ [x]\<rparr>), Ok y))"
  unfolding steps_def
proof
  fix s :: "('a, 'b) world_scheme \<times> 'c OutsourcedMemory"
  obtain w m where s: "s = (w, m)" by fastforce
  show "om_touch s (fst ((\<lambda>(w, m). ((w, m\<lparr>accepted_tags := accepted_tags m @ [x]\<rparr>), Ok y)) s))"
    using om_touchI [of w w m "om_hasher m" "accepted_tags m @ [x]" "merkle_root m"] by (auto simp: s)
qed

lemmas touch_ops = touch_intros touch_hash_page touch_ask_host touch_encrypt_page touch_root touch_tag
  touch_run_verifier [OF grows_feed] touch_run_verifier [OF grows_feed_update]

lemma touch_generic: "steps om_touch (generic msg)" "steps om_touch (panic msg)"
  unfolding generic_def panic_def by (rule touch_ops)+

lemma touch_decrypt_page: "steps om_touch (decrypt_page cr nonce data)"
  unfolding decrypt_page_def
  by (intro touch_ops) (auto split: sum.splits intro: touch_generic touch_ops)

lemma touch_commit: "steps om_touch (commit_page_at cr index)"
  unfolding commit_page_at_def
  by (intro touch_intros(5))
    (auto simp: Let_def split: prod.splits option.splits
      intro!: touch_ops(1,2,3,4) touch_ops(6-) touch_generic)

lemma touch_load_merkle: "steps om_touch (load_merkle cr page_index page_response page_hash)"
  unfolding load_merkle_def
  by (intro touch_intros(5))
    (auto split: option.splits intro!: touch_ops(1,2,3,4) touch_ops(6-) touch_generic touch_decrypt_page)

lemma touch_load_tagged: "steps om_touch (load_tagged cr page_index page_response page_hash)"
  unfolding load_tagged_def
  by (intro touch_intros(5))
    (auto simp: Let_def split: option.splits intro!: touch_ops(1,2,3,4) touch_ops(6-) touch_generic)

lemma touch_load: "steps om_touch (load_page cr page_index)"
  unfolding load_page_def
  by (intro touch_intros(5))
    (auto split: PageProofKind.splits
      intro!: touch_ops(1,2,3,4) touch_ops(6-) touch_load_merkle touch_load_tagged)

text \<open>The operations on the cache.\<close>

lemmas le_intros = steps_bind [OF om_le_preorder(2)] steps_return [OF om_le_preorder(1)]
  steps_throw [OF om_le_preorder(1)]

lemma le_panic: "steps om_le (panic msg)"
  unfolding panic_def by (rule le_intros)

lemma om_leI:
  assumes "world_le w w'" "set (hasher_log (om_hasher m)) \<subseteq> set (hasher_log (om_hasher m'))"
    "set (accepted_tags m) \<subseteq> set (accepted_tags m')" "n_pages m' = n_pages m" "is_readonly m' = is_readonly m"
    "section_kind m' = section_kind m" "length (cached_pages m') = length (cached_pages m)"
    "readonly_written m' = readonly_written m"
  shows "om_le (w, m) (w', m')"
  using assms by (simp add: om_le_def)

lemma le_notify: "steps om_le (notify f)"
  unfolding steps_def
proof
  fix s :: "('a, 'b) world_scheme \<times> 'c OutsourcedMemory"
  obtain w m where s: "s = (w, m)" by fastforce
  show "om_le s (fst (notify f s))"
    by (cases "f (evict_state m)") (auto simp: s notify_def panic_def intro!: om_leI)
qed

lemma le_ref: "steps om_le (get_cached_page_ref page_index slot)"
  unfolding steps_def
proof
  fix s :: "('a, 'b) world_scheme \<times> 'c OutsourcedMemory"
  obtain w m where s: "s = (w, m)" by fastforce
  show "om_le s (fst (get_cached_page_ref page_index slot s))"
    by (auto simp: s get_cached_page_ref_def panic_def Let_def intro!: om_leI)
qed

lemma le_store: "steps om_le (store_page page_index slot p)"
  unfolding steps_def
proof
  fix s :: "('a, 'b) world_scheme \<times> 'c OutsourcedMemory"
  obtain w m where s: "s = (w, m)" by fastforce
  show "om_le s (fst (store_page page_index slot p s))"
    by (auto simp: s store_page_def intro!: om_leI)
qed

lemma le_evict:
  fixes cr :: "'k crypto" and es :: "'s eviction_strategy"
  shows "steps om_le (evict_page cr es)"
proof -
  have inv: "steps om_le (\<lambda>(w :: ('k, 'z) world_scheme, m). bindS (notify (on_invalidate es i (cp_idx (cached_pages m ! i))))
      (\<lambda>_. returnS i) (w, m\<lparr>cached_pages := (cached_pages m)[i := (cached_pages m ! i)\<lparr>cp_valid := False\<rparr>]\<rparr>))"
    for i :: nat
    unfolding steps_def
  proof
    fix s :: "('k, 'z) world_scheme \<times> 's OutsourcedMemory"
    obtain w m where s: "s = (w, m)" by fastforce
    let ?m = "m\<lparr>cached_pages := (cached_pages m)[i := (cached_pages m ! i)\<lparr>cp_valid := False\<rparr>]\<rparr>"
    have "om_le (w, m) (w, ?m)" by (intro om_leI) auto
    moreover have "steps om_le (bindS (notify (on_invalidate es i (cp_idx (cached_pages m ! i)))) (\<lambda>_. returnS i))"
      by (intro le_intros le_notify)
    then have "om_le (w, ?m) (fst (bindS (notify (on_invalidate es i (cp_idx (cached_pages m ! i)))) (\<lambda>_. returnS i) (w, ?m)))"
      unfolding steps_def by (rule spec)
    ultimately show "om_le s (fst ((\<lambda>(w, m). bindS (notify (on_invalidate es i (cp_idx (cached_pages m ! i))))
      (\<lambda>_. returnS i) (w, m\<lparr>cached_pages := (cached_pages m)[i := (cached_pages m ! i)\<lparr>cp_valid := False\<rparr>]\<rparr>)) s))"
      unfolding s by (simp add: om_le_trans)
  qed
  show ?thesis
    unfolding evict_page_def Let_def
    by (rule steps_state)
      (auto split: option.splits intro!: le_panic le_intros inv steps_touch_le [OF touch_commit])
qed

lemma le_search: "steps om_le (search_page cr es page_index)"
  unfolding search_page_def
  by (rule steps_state)
    (auto split: option.splits intro!: le_intros le_notify le_ref le_store le_evict steps_touch_le [OF touch_load])

lemma le_get_page: "steps om_le (om_get_page cr es page_index)"
  unfolding steps_def
proof
  fix s :: "('a, 'b) world_scheme \<times> 'c OutsourcedMemory"
  obtain w m where s: "s = (w, m)" by fastforce
  show "om_le s (fst (om_get_page cr es page_index s))"
    using le_ref le_search [of cr es page_index]
    by (auto simp: s om_get_page_def steps_def split: option.splits prod.splits)
qed

section \<open>The pages behind the root\<close>

text \<open>
  A stored page is what the host keeps for an index: whether it is encrypted, its nonce and its bytes.
\<close>

type_synonym stored_page = "bool \<times> bytes \<times> bytes"

definition stored_ok :: "stored_page \<Rightarrow> bool" where
  "stored_ok = (\<lambda>(enc, nonce, data). nonce_wf enc nonce \<and> length data = PAGE_SIZE)"

definition stored_message :: "stored_page \<Rightarrow> bytes" where
  "stored_message = (\<lambda>(enc, nonce, data). leaf_message (page_message data (if enc then Some nonce else None)))"

definition content :: "'k crypto \<Rightarrow> 'k AesCtr \<Rightarrow> stored_page \<Rightarrow> page option" where
  "content cr ctr = (\<lambda>(enc, nonce, data).
     if enc then (case decrypt (aes_block cr) ctr nonce data of Inl _ \<Rightarrow> None | Inr page \<Rightarrow> Some page)
     else Some data)"

lemma stored_message_inject:
  assumes "stored_ok a" "stored_ok b" "stored_message a = stored_message b"
  shows "a = b"
proof -
  obtain e n d where a: "a = (e, n, d)" by (cases a)
  obtain e' n' d' where b: "b = (e', n', d')" by (cases b)
  have r: "replicate 13 (0 :: u8) = 0 # replicate 12 0" by (simp add: numeral_eq_Suc)
  show ?thesis
    using assms unfolding a b stored_ok_def stored_message_def
    by (cases e; cases e') (auto simp: page_message_def r nonce_wf_def)
qed

lemma content_key: "aes_key ctr' = aes_key ctr \<Longrightarrow> content cr ctr' = content cr ctr"
  by (simp add: content_def decrypt_def decrypt_with_initial_counter_def process_with_counter_def fun_eq_iff)

text \<open>
  The two assumptions on the cryptography that are always needed: hashes have 32 bytes and cipher
  blocks 16.
\<close>

definition crypto_ok :: "'k crypto \<Rightarrow> bool" where
  "crypto_ok cr \<longleftrightarrow> hash_len (sha256 cr) \<and> block_cipher_ok (aes_block cr)"

text \<open>
  The root is that of a tree over stored pages. \<open>S\<close> are the messages that were hashed when the tree
  was made, outside this memory, and \<open>issued\<close> the index and hash of every page a tag was issued for.
\<close>

definition tree_rep ::
  "'k crypto \<Rightarrow> bytes set \<Rightarrow> (u32 \<times> hash_output) set \<Rightarrow> 's OutsourcedMemory \<Rightarrow> nat \<Rightarrow> nat \<Rightarrow> hash_output list \<Rightarrow>
   (nat \<Rightarrow> stored_page) \<Rightarrow> bool" where
  "tree_rep cr S issued m len N t st \<longleftrightarrow>
     checked_next_power_of_two (unat (n_pages m)) = Some N \<and> len \<le> N \<and> tree_ok (sha256 cr) N t \<and>
     merkle_root m = t ! 0 \<and> set (tree_messages N t) \<subseteq> S \<union> set (hasher_log (om_hasher m)) \<and>
     (\<forall>i<len. stored_ok (st i) \<and> stored_message (st i) \<in> S \<union> set (hasher_log (om_hasher m)) \<and>
        t ! (N - 1 + i) = sha256 cr (stored_message (st i))) \<and>
     (section_kind m = Code \<longrightarrow> is_readonly m \<and>
        (\<forall>(i, h)\<in>issued. unat i < len \<longrightarrow> h = t ! (N - 1 + unat i)))"

definition cached_at :: "'s OutsourcedMemory \<Rightarrow> nat \<Rightarrow> nat \<Rightarrow> bool" where
  "cached_at m j i \<longleftrightarrow> j < length (cached_pages m) \<and> cp_valid (cached_pages m ! j) \<and>
     unat (cp_idx (cached_pages m ! j)) = i"

text \<open>
  The cache in front of it, for the pages \<open>ps\<close>: a valid slot holds the current page and the hash of the
  stored one, no page is cached twice, and a page that is not modified in the cache is the stored one.
\<close>

definition cache_rep ::
  "'k crypto \<Rightarrow> 'k AesCtr \<Rightarrow> 's OutsourcedMemory \<Rightarrow> nat \<Rightarrow> hash_output list \<Rightarrow> (nat \<Rightarrow> stored_page) \<Rightarrow> page list \<Rightarrow> bool" where
  "cache_rep cr ctr m N t st ps \<longleftrightarrow>
     (\<forall>j i. cached_at m j i \<longrightarrow> i < length ps \<and> cp_page (cached_pages m ! j) = ps ! i \<and>
        cp_hash (cached_pages m ! j) = t ! (N - 1 + i) \<and>
        (cp_modified (cached_pages m ! j) \<longrightarrow> \<not> is_readonly m)) \<and>
     (\<forall>j k i. cached_at m j i \<longrightarrow> cached_at m k i \<longrightarrow> j = k) \<and>
     (\<forall>i<length ps. (\<exists>j. cached_at m j i \<and> cp_modified (cached_pages m ! j)) \<or> content cr ctr (st i) = Some (ps ! i))"

definition core_rep ::
  "'k crypto \<Rightarrow> bytes set \<Rightarrow> (u32 \<times> hash_output) set \<Rightarrow> ('k, 'z) world_scheme \<Rightarrow> 's OutsourcedMemory \<Rightarrow> page list \<Rightarrow> bool" where
  "core_rep cr S issued w m ps \<longleftrightarrow> crypto_ok cr \<and> length (aes_nonce (aes_ctr w)) = 12 \<and> pages_ok ps \<and>
     (\<exists>N t st. tree_rep cr S issued m (length ps) N t st \<and> cache_rep cr (aes_ctr w) m N t st ps)"

definition last_rep :: "'s OutsourcedMemory \<Rightarrow> bool" where
  "last_rep m \<longleftrightarrow> (\<forall>p j. last_accessed_page m = Some (p, j) \<longrightarrow> cached_at m j (unat p))"

definition om_rep ::
  "'k crypto \<Rightarrow> bytes set \<Rightarrow> (u32 \<times> hash_output) set \<Rightarrow> ('k, 'z) world_scheme \<Rightarrow> 's OutsourcedMemory \<Rightarrow> page list \<Rightarrow> bool" where
  "om_rep cr S issued w m ps \<longleftrightarrow> core_rep cr S issued w m ps \<and> last_rep m"

text \<open>
  The cryptographic hypothesis on a run, looked at in its final state: the messages hashed do not
  collide, and every tag accepted was issued.
\<close>

definition om_ok :: "'k crypto \<Rightarrow> bytes set \<Rightarrow> (u32 \<times> hash_output) set \<Rightarrow> 's OutsourcedMemory \<Rightarrow> bool" where
  "om_ok cr S issued m \<longleftrightarrow> inj_on (sha256 cr) (S \<union> set (hasher_log (om_hasher m))) \<and> set (accepted_tags m) \<subseteq> issued \<and>
     \<not> readonly_written m"

lemma om_ok_le: "om_le (w, m) (w', m') \<Longrightarrow> om_ok cr S issued m' \<Longrightarrow> om_ok cr S issued m"
  unfolding om_ok_def om_le_def by (auto intro: inj_on_subset)

lemma world_le_key: "world_le w w' \<Longrightarrow> content cr (aes_ctr w') = content cr (aes_ctr w)"
  by (rule content_key) (simp add: world_le_def)

lemma cached_at_cong: "cached_pages m' = cached_pages m \<Longrightarrow> cached_at m' = cached_at m"
  by (simp add: cached_at_def fun_eq_iff)

lemma tree_rep_cong:
  assumes "tree_rep cr S issued m len N t st" "n_pages m' = n_pages m" "merkle_root m' = merkle_root m"
    "section_kind m' = section_kind m" "is_readonly m' = is_readonly m"
    "set (hasher_log (om_hasher m)) \<subseteq> set (hasher_log (om_hasher m'))"
  shows "tree_rep cr S issued m' len N t st"
  using assms unfolding tree_rep_def by (auto 0 4)

lemma cache_rep_cong:
  assumes "cache_rep cr ctr m N t st ps" "cached_pages m' = cached_pages m" "is_readonly m' = is_readonly m"
    "content cr ctr' = content cr ctr"
  shows "cache_rep cr ctr' m' N t st ps"
  using assms(1) cached_at_cong [OF assms(2)] unfolding cache_rep_def assms(2-4) by simp

lemma core_rep_cong:
  assumes "core_rep cr S issued w m ps" "world_le w w'" "n_pages m' = n_pages m" "merkle_root m' = merkle_root m"
    "section_kind m' = section_kind m" "is_readonly m' = is_readonly m" "cached_pages m' = cached_pages m"
    "set (hasher_log (om_hasher m)) \<subseteq> set (hasher_log (om_hasher m'))"
  shows "core_rep cr S issued w' m' ps"
proof -
  obtain N t st where r: "tree_rep cr S issued m (length ps) N t st" "cache_rep cr (aes_ctr w) m N t st ps"
    and o: "crypto_ok cr" "length (aes_nonce (aes_ctr w)) = 12" "pages_ok ps"
    using assms(1) unfolding core_rep_def by blast
  have "tree_rep cr S issued m' (length ps) N t st"
    by (rule tree_rep_cong [OF r(1)]) (use assms in auto)
  moreover have "cache_rep cr (aes_ctr w') m' N t st ps"
    by (rule cache_rep_cong [OF r(2)]) (use assms world_le_key [OF assms(2)] in auto)
  moreover have "length (aes_nonce (aes_ctr w')) = 12" using o(2) assms(2) by (simp add: world_le_def)
  ultimately show ?thesis using o unfolding core_rep_def by blast
qed

section \<open>A loaded page is the stored one\<close>

lemma decrypt_page_Ok:
  "decrypt_page cr nonce data s = (s', Ok page) \<longleftrightarrow>
     s' = s \<and> decrypt (aes_block cr) (aes_ctr (fst s)) nonce data = Ok page \<and> length page = PAGE_SIZE"
  by (cases s) (auto simp: decrypt_page_def generic_def split: sum.splits)

lemma lift_result_Ok: "lift_result r s = (s', Ok a) \<longleftrightarrow> s' = s \<and> r = Ok a"
  by (cases r) (auto simp: lift_result_def)

lemma ask_host_Ok:
  "ask_host message (w, m) = ((w', m'), Ok data) \<longleftrightarrow> m' = m \<and> interrupt message w = (w', Ok data)"
  by (auto simp: ask_host_def split: prod.splits)

lemma load_merkle_Ok:
  assumes "load_merkle cr i pr h (w, m) = ((w', m'), Ok (page, h'))"
  obtains N els where "h' = h" "unat (gpr_t pr) = length (gpr_proof pr)"
    "checked_next_power_of_two (unat (n_pages m)) = Some N" "arrays32 els" "world_le w w'"
    "m' = m\<lparr>om_hasher := snd (feed_all (sha256 cr) (gpr_proof pr @ els)
        (begin_inclusion_proof (merkle_root m) h (unat i) N, om_hasher m))\<rparr>"
    "iv_verified (fst (feed_all (sha256 cr) (gpr_proof pr @ els)
        (begin_inclusion_proof (merkle_root m) h (unat i) N, om_hasher m)))"
    "if gpr_is_encrypted pr
     then decrypt (aes_block cr) (aes_ctr w') (gpr_nonce pr) (gpr_page_data pr) = Ok page \<and> length page = PAGE_SIZE
     else page = gpr_page_data pr"
proof -
  let ?req = "GetPageProofContinuedMessage_serialize GetPageProofContinuedMessage_new"
  from assms obtain N v w1 m1 where N: "checked_next_power_of_two (unat (n_pages m)) = Some N"
    and t: "unat (gpr_t pr) = length (gpr_proof pr)"
    and run: "run_verifier ?req decode_get_continued (feed (sha256 cr))
        (begin_inclusion_proof (merkle_root m) h (unat i) N) (gpr_proof pr) (unat (gpr_n pr)) (w, m) = ((w1, m1), Ok v)"
    and v: "iv_verified v"
    and rest: "(if gpr_is_encrypted pr
       then bindS (decrypt_page cr (gpr_nonce pr) (gpr_page_data pr)) (\<lambda>page_data. returnS (page_data, h))
       else returnS (gpr_page_data pr, h)) (w1, m1) = ((w', m'), Ok (page, h'))"
    by (auto simp: load_merkle_def generic_def panic_def bindS_Ok_iff split: if_splits option.splits)
  from rest have "w1 = w'" "m1 = m'" "h' = h" and dec: "if gpr_is_encrypted pr
     then decrypt (aes_block cr) (aes_ctr w') (gpr_nonce pr) (gpr_page_data pr) = Ok page \<and> length page = PAGE_SIZE
     else page = gpr_page_data pr"
    by (auto simp: bindS_Ok_iff decrypt_page_Ok split: if_splits)
  with run_verifier_folds [OF run] decodes32_get v t N that show ?thesis
    unfolding feed_all_def by blast
qed

text \<open>The page of a response, as a stored page.\<close>

definition response_page :: "GetPageResponse \<Rightarrow> stored_page" where
  "response_page pr = (gpr_is_encrypted pr, gpr_nonce pr, gpr_page_data pr)"

lemma load_merkle_sound:
  assumes run: "load_merkle cr i pr (sha256 cr (stored_message (response_page pr))) (w, m) = ((w', m'), Ok (page, h))"
    and tree: "tree_rep cr S issued m len N t st" and cr: "crypto_ok cr" and wf: "GetPageResponse_wf pr"
    and i: "unat i < len" and ok: "om_ok cr S issued m'"
    and logged: "stored_message (response_page pr) \<in> set (hasher_log (om_hasher m))"
  shows "h = t ! (N - 1 + unat i)" "content cr (aes_ctr w) (st (unat i)) = Some page" "merkle_root m' = merkle_root m"
proof -
  let ?H = "sha256 cr" and ?h = "sha256 cr (stored_message (response_page pr))"
  from load_merkle_Ok [OF run] obtain N' els where l: "h = ?h"
    "checked_next_power_of_two (unat (n_pages m)) = Some N'" "arrays32 els" "world_le w w'"
    "m' = m\<lparr>om_hasher := snd (feed_all ?H (gpr_proof pr @ els)
        (begin_inclusion_proof (merkle_root m) ?h (unat i) N', om_hasher m))\<rparr>"
    "iv_verified (fst (feed_all ?H (gpr_proof pr @ els)
        (begin_inclusion_proof (merkle_root m) ?h (unat i) N', om_hasher m)))"
    "if gpr_is_encrypted pr
     then decrypt (aes_block cr) (aes_ctr w') (gpr_nonce pr) (gpr_page_data pr) = Ok page \<and> length page = PAGE_SIZE
     else page = gpr_page_data pr"
    by metis
  have tr: "checked_next_power_of_two (unat (n_pages m)) = Some N" "len \<le> N" "tree_ok ?H N t"
      "merkle_root m = t ! 0" "set (tree_messages N t) \<subseteq> S \<union> set (hasher_log (om_hasher m))"
    and st: "stored_ok (st (unat i))" "stored_message (st (unat i)) \<in> S \<union> set (hasher_log (om_hasher m))"
      "t ! (N - 1 + unat i) = ?H (stored_message (st (unat i)))"
    using tree i unfolding tree_rep_def by auto
  have N': "N' = N" using l(2) tr(1) by simp
  let ?v = "begin_inclusion_proof (t ! 0) ?h (unat i) N" and ?pr = "gpr_proof pr @ els"
  have fold: "iv_verified (fold (feed_step ?H) ?pr ?v)"
    "set (hasher_log (om_hasher m')) = set (hasher_log (om_hasher m)) \<union> set (feed_messages ?H ?pr ?v)"
    using l(5,6) feed_all_eq [of ?H ?pr ?v "om_hasher m"] by (auto simp: N' tr(4))
  have inj: "inj_on ?H (S \<union> set (hasher_log (om_hasher m)) \<union> set (feed_messages ?H ?pr ?v))"
    using ok fold(2) by (simp add: om_ok_def Un_assoc)
  have "?h = t ! (N - 1 + unat i) \<and> ?pr = prove_loop t (N - 1 + unat i)"
  proof (rule verify_sound [OF tr(3)])
    show "hash_len ?H" using cr by (simp add: crypto_ok_def)
    then show "length ?h = 32" by (simp add: hash_len_def)
    show "unat i < N" using i tr(2) by simp
    show "list_all (\<lambda>s. length s = 32) ?pr"
      using l(3) wf by (auto simp: GetPageResponse_wf_def arrays32_def list_all_iff)
    show "inj_on ?H (set (feed_messages ?H ?pr ?v) \<union> set (tree_messages N t))"
      by (rule inj_on_subset [OF inj]) (use tr(5) in auto)
  qed (rule fold(1))
  then have h: "?h = ?H (stored_message (st (unat i)))" using st(3) by simp
  have "stored_message (response_page pr) = stored_message (st (unat i))"
    by (rule inj_onD [OF inj h]) (use logged st(2) in auto)
  moreover have "stored_ok (response_page pr)"
    using wf by (simp add: stored_ok_def response_page_def GetPageResponse_wf_def)
  ultimately have eq: "response_page pr = st (unat i)" using st(1) by (intro stored_message_inject)
  show "h = t ! (N - 1 + unat i)" using l(1) h st(3) by simp
  have "content cr (aes_ctr w') (response_page pr) = Some page"
    using l(7) by (auto simp: content_def response_page_def split: if_splits)
  then show "content cr (aes_ctr w) (st (unat i)) = Some page"
    using world_le_key [OF l(4)] eq by simp
  show "merkle_root m' = merkle_root m" using l(5) by simp
qed

lemma load_tagged_sound:
  assumes run: "load_tagged cr i pr (sha256 cr (stored_message (response_page pr))) (w, m) = ((w', m'), Ok (page, h))"
    and tree: "tree_rep cr S issued m len N t st" and cr: "crypto_ok cr" and wf: "GetPageResponse_wf pr"
    and i: "unat i < len" and ok: "om_ok cr S issued m'"
    and logged: "stored_message (response_page pr) \<in> set (hasher_log (om_hasher m))"
  shows "h = t ! (N - 1 + unat i)" "content cr (aes_ctr w) (st (unat i)) = Some page" "merkle_root m' = merkle_root m"
proof -
  let ?H = "sha256 cr" and ?h = "sha256 cr (stored_message (response_page pr))"
  from run have l: "\<not> gpr_is_encrypted pr" "section_kind m = Code" "h = ?h" "page = gpr_page_data pr"
    "m' = m\<lparr>accepted_tags := accepted_tags m @ [(i, ?h)]\<rparr>"
    by (auto simp: load_tagged_def generic_def bindS_Ok_iff Let_def lift_result_def split: if_splits sum.splits)
  have "(i, ?h) \<in> issued" using ok l(5) by (simp add: om_ok_def)
  with tree l(2) i have leaf: "?h = t ! (N - 1 + unat i)" unfolding tree_rep_def by auto
  have st: "stored_ok (st (unat i))" "stored_message (st (unat i)) \<in> S \<union> set (hasher_log (om_hasher m))"
      "t ! (N - 1 + unat i) = ?H (stored_message (st (unat i)))"
    using tree i unfolding tree_rep_def by auto
  have inj: "inj_on ?H (S \<union> set (hasher_log (om_hasher m)))" using ok l(5) by (simp add: om_ok_def)
  have h: "?h = ?H (stored_message (st (unat i)))" using leaf st(3) by simp
  have "stored_message (response_page pr) = stored_message (st (unat i))"
    by (rule inj_onD [OF inj h]) (use logged st(2) in auto)
  moreover have "stored_ok (response_page pr)"
    using wf by (simp add: stored_ok_def response_page_def GetPageResponse_wf_def)
  ultimately have eq: "response_page pr = st (unat i)" using st(1) by (intro stored_message_inject)
  show "h = t ! (N - 1 + unat i)" using l(3) leaf by simp
  have "content cr (aes_ctr w) (response_page pr) = Some page"
    using l(1,4) by (simp add: content_def response_page_def)
  then show "content cr (aes_ctr w) (st (unat i)) = Some page" using eq by simp
  show "merkle_root m' = merkle_root m" using l(5) by simp
qed

lemma load_page_sound:
  assumes run: "load_page cr i (w, m) = ((w', m'), Ok (page, h))"
    and tree: "tree_rep cr S issued m len N t st" and cr: "crypto_ok cr"
    and i: "unat i < len" and ok: "om_ok cr S issued m'"
  shows "h = t ! (N - 1 + unat i)" "content cr (aes_ctr w) (st (unat i)) = Some page"
    "tree_rep cr S issued m' len N t st"
proof -
  from run obtain w1 data pr w2 m2 h0 where ask: "ask_host (GetPageMessage_serialize (GetPageMessage_new (section_kind m) i)) (w, m) = ((w1, m), Ok data)"
    and pr: "GetPageResponse_deserialize data = Ok pr"
    and hash: "hash_page cr (gpr_page_data pr) (if gpr_is_encrypted pr then Some (gpr_nonce pr) else None) (w1, m) = ((w2, m2), Ok h0)"
    and load: "(case gpr_proof_kind pr of Merkle \<Rightarrow> load_merkle cr i pr h0 | Hmac \<Rightarrow> load_tagged cr i pr h0) (w2, m2)
        = ((w', m'), Ok (page, h))"
    by (auto simp: load_page_def bindS_Ok_iff lift_result_Ok ask_host_Ok)
  have wf: "GetPageResponse_wf pr" by (rule GetPageResponse_accepted [OF pr])
  have w1: "world_le w w1" using stepsD [OF touch_ask_host ask] by (auto elim: om_touchE)
  let ?n = "if gpr_is_encrypted pr then Some (gpr_nonce pr) else None"
  have msg: "leaf_message (page_message (gpr_page_data pr) ?n) = stored_message (response_page pr)"
    by (simp add: stored_message_def response_page_def)
  obtain hs where w2: "w2 = w1" "h0 = sha256 cr (stored_message (response_page pr))"
    "m2 = m\<lparr>om_hasher := hs\<rparr>"
    "hasher_log hs = hasher_log (om_hasher m) @ [stored_message (response_page pr)]"
    using hash get_page_hash_eq [of "sha256 cr" "gpr_page_data pr" ?n "om_hasher m"] msg
    by (auto simp: hash_page_def split: prod.splits)
  have t2: "tree_rep cr S issued m2 len N t st"
    by (rule tree_rep_cong [OF tree]) (use w2(4) in \<open>auto simp: w2(3)\<close>)
  have logged: "stored_message (response_page pr) \<in> set (hasher_log (om_hasher m2))"
    using w2(3,4) by simp
  have ctr: "content cr (aes_ctr w2) = content cr (aes_ctr w)" using world_le_key [OF w1] w2(1) by simp
  have sound: "h = t ! (N - 1 + unat i) \<and> content cr (aes_ctr w2) (st (unat i)) = Some page \<and>
      merkle_root m' = merkle_root m2"
  proof (cases "gpr_proof_kind pr")
    case Merkle
    with load w2(2) have "load_merkle cr i pr (sha256 cr (stored_message (response_page pr))) (w2, m2)
        = ((w', m'), Ok (page, h))" by simp
    from load_merkle_sound [OF this t2 cr wf i ok logged] show ?thesis by blast
  next
    case Hmac
    with load w2(2) have "load_tagged cr i pr (sha256 cr (stored_message (response_page pr))) (w2, m2)
        = ((w', m'), Ok (page, h))" by simp
    from load_tagged_sound [OF this t2 cr wf i ok logged] show ?thesis by blast
  qed
  then show "h = t ! (N - 1 + unat i)" "content cr (aes_ctr w) (st (unat i)) = Some page"
    using ctr by auto
  have touch: "om_touch (w, m) (w', m')" using stepsD [OF touch_load run] .
  have "merkle_root m' = merkle_root m" using sound w2(3) by simp
  with touch show "tree_rep cr S issued m' len N t st"
    by (intro tree_rep_cong [OF tree]) (auto elim!: om_touchE)
qed

section \<open>A committed page becomes the stored one\<close>

lemma update_verified_feed:
  "update_verified (fst (feed_update_all H pr (begin_update_proof old_root new_root x y i n, hs))) \<longleftrightarrow>
     verify_update_proof H old_root new_root pr x y i n"
  using feed_update_all_eq [of H pr "begin_update_proof old_root new_root x y i n" hs]
    feed_update_all_eq [of H pr "begin_update_proof old_root new_root x y i n" hasher_new]
  by (simp add: verify_update_proof_def update_verified_def)

lemma commit_page_Ok:
  assumes run: "commit_page_at cr j (w, m) = ((w', m'), Ok ())"
  obtains ctr nonce payload new_root N els hs where
    "encrypt (aes_block cr) (cp_page (cached_pages m ! j)) (aes_ctr w) = (ctr, Ok (nonce, payload))"
    "world_le w w'" "length payload = PAGE_SIZE" "length new_root = 32" "arrays32 els"
    "checked_next_power_of_two (unat (n_pages m)) = Some N"
    "hasher_log hs = hasher_log (om_hasher m) @ [leaf_message (page_message payload (Some nonce))]"
    "verify_update_proof (sha256 cr) (merkle_root m) new_root els (cp_hash (cached_pages m ! j))
       (sha256 cr (leaf_message (page_message payload (Some nonce)))) (unat (cp_idx (cached_pages m ! j))) N"
    "m' = m\<lparr>om_hasher := snd (feed_update_all (sha256 cr) els (begin_update_proof (merkle_root m) new_root
        (cp_hash (cached_pages m ! j)) (sha256 cr (leaf_message (page_message payload (Some nonce))))
        (unat (cp_idx (cached_pages m ! j))) N, hs)), merkle_root := new_root\<rparr>"
proof -
  let ?c = "cached_pages m ! j"
  from run obtain w1 nonce payload w2 m2 h w3 data pr N v m4 where
    enc: "encrypt_page cr (cp_page ?c) (w, m) = ((w1, m), Ok (nonce, payload))"
    and hash: "hash_page cr payload (Some nonce) (w1, m) = ((w2, m2), Ok h)"
    and len: "length payload = PAGE_SIZE"
    and ask: "interrupt (CommitPageMessage_serialize (CommitPageMessage_new (section_kind m) (cp_idx ?c) True nonce payload)) w2
        = (w3, Ok data)"
    and pr: "CommitPageProofResponse_deserialize data = Ok pr" "unat (cpr_t pr) = length (cpr_proof pr)"
    and N: "checked_next_power_of_two (unat (n_pages m)) = Some N"
    and ver: "run_verifier (CommitPageProofContinuedMessage_serialize CommitPageProofContinuedMessage_new)
        decode_commit_continued (feed_update (sha256 cr))
        (begin_update_proof (merkle_root m) (cpr_new_root pr) (cp_hash ?c) h (unat (cp_idx ?c)) N)
        (cpr_proof pr) (unat (cpr_n pr)) (w3, m2) = ((w', m4), Ok v)"
    and v: "update_verified v" and m': "m' = m4\<lparr>merkle_root := cpr_new_root pr\<rparr>"
    by (auto simp: commit_page_at_def panic_def generic_def Let_def bindS_Ok_iff lift_result_Ok ask_host_Ok
        encrypt_page_def split: if_splits option.splits prod.splits)
  have e: "w1 = w\<lparr>aes_ctr := aes_ctr w1\<rparr>"
    "encrypt (aes_block cr) (cp_page ?c) (aes_ctr w) = (aes_ctr w1, Ok (nonce, payload))"
    using enc by (auto simp: encrypt_page_def split: prod.splits)
  obtain hs where h: "w2 = w1" "h = sha256 cr (leaf_message (page_message payload (Some nonce)))"
    "m2 = m\<lparr>om_hasher := hs\<rparr>" "hasher_log hs = hasher_log (om_hasher m) @ [leaf_message (page_message payload (Some nonce))]"
    using hash get_page_hash_eq [of "sha256 cr" payload "Some nonce" "om_hasher m"]
    by (auto simp: hash_page_def split: prod.splits)
  from run_verifier_folds [OF ver] decodes32_commit obtain els' where r: "world_le w3 w'"
    "m4 = m2\<lparr>om_hasher := snd (fold (feed_update (sha256 cr)) (cpr_proof pr @ els')
      (begin_update_proof (merkle_root m) (cpr_new_root pr) (cp_hash ?c) h (unat (cp_idx ?c)) N, om_hasher m2))\<rparr>"
    "v = fst (fold (feed_update (sha256 cr)) (cpr_proof pr @ els')
      (begin_update_proof (merkle_root m) (cpr_new_root pr) (cp_hash ?c) h (unat (cp_idx ?c)) N, om_hasher m2))"
    "arrays32 els'" by blast
  have pr_wf: "length (cpr_new_root pr) = 32" "arrays32 (cpr_proof pr)"
    using commit_response.des_wf [of data pr] pr(1) by (simp_all add: CommitPageProofResponse_wf_def)
  have w3: "w3 = w2\<lparr>sent := sent w3\<rparr>" using interrupt_world [OF ask] by simp
  have "world_le w w1" using stepsD [OF touch_encrypt_page enc] by (auto elim: om_touchE)
  moreover have "world_le w1 w3" using interrupt_le [OF ask] h(1) by simp
  ultimately have le: "world_le w w'" using r(1) world_le_trans by blast
  let ?pr = "cpr_proof pr @ els'"
  show ?thesis
  proof (rule that [of "aes_ctr w1" nonce payload "cpr_new_root pr" ?pr N hs])
    show "verify_update_proof (sha256 cr) (merkle_root m) (cpr_new_root pr) ?pr (cp_hash ?c)
       (sha256 cr (leaf_message (page_message payload (Some nonce)))) (unat (cp_idx ?c)) N"
      using v r(3) h(2,3) unfolding update_verified_feed [symmetric, where hs = hs] feed_update_all_def by simp
    show "m' = m\<lparr>om_hasher := snd (feed_update_all (sha256 cr) ?pr (begin_update_proof (merkle_root m) (cpr_new_root pr)
        (cp_hash ?c) (sha256 cr (leaf_message (page_message payload (Some nonce)))) (unat (cp_idx ?c)) N, hs)),
        merkle_root := cpr_new_root pr\<rparr>"
      using m' r(2) h(2,3) by (simp add: feed_update_all_def)
  qed (use e le len pr_wf r(4) N h(4) in auto)
qed

lemma commit_page_sound:
  assumes run: "commit_page_at cr j (w, m) = ((w', m'), Ok ())"
    and tree: "tree_rep cr S issued m len N t st" and cr: "crypto_ok cr"
    and nonce: "length (aes_nonce (aes_ctr w)) = 12"
    and c: "unat (cp_idx (cached_pages m ! j)) = i" "i < len" "cp_hash (cached_pages m ! j) = t ! (N - 1 + i)"
    and writable: "\<not> is_readonly m" and ok: "om_ok cr S issued m'"
  shows "\<exists>t' s. tree_rep cr S issued m' len N t' (st(i := s)) \<and>
    content cr (aes_ctr w') s = Some (cp_page (cached_pages m ! j)) \<and>
    (\<forall>k<N. k \<noteq> i \<longrightarrow> t' ! (N - 1 + k) = t ! (N - 1 + k))"
proof -
  let ?H = "sha256 cr" and ?c = "cached_pages m ! j"
  obtain ctr n payload new_root N' els hs where co:
    "encrypt (aes_block cr) (cp_page ?c) (aes_ctr w) = (ctr, Ok (n, payload))"
    "world_le w w'" "length payload = PAGE_SIZE" "length new_root = 32" "arrays32 els"
    "checked_next_power_of_two (unat (n_pages m)) = Some N'"
    "hasher_log hs = hasher_log (om_hasher m) @ [leaf_message (page_message payload (Some n))]"
    "verify_update_proof ?H (merkle_root m) new_root els (cp_hash ?c)
       (?H (leaf_message (page_message payload (Some n)))) (unat (cp_idx ?c)) N'"
    "m' = m\<lparr>om_hasher := snd (feed_update_all ?H els (begin_update_proof (merkle_root m) new_root
        (cp_hash ?c) (?H (leaf_message (page_message payload (Some n)))) (unat (cp_idx ?c)) N', hs)),
        merkle_root := new_root\<rparr>"
    by (rule commit_page_Ok [OF run])
  let ?y = "?H (leaf_message (page_message payload (Some n)))" and ?s = "(True, n, payload)"
  have tr: "checked_next_power_of_two (unat (n_pages m)) = Some N" "len \<le> N" "tree_ok ?H N t"
      "merkle_root m = t ! 0" "set (tree_messages N t) \<subseteq> S \<union> set (hasher_log (om_hasher m))"
    using tree unfolding tree_rep_def by auto
  have N': "N' = N" using co(6) tr(1) by simp
  have hl: "hash_len ?H" and bl: "block_cipher_ok (aes_block cr)" using cr by (auto simp: crypto_ok_def)
  have y: "length ?y = 32" "length (t ! (N - 1 + i)) = 32"
    using hl tr(2,3) c(2) by (auto simp: hash_len_def tree_ok_def)
  let ?v = "begin_inclusion_proof (t ! 0) (t ! (N - 1 + i)) i N"
    and ?v' = "begin_inclusion_proof new_root ?y i N"
  have log: "set (hasher_log (om_hasher m')) = set (hasher_log (om_hasher m)) \<union> {leaf_message (page_message payload (Some n))}
      \<union> set (feed_messages ?H els ?v) \<union> set (feed_messages ?H els ?v')"
    using feed_update_all_eq [of ?H els "begin_update_proof (t ! 0) new_root (t ! (N - 1 + i)) ?y i N" hs]
    by (auto simp: co(7,9) N' tr(4) c begin_update_proof_def)
  have inj: "inj_on ?H (S \<union> set (hasher_log (om_hasher m')))" using ok by (simp add: om_ok_def)
  have iN: "i < N" using c(2) tr(2) by simp
  have "inj_on ?H (set (feed_messages ?H els ?v) \<union> set (tree_messages N t))"
    by (rule inj_on_subset [OF inj]) (use tr(5) log in auto)
  moreover have "list_all (\<lambda>s. length s = 32) els" using co(5) by (simp add: arrays32_def list_all_iff)
  moreover have "verify_update_proof ?H (t ! 0) new_root els (t ! (N - 1 + i)) ?y i N"
    using co(8) by (simp add: N' tr(4) c)
  ultimately have up: "els = prove_loop t (N - 1 + i)" "new_root = set_leaf ?H N t i ?y ! 0"
    using update_tree_sound [OF tr(3) hl iN y(2,1)] by blast+
  let ?t = "set_leaf ?H N t i ?y"
  note sl = set_leaf_ok [OF tr(3) hl iN y(1)]
  have leaf: "?t ! (N - 1 + k) = (if k = i then ?y else t ! (N - 1 + k))" if "k < N" for k
  proof -
    have "leaves N ?t ! k = (leaves N t)[i := ?y] ! k" using sl(3) by simp
    moreover have "length t = 2 * N - 1" "length ?t = 2 * N - 1" using tr(3) sl(1) by (auto simp: tree_ok_def)
    ultimately show ?thesis using that iN by (auto simp: leaves_def nth_list_update)
  qed
  have v': "iv_pos ?v' = N - 1 + i" "current_hash ?v' = ?y" "iv_root ?v' = new_root"
      "iv_verified ?v' \<longleftrightarrow> N = 1 \<and> ?y = new_root"
    by (simp_all only: begin_inclusion_proof_def inclusion_verifier.simps)
  have pos: "iv_pos ?v' < 2 * N - 1" using iN unfolding v'(1) by simp
  have cur: "current_hash ?v' = ?t ! iv_pos ?v'" unfolding v'(1,2) by (rule sl(2) [symmetric])
  have ver: "iv_verified ?v' = (iv_root ?v' = ?t ! 0)" if "iv_pos ?v' = 0"
  proof -
    from that iN have "N = 1" unfolding v'(1) by simp
    moreover have "?t ! 0 = ?y" using sl(2) that unfolding v'(1) by simp
    ultimately show ?thesis unfolding v'(3,4) using up(2) by simp
  qed
  from feed_path [OF sl(1) pos cur ver] have path: "feed_messages ?H els ?v' =
      map (\<lambda>a. node_message (?t ! (2 * a + 1)) (?t ! (2 * a + 2))) (ancestors (N - 1 + i))"
    using up(1) sl(4) by (simp add: begin_inclusion_proof_def)
  have msgs: "set (tree_messages N ?t) \<subseteq> S \<union> set (hasher_log (om_hasher m'))"
    using set_leaf_messages [OF tr(3) hl iN y(1)] tr(5) log path by auto
  have s: "stored_message ?s = leaf_message (page_message payload (Some n))" by (simp add: stored_message_def)
  have n: "length n = 12"
    using encrypt_result [OF bl nonce, of "cp_page ?c"] co(1) nonce by (auto simp: Let_def split: if_splits)
  have "tree_rep cr S issued m' len N ?t (st(i := ?s))"
    unfolding tree_rep_def
  proof (intro conjI allI impI)
    show "checked_next_power_of_two (unat (n_pages m')) = Some N" "merkle_root m' = ?t ! 0"
      using tr(1) up(2) by (simp_all add: co(9))
    fix k assume k: "k < len"
    then have old: "stored_ok (st k)" "stored_message (st k) \<in> S \<union> set (hasher_log (om_hasher m))"
        "t ! (N - 1 + k) = ?H (stored_message (st k))"
      using tree unfolding tree_rep_def by auto
    show "stored_ok ((st(i := ?s)) k)" using old(1) co(3) n by (simp add: stored_ok_def nonce_wf_def)
    show "stored_message ((st(i := ?s)) k) \<in> S \<union> set (hasher_log (om_hasher m'))"
      using old(2) log s by auto
    show "?t ! (N - 1 + k) = ?H (stored_message ((st(i := ?s)) k))"
      using leaf [of k] k tr(2) old(3) s by simp
  next
    assume "section_kind m' = Code"
    then have "is_readonly m" using tree by (simp add: tree_rep_def co(9))
    with writable show "is_readonly m'" "\<forall>(a, h)\<in>issued. unat a < len \<longrightarrow> h = ?t ! (N - 1 + unat a)" by auto
  qed (use tr(2) sl(1) msgs in auto)
  moreover have "content cr (aes_ctr w') ?s = Some (cp_page ?c)"
  proof -
    have "decrypt (aes_block cr) (aes_ctr w') n payload = Ok (cp_page ?c)"
      by (rule decrypt_encrypt(2) [OF bl nonce co(1)]) (use co(2) in \<open>simp add: world_le_def\<close>)
    then show ?thesis by (simp add: content_def)
  qed
  ultimately show ?thesis using leaf by (intro exI [of _ ?t] exI [of _ ?s]) auto
qed

section \<open>The cache keeps the pages\<close>

lemma find_slot_Some: "find_slot p cache = Some i \<Longrightarrow> i < length cache \<and> p (cache ! i)"
  unfolding find_slot_def by (auto simp: find_Some_iff)

lemma find_slot_None: "find_slot p cache = None \<longleftrightarrow> (\<forall>i<length cache. \<not> p (cache ! i))"
  unfolding find_slot_def by (auto simp: find_None_iff)

lemma notify_Ok: "notify f (w, m) = ((w', m'), Ok ()) \<longleftrightarrow> w' = w \<and> (\<exists>s. f (evict_state m) = Some s \<and> m' = m\<lparr>evict_state := s\<rparr>)"
  by (auto simp: notify_def panic_def split: option.splits)

lemma get_cached_page_ref_Ok:
  "get_cached_page_ref i slot (w, m) = ((w', m'), Ok r) \<longleftrightarrow>
     w' = w \<and> m' = m\<lparr>last_accessed_page := Some (i, slot)\<rparr> \<and> r = slot \<and> slot < length (cached_pages m)"
  by (auto simp: get_cached_page_ref_def panic_def Let_def)

lemma cached_at_invalidate:
  assumes "j < length (cached_pages m)"
  shows "cached_at (m\<lparr>cached_pages := (cached_pages m)[j := (cached_pages m ! j)\<lparr>cp_valid := False\<rparr>]\<rparr>) k i
    \<longleftrightarrow> k \<noteq> j \<and> cached_at m k i"
  using assms by (auto simp: cached_at_def nth_list_update)

text \<open>
  After an eviction the victim's slot is free, nothing new is cached, and the pages are the same: the
  victim was committed, or was not modified.
\<close>

lemma evict_page_rep:
  assumes run: "evict_page cr es (w, m) = ((w', m'), Ok slot)" and rep: "core_rep cr S issued w m ps"
    and ok: "om_ok cr S issued m'" and full: "\<forall>j<length (cached_pages m). cp_valid (cached_pages m ! j)"
  shows "core_rep cr S issued w' m' ps" "slot < length (cached_pages m')" "\<not> cp_valid (cached_pages m' ! slot)"
    "\<And>j i. cached_at m' j i \<Longrightarrow> cached_at m j i"
proof -
  obtain N t st where tree: "tree_rep cr S issued m (length ps) N t st"
    and cache: "cache_rep cr (aes_ctr w) m N t st ps"
    and cr: "crypto_ok cr" "length (aes_nonce (aes_ctr w)) = 12" "pages_ok ps"
    using rep unfolding core_rep_def by blast
  let ?c = "cached_pages m ! slot"
  obtain w1 m1 s where slot: "slot < length (cached_pages m)"
    and commit: "(if \<not> is_readonly m \<and> cp_modified ?c then commit_page_at cr slot else returnS ()) (w, m) = ((w1, m1), Ok ())"
    and w': "w' = w1"
    and m': "m' = m1\<lparr>cached_pages := (cached_pages m1)[slot := (cached_pages m1 ! slot)\<lparr>cp_valid := False\<rparr>], evict_state := s\<rparr>"
  proof -
    from run obtain j where j: "choose_victim es (evict_state m) = Some j" "j < length (cached_pages m)"
      by (auto simp: evict_page_def panic_def split: option.splits if_splits)
    with run that show thesis
      by (auto simp: evict_page_def bindS_Ok_iff notify_Ok Let_def)
  qed
  have "steps om_touch (if b then commit_page_at cr slot else returnS ())" for b
    by (cases b) (auto intro: touch_commit touch_intros)
  from stepsD [OF this commit] have touch: "om_touch (w, m) (w1, m1)" .
  then have c1: "cached_pages m1 = cached_pages m" "is_readonly m1 = is_readonly m" and le: "world_le w w1"
    by (auto elim!: om_touchE)
  have at': "cached_at m' k i \<longleftrightarrow> k \<noteq> slot \<and> cached_at m k i" for k i
    using slot c1 by (auto simp: m' cached_at_def nth_list_update)
  show "slot < length (cached_pages m')" "\<not> cp_valid (cached_pages m' ! slot)"
    using slot c1 by (simp_all add: m')
  show "\<And>j i. cached_at m' j i \<Longrightarrow> cached_at m j i" using at' by blast
  have same: "cached_pages m' ! k = cached_pages m ! k" if "k \<noteq> slot" for k
    using that c1 by (simp add: m')
  let ?i = "unat (cp_idx ?c)"
  have v: "cached_at m slot ?i" using full slot by (simp add: cached_at_def)
  have vc: "?i < length ps" "cp_page ?c = ps ! ?i" "cp_hash ?c = t ! (N - 1 + ?i)"
    using cache v unfolding cache_rep_def by blast+
  have only: "k = slot" if "cached_at m k ?i" for k using cache v that unfolding cache_rep_def by blast
  have nonce: "length (aes_nonce (aes_ctr w')) = 12" using le cr(2) w' by (simp add: world_le_def)
  have ok1: "om_ok cr S issued m1" using ok by (simp add: om_ok_def m')
  have cong: "tree_rep cr S issued m1 len N t' st' \<Longrightarrow> tree_rep cr S issued m' len N t' st'" for len t' st'
    by (erule tree_rep_cong) (simp_all add: m')
  show "core_rep cr S issued w' m' ps"
  proof (cases "\<not> is_readonly m \<and> cp_modified ?c")
    case True
    with commit have "commit_page_at cr slot (w, m) = ((w1, m1), Ok ())" by simp
    from commit_page_sound [OF this tree cr(1,2) refl vc(1,3) _ ok1] True obtain t' s where
      tree': "tree_rep cr S issued m1 (length ps) N t' (st(?i := s))"
      and s: "content cr (aes_ctr w1) s = Some (cp_page ?c)"
      and other: "\<forall>k<N. k \<noteq> ?i \<longrightarrow> t' ! (N - 1 + k) = t ! (N - 1 + k)" by blast
    have N: "length ps \<le> N" using tree by (simp add: tree_rep_def)
    have "cache_rep cr (aes_ctr w') m' N t' (st(?i := s)) ps"
      unfolding cache_rep_def
    proof (intro conjI allI impI)
      fix j i assume at: "cached_at m' j i"
      then have j: "j \<noteq> slot" "cached_at m j i" using at' by auto
      then have i: "i \<noteq> ?i" using only by blast
      have "i < length ps" "cp_page (cached_pages m ! j) = ps ! i" "cp_hash (cached_pages m ! j) = t ! (N - 1 + i)"
        "cp_modified (cached_pages m ! j) \<longrightarrow> \<not> is_readonly m"
        using cache j(2) unfolding cache_rep_def by blast+
      then show "i < length ps" "cp_page (cached_pages m' ! j) = ps ! i" "cp_hash (cached_pages m' ! j) = t' ! (N - 1 + i)"
        "cp_modified (cached_pages m' ! j) \<Longrightarrow> \<not> is_readonly m'"
        using same [OF j(1)] i other N c1 by (auto simp: m')
    next
      fix j k i assume "cached_at m' j i" "cached_at m' k i"
      then show "j = k" using at' cache unfolding cache_rep_def by blast
    next
      fix i assume i: "i < length ps"
      show "(\<exists>j. cached_at m' j i \<and> cp_modified (cached_pages m' ! j)) \<or> content cr (aes_ctr w') ((st(?i := s)) i) = Some (ps ! i)"
      proof (cases "i = ?i")
        case True
        then show ?thesis using s vc(2) w' by simp
      next
        case False
        have "(\<exists>j. cached_at m j i \<and> cp_modified (cached_pages m ! j)) \<or> content cr (aes_ctr w) (st i) = Some (ps ! i)"
          using cache i unfolding cache_rep_def by blast
        moreover have "j \<noteq> slot" if "cached_at m j i" for j using that False by (auto simp: cached_at_def)
        ultimately consider j where "cached_at m j i" "j \<noteq> slot" "cp_modified (cached_pages m ! j)"
          | "content cr (aes_ctr w) (st i) = Some (ps ! i)" by blast
        then show ?thesis
        proof cases
          case 1
          then show ?thesis using at' same [of j] by auto
        next
          case 2
          then show ?thesis using False world_le_key [OF le] w' by simp
        qed
      qed
    qed
    then show ?thesis unfolding core_rep_def using cr nonce cong [OF tree'] by blast
  next
    case False
    then have eq: "w1 = w" "m1 = m" using commit by auto
    have clean: "\<not> cp_modified ?c" using False cache v unfolding cache_rep_def by blast
    have "cache_rep cr (aes_ctr w') m' N t st ps"
      unfolding cache_rep_def
    proof (intro conjI allI impI)
      fix j i assume at: "cached_at m' j i"
      then have j: "j \<noteq> slot" "cached_at m j i" using at' by auto
      have "i < length ps" "cp_page (cached_pages m ! j) = ps ! i" "cp_hash (cached_pages m ! j) = t ! (N - 1 + i)"
        "cp_modified (cached_pages m ! j) \<longrightarrow> \<not> is_readonly m"
        using cache j(2) unfolding cache_rep_def by blast+
      then show "i < length ps" "cp_page (cached_pages m' ! j) = ps ! i" "cp_hash (cached_pages m' ! j) = t ! (N - 1 + i)"
        "cp_modified (cached_pages m' ! j) \<Longrightarrow> \<not> is_readonly m'"
        using same [OF j(1)] c1 by (auto simp: m')
    next
      fix j k i assume "cached_at m' j i" "cached_at m' k i"
      then show "j = k" using at' cache unfolding cache_rep_def by blast
    next
      fix i assume i: "i < length ps"
      have "(\<exists>j. cached_at m j i \<and> cp_modified (cached_pages m ! j)) \<or> content cr (aes_ctr w) (st i) = Some (ps ! i)"
        using cache i unfolding cache_rep_def by blast
      moreover have "j \<noteq> slot" if "cp_modified (cached_pages m ! j)" for j using that clean by auto
      ultimately consider j where "cached_at m j i" "j \<noteq> slot" "cp_modified (cached_pages m ! j)"
        | "content cr (aes_ctr w) (st i) = Some (ps ! i)" by blast
      then show "(\<exists>j. cached_at m' j i \<and> cp_modified (cached_pages m' ! j)) \<or> content cr (aes_ctr w') (st i) = Some (ps ! i)"
      proof cases
        case 1
        then show ?thesis using at' same [of j] by auto
      next
        case 2
        then show ?thesis using eq w' by simp
      qed
    qed
    moreover have "tree_rep cr S issued m' (length ps) N t st" by (rule cong) (use tree eq in simp)
    ultimately show ?thesis unfolding core_rep_def using cr nonce by blast
  qed
qed

text \<open>Storing a loaded page in a free slot.\<close>

lemma store_page_rep:
  assumes rep: "core_rep cr S issued w m ps" and load: "load_page cr i (w, m) = ((w1, m1), Ok p)"
    and ok: "om_ok cr S issued m1" and i: "unat i < length ps" and free: "\<And>j. \<not> cached_at m j (unat i)"
    and slot: "slot < length (cached_pages m)" "\<not> cp_valid (cached_pages m ! slot)"
    and store: "store_page i slot p (w1, m1) = ((w2, m2), Ok ())"
  shows "core_rep cr S issued w2 m2 ps" "cached_at m2 slot (unat i)"
proof -
  obtain page h where p: "p = (page, h)" by fastforce
  obtain N t st where tree: "tree_rep cr S issued m (length ps) N t st"
    and cache: "cache_rep cr (aes_ctr w) m N t st ps"
    and cr: "crypto_ok cr" "length (aes_nonce (aes_ctr w)) = 12" "pages_ok ps"
    using rep unfolding core_rep_def by blast
  note sound = load_page_sound [OF load [unfolded p] tree cr(1) i ok]
  have touch: "om_touch (w, m) (w1, m1)" by (rule stepsD [OF touch_load load])
  then have c1: "cached_pages m1 = cached_pages m" "is_readonly m1 = is_readonly m" and le: "world_le w w1"
    by (auto elim!: om_touchE)
  let ?c = "\<lparr>cp_idx = i, cp_page = page, cp_hash = h, cp_valid = True, cp_modified = False\<rparr>"
  have m2: "m2 = m1\<lparr>cached_pages := (cached_pages m)[slot := ?c]\<rparr>" "w2 = w1"
    using store c1 by (auto simp: store_page_def p)
  have at: "cached_at m2 k a \<longleftrightarrow> (k = slot \<and> a = unat i) \<or> (k \<noteq> slot \<and> cached_at m k a)" for k a
    using slot by (auto simp: cached_at_def m2 nth_list_update)
  then show "cached_at m2 slot (unat i)" by blast
  have not_slot: "\<not> cached_at m slot a" for a using slot(2) by (simp add: cached_at_def)
  have uniq: "j = k" if "cached_at m j a" "cached_at m k a" for j k a
    using cache that unfolding cache_rep_def by blast
  have "content cr (aes_ctr w) (st (unat i)) = Some (ps ! unat i)"
    using cache free i unfolding cache_rep_def by blast
  then have page: "page = ps ! unat i" using sound(2) by simp
  have new: "cached_pages m2 ! slot = ?c" using slot by (simp add: m2)
  have old: "cached_pages m2 ! k = cached_pages m ! k" if "k \<noteq> slot" for k using that by (simp add: m2)
  have "cache_rep cr (aes_ctr w2) m2 N t st ps"
    unfolding cache_rep_def
  proof (intro conjI allI impI)
    fix j a assume "cached_at m2 j a"
    then consider "j = slot" "a = unat i" | "j \<noteq> slot" "cached_at m j a" using at by blast
    then have "a < length ps \<and> cp_page (cached_pages m2 ! j) = ps ! a \<and> cp_hash (cached_pages m2 ! j) = t ! (N - 1 + a) \<and>
        (cp_modified (cached_pages m2 ! j) \<longrightarrow> \<not> is_readonly m2)"
    proof cases
      case 1
      then show ?thesis using new page sound(1) i by simp
    next
      case 2
      then have "a < length ps \<and> cp_page (cached_pages m ! j) = ps ! a \<and> cp_hash (cached_pages m ! j) = t ! (N - 1 + a) \<and>
          (cp_modified (cached_pages m ! j) \<longrightarrow> \<not> is_readonly m)"
        using cache unfolding cache_rep_def by blast
      then show ?thesis using old [OF 2(1)] c1 by (simp add: m2)
    qed
    then show "a < length ps" "cp_page (cached_pages m2 ! j) = ps ! a" "cp_hash (cached_pages m2 ! j) = t ! (N - 1 + a)"
      "cp_modified (cached_pages m2 ! j) \<Longrightarrow> \<not> is_readonly m2" by blast+
  next
    fix j k a assume "cached_at m2 j a" "cached_at m2 k a"
    then show "j = k" using at free uniq by metis
  next
    fix a assume "a < length ps"
    then consider j where "cached_at m j a" "cp_modified (cached_pages m ! j)" | "content cr (aes_ctr w) (st a) = Some (ps ! a)"
      using cache unfolding cache_rep_def by blast
    then show "(\<exists>j. cached_at m2 j a \<and> cp_modified (cached_pages m2 ! j)) \<or> content cr (aes_ctr w2) (st a) = Some (ps ! a)"
    proof cases
      case 1
      then have "j \<noteq> slot" using not_slot by blast
      then show ?thesis using 1 at old [of j] by auto
    next
      case 2
      then show ?thesis using world_le_key [OF le] m2(2) by simp
    qed
  qed
  moreover have "tree_rep cr S issued m2 (length ps) N t st"
    by (rule tree_rep_cong [OF sound(3)]) (simp_all add: m2)
  moreover have "length (aes_nonce (aes_ctr w2)) = 12" using le cr(2) m2(2) by (simp add: world_le_def)
  ultimately show "core_rep cr S issued w2 m2 ps" unfolding core_rep_def using cr by blast
qed

lemma cache_rep_page:
  "core_rep cr S issued w m ps \<Longrightarrow> cached_at m j i \<Longrightarrow> i < length ps \<and> cp_page (cached_pages m ! j) = ps ! i"
  unfolding core_rep_def cache_rep_def by blast

text \<open>Reading the page of a cached index through the reference.\<close>

lemma ref_rep:
  assumes "core_rep cr S issued w m ps" "cached_at m slot (unat i)"
    and "get_cached_page_ref i slot (w, m) = ((w', m'), Ok r)"
  shows "om_rep cr S issued w' m' ps" "cached_at m' r (unat i)" "cp_page (cached_pages m' ! r) = ps ! unat i"
proof -
  have m': "w' = w" "m' = m\<lparr>last_accessed_page := Some (i, slot)\<rparr>" "r = slot"
    using assms(3) by (auto simp: get_cached_page_ref_Ok)
  have "core_rep cr S issued w' m' ps"
    by (rule core_rep_cong [OF assms(1)]) (simp_all add: m')
  moreover show "cached_at m' r (unat i)" using assms(2) by (simp add: m' cached_at_def)
  ultimately show "om_rep cr S issued w' m' ps" "cp_page (cached_pages m' ! r) = ps ! unat i"
    using cache_rep_page [OF \<open>core_rep cr S issued w' m' ps\<close>, of r "unat i"]
    by (auto simp: om_rep_def last_rep_def m')
qed

lemma search_page_rep:
  assumes run: "search_page cr es i (w, m) = ((w', m'), Ok r)" and rep: "core_rep cr S issued w m ps"
    and ok: "om_ok cr S issued m'" and i: "unat i < length ps"
  shows "om_rep cr S issued w' m' ps \<and> cached_at m' r (unat i) \<and> cp_page (cached_pages m' ! r) = ps ! unat i"
proof (cases "find_slot (\<lambda>c. cp_valid c \<and> cp_idx c = i) (cached_pages m)")
  case (Some j)
  then have at: "cached_at m j (unat i)" using find_slot_Some by (fastforce simp: cached_at_def)
  from run Some obtain s where ref: "get_cached_page_ref i j (w, m\<lparr>evict_state := s\<rparr>) = ((w', m'), Ok r)"
    by (auto simp: search_page_def bindS_Ok_iff notify_Ok)
  have "core_rep cr S issued w (m\<lparr>evict_state := s\<rparr>) ps" by (rule core_rep_cong [OF rep]) simp_all
  from ref_rep [OF this _ ref] at show ?thesis by (simp add: cached_at_def)
next
  case None
  then have none: "\<not> cached_at m j (unat i)" for j by (auto simp: find_slot_None cached_at_def word_unat_eq_iff)
  from run None obtain w0 m0 slot w1 m1 p w2 m2 s where
    slot: "(case find_slot (\<lambda>c. \<not> cp_valid c) (cached_pages m) of
        Some slot \<Rightarrow> returnS slot | None \<Rightarrow> evict_page cr es) (w, m) = ((w0, m0), Ok slot)"
    and load: "load_page cr i (w0, m0) = ((w1, m1), Ok p)"
    and store: "store_page i slot p (w1, m1) = ((w2, m2), Ok ())"
    and ref: "get_cached_page_ref i slot (w2, m2\<lparr>evict_state := s\<rparr>) = ((w', m'), Ok r)"
    by (auto simp: search_page_def bindS_Ok_iff notify_Ok)
  have m': "hasher_log (om_hasher m') = hasher_log (om_hasher m1)" "accepted_tags m' = accepted_tags m1"
    "readonly_written m' = readonly_written m1"
    using ref store by (auto simp: get_cached_page_ref_Ok store_page_def)
  have ok1: "om_ok cr S issued m1" using ok m' by (simp add: om_ok_def)
  have ok0: "om_ok cr S issued m0"
    by (rule om_ok_le [OF om_touch_le [OF stepsD [OF touch_load load]] ok1])
  have s: "core_rep cr S issued w0 m0 ps" "slot < length (cached_pages m0)" "\<not> cp_valid (cached_pages m0 ! slot)"
    "\<And>j. \<not> cached_at m0 j (unat i)"
  proof -
    have "core_rep cr S issued w0 m0 ps \<and> slot < length (cached_pages m0) \<and> \<not> cp_valid (cached_pages m0 ! slot) \<and>
      (\<forall>j. \<not> cached_at m0 j (unat i))"
    proof (cases "find_slot (\<lambda>c. \<not> cp_valid c) (cached_pages m)")
      case (Some j)
      then show ?thesis using slot find_slot_Some [OF Some] rep none by auto
    next
      case full: None
      then have "\<forall>j<length (cached_pages m). cp_valid (cached_pages m ! j)" by (simp add: find_slot_None)
      moreover from slot full have ev: "evict_page cr es (w, m) = ((w0, m0), Ok slot)" by simp
      ultimately show ?thesis using evict_page_rep [OF ev rep ok0] none by blast
    qed
    then show "core_rep cr S issued w0 m0 ps" "slot < length (cached_pages m0)" "\<not> cp_valid (cached_pages m0 ! slot)"
    "\<And>j. \<not> cached_at m0 j (unat i)" by blast+
  qed
  note st = store_page_rep [OF s(1) load ok1 i s(4,2,3) store]
  have "core_rep cr S issued w2 (m2\<lparr>evict_state := s\<rparr>) ps" by (rule core_rep_cong [OF st(1)]) simp_all
  from ref_rep [OF this _ ref] st(2) show ?thesis by (simp add: cached_at_def)
qed

lemma get_page_rep:
  assumes run: "om_get_page cr es i (w, m) = ((w', m'), Ok r)" and rep: "om_rep cr S issued w m ps"
    and ok: "om_ok cr S issued m'" and i: "unat i < length ps"
  shows "om_rep cr S issued w' m' ps \<and> cached_at m' r (unat i) \<and> cp_page (cached_pages m' ! r) = ps ! unat i"
proof -
  have core: "core_rep cr S issued w m ps" using rep by (simp add: om_rep_def)
  show ?thesis
  proof (cases "\<exists>j. last_accessed_page m = Some (i, j)")
    case True
    then obtain j where j: "last_accessed_page m = Some (i, j)" by blast
    then have "cached_at m j (unat i)" using rep by (simp add: om_rep_def last_rep_def)
    moreover from run j have "get_cached_page_ref i j (w, m) = ((w', m'), Ok r)" by (simp add: om_get_page_def)
    ultimately show ?thesis using ref_rep [OF core] by blast
  next
    case False
    with run have "search_page cr es i (w, m) = ((w', m'), Ok r)"
      by (auto simp: om_get_page_def split: option.splits prod.splits if_splits)
    from search_page_rep [OF this core ok i] show ?thesis .
  qed
qed

lemma deref_mut_rep:
  fixes w :: "('k, 'z) world_scheme" and m :: "'s OutsourcedMemory"
  assumes rep: "om_rep cr S issued w m ps" and at: "cached_at m r i" and wr: "\<not> is_readonly m"
    and f: "page_ok (f (ps ! i))"
  shows "om_rep cr S issued w (deref_mut (outsourced cr es :: (('k, 'z) world_scheme, 's OutsourcedMemory, nat) PagedMemory) m r f) (ps[i := f (ps ! i)])"
proof -
  obtain N t st where tree: "tree_rep cr S issued m (length ps) N t st"
    and cache: "cache_rep cr (aes_ctr w) m N t st ps" and last: "last_rep m"
    and cr: "crypto_ok cr" "length (aes_nonce (aes_ctr w)) = 12" "pages_ok ps"
    using rep unfolding om_rep_def core_rep_def by blast
  let ?c = "cached_pages m ! r" and ?ps = "ps[i := f (ps ! i)]"
  let ?m = "deref_mut (outsourced cr es :: (('k, 'z) world_scheme, 's OutsourcedMemory, nat) PagedMemory) m r f"
  have r: "r < length (cached_pages m)" using at by (simp add: cached_at_def)
  have m: "?m = m\<lparr>cached_pages := (cached_pages m)[r := ?c\<lparr>cp_modified := True, cp_page := f (cp_page ?c)\<rparr>],
      readonly_written := readonly_written m \<or> is_readonly m\<rparr>"
    by (simp add: outsourced_def)
  have at': "cached_at ?m = cached_at m"
    using r by (auto simp: cached_at_def m nth_list_update fun_eq_iff)
  have page: "i < length ps" "cp_page ?c = ps ! i" using cache at unfolding cache_rep_def by blast+
  have only: "k = r" if "cached_at m k i" for k using cache at that unfolding cache_rep_def by blast
  have same: "cached_pages ?m ! k = cached_pages m ! k" if "k \<noteq> r" for k using that by (simp add: m)
  have new: "cached_pages ?m ! r = ?c\<lparr>cp_modified := True, cp_page := f (cp_page ?c)\<rparr>" using r by (simp add: m)
  have idx: "a = i" if "cached_at m r a" for a using that at by (simp add: cached_at_def)
  have "cache_rep cr (aes_ctr w) ?m N t st ?ps"
    unfolding cache_rep_def at'
  proof (intro conjI allI impI)
    fix j a assume j: "cached_at m j a"
    then have old: "a < length ps \<and> cp_page (cached_pages m ! j) = ps ! a \<and> cp_hash (cached_pages m ! j) = t ! (N - 1 + a)"
      using cache unfolding cache_rep_def by blast
    have "a < length ?ps \<and> cp_page (cached_pages ?m ! j) = ?ps ! a \<and> cp_hash (cached_pages ?m ! j) = t ! (N - 1 + a)"
    proof (cases "j = r")
      case True
      then show ?thesis using old new page idx j by simp
    next
      case False
      then have "a \<noteq> i" using only j by blast
      then show ?thesis using old same [OF False] by simp
    qed
    then show "a < length ?ps" "cp_page (cached_pages ?m ! j) = ?ps ! a" "cp_hash (cached_pages ?m ! j) = t ! (N - 1 + a)"
      by blast+
    show "\<not> is_readonly ?m" using wr by (simp add: m)
  next
    fix j k a assume "cached_at m j a" "cached_at m k a"
    then show "j = k" using cache unfolding cache_rep_def by blast
  next
    fix a assume "a < length ?ps"
    then have "a < length ps" by simp
    then consider j where "cached_at m j a" "cp_modified (cached_pages m ! j)" | "content cr (aes_ctr w) (st a) = Some (ps ! a)"
      using cache unfolding cache_rep_def by blast
    then show "(\<exists>j. cached_at m j a \<and> cp_modified (cached_pages ?m ! j)) \<or> content cr (aes_ctr w) (st a) = Some (?ps ! a)"
    proof cases
      case 1
      then show ?thesis using same [of j] new by (cases "j = r") auto
    next
      case 2
      show ?thesis
      proof (cases "a = i")
        case True
        then show ?thesis using at new by auto
      qed (use 2 in simp)
    qed
  qed
  moreover have "tree_rep cr S issued ?m (length ?ps) N t st"
    using tree_rep_cong [OF tree, of ?m] by (simp add: m)
  moreover have "pages_ok ?ps" using cr(3) f by (auto simp: pages_ok_def list_all_iff dest!: subsetD [OF set_update_subset_insert])
  moreover have "last_rep ?m" using last unfolding last_rep_def at' by (simp add: m)
  ultimately show ?thesis using cr unfolding om_rep_def core_rep_def by blast
qed

text \<open>
  The outsourced memory provides what segments and the processor rely on: the laws of
  \<open>paged_memory_laws\<close>, for any strategy, any host and any cryptography.
\<close>

interpretation outsourced: paged_memory_laws "outsourced cr es :: (('k, 'z) world_scheme, 's OutsourcedMemory, nat) PagedMemory" "om_rep cr S issued" world_le
  "om_ok cr S issued" "\<lambda>m. \<not> is_readonly m" "\<lambda>_ (_ :: unit). True" "\<lambda>_. True"
  for cr :: "'k crypto" and es :: "'s eviction_strategy" and S and issued
proof
  fix w w' w1 w2 w3 :: "('k, 'z) world_scheme" and m m' :: "'s OutsourcedMemory" and i res r f ps
  let ?pm = "outsourced cr es :: (('k, 'z) world_scheme, 's OutsourcedMemory, nat) PagedMemory"
  have gp: "get_page ?pm = om_get_page cr es" by (simp add: outsourced_def)
  show "world_le w w" by simp
  show "world_le w1 w2 \<Longrightarrow> world_le w2 w3 \<Longrightarrow> world_le w1 w3" by (rule world_le_trans)
  show "om_rep cr S issued w m ps \<Longrightarrow> world_le w w' \<Longrightarrow> om_rep cr S issued w' m ps"
    unfolding om_rep_def by (auto elim: core_rep_cong)
  show "om_rep cr S issued w m ps \<Longrightarrow> pages_ok ps" by (simp add: om_rep_def core_rep_def)
  have le: "om_le (w, m) (w', m')" if "get_page ?pm i (w, m) = ((w', m'), res)" for res
    using stepsD [OF le_get_page] that unfolding gp by blast
  show "world_le w w'" if "get_page ?pm i (w, m) = ((w', m'), res)"
    using le [OF that] by (simp add: om_le_def)
  show "om_ok cr S issued m" if "get_page ?pm i (w, m) = ((w', m'), res)" "om_ok cr S issued m'"
    by (rule om_ok_le [OF le [OF that(1)] that(2)])
  show "(\<not> is_readonly m') = (\<not> is_readonly m)" if "get_page ?pm i (w, m) = ((w', m'), res)"
    using le [OF that] by (simp add: om_le_def)
  show "om_rep cr S issued w' m' ps \<and> deref ?pm m' r = ps ! unat i"
    if "get_page ?pm i (w, m) = ((w', m'), Ok r)" "om_ok cr S issued m'" "om_rep cr S issued w m ps"
      "unat i < length ps"
    using get_page_rep [OF that(1) [unfolded gp] that(3,2,4)] by (simp add: outsourced_def)
  show "om_rep cr S issued w' (deref_mut ?pm m' r f) (ps[unat i := f (ps ! unat i)])"
    if "get_page ?pm i (w, m) = ((w', m'), Ok r)" "om_ok cr S issued m'" "om_rep cr S issued w m ps"
      "unat i < length ps" "\<not> is_readonly m" "page_ok (f (ps ! unat i))"
  proof (rule deref_mut_rep)
    show "om_rep cr S issued w' m' ps" "cached_at m' r (unat i)"
      using get_page_rep [OF that(1) [unfolded gp] that(3,2,4)] by auto
    show "\<not> is_readonly m'" using le [OF that(1)] that(5) by (simp add: om_le_def)
  qed (rule that(6))
  show "om_ok cr S issued m \<and> \<not> is_readonly m" if "om_ok cr S issued (deref_mut ?pm m r f)"
    using that by (simp add: om_ok_def outsourced_def)
  show "(\<not> is_readonly (deref_mut ?pm m r f)) = (\<not> is_readonly m)"
    by (simp add: outsourced_def)
qed simp_all
end
