(* ===== verification/Outsourced_Refines.thy ===== *)
theory Outsourced_Refines
  imports Outsourced_Mem
begin

text \<open>
  What the outsourced memory promises, from the moment it is made: any sequence of page reads and byte
  writes that succeeds returns what a plain vector of pages returns. And when the loop that fetches
  proofs returns.
\<close>

section \<open>A new memory\<close>

lemma next_power_of_two_ge: "n \<le> next_power_of_two n"
proof (induction n rule: next_power_of_two.induct)
  case (1 n)
  then show ?case by (cases "n \<le> 1") (auto simp: next_power_of_two.simps [of n])
qed

lemma om_new_rep:
  assumes "crypto_ok cr" "length (aes_nonce (aes_ctr w)) = 12" "pages_ok ps"
    and "checked_next_power_of_two (unat n) = Some N" "length ps \<le> N" "tree_ok (sha256 cr) N t"
    and leaf: "\<And>i. i < length ps \<Longrightarrow> t ! (N - 1 + i) = sha256 cr (stored_message (False, replicate 12 0, ps ! i))"
    and S: "set (tree_messages N t) \<subseteq> S" "\<And>i. i < length ps \<Longrightarrow> stored_message (False, replicate 12 0, ps ! i) \<in> S"
    and code: "kind = Code \<Longrightarrow> ro \<and> (\<forall>(i, h)\<in>issued. unat i < length ps \<longrightarrow> h = t ! (N - 1 + unat i))"
  shows "om_rep cr S issued w (OutsourcedMemory_new k ro kind n (t ! 0) s vh) ps"
proof -
  let ?m = "OutsourcedMemory_new k ro kind n (t ! 0) s vh"
  have "stored_ok (False, replicate 12 0, ps ! i)" if "i < length ps" for i
    using assms(3) that by (simp add: stored_ok_def pages_ok_def list_all_length nonce_wf_def page_ok_def)
  then have "tree_rep cr S issued ?m (length ps) N t (\<lambda>i. (False, replicate 12 0, ps ! i))"
    unfolding tree_rep_def using assms by (auto simp: OutsourcedMemory_new_def)
  moreover have "cache_rep cr (aes_ctr w) ?m N t (\<lambda>i. (False, replicate 12 0, ps ! i)) ps"
    by (auto simp: cache_rep_def cached_at_def OutsourcedMemory_new_def CachedPage_default_def content_def)
  ultimately show ?thesis
    using assms(1-3) unfolding om_rep_def core_rep_def last_rep_def by (auto simp: OutsourcedMemory_new_def)
qed

section \<open>Sequences of reads and writes\<close>

datatype page_op = ReadPage u32 | WriteByte u32 nat u8

primrec page_of :: "page_op \<Rightarrow> u32" where
  "page_of (ReadPage i) = i"
| "page_of (WriteByte i j b) = i"

fun run_ops :: "('w, 'm, 'r) PagedMemory \<Rightarrow> page_op list \<Rightarrow> ('w \<times> 'm, memory_error, page list) stm" where
  "run_ops pm [] s = ((s, Ok []))"
| "run_ops pm (ReadPage i # ops) s =
     (case get_page pm i s of
        (s1, Inl e) \<Rightarrow> (s1, Err e)
      | ((w1, m1), Inr r) \<Rightarrow>
          (case run_ops pm ops (w1, m1) of
             (s2, Inl e) \<Rightarrow> (s2, Err e)
           | (s2, Inr out) \<Rightarrow> (s2, Ok (deref pm m1 r # out))))"
| "run_ops pm (WriteByte i j b # ops) s =
     (case get_page pm i s of
        (s1, Inl e) \<Rightarrow> (s1, Err e)
      | ((w1, m1), Inr r) \<Rightarrow> run_ops pm ops (w1, deref_mut pm m1 r (\<lambda>page. page[j := b])))"

text \<open>The vector of pages needs no run: what is read and what the pages are in the end.\<close>

fun vec_ops :: "page_op list \<Rightarrow> page list \<Rightarrow> page list \<times> page list" where
  "vec_ops [] ps = ([], ps)"
| "vec_ops (ReadPage i # ops) ps = (case vec_ops ops ps of (out, ps') \<Rightarrow> (ps ! unat i # out, ps'))"
| "vec_ops (WriteByte i j b # ops) ps = vec_ops ops (ps[unat i := (ps ! unat i)[j := b]])"

context paged_memory_laws
begin

lemma run_ops_ok: "run_ops pm ops (w, m) = ((w', m'), res) \<Longrightarrow> ok m' \<Longrightarrow> ok m"
proof (induction ops arbitrary: w m res)
  case (Cons x ops)
  show ?case
  proof (cases x)
    case (ReadPage i)
    with Cons.prems Cons.IH show ?thesis
      by (auto split: prod.splits sum.splits dest: get_page_ok)
  next
    case (WriteByte i j b)
    with Cons.prems Cons.IH show ?thesis
      by (fastforce split: prod.splits sum.splits dest: get_page_ok deref_mut_ok)
  qed
qed simp

lemma run_ops_rep:
  assumes "run_ops pm ops (w, m) = ((w', m'), Ok out)" "rep w m ps" "ok m'"
    and "\<forall>x\<in>set ops. unat (page_of x) < length ps" "wr m \<or> (\<forall>x\<in>set ops. \<exists>i. x = ReadPage i)"
  shows "\<exists>ps'. vec_ops ops ps = (out, ps') \<and> rep w' m' ps'"
  using assms
proof (induction ops arbitrary: w m ps out)
  case (Cons x ops)
  show ?case
  proof (cases x)
    case (ReadPage i)
    with Cons.prems(1) obtain w1 m1 r out1 where g: "get_page pm i (w, m) = ((w1, m1), Ok r)"
      and r: "run_ops pm ops (w1, m1) = ((w', m'), Ok out1)" and out: "out = deref pm m1 r # out1"
      by (auto split: prod.splits sum.splits)
    have g1: "rep w1 m1 ps \<and> deref pm m1 r = ps ! unat i"
      by (rule get_page_rep [OF g run_ops_ok [OF r Cons.prems(3)] Cons.prems(2)])
         (use Cons.prems(4) ReadPage in simp)
    have "\<exists>ps'. vec_ops ops ps = (out1, ps') \<and> rep w' m' ps'"
      by (rule Cons.IH [OF r _ Cons.prems(3)]) (use g1 Cons.prems(4,5) get_page_wr [OF g] in auto)
    with g1 show ?thesis by (auto simp: ReadPage out)
  next
    case (WriteByte i j b)
    let ?f = "\<lambda>page. page[j := b]"
    from WriteByte Cons.prems(1) obtain w1 m1 r where g: "get_page pm i (w, m) = ((w1, m1), Ok r)"
      and r: "run_ops pm ops (w1, deref_mut pm m1 r ?f) = ((w', m'), Ok out)"
      by (auto split: prod.splits sum.splits)
    have i: "unat i < length ps" using Cons.prems(4) WriteByte by simp
    have "wr m" using Cons.prems(5) WriteByte by auto
    have ok1: "ok m1" using run_ops_ok [OF r Cons.prems(3)] by (simp add: deref_mut_ok)
    have "page_ok (?f (ps ! unat i))"
      using rep_pages_ok [OF Cons.prems(2)] i by (simp add: pages_ok_def list_all_length page_ok_def)
    from deref_mut_rep [of i w m w1 m1 r ps ?f, OF g ok1 Cons.prems(2) i \<open>wr m\<close> this]
    have rep1: "rep w1 (deref_mut pm m1 r ?f) (ps[unat i := ?f (ps ! unat i)])" .
    have "\<exists>ps'. vec_ops ops (ps[unat i := ?f (ps ! unat i)]) = (out, ps') \<and> rep w' m' ps'"
      by (rule Cons.IH [OF r rep1 Cons.prems(3)])
         (use Cons.prems(4) \<open>wr m\<close> get_page_wr [OF g] in \<open>auto simp: deref_mut_wr\<close>)
    then show ?thesis by (simp add: WriteByte)
  qed
qed simp

end

text \<open>Without writes to a read-only memory, none is recorded.\<close>

lemma run_ops_readonly_written:
  fixes w :: "('k, 'z) world_scheme" and m :: "'s OutsourcedMemory"
  assumes "run_ops (outsourced cr es) ops (w, m) = ((w', m'), res)"
    and "is_readonly m \<longrightarrow> (\<forall>x\<in>set ops. \<exists>i. x = ReadPage i)" "\<not> readonly_written m"
  shows "\<not> readonly_written m'"
  using assms
proof (induction ops arbitrary: w m res)
  case (Cons x ops)
  obtain w1 m1 r1 where g: "get_page (outsourced cr es) (page_of x) (w, m) = ((w1, m1), r1)" by (metis surj_pair)
  then have same: "is_readonly m1 = is_readonly m" "readonly_written m1 = readonly_written m"
    using stepsD [OF le_get_page] by (fastforce simp: outsourced_def om_le_def)+
  show ?case
  proof (cases x)
    case (ReadPage i)
    have "(r1 = Err e \<longrightarrow> m' = m1) \<and> (r1 = Ok k \<longrightarrow> (\<exists>res'. run_ops (outsourced cr es) ops (w1, m1) = ((w', m'), res')))" for e k
      using Cons.prems(1) g by (auto simp: ReadPage split: prod.splits sum.splits)
    then show ?thesis using Cons.IH [of w1 m1] Cons.prems(2,3) same by (cases r1) fastforce+
  next
    case (WriteByte i j b)
    let ?m = "deref_mut (outsourced cr es :: (('k, 'z) world_scheme, 's OutsourcedMemory, nat) PagedMemory) m1 (projr r1) (\<lambda>page. page[j := b])"
    have wr: "\<not> is_readonly m" using Cons.prems(2) WriteByte by auto
    have m: "is_readonly ?m = is_readonly m1" "readonly_written ?m = (readonly_written m1 \<or> is_readonly m1)"
      by (simp_all add: outsourced_def)
    have "(r1 = Err e \<longrightarrow> m' = m1) \<and> (r1 = Ok k \<longrightarrow> run_ops (outsourced cr es) ops (w1, ?m) = ((w', m'), res))" for e k
      using Cons.prems(1) g by (auto simp: WriteByte)
    then show ?thesis using Cons.IH [of w1 ?m] Cons.prems(2,3) same m wr by (cases r1) fastforce+
  qed
qed simp

text \<open>
  C31: (freshness and integrity) A memory made with the root of a tree over some pages is used for any
  sequence of page reads and byte writes, with any eviction strategy and any host. If the sequence
  succeeds, everything read is what a plain vector of pages would have returned: never a page of
  another index, an old version, or a page the host made up. The hypotheses are on the cryptography:
  no two of the messages hashed in the tree and in the run have the same hash, and every tag that was
  accepted had been issued for the page of that index.
\<close>

theorem outsourced_pages:
  assumes "crypto_ok cr" "length (aes_nonce (aes_ctr w)) = 12" "pages_ok ps"
    and "checked_next_power_of_two (length ps) = Some N" "tree_ok (sha256 cr) N t"
    and "\<forall>i<length ps. t ! (N - 1 + i) = sha256 cr (stored_message (False, replicate 12 0, ps ! i))"
    and "kind = Code \<longrightarrow> ro"
    and run: "run_ops (outsourced cr es) ops
        (w, OutsourcedMemory_new k ro kind (of_nat (length ps)) (t ! 0) strategy vapp_hash) = ((w', m'), Ok out)"
    and "\<forall>x\<in>set ops. unat (page_of x) < length ps" "ro \<longrightarrow> (\<forall>x\<in>set ops. \<exists>i. x = ReadPage i)"
    and "inj_on (sha256 cr) (set (tree_messages N t) \<union> (\<lambda>page. stored_message (False, replicate 12 0, page)) ` set ps
        \<union> set (hasher_log (om_hasher m')))"
    and "\<forall>(i, h)\<in>set (accepted_tags m'). unat i < length ps \<longrightarrow> h = t ! (N - 1 + unat i)"
  shows "fst (vec_ops ops ps) = out"
proof -
  let ?S = "set (tree_messages N t) \<union> (\<lambda>page. stored_message (False, replicate 12 0, page)) ` set ps"
  let ?I = "set (accepted_tags m')"
  let ?m = "OutsourcedMemory_new k ro kind (of_nat (length ps)) (t ! 0) strategy vapp_hash"
  have "length ps \<le> 2 ^ 31" using assms(4) by (auto simp: checked_next_power_of_two_def split: if_splits)
  then have n: "unat (of_nat (length ps) :: u32) = length ps" by (simp add: unat_of_nat take_bit_nat_eq_self)
  have N: "length ps \<le> N" using next_power_of_two_ge assms(4)
    by (auto simp: checked_next_power_of_two_def split: if_splits)
  have "om_rep cr ?S ?I w ?m ps"
    by (rule om_new_rep [OF assms(1-3) _ N assms(5)]) (use assms(4,6,7,12) n in auto)
  moreover have "\<not> readonly_written m'"
    by (rule run_ops_readonly_written [OF run]) (use assms(10) in \<open>simp_all add: OutsourcedMemory_new_def\<close>)
  then have "om_ok cr ?S ?I m'" using assms(11) by (simp add: om_ok_def)
  moreover have "\<not> is_readonly ?m \<or> (\<forall>x\<in>set ops. \<exists>i. x = ReadPage i)"
    using assms(10) by (auto simp: OutsourcedMemory_new_def)
  ultimately show ?thesis using outsourced.run_ops_rep [OF run] assms(9) by fastforce
qed

section \<open>The loop that fetches proofs\<close>

lemma proof_loop_returns:
  assumes "\<And>w1 w2 data t els. \<lbrakk>world_le w w1; interrupt request w1 = (w2, Ok data); decode data = Some (t, els)\<rbrakk> \<Longrightarrow> 0 < t"
  shows "\<exists>w' v' res. proof_loop request decode step n k v w = Some ((w', v'), res) \<and>
    length (sent w') \<le> length (sent w) + (n - k)"
  using assms
proof (induction "n - k" arbitrary: k v w rule: less_induct)
  case less
  show ?case
  proof (cases "k < n")
    case False
    then show ?thesis by (simp add: proof_loop.simps)
  next
    case True
    obtain w1 r where int: "interrupt request w = (w1, r)" by fastforce
    have le: "world_le w w1" and len: "length (sent w1) = Suc (length (sent w))"
      using interrupt_le [OF int] interrupt_world [OF int] by auto
    show ?thesis
    proof (cases "\<exists>data els. r = Ok data \<and> decode data = Some (length els, els)")
      case False
      have "\<exists>v' res. proof_loop request decode step n k v w = Some ((w1, v'), res)"
        using True False int by (auto simp: proof_loop.simps split: sum.splits option.splits)
      then show ?thesis using True len by (auto intro!: exI [of _ w1])
    next
      case more: True
      then obtain data els where d: "r = Ok data" "decode data = Some (length els, els)" by blast
      have pos: "0 < length els" using less.prems [OF world_le_refl, of w1 data "length els" els] int d by simp
      then have dec: "n - (k + length els) < n - k" using True by linarith
      have "\<exists>w' v' res. proof_loop request decode step n (k + length els) (fold step els v) w1 = Some ((w', v'), res)
          \<and> length (sent w') \<le> length (sent w1) + (n - (k + length els))"
        by (rule less.hyps [OF dec]) (rule less.prems, auto intro: world_le_trans [OF le])
      moreover have "proof_loop request decode step n k v w =
          proof_loop request decode step n (k + length els) (fold step els v) w1"
        using True int d by (simp add: proof_loop.simps [of request decode step n k])
      ultimately show ?thesis using dec len by fastforce
    qed
  qed
qed

definition stalls :: "bytes \<Rightarrow> (bytes \<Rightarrow> (nat \<times> hash_output list) option) \<Rightarrow> ('k, 'z) world_scheme \<Rightarrow> bool" where
  "stalls request decode w \<longleftrightarrow> (\<forall>w1. world_le w w1 \<longrightarrow>
     (\<exists>w2 data. interrupt request w1 = (w2, Ok data) \<and> decode data = Some (0, [])))"

lemma proof_loop_diverges:
  assumes "k < n" "stalls request decode w"
  shows "proof_loop request decode step n k v w = None"
proof (rule ccontr)
  assume "proof_loop request decode step n k v w \<noteq> None"
  then obtain out where "proof_loop request decode step n k v w = Some out" by blast
  note induct = proof_loop.raw_induct
    [where P = "\<lambda>request decode step n k v w out. k < n \<longrightarrow> \<not> stalls request decode w", OF _ this]
  have "k < n \<longrightarrow> \<not> stalls request decode w"
  proof (rule induct)
    fix loop request decode step n k v w out
    assume IH: "\<And>request decode step n k v w out. loop request decode step n k v w = Some out \<Longrightarrow>
        k < n \<longrightarrow> \<not> stalls request decode w"
      and run: "(if k < n then
        (case interrupt request w of
           (w1, Inl e) \<Rightarrow> Some ((w1, v), Err (GenericError (InterruptError_as_str e)))
         | (w1, Inr data) \<Rightarrow>
             (case decode data of
                None \<Rightarrow> Some ((w1, v), Err (GenericError ''Invalid continued proof data''))
              | Some (t, elements) \<Rightarrow>
                  if t \<noteq> length elements
                  then Some ((w1, v), Err (GenericError
                    ''Continued proof size does not match the expected number of elements''))
                  else loop request decode step n (k + t) (fold step elements v) w1))
      else Some ((w, v), Ok ())) = Some out"
    show "k < n \<longrightarrow> \<not> stalls request decode w"
    proof (intro impI notI)
      assume k: "k < n" and st: "stalls request decode w"
      then obtain w1 data where int: "interrupt request w = (w1, Ok data)" "decode data = Some (0, [])"
        unfolding stalls_def by blast
      have "stalls request decode w1"
        using st world_le_trans [OF interrupt_le [OF int(1)]] unfolding stalls_def by blast
      moreover have "loop request decode step n k v w1 = Some out" using run k int by simp
      ultimately show False using IH k by blast
    qed
  qed
  then show False using assms by blast
qed

text \<open>
  C32: (the proof loop) The loop that fetches the rest of a proof returns if no continuation of the host
  has the count zero, after at most one request for each missing element, whatever else the host sends;
  and it never returns if the host answers every request with a continuation without elements.
\<close>

theorem proof_loop_terminates:
  "((\<forall>w1 w2 data t els. world_le w w1 \<longrightarrow> interrupt request w1 = (w2, Ok data) \<longrightarrow>
       decode data = Some (t, els) \<longrightarrow> 0 < t) \<longrightarrow>
     (\<exists>w' v' res. proof_loop request decode step n k v w = Some ((w', v'), res) \<and>
        length (sent w') \<le> length (sent w) + (n - k))) \<and>
   (k < n \<and> (\<forall>w1. world_le w w1 \<longrightarrow>
       (\<exists>w2 data. interrupt request w1 = (w2, Ok data) \<and> decode data = Some (0, []))) \<longrightarrow>
     proof_loop request decode step n k v w = None)"
  by (intro conjI impI proof_loop_returns)
     (blast, simp add: proof_loop_diverges stalls_def)

text \<open>A host that answers every request with the same data.\<close>

definition constant_host :: "bytes \<Rightarrow> u8 world" where
  "constant_host data = \<lparr>host = (\<lambda>_. \<lparr>cmd_ins = 0xff, cmd_p1 = 0, cmd_p2 = 0, cmd_data = data\<rparr>),
     sent = [], aes_ctr = AesCtr_new 5\<rparr>"

lemma constant_host_interrupt:
  "world_le (constant_host data) w1 \<Longrightarrow> interrupt request w1 = (w1\<lparr>sent := sent w1 @ [request]\<rparr>, Ok data)"
  by (auto simp: world_le_def constant_host_def interrupt_def Instruction_try_from_def)

theorem proof_loop_terminates_witness:
  "proof_loop [] decode_get_continued (\<lambda>h (c, hs). (c + 1 :: nat, hs)) 3 1 (0, hasher_new) (constant_host [0])
     = None \<and>
   (\<exists>w' v' res. proof_loop [] decode_get_continued (\<lambda>h (c, hs). (c + 1 :: nat, hs)) 3 1 (0, hasher_new)
      (constant_host (1 # replicate 32 9)) = Some ((w', v'), res) \<and> length (sent w') \<le> 2)"
proof -
  have empty: "decode_get_continued [0] = Some (0, [])" by code_simp
  have one: "decode_get_continued (1 # replicate 32 9) = Some (1, [replicate 32 9])" by code_simp
  note loop = proof_loop_terminates [where request = "[]" and decode = decode_get_continued
      and step = "\<lambda>h (c, hs). (c + 1 :: nat, hs)" and n = 3 and k = 1 and v = "(0, hasher_new)"]
  have "length (sent (constant_host data)) = 0" for data by (simp add: constant_host_def)
  then show ?thesis
    using loop [of "constant_host [0]"] loop [of "constant_host (1 # replicate 32 9)"]
    by (auto simp: constant_host_interrupt empty one numeral_2_eq_2)
qed

text \<open>
  A run for the witnesses: two data pages behind a cache of one page, the second page is written,
  evicted and committed, and read again, now encrypted.
\<close>

definition toy_crypto :: "u8 crypto" where
  "toy_crypto = \<lparr>sha256 = toy_hash, hmac_sha256 = (\<lambda>_ _. None), aes_block = toy_cipher,
     vm_auth_key = replicate 32 3\<rparr>"

definition toy_page :: "u8 \<Rightarrow> page" where
  "toy_page b = replicate 255 b @ [b + 7]"

definition toy_tree :: "hash_output list" where
  "toy_tree = ma_tree (build_tree toy_hash
     \<lparr>ma_data = map (\<lambda>b. page_message (toy_page b) None) [1, 2], ma_tree = []\<rparr>)"

definition toy_stored :: "bytes \<times> bytes" where
  "toy_stored = (case encrypt toy_cipher ((toy_page 2)[255 := 77]) (AesCtr_new 5) of
     (_, Inr s) \<Rightarrow> s | (_, Inl _) \<Rightarrow> ([], []))"

definition toy_tree' :: "hash_output list" where
  "toy_tree' = ma_tree (build_tree toy_hash
     \<lparr>ma_data = [page_message (toy_page 1) None, page_message (snd toy_stored) (Some (fst toy_stored))], ma_tree = []\<rparr>)"

definition toy_responses :: "bytes list" where
  "toy_responses =
     [GetPageResponse_serialize (GetPageResponse_new (toy_page 2) False (replicate 12 0) 1 1 Merkle [toy_tree ! 1]),
      CommitPageProofResponse_serialize (CommitPageProofResponse_new 1 1 (toy_tree' ! 0) [toy_tree ! 1]),
      GetPageResponse_serialize (GetPageResponse_new (toy_page 1) False (replicate 12 0) 1 1 Merkle [toy_tree' ! 2]),
      GetPageResponse_serialize (GetPageResponse_new (snd toy_stored) True (fst toy_stored) 1 1 Merkle [toy_tree ! 1])]"

definition toy_world :: "u8 world" where
  "toy_world = \<lparr>host = (\<lambda>sent. \<lparr>cmd_ins = 0xff, cmd_p1 = 0, cmd_p2 = 0, cmd_data = toy_responses ! (length sent - 1)\<rparr>),
     sent = [], aes_ctr = AesCtr_new 5\<rparr>"

definition toy_ops :: "page_op list" where
  "toy_ops = [WriteByte 1 255 77, ReadPage 0, ReadPage 1]"

definition toy_mem :: "LruEvictionStrategy OutsourcedMemory" where
  "toy_mem = OutsourcedMemory_new 1 False Data 2 (toy_tree ! 0) (Lru_new 1) []"

lemma toy_run:
  "case run_ops (outsourced toy_crypto Lru) toy_ops (toy_world, toy_mem) of ((w, m), r) \<Rightarrow>
     r = Ok [toy_page 1, (toy_page 2)[255 := 77]] \<and>
     distinct (map toy_hash (remdups (hasher_log (om_hasher m) @ tree_messages 2 toy_tree @
       map (\<lambda>page. stored_message (False, replicate 12 0, page)) [toy_page 1, toy_page 2]))) \<and>
     accepted_tags m = []"
  by code_simp

lemma toy_pages_ok: "pages_ok [toy_page 1, toy_page 2]"
  by (simp add: pages_ok_def page_ok_def toy_page_def PAGE_SIZE_def)

lemma toy_tree_ok: "tree_ok toy_hash 2 toy_tree"
  "\<forall>i<2. toy_tree ! (2 - 1 + i) = toy_hash (stored_message (False, replicate 12 0, [toy_page 1, toy_page 2] ! i))"
proof -
  let ?data = "map (\<lambda>b. page_message (toy_page b) None) [1, 2]"
  note tree = build_tree_ok [OF toy_hash_len, of ?data]
  show "tree_ok toy_hash 2 toy_tree" using tree(1) by (simp add: toy_tree_def numeral_2_eq_2)
  have l: "drop 1 toy_tree = map (hash_leaf toy_hash) ?data"
    using tree(2) by (simp add: toy_tree_def leaves_def)
  have "toy_tree ! (1 + i) = map (hash_leaf toy_hash) ?data ! i" if "i < 2" for i
  proof -
    have "length toy_tree = 3" using \<open>tree_ok toy_hash 2 toy_tree\<close> by (simp add: tree_ok_def)
    then have "toy_tree ! (1 + i) = drop 1 toy_tree ! i" by simp
    then show ?thesis unfolding l .
  qed
  then show "\<forall>i<2. toy_tree ! (2 - 1 + i) =
      toy_hash (stored_message (False, replicate 12 0, [toy_page 1, toy_page 2] ! i))"
    by (auto simp: less_2_cases_iff stored_message_def hash_leaf_message)
qed

lemma toy_crypto_ok: "crypto_ok toy_crypto" "sha256 toy_crypto = toy_hash"
  using toy_hash_len toy_cipher_ok by (simp_all add: crypto_ok_def toy_crypto_def)

theorem outsourced_pages_witness:
  "fst (vec_ops toy_ops [toy_page 1, toy_page 2]) = [toy_page 1, (toy_page 2)[255 := 77]]"
proof -
  obtain w' m' r where run: "run_ops (outsourced toy_crypto Lru) toy_ops (toy_world, toy_mem) = ((w', m'), r)"
    by (metis surj_pair)
  let ?L = "hasher_log (om_hasher m') @ tree_messages 2 toy_tree @
       map (\<lambda>page. stored_message (False, replicate 12 0, page)) [toy_page 1, toy_page 2]"
  from toy_run have r: "r = Ok [toy_page 1, (toy_page 2)[255 := 77]]"
    and "distinct (map toy_hash (remdups ?L))" and tags: "accepted_tags m' = []"
    unfolding run by simp_all
  then have inj: "inj_on toy_hash (set ?L)" by (metis distinct_map set_remdups)
  show ?thesis
  proof (rule outsourced_pages [OF toy_crypto_ok(1) _ toy_pages_ok _ _ _ _ _, where t = toy_tree and N = 2
      and w = toy_world and kind = Data and ro = False and k = 1 and es = Lru and strategy = "Lru_new 1"
      and vapp_hash = "[]" and ops = toy_ops and w' = w' and m' = m'])
    show "run_ops (outsourced toy_crypto Lru) toy_ops (toy_world, OutsourcedMemory_new 1 False Data
        (of_nat (length [toy_page 1, toy_page 2])) (toy_tree ! 0) (Lru_new 1) [])
      = ((w', m'), Ok [toy_page 1, (toy_page 2)[255 := 77]])"
      using run r by (simp add: toy_mem_def)
    show "inj_on (sha256 toy_crypto) (set (tree_messages 2 toy_tree) \<union>
        (\<lambda>page. stored_message (False, replicate 12 0, page)) ` set [toy_page 1, toy_page 2] \<union>
        set (hasher_log (om_hasher m')))"
      unfolding toy_crypto_ok(2) by (rule inj_on_subset [OF inj]) auto
    show "checked_next_power_of_two (length [toy_page 1, toy_page 2]) = Some 2"
      by (simp add: checked_next_power_of_two_def next_power_of_two.simps)
    show "\<forall>x\<in>set toy_ops. unat (page_of x) < length [toy_page 1, toy_page 2]"
      by (simp add: toy_ops_def)
  qed (use toy_tree_ok tags in \<open>auto simp: toy_crypto_ok toy_world_def AesCtr_new_def\<close>)
qed

end
