(* ===== verification/Manifest.thy ===== *)
theory Manifest
  imports Vm_Memory Accumulator
begin

text \<open>
  The manifest of a V-App (\<open>common/src/manifest.rs\<close>): its validation, its page counts and the message
  that is hashed to identify the V-App. A string is its UTF-8 encoding: \<open>len\<close> counts bytes, and a
  character outside ASCII is encoded by bytes from 0x80 on, so a string has only ASCII characters of
  a range exactly when its bytes are in the range.
\<close>

definition APP_NAME_MAX_LEN :: nat where
  "APP_NAME_MAX_LEN = 32"

definition APP_VERSION_MAX_LEN :: nat where
  "APP_VERSION_MAX_LEN = 32"

definition MAX_STORAGE_SLOTS :: u32 where
  "MAX_STORAGE_SLOTS = 4"

record Manifest =
  manifest_version :: u32
  vapp_name :: bytes
  vapp_version :: bytes
  entrypoint :: u32
  code_start :: u32
  code_end :: u32
  code_merkle_root :: bytes
  data_start :: u32
  data_end :: u32
  data_merkle_root :: bytes
  stack_start :: u32
  stack_end :: u32
  stack_merkle_root :: bytes
  n_storage_slots :: u32

definition is_ascii_graphic :: "u8 \<Rightarrow> bool" where
  "is_ascii_graphic c \<longleftrightarrow> 0x21 \<le> c \<and> c \<le> 0x7e"

definition printable :: "bytes \<Rightarrow> bool" where
  "printable s \<longleftrightarrow> list_all (\<lambda>c. is_ascii_graphic c \<or> c = 0x20) s"

definition starts_or_ends_with_space :: "bytes \<Rightarrow> bool" where
  "starts_or_ends_with_space s \<longleftrightarrow> s \<noteq> [] \<and> (hd s = 0x20 \<or> last s = 0x20)"

definition manifest_validate :: "Manifest \<Rightarrow> (string, unit) result" where
  "manifest_validate m =
     (if length (vapp_name m) > APP_NAME_MAX_LEN then Err ''vapp_name is too long''
      else if length (vapp_version m) > APP_VERSION_MAX_LEN then Err ''vapp_version is too long''
      else if entrypoint m < code_start m \<or> entrypoint m \<ge> code_end m
      then Err ''entrypoint must be within the code section''
      else if entrypoint m mod 2 \<noteq> 0 then Err ''entrypoint must be 2-byte aligned''
      else if \<not> printable (vapp_name m) then Err ''vapp_name contains non-printable ASCII characters''
      else if \<not> printable (vapp_version m) then Err ''vapp_version contains non-printable ASCII characters''
      else if starts_or_ends_with_space (vapp_name m) then Err ''vapp_name must not start or end with a space''
      else if starts_or_ends_with_space (vapp_version m)
      then Err ''vapp_version must not start or end with a space''
      else if n_storage_slots m > MAX_STORAGE_SLOTS then Err ''n_storage_slots exceeds maximum allowed''
      else Ok ())"

text \<open>\<open>Manifest::new\<close>: the record of its arguments, if it is valid.\<close>

definition Manifest_new :: "Manifest \<Rightarrow> (string, Manifest) result" where
  "Manifest_new m = (case manifest_validate m of Inl e \<Rightarrow> Err e | Inr _ \<Rightarrow> Ok m)"

definition pages_between :: "u32 \<Rightarrow> u32 \<Rightarrow> u32" where
  "pages_between start e = 1 + (page_start (e - 1) - page_start start) div of_nat PAGE_SIZE"

definition n_code_pages :: "Manifest \<Rightarrow> u32" where
  "n_code_pages m = pages_between (code_start m) (code_end m)"

definition n_data_pages :: "Manifest \<Rightarrow> u32" where
  "n_data_pages m = pages_between (data_start m) (data_end m)"

definition n_stack_pages :: "Manifest \<Rightarrow> u32" where
  "n_stack_pages m = pages_between (stack_start m) (stack_end m)"

text \<open>The calls of \<open>update\<close> in \<open>get_vapp_hash\<close>, in their order.\<close>

definition manifest_updates :: "Manifest \<Rightarrow> bytes list" where
  "manifest_updates m =
     [u32_to_be_bytes (manifest_version m),
      [of_nat (length (vapp_name m))], vapp_name m,
      [of_nat (length (vapp_version m))], vapp_version m,
      u32_to_be_bytes (entrypoint m),
      u32_to_be_bytes (code_start m), u32_to_be_bytes (code_end m), code_merkle_root m,
      u32_to_be_bytes (data_start m), u32_to_be_bytes (data_end m), data_merkle_root m,
      u32_to_be_bytes (stack_start m), u32_to_be_bytes (stack_end m), stack_merkle_root m,
      u32_to_be_bytes (n_storage_slots m)]"

definition get_vapp_hash :: "(bytes \<Rightarrow> hash_output) \<Rightarrow> Manifest \<Rightarrow> hash_output" where
  "get_vapp_hash H m = fst (digest_inplace H (fold hasher_update (manifest_updates m) hasher_new))"

section \<open>The identifying hash\<close>

text \<open>The roots are arrays of 32 bytes in the source.\<close>

definition Manifest_wf :: "Manifest \<Rightarrow> bool" where
  "Manifest_wf m \<longleftrightarrow> length (code_merkle_root m) = 32 \<and> length (data_merkle_root m) = 32 \<and>
     length (stack_merkle_root m) = 32"

definition manifest_message :: "Manifest \<Rightarrow> bytes" where
  "manifest_message m = concat (manifest_updates m)"

lemma fold_hasher_update: "hasher_buf (fold hasher_update xs h) = hasher_buf h @ concat xs"
  by (induction xs arbitrary: h) (simp_all add: hasher_update_def)

lemma get_vapp_hash_message: "get_vapp_hash H m = H (manifest_message m)"
  by (simp add: get_vapp_hash_def digest_inplace_def fold_hasher_update manifest_message_def hasher_new_def)

lemma validate_Ok:
  "manifest_validate m = Ok () \<longleftrightarrow>
     length (vapp_name m) \<le> 32 \<and> length (vapp_version m) \<le> 32 \<and>
     code_start m \<le> entrypoint m \<and> entrypoint m < code_end m \<and> even (entrypoint m) \<and>
     printable (vapp_name m) \<and> printable (vapp_version m) \<and>
     \<not> starts_or_ends_with_space (vapp_name m) \<and> \<not> starts_or_ends_with_space (vapp_version m) \<and>
     n_storage_slots m \<le> 4"
  by (auto simp: manifest_validate_def APP_NAME_MAX_LEN_def APP_VERSION_MAX_LEN_def MAX_STORAGE_SLOTS_def
      not_less not_le even_iff_mod_2_eq_zero)

text \<open>A field that is preceded by its length in one byte can be split off a message.\<close>

lemma prefixed_inject:
  assumes "of_nat (length a) # a @ x = of_nat (length b) # b @ (y :: bytes)" "length a < 256" "length b < 256"
  shows "a = b \<and> x = y"
proof -
  have "unat (of_nat (length a) :: u8) = unat (of_nat (length b) :: u8)" using assms(1) by simp
  then have "length a = length b" using assms(2,3) by (simp add: unat_of_nat take_bit_nat_eq_self)
  then show ?thesis using assms(1) by simp
qed

lemma manifest_message_inject:
  assumes "manifest_message m = manifest_message m'" "Manifest_wf m" "Manifest_wf m'"
    and "length (vapp_name m) < 256" "length (vapp_name m') < 256"
    and "length (vapp_version m) < 256" "length (vapp_version m') < 256"
  shows "m = m'"
proof -
  define tail where "tail m = concat (drop 5 (manifest_updates m))" for m
  define rest where "rest m = of_nat (length (vapp_version m)) # vapp_version m @ tail m" for m
  have split: "manifest_message m =
      u32_to_be_bytes (manifest_version m) @ of_nat (length (vapp_name m)) # vapp_name m @ rest m" for m
    by (simp add: manifest_message_def manifest_updates_def rest_def tail_def)
  have 1: "manifest_version m = manifest_version m'"
    and 2: "of_nat (length (vapp_name m)) # vapp_name m @ rest m = of_nat (length (vapp_name m')) # vapp_name m' @ rest m'"
    using assms(1) unfolding split by (auto simp: u32_to_be_bytes_inject)
  from prefixed_inject [OF 2 assms(4,5)] have 3: "vapp_name m = vapp_name m'" "rest m = rest m'" by auto
  from prefixed_inject [OF 3(2) [unfolded rest_def] assms(6,7)]
  have 4: "vapp_version m = vapp_version m'" "tail m = tail m'" by auto
  have "entrypoint m = entrypoint m' \<and> code_start m = code_start m' \<and> code_end m = code_end m' \<and>
      code_merkle_root m = code_merkle_root m' \<and> data_start m = data_start m' \<and> data_end m = data_end m' \<and>
      data_merkle_root m = data_merkle_root m' \<and> stack_start m = stack_start m' \<and> stack_end m = stack_end m' \<and>
      stack_merkle_root m = stack_merkle_root m' \<and> n_storage_slots m = n_storage_slots m'"
    using 4(2) assms(2,3) by (simp add: tail_def manifest_updates_def Manifest_wf_def u32_to_be_bytes_inject)
  then show ?thesis using 1 3(1) 4(1) by simp
qed

section \<open>Page counts\<close>

lemma unat_minus_1: "start < e \<Longrightarrow> unat (e - 1 :: u32) = unat e - 1"
  by (subst unat_sub) (auto simp: word_le_nat_alt word_less_nat_alt)

lemma unat_u32_bound: "unat (e :: u32) - 1 < 2 ^ 32"
proof -
  have "unat e < 2 ^ 32" using unsigned_less [of e] by simp
  then show ?thesis by simp
qed

lemma unat_pages_between:
  assumes "start < e"
  shows "unat (pages_between start e) = (unat e - 1) div PAGE_SIZE - unat start div PAGE_SIZE + 1"
proof -
  have e: "unat (e - 1) = unat e - 1" using assms by (rule unat_minus_1)
  have less: "unat start \<le> unat e - 1" using assms by (simp add: word_less_nat_alt)
  have "page_start start \<le> page_start (e - 1)"
    using div_le_mono [OF less, of PAGE_SIZE] by (simp add: word_le_nat_alt unat_page_start e)
  then have "unat (page_start (e - 1) - page_start start)
      = (unat e - 1) div PAGE_SIZE * PAGE_SIZE - unat start div PAGE_SIZE * PAGE_SIZE"
    by (simp add: unat_sub unat_page_start e)
  moreover have "unat (of_nat PAGE_SIZE :: u32) = PAGE_SIZE" by (simp add: PAGE_SIZE_def)
  ultimately have d: "unat ((page_start (e - 1) - page_start start) div of_nat PAGE_SIZE)
      = (unat e - 1) div PAGE_SIZE - unat start div PAGE_SIZE"
    by (simp add: unat_div_distrib PAGE_SIZE_def flip: diff_mult_distrib)
  have "(unat e - 1) div PAGE_SIZE < 2 ^ 32 - 1"
  proof -
    show ?thesis using unat_u32_bound [of e] by (simp add: PAGE_SIZE_def less_mult_imp_div_less)
  qed
  then show ?thesis unfolding pages_between_def using d by (simp add: unat_word_ariths(1))
qed

text \<open>A segment of the manifest's addresses fits into its pages, and the last page is needed.\<close>

lemma pages_between_fit:
  assumes "start < e"
  shows "unat start mod PAGE_SIZE + unat (e - start) \<le> unat (pages_between start e) * PAGE_SIZE"
    and "(unat (pages_between start e) - 1) * PAGE_SIZE < unat start mod PAGE_SIZE + unat (e - start)"
proof -
  let ?s = "unat start" and ?e = "unat e"
  have less: "?s < ?e" using assms by (simp add: word_less_nat_alt)
  have sub: "unat (e - start) = ?e - ?s" using assms by (simp add: unat_sub less_imp_le)
  have pos: "0 < PAGE_SIZE" by (simp add: PAGE_SIZE_def)
  have s: "?s = ?s div PAGE_SIZE * PAGE_SIZE + ?s mod PAGE_SIZE" by simp
  have e1: "?e - 1 = (?e - 1) div PAGE_SIZE * PAGE_SIZE + (?e - 1) mod PAGE_SIZE" by simp
  have le: "?s div PAGE_SIZE \<le> (?e - 1) div PAGE_SIZE" using less by (intro div_le_mono) simp
  have m: "(?e - 1) mod PAGE_SIZE < PAGE_SIZE" using pos by simp
  have eq: "?s mod PAGE_SIZE + (?e - ?s) = ((?e - 1) div PAGE_SIZE - ?s div PAGE_SIZE) * PAGE_SIZE + (?e - 1) mod PAGE_SIZE + 1"
  proof -
    have "((?e - 1) div PAGE_SIZE - ?s div PAGE_SIZE) * PAGE_SIZE + ?s div PAGE_SIZE * PAGE_SIZE
        = (?e - 1) div PAGE_SIZE * PAGE_SIZE"
      using le by (metis add_mult_distrib le_add_diff_inverse2)
    then show ?thesis using s e1 less by linarith
  qed
  show "?s mod PAGE_SIZE + unat (e - start) \<le> unat (pages_between start e) * PAGE_SIZE"
    unfolding sub eq unat_pages_between [OF assms] using m by (simp add: add_mult_distrib)
  show "(unat (pages_between start e) - 1) * PAGE_SIZE < ?s mod PAGE_SIZE + unat (e - start)"
    unfolding sub eq unat_pages_between [OF assms] by simp
qed

text \<open>
  (page counts) For a section with \<open>start < end\<close> the count of pages is exactly what the section
  needs: every address of the section lies in one of the pages, counted from the page of its first
  address, and no smaller number of pages is enough. The validation guarantees \<open>start < end\<close> for the code
  section; it says nothing of the data and stack sections.
\<close>

theorem page_counts_exact:
  assumes "manifest_validate m = Ok ()" "data_start m < data_end m" "stack_start m < stack_end m"
  shows "\<forall>(s, e, n)\<in>{(code_start m, code_end m, n_code_pages m), (data_start m, data_end m, n_data_pages m),
      (stack_start m, stack_end m, n_stack_pages m)}.
    unat s mod PAGE_SIZE + unat (e - s) \<le> unat n * PAGE_SIZE \<and>
    (unat n - 1) * PAGE_SIZE < unat s mod PAGE_SIZE + unat (e - s) \<and>
    0 < unat n \<and> unat n \<le> 2 ^ 24"
proof -
  have "code_start m < code_end m" using assms(1) by (auto simp: validate_Ok)
  have bound: "0 < unat (pages_between s e) \<and> unat (pages_between s e) \<le> 2 ^ 24" if "s < e" for s e
  proof -
    have "(unat e - 1) div PAGE_SIZE < 2 ^ 24" using unat_u32_bound [of e] by (simp add: PAGE_SIZE_def less_mult_imp_div_less)
    then show ?thesis by (simp add: unat_pages_between [OF that])
  qed
  show ?thesis
    using assms(2,3) \<open>code_start m < code_end m\<close> bound pages_between_fit
    by (auto simp: n_code_pages_def n_data_pages_def n_stack_pages_def)
qed

definition sample_manifest :: Manifest where
  "sample_manifest = \<lparr>manifest_version = 1, vapp_name = [0x41, 0x20, 0x42], vapp_version = [0x31],
     entrypoint = 0x10004, code_start = 0x10000, code_end = 0x10180, code_merkle_root = replicate 32 1,
     data_start = 0x20010, data_end = 0x20110, data_merkle_root = replicate 32 2,
     stack_start = 0xf0000000, stack_end = 0xf0010000, stack_merkle_root = replicate 32 3, n_storage_slots = 2\<rparr>"

lemma sample_manifest_valid: "manifest_validate sample_manifest = Ok ()"
  by code_simp

theorem page_counts_exact_witness:
  "n_code_pages sample_manifest = 2 \<and> n_data_pages sample_manifest = 2 \<and> n_stack_pages sample_manifest = 256 \<and>
   unat (data_start sample_manifest) mod PAGE_SIZE + unat (data_end sample_manifest - data_start sample_manifest)
     \<le> unat (n_data_pages sample_manifest) * PAGE_SIZE"
proof -
  have "n_code_pages sample_manifest = 2" "n_data_pages sample_manifest = 2" "n_stack_pages sample_manifest = 256"
    by (simp_all add: n_code_pages_def n_data_pages_def n_stack_pages_def pages_between_def page_start_def
        PAGE_SIZE_def sample_manifest_def)
  then show ?thesis
    using page_counts_exact [OF sample_manifest_valid] by (simp add: sample_manifest_def)
qed

text \<open>
  C35: (the hash identifies the manifest) Two valid manifests have the same hash only if they agree in
  every field, unless SHA-256 collides on the two messages: a registration covers one manifest.
\<close>

theorem vapp_hash_identifies:
  assumes "manifest_validate m = Ok ()" "manifest_validate m' = Ok ()" "Manifest_wf m" "Manifest_wf m'"
    and "inj_on H {manifest_message m, manifest_message m'}"
  shows "get_vapp_hash H m = get_vapp_hash H m' \<longleftrightarrow> m = m'"
proof
  assume "get_vapp_hash H m = get_vapp_hash H m'"
  then have "manifest_message m = manifest_message m'"
    unfolding get_vapp_hash_message by (rule inj_onD [OF assms(5)]) simp_all
  moreover have "length (vapp_name k) < 256 \<and> length (vapp_version k) < 256" if "manifest_validate k = Ok ()" for k
    using that unfolding validate_Ok by auto
  ultimately show "m = m'" using manifest_message_inject assms(1-4) by blast
qed simp

theorem vapp_hash_identifies_witness:
  "get_vapp_hash toy_hash sample_manifest \<noteq> get_vapp_hash toy_hash (sample_manifest\<lparr>n_storage_slots := 3\<rparr>)"
proof -
  have valid: "manifest_validate (sample_manifest\<lparr>n_storage_slots := 3\<rparr>) = Ok ()" by code_simp
  have "inj_on toy_hash {manifest_message sample_manifest, manifest_message (sample_manifest\<lparr>n_storage_slots := 3\<rparr>)}"
    by code_simp
  moreover have "Manifest_wf sample_manifest" "Manifest_wf (sample_manifest\<lparr>n_storage_slots := 3\<rparr>)"
    "sample_manifest \<noteq> sample_manifest\<lparr>n_storage_slots := 3\<rparr>"
    by (simp_all add: Manifest_wf_def sample_manifest_def)
  ultimately show ?thesis
    using vapp_hash_identifies [OF sample_manifest_valid valid] by blast
qed

end
