(* ===== verification/Client_Memory.thy ===== *)
theory Client_Memory
  imports Outsourced_Refines Manifest
begin

text \<open>
  The memory of a V-App as the client keeps it (\<open>client-sdk/src/memory.rs\<close>): the pages of a section, as they
  are hashed into the leaves of a Merkle tree, and the tree. The cache file of the tags of code pages
  (\<open>client-sdk/src/hmac_auth.rs\<close>).
\<close>

section \<open>Pages\<close>

definition get_serialized_page :: "bytes \<Rightarrow> bytes option \<Rightarrow> bytes" where
  "get_serialized_page data nonce =
     (case nonce of Some nonce \<Rightarrow> [1] @ nonce | None \<Rightarrow> replicate 13 0) @ data"

datatype MemorySegmentError =
    PageNotFound
  | InvalidPageSize
  | SegmentMemoryError memory_error
  | AccumulatorError accumulator_error

text \<open>A slice \<open>data[a..b]\<close>; \<^const>\<open>None\<close> is the panic when it is out of range.\<close>

definition slice_of :: "bytes \<Rightarrow> nat \<Rightarrow> nat \<Rightarrow> bytes option" where
  "slice_of data a b = (if a \<le> b \<and> b \<le> length data then Some (take (b - a) (drop a data)) else None)"

text \<open>
  The loop of \<open>MemorySegment::new\<close> that cuts the data into pages and pads the first and the last one. Addresses
  are 32 bit and wrap; \<^const>\<open>None\<close> is a panic, or a loop that does not return.
\<close>

partial_function (option) segment_pages :: "u32 \<Rightarrow> u32 \<Rightarrow> bytes \<Rightarrow> u32 \<Rightarrow> bytes list \<Rightarrow> bytes list option" where
  "segment_pages start e data current_addr pages =
     (if current_addr \<ge> e then Some pages
      else
        let page_start_addr = page_start current_addr;
            page_end_addr = page_start_addr + of_nat PAGE_SIZE;
            content_end_addr = min page_end_addr e
        in case slice_of data (unat (current_addr - start)) (unat (content_end_addr - start)) of
             None \<Rightarrow> None
           | Some chunk \<Rightarrow>
               let page_content = replicate (unat (current_addr - page_start_addr)) 0 @ chunk @
                     replicate (unat (page_end_addr - content_end_addr)) 0
               in segment_pages start e data page_end_addr (pages @ [get_serialized_page page_content None]))"

declare segment_pages.simps [code]

text \<open>\<open>usize\<close> has 64 bits on the client.\<close>

definition checked_next_power_of_two64 :: "nat \<Rightarrow> nat option" where
  "checked_next_power_of_two64 n = (if n \<le> 2 ^ 63 then Some (next_power_of_two n) else None)"

lemma checked_next_power_of_two64_code [code]:
  "checked_next_power_of_two64 n = (if int n \<le> 9223372036854775808 then Some (next_power_of_two n) else None)"
  by (simp add: checked_next_power_of_two64_def)

text \<open>The struct has the accumulator as its only field.\<close>

type_synonym client_segment = MerkleAccumulator

definition ClientSegment_new :: "(bytes \<Rightarrow> hash_output) \<Rightarrow> u32 \<Rightarrow> bytes \<Rightarrow> client_segment option" where
  "ClientSegment_new H start data =
     (let e = start + of_nat (length data) in
      case segment_pages start e data start [] of None \<Rightarrow> None | Some pages \<Rightarrow>
        (case checked_next_power_of_two64 (length pages) of None \<Rightarrow> None | Some target_len \<Rightarrow>
          MerkleAccumulator_new H
            (pages @ replicate (target_len - length pages) (get_serialized_page (replicate PAGE_SIZE 0) None))))"

definition client_get_page ::
  "client_segment \<Rightarrow> u32 \<Rightarrow> (MemorySegmentError, bytes \<times> hash_output list) result" where
  "client_get_page seg page_index =
     (case ma_get seg (unat page_index) of
        None \<Rightarrow> Err PageNotFound
      | Some page \<Rightarrow>
          (case prove seg (unat page_index) of
             Inl e \<Rightarrow> Err (AccumulatorError e) | Inr pr \<Rightarrow> Ok (page, pr)))"

definition client_store_page ::
  "(bytes \<Rightarrow> hash_output) \<Rightarrow> u32 \<Rightarrow> bytes \<Rightarrow>
   (client_segment, MemorySegmentError, hash_output list \<times> hash_output) stm" where
  "client_store_page H page_index page seg =
     (if length page \<noteq> 1 + 12 + PAGE_SIZE then (seg, Err InvalidPageSize)
      else case ma_update H seg (unat page_index) page of
        (seg', r) \<Rightarrow> (seg', map_err AccumulatorError r))"

definition get_content_root :: "client_segment \<Rightarrow> hash_output" where
  "get_content_root seg = ma_root seg"

section \<open>The cache of tags\<close>

definition HMAC_FILE_MAGIC :: bytes where
  "HMAC_FILE_MAGIC = [0x56, 0x41, 0x50, 0x50, 0x5f, 0x48, 0x4d, 0x41, 0x43, 0]"

text \<open>The content of the file, or the error of reading it, is an argument.\<close>

datatype CodeHmacsLoadError =
    LoadIo string
  | FileTooShort
  | InvalidMagic
  | VappHashMismatch
  | AppIdMismatch
  | InvalidHmacLength

type_synonym CodeHmacs = "bytes list"

definition CodeHmacs_load :: "(string, bytes) result \<Rightarrow> bytes \<Rightarrow> bytes \<Rightarrow> (CodeHmacsLoadError, CodeHmacs) result" where
  "CodeHmacs_load file expected_vapp_hash expected_app_id =
     (case file of Inl e \<Rightarrow> Err (LoadIo e) | Inr data \<Rightarrow>
        if length data < 74 then Err FileTooShort
        else if take 10 data \<noteq> HMAC_FILE_MAGIC then Err InvalidMagic
        else if take 32 (drop 10 data) \<noteq> expected_vapp_hash then Err VappHashMismatch
        else if take 32 (drop 42 data) \<noteq> expected_app_id then Err AppIdMismatch
        else let hmac_bytes = drop 74 data in
          if length hmac_bytes mod 32 \<noteq> 0 then Err InvalidHmacLength
          else Ok (map (\<lambda>i. take 32 (drop (i * 32) hmac_bytes)) [0..<length hmac_bytes div 32]))"

text \<open>What \<open>save\<close> writes.\<close>

definition CodeHmacs_save :: "CodeHmacs \<Rightarrow> bytes \<Rightarrow> bytes \<Rightarrow> bytes" where
  "CodeHmacs_save hmacs vapp_hash vanadium_app_id = HMAC_FILE_MAGIC @ vapp_hash @ vanadium_app_id @ concat hmacs"

section \<open>The pages of a section\<close>

text \<open>The pages with the data from address \<open>start\<close> on, with zeros before and after it.\<close>

definition page_count :: "nat \<Rightarrow> nat \<Rightarrow> nat" where
  "page_count c e = (e - 1) div PAGE_SIZE - c div PAGE_SIZE + 1"

definition padded :: "nat \<Rightarrow> bytes \<Rightarrow> bytes" where
  "padded c data = replicate (c mod PAGE_SIZE) 0 @ data @
     replicate (page_count c (c + length data) * PAGE_SIZE - (c mod PAGE_SIZE + length data)) 0"

definition section_contents :: "u32 \<Rightarrow> bytes \<Rightarrow> page list" where
  "section_contents start data =
     split_chunks PAGE_SIZE (page_count (unat start) (unat start + length data)) (padded (unat start) data)"

lemma page_count_fits:
  assumes "c < e"
  shows "c mod PAGE_SIZE + (e - c) \<le> page_count c e * PAGE_SIZE"
    "page_count c e * PAGE_SIZE < c mod PAGE_SIZE + (e - c) + PAGE_SIZE"
proof -
  have aux: "s + (e - c) \<le> (a - b + 1) * 256 \<and> (a - b + 1) * 256 < s + (e - c) + 256"
    if h: "c = b * 256 + s" "e - 1 = a * 256 + r" "s < 256" "r < 256" and le: "b \<le> a" for a b r s :: nat
  proof -
    obtain k where "a = b + k" using le le_Suc_ex by blast
    then have "(a - b + 1) * 256 = k * 256 + 256" by simp
    with \<open>a = b + k\<close> h assms show ?thesis by linarith
  qed
  have "c div 256 \<le> (e - 1) div 256" using assms by (intro div_le_mono) simp
  from aux [OF _ _ _ _ this, of "c mod 256" "(e - 1) mod 256"]
  show "c mod PAGE_SIZE + (e - c) \<le> page_count c e * PAGE_SIZE"
    "page_count c e * PAGE_SIZE < c mod PAGE_SIZE + (e - c) + PAGE_SIZE"
    unfolding page_count_def PAGE_SIZE_def by simp_all
qed

lemma split_chunks_append: "length p = w \<Longrightarrow> split_chunks w (Suc n) (p @ rest) = p # split_chunks w n rest"
  by simp

lemma length_padded: "data \<noteq> [] \<Longrightarrow> length (padded c data) = page_count c (c + length data) * PAGE_SIZE"
  using page_count_fits(1) [of c "c + length data"] by (simp add: padded_def)

lemma segment_pages_spec:
  assumes "unat start \<le> unat cur" "unat cur < unat e" "unat e \<le> 2 ^ 32 - PAGE_SIZE"
    and "length data = unat e - unat start"
  shows "segment_pages start e data cur pages =
    Some (pages @ map (\<lambda>p. get_serialized_page p None)
      (split_chunks PAGE_SIZE (page_count (unat cur) (unat e)) (padded (unat cur) (drop (unat cur - unat start) data))))"
  using assms
proof (induction "unat e - unat cur" arbitrary: cur pages rule: less_induct)
  case less
  let ?c = "unat cur" and ?s = "unat start" and ?e = "unat e"
  define b where "b = page_start cur + of_nat PAGE_SIZE"
  let ?rest = "drop (?c - ?s) data"
  have c: "?c div 256 * 256 + ?c mod 256 = ?c" "?c mod 256 < 256" by simp_all
  have b: "unat b = ?c div 256 * 256 + 256"
  proof -
    have "?c div 256 * 256 + 256 < 2 ^ 32" using less.prems(2,3) c unfolding PAGE_SIZE_def by linarith
    then show ?thesis
      by (simp add: b_def unat_word_ariths unat_page_start PAGE_SIZE_def)
  qed
  have gt: "?c < unat b" using b c by linarith
  have lt: "\<not> e \<le> cur" using less.prems(2) by (simp add: word_le_nat_alt)
  have sub: "unat (cur - page_start cur) = ?c mod 256"
  proof -
    have "page_start cur \<le> cur" by (simp add: word_le_nat_alt unat_page_start PAGE_SIZE_def)
    then show ?thesis by (simp add: unat_sub unat_page_start PAGE_SIZE_def minus_div_mult_eq_mod)
  qed
  have cs: "unat (cur - start) = ?c - ?s" using less.prems(1) by (simp add: unat_sub word_le_nat_alt)
  have len: "length ?rest = ?e - ?c" using less.prems by simp
  have pad: "padded ?c ?rest = replicate (?c mod 256) 0 @ ?rest @
      replicate (page_count ?c ?e * 256 - (?c mod 256 + (?e - ?c))) 0"
    using len less.prems(2) by (simp add: padded_def PAGE_SIZE_def)
  show ?case
  proof (cases "unat b < ?e")
    case True
    have m: "min b e = b" using True by (simp add: min_def word_le_nat_alt)
    have bs: "unat (b - start) = unat b - ?s"
      using gt less.prems(1) by (simp add: unat_sub word_le_nat_alt)
    have sl: "slice_of data (?c - ?s) (unat b - ?s) = Some (take (unat b - ?c) ?rest)"
    proof -
      have "?c - ?s \<le> unat b - ?s" using gt by (intro diff_le_mono) simp
      moreover have "unat b - ?s \<le> length data" using True unfolding less.prems(4) by (intro diff_le_mono) simp
      moreover have "unat b - ?s - (?c - ?s) = unat b - ?c" using less.prems(1) gt by linarith
      ultimately show ?thesis by (simp add: slice_of_def)
    qed
    have d: "drop (unat b - ?c) ?rest = drop (unat b - ?s) data"
    proof -
      have "unat b - ?c + (?c - ?s) = unat b - ?s" using less.prems(1) gt by linarith
      then show ?thesis by simp
    qed
    have n: "page_count ?c ?e = Suc (page_count (unat b) ?e)"
    proof -
      have "unat b div 256 = ?c div 256 + 1" using b by simp
      moreover have "unat b div 256 \<le> (?e - 1) div 256" using True by (intro div_le_mono) simp
      ultimately show ?thesis unfolding page_count_def PAGE_SIZE_def by linarith
    qed
    let ?page = "replicate (?c mod 256) 0 @ take (unat b - ?c) ?rest"
    have lp: "length ?page = 256"
    proof -
      have "length (take (unat b - ?c) ?rest) = unat b - ?c" using True unfolding length_take len by linarith
      then show ?thesis using b c gt unfolding length_append length_replicate by linarith
    qed
    have lp': "length ?page = PAGE_SIZE" using lp by (simp only: PAGE_SIZE_def)
    have split: "padded ?c ?rest = ?page @ padded (unat b) (drop (unat b - ?s) data)"
    proof -
      have "?rest = take (unat b - ?c) ?rest @ drop (unat b - ?s) data" using d by (metis append_take_drop_id)
      moreover have "unat b mod 256 = 0" using b by simp
      moreover have "length (drop (unat b - ?s) data) = ?e - unat b" using less.prems True gt by simp
      moreover have "page_count ?c ?e * 256 - (?c mod 256 + (?e - ?c)) = page_count (unat b) ?e * 256 - (?e - unat b)"
        using b c True gt unfolding n mult_Suc by linarith
      ultimately show ?thesis unfolding pad using True
        by (simp add: padded_def PAGE_SIZE_def)
    qed
    have "segment_pages start e data cur pages
        = segment_pages start e data b (pages @ [get_serialized_page ?page None])"
      by (subst segment_pages.simps) (simp add: lt Let_def b_def [symmetric] m bs sl cs sub)
    also have "\<dots> = Some ((pages @ [get_serialized_page ?page None]) @ map (\<lambda>p. get_serialized_page p None)
        (split_chunks PAGE_SIZE (page_count (unat b) ?e) (padded (unat b) (drop (unat b - ?s) data))))"
      by (rule less.hyps) (use gt True less.prems in \<open>linarith+\<close>)
    also have "\<dots> = Some (pages @ map (\<lambda>p. get_serialized_page p None)
        (split_chunks PAGE_SIZE (page_count ?c ?e) (padded ?c ?rest)))"
      unfolding split n split_chunks_append [OF lp'] by simp
    finally show ?thesis .
  next
    case False
    have m: "min b e = e" using False by (simp add: min_def word_le_nat_alt word_unat_eq_iff)
    have es: "unat (e - start) = ?e - ?s"
      using less.prems(1,2) by (simp add: unat_sub word_le_nat_alt)
    have be: "unat (b - e) = unat b - ?e" using False by (simp add: unat_sub word_le_nat_alt)
    have sl: "slice_of data (?c - ?s) (?e - ?s) = Some ?rest"
      using less.prems by (simp add: slice_of_def)
    have n: "page_count ?c ?e = 1"
    proof -
      have "(?e - 1) div 256 = ?c div 256"
      proof -
        have "?c div 256 \<le> (?e - 1) div 256" using less.prems(2) by (intro div_le_mono) simp
        moreover have "(?e - 1) div 256 < Suc (?c div 256)"
          by (rule less_mult_imp_div_less, unfold mult_Suc) (use False b less.prems(2) in linarith)
        ultimately show ?thesis by simp
      qed
      then show ?thesis by (simp add: page_count_def PAGE_SIZE_def)
    qed
    let ?page = "replicate (?c mod 256) 0 @ ?rest @ replicate (unat b - ?e) 0"
    have p: "padded ?c ?rest = ?page"
    proof -
      have "1 * 256 - (?c mod 256 + (?e - ?c)) = unat b - ?e" using b c less.prems(2) by linarith
      then show ?thesis unfolding pad n by (simp only:)
    qed
    have lp: "length ?page = 256"
      using b c False less.prems(2) unfolding length_append length_replicate len by linarith
    have "segment_pages start e data cur pages
        = segment_pages start e data b (pages @ [get_serialized_page ?page None])"
      by (subst segment_pages.simps) (simp add: lt Let_def b_def [symmetric] m es sl cs sub be)
    also have "\<dots> = Some (pages @ [get_serialized_page ?page None])"
      using False by (subst segment_pages.simps) (simp add: word_le_nat_alt)
    finally show ?thesis
      using split_chunks_append [of ?page PAGE_SIZE 0 "[]"] lp
      unfolding n p One_nat_def PAGE_SIZE_def by (simp only: append_Nil2 split_chunks.simps(1) list.map)
  qed
qed

lemma segment_pages_contents:
  assumes "data \<noteq> []" "unat start + length data \<le> 2 ^ 32 - PAGE_SIZE"
  shows "segment_pages start (start + of_nat (length data)) data start [] =
    Some (map (\<lambda>p. get_serialized_page p None) (section_contents start data))"
proof -
  have "unat (start + of_nat (length data)) = unat start + length data"
    using assms(2) by (simp add: unat_word_ariths unat_of_nat PAGE_SIZE_def)
  then show ?thesis
    using segment_pages_spec [of start start "start + of_nat (length data)" data "[]"] assms
    by (simp add: section_contents_def)
qed

lemma length_section_contents [simp]:
  "length (section_contents start data) = page_count (unat start) (unat start + length data)"
  by (simp add: section_contents_def)

lemma section_contents_ok:
  assumes "data \<noteq> []"
  shows "pages_ok (section_contents start data)" "concat (section_contents start data) = padded (unat start) data"
  using split_chunks_width [OF length_padded [OF assms]] concat_split_chunks [OF length_padded [OF assms]]
  by (auto simp: pages_ok_def page_ok_def list_all_iff section_contents_def)

text \<open>The client's pages are the ones the VM counts from the addresses in the manifest.\<close>

lemma page_count_between: "start < e \<Longrightarrow> page_count (unat start) (unat e) = unat (pages_between start e)"
  by (simp add: page_count_def unat_pages_between)

lemma next_power_of_two_valid: "has_valid_leaf_count (next_power_of_two n)"
proof -
  have "0 < next_power_of_two n \<and> is_power_of_two (next_power_of_two n)"
  proof (induction n rule: next_power_of_two.induct)
    case (1 n)
    show ?case
    proof (cases "n \<le> 1")
      case False
      then have "0 < next_power_of_two ((n + 1) div 2)" "is_power_of_two (next_power_of_two ((n + 1) div 2))"
        using 1 by simp_all
      then show ?thesis using False by (subst (1 2) next_power_of_two.simps) (simp add: is_power_of_two.simps)
    qed (simp add: next_power_of_two.simps is_power_of_two.simps)
  qed
  then show ?thesis by (simp add: has_valid_leaf_count_def)
qed

section \<open>The memory of a section\<close>

lemma client_segment_new:
  assumes "hash_len H" "data \<noteq> []" "unat start + length data \<le> 2 ^ 32 - PAGE_SIZE"
  defines "n \<equiv> page_count (unat start) (unat start + length data)"
  obtains seg where "ClientSegment_new H start data = Some seg" "acc_ok H seg"
    "ma_data seg = map (\<lambda>p. get_serialized_page p None)
       (section_contents start data @ replicate (next_power_of_two n - n) (replicate PAGE_SIZE 0))"
    "length (ma_data seg) = next_power_of_two n"
proof -
  let ?pages = "map (\<lambda>p. get_serialized_page p None) (section_contents start data)"
  let ?all = "?pages @ replicate (next_power_of_two n - n) (get_serialized_page (replicate PAGE_SIZE 0) None)"
  have l: "length ?pages = n" by (simp add: n_def)
  have "n \<le> 2 ^ 32"
  proof -
    have "(unat start + length data - 1) div PAGE_SIZE \<le> unat start + length data - 1" by (rule div_le_dividend)
    moreover have "n \<le> (unat start + length data - 1) div PAGE_SIZE + 1" by (simp add: n_def page_count_def)
    moreover have "2 ^ 32 - PAGE_SIZE \<le> 2 ^ 32 - 1" "(1 :: nat) \<le> 2 ^ 32" by (simp_all add: PAGE_SIZE_def)
    ultimately show ?thesis using assms(3) by linarith
  qed
  then have c: "checked_next_power_of_two64 n = Some (next_power_of_two n)"
    by (simp add: checked_next_power_of_two64_def)
  have len: "length ?all = next_power_of_two n" using l next_power_of_two_ge [of n] by simp
  have "has_valid_leaf_count (length ?all)" unfolding len by (rule next_power_of_two_valid)
  with new_update_ok [OF assms(1), of ?all, THEN conjunct1]
  have "\<exists>ma. MerkleAccumulator_new H ?all = Some ma \<and> acc_ok H ma \<and> ma_data ma = ?all" by (simp only: if_True)
  then obtain seg where seg: "MerkleAccumulator_new H ?all = Some seg" "acc_ok H seg" "ma_data seg = ?all" by (elim exE conjE)
  show thesis
  proof (rule that)
    show "ClientSegment_new H start data = Some seg"
      using seg(1) by (simp only: ClientSegment_new_def Let_def segment_pages_contents [OF assms(2,3)] option.case l c)
    show "length (ma_data seg) = next_power_of_two n" unfolding seg(3) len ..
    show "ma_data seg = map (\<lambda>p. get_serialized_page p None)
       (section_contents start data @ replicate (next_power_of_two n - n) (replicate PAGE_SIZE 0))"
      unfolding seg(3) by simp
  qed (rule seg(2))
qed

section \<open>The cache file\<close>

lemma split_words:
  assumes "length bs mod 32 = 0"
  shows "concat (map (\<lambda>i. take 32 (drop (i * 32) bs)) [0..<length bs div 32]) = bs"
    "\<forall>x\<in>set (map (\<lambda>i. take 32 (drop (i * 32) bs)) [0..<length bs div 32]). length x = 32"
proof -
  have "concat (map (\<lambda>i. take 32 (drop (i * 32) bs)) [0..<k]) = take (k * 32) bs" for k
  proof (induction k)
    case (Suc k)
    then show ?case using take_add [of "k * 32" 32 bs] by (simp add: add.commute)
  qed simp
  moreover have "length bs div 32 * 32 = length bs" using assms by (simp add: minus_mod_eq_div_mult [symmetric])
  ultimately show "concat (map (\<lambda>i. take 32 (drop (i * 32) bs)) [0..<length bs div 32]) = bs" by simp
  show "\<forall>x\<in>set (map (\<lambda>i. take 32 (drop (i * 32) bs)) [0..<length bs div 32]). length x = 32" by auto
qed

lemma concat_words:
  assumes "list_all (\<lambda>x. length x = 32) xs"
  shows "length (concat xs) = length xs * 32"
    "map (\<lambda>i. take 32 (drop (i * 32) (concat xs))) [0..<length xs] = xs"
proof -
  show "length (concat xs) = length xs * 32" using assms by (induction xs) auto
  show "map (\<lambda>i. take 32 (drop (i * 32) (concat xs))) [0..<length xs] = xs"
    using assms
  proof (induction xs)
    case (Cons x xs)
    have "map (\<lambda>i. take 32 (drop (i * 32) (concat (x # xs)))) [0..<length (x # xs)]
        = take 32 (x @ concat xs) # map (\<lambda>i. take 32 (drop (i * 32) (concat xs))) [0..<length xs]"
      using Cons.prems by (simp add: upt_conv_Cons map_Suc_upt [symmetric] del: upt_Suc)
    then show ?case using Cons by simp
  qed simp
qed

text \<open>
  Loading the cache of tags for a V-App and a device succeeds exactly on the files that \<open>save\<close>
  writes for the same V-App and device, and gives the tags that were saved.
\<close>

theorem tag_cache_roundtrip:
  assumes "length vapp_hash = 32" "length app_id = 32"
  shows "CodeHmacs_load file vapp_hash app_id = Ok hmacs \<longleftrightarrow>
    file = Ok (CodeHmacs_save hmacs vapp_hash app_id) \<and> list_all (\<lambda>x. length x = 32) hmacs"
proof
  assume l: "CodeHmacs_load file vapp_hash app_id = Ok hmacs"
  then obtain data where d: "file = Ok data" "take 10 data = HMAC_FILE_MAGIC" "take 32 (drop 10 data) = vapp_hash"
    "take 32 (drop 42 data) = app_id" "length (drop 74 data) mod 32 = 0"
    "hmacs = map (\<lambda>i. take 32 (drop (i * 32) (drop 74 data))) [0..<length (drop 74 data) div 32]"
    unfolding CodeHmacs_load_def Let_def by (auto split: sum.splits if_splits simp del: drop_drop)
  have "take 32 (drop 42 data) @ drop 74 data = drop 42 data" "take 32 (drop 10 data) @ drop 42 data = drop 10 data"
    using append_take_drop_id [of 32 "drop 42 data"] append_take_drop_id [of 32 "drop 10 data"] by simp_all
  then have "data = take 10 data @ take 32 (drop 10 data) @ take 32 (drop 42 data) @ drop 74 data" by simp
  then have "data = CodeHmacs_save hmacs vapp_hash app_id"
    unfolding CodeHmacs_save_def d(6) split_words(1) [OF d(5)] d(2-4) .
  then show "file = Ok (CodeHmacs_save hmacs vapp_hash app_id) \<and> list_all (\<lambda>x. length x = 32) hmacs"
    using d(1) split_words(2) [OF d(5)] unfolding list_all_iff d(6) by blast
next
  assume "file = Ok (CodeHmacs_save hmacs vapp_hash app_id) \<and> list_all (\<lambda>x. length x = 32) hmacs"
  moreover from this concat_words have "length (concat hmacs) = length hmacs * 32"
    "map (\<lambda>i. take 32 (drop (i * 32) (concat hmacs))) [0..<length hmacs] = hmacs" by blast+
  moreover have "length HMAC_FILE_MAGIC = 10" by (simp add: HMAC_FILE_MAGIC_def)
  ultimately show "CodeHmacs_load file vapp_hash app_id = Ok hmacs"
    using assms by (simp add: CodeHmacs_load_def CodeHmacs_save_def)
qed

theorem tag_cache_roundtrip_witness:
  "CodeHmacs_load (Ok (CodeHmacs_save [replicate 32 7] (replicate 32 1) (replicate 32 2))) (replicate 32 1) (replicate 32 2)
     = Ok [replicate 32 7]"
  using tag_cache_roundtrip [of "replicate 32 1" "replicate 32 2"] by simp

end
