(* ===== verification/Client_Buffers.thy ===== *)
theory Client_Buffers
  imports Client_Memory
begin

text \<open>
  The client's side of the connection: the commands it builds (\<open>client-sdk/src/apdu.rs\<close>), and how it takes a
  buffer from the V-App and gives one to it (\<open>process_send_buffer_generic\<close> and
  \<open>process_receive_buffer\<close> in \<open>client-sdk/src/vanadium_client.rs\<close>).

  The transport is a parameter: an operation gets, in order, the status and the data that its calls of
  \<open>exchange_and_process_page_requests\<close> return, and the value \<^const>\<open>None\<close> is that it waits for
  another one.
\<close>

section \<open>Commands and status words\<close>

text \<open>The suffix keeps the status words apart from those of the VM.\<close>

datatype StatusWord =
    Deny_sw
  | StoreFull_sw
  | IncorrectData_sw
  | NotSupported_sw
  | WrongP1P2_sw
  | WrongDataLength_sw
  | InsNotSupported_sw
  | ClaNotSupported_sw
  | BadState_sw
  | SignatureFail_sw
  | OK_sw
  | InterruptedExecution_sw
  | VMRuntimeError_sw
  | VAppPanic_sw
  | Unknown_sw

definition StatusWord_try_from :: "u16 \<Rightarrow> StatusWord option" where
  "StatusWord_try_from value =
     (if value = 0x6985 then Some Deny_sw
      else if value = 0x6A84 then Some StoreFull_sw
      else if value = 0x6A80 then Some IncorrectData_sw
      else if value = 0x6A82 then Some NotSupported_sw
      else if value = 0x6A86 then Some WrongP1P2_sw
      else if value = 0x6A87 then Some WrongDataLength_sw
      else if value = 0x6D00 then Some InsNotSupported_sw
      else if value = 0x6E00 then Some ClaNotSupported_sw
      else if value = 0xB007 then Some BadState_sw
      else if value = 0xB008 then Some SignatureFail_sw
      else if value = 0xB020 then Some VMRuntimeError_sw
      else if value = 0xB021 then Some VAppPanic_sw
      else if value = 0x9000 then Some OK_sw
      else if value = 0xEEEE then Some InterruptedExecution_sw
      else None)"

record APDUCommand =
  apdu_cla :: u8
  apdu_ins :: u8
  apdu_p1 :: u8
  apdu_p2 :: u8
  apdu_data :: bytes

text \<open>The extended length is two bytes, the high one first.\<close>

definition APDUCommand_encode :: "APDUCommand \<Rightarrow> bytes" where
  "APDUCommand_encode c =
     (let n = length (apdu_data c) in
      if n \<le> 255 then [apdu_cla c, apdu_ins c, apdu_p1 c, apdu_p2 c, of_nat n] @ apdu_data c
      else
        let len_lo = ucast ((of_nat n :: u16) AND 0xff); len_hi = ucast (drop_bit 8 (of_nat n :: u16) AND 0xff) in
        [apdu_cla c, apdu_ins c, apdu_p1 c, apdu_p2 c, 0, len_hi, len_lo] @ apdu_data c)"

definition apdu_get_app_info :: APDUCommand where
  "apdu_get_app_info = \<lparr>apdu_cla = 0xE0, apdu_ins = 0, apdu_p1 = 0, apdu_p2 = 0, apdu_data = []\<rparr>"

definition apdu_continue :: "bytes \<Rightarrow> APDUCommand" where
  "apdu_continue data = \<lparr>apdu_cla = 0xE0, apdu_ins = 0xff, apdu_p1 = 0, apdu_p2 = 0, apdu_data = data\<rparr>"

definition apdu_register_vapp :: "bytes \<Rightarrow> APDUCommand" where
  "apdu_register_vapp data = \<lparr>apdu_cla = 0xE0, apdu_ins = 2, apdu_p1 = 0, apdu_p2 = 0, apdu_data = data\<rparr>"

definition apdu_preload_vapp :: "bytes \<Rightarrow> APDUCommand" where
  "apdu_preload_vapp data = \<lparr>apdu_cla = 0xE0, apdu_ins = 4, apdu_p1 = 0, apdu_p2 = 0, apdu_data = data\<rparr>"

definition apdu_run_vapp :: "bytes \<Rightarrow> APDUCommand" where
  "apdu_run_vapp data = \<lparr>apdu_cla = 0xE0, apdu_ins = 3, apdu_p1 = 0, apdu_p2 = 0, apdu_data = data\<rparr>"

section \<open>Taking a buffer from the V-App\<close>

text \<open>
  \<open>EngineDeserialization\<close> and \<open>EngineSegment\<close> are \<open>GenericError\<close> with the boxed error of a deserializer and of a
  memory segment. The last two stand for a panic and for a loop that does not return.
\<close>

datatype VAppEngineError =
    ManifestSerializationError
  | InvalidCommandCode
  | TransportError string
  | AccessViolation
  | InterruptedExecutionExpected
  | ResponseError string
  | VMRuntimeError_e
  | VAppPanic_e
  | AppNotRegistered
  | StoreFull_e
  | UnexpectedStatusWord StatusWord
  | EngineDeserialization MessageDeserializationError
  | EngineSegment MemorySegmentError
  | EngineGenericError string
  | EnginePanicked string
  | EngineDiverged

fun receive_continued ::
  "u32 \<Rightarrow> bytes \<Rightarrow> (StatusWord \<times> bytes) list \<Rightarrow> (VAppEngineError, bytes) result option" where
  "receive_continued remaining_len buf exchanges =
     (if remaining_len = 0 then Some (Ok buf)
      else case exchanges of
        [] \<Rightarrow> None
      | (status, result) # rest \<Rightarrow>
          if status \<noteq> InterruptedExecution_sw then Some (Err InterruptedExecutionExpected)
          else if length result = 0 then Some (Err (ResponseError ''Empty response''))
          else (case SendBufferContinuedMessage_deserialize result of
            Inl e \<Rightarrow> Some (Err (EngineDeserialization e))
          | Inr msg \<Rightarrow>
              if length (sbc_data msg) > unat remaining_len
              then Some (Err (ResponseError ''Received total_size does not match expected''))
              else receive_continued (remaining_len - of_nat (length (sbc_data msg))) (buf @ sbc_data msg) rest))"

declare receive_continued.simps [simp del]

definition process_send_buffer_generic ::
  "bytes \<Rightarrow> (StatusWord \<times> bytes) list \<Rightarrow> (VAppEngineError, BufferType \<times> bytes) result option" where
  "process_send_buffer_generic command exchanges =
     (case SendBufferMessage_deserialize command of
        None \<Rightarrow> Some (Err (EnginePanicked ''index out of bounds''))
      | Some (Inl e) \<Rightarrow> Some (Err (EngineDeserialization e))
      | Some (Inr msg) \<Rightarrow>
          if length (sbm_data msg) > unat (sbm_total_size msg)
          then Some (Err (ResponseError ''Received data length exceeds expected remaining length''))
          else map_option (map_sum id (Pair (sbm_buffer_type msg)))
            (receive_continued (sbm_total_size msg - of_nat (length (sbm_data msg))) (sbm_data msg) exchanges))"

section \<open>Giving a buffer to the V-App\<close>

text \<open>
  The responses \<open>process_receive_buffer\<close> sends for a buffer, one for each request: the loop runs
  while requests come and ends with the buffer.
\<close>

function receive_responses :: "bytes \<Rightarrow> nat \<Rightarrow> nat \<Rightarrow> bytes list" where
  "receive_responses buf remaining_len offset =
     (let chunk_len = min remaining_len ReceiveBufferResponse_max_chunk_size;
          data = ReceiveBufferResponse_serialize
            (ReceiveBufferResponse_new (of_nat remaining_len) (take chunk_len (drop offset buf)))
      in data # (if remaining_len - chunk_len = 0 then []
                 else receive_responses buf (remaining_len - chunk_len) (offset + chunk_len)))"
  by pat_completeness auto
termination
  by (relation "measure (\<lambda>(buf, n, offset). n)")
    (auto simp: ReceiveBufferResponse_max_chunk_size_def MAX_APDU_DATA_SIZE_def)

declare receive_responses.simps [simp del]

text \<open>
  The whole operation: the responses sent so far, and how it ends. Without a pending buffer, one empty
  response is sent.
\<close>

fun serve_responses ::
  "bytes list \<Rightarrow> (StatusWord \<times> bytes) list \<Rightarrow> bytes list \<times> (VAppEngineError, StatusWord \<times> bytes) result option" where
  "serve_responses [] exchanges = ([], None)"
| "serve_responses (data # others) [] = ([data], None)"
| "serve_responses (data # others) ((status, result) # rest) =
     (if others = [] then ([data], Some (Ok (status, result)))
      else if status \<noteq> InterruptedExecution_sw then ([data], Some (Err InterruptedExecutionExpected))
      else if length result = 0 then ([data], Some (Err (ResponseError ''Empty response'')))
      else case ReceiveBufferMessage_deserialize result of
        Inl e \<Rightarrow> ([data], Some (Err (EngineDeserialization e)))
      | Inr _ \<Rightarrow> map_prod (Cons data) id (serve_responses others rest))"

definition process_receive_buffer ::
  "bytes option \<Rightarrow> bytes \<Rightarrow> (StatusWord \<times> bytes) list \<Rightarrow>
   bytes list \<times> (VAppEngineError, StatusWord \<times> bytes) result option" where
  "process_receive_buffer pending_receive_buffer command exchanges =
     (case ReceiveBufferMessage_deserialize command of
        Inl e \<Rightarrow> ([], Some (Err (EngineDeserialization e)))
      | Inr _ \<Rightarrow>
          serve_responses
            (case pending_receive_buffer of
               Some buf \<Rightarrow> receive_responses buf (length buf mod 2 ^ 32) 0
             | None \<Rightarrow> [ReceiveBufferResponse_serialize (ReceiveBufferResponse_new 0 [])]) exchanges)"

section \<open>Both sides of a transfer\<close>

text \<open>
  \<open>transfers rs payload\<close>: the responses \<open>rs\<close> announce the remaining length and carry a part of the
  payload each, and end with it.
\<close>

fun transfers :: "bytes list \<Rightarrow> bytes \<Rightarrow> bool" where
  "transfers [] payload = False"
| "transfers (r # rs) payload = (case ReceiveBufferResponse_deserialize r of
     Inl _ \<Rightarrow> False
   | Inr resp \<Rightarrow>
       unat (rbr_remaining_length resp) = length payload \<and>
       take (length (rbr_content resp)) payload = rbr_content resp \<and>
       (let rest = drop (length (rbr_content resp)) payload in
        if rest = [] then rs = [] else transfers rs rest))"

lemma transfers_unique: "transfers rs a \<Longrightarrow> transfers rs b \<Longrightarrow> a = b"
proof (induction rs arbitrary: a b)
  case (Cons r rs)
  from Cons.prems(1) obtain resp where r: "ReceiveBufferResponse_deserialize r = Ok resp"
    by (auto split: sum.splits)
  let ?n = "length (rbr_content resp)"
  have h: "take ?n a = take ?n b" "length a = length b" using Cons.prems r by simp_all
  have "drop ?n a = drop ?n b"
  proof (cases "drop ?n a = []")
    case True
    then show ?thesis using h(2) by simp
  next
    case False
    then have "drop ?n b \<noteq> []" using h(2) by simp
    with False Cons.prems r have "transfers rs (drop ?n a)" "transfers rs (drop ?n b)" by (simp_all add: Let_def)
    then show ?thesis by (rule Cons.IH)
  qed
  with h(1) show ?case by (metis append_take_drop_id)
qed simp

lemma receive_response_read:
  assumes "length chunk \<le> unat n"
  shows "ReceiveBufferResponse_deserialize (ReceiveBufferResponse_serialize (ReceiveBufferResponse_new n chunk)) =
    Ok (ReceiveBufferResponse_new n chunk)"
proof -
  have "ReceiveBufferResponse_wf (ReceiveBufferResponse_new n chunk)"
    using assms by (simp add: ReceiveBufferResponse_wf_def ReceiveBufferResponse_new_def)
  then show ?thesis using receive_buffer_response.des_ser by blast
qed

lemma receive_responses_transfer:
  assumes "offset + n = length buf" "n < 2 ^ 32"
  shows "transfers (receive_responses buf n offset) (drop offset buf)"
  using assms
proof (induction n arbitrary: offset rule: less_induct)
  case (less n)
  let ?k = "min n ReceiveBufferResponse_max_chunk_size"
  let ?chunk = "take ?k (drop offset buf)"
  have n: "unat (of_nat n :: u32) = n" using less.prems by (simp add: unat_of_nat)
  have k: "?k \<le> n" "0 < n \<Longrightarrow> 0 < ?k"
    by (simp_all add: ReceiveBufferResponse_max_chunk_size_def MAX_APDU_DATA_SIZE_def)
  have chunk: "length ?chunk = ?k" using less.prems by simp
  have read: "ReceiveBufferResponse_deserialize (ReceiveBufferResponse_serialize
      (ReceiveBufferResponse_new (of_nat n) ?chunk)) = Ok (ReceiveBufferResponse_new (of_nat n) ?chunk)"
    by (rule receive_response_read) (use chunk k n in simp)
  have more: "transfers (receive_responses buf (n - ?k) (offset + ?k)) (drop (offset + ?k) buf)" if "n - ?k \<noteq> 0"
    by (rule less.IH) (use that k less.prems in linarith)+
  have rest: "drop ?k (drop offset buf) = drop (offset + ?k) buf" by (simp add: add.commute)
  have e: "drop (offset + ?k) buf = [] \<longleftrightarrow> n - ?k = 0" using less.prems by auto
  have c: "rbr_content (ReceiveBufferResponse_new (of_nat n) ?chunk) = ?chunk"
    "rbr_remaining_length (ReceiveBufferResponse_new (of_nat n) ?chunk) = of_nat n"
    by (simp_all add: ReceiveBufferResponse_new_def)
  show ?case
    using more less.prems
    by (subst receive_responses.simps)
      (simp only: Let_def transfers.simps read sum.case c chunk rest e n, auto)
qed

lemma client_responses_transfer:
  assumes "length buf < 2 ^ 32"
  shows "transfers (receive_responses buf (length buf mod 2 ^ 32) 0) buf"
  using receive_responses_transfer [of 0 "length buf" buf] assms by simp

end
