(* ===== verification/Vapp_Store.thy ===== *)
theory Vapp_Store
  imports Manifest Auth
begin

text \<open>
  The registry of V-Apps in non-volatile memory (\<open>vm/src/vapp.rs\<close>): 32 cells of lazily initialised
  storage. The abstract view is a finite map from names to entries: registering updates it at one name,
  unregistering deletes one, and both keep at most one entry for a name.
\<close>

section \<open>Entries and the store\<close>

definition MAX_REGISTERED_VAPPS :: nat where
  "MAX_REGISTERED_VAPPS = 32"

definition STORAGE_SLOT_SIZE :: nat where
  "STORAGE_SLOT_SIZE = 32"

record VAppEntry =
  ve_hash :: bytes
  ve_name :: bytes
  ve_version :: bytes
  storage_slots :: "bytes list"

definition VAppEntry_empty :: VAppEntry where
  "VAppEntry_empty = \<lparr>ve_hash = replicate 32 0, ve_name = replicate APP_NAME_MAX_LEN 0,
     ve_version = replicate APP_VERSION_MAX_LEN 0,
     storage_slots = replicate (unat MAX_STORAGE_SLOTS) (replicate STORAGE_SLOT_SIZE 0)\<rparr>"

text \<open>The bytes up to the first null byte, as a string slice.\<close>

definition until_null :: "bytes \<Rightarrow> bytes" where
  "until_null s = (let t = takeWhile (\<lambda>b. b \<noteq> 0) s in if valid_utf8 t then t else [])"

definition entry_get_app_name :: "VAppEntry \<Rightarrow> bytes" where
  "entry_get_app_name e = until_null (ve_name e)"

definition entry_get_app_version :: "VAppEntry \<Rightarrow> bytes" where
  "entry_get_app_version e = until_null (ve_version e)"

datatype VAppStoreError = StoreFull | NameTooLong | VersionTooLong

type_synonym vapp_store = "VAppEntry LazyStorage list"

text \<open>The zeroed memory is the empty entry.\<close>

definition VAPP_STORE :: vapp_store where
  "VAPP_STORE = replicate MAX_REGISTERED_VAPPS (LazyStorage_new VAppEntry_empty)"

text \<open>The loops over the cells that stop at the first initialised one with a property.\<close>

definition entry_at :: "vapp_store \<Rightarrow> nat \<Rightarrow> VAppEntry option" where
  "entry_at st i = (if is_initialized (st ! i) then ls_get_ref (st ! i) else None)"

definition find_entry :: "(VAppEntry \<Rightarrow> bool) \<Rightarrow> vapp_store \<Rightarrow> nat option" where
  "find_entry p st =
     List.find (\<lambda>i. case entry_at st i of Some e \<Rightarrow> p e | None \<Rightarrow> False) [0..<MAX_REGISTERED_VAPPS]"

definition find_by_hash :: "bytes \<Rightarrow> vapp_store \<Rightarrow> nat option" where
  "find_by_hash h = find_entry (\<lambda>e. ve_hash e = h)"

definition find_by_name :: "bytes \<Rightarrow> vapp_store \<Rightarrow> nat option" where
  "find_by_name n = find_entry (\<lambda>e. entry_get_app_name e = n)"

definition is_registered :: "bytes \<Rightarrow> vapp_store \<Rightarrow> bool" where
  "is_registered h st \<longleftrightarrow> find_by_hash h st \<noteq> None"

definition new_entry :: "(bytes \<Rightarrow> hash_output) \<Rightarrow> Manifest \<Rightarrow> VAppEntry" where
  "new_entry H m = VAppEntry_empty\<lparr>ve_hash := get_vapp_hash H m,
     ve_name := vapp_name m @ drop (length (vapp_name m)) (ve_name VAppEntry_empty),
     ve_version := vapp_version m @ drop (length (vapp_version m)) (ve_version VAppEntry_empty)\<rparr>"

text \<open>\<open>register\<close>; the outer option is a panic of \<open>update\<close> or \<open>initialize\<close>.\<close>

definition store_register ::
  "(bytes \<Rightarrow> hash_output) \<Rightarrow> Manifest \<Rightarrow> vapp_store \<Rightarrow> (vapp_store \<times> (VAppStoreError, unit) result) option" where
  "store_register H m st =
     (if length (vapp_name m) > APP_NAME_MAX_LEN then Some (st, Err NameTooLong)
      else if length (vapp_version m) > APP_VERSION_MAX_LEN then Some (st, Err VersionTooLong)
      else case find_by_name (vapp_name m) st of
        Some i \<Rightarrow> map_option (\<lambda>c. (st[i := c], Ok ())) (ls_update (new_entry H m) (st ! i))
      | None \<Rightarrow>
          (case List.find (\<lambda>i. \<not> is_initialized (st ! i)) [0..<MAX_REGISTERED_VAPPS] of
             Some i \<Rightarrow> map_option (\<lambda>c. (st[i := c], Ok ())) (initialize (new_entry H m) (st ! i))
           | None \<Rightarrow> Some (st, Err StoreFull)))"

definition unregister :: "nat \<Rightarrow> vapp_store \<Rightarrow> vapp_store \<times> bool" where
  "unregister i st =
     (if i \<ge> MAX_REGISTERED_VAPPS then (st, False)
      else if \<not> is_initialized (st ! i) then (st, False)
      else (st[i := ls_clear VAppEntry_empty (st ! i)], True))"

definition store_count :: "vapp_store \<Rightarrow> nat" where
  "store_count st =
     fold (\<lambda>i count. if is_initialized (st ! i) then count + 1 else count) [0..<MAX_REGISTERED_VAPPS] 0"

definition get_entry :: "nat \<Rightarrow> vapp_store \<Rightarrow> VAppEntry option" where
  "get_entry i st = (if i \<ge> MAX_REGISTERED_VAPPS then None else entry_at st i)"

definition uninstall_all :: "vapp_store \<Rightarrow> vapp_store" where
  "uninstall_all st =
     fold (\<lambda>i st. if is_initialized (st ! i) then st[i := ls_clear VAppEntry_empty (st ! i)] else st)
       [0..<MAX_REGISTERED_VAPPS] st"

text \<open>The iterator: its index and the entry found, if any.\<close>

function iter_next :: "vapp_store \<Rightarrow> nat \<Rightarrow> nat \<times> (nat \<times> VAppEntry) option" where
  "iter_next st current_index =
     (if current_index < MAX_REGISTERED_VAPPS then
        (case entry_at st current_index of
           Some e \<Rightarrow> (current_index + 1, Some (current_index, e))
         | None \<Rightarrow> iter_next st (current_index + 1))
      else (current_index, None))"
  by pat_completeness auto
termination
  by (relation "measure (\<lambda>(st, i). MAX_REGISTERED_VAPPS - i)") auto

declare iter_next.simps [simp del]

section \<open>The abstract registry\<close>

definition store_ok :: "vapp_store \<Rightarrow> bool" where
  "store_ok st \<longleftrightarrow> length st = MAX_REGISTERED_VAPPS \<and>
     (\<forall>i<MAX_REGISTERED_VAPPS. \<forall>j<MAX_REGISTERED_VAPPS. \<forall>e f. entry_at st i = Some e \<longrightarrow> entry_at st j = Some f \<longrightarrow>
        entry_get_app_name e = entry_get_app_name f \<longrightarrow> i = j)"

definition registry :: "vapp_store \<Rightarrow> bytes \<rightharpoonup> VAppEntry" where
  "registry st n = (case find_by_name n st of Some i \<Rightarrow> entry_at st i | None \<Rightarrow> None)"

lemma find_upt_Some: "List.find p [0..<n] = Some i \<Longrightarrow> i < n \<and> p i"
  by (auto simp: find_Some_iff)

lemma find_upt_None: "List.find p [0..<n] = None \<longleftrightarrow> (\<forall>i<n. \<not> p i)"
  by (auto simp: find_None_iff)

lemma find_entry_Some:
  "find_entry p st = Some i \<Longrightarrow> i < MAX_REGISTERED_VAPPS \<and> (\<exists>e. entry_at st i = Some e \<and> p e)"
  unfolding find_entry_def by (drule find_upt_Some) (auto split: option.splits)

lemma find_entry_None:
  "find_entry p st = None \<longleftrightarrow> (\<forall>i<MAX_REGISTERED_VAPPS. \<forall>e. entry_at st i = Some e \<longrightarrow> \<not> p e)"
  unfolding find_entry_def find_upt_None by (auto split: option.splits)

lemma is_initialized_entry: "is_initialized (st ! i) \<longleftrightarrow> (\<exists>e. entry_at st i = Some e)"
  by (simp add: entry_at_def ls_get_ref_def)

lemma entry_at_update:
  "i < length st \<Longrightarrow> entry_at (st[i := \<lparr>ls_flag = STORAGE_VALID, ls_value = e\<rparr>]) j
     = (if j = i then Some e else entry_at st j)"
  "i < length st \<Longrightarrow> entry_at (st[i := \<lparr>ls_flag = 0, ls_value = e\<rparr>]) j = (if j = i then None else entry_at st j)"
  by (auto simp: entry_at_def ls_get_ref_def nth_list_update)

lemma store_ok_unique:
  "\<lbrakk>store_ok st; i < MAX_REGISTERED_VAPPS; j < MAX_REGISTERED_VAPPS; entry_at st i = Some e; entry_at st j = Some f;
    entry_get_app_name e = entry_get_app_name f\<rbrakk> \<Longrightarrow> i = j"
  unfolding store_ok_def by blast

lemma registry_iff:
  assumes "store_ok st"
  shows "registry st n = Some e \<longleftrightarrow> (\<exists>i<MAX_REGISTERED_VAPPS. entry_at st i = Some e \<and> entry_get_app_name e = n)"
proof (cases "find_by_name n st")
  case None
  then have "registry st n = None" by (simp add: registry_def)
  with None show ?thesis by (auto simp: find_by_name_def find_entry_None)
next
  case (Some i)
  then obtain f where i: "i < MAX_REGISTERED_VAPPS" "entry_at st i = Some f" "entry_get_app_name f = n"
    using find_entry_Some unfolding find_by_name_def by blast
  have "registry st n = Some f" using Some i(2) by (simp add: registry_def)
  moreover have "e = f" if "j < MAX_REGISTERED_VAPPS" "entry_at st j = Some e" "entry_get_app_name e = n" for j
  proof -
    have "j = i" by (rule store_ok_unique [OF assms that(1) i(1) that(2) i(2)]) (simp only: i(3) that(3))
    then show "e = f" using that(2) i(2) by simp
  qed
  ultimately show ?thesis using i by (metis option.inject)
qed

lemma is_registered_iff:
  assumes "store_ok st"
  shows "is_registered h st \<longleftrightarrow> (\<exists>n e. registry st n = Some e \<and> ve_hash e = h)"
  by (auto simp: is_registered_def find_by_hash_def find_entry_None registry_iff [OF assms])

lemma map_eqI: "(\<And>m f. a m = Some f \<longleftrightarrow> b m = Some f) \<Longrightarrow> a = b"
  by (rule ext) (metis not_None_eq)

text \<open>Writing an entry into a cell that was free or held an entry of the same name.\<close>

lemma put_entry:
  assumes "store_ok st" "i < MAX_REGISTERED_VAPPS" "entry_get_app_name e = n"
    and free: "\<And>f. entry_at st i = Some f \<Longrightarrow> entry_get_app_name f = n"
    and only: "\<And>j f. \<lbrakk>j < MAX_REGISTERED_VAPPS; entry_at st j = Some f; entry_get_app_name f = n\<rbrakk> \<Longrightarrow> j = i"
  defines "st' \<equiv> st[i := \<lparr>ls_flag = STORAGE_VALID, ls_value = e\<rparr>]"
  shows "store_ok st'" "registry st' = (registry st)(n \<mapsto> e)"
proof -
  have len: "i < length st" using assms(1,2) by (simp add: store_ok_def)
  have at: "entry_at st' j = (if j = i then Some e else entry_at st j)" for j
    unfolding st'_def by (rule entry_at_update(1) [OF len])
  show ok: "store_ok st'"
    unfolding store_ok_def at
  proof (intro conjI allI impI)
    show "length st' = MAX_REGISTERED_VAPPS" using assms(1) by (simp add: st'_def store_ok_def)
    fix j k f g
    assume jk: "j < MAX_REGISTERED_VAPPS" "k < MAX_REGISTERED_VAPPS" "(if j = i then Some e else entry_at st j) = Some f"
      "(if k = i then Some e else entry_at st k) = Some g" "entry_get_app_name f = entry_get_app_name g"
    show "j = k"
    proof (cases "j = i \<or> k = i")
      case True
      then show ?thesis using jk only [of j f] only [of k g] assms(3) by (auto split: if_splits)
    next
      case False
      then show ?thesis using jk(3,4) store_ok_unique [OF assms(1) jk(1,2) _ _ jk(5)] by simp
    qed
  qed
  show "registry st' = (registry st)(n \<mapsto> e)"
  proof (rule map_eqI)
    fix m f
    show "registry st' m = Some f \<longleftrightarrow> ((registry st)(n \<mapsto> e)) m = Some f"
      proof (cases "m = n")
      case True
      have "registry st' n = Some f \<longleftrightarrow> f = e"
        unfolding registry_iff [OF ok] at using assms(2,3) only [of _ f] by auto
      then show ?thesis using True by auto
    next
      case False
      then have "entry_at st' j = Some f \<and> entry_get_app_name f = m \<longleftrightarrow>
          entry_at st j = Some f \<and> entry_get_app_name f = m" for j
        unfolding at using assms(3) free [of f] by auto
      then have "registry st' m = Some f \<longleftrightarrow> registry st m = Some f"
        unfolding registry_iff [OF ok] registry_iff [OF assms(1)] by simp
      then show ?thesis using False by simp
    qed
  qed
qed

lemma drop_entry:
  assumes "store_ok st" "i < MAX_REGISTERED_VAPPS" "entry_at st i = Some e"
  defines "st' \<equiv> st[i := ls_clear VAppEntry_empty (st ! i)]"
  shows "store_ok st'" "registry st' = (registry st)(entry_get_app_name e := None)"
proof -
  have len: "i < length st" using assms(1,2) by (simp add: store_ok_def)
  have at: "entry_at st' j = (if j = i then None else entry_at st j)" for j
    unfolding st'_def ls_ops by (rule entry_at_update(2) [OF len])
  show ok: "store_ok st'"
    using assms(1) unfolding store_ok_def at by (auto simp: st'_def)
  show "registry st' = (registry st)(entry_get_app_name e := None)"
  proof (rule map_eqI)
    fix m f
    show "registry st' m = Some f \<longleftrightarrow> ((registry st)(entry_get_app_name e := None)) m = Some f"
      proof (cases "m = entry_get_app_name e")
      case True
      have "registry st' m \<noteq> Some f"
        unfolding registry_iff [OF ok] at
        using store_ok_unique [OF assms(1) _ assms(2) _ assms(3)] True by auto
      then show ?thesis using True by simp
    next
      case False
      then have "entry_at st' j = Some f \<and> entry_get_app_name f = m \<longleftrightarrow>
          entry_at st j = Some f \<and> entry_get_app_name f = m" for j
        unfolding at using assms(3) by auto
      then have "registry st' m = Some f \<longleftrightarrow> registry st m = Some f"
        unfolding registry_iff [OF ok] registry_iff [OF assms(1)] by simp
      then show ?thesis using False by simp
    qed
  qed
qed

lemma fold_count: "fold (\<lambda>i n. if p i then n + 1 else n) xs n = n + length (filter p xs)"
  by (induction xs arbitrary: n) simp_all

lemma store_count_card:
  assumes "store_ok st"
  shows "store_count st = card (dom (registry st))" "finite (dom (registry st))"
proof -
  let ?I = "{i. i < MAX_REGISTERED_VAPPS \<and> entry_at st i \<noteq> None}"
  let ?f = "\<lambda>i. entry_get_app_name (the (entry_at st i))"
  have "set (filter (\<lambda>i. is_initialized (st ! i)) [0..<MAX_REGISTERED_VAPPS]) = ?I"
    by (auto simp: is_initialized_entry)
  then have count: "store_count st = card ?I"
    unfolding store_count_def fold_count by (metis add_0 distinct_card distinct_filter distinct_upt)
  have "bij_betw ?f ?I (dom (registry st))"
    unfolding bij_betw_def
  proof
    show "inj_on ?f ?I" by (rule inj_onI) (auto intro: store_ok_unique [OF assms])
    show "?f ` ?I = dom (registry st)"
    proof (intro equalityI subsetI)
      fix n assume "n \<in> ?f ` ?I"
      then obtain i e where "i < MAX_REGISTERED_VAPPS" "entry_at st i = Some e" "n = entry_get_app_name e" by auto
      then have "registry st n = Some e" unfolding registry_iff [OF assms] by blast
      then show "n \<in> dom (registry st)" by blast
    next
      fix n assume "n \<in> dom (registry st)"
      then obtain e where "registry st n = Some e" by blast
      then obtain i where "i < MAX_REGISTERED_VAPPS" "entry_at st i = Some e" "entry_get_app_name e = n"
        unfolding registry_iff [OF assms] by blast
      then have "i \<in> ?I" "n = ?f i" by auto
      then show "n \<in> ?f ` ?I" by blast
    qed
  qed
  then have "card ?I = card (dom (registry st))" "finite ?I \<longleftrightarrow> finite (dom (registry st))"
    by (auto simp: bij_betw_same_card bij_betw_finite)
  then show "store_count st = card (dom (registry st))" using count by simp
  show "finite (dom (registry st))" using \<open>finite ?I \<longleftrightarrow> finite (dom (registry st))\<close> by simp
qed

lemma printable_bytes: "printable s \<Longrightarrow> b \<in> set s \<Longrightarrow> b \<noteq> 0 \<and> b < 0x80"
proof -
  assume "printable s" "b \<in> set s"
  then have "0x21 \<le> b \<and> b \<le> 0x7e \<or> b = 0x20" by (auto simp: printable_def is_ascii_graphic_def list_all_iff)
  then show "b \<noteq> 0 \<and> b < 0x80" by (auto simp: word_le_nat_alt word_less_nat_alt)
qed

lemma until_null_padded:
  assumes "printable s"
  shows "until_null (s @ replicate k 0) = s"
proof -
  have "takeWhile (\<lambda>b. b \<noteq> 0) (s @ replicate k 0) = s"
    using printable_bytes [OF assms] by (subst takeWhile_append2) auto
  moreover have "valid_utf8 s" using printable_bytes [OF assms] by (intro valid_utf8_ascii) blast
  ultimately show ?thesis by (simp add: until_null_def)
qed

lemma new_entry_name:
  assumes "manifest_validate m = Ok ()"
  shows "entry_get_app_name (new_entry H m) = vapp_name m" "entry_get_app_version (new_entry H m) = vapp_version m"
  using assms unfolding validate_Ok
  by (simp_all add: entry_get_app_name_def entry_get_app_version_def new_entry_def VAppEntry_empty_def until_null_padded)

text \<open>
  C33: (registration) For a valid manifest \<open>register\<close> never panics; it succeeds exactly when an entry of the
  name exists or fewer than 32 V-Apps are registered, and otherwise reports \<open>StoreFull\<close> and changes
  nothing. On success the map from names to entries is updated at the manifest's name alone, with an
  entry that has the manifest's hash, name and version and zeroed storage slots, and the hash is
  registered. No name ever has two entries.
\<close>

theorem register_updates:
  assumes "store_ok st" "manifest_validate m = Ok ()"
  shows "\<exists>st' r. store_register H m st = Some (st', r) \<and> store_ok st' \<and>
    (if vapp_name m \<in> dom (registry st) \<or> store_count st < 32
     then r = Ok () \<and> registry st' = (registry st)(vapp_name m \<mapsto> new_entry H m) \<and>
          is_registered (get_vapp_hash H m) st'
     else r = Err StoreFull \<and> st' = st)"
proof -
  let ?e = "new_entry H m" and ?n = "vapp_name m"
  note name = new_entry_name(1) [OF assms(2)]
  have hash: "ve_hash ?e = get_vapp_hash H m" by (simp add: new_entry_def)
  have start: "store_register H m st = (case find_by_name ?n st of
        Some i \<Rightarrow> map_option (\<lambda>c. (st[i := c], Ok ())) (ls_update ?e (st ! i))
      | None \<Rightarrow> (case List.find (\<lambda>i. \<not> is_initialized (st ! i)) [0..<MAX_REGISTERED_VAPPS] of
             Some i \<Rightarrow> map_option (\<lambda>c. (st[i := c], Ok ())) (initialize ?e (st ! i))
           | None \<Rightarrow> Some (st, Err StoreFull)))"
    using assms(2) unfolding validate_Ok by (simp add: store_register_def APP_NAME_MAX_LEN_def APP_VERSION_MAX_LEN_def)
  have put: "\<exists>st' r. store_register H m st = Some (st', r) \<and> store_ok st' \<and> r = Ok () \<and>
      registry st' = (registry st)(?n \<mapsto> ?e) \<and> is_registered (get_vapp_hash H m) st'"
    if "store_register H m st = Some (st[i := \<lparr>ls_flag = STORAGE_VALID, ls_value = ?e\<rparr>], Ok ())"
      "i < MAX_REGISTERED_VAPPS" "\<And>f. entry_at st i = Some f \<Longrightarrow> entry_get_app_name f = ?n"
      "\<And>j f. \<lbrakk>j < MAX_REGISTERED_VAPPS; entry_at st j = Some f; entry_get_app_name f = ?n\<rbrakk> \<Longrightarrow> j = i" for i
    using that(1) put_entry [OF assms(1) that(2) name that(3,4)] hash by (auto simp: is_registered_iff)
  show ?thesis
  proof (cases "find_by_name ?n st")
    case (Some i)
    then obtain f where i: "i < MAX_REGISTERED_VAPPS" "entry_at st i = Some f" "entry_get_app_name f = ?n"
      using find_entry_Some unfolding find_by_name_def by blast
    have "is_initialized (st ! i)" unfolding is_initialized_entry using i(2) by blast
    then have reg: "store_register H m st = Some (st[i := \<lparr>ls_flag = STORAGE_VALID, ls_value = ?e\<rparr>], Ok ())"
      unfolding start Some by simp
    have known: "?n \<in> dom (registry st)" using Some i(2) by (auto simp: registry_def)
    have "\<exists>st' r. store_register H m st = Some (st', r) \<and> store_ok st' \<and> r = Ok () \<and>
      registry st' = (registry st)(?n \<mapsto> ?e) \<and> is_registered (get_vapp_hash H m) st'"
    proof (rule put [OF reg i(1)])
      show "entry_get_app_name g = ?n" if "entry_at st i = Some g" for g using i(2,3) that by simp
      show "j = i" if "j < MAX_REGISTERED_VAPPS" "entry_at st j = Some g" "entry_get_app_name g = ?n" for j g
        by (rule store_ok_unique [OF assms(1) that(1) i(1) that(2) i(2)]) (simp only: that(3) i(3))
    qed
    with known show ?thesis by auto
  next
    case none: None
    then have fresh: "registry st ?n = None" by (simp add: registry_def)
    from none have new: "entry_get_app_name f \<noteq> ?n" if "j < MAX_REGISTERED_VAPPS" "entry_at st j = Some f" for j f
      using that unfolding find_by_name_def find_entry_None by blast
    show ?thesis
    proof (cases "List.find (\<lambda>i. \<not> is_initialized (st ! i)) [0..<MAX_REGISTERED_VAPPS]")
      case (Some i)
      then have i: "i < MAX_REGISTERED_VAPPS" "\<not> is_initialized (st ! i)" using find_upt_Some by fastforce+
      have "\<not> (\<forall>i\<in>set [0..<MAX_REGISTERED_VAPPS]. is_initialized (st ! i))" using i by auto
      then have "length (filter (\<lambda>i. is_initialized (st ! i)) [0..<MAX_REGISTERED_VAPPS]) < MAX_REGISTERED_VAPPS"
        using length_filter_less [of i "[0..<MAX_REGISTERED_VAPPS]" "\<lambda>i. is_initialized (st ! i)"] i by simp
      then have "store_count st < 32" unfolding store_count_def fold_count by (simp add: MAX_REGISTERED_VAPPS_def)
      moreover have "\<exists>st' r. store_register H m st = Some (st', r) \<and> store_ok st' \<and> r = Ok () \<and>
        registry st' = (registry st)(?n \<mapsto> ?e) \<and> is_registered (get_vapp_hash H m) st'"
      proof (rule put [OF _ i(1)])
        show "store_register H m st = Some (st[i := \<lparr>ls_flag = STORAGE_VALID, ls_value = ?e\<rparr>], Ok ())"
          unfolding start none Some using i(2) by simp
        show "entry_get_app_name g = ?n" if "entry_at st i = Some g" for g
          using i(2) that by (simp add: entry_at_def)
        show "j = i" if "j < MAX_REGISTERED_VAPPS" "entry_at st j = Some g" "entry_get_app_name g = ?n" for j g
          using new [OF that(1,2)] that(3) by blast
      qed
      ultimately show ?thesis by auto
    next
      case full: None
      then have "\<forall>i<MAX_REGISTERED_VAPPS. is_initialized (st ! i)" unfolding find_upt_None by simp
      then have "filter (\<lambda>i. is_initialized (st ! i)) [0..<MAX_REGISTERED_VAPPS] = [0..<MAX_REGISTERED_VAPPS]"
        by (intro filter_True) auto
      then have "store_count st = 32" unfolding store_count_def fold_count by (simp add: MAX_REGISTERED_VAPPS_def)
      moreover have "store_register H m st = Some (st, Err StoreFull)" unfolding start none full by simp
      ultimately show ?thesis using fresh assms(1) by (auto simp: dom_def)
    qed
  qed
qed

lemma uninstall_prefix:
  assumes "length st = MAX_REGISTERED_VAPPS" "k \<le> MAX_REGISTERED_VAPPS"
  defines "clear \<equiv> fold (\<lambda>i st. if is_initialized (st ! i) then st[i := ls_clear VAppEntry_empty (st ! i)] else st)"
  shows "length (clear [0..<k] st) = MAX_REGISTERED_VAPPS \<and>
    (\<forall>i. entry_at (clear [0..<k] st) i = (if i < k then None else entry_at st i))"
  using assms(2)
proof (induction k)
  case 0
  then show ?case using assms(1) by (simp add: clear_def)
next
  case (Suc k)
  let ?st = "clear [0..<k] st"
  have IH: "length ?st = MAX_REGISTERED_VAPPS" "\<And>i. entry_at ?st i = (if i < k then None else entry_at st i)"
    using Suc by auto
  have step: "clear [0..<Suc k] st =
      (if is_initialized (?st ! k) then ?st[k := ls_clear VAppEntry_empty (?st ! k)] else ?st)"
    by (simp add: clear_def)
  have k: "k < length ?st" using IH(1) Suc.prems by simp
  show ?case
  proof (cases "is_initialized (?st ! k)")
    case True
    then show ?thesis unfolding step ls_ops using IH k by (auto simp: entry_at_update less_Suc_eq)
  next
    case False
    then have "entry_at ?st k = None" by (simp add: entry_at_def)
    then show ?thesis unfolding step using False IH by (auto simp: less_Suc_eq)
  qed
qed

lemma iter_next_spec:
  assumes "iter_next st i = (j, r)"
  shows "case r of
     Some (k, e) \<Rightarrow> i \<le> k \<and> k < MAX_REGISTERED_VAPPS \<and> j = k + 1 \<and> entry_at st k = Some e \<and>
       (\<forall>l. i \<le> l \<longrightarrow> l < k \<longrightarrow> entry_at st l = None)
   | None \<Rightarrow> (\<forall>l. i \<le> l \<longrightarrow> l < MAX_REGISTERED_VAPPS \<longrightarrow> entry_at st l = None)"
  using assms
proof (induction st i rule: iter_next.induct)
  case (1 st i)
  show ?case
  proof (cases "i < MAX_REGISTERED_VAPPS \<and> entry_at st i = None")
    case True
    then have "iter_next st (i + 1) = (j, r)" using 1(2) by (simp add: iter_next.simps [of st i])
    with 1(1) True have IH: "case r of
       Some (k, e) \<Rightarrow> i + 1 \<le> k \<and> k < MAX_REGISTERED_VAPPS \<and> j = k + 1 \<and> entry_at st k = Some e \<and>
         (\<forall>l. i + 1 \<le> l \<longrightarrow> l < k \<longrightarrow> entry_at st l = None)
     | None \<Rightarrow> (\<forall>l. i + 1 \<le> l \<longrightarrow> l < MAX_REGISTERED_VAPPS \<longrightarrow> entry_at st l = None)" by simp
    have split: "i \<le> l \<longleftrightarrow> l = i \<or> i + 1 \<le> l" for l by auto
    show ?thesis using IH True unfolding split by (auto split: option.splits prod.splits)
  next
    case False
    then show ?thesis using 1(2) by (auto simp: iter_next.simps [of st i] split: option.splits if_splits)
  qed
qed

lemma iter_next_less:
  "(j, Some item) = iter_next st i \<Longrightarrow> i < MAX_REGISTERED_VAPPS \<and> i < j"
  using iter_next_spec [of st i j "Some item"] by (cases item) auto

text \<open>A \<open>for\<close> loop over the iterator: the entries \<open>next\<close> yields until it yields none.\<close>

function iter_from :: "vapp_store \<Rightarrow> nat \<Rightarrow> (nat \<times> VAppEntry) list" where
  "iter_from st current_index =
     (case iter_next st current_index of
        (_, None) \<Rightarrow> []
      | (current_index', Some item) \<Rightarrow> item # iter_from st current_index')"
  by pat_completeness auto
termination
  by (relation "measure (\<lambda>(st, i). MAX_REGISTERED_VAPPS - i)") (auto dest: iter_next_less)

declare iter_from.simps [simp del]

lemma iter_from_entries:
  "iter_from st i = map (\<lambda>k. (k, the (entry_at st k)))
     (filter (\<lambda>k. entry_at st k \<noteq> None) [i..<MAX_REGISTERED_VAPPS])"
proof (induction st i rule: iter_from.induct)
  case (1 st i)
  let ?p = "\<lambda>k. entry_at st k \<noteq> None"
  obtain j r where n: "iter_next st i = (j, r)" by fastforce
  note spec = iter_next_spec [OF n]
  show ?case
  proof (cases r)
    case None
    then have "filter ?p [i..<MAX_REGISTERED_VAPPS] = []" using spec by (auto simp: filter_empty_conv)
    then show ?thesis using None n by (simp add: iter_from.simps [of st i])
  next
    case (Some item)
    then obtain k e where item: "item = (k, e)" "i \<le> k" "k < MAX_REGISTERED_VAPPS" "j = k + 1" "entry_at st k = Some e"
      and none: "\<And>l. i \<le> l \<Longrightarrow> l < k \<Longrightarrow> entry_at st l = None" using spec by (cases item) auto
    have "[i..<MAX_REGISTERED_VAPPS] = [i..<k] @ k # [j..<MAX_REGISTERED_VAPPS]"
      using upt_add_eq_append [OF item(2), of "MAX_REGISTERED_VAPPS - k"] item(3,4) by (simp add: upt_conv_Cons)
    moreover have "filter ?p [i..<k] = []" using none by (auto simp: filter_empty_conv)
    moreover have "iter_from st j = map (\<lambda>k. (k, the (entry_at st k))) (filter ?p [j..<MAX_REGISTERED_VAPPS])"
      using 1 n Some by simp
    ultimately show ?thesis using n Some item by (simp add: iter_from.simps [of st i])
  qed
qed

lemma iter_from_set: "(i, e) \<in> set (iter_from st 0) \<longleftrightarrow> i < MAX_REGISTERED_VAPPS \<and> entry_at st i = Some e"
proof -
  have "(i, e) \<in> (\<lambda>k. (k, the (entry_at st k))) ` {k. k < MAX_REGISTERED_VAPPS \<and> entry_at st k \<noteq> None} \<longleftrightarrow>
      i < MAX_REGISTERED_VAPPS \<and> entry_at st i = Some e"
    by (cases "entry_at st i") auto
  then show ?thesis unfolding iter_from_entries by (simp add: conj_commute)
qed

lemma iter_from_registry:
  assumes "store_ok st"
  shows "map_of (map (\<lambda>(i, e). (entry_get_app_name e, e)) (iter_from st 0)) = registry st"
proof -
  let ?xs = "map (\<lambda>(i, e). (entry_get_app_name e, e)) (iter_from st 0)"
  have "(n, e) \<in> set ?xs \<longleftrightarrow> (\<exists>i<MAX_REGISTERED_VAPPS. entry_at st i = Some e \<and> entry_get_app_name e = n)" for n e
  proof
    assume "(n, e) \<in> set ?xs"
    then obtain i where "(i, e) \<in> set (iter_from st 0)" "entry_get_app_name e = n" by auto
    then show "\<exists>i<MAX_REGISTERED_VAPPS. entry_at st i = Some e \<and> entry_get_app_name e = n"
      unfolding iter_from_set by blast
  next
    assume "\<exists>i<MAX_REGISTERED_VAPPS. entry_at st i = Some e \<and> entry_get_app_name e = n"
    then obtain i where i: "(i, e) \<in> set (iter_from st 0)" "entry_get_app_name e = n"
      unfolding iter_from_set by blast
    from imageI [OF i(1), of "\<lambda>(i, e). (entry_get_app_name e, e)"] i(2) show "(n, e) \<in> set ?xs" by simp
  qed
  then have mem: "(n, e) \<in> set ?xs \<longleftrightarrow> registry st n = Some e" for n e
    unfolding registry_iff [OF assms] .
  show ?thesis
  proof (rule map_eqI)
    fix n e
    show "map_of ?xs n = Some e \<longleftrightarrow> registry st n = Some e"
    proof
      assume "map_of ?xs n = Some e"
      then show "registry st n = Some e" by (rule iffD1 [OF mem map_of_SomeD])
    next
      assume r: "registry st n = Some e"
      then have "(n, e) \<in> set ?xs" by (rule iffD2 [OF mem])
      from weak_map_of_SomeI [OF this] obtain f where f: "map_of ?xs n = Some f" ..
      have "registry st n = Some f" by (rule iffD1 [OF mem map_of_SomeD [OF f]])
      with f r show "map_of ?xs n = Some e" by simp
    qed
  qed
qed

text \<open>
  C36: (the other operations of the registry) The initial store is empty and well formed. \<open>unregister\<close>
  answers whether the cell held an entry and deletes exactly that entry's name, \<open>uninstall_all\<close> deletes
  everything, \<open>count\<close> is the number of registered names, and a hash is registered exactly when some
  entry has it. A loop over the iterator visits exactly the occupied cells, in increasing order, each with its
  entry: the entries it yields are the registry. All keep at most one entry for a name.
\<close>

theorem registry_operations:
  assumes "store_ok st"
  shows "store_ok VAPP_STORE \<and> registry VAPP_STORE = Map.empty \<and>
    store_count st = card (dom (registry st)) \<and>
    (is_registered h st \<longleftrightarrow> h \<in> ve_hash ` ran (registry st)) \<and>
    iter_from st 0 = map (\<lambda>k. (k, the (get_entry k st))) (filter (\<lambda>k. get_entry k st \<noteq> None) [0..<MAX_REGISTERED_VAPPS]) \<and>
    map_of (map (\<lambda>(k, e). (entry_get_app_name e, e)) (iter_from st 0)) = registry st \<and>
    store_ok (uninstall_all st) \<and> registry (uninstall_all st) = Map.empty \<and>
    store_ok (fst (unregister i st)) \<and>
    (case get_entry i st of
       None \<Rightarrow> unregister i st = (st, False)
     | Some e \<Rightarrow> snd (unregister i st) \<and>
         registry (fst (unregister i st)) = (registry st)(entry_get_app_name e := None))"
proof -
  have empty: "store_ok s \<and> registry s = Map.empty"
    if "length s = MAX_REGISTERED_VAPPS" "\<And>i. i < MAX_REGISTERED_VAPPS \<Longrightarrow> entry_at s i = None" for s
  proof -
    have ok: "store_ok s" using that by (simp add: store_ok_def)
    moreover have "registry s = Map.empty"
      by (rule map_eqI) (auto simp: registry_iff [OF ok] dest: that(2))
    ultimately show ?thesis ..
  qed
  have "store_ok VAPP_STORE \<and> registry VAPP_STORE = Map.empty"
    by (rule empty) (simp_all add: VAPP_STORE_def entry_at_def)
  moreover have "store_ok (uninstall_all st) \<and> registry (uninstall_all st) = Map.empty"
    using uninstall_prefix [of st MAX_REGISTERED_VAPPS] assms
    by (intro empty) (simp_all add: uninstall_all_def store_ok_def)
  moreover have "is_registered h st \<longleftrightarrow> h \<in> ve_hash ` ran (registry st)"
    unfolding is_registered_iff [OF assms] ran_def by blast
  moreover have "store_ok (fst (unregister i st)) \<and> (case get_entry i st of
       None \<Rightarrow> unregister i st = (st, False)
     | Some e \<Rightarrow> snd (unregister i st) \<and>
         registry (fst (unregister i st)) = (registry st)(entry_get_app_name e := None))"
  proof (cases "get_entry i st")
    case None
    then have "MAX_REGISTERED_VAPPS \<le> i \<or> \<not> is_initialized (st ! i)"
      by (auto simp: get_entry_def is_initialized_entry split: if_splits)
    then show ?thesis using None assms by (auto simp: unregister_def)
  next
    case (Some e)
    then have i: "i < MAX_REGISTERED_VAPPS" "entry_at st i = Some e" by (auto simp: get_entry_def split: if_splits)
    then have "unregister i st = (st[i := ls_clear VAppEntry_empty (st ! i)], True)"
      by (simp add: unregister_def is_initialized_entry)
    then show ?thesis using drop_entry [OF assms i] Some by simp
  qed
  moreover have "iter_from st 0
      = map (\<lambda>k. (k, the (get_entry k st))) (filter (\<lambda>k. get_entry k st \<noteq> None) [0..<MAX_REGISTERED_VAPPS])"
    unfolding iter_from_entries by (auto simp: get_entry_def intro!: map_cong filter_cong)
  ultimately show ?thesis using store_count_card(1) [OF assms] iter_from_registry [OF assms] by blast
qed

definition sample_store :: vapp_store where
  "sample_store = fst (the (store_register toy_hash sample_manifest VAPP_STORE))"

lemma VAPP_STORE_ok: "store_ok VAPP_STORE"
  by (simp add: store_ok_def VAPP_STORE_def entry_at_def)

theorem register_updates_witness:
  "store_ok sample_store \<and> is_registered (get_vapp_hash toy_hash sample_manifest) sample_store"
proof -
  have "store_count VAPP_STORE < 32" by code_simp
  then show ?thesis
    using register_updates [OF VAPP_STORE_ok sample_manifest_valid, of toy_hash]
    by (auto simp: sample_store_def split: if_splits)
qed

text \<open>
  A store with one registered V-App, in the first cell: the iterator yields it, and unregistering it
  deletes its name.
\<close>

lemma sample_store_cell: "sample_store = VAPP_STORE[0 := \<lparr>ls_flag = STORAGE_VALID, ls_value = new_entry toy_hash sample_manifest\<rparr>]"
  by code_simp

lemma sample_store_ok: "store_ok sample_store"
  unfolding sample_store_cell
proof (rule put_entry(1) [OF VAPP_STORE_ok])
  show "0 < MAX_REGISTERED_VAPPS" by (simp add: MAX_REGISTERED_VAPPS_def)
qed (auto simp: VAPP_STORE_def entry_at_def MAX_REGISTERED_VAPPS_def)

theorem registry_operations_witness:
  "\<exists>e. iter_from sample_store 0 = [(0, e)] \<and> entry_get_app_name e = vapp_name sample_manifest \<and>
     snd (unregister 0 sample_store) \<and>
     registry (fst (unregister 0 sample_store)) = (registry sample_store)(vapp_name sample_manifest := None)"
proof -
  let ?e = "new_entry toy_hash sample_manifest"
  have at: "get_entry k sample_store = (if k = 0 then Some ?e else None)" for k
    by (simp add: get_entry_def sample_store_cell VAPP_STORE_def entry_at_def MAX_REGISTERED_VAPPS_def
        ls_get_ref_def is_initialized_def nth_list_update LazyStorage_new_def)
  have "filter (\<lambda>k. get_entry k sample_store \<noteq> None) [0..<MAX_REGISTERED_VAPPS] = [0]"
    unfolding at by (simp add: MAX_REGISTERED_VAPPS_def upt_rec)
  then show ?thesis
    using registry_operations [OF sample_store_ok, of "[]" 0] new_entry_name(1) [OF sample_manifest_valid, of toy_hash]
    by (simp add: at)
qed

end
