(* ===== verification/Client_Engine.thy ===== *)
theory Client_Engine
  imports Client_Buffers Vapp_Store
begin

text \<open>
  The engine of the client (\<open>VAppEngine\<close> in \<open>client-sdk/src/vanadium_client.rs\<close>): it starts a V-App, serves the
  requests of the VM for pages and buffers, and hands over what the V-App sends.

  The device at the other end of the transport and the writer for printed output are parameters: a state
  \<open>'d\<close> of the world outside the client, and operations on it. The engine is a record; its operations are
  computations in the state of both that may fail.
\<close>

section \<open>State\<close>

record 'd client_io =
  io_exchange :: "APDUCommand \<Rightarrow> 'd \<Rightarrow> 'd \<times> (string, StatusWord \<times> bytes) result"
  io_write :: "bytes \<Rightarrow> 'd \<Rightarrow> 'd \<times> (string, nat) result"

record VAppEngine =
  eng_code_seg :: client_segment
  eng_data_seg :: client_segment
  eng_stack_seg :: client_segment
  pending_receive_buffer :: "bytes option"
  current_status :: StatusWord
  current_result :: bytes
  code_hmacs :: "CodeHmacs option"

datatype VAppResponse = VMessage bytes | VPanic bytes | VExited i32

type_synonym ('d, 'a) engine_m = "('d \<times> VAppEngine, VAppEngineError, 'a) stm"

definition liftE :: "(VAppEngineError, 'a) result \<Rightarrow> ('d, 'a) engine_m" where
  "liftE r = (case r of Inl e \<Rightarrow> throwS e | Inr a \<Rightarrow> returnS a)"

definition readE :: "(MessageDeserializationError, 'a) result \<Rightarrow> ('d, 'a) engine_m" where
  "readE r = liftE (map_err EngineDeserialization r)"

definition exchange :: "'d client_io \<Rightarrow> APDUCommand \<Rightarrow> ('d, StatusWord \<times> bytes) engine_m" where
  "exchange io apdu = (\<lambda>(d, e). case io_exchange io apdu d of
     (d', r) \<Rightarrow> ((d', e), map_err TransportError r))"

primrec engine_seg :: "SectionKind \<Rightarrow> VAppEngine \<Rightarrow> client_segment" where
  "engine_seg Code e = eng_code_seg e"
| "engine_seg Data e = eng_data_seg e"
| "engine_seg Stack e = eng_stack_seg e"

primrec set_engine_seg :: "SectionKind \<Rightarrow> client_segment \<Rightarrow> VAppEngine \<Rightarrow> VAppEngine" where
  "set_engine_seg Code seg e = e\<lparr>eng_code_seg := seg\<rparr>"
| "set_engine_seg Data seg e = e\<lparr>eng_data_seg := seg\<rparr>"
| "set_engine_seg Stack seg e = e\<lparr>eng_stack_seg := seg\<rparr>"

section \<open>Proofs that need more than one message\<close>

text \<open>The two loops that send the rest of a proof differ in the messages.\<close>

datatype proof_stream = GetPageProof | CommitPageProof

primrec stream_response :: "proof_stream \<Rightarrow> u8 \<Rightarrow> bytes list \<Rightarrow> bytes" where
  "stream_response GetPageProof t els =
     GetPageProofContinuedResponse_serialize (GetPageProofContinuedResponse_new t els)"
| "stream_response CommitPageProof t els =
     CommitPageProofContinuedResponse_serialize (CommitPageProofContinuedResponse_new t els)"

primrec stream_max :: "proof_stream \<Rightarrow> nat" where
  "stream_max GetPageProof = GetPageProofContinuedResponse_max_proof_size"
| "stream_max CommitPageProof = CommitPageProofContinuedResponse_max_proof_size"

primrec stream_check :: "proof_stream \<Rightarrow> bytes \<Rightarrow> (MessageDeserializationError, unit) result" where
  "stream_check GetPageProof bs = map_sum id (\<lambda>_. ()) (GetPageProofContinuedMessage_deserialize bs)"
| "stream_check CommitPageProof bs = map_sum id (\<lambda>_. ()) (CommitPageProofContinuedMessage_deserialize bs)"

lemma stream_max_value [simp]: "stream_max k = 18"
  by (cases k) (simp_all add: GetPageProofContinuedResponse_max_proof_size_def
      CommitPageProofContinuedResponse_max_proof_size_def MAX_APDU_DATA_SIZE_def)

text \<open>The body of the loop is entered with \<open>offset < proof.len()\<close>.\<close>

function send_rest_of_proof ::
  "'d client_io \<Rightarrow> proof_stream \<Rightarrow> bytes list \<Rightarrow> nat \<Rightarrow> ('d, StatusWord \<times> bytes) engine_m" where
  "send_rest_of_proof io k pr offset =
     (let remaining = length pr - offset;
          t = min remaining (stream_max k);
          response = stream_response k (of_nat t) (take t (drop offset pr))
      in bindS (exchange io (apdu_continue response)) (\<lambda>(new_status, new_result).
           if offset + t \<ge> length pr then returnS (new_status, new_result)
           else if new_status \<noteq> InterruptedExecution_sw then throwS InterruptedExecutionExpected
           else bindS (readE (stream_check k new_result)) (\<lambda>_. send_rest_of_proof io k pr (offset + t))))"
  by pat_completeness auto
termination
  by (relation "measure (\<lambda>(io, k, pr, offset). length pr - offset)") auto

declare send_rest_of_proof.simps [simp del]

section \<open>Serving pages\<close>

definition process_get_page :: "'d client_io \<Rightarrow> bytes \<Rightarrow> ('d, StatusWord \<times> bytes) engine_m" where
  "process_get_page io command =
     bindS (readE (GetPageMessage_deserialize command)) (\<lambda>msg (d, e).
       (let section_kind = gpm_section_kind msg; page_index = gpm_page_index msg in
        bindS (liftE (map_err EngineSegment (client_get_page (engine_seg section_kind e) page_index))) (\<lambda>(serialized_page, pr).
        if length serialized_page \<noteq> 1 + 12 + PAGE_SIZE then throwS (EnginePanicked ''assertion failed'')
        else
          let header = take 13 serialized_page; page = drop 13 serialized_page;
              is_encrypted = (header ! 0 \<noteq> 0); nonce = drop 1 header
          in case (section_kind, code_hmacs e) of
            (Code, Some hmacs) \<Rightarrow>
              if is_encrypted then throwS (ResponseError ''Code pages should not be encrypted'')
              else if nonce \<noteq> replicate 12 0 then throwS (ResponseError ''Code pages should have a null nonce'')
              else if length hmacs \<le> unat page_index then throwS (ResponseError ''Missing code-page HMAC'')
              else exchange io (apdu_continue (GetPageResponse_serialize
                (GetPageResponse_new page is_encrypted nonce 1 1 Hmac [hmacs ! unat page_index])))
          | _ \<Rightarrow>
              let t = (of_nat (min (length pr) GetPageResponse_max_proof_size) :: u8) in
              bindS (exchange io (apdu_continue (GetPageResponse_serialize
                (GetPageResponse_new page is_encrypted nonce (of_nat (length pr)) t Merkle (take (unat t) pr)))))
                (\<lambda>(status, result).
              if t < of_nat (length pr) then
                if status \<noteq> InterruptedExecution_sw \<or> result = [] then throwS InterruptedExecutionExpected
                else bindS (readE (GetPageProofContinuedMessage_deserialize result)) (\<lambda>_.
                  if unat t < length pr then send_rest_of_proof io GetPageProof pr (unat t)
                  else returnS (status, result))
              else returnS (status, result)))) (d, e))"

text \<open>Storing a page is an update of the engine, which an error leaves as it was.\<close>

definition store_in :: "(bytes \<Rightarrow> hash_output) \<Rightarrow> SectionKind \<Rightarrow> u32 \<Rightarrow> bytes \<Rightarrow> ('d, hash_output list \<times> hash_output) engine_m" where
  "store_in H kind page_index page = (\<lambda>(d, e).
     case client_store_page H page_index page (engine_seg kind e) of
       (seg, r) \<Rightarrow> ((d, set_engine_seg kind seg e), map_err EngineSegment r))"

definition process_commit_page ::
  "(bytes \<Rightarrow> hash_output) \<Rightarrow> 'd client_io \<Rightarrow> bytes \<Rightarrow> ('d, StatusWord \<times> bytes) engine_m" where
  "process_commit_page H io command =
     bindS (readE (CommitPageMessage_deserialize command)) (\<lambda>msg.
     if cpm_section_kind msg = Code then throwS AccessViolation
     else if \<not> cpm_is_encrypted msg then throwS (EnginePanicked ''assertion failed'')
     else
       let serialized_page = [1] @ cpm_nonce msg @ cpm_data msg in
       bindS (store_in H (cpm_section_kind msg) (cpm_page_index msg) serialized_page) (\<lambda>(pr, new_root).
       let t = (of_nat (min (length pr) CommitPageProofResponse_max_proof_size) :: u8) in
       bindS (exchange io (apdu_continue (CommitPageProofResponse_serialize
           (CommitPageProofResponse_new (of_nat (length pr)) t new_root (take (unat t) pr)))))
         (\<lambda>(status, result).
       if t < of_nat (length pr) \<and> status = InterruptedExecution_sw \<and> result \<noteq> [] then
         bindS (readE (CommitPageProofContinuedMessage_deserialize result)) (\<lambda>_.
           if unat t < length pr then send_rest_of_proof io CommitPageProof pr (unat t)
           else returnS (status, result))
       else returnS (status, result))))"

definition read_code :: "bytes \<Rightarrow> ('d, ClientCommandCode) engine_m" where
  "read_code result = liftE (map_err (\<lambda>_. InvalidCommandCode) (ClientCommandCode_try_from (result ! 0)))"

text \<open>
  The loop that serves requests for pages until something else comes. A V-App can keep it running forever, and
  then it is \<^const>\<open>None\<close>.
\<close>

partial_function (option) page_requests_loop ::
  "(bytes \<Rightarrow> hash_output) \<Rightarrow> 'd client_io \<Rightarrow> StatusWord \<times> bytes \<Rightarrow> 'd \<times> VAppEngine \<Rightarrow>
   (('d \<times> VAppEngine) \<times> (VAppEngineError, StatusWord \<times> bytes) result) option" where
  "page_requests_loop H io r s =
     (if fst r \<noteq> InterruptedExecution_sw \<or> length (snd r) = 0 then Some (s, Ok r)
      else case read_code (snd r) s of
        (s1, Inl e) \<Rightarrow> Some (s1, Err e)
      | (s1, Inr code) \<Rightarrow>
          if code = GetPage \<or> code = CommitPage then
            (case (if code = GetPage then process_get_page io (snd r) else process_commit_page H io (snd r)) s1 of
               (s2, Inl e) \<Rightarrow> Some (s2, Err e)
             | (s2, Inr r2) \<Rightarrow> page_requests_loop H io r2 s2)
          else Some (s1, Ok r))"

declare page_requests_loop.simps [code]

definition or_diverges ::
  "('d \<times> VAppEngine \<Rightarrow> (('d \<times> VAppEngine) \<times> (VAppEngineError, 'a) result) option) \<Rightarrow> ('d, 'a) engine_m" where
  "or_diverges f = (\<lambda>s. case f s of None \<Rightarrow> (s, Err EngineDiverged) | Some x \<Rightarrow> x)"

definition exchange_and_process_page_requests ::
  "(bytes \<Rightarrow> hash_output) \<Rightarrow> 'd client_io \<Rightarrow> APDUCommand \<Rightarrow> ('d, StatusWord \<times> bytes) engine_m" where
  "exchange_and_process_page_requests H io apdu =
     bindS (exchange io apdu) (\<lambda>r. or_diverges (page_requests_loop H io r))"

section \<open>Buffers from the V-App\<close>

text \<open>Chunks without data are accepted, so a V-App can keep this loop running, too.\<close>

partial_function (option) receive_chunks ::
  "(bytes \<Rightarrow> hash_output) \<Rightarrow> 'd client_io \<Rightarrow> u32 \<Rightarrow> bytes \<Rightarrow> 'd \<times> VAppEngine \<Rightarrow>
   (('d \<times> VAppEngine) \<times> (VAppEngineError, bytes) result) option" where
  "receive_chunks H io remaining_len buf s =
     (if remaining_len = 0 then Some (s, Ok buf)
      else case exchange_and_process_page_requests H io (apdu_continue []) s of
        (s1, Inl e) \<Rightarrow> Some (s1, Err e)
      | (s1, Inr (status, result)) \<Rightarrow>
          if status \<noteq> InterruptedExecution_sw then Some (s1, Err InterruptedExecutionExpected)
          else if length result = 0 then Some (s1, Err (ResponseError ''Empty response''))
          else (case SendBufferContinuedMessage_deserialize result of
            Inl e \<Rightarrow> Some (s1, Err (EngineDeserialization e))
          | Inr msg \<Rightarrow>
              if length (sbc_data msg) > unat remaining_len
              then Some (s1, Err (ResponseError ''Received total_size does not match expected''))
              else receive_chunks H io (remaining_len - of_nat (length (sbc_data msg))) (buf @ sbc_data msg) s1))"

declare receive_chunks.simps [code]

definition engine_receive_buffer ::
  "(bytes \<Rightarrow> hash_output) \<Rightarrow> 'd client_io \<Rightarrow> bytes \<Rightarrow> ('d, BufferType \<times> bytes) engine_m" where
  "engine_receive_buffer H io command =
     (case SendBufferMessage_deserialize command of
        None \<Rightarrow> throwS (EnginePanicked ''index out of bounds'')
      | Some r \<Rightarrow> bindS (readE r) (\<lambda>msg.
          if length (sbm_data msg) > unat (sbm_total_size msg)
          then throwS (ResponseError ''Received data length exceeds expected remaining length'')
          else bindS (or_diverges (receive_chunks H io
              (sbm_total_size msg - of_nat (length (sbm_data msg))) (sbm_data msg)))
            (\<lambda>buf. returnS (sbm_buffer_type msg, buf))))"

definition write_output :: "'d client_io \<Rightarrow> bytes \<Rightarrow> ('d, nat) engine_m" where
  "write_output io buf = (\<lambda>(d, e). case io_write io buf d of
     (d', r) \<Rightarrow> ((d', e), map_err EngineGenericError r))"

definition set_current :: "StatusWord \<times> bytes \<Rightarrow> ('d, unit) engine_m" where
  "set_current r = (\<lambda>(d, e). ((d, e\<lparr>current_status := fst r, current_result := snd r\<rparr>), Ok ()))"

definition process_send_buffer ::
  "(bytes \<Rightarrow> hash_output) \<Rightarrow> 'd client_io \<Rightarrow> bytes \<Rightarrow> ('d, VAppResponse option) engine_m" where
  "process_send_buffer H io command =
     bindS (engine_receive_buffer H io command) (\<lambda>(buffer_type, buf).
     bindS (case buffer_type of
         VAppMessage \<Rightarrow> returnS (Some (VMessage buf))
       | Panic \<Rightarrow> if valid_utf8 buf then returnS (Some (VPanic buf))
                  else throwS (EngineGenericError ''invalid utf-8 sequence'')
       | Print \<Rightarrow> bindS (write_output io buf) (\<lambda>_. returnS None)) (\<lambda>response.
     bindS (exchange_and_process_page_requests H io (apdu_continue [])) (\<lambda>r.
     bindS (set_current r) (\<lambda>_. returnS response))))"

section \<open>Buffers for the V-App\<close>

function send_chunks_of ::
  "(bytes \<Rightarrow> hash_output) \<Rightarrow> 'd client_io \<Rightarrow> bytes \<Rightarrow> nat \<Rightarrow> nat \<Rightarrow> ('d, StatusWord \<times> bytes) engine_m" where
  "send_chunks_of H io buf remaining_len offset =
     (let chunk_len = min remaining_len ReceiveBufferResponse_max_chunk_size;
          data = ReceiveBufferResponse_serialize
            (ReceiveBufferResponse_new (of_nat remaining_len) (take chunk_len (drop offset buf)))
      in bindS (exchange_and_process_page_requests H io (apdu_continue data)) (\<lambda>(status, result).
           if remaining_len - chunk_len = 0 then returnS (status, result)
           else if status \<noteq> InterruptedExecution_sw then throwS InterruptedExecutionExpected
           else if length result = 0 then throwS (ResponseError ''Empty response'')
           else bindS (readE (ReceiveBufferMessage_deserialize result)) (\<lambda>_.
             send_chunks_of H io buf (remaining_len - chunk_len) (offset + chunk_len))))"
  by pat_completeness auto
termination
  by (relation "measure (\<lambda>(H, io, buf, n, offset). n)")
    (auto simp: ReceiveBufferResponse_max_chunk_size_def MAX_APDU_DATA_SIZE_def)

declare send_chunks_of.simps [simp del]

text \<open>The pending buffer is taken, so the next request finds none.\<close>

definition take_pending :: "('d, bytes option) engine_m" where
  "take_pending = (\<lambda>(d, e). ((d, e\<lparr>pending_receive_buffer := None\<rparr>), Ok (pending_receive_buffer e)))"

definition engine_process_receive_buffer ::
  "(bytes \<Rightarrow> hash_output) \<Rightarrow> 'd client_io \<Rightarrow> bytes \<Rightarrow> ('d, StatusWord \<times> bytes) engine_m" where
  "engine_process_receive_buffer H io command =
     bindS (readE (ReceiveBufferMessage_deserialize command)) (\<lambda>_.
     bindS take_pending (\<lambda>pending.
     case pending of
       Some buf \<Rightarrow> send_chunks_of H io buf (length buf mod 2 ^ 32) 0
     | None \<Rightarrow> exchange_and_process_page_requests H io (apdu_continue
         (ReceiveBufferResponse_serialize (ReceiveBufferResponse_new 0 [])))))"

section \<open>The engine\<close>

definition engine_start :: "'d client_io \<Rightarrow> bytes option \<Rightarrow> ('d, unit) engine_m" where
  "engine_start io serialized_manifest =
     (case serialized_manifest of
        None \<Rightarrow> throwS (EngineGenericError ''postcard'')
      | Some m \<Rightarrow> bindS (exchange io (apdu_run_vapp m)) (\<lambda>(status, result).
          if status \<noteq> OK_sw \<and> status \<noteq> InterruptedExecution_sw
          then throwS (if status = SignatureFail_sw then AppNotRegistered else UnexpectedStatusWord status)
          else set_current (status, result)))"

definition engine_step :: "(bytes \<Rightarrow> hash_output) \<Rightarrow> 'd client_io \<Rightarrow> ('d, VAppResponse option) engine_m" where
  "engine_step H io = (\<lambda>(d, e).
     (let status = current_status e; result = current_result e in
      if status = OK_sw then
        if length result \<noteq> 4 then throwS (ResponseError ''The V-App should return a 4-byte exit code'')
        else returnS (Some (VExited (u32_from_be_bytes (result ! 0) (result ! 1) (result ! 2) (result ! 3))))
      else if status = VMRuntimeError_sw then throwS VMRuntimeError_e
      else if status = VAppPanic_sw then throwS VAppPanic_e
      else if status \<noteq> InterruptedExecution_sw then throwS InterruptedExecutionExpected
      else if result = [] then throwS (ResponseError ''empty command'')
      else bindS (read_code result) (\<lambda>code. case code of
          GetPage \<Rightarrow> bindS (process_get_page io result) (\<lambda>r. bindS (set_current r) (\<lambda>_. returnS None))
        | CommitPage \<Rightarrow> bindS (process_commit_page H io result) (\<lambda>r. bindS (set_current r) (\<lambda>_. returnS None))
        | SendBuffer \<Rightarrow> process_send_buffer H io result
        | ReceiveBuffer \<Rightarrow>
            bindS (engine_process_receive_buffer H io result) (\<lambda>r. bindS (set_current r) (\<lambda>_. returnS None))
        | _ \<Rightarrow> throwS (ResponseError ''Unexpected command''))) (d, e))"

partial_function (option) steps_to_message ::
  "(bytes \<Rightarrow> hash_output) \<Rightarrow> 'd client_io \<Rightarrow> 'd \<times> VAppEngine \<Rightarrow>
   (('d \<times> VAppEngine) \<times> (VAppEngineError, bytes) result) option" where
  "steps_to_message H io s =
     (case engine_step H io s of
        (s1, Inl e) \<Rightarrow> Some (s1, Err e)
      | (s1, Inr (Some (VMessage buf))) \<Rightarrow> Some (s1, Ok buf)
      | (s1, Inr (Some (VPanic msg))) \<Rightarrow> Some (s1, Err (EngineGenericError ''V-App panicked''))
      | (s1, Inr (Some (VExited status))) \<Rightarrow> Some (s1, Err (EngineGenericError ''V-App exited''))
      | (s1, Inr None) \<Rightarrow> steps_to_message H io s1)"

declare steps_to_message.simps [code]

definition engine_send_message :: "(bytes \<Rightarrow> hash_output) \<Rightarrow> 'd client_io \<Rightarrow> bytes \<Rightarrow> ('d, bytes) engine_m" where
  "engine_send_message H io message = (\<lambda>(d, e).
     or_diverges (steps_to_message H io) (d, e\<lparr>pending_receive_buffer := Some message\<rparr>))"

section \<open>The client\<close>

text \<open>\<open>GenericVanadiumClient\<close>: the commands it sends besides those of the engine.\<close>

datatype VanadiumClientError =
    ClientGenericError string
  | ClientTransportError string
  | AppInfoParsingError string
  | InvalidAppName bytes
  | VAppAlreadyRunning
  | VAppNotRunning

record AppInfo =
  ai_name :: bytes
  ai_version :: bytes
  ai_device_model :: bytes
  ai_vanadium_app_id :: bytes

text \<open>One string with its length before it: the string and the offset after it.\<close>

definition read_prefixed :: "string \<Rightarrow> bytes \<Rightarrow> nat \<Rightarrow> (VanadiumClientError, bytes \<times> nat) result" where
  "read_prefixed what result offset =
     (if offset \<ge> length result then Err (AppInfoParsingError ''Response too short'')
      else
        let n = unat (result ! offset); offset = offset + 1 in
        if offset + n > length result then Err (AppInfoParsingError ''Response too short'')
        else let s = take n (drop offset result) in
          if valid_utf8 s then Ok (s, offset + n)
          else Err (AppInfoParsingError (''Invalid UTF-8 in '' @ what)))"

definition parse_app_info :: "bytes \<Rightarrow> (VanadiumClientError, AppInfo) result" where
  "parse_app_info result =
     bindR (read_prefixed ''app name'' result 0) (\<lambda>(name, offset).
     bindR (read_prefixed ''version'' result offset) (\<lambda>(version, offset).
     bindR (read_prefixed ''device model'' result offset) (\<lambda>(device_model, offset).
     if offset \<ge> length result then Err (AppInfoParsingError ''Response too short'')
     else
       let n = unat (result ! offset); offset = offset + 1 in
       if n \<noteq> 32 then Err (AppInfoParsingError ''Invalid Vanadium app ID length'')
       else if offset + n > length result then Err (AppInfoParsingError ''Response too short'')
       else Ok \<lparr>ai_name = name, ai_version = version, ai_device_model = device_model,
                 ai_vanadium_app_id = take 32 (drop offset result)\<rparr>)))"

definition client_get_app_info :: "'d client_io \<Rightarrow> ('d, VanadiumClientError, AppInfo) stm" where
  "client_get_app_info io d =
     (case io_exchange io apdu_get_app_info d of
        (d', Inl _) \<Rightarrow> (d', Err (ClientTransportError ''exchange failed''))
      | (d', Inr (status, result)) \<Rightarrow>
          (d', if status \<noteq> OK_sw then Err (AppInfoParsingError ''Failed to get app info'') else parse_app_info result))"

text \<open>\<open>SyncVanadiumAppClient::new\<close>: the app at the other end has to be Vanadium.\<close>

definition client_connect :: "'d client_io \<Rightarrow> ('d, VanadiumClientError, unit) stm" where
  "client_connect io =
     bindS (client_get_app_info io) (\<lambda>app_info.
       if ai_name app_info \<noteq> ascii ''Vanadium'' then throwS (InvalidAppName (ai_name app_info)) else returnS ())"

definition client_register_vapp :: "'d client_io \<Rightarrow> bytes option \<Rightarrow> ('d, string, unit) stm" where
  "client_register_vapp io serialized_manifest d =
     (case serialized_manifest of
        None \<Rightarrow> (d, Err ''manifest serialization failed'')
      | Some m \<Rightarrow>
          (case io_exchange io (apdu_register_vapp m) d of
             (d', Inl _) \<Rightarrow> (d', Err ''exchange failed'')
           | (d', Inr (status, _)) \<Rightarrow>
               (d', if status = OK_sw then Ok ()
                    else if status = StoreFull_sw then Err ''App store is full''
                    else if status = Deny_sw then Err ''User denied registration''
                    else Err ''Failed to register vapp'')))"

text \<open>The segments an ELF file has; its parsing is not modelled.\<close>

record elf_segment =
  es_start :: u32
  es_end :: u32
  es_data :: bytes

text \<open>
  \<open>run_vapp\<close>: the engine that is made for a V-App, before \<open>start\<close>; \<^const>\<open>None\<close> is a panic of
  \<open>MemorySegment::new\<close>.
\<close>

definition run_vapp_engine ::
  "(bytes \<Rightarrow> hash_output) \<Rightarrow> Manifest \<Rightarrow> elf_segment \<Rightarrow> elf_segment \<Rightarrow> CodeHmacs option \<Rightarrow> VAppEngine option" where
  "run_vapp_engine H m code data hmacs =
     (case ClientSegment_new H (es_start code) (es_data code) of None \<Rightarrow> None | Some code_seg \<Rightarrow>
     (case ClientSegment_new H (es_start data) (es_data data) of None \<Rightarrow> None | Some data_seg \<Rightarrow>
     (case ClientSegment_new H (stack_start m) (replicate (unat (stack_end m - stack_start m)) 0) of
        None \<Rightarrow> None | Some stack_seg \<Rightarrow>
        Some \<lparr>eng_code_seg = code_seg, eng_data_seg = data_seg, eng_stack_seg = stack_seg,
          pending_receive_buffer = None, current_status = OK_sw, current_result = [], code_hmacs = hmacs\<rparr>)))"

text \<open>The roots that \<open>load_elf_and_manifest\<close> puts into the manifest of an ELF file without one.\<close>

definition manifest_roots ::
  "(bytes \<Rightarrow> hash_output) \<Rightarrow> elf_segment \<Rightarrow> elf_segment \<Rightarrow> u32 \<Rightarrow> u32 \<Rightarrow> (hash_output \<times> hash_output \<times> hash_output) option" where
  "manifest_roots H code data start e =
     (case ClientSegment_new H (es_start code) (es_data code) of None \<Rightarrow> None | Some code_seg \<Rightarrow>
     (case ClientSegment_new H (es_start data) (es_data data) of None \<Rightarrow> None | Some data_seg \<Rightarrow>
     (case ClientSegment_new H start (replicate (unat (e - start)) 0) of None \<Rightarrow> None | Some stack_seg \<Rightarrow>
        Some (get_content_root code_seg, get_content_root data_seg, get_content_root stack_seg))))"

section \<open>Preloading\<close>

definition client_leaf_hashes :: "(bytes \<Rightarrow> hash_output) \<Rightarrow> client_segment \<Rightarrow> nat \<Rightarrow> hash_output list option" where
  "client_leaf_hashes H code_seg n =
     those (map (\<lambda>i. case client_get_page code_seg (of_nat i) of
       Inl _ \<Rightarrow> None | Inr (serialized_page, _) \<Rightarrow> Some (hash_leaf H serialized_page)) [0..<n])"

text \<open>The VM can ask for batches forever.\<close>

partial_function (option) preload_batches ::
  "'d client_io \<Rightarrow> hash_output list \<Rightarrow> nat \<Rightarrow> nat \<Rightarrow> bytes list \<Rightarrow> 'd \<Rightarrow> ('d \<times> (string, bytes \<times> bytes list) result) option" where
  "preload_batches io leaf_hashes n offset hmacs d =
     (let batch_size = min GetCodePageHashesResponse_max_hashes (n - offset);
          response = GetCodePageHashesResponse_serialize
            (GetCodePageHashesResponse_new (of_nat batch_size) (take batch_size (drop offset leaf_hashes)))
      in case io_exchange io (apdu_continue response) d of
           (d1, Inl _) \<Rightarrow> Some (d1, Err ''exchange failed'')
         | (d1, Inr (status, result)) \<Rightarrow>
             if status = OK_sw then
               Some (d1, if length result \<noteq> 32 then Err ''expected a 32-byte decryption key in response''
                         else Ok (result, hmacs))
             else if status \<noteq> InterruptedExecution_sw then Some (d1, Err ''unexpected status word during preload'')
             else if result = [] then Some (d1, Err ''empty response from VM'')
             else (case ClientCommandCode_try_from (result ! 0) of
               Inl _ \<Rightarrow> Some (d1, Err ''invalid command code'')
             | Inr code \<Rightarrow>
                 if code \<noteq> GetCodePageHashesCode then Some (d1, Err ''unexpected command code during preload'')
                 else (case GetCodePageHashes_deserialize result of
                   Inl _ \<Rightarrow> Some (d1, Err ''failed to parse GetCodePageHashes'')
                 | Inr msg \<Rightarrow> preload_batches io leaf_hashes n (offset + batch_size)
                     (hmacs @ gch_prev_batch_enc_hmacs msg) d1)))"

declare preload_batches.simps [code]

definition unmask_hmacs :: "(bytes \<Rightarrow> hash_output) \<Rightarrow> bytes \<Rightarrow> bytes list \<Rightarrow> bytes list" where
  "unmask_hmacs H ephemeral_sk hmacs =
     map (\<lambda>i. map2 (XOR) (hmacs ! i) (compute_page_hmac_mask H ephemeral_sk (of_nat i))) [0..<length hmacs]"

text \<open>\<^const>\<open>None\<close> is a panic of \<open>MemorySegment::new\<close>, or a preloading that does not end.\<close>

definition client_preload_vapp ::
  "(bytes \<Rightarrow> hash_output) \<Rightarrow> 'd client_io \<Rightarrow> Manifest \<Rightarrow> bytes option \<Rightarrow> elf_segment \<Rightarrow> 'd \<Rightarrow>
   ('d \<times> (string, CodeHmacs) result) option" where
  "client_preload_vapp H io m serialized_manifest code d =
     (case serialized_manifest of None \<Rightarrow> Some (d, Err ''manifest serialization failed'') | Some sm \<Rightarrow>
     (case ClientSegment_new H (es_start code) (es_data code) of None \<Rightarrow> None | Some code_seg \<Rightarrow>
     (case checked_next_power_of_two64 (unat (n_code_pages m)) of
        None \<Rightarrow> Some (d, Err ''too many code pages'') | Some n \<Rightarrow>
     (case client_leaf_hashes H code_seg n of None \<Rightarrow> Some (d, Err ''failed to get code page'') | Some leaf_hashes \<Rightarrow>
     (case io_exchange io (apdu_preload_vapp sm) d of
        (d1, Inl _) \<Rightarrow> Some (d1, Err ''exchange failed'')
      | (d1, Inr (status, result)) \<Rightarrow>
          if status \<noteq> InterruptedExecution_sw
          then Some (d1, Err ''expected InterruptedExecution from preload APDU'')
          else (case GetCodePageHashes_deserialize result of
            Inl _ \<Rightarrow> Some (d1, Err ''failed to parse initial GetCodePageHashes'')
          | Inr _ \<Rightarrow> map_option (\<lambda>(d2, r). (d2, bindR r (\<lambda>(ephemeral_sk, hmacs).
              if length hmacs \<noteq> n then Err ''number of encrypted HMACs does not match number of code pages''
              else Ok (unmask_hmacs H ephemeral_sk hmacs)))) (preload_batches io leaf_hashes n 0 [] d1)))))))"

end
