(* ===== verification/Preload.thy ===== *)
theory Preload
  imports Vapp_Store Outsourced_Refines
begin

text \<open>
  The handlers of the VM that prepare the execution of a V-App: \<open>vm/src/handlers/register_vapp.rs\<close>,
  \<open>preload_vapp.rs\<close> and \<open>get_app_info.rs\<close>. Preloading receives the hashes of the code pages in batches and
  answers with tags, masked by a key that is released only if the hashes have the root of the manifest:
  so the tags a host can use are for the pages of the registered code.

  The decoder of the manifest is the \<open>postcard\<close> library, a parameter; a panic is \<^const>\<open>None\<close>.
\<close>

type_synonym parse_manifest = "bytes \<Rightarrow> (Manifest \<times> bytes) option"

section \<open>The manifest of a command\<close>

definition take_manifest :: "parse_manifest \<Rightarrow> bytes \<Rightarrow> (AppSW, Manifest) result" where
  "take_manifest parse data_raw =
     (case parse data_raw of
        None \<Rightarrow> Err IncorrectData
      | Some (manifest, rest) \<Rightarrow>
          if length rest \<noteq> 0 then Err IncorrectData
          else case manifest_validate manifest of Inl _ \<Rightarrow> Err IncorrectData | Inr _ \<Rightarrow> Ok manifest)"

section \<open>Registration\<close>

text \<open>\<open>approved\<close> is the answer of the user to the review of the manifest.\<close>

definition handler_register_vapp ::
  "parse_manifest \<Rightarrow> (bytes \<Rightarrow> hash_output) \<Rightarrow> (Manifest \<Rightarrow> bool) \<Rightarrow> bytes \<Rightarrow> vapp_store \<Rightarrow>
   (vapp_store \<times> (AppSW, bytes) result) option" where
  "handler_register_vapp parse H approved data_raw st =
     (case take_manifest parse data_raw of
        Inl e \<Rightarrow> Some (st, Err e)
      | Inr manifest \<Rightarrow>
          if \<not> approved manifest then Some (st, Err Deny)
          else map_option (\<lambda>(st', r). (st', case r of
              Inl StoreFull \<Rightarrow> Err StoreFullSW
            | Inl NameTooLong \<Rightarrow> Err IncorrectData
            | Inl VersionTooLong \<Rightarrow> Err IncorrectData
            | Inr _ \<Rightarrow> Ok [])) (store_register H manifest st))"

section \<open>Information on the application\<close>

definition length_prefixed :: "bytes \<Rightarrow> bytes" where
  "length_prefixed s = [of_nat (length s)] @ s"

definition handler_get_app_info ::
  "(bytes \<Rightarrow> bytes) \<Rightarrow> bytes \<Rightarrow> bytes \<Rightarrow> bytes \<Rightarrow> (AppSW, bytes) result" where
  "handler_get_app_info H auth_key version device_model =
     Ok (length_prefixed (ascii ''Vanadium'') @ length_prefixed version @ length_prefixed device_model
         @ [32] @ get_vanadium_app_id H auth_key)"

section \<open>Preloading\<close>

text \<open>One batch: the number of hashes received, the root computer and the masked tags.\<close>

fun preload_batch ::
  "'k crypto \<Rightarrow> bytes \<Rightarrow> bytes \<Rightarrow> bytes \<Rightarrow> hash_output list \<Rightarrow> nat \<times> root_computer \<times> bytes list \<Rightarrow>
   (AppSW, nat \<times> root_computer \<times> bytes list) result option" where
  "preload_batch cr app_auth_key vapp_hash sk [] s = Some (Ok s)"
| "preload_batch cr app_auth_key vapp_hash sk (page_hash # hs) (n, rc, response_data) =
     (let page_sk = compute_page_hmac_mask (sha256 cr) sk (of_nat n) in
      case compute_code_page_hmac (hmac_sha256 cr) app_auth_key vapp_hash (of_nat n) page_hash of
        Inl _ \<Rightarrow> Some (Err IncorrectData)
      | Inr hmac \<Rightarrow>
          (case rc_feed (sha256 cr) page_hash rc of
             None \<Rightarrow> None
           | Some rc' \<Rightarrow> preload_batch cr app_auth_key vapp_hash sk hs
               (n + 1, rc', response_data @ [map2 (XOR) hmac page_sk])))"

lemma preload_batch_counts:
  "preload_batch cr key h sk hs (n, rc, r) = Some (Inr (n', rc', r')) \<Longrightarrow> n' = n + length hs"
  by (induction cr key h sk hs "(n, rc, r)" arbitrary: n rc r rule: preload_batch.induct)
     (auto simp: Let_def split: sum.splits option.splits)

text \<open>
  The loop over the batches. \<open>data\<close> is the answer to the last request. The sum in the guard is in
  \<open>usize\<close>; it does not wrap, as the count of a batch is the number of hashes in one command.
\<close>

function preload_loop ::
  "'k crypto \<Rightarrow> bytes \<Rightarrow> bytes \<Rightarrow> bytes \<Rightarrow> nat \<Rightarrow> bytes \<Rightarrow> nat \<times> root_computer \<Rightarrow> ('k, 'z) world_scheme \<Rightarrow>
   (('k, 'z) world_scheme \<times> (AppSW, nat \<times> root_computer) result) option" where
  "preload_loop cr key vapp_hash sk rounded data (n, rc) w =
     (case GetCodePageHashesResponse_deserialize data of
        Inl _ \<Rightarrow> Some (w, Err IncorrectData)
      | Inr batch \<Rightarrow>
          if ghr_n_code_pages batch = 0 then Some (w, Ok (n, rc))
          else if n + unat (ghr_n_code_pages batch) > rounded then Some (w, Err IncorrectData)
          else (case preload_batch cr key vapp_hash sk (ghr_code_page_hashes batch) (n, rc, []) of
             None \<Rightarrow> None
           | Some (Inl e) \<Rightarrow> Some (w, Err e)
           | Some (Inr (n', rc', response_data)) \<Rightarrow>
               (case interrupt (GetCodePageHashes_serialize (GetCodePageHashes_new (of_nat n') response_data)) w of
                  (w', Inl _) \<Rightarrow> Some (w', Err IncorrectData)
                | (w', Inr data') \<Rightarrow>
                    preload_loop cr key vapp_hash sk rounded data' (n', rc') w')))"
  by pat_completeness auto
termination
proof (relation "measure (\<lambda>(cr, key, h, sk, rounded, data, (n, rc), w). rounded - n)", goal_cases)
  case (2 cr key h sk rounded data n rc w batch out x n' y rc' resp z w' data')
  then have "n' = n + length (ghr_code_page_hashes batch)"
    using preload_batch_counts [of cr key h sk "ghr_code_page_hashes batch" n rc "[]" n' rc' resp] by simp
  moreover have "GetCodePageHashesResponse_wf batch"
    by (rule get_code_hashes_response.des_wf [of data]) (use 2 in simp)
  moreover have "0 < unat (ghr_n_code_pages batch)" using 2 by (simp add: unat_gt_0)
  ultimately show ?case using 2 by (simp add: GetCodePageHashesResponse_wf_def)
qed simp

declare preload_loop.simps [simp del]

definition handler_preload_vapp ::
  "parse_manifest \<Rightarrow> 'k crypto \<Rightarrow> bytes \<Rightarrow> bytes \<Rightarrow> ('k, 'z) world_scheme \<Rightarrow>
   (('k, 'z) world_scheme \<times> (AppSW, bytes) result) option" where
  "handler_preload_vapp parse cr ephemeral_sk data_raw w =
     (case take_manifest parse data_raw of
        Inl e \<Rightarrow> Some (w, Err e)
      | Inr manifest \<Rightarrow>
          let vapp_hash = get_vapp_hash (sha256 cr) manifest;
              app_auth_key = get_vapp_auth_key (sha256 cr) (vm_auth_key cr) vapp_hash in
          (case interrupt (GetCodePageHashes_serialize (GetCodePageHashes_new 0 [])) w of
             (w1, Inl _) \<Rightarrow> Some (w1, Err IncorrectData)
           | (w1, Inr data) \<Rightarrow>
               (case checked_next_power_of_two (unat (n_code_pages manifest)) of
                  None \<Rightarrow> None
                | Some rounded \<Rightarrow>
                    (case RootComputer_new rounded of
                       None \<Rightarrow> None
                     | Some rc \<Rightarrow>
                         (case preload_loop cr app_auth_key vapp_hash ephemeral_sk rounded data (0, rc) w1 of
                            None \<Rightarrow> None
                          | Some (w2, Inl e) \<Rightarrow> Some (w2, Err e)
                          | Some (w2, Inr (n, rc')) \<Rightarrow>
                              if n \<noteq> rounded then Some (w2, Err IncorrectData)
                              else (case rc_root rc' of
                                 None \<Rightarrow> None
                               | Some computed_root \<Rightarrow>
                                   if computed_root \<noteq> code_merkle_root manifest
                                   then Some (w2, Err IncorrectData)
                                   else Some (w2, Ok ephemeral_sk)))))))"

section \<open>What is tagged\<close>

text \<open>A tag is issued for a page of a V-App when its HMAC is computed and sent, masked.\<close>

lemma preload_batch_feeds:
  "preload_batch cr key h sk hs (n, rc, r) = Some (Inr (n', rc', r')) \<Longrightarrow>
     feed_leaves (sha256 cr) hs rc = Some rc' \<and> n' = n + length hs \<and>
     (\<exists>tags. length tags = length hs \<and> r' = r @ tags \<and> (\<forall>i<length hs. \<exists>tag.
        hmac_sha256 cr key (page_hmac_message h (of_nat (n + i)) (hs ! i)) = Some tag \<and>
        tags ! i = map2 (XOR) tag (compute_page_hmac_mask (sha256 cr) sk (of_nat (n + i)))))"
proof (induction hs arbitrary: n rc r)
  case (Cons x hs)
  let ?mask = "\<lambda>n. compute_page_hmac_mask (sha256 cr) sk (of_nat n)"
  from Cons.prems obtain tag rc1 where step: "hmac_sha256 cr key (page_hmac_message h (of_nat n) x) = Some tag"
    "rc_feed (sha256 cr) x rc = Some rc1"
    "preload_batch cr key h sk hs (n + 1, rc1, r @ [map2 (XOR) tag (?mask n)]) = Some (Inr (n', rc', r'))"
    by (auto simp: Let_def compute_code_page_hmac_def split: option.splits)
  from Cons.IH [OF step(3)] obtain tags where IH: "feed_leaves (sha256 cr) hs rc1 = Some rc'" "n' = n + 1 + length hs"
    "length tags = length hs" "r' = (r @ [map2 (XOR) tag (?mask n)]) @ tags"
    "\<And>i. i < length hs \<Longrightarrow> \<exists>t. hmac_sha256 cr key (page_hmac_message h (of_nat (n + 1 + i)) (hs ! i)) = Some t \<and>
        tags ! i = map2 (XOR) t (?mask (n + 1 + i))"
    by blast
  let ?tags = "map2 (XOR) tag (?mask n) # tags"
  have all: "\<exists>t. hmac_sha256 cr key (page_hmac_message h (of_nat (n + i)) ((x # hs) ! i)) = Some t \<and>
      ?tags ! i = map2 (XOR) t (?mask (n + i))" if i: "i < length (x # hs)" for i
  proof (cases i)
    case 0
    then show ?thesis using step(1) by simp
  next
    case (Suc k)
    then show ?thesis using IH(5) [of k] i by simp
  qed
  show ?case
  proof (intro conjI exI [of _ ?tags])
    show "\<forall>i<length (x # hs). \<exists>t. hmac_sha256 cr key (page_hmac_message h (of_nat (n + i)) ((x # hs) ! i)) = Some t \<and>
      ?tags ! i = map2 (XOR) t (?mask (n + i))" using all by blast
  qed (use step(2) IH(1-4) in simp_all)
qed simp

lemma feed_leaves_append:
  "feed_leaves H (xs @ ys) rc = (case feed_leaves H xs rc of None \<Rightarrow> None | Some rc' \<Rightarrow> feed_leaves H ys rc')"
  by (induction xs arbitrary: rc) (auto split: option.splits)

text \<open>
  The hashes of code pages the host sends between two states of the connection: those of its answer to
  each message of the VM, as the VM decodes it.
\<close>

definition hashes_in :: "bytes \<Rightarrow> hash_output list" where
  "hashes_in data =
     (case GetCodePageHashesResponse_deserialize data of Inl _ \<Rightarrow> [] | Inr batch \<Rightarrow> ghr_code_page_hashes batch)"

definition hashes_received :: "('k, 'z) world_scheme \<Rightarrow> ('k, 'z) world_scheme \<Rightarrow> hash_output list" where
  "hashes_received w w' = concat (map (\<lambda>j. hashes_in (cmd_data (host w (take (Suc j) (sent w')))))
     [length (sent w)..<length (sent w')])"

lemma hashes_received_same [simp]: "hashes_received w w = []"
  by (simp add: hashes_received_def)

lemma hashes_received_step:
  assumes "interrupt msg w = (w1, Ok data)" "sent w' = sent w1 @ ms"
  shows "hashes_received w w' = hashes_in data @ hashes_received w1 w'"
proof -
  have w1: "w1 = w\<lparr>sent := sent w @ [msg]\<rparr>" using assms(1) by (rule interrupt_world)
  have "data = cmd_data (host w (sent w1))"
    using assms(1) by (auto simp: interrupt_def Let_def w1 split: sum.splits Instruction.splits if_splits)
  moreover have "[length (sent w)..<length (sent w')] = length (sent w) # [length (sent w1)..<length (sent w')]"
    using assms(2) by (subst upt_conv_Cons) (simp_all add: w1)
  ultimately show ?thesis using assms(2) by (simp add: hashes_received_def w1 del: upt_Suc)
qed

text \<open>The masked tags of a list of page hashes, from page \<open>n\<close> on.\<close>

definition masked_tags ::
  "'k crypto \<Rightarrow> bytes \<Rightarrow> bytes \<Rightarrow> bytes \<Rightarrow> nat \<Rightarrow> hash_output list \<Rightarrow> bytes list \<Rightarrow> bool" where
  "masked_tags cr key h sk n hs tags \<longleftrightarrow> length tags = length hs \<and> (\<forall>i<length hs. \<exists>tag.
     compute_code_page_hmac (hmac_sha256 cr) key h (of_nat (n + i)) (hs ! i) = Ok tag \<and>
     tags ! i = map2 (XOR) tag (compute_page_hmac_mask (sha256 cr) sk (of_nat (n + i))))"

lemma masked_tags_append:
  assumes "masked_tags cr key h sk n hs tags" "masked_tags cr key h sk (n + length hs) hs' tags'"
  shows "masked_tags cr key h sk n (hs @ hs') (tags @ tags')"
proof -
  let ?P = "\<lambda>k x y. \<exists>tag. compute_code_page_hmac (hmac_sha256 cr) key h (of_nat k) x = Ok tag \<and>
     y = map2 (XOR) tag (compute_page_hmac_mask (sha256 cr) sk (of_nat k))"
  have l: "length tags = length hs" "length tags' = length hs'"
    and p: "\<And>i. i < length hs \<Longrightarrow> ?P (n + i) (hs ! i) (tags ! i)"
      "\<And>i. i < length hs' \<Longrightarrow> ?P (n + length hs + i) (hs' ! i) (tags' ! i)"
    using assms by (simp_all add: masked_tags_def)
  have "?P (n + i) ((hs @ hs') ! i) ((tags @ tags') ! i)" if i: "i < length (hs @ hs')" for i
  proof (cases "i < length hs")
    case True
    then show ?thesis using p(1) [of i] l by (simp add: nth_append)
  next
    case False
    then have "n + length hs + (i - length hs) = n + i" "i - length hs < length hs'" using i by auto
    with p(2) [of "i - length hs"] False l show ?thesis by (simp add: nth_append)
  qed
  with l show ?thesis by (simp add: masked_tags_def)
qed

definition crypto_lengths :: "'k crypto \<Rightarrow> bool" where
  "crypto_lengths cr \<longleftrightarrow> hash_len (sha256 cr) \<and> (\<forall>k m tag. hmac_sha256 cr k m = Some tag \<longrightarrow> length tag = 32)"

lemma masked_tags_length:
  assumes "crypto_lengths cr" "masked_tags cr key h sk n hs tags"
  shows "arrays32 tags"
proof -
  have "length (tags ! i) = 32" if "i < length tags" for i
  proof -
    obtain tag where "hmac_sha256 cr key (page_hmac_message h (of_nat (n + i)) (hs ! i)) = Some tag"
      "tags ! i = map2 (XOR) tag (compute_page_hmac_mask (sha256 cr) sk (of_nat (n + i)))"
      using assms(2) \<open>i < length tags\<close>
      by (auto simp: masked_tags_def compute_code_page_hmac_def split: option.splits)
    with assms(1) show ?thesis
      by (simp add: crypto_lengths_def hash_len_def compute_page_hmac_mask_def)
  qed
  then show ?thesis unfolding arrays32_def by (metis in_set_conv_nth)
qed

text \<open>
  The loop: it feeds the root computer with the hashes in the data at hand and those the host sends, and
  sends their masked tags, in order, in well-formed messages.
\<close>

lemma preload_loop_tags:
  assumes "preload_loop cr key h sk N data (n, rc) w = Some (w', Inr (n', rc'))" "crypto_lengths cr"
  shows "\<exists>ms. sent w' = sent w @ map GetCodePageHashes_serialize ms \<and> (\<forall>m\<in>set ms. GetCodePageHashes_wf m) \<and>
    n' = n + length (hashes_in data @ hashes_received w w') \<and>
    feed_leaves (sha256 cr) (hashes_in data @ hashes_received w w') rc = Some rc' \<and>
    arrays32 (hashes_in data @ hashes_received w w') \<and>
    masked_tags cr key h sk n (hashes_in data @ hashes_received w w') (concat (map gch_prev_batch_enc_hmacs ms))"
  using assms
proof (induction cr key h sk N data "(n, rc)" w arbitrary: n rc rule: preload_loop.induct)
  case (1 cr key h sk N data n rc w)
  obtain batch where b: "GetCodePageHashesResponse_deserialize data = Ok batch"
    using 1(2) by (auto simp: preload_loop.simps [of cr key h sk N data] split: sum.splits)
  have wf: "GetCodePageHashesResponse_wf batch"
    by (rule get_code_hashes_response.des_wf [of data]) (simp add: b)
  have data: "hashes_in data = ghr_code_page_hashes batch" by (simp add: hashes_in_def b)
  show ?case
  proof (cases "ghr_n_code_pages batch = 0")
    case True
    then have "hashes_in data = []" using wf data by (simp add: GetCodePageHashesResponse_wf_def)
    moreover have "w' = w" "n' = n" "rc' = rc"
      using True 1(2) b by (simp_all add: preload_loop.simps [of cr key h sk N data])
    ultimately show ?thesis by (intro exI [of _ "[]"]) (simp add: arrays32_def masked_tags_def)
  next
    case False
    let ?hs = "ghr_code_page_hashes batch"
    from 1(2) b False obtain n1 rc1 r1 w1 data1 where le: "\<not> n + unat (ghr_n_code_pages batch) > N"
      and batch: "preload_batch cr key h sk ?hs (n, rc, []) = Some (Inr (n1, rc1, r1))"
      and int: "interrupt (GetCodePageHashes_serialize (GetCodePageHashes_new (of_nat n1) r1)) w = (w1, Ok data1)"
      and rest: "preload_loop cr key h sk N data1 (n1, rc1) w1 = Some (w', Inr (n', rc'))"
      by (auto simp: preload_loop.simps [of cr key h sk N data] split: if_splits option.splits sum.splits prod.splits)
    let ?m = "GetCodePageHashes_new (of_nat n1) r1" and ?hs1 = "hashes_in data1 @ hashes_received w1 w'"
    from 1(1) [OF b False le batch refl refl refl int [symmetric] refl rest 1(3)]
    obtain ms where IH: "sent w' = sent w1 @ map GetCodePageHashes_serialize ms" "\<forall>m\<in>set ms. GetCodePageHashes_wf m"
      "n' = n1 + length ?hs1" "feed_leaves (sha256 cr) ?hs1 rc1 = Some rc'" "arrays32 ?hs1"
      "masked_tags cr key h sk n1 ?hs1 (concat (map gch_prev_batch_enc_hmacs ms))" by blast
    have fed: "feed_leaves (sha256 cr) ?hs rc = Some rc1" "n1 = n + length ?hs" "masked_tags cr key h sk n ?hs r1"
      using preload_batch_feeds [OF batch] by (auto simp: masked_tags_def compute_code_page_hmac_def)
    have hs: "hashes_in data @ hashes_received w w' = ?hs @ ?hs1"
      by (simp add: data hashes_received_step [OF int IH(1)])
    show ?thesis
    proof (intro exI [of _ "?m # ms"] conjI)
      show "sent w' = sent w @ map GetCodePageHashes_serialize (?m # ms)"
        using IH(1) interrupt_world [OF int] by simp
      show "\<forall>m\<in>set (?m # ms). GetCodePageHashes_wf m"
        using IH(2) masked_tags_length [OF 1(3) fed(3)] by (simp add: GetCodePageHashes_wf_def GetCodePageHashes_new_def)
      show "masked_tags cr key h sk n (hashes_in data @ hashes_received w w') (concat (map gch_prev_batch_enc_hmacs (?m # ms)))"
        using masked_tags_append [OF fed(3)] IH(6) fed(2) by (simp add: hs GetCodePageHashes_new_def)
      show "arrays32 (hashes_in data @ hashes_received w w')"
        using IH(5) wf unfolding hs arrays32_def GetCodePageHashesResponse_wf_def by auto
    qed (use IH(3,4) fed in \<open>simp_all add: hs feed_leaves_append\<close>)
  qed
qed

lemma RootComputer_feed_root:
  assumes "hash_len H" "arrays32 ls" "RootComputer_new (length ls) = Some rc" "feed_leaves H ls rc = Some rc'"
  shows "rc_root rc' = Some (tree_over H ls ! 0) \<and> tree_ok H (length ls) (tree_over H ls) \<and>
    leaves (length ls) (tree_over H ls) = ls"
proof -
  have ls: "ls \<noteq> []" "is_power_of_two (length ls)" "\<forall>l\<in>set ls. length l = 32"
    using assms(2,3) by (auto simp: RootComputer_new_def arrays32_def split: if_splits)
  note tree = tree_over_ok [OF assms(1) ls(1,3)]
  from feed_leaves_root [OF tree(1) ls(2)] assms(3,4) tree show ?thesis by auto
qed

lemma handler_preload_Ok:
  assumes run: "handler_preload_vapp parse cr sk data_raw w = Some (w', Ok key)"
    and parsed: "take_manifest parse data_raw = Ok m"
  obtains w1 data N rc rc' where "checked_next_power_of_two (unat (n_code_pages m)) = Some N"
    "RootComputer_new N = Some rc" "rc_root rc' = Some (code_merkle_root m)"
    "interrupt (GetCodePageHashes_serialize (GetCodePageHashes_new 0 [])) w = (w1, Ok data)"
    "preload_loop cr (get_vapp_auth_key (sha256 cr) (vm_auth_key cr) (get_vapp_hash (sha256 cr) m))
       (get_vapp_hash (sha256 cr) m) sk N data (0, rc) w1 = Some (w', Inr (N, rc'))"
    "key = sk"
proof -
  let ?h = "get_vapp_hash (sha256 cr) m"
  let ?loop = "preload_loop cr (get_vapp_auth_key (sha256 cr) (vm_auth_key cr) ?h) ?h sk"
  note def = run [unfolded handler_preload_vapp_def parsed sum.case Let_def]
  obtain w1 r where int: "interrupt (GetCodePageHashes_serialize (GetCodePageHashes_new 0 [])) w = (w1, r)"
    by fastforce
  note def0 = def [unfolded int prod.case]
  obtain data where r: "r = Ok data"
  proof (cases r)
    case (Inl e)
    from def0 show ?thesis unfolding Inl sum.case by simp
  qed
  note def1 = def0 [unfolded r sum.case]
  obtain N where N: "checked_next_power_of_two (unat (n_code_pages m)) = Some N"
    using def1 by (cases "checked_next_power_of_two (unat (n_code_pages m))") simp_all
  obtain rc where rc: "RootComputer_new N = Some rc"
    using def1 N by (cases "RootComputer_new N") simp_all
  note def2 = def1 [unfolded N rc option.case]
  obtain w2 out where loop: "?loop N data (0, rc) w1 = Some (w2, out)"
    using def2 by (cases "?loop N data (0, rc) w1") auto
  obtain n rc' where out: "out = Ok (n, rc')"
    using def2 loop by (cases out) auto
  note def3 = def2 [unfolded loop out option.case prod.case sum.case]
  have n: "n = N" using def3 by (simp split: if_splits)
  obtain root where root: "rc_root rc' = Some root" using def3 n by (cases "rc_root rc'") simp_all
  have "root = code_merkle_root m \<and> w2 = w' \<and> key = sk"
    using def3 n root by (simp split: if_splits)
  with root loop out n int r show ?thesis by (intro that [OF N rc]) simp_all
qed

text \<open>
  C34: (preloading) Suppose preloading releases the key. Then every message it sent is a well-formed
  \<open>GetCodePageHashes\<close>, and the encrypted tags in these messages, one after the other, are as many as the
  pages of the code of the manifest (rounded up to a power of two). Unmasking tag \<open>i\<close> with the released key gives the
  tag, under the V-App's authentication key and hash, of page \<open>i\<close> and leaf \<open>i\<close> of any tree with the
  code root of the manifest, unless two of the named messages (the nodes of that tree and of the tree over
  the hashes the host sent) have the same SHA-256 hash: the host obtains the tags of the pages of the
  registered code, each at its index, and no others.
\<close>

theorem preload_tags_code_pages:
  fixes cr :: "'k crypto" and w w' :: "('k, 'z) world_scheme"
  defines "H \<equiv> sha256 cr"
  assumes "crypto_lengths cr"
    and run: "handler_preload_vapp parse cr sk data_raw w = Some (w', Ok key)"
    and parsed: "take_manifest parse data_raw = Ok m"
    and t: "checked_next_power_of_two (unat (n_code_pages m)) = Some N" "tree_ok H N t" "t ! 0 = code_merkle_root m"
    and inj: "inj_on H (set (tree_messages N t) \<union> set (tree_messages N (tree_over H (hashes_received w w'))))"
  shows "\<exists>ms. sent w' = sent w @ map GetCodePageHashes_serialize ms \<and> (\<forall>m\<in>set ms. GetCodePageHashes_wf m) \<and>
    (let tags = concat (map gch_prev_batch_enc_hmacs ms); h = get_vapp_hash H m
     in length tags = N \<and> (\<forall>i<N.
       compute_code_page_hmac (hmac_sha256 cr) (get_vapp_auth_key H (vm_auth_key cr) h) h (of_nat i) (leaves N t ! i)
         = Ok (map2 (XOR) (tags ! i) (compute_page_hmac_mask H key (of_nat i)))))"
proof -
  let ?h = "get_vapp_hash H m"
  let ?k = "get_vapp_auth_key H (vm_auth_key cr) ?h" and ?hs = "hashes_received w w'"
  from handler_preload_Ok [OF run parsed] obtain w1 data N0 rc rc' where
    N0: "checked_next_power_of_two (unat (n_code_pages m)) = Some N0" and rc: "RootComputer_new N0 = Some rc"
    and root: "rc_root rc' = Some (code_merkle_root m)"
    and int: "interrupt (GetCodePageHashes_serialize (GetCodePageHashes_new 0 [])) w = (w1, Ok data)"
    and loop: "preload_loop cr ?k ?h sk N0 data (0, rc) w1 = Some (w', Inr (N0, rc'))"
    and key: "key = sk" unfolding H_def by metis
  have N: "N0 = N" using N0 t(1) by simp
  let ?m = "GetCodePageHashes_new 0 []"
  from preload_loop_tags [OF loop assms(2)] obtain ms where
    ms: "sent w' = sent w1 @ map GetCodePageHashes_serialize ms" "\<forall>m\<in>set ms. GetCodePageHashes_wf m"
    and fed: "N = length (hashes_in data @ hashes_received w1 w')"
      "feed_leaves H (hashes_in data @ hashes_received w1 w') rc = Some rc'"
      "arrays32 (hashes_in data @ hashes_received w1 w')"
    and tags: "masked_tags cr ?k ?h sk 0 (hashes_in data @ hashes_received w1 w') (concat (map gch_prev_batch_enc_hmacs ms))"
    unfolding N H_def by auto
  note hs = hashes_received_step [OF int ms(1), symmetric]
  have H: "hash_len H" using assms(2) by (simp add: crypto_lengths_def H_def)
  have "RootComputer_new (length ?hs) = Some rc" using rc fed(1) N by (simp add: hs)
  note made = RootComputer_feed_root [OF H fed(3) [unfolded hs] this fed(2) [unfolded hs]]
  have tree: "tree_over H ?hs ! 0 = code_merkle_root m" "tree_ok H N (tree_over H ?hs)"
    "leaves N (tree_over H ?hs) = ?hs"
    using made fed(1) root N by (simp_all add: hs)
  have "t = tree_over H ?hs" by (rule tree_unique [OF t(2) tree(2) _ inj]) (simp add: t(3) tree(1))
  then have leaves: "leaves N t = ?hs" using tree(3) by simp
  have unmask: "compute_code_page_hmac (hmac_sha256 cr) ?k ?h (of_nat i) (?hs ! i)
      = Ok (map2 (XOR) (concat (map gch_prev_batch_enc_hmacs ms) ! i) (compute_page_hmac_mask H sk (of_nat i)))"
    if i: "i < N" for i
  proof -
    obtain tag where tag: "compute_code_page_hmac (hmac_sha256 cr) ?k ?h (of_nat i) (?hs ! i) = Ok tag"
      "concat (map gch_prev_batch_enc_hmacs ms) ! i = map2 (XOR) tag (compute_page_hmac_mask H sk (of_nat i))"
      using tags i fed(1) unfolding hs masked_tags_def H_def by auto
    have "length tag = 32"
      using tag(1) assms(2) by (auto simp: crypto_lengths_def compute_code_page_hmac_def split: option.splits)
    moreover have "length (compute_page_hmac_mask H sk (of_nat i)) = 32"
      using H by (simp add: compute_page_hmac_mask_def hash_len_def)
    ultimately show ?thesis using tag by (simp add: map2_xor_twice)
  qed
  show ?thesis
  proof (intro exI [of _ "?m # ms"] conjI)
    show "sent w' = sent w @ map GetCodePageHashes_serialize (?m # ms)"
      using ms(1) interrupt_world [OF int] by simp
    show "\<forall>m\<in>set (?m # ms). GetCodePageHashes_wf m"
      using ms(2) by (simp add: GetCodePageHashes_wf_def GetCodePageHashes_new_def arrays32_def)
  qed (use tags unmask fed(1) hs leaves key in \<open>simp add: masked_tags_def GetCodePageHashes_new_def\<close>)
qed

definition preload_crypto :: "u8 crypto" where
  "preload_crypto = toy_crypto\<lparr>hmac_sha256 := (\<lambda>key message. Some (toy_hash message))\<rparr>"

definition preload_hashes :: "hash_output list" where
  "preload_hashes = [replicate 31 4 @ [1], replicate 31 5 @ [2]]"

definition preload_manifest :: Manifest where
  "preload_manifest = sample_manifest\<lparr>code_merkle_root := tree_over toy_hash preload_hashes ! 0\<rparr>"

definition preload_world :: "u8 world" where
  "preload_world = \<lparr>host = (\<lambda>sent. \<lparr>cmd_ins = 0xff, cmd_p1 = 0, cmd_p2 = 0, cmd_data =
       (if length sent = 1 then GetCodePageHashesResponse_serialize (GetCodePageHashesResponse_new 2 preload_hashes)
        else GetCodePageHashesResponse_serialize (GetCodePageHashesResponse_new 0 []))\<rparr>),
     sent = [], aes_ctr = AesCtr_new 5\<rparr>"

lemma preload_run:
  "case handler_preload_vapp (\<lambda>_. Some (preload_manifest, [])) preload_crypto (replicate 32 8) [] preload_world of
     Some (w', r) \<Rightarrow> r = Ok (replicate 32 8) \<and> hashes_received preload_world w' = preload_hashes
   | None \<Rightarrow> False"
  by code_simp

theorem preload_tags_code_pages_witness:
  "\<exists>w' ms. handler_preload_vapp (\<lambda>_. Some (preload_manifest, [])) preload_crypto (replicate 32 8) [] preload_world
       = Some (w', Ok (replicate 32 8)) \<and>
     sent w' = map GetCodePageHashes_serialize ms \<and> length (concat (map gch_prev_batch_enc_hmacs ms)) = 2 \<and>
     (let h = get_vapp_hash toy_hash preload_manifest
      in compute_code_page_hmac (hmac_sha256 preload_crypto) (get_vapp_auth_key toy_hash (replicate 32 3) h) h 1
           (replicate 31 5 @ [2])
         = Ok (map2 (XOR) (concat (map gch_prev_batch_enc_hmacs ms) ! 1)
             (compute_page_hmac_mask toy_hash (replicate 32 8) 1)))"
proof -
  let ?t = "tree_over toy_hash preload_hashes"
  have cr: "sha256 preload_crypto = toy_hash" "vm_auth_key preload_crypto = replicate 32 3" "crypto_lengths preload_crypto"
    using toy_hash_len by (auto simp: preload_crypto_def toy_crypto_def crypto_lengths_def hash_len_def)
  obtain w' where run: "handler_preload_vapp (\<lambda>_. Some (preload_manifest, [])) preload_crypto (replicate 32 8) [] preload_world
     = Some (w', Ok (replicate 32 8))" and recv: "hashes_received preload_world w' = preload_hashes"
    using preload_run by (auto split: option.splits)
  have two: "length preload_hashes = 2" "preload_hashes \<noteq> []" "\<forall>l\<in>set preload_hashes. length l = 32"
    by (simp_all add: preload_hashes_def)
  note made = tree_over_ok [OF toy_hash_len two(2,3), unfolded two(1)]
  have valid: "manifest_validate preload_manifest = Ok ()"
    using sample_manifest_valid unfolding validate_Ok by (simp add: preload_manifest_def)
  have pages: "n_code_pages preload_manifest = 2"
    by (simp add: n_code_pages_def pages_between_def page_start_def PAGE_SIZE_def preload_manifest_def sample_manifest_def)
  have single: "tree_messages 2 ?t = [node_message (?t ! 1) (?t ! 2)]"
    by (simp add: tree_messages_def upt_rec flip: numeral_2_eq_2)
  have N: "checked_next_power_of_two (unat (n_code_pages preload_manifest)) = Some 2"
    unfolding pages by (simp add: checked_next_power_of_two_def next_power_of_two.simps)
  have inj: "inj_on toy_hash (set (tree_messages 2 ?t) \<union> set (tree_messages 2 (tree_over toy_hash (hashes_received preload_world w'))))"
    unfolding recv single by simp
  have taken: "take_manifest (\<lambda>_. Some (preload_manifest, [])) [] = Ok preload_manifest"
    using valid by (simp add: take_manifest_def)
  have root: "?t ! 0 = code_merkle_root preload_manifest" by (simp add: preload_manifest_def)
  have leaf: "leaves 2 ?t ! 1 = replicate 31 5 @ [2]" using made(2) by (simp add: preload_hashes_def)
  have "sent preload_world = []" "(1 :: nat) < 2" by (simp_all add: preload_world_def)
  then show ?thesis
    using preload_tags_code_pages [OF cr(3) run taken N, unfolded cr(1), OF made(1) root inj] run leaf
    unfolding cr(1,2) Let_def by (metis append_Nil of_nat_1)
qed

end
