(* ===== verification/Ecall.thy ===== *)
theory Ecall
  imports Cpu Vapp_Store Outsourced_Mem
begin

text \<open>
  The system calls of the VM (\<open>vm/src/handlers/lib/ecall.rs\<close>), as an \<open>EcallHandler\<close> of the processor:
  exchange of buffers with the host, persistent storage, big numbers, hashes, random bytes, events and
  device properties. \<open>Ecall_Crypto\<close> has the calls for keys, curves and signatures, \<open>Ecall_Dispatch\<close> those
  for the display and the dispatch. The cryptographic primitives are functions of the device's SDK and
  are parameters.
\<close>

section \<open>State, errors and parameters\<close>

text \<open>
  The device: the world of the connection and the page encryption, the registry in non-volatile memory,
  the random source with the number of bytes drawn, and the event that was stored last.
\<close>

record 'k device = "'k world" +
  nvram :: vapp_store
  random_source :: "nat \<Rightarrow> u8"
  random_used :: nat
  last_event :: "(u32 \<times> bytes) option"

datatype LedgerHashContextError = InvalidHashId | UnsupportedHashId

text \<open>
  \<open>CommCpuError\<close> keeps the error where the source keeps its debug rendering. The last two constructors
  are not in the source: a panic, and a loop that does not return.
\<close>

datatype CommEcallError =
    Exit u32
  | CommPanic
  | InvalidParameters string
  | CommGenericError string
  | CommOverflow
  | HashError LedgerHashContextError
  | MessageError MessageDeserializationError
  | CommInvalidResponse string
  | CommCpuError "unit cpu_error"
  | CommMemoryError memory_error
  | CommInterruptError InterruptError
  | UnhandledEcall
  | CommPanicked string
  | CommDiverged

record CommEcallHandler =
  eh_vapp_hash :: bytes
  eh_n_storage_slots :: u32

record device_props =
  PRODUCT_ID :: u16
  SCREEN_WIDTH :: u16
  SCREEN_HEIGHT :: u16

record sdk =
  sizeof_ripemd160 :: nat
  sizeof_sha256 :: nat
  sizeof_sha512 :: nat
  sizeof_sha3 :: nat
  cx_math_modm :: "bytes \<Rightarrow> bytes \<Rightarrow> bytes option"
  cx_math_addm :: "bytes \<Rightarrow> bytes \<Rightarrow> bytes \<Rightarrow> bytes option"
  cx_math_subm :: "bytes \<Rightarrow> bytes \<Rightarrow> bytes \<Rightarrow> bytes option"
  cx_math_multm :: "bytes \<Rightarrow> bytes \<Rightarrow> bytes \<Rightarrow> bytes option"
  cx_math_powm :: "bytes \<Rightarrow> bytes \<Rightarrow> bytes \<Rightarrow> bytes option"
  cx_math_invprimem :: "bytes \<Rightarrow> bytes \<Rightarrow> bytes option"
  cx_hash_init_ex :: "bytes \<Rightarrow> u8 \<Rightarrow> nat \<Rightarrow> bytes option"
  cx_hash_update :: "bytes \<Rightarrow> bytes \<Rightarrow> bytes option"
  cx_hash_final :: "bytes \<Rightarrow> bytes option"

type_synonym ('k, 'm, 'a) ecall_m = "('k device \<times> 'm cpu, CommEcallError, 'a) stm"

section \<open>Error conversion\<close>

text \<open>\<open>map_err\<close> with a fixed error; a panic or a loop that does not return is not an error value.\<close>

fun crashed :: "CommEcallError \<Rightarrow> bool" where
  "crashed (CommPanicked _) = True"
| "crashed CommDiverged = True"
| "crashed (CommMemoryError (Panicked _)) = True"
| "crashed (CommMemoryError Diverged) = True"
| "crashed _ = False"

definition or_generic :: "string \<Rightarrow> ('k, 'm, 'a) ecall_m \<Rightarrow> ('k, 'm, 'a) ecall_m" where
  "or_generic message m = (\<lambda>s. case m s of
     (s', res) \<Rightarrow> (s', map_err (\<lambda>e. if crashed e then e else CommGenericError message) res))"

section \<open>Access to the V-App's memory\<close>

definition guest_segment :: "u32 \<Rightarrow> ('k, 'm, seg_id) ecall_m" where
  "guest_segment ptr = (\<lambda>(w, c). case get_segment c ptr of
     Inl e \<Rightarrow> ((w, c), Err (CommCpuError e)) | Inr i \<Rightarrow> ((w, c), Ok i))"

definition guest_on ::
  "seg_id \<Rightarrow> ('k device \<times> 'm MemorySegment, memory_error, 'a) stm \<Rightarrow> ('k, 'm, 'a) ecall_m" where
  "guest_on i m = (\<lambda>(w, c).
     case m (w, the_seg i c) of
       ((w', s'), Inl e) \<Rightarrow> ((w', put_seg i s' c), Err (CommMemoryError e))
     | ((w', s'), Inr v) \<Rightarrow> ((w', put_seg i s' c), Ok v))"

definition guest_read :: "('k device, 'm, 'r) PagedMemory \<Rightarrow> u32 \<Rightarrow> nat \<Rightarrow> ('k, 'm, bytes) ecall_m" where
  "guest_read pm ptr len = bindS (guest_segment ptr) (\<lambda>i. guest_on i (read_buffer pm ptr len))"

definition guest_write :: "('k device, 'm, 'r) PagedMemory \<Rightarrow> u32 \<Rightarrow> bytes \<Rightarrow> ('k, 'm, unit) ecall_m" where
  "guest_write pm ptr data = bindS (guest_segment ptr) (\<lambda>i. guest_on i (write_buffer pm ptr data))"

definition ask :: "bytes \<Rightarrow> ('k, 'm, bytes) ecall_m" where
  "ask message = (\<lambda>(w, c). case interrupt message w of
     (w', res) \<Rightarrow> ((w', c), map_err CommInterruptError res))"

section \<open>Buffers\<close>

text \<open>The message for a chunk; \<open>SendBufferMessage::new\<close> panics if the data exceeds the total size.\<close>

definition chunk_message :: "bool \<Rightarrow> u32 \<Rightarrow> BufferType \<Rightarrow> bytes \<Rightarrow> bytes option" where
  "chunk_message first_chunk total_size buffer_type data =
     (if first_chunk then map_option SendBufferMessage_serialize (SendBufferMessage_new total_size buffer_type data)
      else Some (SendBufferContinuedMessage_serialize (SendBufferContinuedMessage_new data)))"

definition ask_opt :: "bytes option \<Rightarrow> ('k, 'm, bytes) ecall_m" where
  "ask_opt message = (case message of
     None \<Rightarrow> throwS (CommPanicked ''data exceeds the total size'') | Some message \<Rightarrow> ask message)"

text \<open>The loop of \<open>handle_send_buffer\<close>; it always sends from the segment of the first byte.\<close>

function send_chunks ::
  "('k device, 'm, 'r) PagedMemory \<Rightarrow> seg_id \<Rightarrow> BufferType \<Rightarrow> bool \<Rightarrow> u32 \<Rightarrow> nat \<Rightarrow> ('k, 'm, unit) ecall_m" where
  "send_chunks pm i buffer_type first_chunk g_ptr n s =
     (if n = 0 then (s, Ok ())
      else
        let copy_size = min n (if first_chunk then 255 - 6 else 255 - 1) in
        case guest_on i (read_buffer pm g_ptr copy_size) s of
          (s1, Inl e) \<Rightarrow> (s1, Err e)
        | (s1, Inr data) \<Rightarrow>
            (case ask_opt (chunk_message first_chunk (of_nat n) buffer_type data) s1 of
               (s2, Inl e) \<Rightarrow> (s2, Err e)
             | (s2, Inr _) \<Rightarrow>
                 send_chunks pm i buffer_type False (g_ptr + of_nat copy_size) (n - copy_size) s2))"
  by pat_completeness auto
termination
  by (relation "measure (\<lambda>(pm, i, t, f, p, n, s). n)") auto

declare send_chunks.simps [simp del]

definition handle_send_buffer ::
  "('k device, 'm, 'r) PagedMemory \<Rightarrow> u32 \<Rightarrow> u32 \<Rightarrow> BufferType \<Rightarrow> ('k, 'm, unit) ecall_m" where
  "handle_send_buffer pm buffer n buffer_type =
     (if n = 0 then
        bindS (ask_opt (chunk_message True 0 buffer_type [])) (\<lambda>_. returnS ())
      else if 2 ^ 32 \<le> unat buffer + unat n then throwS CommOverflow
      else bindS (guest_segment buffer) (\<lambda>i. send_chunks pm i buffer_type True buffer (unat n)))"

text \<open>
  The loop of \<open>handle_xrecv\<close>. A host that keeps sending empty chunks keeps it running: \<^const>\<open>None\<close>.
\<close>

definition check_remaining :: "u32 option \<Rightarrow> u32 \<Rightarrow> u32 \<Rightarrow> (CommEcallError, u32) result" where
  "check_remaining remaining max_size declared =
     (case remaining of
        None \<Rightarrow>
          if declared > max_size then Err (CommInvalidResponse ''Received data is too large'') else Ok declared
      | Some r \<Rightarrow>
          if r \<noteq> declared then Err (CommInvalidResponse ''Mismatching remaining length'') else Ok r)"

partial_function (option) xrecv_loop ::
  "('k device, 'm, 'r) PagedMemory \<Rightarrow> seg_id \<Rightarrow> u32 \<Rightarrow> u32 \<Rightarrow> u32 option \<Rightarrow> nat \<Rightarrow> 'k device \<times> 'm cpu \<Rightarrow>
   (('k device \<times> 'm cpu) \<times> (CommEcallError, nat) result) option" where
  "xrecv_loop pm i max_size g_ptr remaining total_received s =
     (if remaining = Some 0 then Some (s, Ok total_received)
      else
        (case ask (ReceiveBufferMessage_serialize ReceiveBufferMessage_new) s of
           (s1, Inl e) \<Rightarrow> Some (s1, Err e)
         | (s1, Inr raw_data) \<Rightarrow>
             (case ReceiveBufferResponse_deserialize raw_data of
                Inl e \<Rightarrow> Some (s1, Err (MessageError e))
              | Inr response \<Rightarrow>
                  (case check_remaining remaining max_size (rbr_remaining_length response) of
                     Inl e \<Rightarrow> Some (s1, Err e)
                   | Inr curr_remaining \<Rightarrow>
                       (case guest_on i (write_buffer pm g_ptr (rbr_content response)) s1 of
                          (s2, Inl e) \<Rightarrow> Some (s2, Err e)
                        | (s2, Inr _) \<Rightarrow>
                            let chunk_len = of_nat (length (rbr_content response)) :: u32 in
                            if chunk_len > curr_remaining
                            then Some (s2, Err (CommInvalidResponse ''Chunk exceeds declared remaining length''))
                            else xrecv_loop pm i max_size (g_ptr + chunk_len) (Some (curr_remaining - chunk_len))
                              (total_received + length (rbr_content response)) s2)))))"

declare xrecv_loop.simps [code]

definition handle_xrecv ::
  "('k device, 'm, 'r) PagedMemory \<Rightarrow> u32 \<Rightarrow> u32 \<Rightarrow> ('k, 'm, nat) ecall_m" where
  "handle_xrecv pm buffer max_size =
     bindS (guest_segment buffer) (\<lambda>i s.
       case xrecv_loop pm i max_size buffer None 0 s of
         None \<Rightarrow> (s, Err CommDiverged) | Some out \<Rightarrow> out)"

section \<open>Persistent storage\<close>

text \<open>The slots of the V-App whose hash the handler was made with.\<close>

definition find_slots :: "CommEcallHandler \<Rightarrow> u32 \<Rightarrow> u32 \<Rightarrow> vapp_store \<Rightarrow> nat option" where
  "find_slots eh slot_index buffer_size st =
     (if unat buffer_size \<noteq> STORAGE_SLOT_SIZE then None
      else if slot_index \<ge> eh_n_storage_slots eh \<or> slot_index \<ge> MAX_STORAGE_SLOTS then None
      else find_by_hash (eh_vapp_hash eh) st)"

definition handle_storage_read ::
  "('k device, 'm, 'r) PagedMemory \<Rightarrow> CommEcallHandler \<Rightarrow> u32 \<Rightarrow> u32 \<Rightarrow> u32 \<Rightarrow> ('k, 'm, u32) ecall_m" where
  "handle_storage_read pm eh slot_index buffer buffer_size = (\<lambda>(w, c).
     (case find_slots eh slot_index buffer_size (nvram w) of
        None \<Rightarrow> returnS 0
      | Some vapp_index \<Rightarrow>
          (case get_entry vapp_index (nvram w) of
             None \<Rightarrow> throwS (CommGenericError ''VApp entry not found'')
           | Some entry \<Rightarrow>
               bindS (guest_write pm buffer (storage_slots entry ! unat slot_index)) (\<lambda>_. returnS 1))) (w, c))"

text \<open>The last step of \<open>handle_storage_write\<close>: update the slot in the entry, and the entry in its cell.\<close>

definition store_slot :: "nat \<Rightarrow> u32 \<Rightarrow> bytes \<Rightarrow> ('k, 'm, u32) ecall_m" where
  "store_slot vapp_index slot_index slot_data = (\<lambda>(w, c).
     case get_entry vapp_index (nvram w) of
       None \<Rightarrow> ((w, c), Err (CommGenericError ''VApp entry not found''))
     | Some entry \<Rightarrow>
         let entry1 = entry\<lparr>storage_slots := (storage_slots entry)[unat slot_index := slot_data]\<rparr> in
         (case ls_update entry1 (nvram w ! vapp_index) of
            None \<Rightarrow> ((w, c), Err (CommPanicked ''LazyStorage not initialized''))
          | Some cell \<Rightarrow> ((w\<lparr>nvram := (nvram w)[vapp_index := cell]\<rparr>, c), Ok 1)))"

definition handle_storage_write ::
  "('k device, 'm, 'r) PagedMemory \<Rightarrow> CommEcallHandler \<Rightarrow> u32 \<Rightarrow> u32 \<Rightarrow> u32 \<Rightarrow> ('k, 'm, u32) ecall_m" where
  "handle_storage_write pm eh slot_index buffer buffer_size = (\<lambda>(w, c).
     (case find_slots eh slot_index buffer_size (nvram w) of
        None \<Rightarrow> returnS 0
      | Some vapp_index \<Rightarrow>
          bindS (guest_read pm buffer STORAGE_SLOT_SIZE) (store_slot vapp_index slot_index)) (w, c))"

section \<open>Big numbers\<close>

definition MAX_BIGNUMBER_SIZE :: u32 where
  "MAX_BIGNUMBER_SIZE = 64"

text \<open>A result of the SDK: anything but \<open>CX_OK\<close> is an error.\<close>

definition cx_check :: "string \<Rightarrow> 'a option \<Rightarrow> ('k, 'm, 'a) ecall_m" where
  "cx_check message r = (case r of None \<Rightarrow> throwS (CommGenericError message) | Some x \<Rightarrow> returnS x)"

definition handle_bn_modm ::
  "('k device, 'm, 'r) PagedMemory \<Rightarrow> sdk \<Rightarrow> u32 \<Rightarrow> u32 \<Rightarrow> u32 \<Rightarrow> u32 \<Rightarrow> u32 \<Rightarrow> ('k, 'm, unit) ecall_m" where
  "handle_bn_modm pm cx r n len m m_len =
     (if len > MAX_BIGNUMBER_SIZE \<or> m_len > MAX_BIGNUMBER_SIZE
      then throwS (InvalidParameters ''len or m_len is too large'')
      else bindS (guest_read pm n (unat len)) (\<lambda>r_local.
           bindS (guest_read pm m (unat m_len)) (\<lambda>m_local.
           bindS (cx_check ''modm failed'' (cx_math_modm cx r_local m_local)) (guest_write pm r))))"

text \<open>\<open>handle_bn_addm\<close>, \<open>handle_bn_subm\<close> and \<open>handle_bn_multm\<close> differ in the function and the message.\<close>

definition bn_binop ::
  "('k device, 'm, 'r) PagedMemory \<Rightarrow> (bytes \<Rightarrow> bytes \<Rightarrow> bytes \<Rightarrow> bytes option) \<Rightarrow> string \<Rightarrow>
   u32 \<Rightarrow> u32 \<Rightarrow> u32 \<Rightarrow> u32 \<Rightarrow> u32 \<Rightarrow> ('k, 'm, unit) ecall_m" where
  "bn_binop pm f message r a b m len =
     (if len > MAX_BIGNUMBER_SIZE then throwS (InvalidParameters ''len is too large'')
      else bindS (guest_read pm a (unat len)) (\<lambda>a_local.
           bindS (guest_read pm b (unat len)) (\<lambda>b_local.
           bindS (guest_read pm m (unat len)) (\<lambda>m_local.
           bindS (cx_check message (f a_local b_local m_local)) (guest_write pm r)))))"

definition handle_bn_addm ::
  "('k device, 'm, 'r) PagedMemory \<Rightarrow> sdk \<Rightarrow> u32 \<Rightarrow> u32 \<Rightarrow> u32 \<Rightarrow> u32 \<Rightarrow> u32 \<Rightarrow> ('k, 'm, unit) ecall_m" where
  "handle_bn_addm pm cx = bn_binop pm (cx_math_addm cx) ''addm failed''"

definition handle_bn_subm ::
  "('k device, 'm, 'r) PagedMemory \<Rightarrow> sdk \<Rightarrow> u32 \<Rightarrow> u32 \<Rightarrow> u32 \<Rightarrow> u32 \<Rightarrow> u32 \<Rightarrow> ('k, 'm, unit) ecall_m" where
  "handle_bn_subm pm cx = bn_binop pm (cx_math_subm cx) ''subm failed''"

definition handle_bn_multm ::
  "('k device, 'm, 'r) PagedMemory \<Rightarrow> sdk \<Rightarrow> u32 \<Rightarrow> u32 \<Rightarrow> u32 \<Rightarrow> u32 \<Rightarrow> u32 \<Rightarrow> ('k, 'm, unit) ecall_m" where
  "handle_bn_multm pm cx = bn_binop pm (cx_math_multm cx) ''multm failed''"

definition handle_bn_modinv_prime ::
  "('k device, 'm, 'r) PagedMemory \<Rightarrow> sdk \<Rightarrow> u32 \<Rightarrow> u32 \<Rightarrow> u32 \<Rightarrow> u32 \<Rightarrow> ('k, 'm, unit) ecall_m" where
  "handle_bn_modinv_prime pm cx r a p len =
     (if len > MAX_BIGNUMBER_SIZE then throwS (InvalidParameters ''len is too large'')
      else bindS (guest_read pm a (unat len)) (\<lambda>a_local.
           bindS (guest_read pm p (unat len)) (\<lambda>p_local.
           bindS (cx_check ''modinv failed'' (cx_math_invprimem cx a_local p_local)) (guest_write pm r))))"

definition handle_bn_powm ::
  "('k device, 'm, 'r) PagedMemory \<Rightarrow> sdk \<Rightarrow> u32 \<Rightarrow> u32 \<Rightarrow> u32 \<Rightarrow> u32 \<Rightarrow> u32 \<Rightarrow> u32 \<Rightarrow> ('k, 'm, unit) ecall_m" where
  "handle_bn_powm pm cx r a e len_e m len =
     (if len_e > MAX_BIGNUMBER_SIZE then throwS (InvalidParameters ''len_e is too large'')
      else if len > MAX_BIGNUMBER_SIZE then throwS (InvalidParameters ''len is too large'')
      else bindS (guest_read pm a (unat len)) (\<lambda>a_local.
           bindS (guest_read pm e (unat len_e)) (\<lambda>e_local.
           bindS (guest_read pm m (unat len)) (\<lambda>m_local.
           bindS (cx_check ''addm failed'' (cx_math_powm cx a_local e_local m_local)) (guest_write pm r)))))"

section \<open>Hashes\<close>

text \<open>The algorithm in the high half of an identifier, cast to a byte; the output size is the low half.\<close>

definition hash_algorithm :: "u32 \<Rightarrow> u8" where
  "hash_algorithm hash_identifier = ucast (drop_bit 16 hash_identifier)"

definition hash_output_size :: "u32 \<Rightarrow> nat" where
  "hash_output_size hash_identifier = unat (hash_identifier AND 0xffff)"

definition get_size_from_id :: "sdk \<Rightarrow> u32 \<Rightarrow> (LedgerHashContextError, nat) result" where
  "get_size_from_id cx hash_identifier =
     (if drop_bit 16 hash_identifier = 0 then Err InvalidHashId
      else let a = hash_algorithm hash_identifier in
        if a = 1 then Ok (sizeof_ripemd160 cx)
        else if a = 3 then Ok (sizeof_sha256 cx)
        else if a = 5 then Ok (sizeof_sha512 cx)
        else if a = 6 \<or> a = 7 then Ok (sizeof_sha3 cx)
        else Err UnsupportedHashId)"

definition get_digest_len_from_id :: "u32 \<Rightarrow> (LedgerHashContextError, nat) result" where
  "get_digest_len_from_id hash_identifier =
     (if drop_bit 16 hash_identifier = 0 then Err InvalidHashId
      else let a = hash_algorithm hash_identifier; output_size = hash_output_size hash_identifier in
        if a = 1 \<or> a = 3 \<or> a = 5 then Ok output_size
        else if a = 6 \<or> a = 7
        then (if output_size = 28 \<or> output_size = 32 \<or> output_size = 48 \<or> output_size = 64
              then Ok output_size else Err InvalidHashId)
        else Err UnsupportedHashId)"

definition hash_check :: "(LedgerHashContextError, 'a) result \<Rightarrow> ('k, 'm, 'a) ecall_m" where
  "hash_check r = (case r of Inl e \<Rightarrow> throwS (HashError e) | Inr x \<Rightarrow> returnS x)"

definition handle_hash_init ::
  "('k device, 'm, 'r) PagedMemory \<Rightarrow> sdk \<Rightarrow> u32 \<Rightarrow> u32 \<Rightarrow> ('k, 'm, unit) ecall_m" where
  "handle_hash_init pm cx hash_identifier ctx =
     bindS (hash_check (get_size_from_id cx hash_identifier)) (\<lambda>ctx_size.
     bindS (guest_read pm ctx ctx_size) (\<lambda>ctx_local.
     bindS (cx_check ''hash init failed''
         (cx_hash_init_ex cx ctx_local (hash_algorithm hash_identifier) (hash_output_size hash_identifier)))
       (guest_write pm ctx)))"

function hash_chunks ::
  "('k device, 'm, 'r) PagedMemory \<Rightarrow> sdk \<Rightarrow> seg_id \<Rightarrow> u32 \<Rightarrow> nat \<Rightarrow> bytes \<Rightarrow> ('k, 'm, bytes) ecall_m" where
  "hash_chunks pm cx i data_ptr data_remaining ctx_local s =
     (if data_remaining = 0 then (s, Ok ctx_local)
      else
        let copy_size = min data_remaining 256 in
        case guest_on i (read_buffer pm data_ptr copy_size) s of
          (s1, Inl e) \<Rightarrow> (s1, Err e)
        | (s1, Inr data_local) \<Rightarrow>
            (case cx_hash_update cx ctx_local data_local of
               None \<Rightarrow> (s1, Err (CommGenericError ''hash update failed''))
             | Some ctx1 \<Rightarrow>
                 hash_chunks pm cx i (data_ptr + of_nat copy_size) (data_remaining - copy_size) ctx1 s1))"
  by pat_completeness auto
termination
  by (relation "measure (\<lambda>(pm, cx, i, p, n, ctx, s). n)") auto

declare hash_chunks.simps [simp del]

definition handle_hash_update ::
  "('k device, 'm, 'r) PagedMemory \<Rightarrow> sdk \<Rightarrow> u32 \<Rightarrow> u32 \<Rightarrow> u32 \<Rightarrow> u32 \<Rightarrow> ('k, 'm, unit) ecall_m" where
  "handle_hash_update pm cx hash_identifier ctx data data_len =
     bindS (hash_check (get_size_from_id cx hash_identifier)) (\<lambda>ctx_size.
     if data_len = 0 then returnS ()
     else bindS (guest_read pm ctx ctx_size) (\<lambda>ctx_local.
       bindS (guest_segment data) (\<lambda>i.
       bindS (hash_chunks pm cx i data (unat data_len) ctx_local) (guest_write pm ctx))))"

text \<open>The slice of the buffer of 64 bytes that is copied out: slicing beyond its end panics.\<close>

definition digest_slice :: "nat \<Rightarrow> bytes \<Rightarrow> ('k, 'm, bytes) ecall_m" where
  "digest_slice digest_len digest_local =
     (if digest_len > 64 then throwS (CommPanicked ''range end index out of range for slice'')
      else returnS (take digest_len digest_local))"

definition handle_hash_digest ::
  "('k device, 'm, 'r) PagedMemory \<Rightarrow> sdk \<Rightarrow> u32 \<Rightarrow> u32 \<Rightarrow> u32 \<Rightarrow> ('k, 'm, unit) ecall_m" where
  "handle_hash_digest pm cx hash_identifier ctx digest =
     bindS (hash_check (get_size_from_id cx hash_identifier)) (\<lambda>ctx_size.
     bindS (guest_read pm ctx ctx_size) (\<lambda>ctx_local.
     bindS (cx_check ''hash final failed'' (cx_hash_final cx ctx_local)) (\<lambda>digest_local.
     bindS (hash_check (get_digest_len_from_id hash_identifier)) (\<lambda>digest_len.
     bindS (guest_segment digest) (\<lambda>i.
     bindS (digest_slice digest_len digest_local) (\<lambda>d. guest_on i (write_buffer pm digest d)))))))"

section \<open>Random bytes, events and device properties\<close>

definition cx_rng :: "nat \<Rightarrow> ('k, 'm, bytes) ecall_m" where
  "cx_rng n = (\<lambda>(w, c).
     ((w\<lparr>random_used := random_used w + n\<rparr>, c), Ok (map (\<lambda>i. random_source w (random_used w + i)) [0..<n])))"

definition handle_get_random_bytes ::
  "('k device, 'm, 'r) PagedMemory \<Rightarrow> u32 \<Rightarrow> u32 \<Rightarrow> ('k, 'm, u32) ecall_m" where
  "handle_get_random_bytes pm buffer n =
     (if n = 0 then returnS 1
      else if n > 256 then throwS (InvalidParameters ''size is too large, must be <= 256'')
      else if 2 ^ 32 \<le> unat buffer + unat n then throwS CommOverflow
      else bindS (guest_segment buffer) (\<lambda>i.
           bindS (cx_rng (unat n)) (\<lambda>random_bytes.
           bindS (guest_on i (write_buffer pm buffer random_bytes)) (\<lambda>_. returnS 1))))"

definition get_last_event :: "('k, 'm, (u32 \<times> bytes) option) ecall_m" where
  "get_last_event = (\<lambda>(w, c). ((w\<lparr>last_event := None\<rparr>, c), Ok (last_event w)))"

text \<open>Without a stored event the handler waits for the next ticker, whose code is 0.\<close>

definition handle_get_event :: "('k device, 'm, 'r) PagedMemory \<Rightarrow> u32 \<Rightarrow> ('k, 'm, u32) ecall_m" where
  "handle_get_event pm event_data_ptr =
     bindS get_last_event (\<lambda>event. case event of
        Some (event_code, event_data) \<Rightarrow>
          bindS (guest_write pm event_data_ptr event_data) (\<lambda>_. returnS event_code)
      | None \<Rightarrow> returnS 0)"

definition VENDOR_ID :: u16 where
  "VENDOR_ID = 0x2C97"

definition pack_u16 :: "u16 \<Rightarrow> u16 \<Rightarrow> u32" where
  "pack_u16 high low = push_bit 16 (ucast high) OR ucast low"

definition handle_get_device_property :: "device_props \<Rightarrow> u32 \<Rightarrow> ('k, 'm, u32) ecall_m" where
  "handle_get_device_property props property =
     (if property = 1 then returnS (pack_u16 VENDOR_ID (PRODUCT_ID props))
      else if property = 2 then returnS (pack_u16 (SCREEN_WIDTH props) (SCREEN_HEIGHT props))
      else if property = 3 then returnS 0
      else throwS (InvalidParameters ''Unknown device property''))"

end
