(* ===== verification/Guest_Memory.thy ===== *)
theory Guest_Memory
  imports Ecall Outsourced_Refines
begin

text \<open>
  The memory of a V-App as a system call sees it. Reading or writing a buffer may fetch and evict pages, so the
  host sees other messages in between; what the calls send and what they find in the device is unaffected.
  \<open>guest_memory\<close> collects what the calls rely on, and the outsourced memory provides it.
\<close>

section \<open>Page traffic\<close>

definition page_request :: "bytes \<Rightarrow> bool" where
  "page_request m \<longleftrightarrow> m \<noteq> [] \<and>
     hd m \<in> ClientCommandCode_as_u8 ` {GetPage, GetPageProofContinued, CommitPage, CommitPageProofContinued}"

text \<open>A change of the world that sends page requests only, and leaves the device alone.\<close>

definition page_traffic :: "('k, 'z) world_scheme \<Rightarrow> ('k, 'z) world_scheme \<Rightarrow> bool" where
  "page_traffic w w' \<longleftrightarrow> world_le w w' \<and> world.more w' = world.more w \<and>
     (\<exists>ms. sent w' = sent w @ ms \<and> list_all page_request ms)"

lemma page_traffic_refl [simp, intro]: "page_traffic w w"
  by (simp add: page_traffic_def)

lemma page_traffic_trans: "page_traffic w1 w2 \<Longrightarrow> page_traffic w2 w3 \<Longrightarrow> page_traffic w1 w3"
  unfolding page_traffic_def by (auto intro: world_le_trans)

lemma page_traffic_le: "page_traffic w w' \<Longrightarrow> world_le w w'"
  by (simp add: page_traffic_def)

lemma interrupt_traffic: "interrupt m w = (w', res) \<Longrightarrow> page_request m \<Longrightarrow> page_traffic w w'"
  by (frule interrupt_le, drule interrupt_world) (simp add: page_traffic_def)

definition om_traffic :: "('k, 'z) world_scheme \<times> 's OutsourcedMemory \<Rightarrow> ('k, 'z) world_scheme \<times> 's OutsourcedMemory \<Rightarrow> bool" where
  "om_traffic s s' \<longleftrightarrow> page_traffic (fst s) (fst s')"

lemma om_traffic_preorder: "reflp om_traffic" "transp om_traffic"
  by (auto simp: om_traffic_def intro!: reflpI transpI elim: page_traffic_trans)

lemmas traffic_intros = steps_bind [OF om_traffic_preorder(2)] steps_return [OF om_traffic_preorder(1)]
  steps_throw [OF om_traffic_preorder(1)] steps_lift [OF om_traffic_preorder(1)]

lemma traffic_ask: "page_request m \<Longrightarrow> steps om_traffic (ask_host m)"
  by (auto simp: steps_def om_traffic_def ask_host_def intro: interrupt_traffic split: prod.splits)

lemma traffic_local:
  "steps om_traffic (hash_page cr data nonce)" "steps om_traffic (generic msg)" "steps om_traffic (panic msg)"
  "steps om_traffic (decrypt_page cr n d)" "steps om_traffic (notify f)" "steps om_traffic (get_cached_page_ref i s)"
  "steps om_traffic (store_page i s p)" "steps om_traffic (\<lambda>(w, m). ((w, g w m), Ok y))"
  by (auto simp: steps_def om_traffic_def hash_page_def generic_def panic_def decrypt_page_def notify_def
      get_cached_page_ref_def store_page_def Let_def split: prod.splits sum.splits option.splits)

lemma traffic_encrypt: "steps om_traffic (encrypt_page cr data)"
  by (auto simp: steps_def om_traffic_def encrypt_page_def page_traffic_def world_le_def dest!: encrypt_world
      split: prod.splits)

lemma proof_loop_sent:
  assumes "proof_loop request dec step n k v w = Some out"
  shows "\<exists>j. fst (fst out) = w\<lparr>sent := sent w @ replicate j request\<rparr>"
proof (rule proof_loop.raw_induct [OF _ assms, where P = "\<lambda>r d s n k v w out. \<exists>j. fst (fst out) = w\<lparr>sent := sent w @ replicate j r\<rparr>"], goal_cases)
  case (1 loop request dec step n k v w out)
  have stop: ?case if "fst (fst out) = w" using that by (intro exI [of _ 0]) simp
  show ?case
  proof (cases "k < n")
    case False
    with 1(2) show ?thesis by (intro stop) auto
  next
    case True
    obtain w1 r where i: "interrupt request w = (w1, r)" by fastforce
    note w1 = interrupt_world [OF i]
    have once: ?thesis if "fst (fst out) = w1" using that w1 by (intro exI [of _ 1]) simp
    show ?thesis
    proof (cases "\<exists>data els. r = Inr data \<and> dec data = Some (length els, els)")
      case False
      with 1(2) True i show ?thesis
        by (intro once) (auto split: sum.splits option.splits prod.splits if_splits)
    next
      case True
      then obtain data els where r: "r = Inr data" "dec data = Some (length els, els)" by blast
      then have "loop request dec step n (k + length els) (fold step els v) w1 = Some out"
        using 1(2) \<open>k < n\<close> i by simp
      from 1(1) [OF this] obtain j where "fst (fst out) = w1\<lparr>sent := sent w1 @ replicate j request\<rparr>" by blast
      with w1 show ?thesis by (intro exI [of _ "Suc j"]) simp
    qed
  qed
qed

lemma traffic_run_verifier:
  assumes "page_request request"
  shows "steps om_traffic (run_verifier request dec step v els n)"
proof -
  have "page_traffic w (w\<lparr>sent := sent w @ replicate j request\<rparr>)" for w :: "('k, 'z) world_scheme" and j
    using assms by (simp add: page_traffic_def world_le_def list_all_iff)
  then show ?thesis
    by (auto simp: steps_def om_traffic_def run_verifier_def split: option.splits prod.splits
        dest!: proof_loop_sent)
qed

lemma page_requests:
  "page_request (GetPageMessage_serialize (GetPageMessage_new k i))"
  "page_request (GetPageProofContinuedMessage_serialize GetPageProofContinuedMessage_new)"
  "page_request (CommitPageMessage_serialize (CommitPageMessage_new k i b nonce data))"
  "page_request (CommitPageProofContinuedMessage_serialize CommitPageProofContinuedMessage_new)"
  by (simp_all add: page_request_def ser_defs new_defs)

lemma traffic_commit: "steps om_traffic (commit_page_at cr index)"
  unfolding commit_page_at_def
  by (rule steps_state)
    (auto simp: Let_def split: prod.splits option.splits
      intro!: traffic_intros traffic_local traffic_encrypt traffic_ask traffic_run_verifier page_requests)

lemma traffic_load_merkle: "steps om_traffic (load_merkle cr page_index page_response page_hash)"
  unfolding load_merkle_def
  by (rule steps_state)
    (auto split: option.splits intro!: traffic_intros traffic_local traffic_run_verifier page_requests)

lemma traffic_load_tagged: "steps om_traffic (load_tagged cr page_index page_response page_hash)"
  unfolding load_tagged_def
  by (rule steps_state) (auto simp: Let_def intro!: traffic_intros traffic_local)

lemma traffic_load: "steps om_traffic (load_page cr page_index)"
  unfolding load_page_def
  by (rule steps_state)
    (auto split: PageProofKind.splits
      intro!: traffic_intros traffic_local traffic_ask traffic_load_merkle traffic_load_tagged page_requests)

lemma traffic_evict:
  fixes cr :: "'k crypto" and es :: "'s eviction_strategy"
  shows "steps om_traffic (evict_page cr es)"
proof -
  have inv: "steps om_traffic (\<lambda>(w :: ('k, 'z) world_scheme, m). bindS (notify (on_invalidate es i (cp_idx (cached_pages m ! i))))
      (\<lambda>_. returnS i) (w, m\<lparr>cached_pages := (cached_pages m)[i := (cached_pages m ! i)\<lparr>cp_valid := False\<rparr>]\<rparr>))"
    for i :: nat
    by (auto simp: steps_def om_traffic_def bindS_def notify_def panic_def split: prod.splits sum.splits option.splits)
  show ?thesis
    unfolding evict_page_def Let_def
    by (rule steps_state) (auto split: option.splits intro!: traffic_intros traffic_local inv traffic_commit)
qed

lemma traffic_search: "steps om_traffic (search_page cr es page_index)"
  unfolding search_page_def
  by (rule steps_state)
    (auto split: option.splits intro!: traffic_intros traffic_local traffic_evict traffic_load)

lemma traffic_get_page: "steps om_traffic (om_get_page cr es page_index)"
  using traffic_local(6) traffic_search [of cr es page_index]
  by (auto simp: om_get_page_def steps_def split: option.splits prod.splits)

section \<open>Buffers in a segment\<close>

definition seg_bytes :: "VecMemory MemorySegment \<Rightarrow> u32 \<Rightarrow> nat \<Rightarrow> bytes" where
  "seg_bytes seg p n = take n (drop (flat_pos seg p) (flat seg))"

lemma vec_read_buffer:
  assumes "vec_seg_ok seg" "read_buffer VecMemory p n (u, seg) = (s', Ok data)" "n < 2 ^ 32"
  shows "s' = (u, seg)" "in_seg seg (unat p) n" "data = seg_bytes seg p n"
proof -
  have g: "unat p + n < 2 ^ 32" "\<not> (p < start_address seg \<or> p + of_nat n > start_address seg + seg_size seg)"
    and r: "read_loop VecMemory p n (u, seg) = (s', Ok data)"
    using assms(2) by (auto simp: read_buffer_def split: if_splits)
  show i: "in_seg seg (unat p) n"
    using buffer_guard [of seg _ n p] g assms(1,3) unfolding vec_seg_ok_def by blast
  show "s' = (u, seg)" "data = seg_bytes seg p n"
    using r vec_read_loop [OF assms(1) i, of u] by (simp_all add: seg_bytes_def)
qed

lemma vec_write_buffer:
  assumes "vec_seg_ok seg" "write_buffer VecMemory p buf (u, seg) = (s', Ok v)" "length buf < 2 ^ 32"
  shows "in_seg seg (unat p) (length buf)" "flat (snd s') = overwrite buf (flat_pos seg p) (flat seg)"
    "vec_seg_ok (snd s')" "start_address (snd s') = start_address seg" "seg_size (snd s') = seg_size seg"
proof -
  have g: "unat p + length buf < 2 ^ 32"
      "\<not> (p < start_address seg \<or> p + of_nat (length buf) > start_address seg + seg_size seg)"
    and r: "write_loop VecMemory p buf (u, seg) = (s', Ok v)"
    using assms(2) by (auto simp: write_buffer_def split: if_splits)
  show i: "in_seg seg (unat p) (length buf)"
    using buffer_guard [of seg _ "length buf" p] g assms(1,3) unfolding vec_seg_ok_def by blast
  obtain seg' where "s' = (u, seg')" "flat seg' = overwrite buf (flat_pos seg p) (flat seg)" "vec_seg_ok seg'"
    "start_address seg' = start_address seg" "seg_size seg' = seg_size seg"
    using vec_write_loop [OF assms(1) i, of u] r by auto
  then show "flat (snd s') = overwrite buf (flat_pos seg p) (flat seg)"
    "vec_seg_ok (snd s')" "start_address (snd s') = start_address seg" "seg_size (snd s') = seg_size seg"
    by simp_all
qed

section \<open>The interface of the system calls\<close>

text \<open>\<^const>\<open>guest_on\<close> is \<^const>\<open>on_seg\<close> but for the error it reports.\<close>

lemma guest_on_Ok: "guest_on i m s = (s', Ok v) \<longleftrightarrow> on_seg i m s = (s', Ok v)"
  by (auto simp: guest_on_def on_seg_def split: prod.splits sum.splits)

lemma guest_on_fst: "fst (guest_on i m s) = fst (on_seg i m s)"
  by (auto simp: guest_on_def on_seg_def split: prod.splits sum.splits)

text \<open>
  A paged memory whose accesses send page requests only. \<open>rep_world\<close> is stronger than the law of
  \<open>paged_memory_laws\<close>: the pages stay represented also over what the calls themselves send.
\<close>

locale guest_memory = paged_memory_laws pm rep page_traffic ok wr "\<lambda>_ (_ :: unit). True" "\<lambda>_. True"
  for pm :: "('k device, 'm, 'r) PagedMemory" and rep ok wr +
  assumes rep_world: "rep w m ps \<Longrightarrow> world_le w w' \<Longrightarrow> rep w' m ps"
begin


text \<open>What a call leaves alone, whatever it returns.\<close>

definition call_frame :: "'k device \<times> 'm cpu \<Rightarrow> 'k device \<times> 'm cpu \<Rightarrow> bool" where
  "call_frame s s' \<longleftrightarrow> (cpu_ok s' \<longrightarrow> cpu_ok s) \<and> regs (snd s') = regs (snd s) \<and> pc (snd s') = pc (snd s) \<and>
     world_le (fst s) (fst s') \<and> world.more (fst s') = world.more (fst s)"

lemma call_frame_preorder: "reflp call_frame" "transp call_frame"
proof -
  show "reflp call_frame" by (rule reflpI) (simp add: call_frame_def)
  show "transp call_frame"
    by (rule transpI; unfold call_frame_def; elim conjE; intro conjI impI) (auto elim: world_le_trans)
qed

lemmas frame_intros = steps_bind [OF call_frame_preorder(2)] steps_return [OF call_frame_preorder(1)]
  steps_throw [OF call_frame_preorder(1)]

lemma frame_guest_on:
  assumes "\<And>w seg w' seg' res. m (w, seg) = ((w', seg'), res) \<Longrightarrow>
      page_traffic w w' \<and> (ok (paged_memory seg') \<longrightarrow> ok (paged_memory seg))"
  shows "steps call_frame (guest_on i m)"
  unfolding steps_def
proof
  fix s :: "'k device \<times> 'm cpu"
  obtain w c where s: "s = (w, c)" by fastforce
  obtain w1 g1 r1 where m: "m (w, the_seg i c) = ((w1, g1), r1)" by (metis surj_pair)
  then have out: "fst (guest_on i m s) = (w1, put_seg i g1 c)" by (cases r1) (auto simp: s guest_on_def)
  note fr = assms [OF m]
  have "cpu_ok (w1, put_seg i g1 c) \<longrightarrow> cpu_ok s"
  proof
    assume ok: "cpu_ok (w1, put_seg i g1 c)"
    have "ok (paged_memory (the_seg j c))" for j
      using ok [unfolded cpu_ok_def, THEN conjunct1, rule_format, of j] fr by (cases "j = i") (simp_all split: if_splits)
    then show "cpu_ok s" by (simp add: cpu_ok_def s)
  qed
  with fr show "call_frame s (fst (guest_on i m s))"
    unfolding out by (simp add: s call_frame_def page_traffic_def)
qed

lemma frame_read: "steps call_frame (guest_on i (read_buffer pm p n))"
proof (rule frame_guest_on)
  fix w w' :: "'k device" and seg seg' res
  assume run: "read_buffer pm p n (w, seg) = ((w', seg'), res)"
  consider "w' = w" "seg' = seg" | "read_loop pm p n (w, seg) = ((w', seg'), res)"
    using run by (auto simp: read_buffer_def split: if_splits)
  then show "page_traffic w w' \<and> (ok (paged_memory seg') \<longrightarrow> ok (paged_memory seg))"
  proof cases
    case 2
    from read_loop_frame [OF this] show ?thesis by blast
  qed simp
qed

lemma frame_write: "steps call_frame (guest_on i (write_buffer pm p buf))"
proof (rule frame_guest_on)
  fix w w' :: "'k device" and seg seg' res
  assume run: "write_buffer pm p buf (w, seg) = ((w', seg'), res)"
  consider "w' = w" "seg' = seg" | "write_loop pm p buf (w, seg) = ((w', seg'), res)"
    using run by (auto simp: write_buffer_def split: if_splits)
  then show "page_traffic w w' \<and> (ok (paged_memory seg') \<longrightarrow> ok (paged_memory seg))"
  proof cases
    case 2
    from write_loop_frame [OF this] show ?thesis by blast
  qed simp
qed

lemma frame_ask: "steps call_frame (ask m)"
proof -
  have "call_frame (w, c) (w', c)" if "interrupt m w = (w', r)" for w w' :: "'k device" and c :: "'m cpu" and r
    using interrupt_le [OF that] interrupt_world [OF that] by (simp add: call_frame_def cpu_ok_def)
  then show ?thesis by (auto simp: steps_def ask_def split: prod.splits)
qed

lemma frame_segment: "steps call_frame (guest_segment p)"
  by (auto simp: steps_def guest_segment_def call_frame_def split: sum.splits)

lemma frame_guest_read: "steps call_frame (guest_read pm p n)"
  unfolding guest_read_def by (intro frame_intros(1) frame_segment frame_read)

lemma frame_guest_write: "steps call_frame (guest_write pm p buf)"
  unfolding guest_write_def by (intro frame_intros(1) frame_segment frame_write)

lemma guest_on_traffic:
  assumes "seg_sim (i \<noteq> CodeSeg) m m'" "guest_on i m (w, c) = ((w', c'), r)"
  shows "page_traffic w w'"
proof -
  obtain w1 g1 r1 where m: "m (w, the_seg i c) = ((w1, g1), r1)" by (metis surj_pair)
  then have "w' = w1" using assms(2) by (cases r1) (auto simp: guest_on_def)
  moreover have "page_traffic w w1" using assms(1) m unfolding seg_sim_def by blast
  ultimately show ?thesis by simp
qed

lemma rel_vec_ok:
  assumes "cpu_rel s ((), vc)"
  shows "vec_seg_ok (the_seg i vc)"
proof -
  have r: "seg_rel (i \<noteq> CodeSeg) (fst s, the_seg i (snd s)) ((), the_seg i vc)" using assms by (simp add: cpu_rel_def)
  show ?thesis unfolding vec_seg_ok_def using seg_relD(5) [OF r] rep_pages_ok [OF seg_relD(3) [OF r]] by blast
qed

lemma guest_on_run:
  fixes m :: "('k device \<times> 'm MemorySegment, memory_error, 'x) stm"
  assumes sim: "seg_sim (i \<noteq> CodeSeg) m m'" and rel: "cpu_rel s ((), vc)" and run: "guest_on i m s = (s', Ok v)"
    and ok: "cpu_ok s'"
  shows "\<exists>t. m' ((), the_seg i vc) = (t, Ok v) \<and> cpu_rel s' ((), put_seg i (snd t) vc)"
proof -
  have run': "on_seg i m s = (s', Ok v :: (unit cpu_error, 'x) result)" using guest_on_Ok run by (rule iffD1)
  from simS_run [OF on_seg_sim [OF sim, where obs = "\<lambda>_ :: unit. False"] rel run' ok]
  obtain t' where t': "on_seg i m' ((), vc) = (t', Ok v :: (unit cpu_error, 'x) result)" "cpu_rel s' t'" by blast
  obtain t r where m: "m' ((), the_seg i vc) = (t, r)" by fastforce
  obtain g where t: "t = ((), g)" by (cases t) simp
  have "r = Ok v \<and> t' = ((), put_seg i g vc)" using t'(1) m t by (cases r) (auto simp: on_seg_def)
  with t'(2) m t show ?thesis by simp
qed

text \<open>
  A buffer that was read holds the bytes of the abstract segment, which is unchanged; a buffer that was
  written replaces them. In between there were page requests only.
\<close>

lemma guest_read_run:
  assumes rel: "cpu_rel (w, c) ((), vc)" and run: "guest_on i (read_buffer pm p n) (w, c) = ((w', c'), Ok data)"
    and ok: "cpu_ok (w', c')" and n: "n < 2 ^ 32"
  shows "cpu_rel (w', c') ((), vc)" "in_seg (the_seg i vc) (unat p) n"
    "data = seg_bytes (the_seg i vc) p n" "page_traffic w w'"
proof -
  have sim: "seg_sim (i \<noteq> CodeSeg) (read_buffer pm p n) (read_buffer VecMemory p n)"
    by (rule read_buffer_sim)
  obtain t where r: "read_buffer VecMemory p n ((), the_seg i vc) = (t, Ok data)"
    and t: "cpu_rel (w', c') ((), put_seg i (snd t) vc)"
    using guest_on_run [OF sim rel run ok] by blast
  note vec = vec_read_buffer [OF rel_vec_ok [OF rel] r n]
  show "in_seg (the_seg i vc) (unat p) n" "data = seg_bytes (the_seg i vc) p n" by (fact vec(2), fact vec(3))
  have "put_seg i (snd t) vc = vc" using vec(1) by (cases i) simp_all
  with t show "cpu_rel (w', c') ((), vc)" by simp
  show "page_traffic w w'" by (rule guest_on_traffic [OF sim run])
qed

lemma guest_write_run:
  assumes rel: "cpu_rel (w, c) ((), vc)" and run: "guest_on i (write_buffer pm p buf) (w, c) = ((w', c'), Ok v)"
    and ok: "cpu_ok (w', c')" and n: "length buf < 2 ^ 32" and i: "i \<noteq> CodeSeg"
  shows "\<exists>g. cpu_rel (w', c') ((), put_seg i g vc) \<and> in_seg (the_seg i vc) (unat p) (length buf) \<and>
    flat g = overwrite buf (flat_pos (the_seg i vc) p) (flat (the_seg i vc)) \<and>
    start_address g = start_address (the_seg i vc) \<and> seg_size g = seg_size (the_seg i vc) \<and> page_traffic w w'"
proof -
  have sim: "seg_sim (i \<noteq> CodeSeg) (write_buffer pm p buf) (write_buffer VecMemory p buf)"
    using write_buffer_sim i by simp
  obtain t where r: "write_buffer VecMemory p buf ((), the_seg i vc) = (t, Ok v)"
    and t: "cpu_rel (w', c') ((), put_seg i (snd t) vc)"
    using guest_on_run [OF sim rel run ok] by blast
  note vec = vec_write_buffer [OF rel_vec_ok [OF rel] r n]
  show ?thesis using t vec guest_on_traffic [OF sim run] by blast
qed

end

text \<open>The outsourced memory is one, for any strategy, any host and any cryptography.\<close>

interpretation outsourced_guest: guest_memory "outsourced cr es" "om_rep cr S issued" "om_ok cr S issued"
  "\<lambda>m. \<not> is_readonly m"
  for cr :: "'k crypto" and es :: "'s eviction_strategy" and S and issued
proof unfold_locales
  fix w w' w1 w2 w3 :: "'k device" and m m' :: "'s OutsourcedMemory" and i res r f ps
  let ?pm = "outsourced cr es :: ('k device, 's OutsourcedMemory, nat) PagedMemory"
  show "page_traffic w w'" if "get_page ?pm i (w, m) = ((w', m'), res)"
    using stepsD [OF traffic_get_page that [unfolded outsourced_def, simplified]] by (simp add: om_traffic_def)
  show "(\<not> is_readonly m') = (\<not> is_readonly m)" if "get_page ?pm i (w, m) = ((w', m'), res)"
    by (rule outsourced.get_page_wr [OF that])
qed (auto intro: page_traffic_trans outsourced.rep_le outsourced.rep_pages_ok outsourced.get_page_ok
    page_traffic_le dest: outsourced.get_page_rep outsourced.deref_mut_rep
    simp: outsourced.deref_mut_ok outsourced.deref_mut_wr)

section \<open>A machine over outsourced memories\<close>

text \<open>
  The machine \<open>c\<close>, in the world \<open>w\<close>, stands for the machine \<open>vc\<close> whose segments are plain vectors of
  pages; and the cryptographic hypothesis on a run, looked at in its final state.
\<close>

definition machine_rel ::
  "'k crypto \<Rightarrow> bytes set \<Rightarrow> (u32 \<times> hash_output) set \<Rightarrow>
   ('k, 'z) world_scheme \<times> 's OutsourcedMemory cpu \<Rightarrow> VecMemory cpu \<Rightarrow> bool" where
  "machine_rel cr S issued s vc \<longleftrightarrow>
     pc (snd s) = pc vc \<and> regs (snd s) = regs vc \<and> reservation_addr (snd s) = reservation_addr vc \<and>
     (\<forall>i. let g = the_seg i (snd s); v = the_seg i vc in
        start_address g = start_address v \<and> seg_size g = seg_size v \<and>
        om_rep cr S issued (fst s) (paged_memory g) (paged_memory v) \<and>
        seg_fits g (length (paged_memory v)) \<and> (i \<noteq> CodeSeg \<longrightarrow> \<not> is_readonly (paged_memory g)))"

definition machine_ok :: "'k crypto \<Rightarrow> bytes set \<Rightarrow> (u32 \<times> hash_output) set \<Rightarrow> 's OutsourcedMemory cpu \<Rightarrow> bool" where
  "machine_ok cr S issued c \<longleftrightarrow> (\<forall>i. om_ok cr S issued (paged_memory (the_seg i c)))"

lemma machine_rel_iff: "outsourced_guest.cpu_rel cr S issued s ((), vc) \<longleftrightarrow> machine_rel cr S issued s vc"
  by (simp add: outsourced_guest.cpu_rel_def outsourced_guest.seg_rel_def machine_rel_def Let_def)

lemma machine_ok_iff: "outsourced_guest.cpu_ok cr S issued (w, c) \<longleftrightarrow> machine_ok cr S issued c"
  by (simp add: outsourced_guest.cpu_ok_def machine_ok_def)
end
