(* ===== verification/Ecall_Transfers.thy ===== *)
theory Ecall_Transfers
  imports Guest_Memory Client_Buffers
begin

text \<open>
  The system calls that exchange buffers with the host and with the storage, end to end: over the
  outsourced memory, against any host, and read by the client's own code on the other side.
\<close>

section \<open>Sending\<close>

lemma unat_u32_less: "unat (e :: u32) < 2 ^ 32"
  using unsigned_less [of e] by simp

lemma chunk_not_page_request:
  "\<not> page_request (SendBufferContinuedMessage_serialize (SendBufferContinuedMessage_new data))"
  "SendBufferMessage_new t ty data = Some m \<Longrightarrow> \<not> page_request (SendBufferMessage_serialize m)"
  by (auto simp: page_request_def ser_defs new_defs SendBufferMessage_new_def split: if_splits)

lemma sbc_data_new [simp]: "sbc_data (SendBufferContinuedMessage_new data) = data"
  by (simp add: SendBufferContinuedMessage_new_def)

lemma continued_read:
  "SendBufferContinuedMessage_deserialize (SendBufferContinuedMessage_serialize (SendBufferContinuedMessage_new data)) =
     Ok (SendBufferContinuedMessage_new data)"
  using send_buffer_continued.des_ser [of "SendBufferContinuedMessage_new data"]
  by (simp add: SendBufferContinuedMessage_wf_def SendBufferContinuedMessage_new_def)

lemma send_read:
  assumes "SendBufferMessage_new t ty data = Some m"
  shows "SendBufferMessage_deserialize (SendBufferMessage_serialize m) = Some (Ok m)" "sbm_data m = data"
    "sbm_total_size m = t" "sbm_buffer_type m = ty"
proof -
  have "SendBufferMessage_wf m"
    using assms by (auto simp: SendBufferMessage_new_def SendBufferMessage_wf_def split: if_splits)
  then show "SendBufferMessage_deserialize (SendBufferMessage_serialize m) = Some (Ok m)" by (rule send_buffer.des_ser)
  show "sbm_data m = data" "sbm_total_size m = t" "sbm_buffer_type m = ty"
    using assms by (auto simp: SendBufferMessage_new_def split: if_splits)
qed

lemma receive_continued_chunk:
  assumes "length data \<le> unat n" "n \<noteq> 0"
  shows "receive_continued n buf
      ((InterruptedExecution_sw, SendBufferContinuedMessage_serialize (SendBufferContinuedMessage_new data)) # rest) =
    receive_continued (n - of_nat (length data)) (buf @ data) rest"
proof -
  have "length (SendBufferContinuedMessage_serialize (SendBufferContinuedMessage_new data)) \<noteq> 0"
    by (simp add: SendBufferContinuedMessage_serialize_def)
  with assms show ?thesis
    by (subst receive_continued.simps)
      (simp add: continued_read not_less)
qed

lemma seg_bytes_add:
  assumes "seg_fits seg k" "in_seg seg (unat p) j"
  shows "seg_bytes seg p (j + n) = seg_bytes seg p j @ seg_bytes seg (p + of_nat j) n"
  using advance(3) [OF assms, of j] by (simp add: seg_bytes_def take_add add.commute)

lemma length_seg_bytes:
  assumes "vec_seg_ok seg" "in_seg seg (unat p) n"
  shows "length (seg_bytes seg p n) = n"
proof -
  have "flat_pos seg p + n \<le> length (flat seg)"
    using flat_pos_bounds(1) [OF _ assms(2)] assms(1) length_flat [OF assms(1)] by (auto simp: vec_seg_ok_def)
  then show ?thesis by (simp add: seg_bytes_def)
qed

text \<open>Messages that are not page requests, and a world that moved on by one message.\<close>

abbreviation calls :: "bytes list \<Rightarrow> bytes list" where
  "calls ms \<equiv> filter (\<lambda>m. \<not> page_request m) ms"

lemma page_traffic_calls: "page_traffic w w' \<Longrightarrow> \<exists>ms. sent w' = sent w @ ms \<and> calls ms = []"
  by (fastforce simp: page_traffic_def list_all_iff filter_empty_conv)

lemma ask_sent: "ask m (w, c) = ((w', c'), r) \<Longrightarrow> c' = c \<and> w' = w\<lparr>sent := sent w @ [m]\<rparr>"
  by (auto simp: ask_def split: prod.splits dest: interrupt_world)

lemma ask_opt_Ok: "ask_opt mo s = (s', Ok v) \<Longrightarrow> \<exists>m. mo = Some m \<and> ask m s = (s', Ok v)"
  by (auto simp: ask_opt_def split: option.splits)

text \<open>What the host answered to the messages that are not page requests.\<close>

fun replies :: "(bytes list \<Rightarrow> command) \<Rightarrow> bytes list \<Rightarrow> bytes list \<Rightarrow> bytes list" where
  "replies h before [] = []"
| "replies h before (m # ms) =
     (if page_request m then [] else [cmd_data (h (before @ [m]))]) @ replies h (before @ [m]) ms"

lemma replies_append: "replies h before (a @ b) = replies h before a @ replies h (before @ a) b"
  by (induction a arbitrary: before) simp_all

lemma replies_pages: "calls ms = [] \<Longrightarrow> replies h before ms = []"
  by (induction ms arbitrary: before) (auto split: if_splits)

lemma put_put_seg [simp]: "put_seg i g (put_seg i h c) = put_seg i g c"
  by (cases i) simp_all

lemma interrupt_Ok_data:
  assumes "interrupt m w = (w', Ok data)"
  shows "data = cmd_data (host w (sent w @ [m]))"
  using assms by (auto simp: interrupt_def Let_def split: sum.splits Instruction.splits if_splits)

lemma send_chunks_unfold:
  "send_chunks pm i ty first p n =
     (if n = 0 then returnS ()
      else let k = min n (if first then 255 - 6 else 255 - 1) in
        bindS (guest_on i (read_buffer pm p k)) (\<lambda>data.
        bindS (ask_opt (chunk_message first (of_nat n) ty data)) (\<lambda>_.
        send_chunks pm i ty False (p + of_nat k) (n - k))))"
  by (rule ext, subst send_chunks.simps) (simp add: Let_def bindS_def split: prod.splits sum.splits)

context guest_memory
begin

lemma rel_world:
  assumes "cpu_rel (w, c) t" "world_le w w'"
  shows "cpu_rel (w', c) t"
  using assms(1) rep_world [OF _ assms(2)] by (simp add: cpu_rel_def seg_rel_def)

lemma ask_run:
  assumes "cpu_rel (w, c) t" "ask m (w, c) = ((w', c'), r)"
  shows "cpu_rel (w', c') t" "sent w' = sent w @ [m]" "cpu_ok (w', c') = cpu_ok (w, c)"
proof -
  have e: "c' = c" "w' = w\<lparr>sent := sent w @ [m]\<rparr>" using ask_sent [OF assms(2)] by auto
  then have "world_le w w'" by (simp add: world_le_def)
  then show "cpu_rel (w', c') t" using rel_world assms(1) e(1) by blast
  show "sent w' = sent w @ [m]" "cpu_ok (w', c') = cpu_ok (w, c)" using e by (simp_all add: cpu_ok_def)
qed

lemma frame_send_chunks: "steps call_frame (send_chunks pm i ty first p n)"
proof (induction n arbitrary: first p rule: less_induct)
  case (less n)
  let ?k = "min n (if first then 255 - 6 else 255 - 1)"
  have rest: "steps call_frame (send_chunks pm i ty False (p + of_nat ?k) (n - ?k))" if "n \<noteq> 0"
    by (rule less.IH) (use that in auto)
  have send: "steps call_frame (ask_opt m)" for m
    by (cases m) (simp_all add: ask_opt_def frame_intros frame_ask)
  show ?case
  proof (cases "n = 0")
    case True
    then show ?thesis by (subst send_chunks_unfold) (simp add: frame_intros(2))
  next
    case False
    show ?thesis
      by (subst send_chunks_unfold, simp only: False if_False Let_def)
        (intro frame_intros(1) frame_read send rest [OF False])
  qed
qed

text \<open>One chunk: the bytes read, the message sent, and the state after it.\<close>

lemma send_chunk_run:
  assumes rel: "cpu_rel (w, c) ((), vc)" and n: "n \<noteq> 0" "n < 2 ^ 32"
    and run: "send_chunks pm i ty first p n (w, c) = ((w', c'), Ok ())" and ok: "cpu_ok (w', c')"
  defines "k \<equiv> min n (if first then 255 - 6 else 255 - 1)"
  obtains w1 c1 m ms where "cpu_rel (w1, c1) ((), vc)" "in_seg (the_seg i vc) (unat p) k"
    "chunk_message first (of_nat n) ty (seg_bytes (the_seg i vc) p k) = Some m"
    "sent w1 = sent w @ ms @ [m]" "calls ms = []"
    "send_chunks pm i ty False (p + of_nat k) (n - k) (w1, c1) = ((w', c'), Ok ())"
proof -
  from run n(1) obtain s1 data s2 v where 1: "guest_on i (read_buffer pm p k) (w, c) = (s1, Ok data)"
    and 2: "ask_opt (chunk_message first (of_nat n) ty data) s1 = (s2, Ok v)"
    and 3: "send_chunks pm i ty False (p + of_nat k) (n - k) s2 = ((w', c'), Ok ())"
    by (subst (asm) send_chunks_unfold) (auto simp: Let_def bindS_Ok_iff k_def)
  obtain wa ca where s1: "s1 = (wa, ca)" by fastforce
  obtain wb cb where s2: "s2 = (wb, cb)" by fastforce
  obtain m where m: "chunk_message first (of_nat n) ty data = Some m" "ask m (wa, ca) = ((wb, cb), Ok v)"
    using ask_opt_Ok [OF 2] s1 s2 by blast
  have "call_frame s2 (w', c')" by (rule stepsD [OF frame_send_chunks 3])
  then have okb: "cpu_ok (wb, cb)" using ok s2 by (simp add: call_frame_def)
  then have oka: "cpu_ok (wa, ca)" using ask_sent [OF m(2)] by (simp add: cpu_ok_def)
  have k: "k < 2 ^ 32" using n by (simp add: k_def)
  note r = guest_read_run [OF rel 1 [unfolded s1] oka k]
  note a = ask_run [OF r(1) m(2)]
  obtain ms where "sent wa = sent w @ ms" "calls ms = []" using page_traffic_calls [OF r(4)] by blast
  with a r m 3 s2 show thesis by (intro that) auto
qed

lemma send_continued_run:
  assumes "cpu_rel (w, c) ((), vc)" "n < 2 ^ 32"
    and "send_chunks pm i ty False p n (w, c) = ((w', c'), Ok ())" "cpu_ok (w', c')"
  shows "cpu_rel (w', c') ((), vc) \<and> length (seg_bytes (the_seg i vc) p n) = n \<and> (\<exists>ms. sent w' = sent w @ ms \<and>
    receive_continued (of_nat n) buf (map (Pair InterruptedExecution_sw) (calls ms)) =
      Some (Ok (buf @ seg_bytes (the_seg i vc) p n)))"
  using assms
proof (induction n arbitrary: w c p buf rule: less_induct)
  case (less n)
  show ?case
  proof (cases "n = 0")
    case True
    with less.prems show ?thesis
      by (subst (asm) send_chunks_unfold, subst receive_continued.simps) (simp add: seg_bytes_def)
  next
    case False
    let ?k = "min n 254" and ?v = "the_seg i vc"
    have k: "?k \<le> n" "n - ?k < n" using False by simp_all
    obtain w1 c1 m ms where s: "cpu_rel (w1, c1) ((), vc)" "in_seg ?v (unat p) ?k"
      "chunk_message False (of_nat n) ty (seg_bytes ?v p ?k) = Some m"
      "sent w1 = sent w @ ms @ [m]" "calls ms = []"
      "send_chunks pm i ty False (p + of_nat ?k) (n - ?k) (w1, c1) = ((w', c'), Ok ())"
      by (rule send_chunk_run [OF less.prems(1) False less.prems(2-4)]) (rule that; simp)
    have ok: "vec_seg_ok ?v" by (rule rel_vec_ok [OF s(1)])
    then have fits: "seg_fits ?v (length (paged_memory ?v))" by (simp add: vec_seg_ok_def)
    have m: "m = SendBufferContinuedMessage_serialize (SendBufferContinuedMessage_new (seg_bytes ?v p ?k))"
      using s(3) by (simp add: chunk_message_def)
    have "n - ?k < 2 ^ 32" using less.prems(2) by simp
    from less.IH [OF k(2) s(1) this s(6) less.prems(4), of "buf @ seg_bytes ?v p ?k"]
    obtain ms' where IH: "cpu_rel (w', c') ((), vc)" "length (seg_bytes ?v (p + of_nat ?k) (n - ?k)) = n - ?k" "sent w' = sent w1 @ ms'"
      "receive_continued (of_nat (n - ?k)) (buf @ seg_bytes ?v p ?k) (map (Pair InterruptedExecution_sw) (calls ms')) =
        Some (Ok ((buf @ seg_bytes ?v p ?k) @ seg_bytes ?v (p + of_nat ?k) (n - ?k)))"
      by blast
    have u: "unat (of_nat n :: u32) = n" using less.prems(2) by (simp add: unat_of_nat)
    have l: "length (seg_bytes ?v p ?k) = ?k" by (rule length_seg_bytes [OF ok s(2)])
    have "receive_continued (of_nat n) buf ((InterruptedExecution_sw, m) # map (Pair InterruptedExecution_sw) (calls ms')) =
        receive_continued (of_nat n - of_nat ?k) (buf @ seg_bytes ?v p ?k) (map (Pair InterruptedExecution_sw) (calls ms'))"
      unfolding m using receive_continued_chunk [of "seg_bytes ?v p ?k" "of_nat n"] l u k(1) False
      by (metis unat_0)
    also have "of_nat n - of_nat ?k = (of_nat (n - ?k) :: u32)" using k(1) by (rule of_nat_diff [symmetric])
    also note IH(4)
    also have "(buf @ seg_bytes ?v p ?k) @ seg_bytes ?v (p + of_nat ?k) (n - ?k) = buf @ seg_bytes ?v p n"
      using seg_bytes_add [OF fits s(2), of "n - ?k"] k(1) by simp
    also have "(InterruptedExecution_sw, m) # map (Pair InterruptedExecution_sw) (calls ms') =
        map (Pair InterruptedExecution_sw) (calls (ms @ [m] @ ms'))"
      using s(5) chunk_not_page_request(1) m by simp
    finally have R: "receive_continued (of_nat n) buf (map (Pair InterruptedExecution_sw) (calls (ms @ [m] @ ms'))) =
        Some (Ok (buf @ seg_bytes ?v p n))" .
    have "sent w' = sent w @ ms @ [m] @ ms'" using IH(3) s(4) by simp
    moreover have "length (seg_bytes ?v p n) = n"
      using seg_bytes_add [OF fits s(2), of "n - ?k"] k(1) l IH(2) by simp
    ultimately show ?thesis using R IH(1) by blast
  qed
qed

lemma rel_segment:
  assumes "cpu_rel (w, c) (u, vc)" "guest_segment p (w, c) = (s', Ok i)"
  shows "s' = (w, c)" "get_segment vc p = (Ok i :: (unit cpu_error, seg_id) result)"
    "contains (the_seg i vc) p"
  using assms(2) rel_contains [OF assms(1), of StackSeg p] rel_contains [OF assms(1), of DataSeg p]
    rel_contains [OF assms(1), of CodeSeg p]
  by (auto simp: guest_segment_def get_segment_def split: sum.splits if_splits)

lemma handle_send_buffer_run:
  assumes rel: "cpu_rel (w, c) ((), vc)"
    and run: "handle_send_buffer pm buffer n ty (w, c) = ((w', c'), Ok ())" and ok: "cpu_ok (w', c')"
  shows "cpu_rel (w', c') ((), vc) \<and> (\<exists>ms m rest content. sent w' = sent w @ ms \<and> calls ms = m # rest \<and>
    (if n = 0 then content = []
     else \<exists>i. get_segment vc buffer = (Ok i :: (unit cpu_error, seg_id) result) \<and>
            content = seg_bytes (the_seg i vc) buffer (unat n) \<and> length content = unat n) \<and>
    process_send_buffer_generic m (map (Pair InterruptedExecution_sw) rest) = Some (Ok (ty, content)))"
proof (cases "n = 0")
  case True
  obtain m where m: "SendBufferMessage_new 0 ty [] = Some m" by (simp add: SendBufferMessage_new_def)
  from run True m obtain v where a: "ask (SendBufferMessage_serialize m) (w, c) = ((w', c'), Ok v)"
    by (auto simp: handle_send_buffer_def chunk_message_def ask_opt_def bindS_Ok_iff)
  note a = ask_run [OF rel a]
  have "process_send_buffer_generic (SendBufferMessage_serialize m) [] = Some (Ok (ty, []))"
    using send_read [OF m] by (simp add: process_send_buffer_generic_def receive_continued.simps)
  with a True chunk_not_page_request(2) [OF m] show ?thesis
    by (intro conjI exI [of _ "[SendBufferMessage_serialize m]"] exI [of _ "[]"] exI [of _ "SendBufferMessage_serialize m"]) auto
next
  case False
  let ?n = "unat n"
  have n: "?n \<noteq> 0" "?n < 2 ^ 32" using False unsigned_less [of n] by (simp_all add: unat_eq_zero)
  from run False obtain i s where g: "guest_segment buffer (w, c) = (s, Ok i)"
    and sc: "send_chunks pm i ty True buffer ?n s = ((w', c'), Ok ())"
    by (auto simp: handle_send_buffer_def bindS_Ok_iff split: if_splits)
  note seg = rel_segment [OF rel g]
  note sc = sc [unfolded seg(1)]
  let ?v = "the_seg i vc" and ?k = "min ?n 249"
  obtain w1 c1 m ms where s: "cpu_rel (w1, c1) ((), vc)" "in_seg ?v (unat buffer) ?k"
    "chunk_message True (of_nat ?n) ty (seg_bytes ?v buffer ?k) = Some m"
    "sent w1 = sent w @ ms @ [m]" "calls ms = []"
    "send_chunks pm i ty False (buffer + of_nat ?k) (?n - ?k) (w1, c1) = ((w', c'), Ok ())"
    by (rule send_chunk_run [OF rel n sc ok]) (rule that; simp)
  have v: "vec_seg_ok ?v" by (rule rel_vec_ok [OF rel])
  then have fits: "seg_fits ?v (length (paged_memory ?v))" by (simp add: vec_seg_ok_def)
  obtain m0 where m0: "SendBufferMessage_new n ty (seg_bytes ?v buffer ?k) = Some m0" "m = SendBufferMessage_serialize m0"
    using s(3) by (auto simp: chunk_message_def)
  have "?n - ?k < 2 ^ 32" using n(2) by simp
  from send_continued_run [OF s(1) this s(6) ok, of "seg_bytes ?v buffer ?k"] obtain ms' where
    IH: "cpu_rel (w', c') ((), vc)" "length (seg_bytes ?v (buffer + of_nat ?k) (?n - ?k)) = ?n - ?k" "sent w' = sent w1 @ ms'"
      "receive_continued (of_nat (?n - ?k)) (seg_bytes ?v buffer ?k) (map (Pair InterruptedExecution_sw) (calls ms')) =
        Some (Ok (seg_bytes ?v buffer ?k @ seg_bytes ?v (buffer + of_nat ?k) (?n - ?k)))" by blast
  have l: "length (seg_bytes ?v buffer ?k) = ?k" by (rule length_seg_bytes [OF v s(2)])
  have all: "seg_bytes ?v buffer ?n = seg_bytes ?v buffer ?k @ seg_bytes ?v (buffer + of_nat ?k) (?n - ?k)"
    using seg_bytes_add [OF fits s(2), of "?n - ?k"] by simp
  have rem: "n - of_nat ?k = of_nat (?n - ?k)" by (simp add: of_nat_diff)
  have "process_send_buffer_generic m (map (Pair InterruptedExecution_sw) (calls ms')) =
      Some (Ok (ty, seg_bytes ?v buffer ?n))"
    unfolding process_send_buffer_generic_def m0(2) send_read [OF m0(1)] option.case sum.case rem l
    using IH(4) by (simp add: all)
  moreover have "length (seg_bytes ?v buffer ?n) = ?n" using l all IH(2) by simp
  moreover have "calls (ms @ [m] @ ms') = m # calls ms'"
    using s(5) chunk_not_page_request(2) [OF m0(1)] m0(2) by simp
  moreover have "sent w' = sent w @ ms @ [m] @ ms'" using IH(3) s(4) by simp
  ultimately show ?thesis using IH(1) seg(2) unfolding if_not_P [OF False] by blast
qed

end

section \<open>Receiving\<close>

text \<open>One round of the loop, as a computation, and the rest of it.\<close>

definition xrecv_round ::
  "('k device, 'm, 'r) PagedMemory \<Rightarrow> seg_id \<Rightarrow> u32 \<Rightarrow> u32 \<Rightarrow> u32 option \<Rightarrow> ('k, 'm, bytes \<times> u32) ecall_m" where
  "xrecv_round pm i max_size p remaining =
     bindS (ask (ReceiveBufferMessage_serialize ReceiveBufferMessage_new)) (\<lambda>raw.
     case ReceiveBufferResponse_deserialize raw of
       Inl e \<Rightarrow> throwS (MessageError e)
     | Inr response \<Rightarrow>
         (case check_remaining remaining max_size (rbr_remaining_length response) of
            Inl e \<Rightarrow> throwS e
          | Inr left \<Rightarrow>
              bindS (guest_on i (write_buffer pm p (rbr_content response))) (\<lambda>_.
              if (of_nat (length (rbr_content response)) :: u32) > left
              then throwS (CommInvalidResponse ''Chunk exceeds declared remaining length'')
              else returnS (rbr_content response, left - of_nat (length (rbr_content response))))))"

lemma xrecv_loop_induct [consumes 1, case_names final error round]:
  assumes "xrecv_loop pm i max_size p remaining tot s = Some out"
    and final: "\<And>p tot s. P p (Some 0) tot s (s, Ok tot)"
    and error: "\<And>p remaining tot s s' e. \<lbrakk>remaining \<noteq> Some 0; xrecv_round pm i max_size p remaining s = (s', Err e)\<rbrakk>
      \<Longrightarrow> P p remaining tot s (s', Err e)"
    and round: "\<And>p remaining tot s s' chunk r out.
      \<lbrakk>remaining \<noteq> Some 0; xrecv_round pm i max_size p remaining s = (s', Ok (chunk, r));
       P (p + of_nat (length chunk)) (Some r) (tot + length chunk) s' out\<rbrakk> \<Longrightarrow> P p remaining tot s out"
  shows "P p remaining tot s out"
proof -
  have "pm' = pm \<and> i' = i \<and> max' = max_size \<longrightarrow> P p remaining tot s out"
    if "xrecv_loop pm' i' max' p remaining tot s = Some out" for pm' i' max' p remaining tot s out
  proof (rule xrecv_loop.raw_induct [OF _ that, where P = "\<lambda>pm' i' max' p remaining tot s out.
      pm' = pm \<and> i' = i \<and> max' = max_size \<longrightarrow> P p remaining tot s out"], goal_cases)
    case (1 loop pm' i' max' p remaining tot s out)
    obtain s' res where r: "xrecv_round pm' i' max' p remaining s = (s', res)" by fastforce
    have body: "if remaining = Some 0 then out = (s, Ok tot) else case res of
        Inl e \<Rightarrow> out = (s', Err e)
      | Inr (chunk, n) \<Rightarrow> loop pm' i' max' (p + of_nat (length chunk)) (Some n) (tot + length chunk) s' = Some out"
      using 1(2) r
      by (auto simp: xrecv_round_def bindS_def Let_def split: prod.splits sum.splits if_splits)
    show ?case
    proof (intro impI, elim conjE)
      assume e: "pm' = pm" "i' = i" "max' = max_size"
      show "P p remaining tot s out"
      proof (cases "remaining = Some 0")
        case True
        with body final show ?thesis by simp
      next
        case False
        show ?thesis
        proof (cases res)
          case (Inl err)
          with body False error [OF False, of p s s' err tot] r e show ?thesis by simp
        next
          case (Inr v)
          obtain chunk n where v: "v = (chunk, n)" by fastforce
          have "loop pm' i' max' (p + of_nat (length chunk)) (Some n) (tot + length chunk) s' = Some out"
            using body False Inr v by simp
          then have "P (p + of_nat (length chunk)) (Some n) (tot + length chunk) s' out" using 1(1) e by blast
          then show ?thesis using round [OF False, of p s s' chunk n tot out] r Inr v e by simp
        qed
      qed
    qed
  qed
  then show ?thesis using assms(1) by blast
qed

context guest_memory
begin

lemma frame_xrecv_round: "steps call_frame (xrecv_round pm i max_size p remaining)"
  unfolding xrecv_round_def by (auto intro!: frame_intros frame_ask frame_write split: sum.splits)

text \<open>A round that succeeds: what the host answered, and what is written.\<close>

lemma xrecv_round_run:
  assumes rel: "cpu_rel (w, c) ((), vc)" and i: "i \<noteq> CodeSeg"
    and run: "xrecv_round pm i max_size p remaining (w, c) = ((w', c'), Ok (chunk, n))" and ok: "cpu_ok (w', c')"
  obtains ms g declared resp raw where "cpu_rel (w', c') ((), put_seg i g vc)" "in_seg (the_seg i vc) (unat p) (length chunk)"
    "flat g = overwrite chunk (flat_pos (the_seg i vc) p) (flat (the_seg i vc))"
    "start_address g = start_address (the_seg i vc)" "seg_size g = seg_size (the_seg i vc)"
    "sent w' = sent w @ ms" "calls ms = [ReceiveBufferMessage_serialize ReceiveBufferMessage_new]"
    "replies (host w) (sent w) ms = [raw]" "ReceiveBufferResponse_deserialize raw = Ok resp"
    "rbr_content resp = chunk" "rbr_remaining_length resp = declared" "n = declared - of_nat (length chunk)"
    "length chunk \<le> unat declared" "check_remaining remaining max_size declared = Ok declared" "host w' = host w"
proof -
  let ?req = "ReceiveBufferMessage_serialize ReceiveBufferMessage_new"
  from run obtain wa ca raw where 1: "ask ?req (w, c) = ((wa, ca), Ok raw)"
    and rest: "(case ReceiveBufferResponse_deserialize raw of
       Inl e \<Rightarrow> throwS (MessageError e)
     | Inr response \<Rightarrow>
         (case check_remaining remaining max_size (rbr_remaining_length response) of
            Inl e \<Rightarrow> throwS e
          | Inr left \<Rightarrow>
              bindS (guest_on i (write_buffer pm p (rbr_content response))) (\<lambda>_.
              if (of_nat (length (rbr_content response)) :: u32) > left
              then throwS (CommInvalidResponse ''Chunk exceeds declared remaining length'')
              else returnS (rbr_content response, left - of_nat (length (rbr_content response)))))) (wa, ca)
        = ((w', c'), Ok (chunk, n))"
    unfolding xrecv_round_def by (auto simp: bindS_Ok_iff)
  from rest obtain resp where resp: "ReceiveBufferResponse_deserialize raw = Ok resp"
    by (cases "ReceiveBufferResponse_deserialize raw") simp_all
  from rest resp obtain left where left: "check_remaining remaining max_size (rbr_remaining_length resp) = Ok left"
    by (cases "check_remaining remaining max_size (rbr_remaining_length resp)") simp_all
  from rest resp left have 2: "guest_on i (write_buffer pm p (rbr_content resp)) (wa, ca) = ((w', c'), Ok ())"
    and out: "chunk = rbr_content resp" "n = left - of_nat (length chunk)"
    by (auto simp: bindS_Ok_iff split: if_splits)
  have left': "left = rbr_remaining_length resp"
    using left by (auto simp: check_remaining_def split: option.splits if_splits)
  have len: "length chunk \<le> unat left"
    using receive_buffer_response.des_wf [of raw resp] resp out(1) left' by (simp add: ReceiveBufferResponse_wf_def)
  then have len32: "length (rbr_content resp) < 2 ^ 32" using unat_u32_less [of left] out(1) by simp
  note a = ask_run [OF rel 1]
  obtain g where g: "cpu_rel (w', c') ((), put_seg i g vc)" "in_seg (the_seg i vc) (unat p) (length chunk)"
    "flat g = overwrite chunk (flat_pos (the_seg i vc) p) (flat (the_seg i vc))"
    "start_address g = start_address (the_seg i vc)" "seg_size g = seg_size (the_seg i vc)" "page_traffic wa w'"
    using guest_write_run [OF a(1) 2 _ len32 i] ok out by blast
  obtain ms where ms: "sent w' = sent wa @ ms" "calls ms = []" using page_traffic_calls [OF g(6)] by blast
  have req: "\<not> page_request ?req" by (simp add: page_request_def ser_defs new_defs)
  have "interrupt ?req w = (wa, Ok raw)"
    using 1 by (auto simp: ask_def split: prod.splits)
  from interrupt_Ok_data [OF this] have raw: "raw = cmd_data (host w (sent w @ [?req]))" .
  have host: "host w' = host w" using g(6) ask_sent [OF 1] by (simp add: page_traffic_def world_le_def)
  show thesis
  proof (rule that [of g "?req # ms" raw resp left])
    show "sent w' = sent w @ ?req # ms" using a(2) ms(1) by simp
    show "calls (?req # ms) = [?req]" using req ms(2) by simp
    show "replies (host w) (sent w) (?req # ms) = [raw]" using req raw replies_pages [OF ms(2)] by simp
  qed (use g out resp left left' len host in simp_all)
qed

text \<open>What the rest of the loop does, from the state \<open>(w, c)\<close> that stands for \<open>vc\<close>.\<close>

definition xrecv_effect ::
  "seg_id \<Rightarrow> u32 \<Rightarrow> u32 \<Rightarrow> u32 option \<Rightarrow> nat \<Rightarrow> 'k device \<Rightarrow> VecMemory cpu \<Rightarrow> 'k device \<times> 'm cpu \<Rightarrow> nat \<Rightarrow> bool" where
  "xrecv_effect i max_size p remaining tot w vc s' received \<longleftrightarrow>
     (\<exists>content g ms. cpu_rel s' ((), put_seg i g vc) \<and> received = tot + length content \<and>
        (remaining \<noteq> Some 0 \<longrightarrow> in_seg (the_seg i vc) (unat p) (length content)) \<and>
        flat g = overwrite content (flat_pos (the_seg i vc) p) (flat (the_seg i vc)) \<and>
        start_address g = start_address (the_seg i vc) \<and> seg_size g = seg_size (the_seg i vc) \<and>
        sent (fst s') = sent w @ ms \<and> set (calls ms) \<subseteq> {ReceiveBufferMessage_serialize ReceiveBufferMessage_new} \<and>
        (case remaining of None \<Rightarrow> length content \<le> unat max_size | Some r \<Rightarrow> length content = unat r) \<and>
        (if remaining = Some 0 then calls ms = [] \<and> content = []
         else transfers (replies (host w) (sent w) ms) content))"

lemma xrecv_effect_step:
  assumes rel: "cpu_rel (w, c) ((), vc)" and i: "i \<noteq> CodeSeg" and rem: "remaining \<noteq> Some 0"
    and run: "xrecv_round pm i max_size p remaining (w, c) = ((w1, c1), Ok (chunk, r))" and ok: "cpu_ok (w1, c1)"
    and IH: "\<And>vc. cpu_rel (w1, c1) ((), vc) \<Longrightarrow>
      xrecv_effect i max_size (p + of_nat (length chunk)) (Some r) (tot + length chunk) w1 vc s' received"
  shows "xrecv_effect i max_size p remaining tot w vc s' received"
proof -
  let ?v = "the_seg i vc" and ?k = "length chunk"
  obtain ms g declared resp raw where 1: "cpu_rel (w1, c1) ((), put_seg i g vc)" "in_seg ?v (unat p) ?k"
    "flat g = overwrite chunk (flat_pos ?v p) (flat ?v)" "start_address g = start_address ?v" "seg_size g = seg_size ?v"
    "sent w1 = sent w @ ms" "calls ms = [ReceiveBufferMessage_serialize ReceiveBufferMessage_new]"
    "replies (host w) (sent w) ms = [raw]" "ReceiveBufferResponse_deserialize raw = Ok resp"
    "rbr_content resp = chunk" "rbr_remaining_length resp = declared" "r = declared - of_nat ?k"
    "?k \<le> unat declared" "check_remaining remaining max_size declared = Ok declared" "host w1 = host w"
    by (rule xrecv_round_run [OF rel i run ok])
  obtain content g' ms' where 2: "cpu_rel s' ((), put_seg i g' vc)" "received = tot + ?k + length content"
    "r \<noteq> 0 \<longrightarrow> in_seg g (unat (p + of_nat ?k)) (length content)"
    "flat g' = overwrite content (flat_pos g (p + of_nat ?k)) (flat g)"
    "start_address g' = start_address g" "seg_size g' = seg_size g" "sent (fst s') = sent w1 @ ms'"
    "set (calls ms') \<subseteq> {ReceiveBufferMessage_serialize ReceiveBufferMessage_new}" "length content = unat r"
    "if r = 0 then calls ms' = [] \<and> content = [] else transfers (replies (host w1) (sent w1) ms') content"
    using IH [OF 1(1), simplified xrecv_effect_def the_put_seg put_put_seg option.case option.inject if_True refl]
    by blast
  have v: "vec_seg_ok ?v" by (rule rel_vec_ok [OF rel])
  then have fits: "seg_fits ?v (length (paged_memory ?v))" by (simp add: vec_seg_ok_def)
  have cong: "flat_pos g = flat_pos ?v" "in_seg g = in_seg ?v"
    using 1(4,5) by (auto simp: flat_pos_def in_seg_def fun_eq_iff)
  note adv = advance [OF fits 1(2), of ?k, simplified]
  have r: "unat r = unat declared - ?k"
  proof -
    have "?k < 2 ^ 32" using 1(13) unat_u32_less [of declared] by simp
    then have "unat (of_nat ?k :: u32) = ?k" by (simp add: unat_of_nat)
    with 1(12,13) show ?thesis by (simp add: unat_sub word_le_nat_alt)
  qed
  have whole: "in_seg ?v (unat p) (?k + length content)"
  proof (cases "r = 0")
    case True
    then show ?thesis using 1(2) 2(10) by simp
  next
    case False
    then show ?thesis using 2(3) 1(2) adv(1) by (auto simp: cong in_seg_def)
  qed
  have "flat_pos ?v p + ?k + length content \<le> length (flat ?v)"
    using flat_pos_bounds(1) [OF fits whole] length_flat [OF v] by simp
  then have flat: "flat g' = overwrite (chunk @ content) (flat_pos ?v p) (flat ?v)"
    using 2(4) 1(3) adv(3) overwrite_overwrite by (simp add: cong)
  have len: "length (chunk @ content) = unat declared" using 2(9) r 1(13) by simp
  have cont: "transfers (replies (host w) (sent w) (ms @ ms')) (chunk @ content)"
  proof -
    have e: "replies (host w) (sent w) (ms @ ms') = raw # replies (host w) (sent w1) ms'"
      using 1(6,8) by (simp add: replies_append)
    show ?thesis
    proof (cases "content = []")
      case True
      then have "calls ms' = []" using 2(9,10) by (auto simp: unat_eq_zero split: if_splits)
      then show ?thesis using e True 1(9-11) len by (simp add: replies_pages)
    next
      case False
      then have "r \<noteq> 0" using 2(9) by auto
      then have "transfers (replies (host w) (sent w1) ms') content" using 2(10) 1(15) by simp
      then show ?thesis using e False 1(9-11) len by (simp add: Let_def)
    qed
  qed
  have "case remaining of None \<Rightarrow> length (chunk @ content) \<le> unat max_size | Some n \<Rightarrow> length (chunk @ content) = unat n"
    using 1(14) len by (auto simp: check_remaining_def word_le_nat_alt not_less split: option.splits if_splits)
  then show ?thesis
    unfolding xrecv_effect_def using 1 2 flat cont whole rem
    by (intro exI [of _ "chunk @ content"] exI [of _ g'] exI [of _ "ms @ ms'"]) auto
qed

lemma xrecv_loop_run:
  assumes "xrecv_loop pm i max_size p remaining tot s = Some out" "i \<noteq> CodeSeg"
  shows "call_frame s (fst out) \<and> (\<forall>w c s' received vc. s = (w, c) \<and> out = (s', Ok received) \<and> cpu_ok s' \<and>
    cpu_rel (w, c) ((), vc) \<longrightarrow> xrecv_effect i max_size p remaining tot w vc s' received)"
  using assms(1)
proof (induction rule: xrecv_loop_induct)
  case (final p tot s)
  have "xrecv_effect i max_size p (Some 0) tot w vc (w, c) tot" if "cpu_rel (w, c) ((), vc)" for w c vc
    unfolding xrecv_effect_def using that
    by (intro exI [of _ "[]"] exI [of _ "the_seg i vc"]) (cases i; simp)
  then show ?case using call_frame_preorder(1) by (auto dest: reflpD)
next
  case (error p remaining tot s s' e)
  then show ?case using stepsD [OF frame_xrecv_round] by auto
next
  case (round p remaining tot s s1 chunk r out)
  have fr: "call_frame s s1" by (rule stepsD [OF frame_xrecv_round round(2)])
  obtain w1 c1 where s1: "s1 = (w1, c1)" by fastforce
  have "xrecv_effect i max_size p remaining tot w vc s' received"
    if h: "s = (w, c)" "out = (s', Ok received)" "cpu_ok s'" "cpu_rel (w, c) ((), vc)" for w c s' received vc
  proof (rule xrecv_effect_step [OF h(4) assms(2) round(1)])
    show "xrecv_round pm i max_size p remaining (w, c) = ((w1, c1), Ok (chunk, r))" using round(2) h(1) s1 by simp
    show "cpu_ok (w1, c1)" using round(3) h(2,3) s1 by (simp add: call_frame_def)
    show "xrecv_effect i max_size (p + of_nat (length chunk)) (Some r) (tot + length chunk) w1 vc' s' received"
      if "cpu_rel (w1, c1) ((), vc')" for vc' using round(3) h(2,3) s1 that by blast
  qed
  moreover have "call_frame s (fst out)" using fr round(3) call_frame_preorder(2) by (blast dest: transpD)
  ultimately show ?case by blast
qed

lemma handle_xrecv_run:
  assumes rel: "cpu_rel (w, c) ((), vc)" and run: "handle_xrecv pm buffer max_size (w, c) = (s', Ok received)"
    and ok: "cpu_ok s'" and code: "get_segment vc buffer \<noteq> (Ok CodeSeg :: (unit cpu_error, seg_id) result)"
  shows "\<exists>i. get_segment vc buffer = (Ok i :: (unit cpu_error, seg_id) result) \<and>
    xrecv_effect i max_size buffer None 0 w vc s' received"
proof -
  from run obtain s1 i where g: "guest_segment buffer (w, c) = (s1, Ok i)"
    and l: "(case xrecv_loop pm i max_size buffer None 0 s1 of
       None \<Rightarrow> (s1, Err CommDiverged) | Some out \<Rightarrow> out) = (s', Ok received)"
    by (auto simp: handle_xrecv_def bindS_Ok_iff)
  note seg = rel_segment [OF rel g]
  from l have loop: "xrecv_loop pm i max_size buffer None 0 (w, c) = Some (s', Ok received)"
    using seg(1) by (auto split: option.splits)
  have "i \<noteq> CodeSeg" using seg(2) code by auto
  from xrecv_loop_run [OF loop this] rel ok seg(2) show ?thesis by blast
qed

text \<open>Reading and writing a buffer whose segment is looked up first.\<close>

lemma rel_guest_read:
  assumes "cpu_rel (w, c) ((), vc)" "guest_read pm p n (w, c) = ((w', c'), Ok data)" "cpu_ok (w', c')" "n < 2 ^ 32"
  shows "\<exists>i. get_segment vc p = (Ok i :: (unit cpu_error, seg_id) result) \<and> cpu_rel (w', c') ((), vc) \<and>
    in_seg (the_seg i vc) (unat p) n \<and> data = seg_bytes (the_seg i vc) p n \<and> page_traffic w w'"
proof -
  from assms(2) obtain s1 i where g: "guest_segment p (w, c) = (s1, Ok i)"
    and r: "guest_on i (read_buffer pm p n) s1 = ((w', c'), Ok data)"
    by (auto simp: guest_read_def bindS_Ok_iff)
  note seg = rel_segment [OF assms(1) g]
  from guest_read_run [OF assms(1) r [unfolded seg(1)] assms(3,4)] seg(2) show ?thesis by blast
qed

lemma rel_guest_write:
  assumes "cpu_rel (w, c) ((), vc)" "guest_write pm p buf (w, c) = ((w', c'), Ok v)" "cpu_ok (w', c')"
    "length buf < 2 ^ 32" "get_segment vc p \<noteq> (Ok CodeSeg :: (unit cpu_error, seg_id) result)"
  shows "\<exists>i g. get_segment vc p = (Ok i :: (unit cpu_error, seg_id) result) \<and> cpu_rel (w', c') ((), put_seg i g vc) \<and>
    in_seg (the_seg i vc) (unat p) (length buf) \<and>
    flat g = overwrite buf (flat_pos (the_seg i vc) p) (flat (the_seg i vc)) \<and>
    start_address g = start_address (the_seg i vc) \<and> seg_size g = seg_size (the_seg i vc) \<and> page_traffic w w'"
proof -
  from assms(2) obtain s1 i where g: "guest_segment p (w, c) = (s1, Ok i)"
    and r: "guest_on i (write_buffer pm p buf) s1 = ((w', c'), Ok v)"
    by (auto simp: guest_write_def bindS_Ok_iff)
  note seg = rel_segment [OF assms(1) g]
  have "i \<noteq> CodeSeg" using seg(2) assms(5) by auto
  from guest_write_run [OF assms(1) r [unfolded seg(1)] assms(3,4) this] seg(2) show ?thesis by blast
qed

end

section \<open>Storage\<close>

text \<open>The slot with index \<open>j\<close> of the V-App with hash \<open>h\<close>.\<close>

definition slot_of :: "vapp_store \<Rightarrow> bytes \<Rightarrow> nat \<Rightarrow> bytes option" where
  "slot_of st h j = (case find_by_hash h st of
     None \<Rightarrow> None
   | Some k \<Rightarrow> map_option (\<lambda>e. storage_slots e ! j) (entry_at st k))"

lemma find_entry_cong:
  assumes "\<And>i. i < MAX_REGISTERED_VAPPS \<Longrightarrow> map_option p (entry_at st i) = map_option p (entry_at st' i)"
  shows "find_entry p st = find_entry p st'"
proof -
  have e: "case_option False p x \<longleftrightarrow> map_option p x = Some True" for x by (cases x) simp_all
  show ?thesis unfolding find_entry_def e by (rule find_cong) (use assms in auto)
qed

lemma slot_of_update:
  assumes k: "k < length st" "entry_at st k = Some e" and s: "j < length (storage_slots e)"
    and find: "find_by_hash h st = Some k"
    and st': "st' = st[k := \<lparr>ls_flag = STORAGE_VALID, ls_value = e\<lparr>storage_slots := (storage_slots e)[j := d]\<rparr>\<rparr>]"
  shows "slot_of st' h j = Some d" "\<And>h' j'. h' \<noteq> h \<or> j' \<noteq> j \<Longrightarrow> slot_of st' h' j' = slot_of st h' j'"
    "find_by_hash h st' = Some k"
proof -
  have at: "entry_at st' i = (if i = k then Some (e\<lparr>storage_slots := (storage_slots e)[j := d]\<rparr>) else entry_at st i)" for i
    unfolding st' by (rule entry_at_update(1) [OF k(1)])
  have same: "find_by_hash h' st' = find_by_hash h' st" for h'
    unfolding find_by_hash_def by (rule find_entry_cong) (simp add: at k(2))
  show "find_by_hash h st' = Some k" using same find by simp
  show "slot_of st' h j = Some d" using s by (simp add: slot_of_def same find at)
  have "ve_hash e = h" using find find_entry_Some k(2) unfolding find_by_hash_def by fastforce
  then have "i \<noteq> k" if "find_by_hash h' st = Some i" "h' \<noteq> h" for i h'
    using that find_entry_Some k(2) unfolding find_by_hash_def by fastforce
  then show "slot_of st' h' j' = slot_of st h' j'" if "h' \<noteq> h \<or> j' \<noteq> j" for h' j'
    using that by (auto simp: slot_of_def same at k(2) find split: option.splits)
qed

text \<open>The sizes that the array types of the source fix.\<close>

definition slots_wf :: "vapp_store \<Rightarrow> bool" where
  "slots_wf st \<longleftrightarrow> length st = MAX_REGISTERED_VAPPS \<and>
     (\<forall>i<MAX_REGISTERED_VAPPS. \<forall>e. entry_at st i = Some e \<longrightarrow>
        length (storage_slots e) = unat MAX_STORAGE_SLOTS \<and> (\<forall>s\<in>set (storage_slots e). length s = STORAGE_SLOT_SIZE))"

lemma find_slots_Some:
  assumes "find_slots eh j n st = Some k" "slots_wf st"
  obtains e where "unat n = STORAGE_SLOT_SIZE" "find_by_hash (eh_vapp_hash eh) st = Some k" "k < length st"
    "entry_at st k = Some e" "get_entry k st = Some e" "unat j < length (storage_slots e)"
    "length (storage_slots e ! unat j) = STORAGE_SLOT_SIZE"
proof -
  have find: "unat n = STORAGE_SLOT_SIZE" "find_by_hash (eh_vapp_hash eh) st = Some k" "j < MAX_STORAGE_SLOTS"
    using assms(1) by (auto simp: find_slots_def split: if_splits)
  then obtain e where k: "k < MAX_REGISTERED_VAPPS" "entry_at st k = Some e"
    using find_entry_Some unfolding find_by_hash_def by blast
  then have "length (storage_slots e) = unat MAX_STORAGE_SLOTS" "\<forall>s\<in>set (storage_slots e). length s = STORAGE_SLOT_SIZE"
    using assms(2) unfolding slots_wf_def by auto
  with find k assms(2) show thesis
    by (intro that [of e]) (auto simp: slots_wf_def get_entry_def word_less_nat_alt)
qed

lemma slots_wf_update:
  assumes "slots_wf st" "k < length st" "entry_at st k = Some e" "length d = STORAGE_SLOT_SIZE"
  shows "slots_wf (st[k := \<lparr>ls_flag = STORAGE_VALID, ls_value = e\<lparr>storage_slots := (storage_slots e)[j := d]\<rparr>\<rparr>])"
proof -
  have "length (storage_slots e) = unat MAX_STORAGE_SLOTS" "\<forall>s\<in>set (storage_slots e). length s = STORAGE_SLOT_SIZE"
    using assms unfolding slots_wf_def by auto
  moreover from this(2) have "\<forall>s\<in>set ((storage_slots e)[j := d]). length s = STORAGE_SLOT_SIZE"
    using assms(4) set_update_subset_insert [of "storage_slots e" j d] by auto
  ultimately show ?thesis
    using assms(1) unfolding slots_wf_def by (simp add: entry_at_update(1) [OF assms(2)])
qed

lemma store_slot_cpu: "store_slot k j d (w, c) = ((w', c'), r) \<Longrightarrow> c = c'"
  by (simp add: store_slot_def Let_def split: option.splits)

lemma store_slot_Ok:
  assumes "store_slot k j d (w, c) = ((w', c'), Ok v)" "get_entry k (nvram w) = Some e" "is_initialized (nvram w ! k)"
  shows "v = 1" "w' = w\<lparr>nvram := (nvram w)[k := \<lparr>ls_flag = STORAGE_VALID,
      ls_value = e\<lparr>storage_slots := (storage_slots e)[unat j := d]\<rparr>\<rparr>]\<rparr>"
  using assms by (simp_all add: store_slot_def Let_def)

lemma page_traffic_device:
  fixes w w' :: "'k device"
  shows "page_traffic w w' \<Longrightarrow> nvram w' = nvram w"
  by (cases w; cases w') (simp add: page_traffic_def)

context guest_memory
begin

lemma storage_write_run:
  assumes rel: "cpu_rel (w, c) ((), vc)" and wf: "slots_wf (nvram w)"
    and find: "find_slots eh j n (nvram w) = Some k"
    and run: "handle_storage_write pm eh j p n (w, c) = ((w', c'), Ok v)" and ok: "cpu_ok (w', c')"
  shows "v = 1 \<and> cpu_rel (w', c') ((), vc) \<and> find_slots eh j n (nvram w') = Some k \<and> slots_wf (nvram w') \<and>
    (\<exists>i. get_segment vc p = (Ok i :: (unit cpu_error, seg_id) result) \<and>
       slot_of (nvram w') (eh_vapp_hash eh) (unat j) = Some (seg_bytes (the_seg i vc) p STORAGE_SLOT_SIZE)) \<and>
    (\<forall>h' j'. h' \<noteq> eh_vapp_hash eh \<or> j' \<noteq> unat j \<longrightarrow> slot_of (nvram w') h' j' = slot_of (nvram w) h' j')"
proof -
  obtain e where e: "unat n = STORAGE_SLOT_SIZE" "find_by_hash (eh_vapp_hash eh) (nvram w) = Some k" "k < length (nvram w)"
    "entry_at (nvram w) k = Some e" "get_entry k (nvram w) = Some e" "unat j < length (storage_slots e)"
    by (rule find_slots_Some [OF find wf])
  have "bindS (guest_read pm p STORAGE_SLOT_SIZE) (store_slot k j) (w, c) = ((w', c'), Ok v)"
    using run find by (simp add: handle_storage_write_def)
  then obtain w1 c1 d where r: "guest_read pm p STORAGE_SLOT_SIZE (w, c) = ((w1, c1), Ok d)"
    and st: "store_slot k j d (w1, c1) = ((w', c'), Ok v)"
    unfolding bindS_Ok_iff by (metis surj_pair)
  have init: "is_initialized (nvram w ! k)" using e(4) by (simp add: is_initialized_entry)
  have sz: "STORAGE_SLOT_SIZE < 2 ^ 32" by (simp add: STORAGE_SLOT_SIZE_def)
  have c1: "c1 = c'" using st by (rule store_slot_cpu)
  have ok1: "cpu_ok (w1, c1)" using ok c1 by (simp add: cpu_ok_def)
  obtain i where i: "get_segment vc p = (Ok i :: (unit cpu_error, seg_id) result)" "cpu_rel (w1, c1) ((), vc)"
    "in_seg (the_seg i vc) (unat p) STORAGE_SLOT_SIZE"
    "d = seg_bytes (the_seg i vc) p STORAGE_SLOT_SIZE" "page_traffic w w1"
    using rel_guest_read [OF rel r ok1 sz] by blast
  have nv: "nvram w1 = nvram w" by (rule page_traffic_device [OF i(5)])
  note st' = store_slot_Ok [OF st, unfolded nv, OF e(5) init]
  have up: "nvram w' = (nvram w)[k := \<lparr>ls_flag = STORAGE_VALID,
      ls_value = e\<lparr>storage_slots := (storage_slots e)[unat j := d]\<rparr>\<rparr>]"
    using st'(2) by simp
  note upd = slot_of_update [OF e(3,4,6,2) up]
  have "world_le w1 w'" using st'(2) by (simp add: world_le_def)
  then have rel': "cpu_rel (w', c') ((), vc)" using rel_world i(2) c1 by blast
  have fs: "find_slots eh j n (nvram w') = Some k" using find e(2) upd(3) by (simp add: find_slots_def split: if_splits)
  have "length d = STORAGE_SLOT_SIZE" unfolding i(4) by (rule length_seg_bytes [OF rel_vec_ok [OF rel] i(3)])
  then have "slots_wf (nvram w')" unfolding up by (rule slots_wf_update [OF wf e(3,4)])
  with st'(1) rel' fs i(1,4) upd(1,2) show ?thesis by blast
qed

lemma frame_storage_read: "steps call_frame (handle_storage_read pm eh j p n)"
  unfolding handle_storage_read_def
  by (rule steps_state) (auto split: option.splits intro!: frame_intros frame_guest_write)

lemma storage_read_run:
  assumes rel: "cpu_rel (w, c) ((), vc)" and wf: "slots_wf (nvram w)"
    and find: "find_slots eh j n (nvram w) = Some k"
    and run: "handle_storage_read pm eh j p n (w, c) = (s', Ok v)"
    and code: "get_segment vc p \<noteq> (Ok CodeSeg :: (unit cpu_error, seg_id) result)"
    and ok: "cpu_ok s'"
  shows "v = 1 \<and> nvram (fst s') = nvram w \<and> (\<exists>i g d. get_segment vc p = (Ok i :: (unit cpu_error, seg_id) result) \<and>
       slot_of (nvram w) (eh_vapp_hash eh) (unat j) = Some d \<and> cpu_rel s' ((), put_seg i g vc) \<and>
       flat g = overwrite d (flat_pos (the_seg i vc) p) (flat (the_seg i vc)) \<and>
       start_address g = start_address (the_seg i vc) \<and> seg_size g = seg_size (the_seg i vc) \<and>
       seg_bytes g p STORAGE_SLOT_SIZE = d)"
proof -
  obtain e where e: "unat n = STORAGE_SLOT_SIZE" "find_by_hash (eh_vapp_hash eh) (nvram w) = Some k" "k < length (nvram w)"
    "entry_at (nvram w) k = Some e" "get_entry k (nvram w) = Some e" "unat j < length (storage_slots e)"
    "length (storage_slots e ! unat j) = STORAGE_SLOT_SIZE"
    by (rule find_slots_Some [OF find wf])
  let ?d = "storage_slots e ! unat j"
  have "bindS (guest_write pm p ?d) (\<lambda>_. returnS 1) (w, c) = (s', Ok v)"
    using run find e(5) by (simp add: handle_storage_read_def)
  then obtain u where r: "guest_write pm p ?d (w, c) = (s', Ok u)" and v: "v = 1"
    unfolding bindS_Ok_iff by auto
  have sz: "length ?d < 2 ^ 32" using e(7) by (simp add: STORAGE_SLOT_SIZE_def)
  obtain w' c' where s': "s' = (w', c')" by fastforce
  obtain i g where i: "get_segment vc p = (Ok i :: (unit cpu_error, seg_id) result)" "cpu_rel (w', c') ((), put_seg i g vc)"
    "in_seg (the_seg i vc) (unat p) (length ?d)"
    "flat g = overwrite ?d (flat_pos (the_seg i vc) p) (flat (the_seg i vc))"
    "start_address g = start_address (the_seg i vc)" "seg_size g = seg_size (the_seg i vc)" "page_traffic w w'"
    using rel_guest_write [OF rel r [unfolded s'] ok [unfolded s'] sz code] by blast
  have v0: "vec_seg_ok (the_seg i vc)" by (rule rel_vec_ok [OF rel])
  then have "flat_pos (the_seg i vc) p + length ?d \<le> length (flat (the_seg i vc))"
    using flat_pos_bounds(1) [OF _ i(3)] length_flat [OF v0] by (auto simp: vec_seg_ok_def)
  moreover have "flat_pos g = flat_pos (the_seg i vc)" using i(5) by (simp add: flat_pos_def fun_eq_iff)
  ultimately have "seg_bytes g p STORAGE_SLOT_SIZE = ?d"
    using i(4) e(7) by (simp add: seg_bytes_def overwrite_def)
  moreover have "slot_of (nvram w) (eh_vapp_hash eh) (unat j) = Some ?d" using e(2,4) by (simp add: slot_of_def)
  ultimately show ?thesis
    using v i page_traffic_device [OF i(7)] s' by auto
qed

end

section \<open>The properties of the calls\<close>

lemmas machine_iffs = machine_rel_iff machine_ok_iff

text \<open>
  C37: (xsend, print, panic) On a machine over outsourced memories that stands for \<open>vc\<close>, and against any host,
  a call that succeeds leaves the machine standing for \<open>vc\<close>; and the messages it sent besides page
  requests are, for the client's \<open>process_send_buffer_generic\<close>, a complete transfer with the
  type of the call and exactly the bytes of the V-App's buffer.
\<close>

theorem xsend_delivers:
  fixes w w' :: "'k device"
  assumes "machine_rel cr S issued (w, c) vc"
    and "handle_send_buffer (outsourced cr es) buffer n ty (w, c) = ((w', c'), Ok ())"
    and "machine_ok cr S issued c'"
  shows "machine_rel cr S issued (w', c') vc \<and> (\<exists>ms m rest content. sent w' = sent w @ ms \<and> calls ms = m # rest \<and>
    (if n = 0 then content = []
     else \<exists>i. get_segment vc buffer = (Ok i :: (unit cpu_error, seg_id) result) \<and>
            content = seg_bytes (the_seg i vc) buffer (unat n) \<and> length content = unat n) \<and>
    process_send_buffer_generic m (map (Pair InterruptedExecution_sw) rest) = Some (Ok (ty, content)))"
  using outsourced_guest.handle_send_buffer_run [OF _ assms(2)] assms(1,3) unfolding machine_iffs by blast

text \<open>
  C38: (xrecv) Against any host, a call that succeeds with a number has received content of that many bytes, at most
  \<open>max_size\<close>, that the host's answers transfer; the machine then stands for the one
  with that content in the V-App's buffer and every other byte unchanged. If the answers are those of the client's
  \<open>process_receive_buffer\<close> for a pending buffer, the content is that buffer.
\<close>

theorem xrecv_receives:
  fixes w w' :: "'k device"
  assumes "machine_rel cr S issued (w, c) vc"
    and "handle_xrecv (outsourced cr es) buffer max_size (w, c) = ((w', c'), Ok received)"
    and "machine_ok cr S issued c'" "get_segment vc buffer \<noteq> (Ok CodeSeg :: (unit cpu_error, seg_id) result)"
  shows "\<exists>i g content ms. get_segment vc buffer = (Ok i :: (unit cpu_error, seg_id) result) \<and>
    machine_rel cr S issued (w', c') (put_seg i g vc) \<and>
    flat g = overwrite content (flat_pos (the_seg i vc) buffer) (flat (the_seg i vc)) \<and>
    in_seg (the_seg i vc) (unat buffer) (length content) \<and>
    received = length content \<and> received \<le> unat max_size \<and>
    sent w' = sent w @ ms \<and> transfers (replies (host w) (sent w) ms) content \<and>
    (\<forall>buf. length buf < 2 ^ 32 \<and> replies (host w) (sent w) ms = receive_responses buf (length buf mod 2 ^ 32) 0
       \<longrightarrow> content = buf)"
proof -
  have "outsourced_guest.cpu_rel cr S issued (w, c) ((), vc)" "outsourced_guest.cpu_ok cr S issued (w', c')"
    using assms(1,3) unfolding machine_iffs .
  from outsourced_guest.handle_xrecv_run [OF this(1) assms(2) this(2) assms(4)]
  obtain i content g ms where h: "get_segment vc buffer = (Ok i :: (unit cpu_error, seg_id) result)"
    "machine_rel cr S issued (w', c') (put_seg i g vc)"
    "flat g = overwrite content (flat_pos (the_seg i vc) buffer) (flat (the_seg i vc))"
    "in_seg (the_seg i vc) (unat buffer) (length content)" "received = length content" "length content \<le> unat max_size"
    "sent w' = sent w @ ms" "transfers (replies (host w) (sent w) ms) content"
    unfolding outsourced_guest.xrecv_effect_def machine_iffs by auto
  moreover have "content = buf" if "length buf < 2 ^ 32"
    "replies (host w) (sent w) ms = receive_responses buf (length buf mod 2 ^ 32) 0" for buf
    using client_responses_transfer [OF that(1)] that(2) h(8) transfers_unique by simp
  ultimately show ?thesis by metis
qed

text \<open>
  C39: (storage) A valid request to write a slot followed by one to read it succeeds, and the bytes read into the
  second buffer are those of the first; the slots of other indices and of other V-Apps keep their
  values, and the shape of the store is preserved.
\<close>

theorem storage_roundtrip:
  fixes w w1 w2 :: "'k device"
  assumes "machine_rel cr S issued (w, c) vc" "slots_wf (nvram w)"
    and "find_slots eh j n (nvram w) = Some k"
    and "handle_storage_write (outsourced cr es) eh j p n (w, c) = ((w1, c1), Ok v)"
    and "handle_storage_read (outsourced cr es) eh j q n (w1, c1) = ((w2, c2), Ok u)"
    and "machine_ok cr S issued c2" "get_segment vc q \<noteq> (Ok CodeSeg :: (unit cpu_error, seg_id) result)"
  shows "v = 1 \<and> u = 1 \<and> slots_wf (nvram w2) \<and>
    (\<exists>i i' g. get_segment vc p = (Ok i :: (unit cpu_error, seg_id) result) \<and>
       get_segment vc q = (Ok i' :: (unit cpu_error, seg_id) result) \<and>
       machine_rel cr S issued (w2, c2) (put_seg i' g vc) \<and>
       seg_bytes g q STORAGE_SLOT_SIZE = seg_bytes (the_seg i vc) p STORAGE_SLOT_SIZE \<and>
       flat g = overwrite (seg_bytes (the_seg i vc) p STORAGE_SLOT_SIZE) (flat_pos (the_seg i' vc) q) (flat (the_seg i' vc))) \<and>
    (\<forall>h' j'. h' \<noteq> eh_vapp_hash eh \<or> j' \<noteq> unat j \<longrightarrow> slot_of (nvram w2) h' j' = slot_of (nvram w) h' j')"
proof -
  have rel: "outsourced_guest.cpu_rel cr S issued (w, c) ((), vc)" and ok2: "outsourced_guest.cpu_ok cr S issued (w2, c2)"
    using assms(1,6) unfolding machine_iffs .
  have "outsourced_guest.call_frame cr S issued (w1, c1) (w2, c2)"
    by (rule stepsD [OF outsourced_guest.frame_storage_read assms(5)])
  then have ok1: "outsourced_guest.cpu_ok cr S issued (w1, c1)"
    using ok2 by (simp add: outsourced_guest.call_frame_def)
  note wr = outsourced_guest.storage_write_run [OF rel assms(2-4) ok1]
  from wr have rel1: "outsourced_guest.cpu_rel cr S issued (w1, c1) ((), vc)" and wf1: "slots_wf (nvram w1)"
    and find1: "find_slots eh j n (nvram w1) = Some k" by blast+
  note rd = outsourced_guest.storage_read_run [OF rel1 wf1 find1 assms(5) assms(7) ok2]
  from wr obtain i where i: "get_segment vc p = (Ok i :: (unit cpu_error, seg_id) result)"
    "slot_of (nvram w1) (eh_vapp_hash eh) (unat j) = Some (seg_bytes (the_seg i vc) p STORAGE_SLOT_SIZE)" by blast
  from rd obtain i' g d where i': "get_segment vc q = (Ok i' :: (unit cpu_error, seg_id) result)"
    "slot_of (nvram w1) (eh_vapp_hash eh) (unat j) = Some d"
    "outsourced_guest.cpu_rel cr S issued (w2, c2) ((), put_seg i' g vc)"
    "flat g = overwrite d (flat_pos (the_seg i' vc) q) (flat (the_seg i' vc))" "seg_bytes g q STORAGE_SLOT_SIZE = d"
    by blast
  have d: "d = seg_bytes (the_seg i vc) p STORAGE_SLOT_SIZE" using i(2) i'(2) by simp
  have nv: "nvram w2 = nvram w1" using rd by simp
  have "v = 1" "u = 1" using wr rd by blast+
  moreover have "slots_wf (nvram w2)" using nv wf1 by simp
  moreover have "\<forall>h' j'. h' \<noteq> eh_vapp_hash eh \<or> j' \<noteq> unat j \<longrightarrow> slot_of (nvram w2) h' j' = slot_of (nvram w) h' j'"
    using wr nv by simp
  ultimately show ?thesis using i(1) i'(1,4,5) i'(3) [unfolded machine_iffs] unfolding d by blast
qed

section \<open>Concrete runs\<close>

text \<open>
  A small machine: the three segments have the two toy pages each, and one page in the cache. The host
  answers the messages in turn.
\<close>

definition toy_segment :: "u32 \<Rightarrow> SectionKind \<Rightarrow> LruEvictionStrategy OutsourcedMemory MemorySegment" where
  "toy_segment start kind = \<lparr>start_address = start, seg_size = 512,
     paged_memory = OutsourcedMemory_new 1 (kind = Code) kind 2 (toy_tree ! 0) (Lru_new 1) []\<rparr>"

definition toy_machine :: "LruEvictionStrategy OutsourcedMemory cpu" where
  "toy_machine = Cpu_new 0x3000 (toy_segment 0x3000 Code) (toy_segment 0x1000 Data) (toy_segment 0x2000 Stack)"

definition flat_segment :: "u32 \<Rightarrow> VecMemory MemorySegment" where
  "flat_segment start = \<lparr>start_address = start, seg_size = 512, paged_memory = [toy_page 1, toy_page 2]\<rparr>"

definition flat_machine :: "VecMemory cpu" where
  "flat_machine = Cpu_new 0x3000 (flat_segment 0x3000) (flat_segment 0x1000) (flat_segment 0x2000)"

definition toy_known :: "bytes list" where
  "toy_known = tree_messages 2 toy_tree @ map (\<lambda>page. stored_message (False, replicate 12 0, page)) [toy_page 1, toy_page 2]"

definition toy_device :: "bytes list \<Rightarrow> vapp_store \<Rightarrow> u8 device" where
  "toy_device answers st =
     \<lparr>host = (\<lambda>sent. \<lparr>cmd_ins = 0xff, cmd_p1 = 0, cmd_p2 = 0, cmd_data = answers ! (length sent - 1)\<rparr>),
      sent = [], aes_ctr = AesCtr_new 5, nvram = st, random_source = (\<lambda>_. 0), random_used = 0, last_event = None\<rparr>"

definition toy_page_answer :: bytes where
  "toy_page_answer = GetPageResponse_serialize
     (GetPageResponse_new (toy_page 1) False (replicate 12 0) 1 1 Merkle [toy_tree ! 2])"

text \<open>The condition on the final state of a run that \<open>machine_ok\<close> states, as a computation.\<close>

definition run_checks :: "bytes list \<Rightarrow> LruEvictionStrategy OutsourcedMemory cpu \<Rightarrow> bool" where
  "run_checks known c \<longleftrightarrow> distinct (map toy_hash (remdups (known @
       concat (map (\<lambda>i. hasher_log (om_hasher (paged_memory (the_seg i c)))) [StackSeg, DataSeg, CodeSeg])))) \<and>
     list_all (\<lambda>i. accepted_tags (paged_memory (the_seg i c)) = [] \<and> \<not> readonly_written (paged_memory (the_seg i c)))
       [StackSeg, DataSeg, CodeSeg]"

lemma run_checks_ok:
  assumes "run_checks known c"
  shows "machine_ok toy_crypto (set known) {} c"
  unfolding machine_ok_def om_ok_def
proof (intro allI conjI)
  fix i
  let ?L = "known @ concat (map (\<lambda>i. hasher_log (om_hasher (paged_memory (the_seg i c)))) [StackSeg, DataSeg, CodeSeg])"
  note checks = assms [unfolded run_checks_def]
  have "inj_on toy_hash (set (remdups ?L))" using conjunct1 [OF checks] unfolding distinct_map by (rule conjunct2)
  then have "inj_on toy_hash (set ?L)" unfolding set_remdups .
  then show "inj_on (sha256 toy_crypto) (set known \<union> set (hasher_log (om_hasher (paged_memory (the_seg i c)))))"
    unfolding toy_crypto_ok(2) by (rule inj_on_subset) (cases i; auto)
  have "accepted_tags (paged_memory (the_seg i c)) = [] \<and> \<not> readonly_written (paged_memory (the_seg i c))"
    using conjunct2 [OF checks] by (cases i) simp_all
  then show "set (accepted_tags (paged_memory (the_seg i c))) \<subseteq> {}" "\<not> readonly_written (paged_memory (the_seg i c))"
    by simp_all
qed

lemma toy_memory_rep:
  assumes "set toy_known \<subseteq> S"
  shows "om_rep toy_crypto S {} (toy_device answers st)
      (OutsourcedMemory_new 1 (kind = Code) kind 2 (toy_tree ! 0) (Lru_new 1) []) [toy_page 1, toy_page 2]"
proof (rule om_new_rep [where N = 2, OF toy_crypto_ok(1) _ toy_pages_ok])
  show "tree_ok (sha256 toy_crypto) 2 toy_tree" using toy_tree_ok(1) by (simp add: toy_crypto_ok)
  show "toy_tree ! (2 - 1 + i) = sha256 toy_crypto (stored_message (False, replicate 12 0, [toy_page 1, toy_page 2] ! i))"
    if "i < length [toy_page 1, toy_page 2]" for i
    using toy_tree_ok(2) that by (simp add: toy_crypto_ok)
  show "stored_message (False, replicate 12 0, [toy_page 1, toy_page 2] ! i) \<in> S"
    if "i < length [toy_page 1, toy_page 2]" for i
    using that assms by (auto simp: toy_known_def less_Suc_eq)
  show "checked_next_power_of_two (unat (2 :: u32)) = Some 2"
    by (simp add: checked_next_power_of_two_def next_power_of_two.simps)
qed (use assms in \<open>auto simp: toy_device_def AesCtr_new_def toy_known_def\<close>)

lemma toy_segment_rep:
  assumes "set toy_known \<subseteq> S" "a \<in> {0x1000, 0x2000, 0x3000}"
  shows "start_address (toy_segment a kind) = start_address (flat_segment a) \<and>
      seg_size (toy_segment a kind) = seg_size (flat_segment a) \<and>
      om_rep toy_crypto S {} (toy_device answers st) (paged_memory (toy_segment a kind)) (paged_memory (flat_segment a)) \<and>
      seg_fits (toy_segment a kind) (length (paged_memory (flat_segment a))) \<and>
      (kind \<noteq> Code \<longrightarrow> \<not> is_readonly (paged_memory (toy_segment a kind)))"
proof -
  have "seg_fits (toy_segment a kind) (Suc (Suc 0))" using assms(2) by (auto simp: seg_fits_def toy_segment_def PAGE_SIZE_def)
  then show ?thesis
    using toy_memory_rep [OF assms(1), of answers st kind]
    by (simp add: toy_segment_def flat_segment_def OutsourcedMemory_new_def)
qed

lemma toy_machine_rel: "machine_rel toy_crypto (set toy_known) {} (toy_device answers st, toy_machine) flat_machine"
proof -
  have "start_address (the_seg i toy_machine) = start_address (the_seg i flat_machine) \<and>
      seg_size (the_seg i toy_machine) = seg_size (the_seg i flat_machine) \<and>
      om_rep toy_crypto (set toy_known) {} (toy_device answers st)
        (paged_memory (the_seg i toy_machine)) (paged_memory (the_seg i flat_machine)) \<and>
      seg_fits (the_seg i toy_machine) (length (paged_memory (the_seg i flat_machine))) \<and>
      (i \<noteq> CodeSeg \<longrightarrow> \<not> is_readonly (paged_memory (the_seg i toy_machine)))" for i
    using toy_segment_rep [OF subset_refl, of _ _ answers st]
    by (cases i) (simp_all add: toy_machine_def flat_machine_def Cpu_new_def)
  then show ?thesis
    by (simp add: machine_rel_def Let_def toy_machine_def flat_machine_def Cpu_new_def)
qed

text \<open>The checks for overflow, without numbers of that size.\<close>

lemma overflow_less: "2 ^ 32 \<le> unat x + unat (y :: u32) \<longleftrightarrow> x + y < x"
proof -
  have "unat (x + y) = (unat x + unat y) mod 2 ^ 32" by (simp add: unat_word_ariths)
  with unat_u32_less [of x] unat_u32_less [of y] show ?thesis
    by (cases "unat x + unat y < 2 ^ 32") (simp_all add: word_less_nat_alt le_mod_geq)
qed

lemma buffer_end: "2 ^ 32 \<le> unat (x :: u32) + n \<longleftrightarrow> 4294967296 \<le> uint x + int n"
proof -
  have "2 ^ 32 \<le> unat x + n \<longleftrightarrow> int (2 ^ 32) \<le> int (unat x + n)" by (simp only: of_nat_le_iff)
  also have "int (unat x + n) = uint x + int n" by (simp only: of_nat_add uint_nat)
  finally show ?thesis by simp
qed

lemma read_buffer_code [code]:
  "read_buffer pm address len = (\<lambda>(w, seg).
     if 4294967296 \<le> uint address + int len then throwS Overflow (w, seg)
     else if address < start_address seg \<or> address + of_nat len > start_address seg + seg_size seg
     then throwS AddressOutOfBounds (w, seg)
     else read_loop pm address len (w, seg))"
  unfolding read_buffer_def buffer_end ..

lemma write_buffer_code [code]:
  "write_buffer pm address buffer = (\<lambda>(w, seg).
     if 4294967296 \<le> uint address + int (length buffer) then throwS Overflow (w, seg)
     else if address < start_address seg \<or> address + of_nat (length buffer) > start_address seg + seg_size seg
     then throwS AddressOutOfBounds (w, seg)
     else write_loop pm address buffer (w, seg))"
  unfolding write_buffer_def buffer_end ..

lemma handle_send_buffer_code [code]:
  "handle_send_buffer pm buffer n buffer_type =
     (if n = 0 then bindS (ask_opt (chunk_message True 0 buffer_type [])) (\<lambda>_. returnS ())
      else if buffer + n < buffer then throwS CommOverflow
      else bindS (guest_segment buffer) (\<lambda>i. send_chunks pm i buffer_type True buffer (unat n)))"
  unfolding handle_send_buffer_def overflow_less ..

lemma toy_tree_code [code]: "toy_tree = [replicate 31 2 @ [9], 8 # replicate 31 1, 9 # replicate 31 2]"
  by code_simp


definition toy_send :: "(u8 device \<times> LruEvictionStrategy OutsourcedMemory cpu) \<times> (CommEcallError, unit) result" where
  "toy_send = handle_send_buffer (outsourced toy_crypto Lru) 0x1000 3 Print (toy_device [toy_page_answer, []] [], toy_machine)"

definition toy_receive :: "(u8 device \<times> LruEvictionStrategy OutsourcedMemory cpu) \<times> (CommEcallError, nat) result" where
  "toy_receive = handle_xrecv (outsourced toy_crypto Lru) 0x1000 5
     (toy_device [receive_responses [7, 8] 2 0 ! 0, toy_page_answer] [], toy_machine)"

definition toy_handler :: CommEcallHandler where
  "toy_handler = \<lparr>eh_vapp_hash = replicate 32 1, eh_n_storage_slots = 2\<rparr>"

definition toy_store :: vapp_store where
  "toy_store = VAPP_STORE[3 := \<lparr>ls_flag = STORAGE_VALID, ls_value = VAppEntry_empty\<lparr>ve_hash := replicate 32 1\<rparr>\<rparr>]"

definition toy_store_slot :: "(u8 device \<times> LruEvictionStrategy OutsourcedMemory cpu) \<times> (CommEcallError, u32) result" where
  "toy_store_slot = handle_storage_write (outsourced toy_crypto Lru) toy_handler 1 0x1000 32
     (toy_device [toy_page_answer] toy_store, toy_machine)"

definition toy_load_slot :: "(u8 device \<times> LruEvictionStrategy OutsourcedMemory cpu) \<times> (CommEcallError, u32) result" where
  "toy_load_slot = handle_storage_read (outsourced toy_crypto Lru) toy_handler 1 0x1080 32 (fst toy_store_slot)"

lemma toy_send_run: "snd toy_send = Ok () \<and> run_checks toy_known (snd (fst toy_send))"
  unfolding toy_send_def by code_simp

lemma toy_receive_run: "snd toy_receive = Ok 2 \<and> run_checks toy_known (snd (fst toy_receive))"
  unfolding toy_receive_def by code_simp

lemma toy_storage_run: "snd toy_store_slot = Ok 1 \<and> snd toy_load_slot = Ok 1 \<and> run_checks toy_known (snd (fst toy_load_slot))"
  unfolding toy_load_slot_def toy_store_slot_def by code_simp

lemma toy_receive_sent: "length (sent (fst (fst toy_receive))) = 2"
  unfolding toy_receive_def by code_simp

lemma toy_slots_wf: "slots_wf toy_store"
proof -
  have "length toy_store = MAX_REGISTERED_VAPPS" by code_simp
  moreover have "list_all (\<lambda>i. case entry_at toy_store i of None \<Rightarrow> True | Some e \<Rightarrow>
      length (storage_slots e) = unat MAX_STORAGE_SLOTS \<and> list_all (\<lambda>s. length s = STORAGE_SLOT_SIZE) (storage_slots e))
      [0..<MAX_REGISTERED_VAPPS]"
    by code_simp
  ultimately show ?thesis unfolding slots_wf_def list_all_iff by (auto split: option.splits)
qed

theorem xsend_delivers_witness:
  "machine_rel toy_crypto (set toy_known) {} (fst toy_send) flat_machine \<and>
   (\<exists>ms m rest content. sent (fst (fst toy_send)) = ms \<and> calls ms = m # rest \<and> length content = 3 \<and>
     process_send_buffer_generic m (map (Pair InterruptedExecution_sw) rest) = Some (Ok (Print, content)))"
proof -
  obtain w' c' where s: "fst toy_send = (w', c')" by fastforce
  have run: "handle_send_buffer (outsourced toy_crypto Lru) 0x1000 3 Print
      (toy_device [toy_page_answer, []] [], toy_machine) = ((w', c'), Ok ())"
    using toy_send_run s unfolding toy_send_def by (metis prod.collapse)
  have "machine_ok toy_crypto (set toy_known) {} c'" using toy_send_run s run_checks_ok by simp
  from xsend_delivers [OF toy_machine_rel run this]
  obtain ms m rest content where h: "machine_rel toy_crypto (set toy_known) {} (w', c') flat_machine"
    "sent w' = sent (toy_device [toy_page_answer, []] []) @ ms" "calls ms = m # rest" "length content = 3"
    "process_send_buffer_generic m (map (Pair InterruptedExecution_sw) rest) = Some (Ok (Print, content))"
    by auto
  have "sent w' = ms" using h(2) by (simp add: toy_device_def)
  with h s show ?thesis by (metis fst_conv)
qed

theorem xrecv_receives_witness:
  "\<exists>i g content ms. get_segment flat_machine 0x1000 = (Ok i :: (unit cpu_error, seg_id) result) \<and>
     machine_rel toy_crypto (set toy_known) {} (fst toy_receive) (put_seg i g flat_machine) \<and>
     flat g = overwrite content (flat_pos (the_seg i flat_machine) 0x1000) (flat (the_seg i flat_machine)) \<and>
     length content = 2 \<and> sent (fst (fst toy_receive)) = ms \<and> length ms = 2"
proof -
  obtain w' c' where s: "fst toy_receive = (w', c')" by fastforce
  have run: "handle_xrecv (outsourced toy_crypto Lru) 0x1000 5
      (toy_device [receive_responses [7, 8] 2 0 ! 0, toy_page_answer] [], toy_machine) = ((w', c'), Ok 2)"
    using toy_receive_run s unfolding toy_receive_def by (metis prod.collapse)
  have ok: "machine_ok toy_crypto (set toy_known) {} c'" using toy_receive_run s run_checks_ok by simp
  have seg: "get_segment flat_machine 0x1000 \<noteq> (Ok CodeSeg :: (unit cpu_error, seg_id) result)" by code_simp
  have "length (sent w') = 2" using toy_receive_sent s by simp
  moreover from xrecv_receives [OF toy_machine_rel run ok seg]
  obtain i g content where "get_segment flat_machine 0x1000 = (Ok i :: (unit cpu_error, seg_id) result)"
    "machine_rel toy_crypto (set toy_known) {} (w', c') (put_seg i g flat_machine)"
    "flat g = overwrite content (flat_pos (the_seg i flat_machine) 0x1000) (flat (the_seg i flat_machine))"
    "2 = length content"
    by blast
  ultimately show ?thesis using s by (metis fst_conv)
qed

theorem storage_roundtrip_witness:
  "snd toy_store_slot = Ok 1 \<and> snd toy_load_slot = Ok 1 \<and> slots_wf (nvram (fst (fst toy_load_slot))) \<and>
   (\<exists>i i' g. get_segment flat_machine 0x1000 = (Ok i :: (unit cpu_error, seg_id) result) \<and>
      get_segment flat_machine 0x1080 = (Ok i' :: (unit cpu_error, seg_id) result) \<and>
      seg_bytes g 0x1080 STORAGE_SLOT_SIZE = seg_bytes (the_seg i flat_machine) 0x1000 STORAGE_SLOT_SIZE)"
proof -
  obtain w1 c1 where s1: "fst toy_store_slot = (w1, c1)" by fastforce
  obtain w2 c2 where s2: "fst toy_load_slot = (w2, c2)" by fastforce
  have wr: "handle_storage_write (outsourced toy_crypto Lru) toy_handler 1 0x1000 32
      (toy_device [toy_page_answer] toy_store, toy_machine) = ((w1, c1), Ok 1)"
    using toy_storage_run s1 unfolding toy_store_slot_def by (metis prod.collapse)
  have rd: "handle_storage_read (outsourced toy_crypto Lru) toy_handler 1 0x1080 32 (w1, c1) = ((w2, c2), Ok 1)"
    using toy_storage_run s1 s2 unfolding toy_load_slot_def by (metis prod.collapse)
  have ok: "machine_ok toy_crypto (set toy_known) {} c2" using toy_storage_run s2 run_checks_ok by simp
  have seg: "get_segment flat_machine 0x1080 \<noteq> (Ok CodeSeg :: (unit cpu_error, seg_id) result)" by code_simp
  have find: "find_slots toy_handler 1 32 (nvram (toy_device [toy_page_answer] toy_store)) = Some 3" by code_simp
  have wf: "slots_wf (nvram (toy_device [toy_page_answer] toy_store))"
    by (simp add: toy_device_def toy_slots_wf)
  from storage_roundtrip [OF toy_machine_rel wf find wr rd ok seg] show ?thesis
    using toy_storage_run s2 by auto
qed

end
