(* ===== verification/Ecall_Crypto.thy ===== *)
theory Ecall_Crypto
  imports Ecall
begin

text \<open>
  The system calls for keys, elliptic curves and signatures (\<open>vm/src/handlers/lib/ecall.rs\<close> and
  \<open>ecall/slip21.rs\<close>). The handlers check their arguments, copy the operands from the V-App's memory,
  call the SDK of the device, whose functions are parameters, and copy the result back.
\<close>

datatype ec_result = EcPoint bytes | EcInfinite | EcError

text \<open>
  The SDK. A point is the array \<open>W\<close> of 65 bytes. A signature comes in its buffer, with its length; the
  randomised signer also reads the random source, and says how much.
\<close>

record crypto_sdk =
  os_perso_derive_node_bip32 :: "u8 \<Rightarrow> u32 list \<Rightarrow> bytes \<times> bytes"
  cx_ecfp_public_key :: "u8 \<Rightarrow> bytes \<Rightarrow> (bytes \<times> nat) option"
  sdk_sha256 :: "bytes \<Rightarrow> bytes"
  sdk_ripemd160 :: "bytes \<Rightarrow> bytes"
  os_perso_derive_slip21 :: "bytes \<Rightarrow> bytes"
  hmac_sha512 :: "bytes \<Rightarrow> bytes \<Rightarrow> bytes"
  cx_ecfp_add_point :: "u8 \<Rightarrow> bytes \<Rightarrow> bytes \<Rightarrow> ec_result"
  cx_ecfp_scalar_mult :: "u8 \<Rightarrow> bytes \<Rightarrow> bytes \<Rightarrow> ec_result"
  cx_ecdsa_sign :: "bytes \<Rightarrow> bytes \<Rightarrow> (bytes \<times> nat) option"
  cx_ecdsa_verify :: "bytes \<Rightarrow> bytes \<Rightarrow> bytes \<Rightarrow> bool"
  cx_ecschnorr_sign :: "bytes \<Rightarrow> u32 \<Rightarrow> bytes \<Rightarrow> bytes \<Rightarrow> (nat \<Rightarrow> u8) \<Rightarrow> nat \<times> (bytes \<times> nat) option"
  cx_ecschnorr_verify :: "bytes \<Rightarrow> u32 \<Rightarrow> bytes \<Rightarrow> bytes \<Rightarrow> bool"

section \<open>Key derivation\<close>

definition Secp256k1 :: u32 where
  "Secp256k1 = 0x21"

definition MAX_BIP32_PATH :: u32 where
  "MAX_BIP32_PATH = 16"

definition path_words :: "nat \<Rightarrow> bytes \<Rightarrow> u32 list" where
  "path_words path_len raw =
     map (\<lambda>i. u32_from_le_bytes (raw ! (4 * i)) (raw ! (4 * i + 1)) (raw ! (4 * i + 2)) (raw ! (4 * i + 3))) [0..<path_len]"

definition handle_derive_hd_node ::
  "('k device, 'm, 'r) PagedMemory \<Rightarrow> crypto_sdk \<Rightarrow> u32 \<Rightarrow> u32 \<Rightarrow> u32 \<Rightarrow> u32 \<Rightarrow> u32 \<Rightarrow> ('k, 'm, unit) ecall_m" where
  "handle_derive_hd_node pm cs curve path path_len private_key chain_code =
     (if curve \<noteq> Secp256k1 then throwS (InvalidParameters ''Unsupported curve'')
      else if path_len > MAX_BIP32_PATH then throwS (InvalidParameters ''path_len is too large'')
      else bindS (if path_len > 0 then guest_read pm path (unat path_len * 4) else returnS []) (\<lambda>path_local_raw.
        let (private_key_local, chain_code_local) =
              os_perso_derive_node_bip32 cs (ucast curve) (path_words (unat path_len) path_local_raw)
        in bindS (guest_write pm private_key private_key_local) (\<lambda>_. guest_write pm chain_code chain_code_local)))"

definition handle_get_master_fingerprint :: "crypto_sdk \<Rightarrow> u32 \<Rightarrow> ('k, 'm, u32) ecall_m" where
  "handle_get_master_fingerprint cs curve =
     (if curve \<noteq> Secp256k1 then throwS (InvalidParameters ''Unsupported curve'')
      else case cx_ecfp_public_key cs (ucast curve) (fst (os_perso_derive_node_bip32 cs (ucast Secp256k1) [])) of
        None \<Rightarrow> throwS (CommGenericError ''Failed to generate key pair'')
      | Some (W, W_len) \<Rightarrow>
          if W_len \<noteq> 65 then throwS (CommGenericError ''Invalid public key length'')
          else
            let rip = sdk_ripemd160 cs (sdk_sha256 cs ((2 + W ! 64 mod 2) # take 32 (drop 1 W)))
            in returnS (u32_from_be_bytes (rip ! 0) (rip ! 1) (rip ! 2) (rip ! 3)))"

section \<open>SLIP-21\<close>

definition get_seed :: "crypto_sdk \<Rightarrow> bytes" where
  "get_seed cs = os_perso_derive_slip21 cs (0 # ascii ''VANADIUM'')"

definition get_master_node :: "crypto_sdk \<Rightarrow> bytes" where
  "get_master_node cs = hmac_sha512 cs (ascii ''Symmetric key seed'') (get_seed cs)"

definition derive_child_node :: "crypto_sdk \<Rightarrow> bytes \<Rightarrow> bytes \<Rightarrow> bytes" where
  "derive_child_node cs cur_node label = hmac_sha512 cs (take 32 cur_node) (0 # label)"

definition get_custom_slip21_node :: "crypto_sdk \<Rightarrow> bytes list \<Rightarrow> bytes" where
  "get_custom_slip21_node cs path = foldl (derive_child_node cs) (get_master_node cs) path"

text \<open>The labels, each after a byte with its length.\<close>

fun split_labels :: "bytes \<Rightarrow> bytes list option" where
  "split_labels [] = Some []"
| "split_labels (label_len # rest) =
     (if unat label_len > length rest then None
      else map_option (Cons (take (unat label_len) rest)) (split_labels (drop (unat label_len) rest)))"

text \<open>\<open>unwrap\<close>: an error becomes a panic.\<close>

definition or_panic :: "('k, 'm, 'a) ecall_m \<Rightarrow> ('k, 'm, 'a) ecall_m" where
  "or_panic m = (\<lambda>s. case m s of
     (s', res) \<Rightarrow> (s', map_err (\<lambda>e. if crashed e then e else CommPanicked ''unwrap on an Err value'') res))"

definition handle_derive_slip21_node ::
  "('k device, 'm, 'r) PagedMemory \<Rightarrow> crypto_sdk \<Rightarrow> u32 \<Rightarrow> u32 \<Rightarrow> u32 \<Rightarrow> ('k, 'm, u32) ecall_m" where
  "handle_derive_slip21_node pm cs labels labels_len out =
     (if labels_len > 256 then throwS (InvalidParameters ''labels_len is too large'')
      else bindS (guest_read pm labels (unat labels_len)) (\<lambda>labels_local.
        case split_labels labels_local of
          None \<Rightarrow> throwS (InvalidParameters ''Invalid labels format'')
        | Some slices \<Rightarrow>
            bindS (or_panic (guest_write pm out (get_custom_slip21_node cs slices))) (\<lambda>_. returnS 1)))"

section \<open>Elliptic curves\<close>

definition ec_check :: "string \<Rightarrow> ec_result \<Rightarrow> ('k, 'm, bytes) ecall_m" where
  "ec_check message r = (case r of
     EcPoint W \<Rightarrow> returnS W
   | EcInfinite \<Rightarrow> returnS (replicate 65 0)
   | EcError \<Rightarrow> throwS (CommGenericError message))"

text \<open>A point whose first byte is zero is the point at infinity.\<close>

definition handle_ecfp_add_point ::
  "('k device, 'm, 'r) PagedMemory \<Rightarrow> crypto_sdk \<Rightarrow> u32 \<Rightarrow> u32 \<Rightarrow> u32 \<Rightarrow> u32 \<Rightarrow> ('k, 'm, u32) ecall_m" where
  "handle_ecfp_add_point pm cs curve r p q =
     (if curve \<noteq> Secp256k1 then throwS (InvalidParameters ''Unsupported curve'')
      else bindS (guest_read pm p 65) (\<lambda>p_local. bindS (guest_read pm q 65) (\<lambda>q_local.
        bindS
          (if p_local ! 0 = 0 \<and> q_local ! 0 = 0 then returnS (replicate 65 0)
           else if p_local ! 0 = 0 then returnS q_local
           else if q_local ! 0 = 0 then returnS p_local
           else ec_check ''add_point failed'' (cx_ecfp_add_point cs (ucast curve) p_local q_local))
          (\<lambda>r_local. bindS (guest_write pm r r_local) (\<lambda>_. returnS 1)))))"

definition handle_ecfp_scalar_mult ::
  "('k device, 'm, 'r) PagedMemory \<Rightarrow> crypto_sdk \<Rightarrow> u32 \<Rightarrow> u32 \<Rightarrow> u32 \<Rightarrow> u32 \<Rightarrow> u32 \<Rightarrow> ('k, 'm, u32) ecall_m" where
  "handle_ecfp_scalar_mult pm cs curve r p k k_len =
     (if curve \<noteq> Secp256k1 then throwS (InvalidParameters ''Unsupported curve'')
      else if k_len > 32 then throwS (InvalidParameters ''k_len is too large'')
      else bindS (guest_read pm p 65) (\<lambda>p_local.
        if p_local ! 0 = 0 then bindS (guest_write pm r p_local) (\<lambda>_. returnS 1)
        else bindS (guest_read pm k (unat k_len)) (\<lambda>k_local.
          bindS
            (if list_all (\<lambda>b. b = 0) k_local then returnS (replicate 65 0)
             else ec_check ''scalar_mult failed'' (cx_ecfp_scalar_mult cs (ucast curve) p_local k_local))
            (\<lambda>r_local. bindS (guest_write pm r r_local) (\<lambda>_. returnS 1)))))"

section \<open>Signatures\<close>

text \<open>The constants \<open>EcdsaSignMode::RFC6979\<close>, \<open>SchnorrSignMode::BIP340\<close> and \<open>HashId::Sha256\<close>.\<close>

definition RFC6979 :: u32 where
  "RFC6979 = 1536"

definition BIP340 :: u32 where
  "BIP340 = 0"

definition HashId_Sha256 :: u32 where
  "HashId_Sha256 = 3"

definition handle_ecdsa_sign ::
  "('k device, 'm, 'r) PagedMemory \<Rightarrow> crypto_sdk \<Rightarrow> u32 \<Rightarrow> u32 \<Rightarrow> u32 \<Rightarrow> u32 \<Rightarrow> u32 \<Rightarrow> u32 \<Rightarrow> ('k, 'm, nat) ecall_m" where
  "handle_ecdsa_sign pm cs curve mode hash_id privkey msg_hash signature =
     (if curve \<noteq> Secp256k1 then throwS (InvalidParameters ''Unsupported curve'')
      else if mode \<noteq> RFC6979 then throwS (InvalidParameters ''Invalid or unsupported ecdsa signing mode'')
      else if hash_id \<noteq> HashId_Sha256 then throwS (InvalidParameters ''Invalid or unsupported hash id'')
      else bindS (guest_read pm privkey 32) (\<lambda>privkey_local.
        bindS (guest_read pm msg_hash 32) (\<lambda>msg_hash_local.
        bindS (cx_check ''cx_ecdsa_sign_no_throw failed'' (cx_ecdsa_sign cs privkey_local msg_hash_local))
          (\<lambda>(signature_local, signature_len).
            if signature_len > 72 then throwS (CommGenericError ''Signature length exceeds buffer size'')
            else bindS (guest_write pm signature (take signature_len signature_local))
                   (\<lambda>_. returnS signature_len)))))"

definition handle_ecdsa_verify ::
  "('k device, 'm, 'r) PagedMemory \<Rightarrow> crypto_sdk \<Rightarrow> u32 \<Rightarrow> u32 \<Rightarrow> u32 \<Rightarrow> u32 \<Rightarrow> u32 \<Rightarrow> ('k, 'm, u32) ecall_m" where
  "handle_ecdsa_verify pm cs curve pubkey msg_hash signature signature_len =
     (if curve \<noteq> Secp256k1 then throwS (InvalidParameters ''Unsupported curve'')
      else if signature_len > 72 then throwS (InvalidParameters ''signature_len is too large'')
      else bindS (guest_read pm pubkey 65) (\<lambda>pubkey_local.
        bindS (guest_read pm msg_hash 32) (\<lambda>msg_hash_local.
        bindS (guest_read pm signature (unat signature_len)) (\<lambda>signature_local.
          returnS (of_bool (cx_ecdsa_verify cs pubkey_local msg_hash_local signature_local))))))"

text \<open>\<open>CX_RND_TRNG\<close> and \<open>CX_RND_PROVIDED\<close>, the two ways to provide the entropy.\<close>

definition CX_RND_TRNG :: u32 where
  "CX_RND_TRNG = push_bit 9 2"

definition CX_RND_PROVIDED :: u32 where
  "CX_RND_PROVIDED = push_bit 9 4"

text \<open>The call of the signer, which may draw random bytes.\<close>

definition schnorr_sign_call :: "crypto_sdk \<Rightarrow> bytes \<Rightarrow> u32 \<Rightarrow> bytes \<Rightarrow> bytes \<Rightarrow> ('k, 'm, bytes \<times> nat) ecall_m" where
  "schnorr_sign_call cs privkey mode msg signature_local = (\<lambda>(w, c).
     case cx_ecschnorr_sign cs privkey mode msg signature_local (\<lambda>i. random_source w (random_used w + i)) of
       (drawn, r) \<Rightarrow> cx_check ''cx_schnorr_sign_no_throw failed'' r (w\<lparr>random_used := random_used w + drawn\<rparr>, c))"

definition handle_schnorr_sign ::
  "('k device, 'm, 'r) PagedMemory \<Rightarrow> crypto_sdk \<Rightarrow> u32 \<Rightarrow> u32 \<Rightarrow> u32 \<Rightarrow> u32 \<Rightarrow> u32 \<Rightarrow> u32 \<Rightarrow> u32 \<Rightarrow> u32 \<Rightarrow>
   ('k, 'm, nat) ecall_m" where
  "handle_schnorr_sign pm cs curve mode hash_id privkey msg msg_len signature entropy =
     (if curve \<noteq> Secp256k1 then throwS (InvalidParameters ''Unsupported curve'')
      else if mode \<noteq> BIP340 then throwS (InvalidParameters ''Invalid or unsupported schnorr signing mode'')
      else if msg_len > 128 then throwS (InvalidParameters ''msg_len is too large'')
      else if hash_id \<noteq> HashId_Sha256 then throwS (InvalidParameters ''Invalid or unsupported hash id'')
      else bindS (guest_read pm privkey 32) (\<lambda>privkey_local.
        bindS (guest_read pm msg (unat msg_len)) (\<lambda>msg_local.
        bindS
          (if entropy = 0 then schnorr_sign_call cs privkey_local (mode OR CX_RND_TRNG) msg_local (replicate 64 0)
           else bindS (guest_read pm entropy 32) (\<lambda>e.
             schnorr_sign_call cs privkey_local (mode OR CX_RND_PROVIDED) msg_local (e @ replicate 32 0)))
          (\<lambda>(signature_local, signature_len).
            if signature_len \<noteq> 64
            then throwS (CommGenericError ''cx_schnorr_sign_no_throw returned a signature of unexpected length'')
            else bindS (guest_write pm signature (take signature_len signature_local))
                   (\<lambda>_. returnS signature_len)))))"

definition handle_schnorr_verify ::
  "('k device, 'm, 'r) PagedMemory \<Rightarrow> crypto_sdk \<Rightarrow> u32 \<Rightarrow> u32 \<Rightarrow> u32 \<Rightarrow> u32 \<Rightarrow> u32 \<Rightarrow> u32 \<Rightarrow> u32 \<Rightarrow> u32 \<Rightarrow>
   ('k, 'm, u32) ecall_m" where
  "handle_schnorr_verify pm cs curve mode hash_id pubkey msg msg_len signature signature_len =
     (if curve \<noteq> Secp256k1 then throwS (InvalidParameters ''Unsupported curve'')
      else if mode \<noteq> BIP340 then throwS (InvalidParameters ''Invalid or unsupported schnorr signing mode'')
      else if msg_len > 128 then throwS (InvalidParameters ''msg_len is too large'')
      else if hash_id \<noteq> HashId_Sha256 then throwS (InvalidParameters ''Invalid or unsupported hash id'')
      else if signature_len \<noteq> 64 then throwS (InvalidParameters ''Invalid signature length'')
      else bindS (guest_read pm pubkey 65) (\<lambda>pubkey_local.
        bindS (guest_read pm msg (unat msg_len)) (\<lambda>msg_local.
        bindS (guest_read pm signature 64) (\<lambda>signature_local.
          returnS (of_bool (cx_ecschnorr_verify cs pubkey_local mode msg_local signature_local))))))"

section \<open>SLIP-21 paths\<close>

text \<open>The labels and their encoding: what \<open>derive_slip21_key\<close> of the V-App side writes is read back.\<close>

lemma split_labels_join:
  "list_all (\<lambda>l. length l < 256) ls \<Longrightarrow> split_labels (concat (map (\<lambda>l. of_nat (length l) # l) ls)) = Some ls"
proof (induction ls)
  case (Cons l ls)
  then have "unat (of_nat (length l) :: u8) = length l" by (simp add: unat_of_nat)
  with Cons show ?case by simp
qed simp

lemma split_labels_Some:
  "split_labels bs = Some ls \<longleftrightarrow> list_all (\<lambda>l. length l < 256) ls \<and> bs = concat (map (\<lambda>l. of_nat (length l) # l) ls)"
proof
  show "split_labels bs = Some ls \<Longrightarrow> list_all (\<lambda>l. length l < 256) ls \<and> bs = concat (map (\<lambda>l. of_nat (length l) # l) ls)"
  proof (induction bs arbitrary: ls rule: split_labels.induct)
    case (2 n rest)
    then obtain ls' where ls: "ls = take (unat n) rest # ls'" "split_labels (drop (unat n) rest) = Some ls'"
      "unat n \<le> length rest"
      by (auto split: if_splits)
    have "unat n < 256" using unsigned_less [of n] by simp
    moreover have "list_all (\<lambda>l. length l < 256) ls' \<and> drop (unat n) rest = concat (map (\<lambda>l. of_nat (length l) # l) ls')"
      by (rule 2(1)) (use ls in auto)
    moreover have "take (unat n) rest @ drop (unat n) rest = rest" by (rule append_take_drop_id)
    ultimately show ?case using ls(3) by (simp add: ls(1) min_absorb2 del: append_take_drop_id)
  qed simp
qed (use split_labels_join in blast)

end
