(* ===== verification/Ux_Codec.thy ===== *)
theory Ux_Codec
  imports Prelude
begin

text \<open>
  The pages and steps a V-App shows, \<open>common/src/ux/types.rs\<close>, and their encoding,
  \<open>common/src/ux/codec.rs\<close> with the implementations that the derive macro of
  \<open>macros/src/derive_serializable.rs\<close> generates: the fields in order, for an enum after one byte with the
  number of the variant. A V-App encodes, the VM decodes what it finds in the V-App's memory.

  The traits \<open>Serializable\<close> and \<open>Deserializable\<close> are the locale \<open>ux_codec\<close>, interpreted for every type:
  the length is announced exactly, and a slice is decoded to a value exactly if it starts with the
  value's encoding. A \<open>String\<close> is its bytes, which are UTF-8. A panic is \<^const>\<open>None\<close>: a serializer panics
  on a string of 64 KiB, and the deserializer of a vector on a count that no allocation can hold. That
  the allocator runs out of memory is not modelled.
\<close>

section \<open>Serializers\<close>

type_synonym 'a parser = "bytes \<Rightarrow> (string, 'a \<times> bytes) result option"

definition bindP :: "(string, 'a \<times> bytes) result option \<Rightarrow> ('a \<Rightarrow> 'b parser) \<Rightarrow> (string, 'b \<times> bytes) result option" where
  "bindP r f = (case r of
     None \<Rightarrow> None
   | Some (Inl e) \<Rightarrow> Some (Err e)
   | Some (Inr (v, rest)) \<Rightarrow> f v rest)"

definition returnP :: "'a \<Rightarrow> 'a parser" where
  "returnP v rest = Some (Ok (v, rest))"

definition failP :: "string \<Rightarrow> 'a parser" where
  "failP e rest = Some (Err e)"

text \<open>\<open>deserialize_full\<close>.\<close>

definition deserialize_full :: "'a parser \<Rightarrow> bytes \<Rightarrow> (string, 'a) result option" where
  "deserialize_full des xs = (case des xs of
     None \<Rightarrow> None
   | Some (Inl e) \<Rightarrow> Some (Err e)
   | Some (Inr (v, rest)) \<Rightarrow>
       if rest \<noteq> [] then Some (Err ''extra bytes remaining after deserialization'') else Some (Ok v))"

text \<open>The parts that a serializer writes one after the other.\<close>

fun ser_parts :: "bytes option list \<Rightarrow> bytes option" where
  "ser_parts [] = Some []"
| "ser_parts (p # ps) = (case p of None \<Rightarrow> None | Some bs \<Rightarrow> map_option ((@) bs) (ser_parts ps))"

definition bool_serialize :: "bool \<Rightarrow> bytes option" where
  "bool_serialize b = Some [of_bool b]"

definition bool_deserialize :: "bool parser" where
  "bool_deserialize xs = (case xs of
     b # rest \<Rightarrow> if b = 0 then returnP False rest else if b = 1 then returnP True rest
                 else failP ''invalid boolean value'' rest
   | [] \<Rightarrow> failP ''slice too short for bool'' [])"

definition u8_serialize :: "u8 \<Rightarrow> bytes option" where
  "u8_serialize x = Some [x]"

definition u8_deserialize :: "u8 parser" where
  "u8_deserialize xs = (case xs of byte # rest \<Rightarrow> returnP byte rest | [] \<Rightarrow> failP ''slice too short for u8'' [])"

definition u16_from_be_bytes :: "u8 \<Rightarrow> u8 \<Rightarrow> u16" where
  "u16_from_be_bytes a b = push_bit 8 (ucast a) OR ucast b"

definition u16_serialize :: "u16 \<Rightarrow> bytes option" where
  "u16_serialize x = Some [ucast (drop_bit 8 x), ucast (x AND 0xff)]"

definition u16_deserialize :: "u16 parser" where
  "u16_deserialize xs = (case xs of
     b1 # b2 # rest \<Rightarrow> returnP (u16_from_be_bytes b1 b2) rest
   | _ \<Rightarrow> failP ''slice too short for u16'' [])"

definition u32_serialize :: "u32 \<Rightarrow> bytes option" where
  "u32_serialize x = Some [ucast (drop_bit 24 x), ucast (drop_bit 16 x AND 0xff), ucast (drop_bit 8 x AND 0xff),
     ucast (x AND 0xff)]"

definition u32_deserialize :: "u32 parser" where
  "u32_deserialize xs = (case xs of
     b1 # b2 # b3 # b4 # rest \<Rightarrow> returnP (u32_from_be_bytes b1 b2 b3 b4) rest
   | _ \<Rightarrow> failP ''slice too short for u32'' [])"

definition string_length :: "bytes \<Rightarrow> nat" where
  "string_length s = 2 + length s"

definition string_serialize :: "bytes \<Rightarrow> bytes option" where
  "string_serialize s =
     (if 2 ^ 16 \<le> length s then None else ser_parts [u16_serialize (of_nat (length s)), Some s])"

definition string_deserialize :: "bytes parser" where
  "string_deserialize xs =
     bindP (u16_deserialize xs) (\<lambda>len rest.
       if length rest < unat len then failP ''slice too short for string'' rest
       else if \<not> valid_utf8 (take (unat len) rest) then failP ''invalid utf8'' rest
       else returnP (take (unat len) rest) (drop (unat len) rest))"

definition option_length :: "('a \<Rightarrow> nat) \<Rightarrow> 'a option \<Rightarrow> nat" where
  "option_length len x = 1 + (case x of Some value \<Rightarrow> len value | None \<Rightarrow> 0)"

definition option_serialize :: "('a \<Rightarrow> bytes option) \<Rightarrow> 'a option \<Rightarrow> bytes option" where
  "option_serialize ser x = (case x of Some value \<Rightarrow> ser_parts [Some [1], ser value] | None \<Rightarrow> Some [0])"

definition option_deserialize :: "'a parser \<Rightarrow> 'a option parser" where
  "option_deserialize des xs = (case xs of
     [] \<Rightarrow> failP ''slice too short for Option tag'' []
   | b # rest \<Rightarrow>
       if b = 0 then returnP None rest
       else if b = 1 then bindP (des rest) (\<lambda>value. returnP (Some value))
       else failP ''invalid Option tag'' rest)"

definition vec_length :: "('a \<Rightarrow> nat) \<Rightarrow> 'a list \<Rightarrow> nat" where
  "vec_length len xs = 4 + sum_list (map len xs)"

definition vec_serialize :: "('a \<Rightarrow> bytes option) \<Rightarrow> 'a list \<Rightarrow> bytes option" where
  "vec_serialize ser xs =
     (if 2 ^ 32 \<le> length xs then None else ser_parts (u32_serialize (of_nat (length xs)) # map ser xs))"

text \<open>The loop over the items, and \<open>Vec::with_capacity\<close>, which panics if the items of \<open>item_size\<close> bytes each
  exceed \<open>isize::MAX\<close> of the 32-bit target.\<close>

fun vec_items :: "'a parser \<Rightarrow> nat \<Rightarrow> 'a list parser" where
  "vec_items des 0 rem = returnP [] rem"
| "vec_items des (Suc n) rem = bindP (des rem) (\<lambda>item next. bindP (vec_items des n next) (\<lambda>vec. returnP (item # vec)))"

definition vec_deserialize :: "nat \<Rightarrow> 'a parser \<Rightarrow> 'a list parser" where
  "vec_deserialize item_size des xs =
     bindP (u32_deserialize xs) (\<lambda>len rem.
       if 2 ^ 31 \<le> unat len * item_size then None else vec_items des (unat len) rem)"

section \<open>The types\<close>

datatype Action = Confirm | Reject | Quit | Skip | PreviousPage | NextPage | TitleBack | TopRight

datatype EventCode = Ticker | ActionEvent | UnknownEvent

definition EventCode_from :: "u32 \<Rightarrow> EventCode" where
  "EventCode_from value = (if value = 0 then Ticker else if value = 1 then ActionEvent else UnknownEvent)"

datatype Icon = IconNone | IconSuccess | IconFailure | IconConfirm | IconReject | IconProcessing

datatype NavInfo = NavWithButtons (has_back_button: bool) (has_page_indicator: bool) (quit_text: "bytes option")

record NavigationInfo =
  active_page :: u32
  nav_n_pages :: u32
  skip_text :: "bytes option"
  nav_info :: NavInfo

record TagValue =
  tv_tag :: bytes
  tv_value :: bytes

datatype PageContent =
    TextSubtext bytes bytes
  | TagValueList "TagValue list"
  | ConfirmationButton bytes bytes
  | ConfirmationLongPress bytes bytes

record PageContentInfo =
  pci_title :: "bytes option"
  top_right_icon :: Icon
  page_content :: PageContent

datatype Page =
    Spinner bytes
  | Info Icon bytes
  | ConfirmReject bytes bytes bytes bytes
  | GenericPage "NavigationInfo option" PageContentInfo
  | Home bytes

datatype Step =
    StepTextSubtext u8 bytes bytes u8
  | CenteredInfo u8 "bytes option" "bytes option" Icon u8

section \<open>The generated implementations\<close>

text \<open>What the macro generates for an enum: the arms of its match on the first byte.\<close>

definition enum_deserialize :: "string \<Rightarrow> (u8 \<times> 'a parser) list \<Rightarrow> 'a parser" where
  "enum_deserialize too_short arms xs = (case xs of
     [] \<Rightarrow> failP too_short []
   | t # rest \<Rightarrow> (case map_of arms t of Some arm \<Rightarrow> arm rest | None \<Rightarrow> failP ''unknown tag'' rest))"

definition Icon_length :: "Icon \<Rightarrow> nat" where
  "Icon_length i = 1"

primrec Icon_serialize :: "Icon \<Rightarrow> bytes option" where
  "Icon_serialize IconNone = Some [0]"
| "Icon_serialize IconSuccess = Some [1]"
| "Icon_serialize IconFailure = Some [2]"
| "Icon_serialize IconConfirm = Some [3]"
| "Icon_serialize IconReject = Some [4]"
| "Icon_serialize IconProcessing = Some [5]"

definition Icon_deserialize :: "Icon parser" where
  "Icon_deserialize = enum_deserialize ''Icon slice to short for tag''
     [(0, returnP IconNone), (1, returnP IconSuccess), (2, returnP IconFailure), (3, returnP IconConfirm), (4, returnP IconReject),
      (5, returnP IconProcessing)]"

primrec NavInfo_length :: "NavInfo \<Rightarrow> nat" where
  "NavInfo_length (NavWithButtons back indicator quit) = 1 + 1 + 1 + option_length string_length quit"

primrec NavInfo_serialize :: "NavInfo \<Rightarrow> bytes option" where
  "NavInfo_serialize (NavWithButtons back indicator quit) =
     ser_parts [Some [0], bool_serialize back, bool_serialize indicator, option_serialize string_serialize quit]"

definition NavInfo_deserialize :: "NavInfo parser" where
  "NavInfo_deserialize = enum_deserialize ''NavInfo slice to short for tag''
     [(0, \<lambda>rest. bindP (bool_deserialize rest) (\<lambda>back rest.
             bindP (bool_deserialize rest) (\<lambda>indicator rest.
             bindP (option_deserialize string_deserialize rest) (\<lambda>quit.
             returnP (NavWithButtons back indicator quit)))))]"

definition NavigationInfo_length :: "NavigationInfo \<Rightarrow> nat" where
  "NavigationInfo_length n =
     4 + 4 + option_length string_length (skip_text n) + NavInfo_length (nav_info n)"

definition NavigationInfo_serialize :: "NavigationInfo \<Rightarrow> bytes option" where
  "NavigationInfo_serialize n =
     ser_parts [u32_serialize (active_page n), u32_serialize (nav_n_pages n),
       option_serialize string_serialize (skip_text n), NavInfo_serialize (nav_info n)]"

definition NavigationInfo_deserialize :: "NavigationInfo parser" where
  "NavigationInfo_deserialize rest =
     bindP (u32_deserialize rest) (\<lambda>active rest.
     bindP (u32_deserialize rest) (\<lambda>pages rest.
     bindP (option_deserialize string_deserialize rest) (\<lambda>skip rest.
     bindP (NavInfo_deserialize rest) (\<lambda>info.
     returnP \<lparr>active_page = active, nav_n_pages = pages, skip_text = skip, nav_info = info\<rparr>))))"

definition TagValue_length :: "TagValue \<Rightarrow> nat" where
  "TagValue_length t = string_length (tv_tag t) + string_length (tv_value t)"

definition TagValue_serialize :: "TagValue \<Rightarrow> bytes option" where
  "TagValue_serialize t = ser_parts [string_serialize (tv_tag t), string_serialize (tv_value t)]"

definition TagValue_deserialize :: "TagValue parser" where
  "TagValue_deserialize rest =
     bindP (string_deserialize rest) (\<lambda>t rest.
     bindP (string_deserialize rest) (\<lambda>v.
     returnP \<lparr>tv_tag = t, tv_value = v\<rparr>))"

text \<open>A \<open>TagValue\<close> is two strings of three machine words each.\<close>

definition TagValue_size :: nat where
  "TagValue_size = 24"

primrec PageContent_length :: "PageContent \<Rightarrow> nat" where
  "PageContent_length (TextSubtext text subtext) = 1 + string_length text + string_length subtext"
| "PageContent_length (TagValueList list) = 1 + vec_length TagValue_length list"
| "PageContent_length (ConfirmationButton text button) = 1 + string_length text + string_length button"
| "PageContent_length (ConfirmationLongPress text long) = 1 + string_length text + string_length long"

primrec PageContent_serialize :: "PageContent \<Rightarrow> bytes option" where
  "PageContent_serialize (TextSubtext text subtext) =
     ser_parts [Some [0], string_serialize text, string_serialize subtext]"
| "PageContent_serialize (TagValueList list) = ser_parts [Some [1], vec_serialize TagValue_serialize list]"
| "PageContent_serialize (ConfirmationButton text button) =
     ser_parts [Some [2], string_serialize text, string_serialize button]"
| "PageContent_serialize (ConfirmationLongPress text long) =
     ser_parts [Some [3], string_serialize text, string_serialize long]"

definition two_strings :: "(bytes \<Rightarrow> bytes \<Rightarrow> 'a) \<Rightarrow> 'a parser" where
  "two_strings con rest =
     bindP (string_deserialize rest) (\<lambda>a rest. bindP (string_deserialize rest) (\<lambda>b. returnP (con a b)))"

definition PageContent_deserialize :: "PageContent parser" where
  "PageContent_deserialize = enum_deserialize ''PageContent slice to short for tag''
     [(0, two_strings TextSubtext),
      (1, \<lambda>rest. bindP (vec_deserialize TagValue_size TagValue_deserialize rest) (\<lambda>list. returnP (TagValueList list))),
      (2, two_strings ConfirmationButton),
      (3, two_strings ConfirmationLongPress)]"

definition PageContentInfo_length :: "PageContentInfo \<Rightarrow> nat" where
  "PageContentInfo_length p =
     option_length string_length (pci_title p) + Icon_length (top_right_icon p) + PageContent_length (page_content p)"

definition PageContentInfo_serialize :: "PageContentInfo \<Rightarrow> bytes option" where
  "PageContentInfo_serialize p =
     ser_parts [option_serialize string_serialize (pci_title p), Icon_serialize (top_right_icon p),
       PageContent_serialize (page_content p)]"

definition PageContentInfo_deserialize :: "PageContentInfo parser" where
  "PageContentInfo_deserialize rest =
     bindP (option_deserialize string_deserialize rest) (\<lambda>t rest.
     bindP (Icon_deserialize rest) (\<lambda>icon rest.
     bindP (PageContent_deserialize rest) (\<lambda>content.
     returnP \<lparr>pci_title = t, top_right_icon = icon, page_content = content\<rparr>)))"

primrec Page_length :: "Page \<Rightarrow> nat" where
  "Page_length (Spinner text) = 1 + string_length text"
| "Page_length (Info icon text) = 1 + Icon_length icon + string_length text"
| "Page_length (ConfirmReject t text confirm reject) =
     1 + string_length t + string_length text + string_length confirm + string_length reject"
| "Page_length (GenericPage navigation content) =
     1 + option_length NavigationInfo_length navigation + PageContentInfo_length content"
| "Page_length (Home description) = 1 + string_length description"

primrec Page_serialize :: "Page \<Rightarrow> bytes option" where
  "Page_serialize (Spinner text) = ser_parts [Some [0], string_serialize text]"
| "Page_serialize (Info icon text) = ser_parts [Some [1], Icon_serialize icon, string_serialize text]"
| "Page_serialize (ConfirmReject t text confirm reject) =
     ser_parts [Some [2], string_serialize t, string_serialize text, string_serialize confirm, string_serialize reject]"
| "Page_serialize (GenericPage navigation content) =
     ser_parts [Some [3], option_serialize NavigationInfo_serialize navigation, PageContentInfo_serialize content]"
| "Page_serialize (Home description) = ser_parts [Some [4], string_serialize description]"

definition Page_deserialize :: "Page parser" where
  "Page_deserialize = enum_deserialize ''Page slice to short for tag''
     [(0, \<lambda>rest. bindP (string_deserialize rest) (\<lambda>text. returnP (Spinner text))),
      (1, \<lambda>rest. bindP (Icon_deserialize rest) (\<lambda>icon rest.
             bindP (string_deserialize rest) (\<lambda>text. returnP (Info icon text)))),
      (2, \<lambda>rest. bindP (string_deserialize rest) (\<lambda>t rest.
             bindP (string_deserialize rest) (\<lambda>text rest.
             bindP (string_deserialize rest) (\<lambda>confirm rest.
             bindP (string_deserialize rest) (\<lambda>reject. returnP (ConfirmReject t text confirm reject)))))),
      (3, \<lambda>rest. bindP (option_deserialize NavigationInfo_deserialize rest) (\<lambda>navigation rest.
             bindP (PageContentInfo_deserialize rest) (\<lambda>content. returnP (GenericPage navigation content)))),
      (4, \<lambda>rest. bindP (string_deserialize rest) (\<lambda>description. returnP (Home description)))]"

primrec Step_length :: "Step \<Rightarrow> nat" where
  "Step_length (StepTextSubtext pos text subtext style) = 1 + 1 + string_length text + string_length subtext + 1"
| "Step_length (CenteredInfo pos text subtext icon style) =
     1 + 1 + option_length string_length text + option_length string_length subtext + Icon_length icon + 1"

primrec Step_serialize :: "Step \<Rightarrow> bytes option" where
  "Step_serialize (StepTextSubtext pos text subtext style) =
     ser_parts [Some [0], u8_serialize pos, string_serialize text, string_serialize subtext, u8_serialize style]"
| "Step_serialize (CenteredInfo pos text subtext icon style) =
     ser_parts [Some [1], u8_serialize pos, option_serialize string_serialize text,
       option_serialize string_serialize subtext, Icon_serialize icon, u8_serialize style]"

definition Step_deserialize :: "Step parser" where
  "Step_deserialize = enum_deserialize ''Step slice to short for tag''
     [(0, \<lambda>rest. bindP (u8_deserialize rest) (\<lambda>pos rest.
             bindP (string_deserialize rest) (\<lambda>text rest.
             bindP (string_deserialize rest) (\<lambda>subtext rest.
             bindP (u8_deserialize rest) (\<lambda>style. returnP (StepTextSubtext pos text subtext style)))))),
      (1, \<lambda>rest. bindP (u8_deserialize rest) (\<lambda>pos rest.
             bindP (option_deserialize string_deserialize rest) (\<lambda>text rest.
             bindP (option_deserialize string_deserialize rest) (\<lambda>subtext rest.
             bindP (Icon_deserialize rest) (\<lambda>icon rest.
             bindP (u8_deserialize rest) (\<lambda>style. returnP (CenteredInfo pos text subtext icon style)))))))]"

section \<open>The contract of the traits\<close>

text \<open>
  \<open>slen\<close> is \<open>get_serialized_length\<close>. The values that can be encoded are those with \<open>wf\<close>: the ones that
  the types of the source hold and whose strings and vectors are not too long.
\<close>

locale ux_codec =
  fixes slen :: "'a \<Rightarrow> nat" and ser :: "'a \<Rightarrow> bytes option" and des :: "'a parser" and wf :: "'a \<Rightarrow> bool"
  assumes ser_total [simp]: "wf v \<Longrightarrow> ser v \<noteq> None"
    and ser_length [simp]: "ser v \<noteq> None \<Longrightarrow> length (the (ser v)) = slen v"
    and des_iff: "des xs = Some (Ok (v, rest)) \<longleftrightarrow> wf v \<and> xs = the (ser v) @ rest"
begin

lemma roundtrip: "wf v \<Longrightarrow> \<exists>bs. ser v = Some bs \<and> length bs = slen v \<and> (\<forall>rest. des (bs @ rest) = Some (Ok (v, rest)))"
  using ser_total [of v] ser_length [of v] by (auto simp: des_iff)

lemma length_ser: "ser v = Some bs \<Longrightarrow> length bs = slen v"
  using ser_length [of v] by simp

lemma full_iff: "deserialize_full des xs = Some (Ok v) \<longleftrightarrow> wf v \<and> ser v = Some xs"
proof -
  have "deserialize_full des xs = Some (Ok v) \<longleftrightarrow> des xs = Some (Ok (v, []))"
    by (auto simp: deserialize_full_def split: option.splits sum.splits prod.splits if_splits)
  with ser_total [of v] show ?thesis by (auto simp: des_iff)
qed

text \<open>No encoding is a proper prefix of another.\<close>

lemma prefix_free:
  assumes "wf v" "wf v'" "ser v = Some bs" "ser v' = Some (bs @ rest)"
  shows "v' = v \<and> rest = []"
proof -
  have "des (bs @ rest) = Some (Ok (v, rest))" "des (bs @ rest) = Some (Ok (v', []))"
    using assms by (simp_all add: des_iff)
  then show ?thesis by simp
qed

end

text \<open>Reading field after field, and writing them.\<close>

lemma bindP_iff [simp]:
  "bindP r f = Some (Ok (v, rest)) \<longleftrightarrow> (\<exists>a rem. r = Some (Ok (a, rem)) \<and> f a rem = Some (Ok (v, rest)))"
  by (auto simp: bindP_def split: option.splits sum.splits)

lemma returnP_iff [simp]: "returnP a rem = Some (Ok (v, rest)) \<longleftrightarrow> v = a \<and> rem = rest"
  by (auto simp: returnP_def)

lemma failP_iff [simp]: "failP e rem \<noteq> Some (Ok r)"
  by (simp add: failP_def)

lemma ser_parts_None [simp]: "ser_parts (p # ps) = None \<longleftrightarrow> p = None \<or> ser_parts ps = None"
  by (auto split: option.splits)

lemma the_ser_parts [simp]: "p \<noteq> None \<Longrightarrow> ser_parts ps \<noteq> None \<Longrightarrow> the (ser_parts (p # ps)) = the p @ the (ser_parts ps)"
  by auto

declare ser_parts.simps(2) [simp del]

lemma enum_Nil [simp]: "enum_deserialize e [] xs \<noteq> Some (Ok r)"
  by (simp add: enum_deserialize_def split: list.splits)

lemma enum_Cons [simp]:
  "enum_deserialize e ((t, arm) # arms) xs = Some (Ok (v, rest)) \<longleftrightarrow>
     (\<exists>ys. xs = t # ys \<and> arm ys = Some (Ok (v, rest))) \<or>
     (xs \<noteq> [] \<longrightarrow> hd xs \<noteq> t) \<and> enum_deserialize e arms xs = Some (Ok (v, rest))"
  by (cases xs) (auto simp: enum_deserialize_def)

section \<open>The basic types\<close>

lemma low_byte: "x AND (0xff :: u16) = take_bit 8 x" "y AND (0xff :: u32) = take_bit 8 y"
  by (simp_all add: take_bit_eq_mask mask_eq_exp_minus_1)

lemma ucast_low_byte [simp]: "ucast (take_bit 8 (x :: 'a::len word)) = (ucast x :: u8)"
  by (rule bit_word_eqI) (auto simp: bit_simps dest: bit_imp_le_length)

lemma u16_be_parts [simp]:
  "ucast (drop_bit 8 (u16_from_be_bytes a b)) = a" "ucast (u16_from_be_bytes a b) = b"
  unfolding u16_from_be_bytes_def by (rule bit_word_eqI; auto simp: bit_simps bit_u8_out)+

lemma u16_be_roundtrip [simp]: "u16_from_be_bytes (ucast (drop_bit 8 x)) (ucast x) = x"
  unfolding u16_from_be_bytes_def by (rule bit_word_eqI) (auto simp: bit_simps)

interpretation bools: ux_codec "\<lambda>_. 1" bool_serialize bool_deserialize "\<lambda>_. True"
proof unfold_locales
  fix xs v rest
  show "bool_deserialize xs = Some (Ok (v, rest)) \<longleftrightarrow> True \<and> xs = the (bool_serialize v) @ rest"
    by (cases v) (auto simp: bool_deserialize_def bool_serialize_def split: list.splits)
qed (auto simp: bool_serialize_def)

interpretation u8s: ux_codec "\<lambda>_. 1" u8_serialize u8_deserialize "\<lambda>_. True"
  by unfold_locales (auto simp: u8_serialize_def u8_deserialize_def split: list.splits)

interpretation u16s: ux_codec "\<lambda>_. 2" u16_serialize u16_deserialize "\<lambda>_. True"
  by unfold_locales (auto simp: low_byte u16_serialize_def u16_deserialize_def split: list.splits)

lemma u32_serialize_alt: "u32_serialize x = Some (u32_to_be_bytes x)"
  by (simp add: u32_serialize_def u32_to_be_bytes_def low_byte)

interpretation u32s: ux_codec "\<lambda>_. 4" u32_serialize u32_deserialize "\<lambda>_. True"
  by unfold_locales (auto simp: u32_serialize_alt u32_to_be_bytes_def u32_deserialize_def split: list.splits)

text \<open>A Rust \<open>String\<close> is valid UTF-8.\<close>

definition string_wf :: "bytes \<Rightarrow> bool" where
  "string_wf s \<longleftrightarrow> valid_utf8 s \<and> length s < 2 ^ 16"

lemma unat_u16_less: "unat (x :: u16) < 2 ^ 16"
  using unsigned_less [of x] by simp

lemma string_serialize_eq:
  "length s < 2 ^ 16 \<Longrightarrow> string_serialize s = Some (the (u16_serialize (of_nat (length s))) @ s)"
  by (simp add: string_serialize_def u16_serialize_def ser_parts.simps)

interpretation strings: ux_codec string_length string_serialize string_deserialize string_wf
proof unfold_locales
  fix xs v rest
  show "string_deserialize xs = Some (Ok (v, rest)) \<longleftrightarrow> string_wf v \<and> xs = the (string_serialize v) @ rest"
    (is "?l \<longleftrightarrow> ?r")
  proof
    assume ?l
    then obtain n rem where h: "xs = the (u16_serialize n) @ rem" "unat n \<le> length rem"
      "valid_utf8 (take (unat n) rem)" "v = take (unat n) rem" "rest = drop (unat n) rem"
      by (auto simp: string_deserialize_def u16s.des_iff split: if_splits)
    then have v: "length v = unat n" "string_wf v" using unat_u16_less [of n] by (simp_all add: string_wf_def)
    moreover from v(1) have "of_nat (length v) = n" by simp
    ultimately show ?r using h unat_u16_less [of n] by (simp add: string_serialize_eq)
  next
    assume r: ?r
    then have len: "length v < 2 ^ 16" "valid_utf8 v" by (simp_all add: string_wf_def)
    then have n: "unat (of_nat (length v) :: u16) = length v" by (simp add: unat_of_nat)
    show ?l
      unfolding string_deserialize_def bindP_iff u16s.des_iff
      by (intro exI [of _ "of_nat (length v)"] exI [of _ "v @ rest"]) (use r n len in \<open>simp add: string_serialize_eq\<close>)
  qed
  show "string_wf v \<Longrightarrow> string_serialize v \<noteq> None" by (simp add: string_wf_def string_serialize_eq)
  show "string_serialize v \<noteq> None \<Longrightarrow> length (the (string_serialize v)) = string_length v"
    by (auto simp: string_serialize_def string_length_def split: if_splits)
qed

section \<open>Options and vectors\<close>

definition vec_wf :: "('a \<Rightarrow> bool) \<Rightarrow> nat \<Rightarrow> 'a list \<Rightarrow> bool" where
  "vec_wf p item_size vs \<longleftrightarrow> list_all p vs \<and> length vs * item_size < 2 ^ 31"

context ux_codec
begin

lemma option_codec: "ux_codec (option_length slen) (option_serialize ser) (option_deserialize des) (pred_option wf)"
proof unfold_locales
  fix xs v rest
  show "option_deserialize des xs = Some (Ok (v, rest)) \<longleftrightarrow> pred_option wf v \<and> xs = the (option_serialize ser v) @ rest"
    by (cases v) (auto simp: option_deserialize_def option_serialize_def des_iff ser_parts.simps(1) split: list.splits)
next
  fix v
  show "pred_option wf v \<Longrightarrow> option_serialize ser v \<noteq> None"
    by (cases v) (simp_all add: option_serialize_def)
  show "option_serialize ser v \<noteq> None \<Longrightarrow> length (the (option_serialize ser v)) = option_length slen v"
    by (cases v) (simp_all add: option_serialize_def option_length_def)
qed

lemma vec_items_total: "list_all wf vs \<Longrightarrow> ser_parts (map ser vs) \<noteq> None"
  by (induction vs) simp_all

lemma vec_items_iff:
  "vec_items des n xs = Some (Ok (vs, rest)) \<longleftrightarrow> length vs = n \<and> list_all wf vs \<and> xs = the (ser_parts (map ser vs)) @ rest"
proof (induction n arbitrary: xs vs)
  case (Suc n)
  show ?case
    by (cases vs) (auto simp: Suc des_iff vec_items_total)
qed auto

lemma vec_items_length: "ser_parts (map ser vs) \<noteq> None \<Longrightarrow> length (the (ser_parts (map ser vs))) = sum_list (map slen vs)"
  by (induction vs) simp_all

lemma vec_codec:
  assumes size: "0 < item_size"
  shows "ux_codec (vec_length slen) (vec_serialize ser) (vec_deserialize item_size des) (vec_wf wf item_size)"
proof unfold_locales
  have few: "length vs < 2 ^ 31" if "vec_wf wf item_size vs" for vs
  proof -
    have "length vs * 1 \<le> length vs * item_size" by (rule mult_le_mono2) (use size in simp)
    with that show ?thesis unfolding vec_wf_def by linarith
  qed
  have n: "unat (of_nat (length vs) :: u32) = length vs" if "vec_wf wf item_size vs" for vs
    using few [OF that] by (simp add: unat_of_nat)
  have eq: "vec_serialize ser vs = ser_parts (u32_serialize (of_nat (length vs)) # map ser vs)"
    if "vec_wf wf item_size vs" for vs
    using few [OF that] by (simp add: vec_serialize_def)
  fix xs v rest
  show "vec_deserialize item_size des xs = Some (Ok (v, rest)) \<longleftrightarrow>
      vec_wf wf item_size v \<and> xs = the (vec_serialize ser v) @ rest" (is "?l \<longleftrightarrow> ?r")
  proof
    assume ?l
    then obtain k rem where h: "xs = the (u32_serialize k) @ rem" "unat k * item_size < 2 ^ 31"
      "length v = unat k" "list_all wf v" "rem = the (ser_parts (map ser v)) @ rest"
      by (auto simp: vec_deserialize_def vec_items_iff u32s.des_iff split: if_splits)
    moreover from this have wf: "vec_wf wf item_size v" by (simp add: vec_wf_def)
    moreover have "of_nat (length v) = k" using h(3) by simp
    ultimately show ?r by (simp add: eq vec_items_total)
  next
    assume ?r
    then have v: "vec_wf wf item_size v" "xs = the (u32_serialize (of_nat (length v))) @ the (ser_parts (map ser v)) @ rest"
      using eq vec_items_total by (auto simp: vec_wf_def)
    show ?l
      unfolding vec_deserialize_def bindP_iff u32s.des_iff
      by (intro exI [of _ "of_nat (length v)"] exI [of _ "the (ser_parts (map ser v)) @ rest"])
        (use v n [OF v(1)] in \<open>simp add: vec_wf_def vec_items_iff\<close>)
  qed
  show "vec_serialize ser v \<noteq> None" if "vec_wf wf item_size v"
    using that vec_items_total unfolding eq [OF that] by (simp add: vec_wf_def)
  show "length (the (vec_serialize ser v)) = vec_length slen v" if "vec_serialize ser v \<noteq> None"
    using that vec_items_length by (simp add: vec_serialize_def vec_length_def del: not_None_eq split: if_splits)
qed

end

section \<open>The generated types\<close>

interpretation string_options: ux_codec "option_length string_length" "option_serialize string_serialize"
  "option_deserialize string_deserialize" "pred_option string_wf"
  by (rule strings.option_codec)

lemmas field_iffs = bools.des_iff u8s.des_iff u32s.des_iff strings.des_iff string_options.des_iff

interpretation icons: ux_codec Icon_length Icon_serialize Icon_deserialize "\<lambda>_. True"
proof unfold_locales
  show "Icon_deserialize xs = Some (Ok (v, rest)) \<longleftrightarrow> True \<and> xs = the (Icon_serialize v) @ rest" for xs v rest
    by (cases v) (auto simp: Icon_deserialize_def)
  show "Icon_serialize v \<noteq> None" "length (the (Icon_serialize v)) = Icon_length v" for v
    by (cases v; simp add: Icon_length_def)+
qed

primrec NavInfo_wf :: "NavInfo \<Rightarrow> bool" where
  "NavInfo_wf (NavWithButtons back indicator quit) = pred_option string_wf quit"

interpretation nav_infos: ux_codec NavInfo_length NavInfo_serialize NavInfo_deserialize NavInfo_wf
proof unfold_locales
  show "NavInfo_deserialize xs = Some (Ok (v, rest)) \<longleftrightarrow> NavInfo_wf v \<and> xs = the (NavInfo_serialize v) @ rest" for xs v rest
    by (cases v) (auto simp: NavInfo_deserialize_def field_iffs)
  show "NavInfo_wf v \<Longrightarrow> NavInfo_serialize v \<noteq> None"
    "NavInfo_serialize v \<noteq> None \<Longrightarrow> length (the (NavInfo_serialize v)) = NavInfo_length v" for v
    by (cases v; simp)+
qed

definition NavigationInfo_wf :: "NavigationInfo \<Rightarrow> bool" where
  "NavigationInfo_wf n \<longleftrightarrow> pred_option string_wf (skip_text n) \<and> NavInfo_wf (nav_info n)"

interpretation navigation_infos:
  ux_codec NavigationInfo_length NavigationInfo_serialize NavigationInfo_deserialize NavigationInfo_wf
proof unfold_locales
  show "NavigationInfo_deserialize xs = Some (Ok (v, rest)) \<longleftrightarrow>
      NavigationInfo_wf v \<and> xs = the (NavigationInfo_serialize v) @ rest" for xs v rest
    by (cases v) (auto simp: NavigationInfo_deserialize_def NavigationInfo_serialize_def NavigationInfo_wf_def
        field_iffs nav_infos.des_iff)
qed (simp_all add: NavigationInfo_serialize_def NavigationInfo_wf_def NavigationInfo_length_def)

definition TagValue_wf :: "TagValue \<Rightarrow> bool" where
  "TagValue_wf t \<longleftrightarrow> string_wf (tv_tag t) \<and> string_wf (tv_value t)"

interpretation tag_values: ux_codec TagValue_length TagValue_serialize TagValue_deserialize TagValue_wf
proof unfold_locales
  show "TagValue_deserialize xs = Some (Ok (v, rest)) \<longleftrightarrow> TagValue_wf v \<and> xs = the (TagValue_serialize v) @ rest" for xs v rest
    by (cases v) (auto simp: TagValue_deserialize_def TagValue_serialize_def TagValue_wf_def field_iffs)
qed (simp_all add: TagValue_serialize_def TagValue_wf_def TagValue_length_def)

interpretation tag_value_lists: ux_codec "vec_length TagValue_length" "vec_serialize TagValue_serialize"
  "vec_deserialize TagValue_size TagValue_deserialize" "vec_wf TagValue_wf TagValue_size"
  by (rule tag_values.vec_codec) (simp add: TagValue_size_def)

primrec PageContent_wf :: "PageContent \<Rightarrow> bool" where
  "PageContent_wf (TextSubtext text subtext) = (string_wf text \<and> string_wf subtext)"
| "PageContent_wf (TagValueList list) = vec_wf TagValue_wf TagValue_size list"
| "PageContent_wf (ConfirmationButton text button) = (string_wf text \<and> string_wf button)"
| "PageContent_wf (ConfirmationLongPress text long) = (string_wf text \<and> string_wf long)"

interpretation page_contents: ux_codec PageContent_length PageContent_serialize PageContent_deserialize PageContent_wf
proof unfold_locales
  show "PageContent_deserialize xs = Some (Ok (v, rest)) \<longleftrightarrow> PageContent_wf v \<and> xs = the (PageContent_serialize v) @ rest"
    for xs v rest
    by (cases v) (auto simp add: PageContent_deserialize_def two_strings_def field_iffs tag_value_lists.des_iff)
  show "PageContent_wf v \<Longrightarrow> PageContent_serialize v \<noteq> None"
    "PageContent_serialize v \<noteq> None \<Longrightarrow> length (the (PageContent_serialize v)) = PageContent_length v" for v
    by (cases v; simp)+
qed

definition PageContentInfo_wf :: "PageContentInfo \<Rightarrow> bool" where
  "PageContentInfo_wf p \<longleftrightarrow> pred_option string_wf (pci_title p) \<and> PageContent_wf (page_content p)"

interpretation page_content_infos:
  ux_codec PageContentInfo_length PageContentInfo_serialize PageContentInfo_deserialize PageContentInfo_wf
proof unfold_locales
  show "PageContentInfo_deserialize xs = Some (Ok (v, rest)) \<longleftrightarrow>
      PageContentInfo_wf v \<and> xs = the (PageContentInfo_serialize v) @ rest" for xs v rest
    by (cases v) (auto simp: PageContentInfo_deserialize_def PageContentInfo_serialize_def PageContentInfo_wf_def
        field_iffs icons.des_iff page_contents.des_iff)
qed (simp_all add: PageContentInfo_serialize_def PageContentInfo_wf_def PageContentInfo_length_def)

interpretation navigation_options: ux_codec "option_length NavigationInfo_length" "option_serialize NavigationInfo_serialize"
  "option_deserialize NavigationInfo_deserialize" "pred_option NavigationInfo_wf"
  by (rule navigation_infos.option_codec)

primrec Page_wf :: "Page \<Rightarrow> bool" where
  "Page_wf (Spinner text) = string_wf text"
| "Page_wf (Info icon text) = string_wf text"
| "Page_wf (ConfirmReject t text confirm reject) =
     (string_wf t \<and> string_wf text \<and> string_wf confirm \<and> string_wf reject)"
| "Page_wf (GenericPage navigation content) =
     (pred_option NavigationInfo_wf navigation \<and> PageContentInfo_wf content)"
| "Page_wf (Home description) = string_wf description"

interpretation pages: ux_codec Page_length Page_serialize Page_deserialize Page_wf
proof unfold_locales
  show "Page_deserialize xs = Some (Ok (v, rest)) \<longleftrightarrow> Page_wf v \<and> xs = the (Page_serialize v) @ rest" for xs v rest
    by (cases v) (auto simp add: Page_deserialize_def field_iffs icons.des_iff navigation_options.des_iff
        page_content_infos.des_iff)
  show "Page_wf v \<Longrightarrow> Page_serialize v \<noteq> None"
    "Page_serialize v \<noteq> None \<Longrightarrow> length (the (Page_serialize v)) = Page_length v" for v
    by (cases v; simp)+
qed

primrec Step_wf :: "Step \<Rightarrow> bool" where
  "Step_wf (StepTextSubtext pos text subtext style) = (string_wf text \<and> string_wf subtext)"
| "Step_wf (CenteredInfo pos text subtext icon style) = (pred_option string_wf text \<and> pred_option string_wf subtext)"

interpretation ux_steps: ux_codec Step_length Step_serialize Step_deserialize Step_wf
proof unfold_locales
  show "Step_deserialize xs = Some (Ok (v, rest)) \<longleftrightarrow> Step_wf v \<and> xs = the (Step_serialize v) @ rest" for xs v rest
    by (cases v) (auto simp add: Step_deserialize_def field_iffs icons.des_iff)
  show "Step_wf v \<Longrightarrow> Step_serialize v \<noteq> None"
    "Step_serialize v \<noteq> None \<Longrightarrow> length (the (Step_serialize v)) = Step_length v" for v
    by (cases v; simp)+
qed

section \<open>The properties\<close>

text \<open>
  C40: (pages and steps) The VM decodes a byte string to a page exactly if it is that page's encoding, so that
  every page a V-App can hold arrives as it was sent and no two encodings stand for the same page; the
  encoding has the length that was announced for the buffer; the serializer panics only on values that
  are too long. The same holds for steps.
\<close>

theorem ux_roundtrip:
  "(deserialize_full Page_deserialize xs = Some (Ok p) \<longleftrightarrow> Page_wf p \<and> Page_serialize p = Some xs) \<and>
   (deserialize_full Step_deserialize xs = Some (Ok s) \<longleftrightarrow> Step_wf s \<and> Step_serialize s = Some xs) \<and>
   (Page_serialize p = Some xs \<longrightarrow> length xs = Page_length p) \<and>
   (Step_serialize s = Some xs \<longrightarrow> length xs = Step_length s) \<and>
   (Page_wf p \<longrightarrow> Page_serialize p \<noteq> None) \<and> (Step_wf s \<longrightarrow> Step_serialize s \<noteq> None)"
  using pages.full_iff ux_steps.full_iff pages.length_ser ux_steps.length_ser pages.ser_total ux_steps.ser_total by auto

definition sample_ux_page :: Page where
  "sample_ux_page = GenericPage (Some \<lparr>active_page = 2, nav_n_pages = 5, skip_text = Some [0x53],
      nav_info = NavWithButtons True False None\<rparr>)
     \<lparr>pci_title = None, top_right_icon = IconSuccess, page_content = TagValueList [\<lparr>tv_tag = [0x61], tv_value = [0x62, 0x63]\<rparr>]\<rparr>"

definition sample_ux_step :: Step where
  "sample_ux_step = CenteredInfo 1 (Some [0x41]) None IconConfirm 2"

definition sample_ux_bytes :: bytes where
  "sample_ux_bytes = [3, 1, 0, 0, 0, 2, 0, 0, 0, 5, 1, 0, 1, 0x53, 0, 1, 0, 0, 0, 1, 1, 0, 0, 0, 1, 0, 1, 0x61, 0, 2, 0x62, 0x63]"

theorem ux_roundtrip_witness:
  "deserialize_full Page_deserialize sample_ux_bytes = Some (Ok sample_ux_page) \<and> length sample_ux_bytes = Page_length sample_ux_page
   \<and> Step_serialize sample_ux_step \<noteq> None"
proof -
  have "Page_wf sample_ux_page" "Step_wf sample_ux_step"
    by (simp_all add: sample_ux_page_def sample_ux_step_def NavigationInfo_wf_def PageContentInfo_wf_def
        string_wf_def vec_wf_def TagValue_wf_def TagValue_size_def)
  moreover have "Page_serialize sample_ux_page = Some sample_ux_bytes"
    by (simp add: sample_ux_page_def sample_ux_bytes_def PageContentInfo_serialize_def NavigationInfo_serialize_def
        TagValue_serialize_def option_serialize_def vec_serialize_def string_serialize_def bool_serialize_def
        u16_serialize_def u32_serialize_def ser_parts.simps)
  ultimately show ?thesis
    using ux_roundtrip [of sample_ux_bytes sample_ux_page sample_ux_step] by blast
qed

text \<open>
  The deserializer does not refuse a count that the rest of the slice cannot hold: nine bytes from a V-App
  that announce a list of 2^32 - 1 elements make \<open>Vec::with_capacity\<close> panic, and so the VM.
\<close>

theorem tag_list_count_panics: "deserialize_full Page_deserialize ([3, 0, 0, 0, 1, 255, 255, 255, 255] @ rest) = None"
proof -
  have "u32_deserialize (255 # 255 # 255 # 255 # rest) = Some (Ok (u32_from_be_bytes 255 255 255 255, rest))"
    by (simp add: u32_deserialize_def returnP_def)
  moreover have "u32_from_be_bytes 255 255 255 255 = 4294967295" by code_simp
  ultimately have v: "vec_deserialize TagValue_size TagValue_deserialize (255 # 255 # 255 # 255 # rest) = None"
    by (simp add: vec_deserialize_def bindP_def TagValue_size_def)
  have c: "PageContent_deserialize (1 # 255 # 255 # 255 # 255 # rest) = None"
    by (simp add: PageContent_deserialize_def enum_deserialize_def v) (simp add: bindP_def)
  have "PageContentInfo_deserialize (0 # 0 # 1 # 255 # 255 # 255 # 255 # rest) = None"
    by (simp add: PageContentInfo_deserialize_def option_deserialize_def Icon_deserialize_def
        enum_deserialize_def returnP_def bindP_def c)
  then show ?thesis
    by (simp add: deserialize_full_def Page_deserialize_def enum_deserialize_def option_deserialize_def returnP_def bindP_def)
qed

end
