(* ===== verification/Ecall_Dispatch.thy ===== *)
theory Ecall_Dispatch
  imports Ecall_Crypto Ux_Codec
begin

text \<open>
  The system calls for the display and the dispatch, \<open>handle_ecall\<close> of \<open>vm/src/handlers/lib/ecall.rs\<close>: the
  code is in register \<open>t0\<close>, arguments in \<open>a0\<close> to \<open>a7\<close>, and a result in \<open>a0\<close>. What the display does with a
  page or step is code of the device's SDK and a parameter.
\<close>

section \<open>Registers\<close>

datatype Register =
    Zero | Ra | Sp | Gp | Tp | T0 | T1 | T2
  | S0 | S1 | A0 | A1 | A2 | A3 | A4 | A5
  | A6 | A7 | S2 | S3 | S4 | S5 | S6 | S7
  | S8 | S9 | S10 | S11 | T3 | T4 | T5 | T6

primrec as_index :: "Register \<Rightarrow> u8" where
  "as_index Zero = 0" | "as_index Ra = 1" | "as_index Sp = 2" | "as_index Gp = 3"
| "as_index Tp = 4" | "as_index T0 = 5" | "as_index T1 = 6" | "as_index T2 = 7"
| "as_index S0 = 8" | "as_index S1 = 9" | "as_index A0 = 10" | "as_index A1 = 11"
| "as_index A2 = 12" | "as_index A3 = 13" | "as_index A4 = 14" | "as_index A5 = 15"
| "as_index A6 = 16" | "as_index A7 = 17" | "as_index S2 = 18" | "as_index S3 = 19"
| "as_index S4 = 20" | "as_index S5 = 21" | "as_index S6 = 22" | "as_index S7 = 23"
| "as_index S8 = 24" | "as_index S9 = 25" | "as_index S10 = 26" | "as_index S11 = 27"
| "as_index T3 = 28" | "as_index T4 = 29" | "as_index T5 = 30" | "as_index T6 = 31"

definition arg :: "'m cpu \<Rightarrow> Register \<Rightarrow> u32" where
  "arg c r = regs c ! unat (as_index r)"

definition set_a0 :: "u32 \<Rightarrow> ('k, 'm, unit) ecall_m" where
  "set_a0 v = (\<lambda>(w, c). ((w, c\<lparr>regs := (regs c)[unat (as_index A0) := v]\<rparr>), Ok ()))"

definition then_a0 :: "('k, 'm, u32) ecall_m \<Rightarrow> ('k, 'm, unit) ecall_m" where
  "then_a0 m = bindS m set_a0"

definition then_one :: "('k, 'm, 'a) ecall_m \<Rightarrow> ('k, 'm, unit) ecall_m" where
  "then_one m = bindS m (\<lambda>_. set_a0 1)"

section \<open>Display\<close>

record display =
  show_page :: "Page \<Rightarrow> (CommEcallError, unit) result"
  show_step :: "Step \<Rightarrow> (CommEcallError, unit) result"

definition MAX_UX_STEP_LEN :: u32 where
  "MAX_UX_STEP_LEN = 512"

definition MAX_UX_PAGE_LEN :: u32 where
  "MAX_UX_PAGE_LEN = 512"

text \<open>The result of a decoder, and that of the display.\<close>

definition decoded :: "string \<Rightarrow> (string, 'a) result option \<Rightarrow> ('k, 'm, 'a) ecall_m" where
  "decoded message r = (case r of
     None \<Rightarrow> throwS (CommPanicked ''capacity overflow'')
   | Some (Inl _) \<Rightarrow> throwS (InvalidParameters message)
   | Some (Inr x) \<Rightarrow> returnS x)"

definition shown :: "(CommEcallError, unit) result \<Rightarrow> ('k, 'm, u32) ecall_m" where
  "shown r = (case r of Inl e \<Rightarrow> throwS e | Inr _ \<Rightarrow> returnS 1)"

definition handle_show_page ::
  "('k device, 'm, 'r) PagedMemory \<Rightarrow> display \<Rightarrow> u32 \<Rightarrow> u32 \<Rightarrow> ('k, 'm, u32) ecall_m" where
  "handle_show_page pm ui page_ptr page_len =
     (if page_len > MAX_UX_PAGE_LEN then throwS (InvalidParameters ''page_len is too large'')
      else bindS (guest_read pm page_ptr (unat page_len)) (\<lambda>page_local.
           bindS (decoded ''Failed to deserialize page'' (deserialize_full Page_deserialize page_local)) (\<lambda>page.
           shown (show_page ui page))))"

definition handle_show_step ::
  "('k device, 'm, 'r) PagedMemory \<Rightarrow> display \<Rightarrow> u32 \<Rightarrow> u32 \<Rightarrow> ('k, 'm, u32) ecall_m" where
  "handle_show_step pm ui step_ptr step_len =
     (if step_len > MAX_UX_STEP_LEN then throwS (InvalidParameters ''step_len is too large'')
      else bindS (guest_read pm step_ptr (unat step_len)) (\<lambda>step_local.
           bindS (decoded ''Failed to deserialize step'' (deserialize_full Step_deserialize step_local)) (\<lambda>step.
           shown (show_step ui step))))"

section \<open>Dispatch\<close>

text \<open>What the handler was made with, and the device's functions.\<close>

record services =
  sv_handler :: CommEcallHandler
  sv_sdk :: sdk
  sv_crypto :: crypto_sdk
  sv_props :: device_props
  sv_display :: display

text \<open>The match on the code; \<open>r\<close> is the macro \<open>reg!\<close> on the processor at the time of the call.\<close>

definition ecall_arm ::
  "('k device, 'm, 'r) PagedMemory \<Rightarrow> services \<Rightarrow> (Register \<Rightarrow> u32) \<Rightarrow> ('k, 'm, unit) ecall_m" where
  "ecall_arm pm sv r =
     (let code = r T0; a0 = r A0; a1 = r A1; a2 = r A2; a3 = r A3; a4 = r A4; a5 = r A5;
          a6 = r A6; a7 = r A7; eh = sv_handler sv; cx = sv_sdk sv; cs = sv_crypto sv in
      if code = 4 then throwS (Exit a0)
      else if code = 1 then
        bindS (or_generic ''xsend failed'' (handle_send_buffer pm a0 a1 Panic)) (\<lambda>_. throwS CommPanic)
      else if code = 2 then or_generic ''xsend failed'' (handle_send_buffer pm a0 a1 VAppMessage)
      else if code = 3 then
        then_a0 (bindS (or_generic ''xrecv failed'' (handle_xrecv pm a0 a1)) (\<lambda>n. returnS (of_nat n)))
      else if code = 5 then then_one (or_generic ''print failed'' (handle_send_buffer pm a0 a1 Print))
      else if code = 10 then then_a0 (handle_get_event pm a0)
      else if code = 20 then then_a0 (handle_storage_read pm eh a0 a1 a2)
      else if code = 21 then then_a0 (handle_storage_write pm eh a0 a1 a2)
      else if code = 192 then then_one (handle_show_page pm (sv_display sv) a0 a1)
      else if code = 193 then then_one (or_generic ''show_step failed'' (handle_show_step pm (sv_display sv) a0 a1))
      else if code = 15 then
        then_a0 (or_generic ''get_device_property failed'' (handle_get_device_property (sv_props sv) a0))
      else if code = 110 then then_one (handle_bn_modm pm cx a0 a1 a2 a3 a4)
      else if code = 111 then then_one (handle_bn_addm pm cx a0 a1 a2 a3 a4)
      else if code = 112 then then_one (or_generic ''bn_subm failed'' (handle_bn_subm pm cx a0 a1 a2 a3 a4))
      else if code = 113 then then_one (handle_bn_multm pm cx a0 a1 a2 a3 a4)
      else if code = 115 then then_one (handle_bn_modinv_prime pm cx a0 a1 a2 a3)
      else if code = 114 then then_one (handle_bn_powm pm cx a0 a1 a2 a3 a4 a5)
      else if code = 150 then or_generic ''hash_init failed'' (handle_hash_init pm cx a0 a1)
      else if code = 151 then or_generic ''hash_update failed'' (handle_hash_update pm cx a0 a1 a2 a3)
      else if code = 152 then or_generic ''hash_digest failed'' (handle_hash_digest pm cx a0 a1 a2)
      else if code = 130 then then_one (handle_derive_hd_node pm cs a0 a1 a2 a3 a4)
      else if code = 131 then then_a0 (handle_get_master_fingerprint cs a0)
      else if code = 132 then then_a0 (handle_derive_slip21_node pm cs a0 a1 a2)
      else if code = 160 then then_a0 (handle_ecfp_add_point pm cs a0 a1 a2 a3)
      else if code = 161 then then_a0 (handle_ecfp_scalar_mult pm cs a0 a1 a2 a3 a4)
      else if code = 170 then then_a0 (handle_get_random_bytes pm a0 a1)
      else if code = 180 then
        then_a0 (bindS (handle_ecdsa_sign pm cs a0 a1 a2 a3 a4 a5) (\<lambda>n. returnS (of_nat n)))
      else if code = 181 then then_a0 (handle_ecdsa_verify pm cs a0 a1 a2 a3 a4)
      else if code = 182 then
        then_a0 (bindS (handle_schnorr_sign pm cs a0 a1 a2 a3 a4 a5 a6 a7) (\<lambda>n. returnS (of_nat n)))
      else if code = 183 then then_a0 (handle_schnorr_verify pm cs a0 a1 a2 a3 a4 a5 a6 a7)
      else throwS UnhandledEcall)"

definition handle_ecall ::
  "('k device, 'm, 'r) PagedMemory \<Rightarrow> services \<Rightarrow> ('k device, 'm, CommEcallError) ecall_handler" where
  "handle_ecall pm sv = (\<lambda>(w, c). ecall_arm pm sv (arg c) (w, c))"

end
