(* ===== verification/Ecall_Sim.thy ===== *)
theory Ecall_Sim
  imports Ecall_Transfers Ecall_Dispatch
begin

text \<open>
  System calls over any paged memory against system calls over plain vectors of pages: whatever the calls
  send, receive, store and return is the same, although the one machine exchanges page requests with the host in
  between. The ideal machine talks to a host that gives the same answers and never sees a page request.
  Every handler of \<open>vm/src/handlers/lib/ecall.rs\<close> respects the simulation \<^const>\<open>simS\<close>; the outsourced
  memory is an instance.
\<close>

section \<open>The host without page requests\<close>

text \<open>The messages of a log up to the \<open>n\<close>-th that is not a page request.\<close>

fun upto_call :: "bytes list \<Rightarrow> nat \<Rightarrow> bytes list" where
  "upto_call [] n = []"
| "upto_call (m # L) n =
     (if page_request m then m # upto_call L n else if n \<le> 1 then [m] else m # upto_call L (n - 1))"

lemma upto_call_eq: "\<not> page_request m \<Longrightarrow> upto_call (xs @ m # ys) (length (calls xs) + 1) = xs @ [m]"
  by (induction xs) auto

text \<open>
  The device of the ideal machine: its host answers the \<open>n\<close>-th message as the host of \<open>w\<close> answered the
  \<open>n\<close>-th message of the log \<open>L\<close> that was not a page request.
\<close>

definition ideal_device :: "bytes list \<Rightarrow> 'k device \<Rightarrow> 'k device" where
  "ideal_device L w = w\<lparr>host := (\<lambda>ms. host w (upto_call L (length ms))), sent := calls (sent w)\<rparr>"

definition run_rel :: "bytes list \<Rightarrow> 'k device \<Rightarrow> 'k device \<Rightarrow> bool" where
  "run_rel L w v \<longleftrightarrow> host v = (\<lambda>ms. host w (upto_call L (length ms))) \<and> sent v = calls (sent w) \<and>
     nvram v = nvram w \<and> random_source v = random_source w \<and> random_used v = random_used w \<and>
     last_event v = last_event w"

definition run_ok :: "bytes list \<Rightarrow> 'k device \<Rightarrow> bool" where
  "run_ok L w \<longleftrightarrow> (\<exists>ms. L = sent w @ ms)"

lemma ideal_device_rel: "run_rel L w (ideal_device L w)"
  by (simp add: run_rel_def ideal_device_def)

lemma page_traffic_fields:
  fixes w w' :: "'k device"
  assumes "page_traffic w w'"
  shows "host w' = host w" "nvram w' = nvram w" "random_source w' = random_source w"
    "random_used w' = random_used w" "last_event w' = last_event w"
  using assms by (cases w; cases w'; simp add: page_traffic_def world_le_def)+

lemma run_rel_traffic: "run_rel L w v \<Longrightarrow> page_traffic w w' \<Longrightarrow> run_rel L w' v"
  using page_traffic_calls [of w w'] page_traffic_fields [of w w'] by (auto simp: run_rel_def)

lemma run_ok_traffic: "page_traffic w w' \<Longrightarrow> run_ok L w' \<Longrightarrow> run_ok L w"
  using page_traffic_calls [of w w'] by (auto simp: run_ok_def)

text \<open>The errors that end a V-App in an orderly way.\<close>

fun stopping :: "CommEcallError \<Rightarrow> bool" where
  "stopping (Exit _) = True"
| "stopping CommPanic = True"
| "stopping _ = False"

section \<open>The interface\<close>

locale ecall_memory = paged_memory_laws pm rep page_traffic ok wr "run_rel L" "run_ok L"
  for pm :: "('k device, 'm, 'r) PagedMemory" and rep ok wr and L :: "bytes list" +
  assumes rep_world: "rep w m ps \<Longrightarrow> world_le w w' \<Longrightarrow> rep w' m ps"
begin

abbreviation call_sim :: "('k, 'm, 'a) ecall_m \<Rightarrow> ('k, VecMemory, 'a) ecall_m \<Rightarrow> bool" where
  "call_sim \<equiv> simS stopping cpu_rel cpu_ok"

lemma rel_worlds: "cpu_rel (w, c) (v, vc) \<Longrightarrow> world_le w w' \<Longrightarrow> run_rel L w' v' \<Longrightarrow> cpu_rel (w', c) (v', vc)"
  unfolding cpu_rel_def seg_rel_def fst_conv snd_conv using rep_world by blast

lemma rel_run: "cpu_rel (w, c) (v, vc) \<Longrightarrow> run_rel L w v"
  by (simp add: cpu_rel_def seg_rel_def)

lemma guest_segment_sim: "call_sim (guest_segment p) (guest_segment p)"
proof -
  have "get_segment c p = (get_segment vc p :: (unit cpu_error, seg_id) result)" if "cpu_rel (w, c) (v, vc)" for w c v vc
    using rel_contains [OF that, of StackSeg p] rel_contains [OF that, of DataSeg p] rel_contains [OF that, of CodeSeg p]
    by (simp add: get_segment_def)
  then show ?thesis by (intro simSI) (auto simp: guest_segment_def split: sum.splits)
qed

lemma guest_on_sim:
  fixes m :: "('k device \<times> 'm MemorySegment, memory_error, 'b) stm"
  assumes "seg_sim (i \<noteq> CodeSeg) m m'"
  shows "call_sim (guest_on i m) (guest_on i m')"
proof (rule simSI)
  note sim = on_seg_sim [OF assms, where obs = "\<lambda>_ :: unit. False"]
  show "cpu_ok s" if "guest_on i m s = (s', r)" "cpu_ok s'" for s s' r
    using simS_ok [OF sim] that guest_on_fst [of i m s] by (metis fst_conv surj_pair)
  show "\<exists>t'. guest_on i m' t = (t', Ok v) \<and> cpu_rel s' t'"
    if "cpu_rel s t" "guest_on i m s = (s', Ok v)" "cpu_ok s'" for s t s' v
  proof -
    have "on_seg i m s = (s', Ok v :: (unit cpu_error, 'b) result)" using guest_on_Ok that(2) by (rule iffD1)
    from simS_run [OF sim that(1) this that(3)]
    obtain t' where t': "on_seg i m' t = (t', Ok v :: (unit cpu_error, 'b) result)" "cpu_rel s' t'" by blast
    have "guest_on i m' t = (t', Ok v)" using guest_on_Ok t'(1) by (rule iffD2)
    with t'(2) show ?thesis by blast
  qed
  show "\<exists>t'. guest_on i m' t = (t', Err e) \<and> cpu_rel s' t'"
    if "guest_on i m s = (s', Err e)" "stopping e" for s t s' e
    using that by (auto simp: guest_on_def split: prod.splits sum.splits)
qed

lemma guest_read_sim: "call_sim (guest_read pm p n) (guest_read VecMemory p n)"
  unfolding guest_read_def by (intro simS_bind guest_segment_sim guest_on_sim read_buffer_sim)

lemma guest_write_sim: "call_sim (guest_write pm p buf) (guest_write VecMemory p buf)"
  unfolding guest_write_def by (intro simS_bind guest_segment_sim guest_on_sim write_buffer_sim)

text \<open>A message that is not a page request: both hosts give the same answer.\<close>

lemma ask_sim:
  assumes "\<not> page_request m"
  shows "call_sim (ask m) (ask m)"
proof (rule simSI)
  have sent: "fst s' = (fst s)\<lparr>sent := sent (fst s) @ [m]\<rparr> \<and> snd s' = snd s" if "ask m s = (s', r)"
    for s s' :: "'k device \<times> 'm cpu" and r
    using ask_sent [of m "fst s" "snd s" "fst s'" "snd s'" r] that by simp
  show "cpu_ok s" if "ask m s = (s', r)" "cpu_ok s'" for s s' r
    using sent [OF that(1)] that(2) by (auto simp: cpu_ok_def run_ok_def)
  show "\<exists>t'. ask m t = (t', Ok v) \<and> cpu_rel s' t'" if h: "cpu_rel s t" "ask m s = (s', Ok v)" "cpu_ok s'" for s t s' v
  proof -
    obtain w c u vc where s: "s = (w, c)" and t: "t = (u, vc)" by fastforce
    let ?w = "w\<lparr>sent := sent w @ [m]\<rparr>" and ?u = "u\<lparr>sent := sent u @ [m]\<rparr>"
    have s': "s' = (?w, c)" using sent [OF h(2)] s by (metis fst_conv prod.collapse snd_conv)
    note r = rel_run [OF h(1) [unfolded s t], unfolded run_rel_def]
    obtain ms where L: "L = sent w @ m # ms" using h(3) s' by (auto simp: cpu_ok_def run_ok_def)
    have "upto_call L (length (sent u @ [m])) = sent w @ [m]"
      using upto_call_eq [OF assms, of "sent w" ms] r L by simp
    then have "host u (sent u @ [m]) = host w (sent w @ [m])" using r by simp
    then have "interrupt m u = (?u, snd (interrupt m w))"
      by (simp add: interrupt_def Let_def split: sum.splits Instruction.splits)
    moreover have "interrupt m w = (?w, snd (interrupt m w))"
      by (metis interrupt_world prod.collapse)
    ultimately have "ask m t = ((?u, vc), Ok v)"
      using h(2) s' unfolding s t by (cases "snd (interrupt m w)") (auto simp: ask_def split: prod.splits)
    moreover have "cpu_rel (?w, c) (?u, vc)"
      by (rule rel_worlds [OF h(1) [unfolded s t]]) (use r assms in \<open>simp_all add: world_le_def run_rel_def\<close>)
    ultimately show ?thesis using s' by blast
  qed
  show "\<exists>t'. ask m t = (t', Err e) \<and> cpu_rel s' t'" if "ask m s = (s', Err e)" "stopping e" for s t s' e
  proof -
    obtain w' r where "interrupt m (fst s) = (w', r)" by fastforce
    then have False using that by (cases r) (auto simp: ask_def split: prod.splits)
    then show ?thesis ..
  qed
qed

text \<open>Access to the device beside the connection, and to the registers.\<close>

lemma device_sim:
  assumes "\<And>w v. run_rel L w v \<Longrightarrow> run_rel L (f w) (f v) \<and> g w = g v"
    and "\<And>w. world_le w (f w) \<and> sent (f w) = sent w"
  shows "call_sim (\<lambda>(w, c). ((f w, c), g w)) (\<lambda>(w, c). ((f w, c), g w))"
proof -
  have "cpu_rel (f w, c) (f v, vc) \<and> g w = g v" if "cpu_rel (w, c) (v, vc)" for w c v vc
    using rel_worlds [OF that] rel_run [OF that] assms by blast
  moreover have "cpu_ok (f w, c) = cpu_ok (w, c)" for w c
    using assms(2) by (simp add: cpu_ok_def run_ok_def)
  ultimately show ?thesis by (intro simSI) auto
qed

lemma nvram_sim:
  assumes "\<And>st. call_sim (f st) (f' st)"
  shows "call_sim (\<lambda>s. f (nvram (fst s)) s) (\<lambda>s. f' (nvram (fst s)) s)"
proof (rule simS_state [where f = f and f' = f'])
  show "nvram (fst s) = nvram (fst t)" if "cpu_rel s t" for s t
    using rel_run [of "fst s" "snd s" "fst t" "snd t"] that by (simp add: run_rel_def)
qed (rule assms)

lemma set_a0_sim: "call_sim (set_a0 v) (set_a0 v)"
  by (rule simSI) (auto simp: set_a0_def cpu_rel_def cpu_ok_def split: prod.splits)

lemma then_a0_sim: "call_sim m m' \<Longrightarrow> call_sim (then_a0 m) (then_a0 m')"
  unfolding then_a0_def by (intro simS_bind set_a0_sim)

lemma then_one_sim: "call_sim m m' \<Longrightarrow> call_sim (then_one m) (then_one m')"
  unfolding then_one_def by (intro simS_bind set_a0_sim)

text \<open>After a conversion of errors no error ends the V-App, so that only success has to be simulated.\<close>

lemma convert_sim:
  assumes "simS (\<lambda>_. False) cpu_rel cpu_ok m m'" "\<And>e. \<not> stopping (f e)"
  shows "call_sim (\<lambda>s. case m s of (s', res) \<Rightarrow> (s', map_err f res)) (\<lambda>s. case m' s of (s', res) \<Rightarrow> (s', map_err f res))"
proof (rule simSI)
  show "cpu_ok s" if "(case m s of (s', res) \<Rightarrow> (s', map_err f res)) = (s', r)" "cpu_ok s'" for s s' r
    using simS_ok [OF assms(1)] that by (auto split: prod.splits)
  show "\<exists>t'. (case m' t of (s', res) \<Rightarrow> (s', map_err f res)) = (t', Ok v) \<and> cpu_rel s' t'"
    if "cpu_rel s t" "(case m s of (s', res) \<Rightarrow> (s', map_err f res)) = (s', Ok v)" "cpu_ok s'" for s t s' v
  proof -
    have "m s = (s', Ok v)" using that(2) by (cases "snd (m s)") (auto split: prod.splits)
    from simS_run [OF assms(1) that(1) this that(3)] show ?thesis by auto
  qed
  show "\<exists>t'. (case m' t of (s', res) \<Rightarrow> (s', map_err f res)) = (t', Err e) \<and> cpu_rel s' t'"
    if "(case m s of (s', res) \<Rightarrow> (s', map_err f res)) = (s', Err e)" "stopping e" for s t s' e
    using that assms(2) by (cases "snd (m s)") (auto split: prod.splits)
qed

lemma weaken_sim: "call_sim m m' \<Longrightarrow> simS (\<lambda>_. False) cpu_rel cpu_ok m m'"
  by (auto simp: simS_def)

lemma crashed_not_stopping: "crashed e \<Longrightarrow> \<not> stopping e"
  by (cases e) auto

lemma or_generic_sim: "simS (\<lambda>_. False) cpu_rel cpu_ok m m' \<Longrightarrow> call_sim (or_generic msg m) (or_generic msg m')"
  unfolding or_generic_def by (rule convert_sim) (auto dest: crashed_not_stopping)

lemma or_panic_sim: "call_sim m m' \<Longrightarrow> call_sim (or_panic m) (or_panic m')"
  unfolding or_panic_def by (rule convert_sim) (auto dest: crashed_not_stopping weaken_sim)

lemma check_sims:
  "call_sim (cx_check msg r) (cx_check msg r)" "call_sim (hash_check q) (hash_check q)"
  "call_sim (digest_slice n d) (digest_slice n d)" "call_sim (ec_check msg p) (ec_check msg p)"
  "call_sim (decoded msg x) (decoded msg x)" "call_sim (shown y) (shown y)"
proof -
  show "call_sim (cx_check msg r) (cx_check msg r)"
    by (cases r) (simp_all add: cx_check_def simS_return simS_throw)
  show "call_sim (hash_check q) (hash_check q)"
    by (cases q) (simp_all add: hash_check_def simS_return simS_throw)
  show "call_sim (digest_slice n d) (digest_slice n d)"
    by (simp add: digest_slice_def simS_return simS_throw)
  show "call_sim (ec_check msg p) (ec_check msg p)"
    by (cases p) (simp_all add: ec_check_def simS_return simS_throw)
  show "call_sim (decoded msg x) (decoded msg x)"
  proof (cases x)
    case (Some y)
    then show ?thesis by (cases y) (simp_all add: decoded_def simS_return simS_throw)
  qed (simp add: decoded_def simS_throw)
  show "call_sim (shown y) (shown y)"
    by (cases y) (simp_all add: shown_def simS_return simS_throw)
qed

lemmas call_sims = sim_intros guest_segment_sim guest_on_sim read_buffer_sim write_buffer_sim guest_read_sim
  guest_write_sim check_sims


end

section \<open>The handlers\<close>

lemma xrecv_loop_unfold:
  "xrecv_loop pm i max_size p remaining tot s =
     (if remaining = Some 0 then Some (s, Ok tot)
      else case xrecv_round pm i max_size p remaining s of
        (s', Inl e) \<Rightarrow> Some (s', Err e)
      | (s', Inr (chunk, n)) \<Rightarrow> xrecv_loop pm i max_size (p + of_nat (length chunk)) (Some n) (tot + length chunk) s')"
  by (subst xrecv_loop.simps)
    (auto simp: xrecv_round_def bindS_def Let_def throwS_def returnS_def split: prod.splits sum.splits)

lemma hash_chunks_unfold:
  "hash_chunks pm cx i p n ctx =
     (if n = 0 then returnS ctx
      else bindS (guest_on i (read_buffer pm p (min n 256))) (\<lambda>d.
        bindS (cx_check ''hash update failed'' (cx_hash_update cx ctx d)) (\<lambda>ctx.
        hash_chunks pm cx i (p + of_nat (min n 256)) (n - min n 256) ctx)))"
  by (rule ext, subst hash_chunks.simps)
    (simp add: Let_def bindS_def cx_check_def throwS_def returnS_def split: prod.splits sum.splits option.splits)

lemma handle_ecall_state: "handle_ecall pm sv = (\<lambda>s. ecall_arm pm sv (arg (snd s)) s)"
  by (auto simp: handle_ecall_def)

text \<open>The handlers of storage, as functions of the registry they find.\<close>

definition storage_read_at ::
  "('k device, 'm, 'r) PagedMemory \<Rightarrow> CommEcallHandler \<Rightarrow> u32 \<Rightarrow> u32 \<Rightarrow> u32 \<Rightarrow> vapp_store \<Rightarrow> ('k, 'm, u32) ecall_m" where
  "storage_read_at pm eh j p n st = (case find_slots eh j n st of
     None \<Rightarrow> returnS 0
   | Some k \<Rightarrow> (case get_entry k st of
       None \<Rightarrow> throwS (CommGenericError ''VApp entry not found'')
     | Some entry \<Rightarrow> bindS (guest_write pm p (storage_slots entry ! unat j)) (\<lambda>_. returnS 1)))"

definition storage_write_at ::
  "('k device, 'm, 'r) PagedMemory \<Rightarrow> CommEcallHandler \<Rightarrow> u32 \<Rightarrow> u32 \<Rightarrow> u32 \<Rightarrow> vapp_store \<Rightarrow> ('k, 'm, u32) ecall_m" where
  "storage_write_at pm eh j p n st = (case find_slots eh j n st of
     None \<Rightarrow> returnS 0 | Some k \<Rightarrow> bindS (guest_read pm p STORAGE_SLOT_SIZE) (store_slot k j))"

definition store_slot_at :: "nat \<Rightarrow> u32 \<Rightarrow> bytes \<Rightarrow> vapp_store \<Rightarrow> ('k, 'm, u32) ecall_m" where
  "store_slot_at k j d st = (case get_entry k st of
     None \<Rightarrow> throwS (CommGenericError ''VApp entry not found'')
   | Some entry \<Rightarrow> (case ls_update (entry\<lparr>storage_slots := (storage_slots entry)[unat j := d]\<rparr>) (st ! k) of
       None \<Rightarrow> throwS (CommPanicked ''LazyStorage not initialized'')
     | Some cell \<Rightarrow> (\<lambda>(w, c). ((w\<lparr>nvram := st[k := cell]\<rparr>, c), Ok 1))))"

lemma storage_states:
  "handle_storage_read pm eh j p n = (\<lambda>s. storage_read_at pm eh j p n (nvram (fst s)) s)"
  "handle_storage_write pm eh j p n = (\<lambda>s. storage_write_at pm eh j p n (nvram (fst s)) s)"
  "store_slot k j d = (\<lambda>s. store_slot_at k j d (nvram (fst s)) s)"
  by (auto simp: fun_eq_iff handle_storage_read_def handle_storage_write_def store_slot_def storage_read_at_def
      storage_write_at_def store_slot_at_def Let_def throwS_def split: option.splits)

context ecall_memory
begin

lemma send_sim: "call_sim (ask_opt (chunk_message first n ty data)) (ask_opt (chunk_message first n ty data))"
proof (cases "chunk_message first n ty data")
  case None
  then show ?thesis by (simp add: ask_opt_def simS_throw)
next
  case (Some m)
  then have "\<not> page_request m" using chunk_not_page_request by (auto simp: chunk_message_def split: if_splits)
  with Some show ?thesis by (simp add: ask_opt_def ask_sim)
qed

lemma send_chunks_sim: "call_sim (send_chunks pm i ty first p n) (send_chunks VecMemory i ty first p n)"
proof (induction n arbitrary: first p rule: less_induct)
  case (less n)
  let ?k = "min n (if first then 255 - 6 else 255 - 1)"
  have rest: "call_sim (send_chunks pm i ty False (p + of_nat ?k) (n - ?k))
      (send_chunks VecMemory i ty False (p + of_nat ?k) (n - ?k))" if "n \<noteq> 0"
    by (rule less.IH) (use that in auto)
  show ?case
  proof (cases "n = 0")
    case True
    then show ?thesis by (subst (1 2) send_chunks_unfold) (simp add: simS_return)
  next
    case False
    show ?thesis
      by (subst (1 2) send_chunks_unfold, simp only: False if_False Let_def)
        (intro simS_bind guest_on_sim read_buffer_sim send_sim rest [OF False])
  qed
qed

lemma handle_send_buffer_sim: "call_sim (handle_send_buffer pm p n ty) (handle_send_buffer VecMemory p n ty)"
  unfolding handle_send_buffer_def by (intro call_sims send_sim send_chunks_sim)

lemma xrecv_round_sim:
  "call_sim (xrecv_round pm i max_size p remaining) (xrecv_round VecMemory i max_size p remaining)"
proof -
  have "\<not> page_request (ReceiveBufferMessage_serialize ReceiveBufferMessage_new)"
    by (simp add: page_request_def ser_defs new_defs)
  then show ?thesis
    unfolding xrecv_round_def
    by (intro simS_bind ask_sim) (auto simp: check_remaining_def intro!: call_sims split: sum.splits option.splits)
qed

lemma xrecv_loop_run_sim:
  assumes "xrecv_loop pm i max_size p remaining tot s = Some out"
  shows "(cpu_ok (fst out) \<longrightarrow> cpu_ok s) \<and> (\<forall>t v. cpu_rel s t \<longrightarrow> snd out = Ok v \<longrightarrow> cpu_ok (fst out) \<longrightarrow>
    (\<exists>t'. xrecv_loop VecMemory i max_size p remaining tot t = Some (t', Ok v) \<and> cpu_rel (fst out) t'))"
  using assms
proof (induction rule: xrecv_loop_induct)
  case (final p tot s)
  then show ?case by (simp add: xrecv_loop_unfold)
next
  case (error p remaining tot s s' e)
  then show ?case using simS_ok [OF xrecv_round_sim] by auto
next
  case (round p remaining tot s s1 chunk r out)
  note sim = xrecv_round_sim [of i max_size p remaining]
  have ok: "cpu_ok (fst out) \<longrightarrow> cpu_ok s1" using round.IH by blast
  have "\<exists>t'. xrecv_loop VecMemory i max_size p remaining tot t = Some (t', Ok v) \<and> cpu_rel (fst out) t'"
    if h: "cpu_rel s t" "snd out = Ok v" "cpu_ok (fst out)" for t v
  proof -
    obtain t1 where t1: "xrecv_round VecMemory i max_size p remaining t = (t1, Ok (chunk, r))" "cpu_rel s1 t1"
      using simS_run [OF sim h(1) round.hyps(2)] ok h(3) by blast
    then obtain t' where "xrecv_loop VecMemory i max_size (p + of_nat (length chunk)) (Some r) (tot + length chunk) t1
        = Some (t', Ok v)" "cpu_rel (fst out) t'"
      using round.IH h(2,3) by blast
    then show ?thesis using t1(1) round.hyps(1) by (subst xrecv_loop_unfold) simp
  qed
  then show ?case using ok simS_ok [OF sim round.hyps(2)] by blast
qed

lemma handle_xrecv_sim:
  "simS (\<lambda>_. False) cpu_rel cpu_ok (handle_xrecv pm p n) (handle_xrecv VecMemory p n)"
proof -
  have "simS (\<lambda>_. False) cpu_rel cpu_ok
      (\<lambda>s. case xrecv_loop pm i n p None 0 s of None \<Rightarrow> (s, Err CommDiverged) | Some out \<Rightarrow> out)
      (\<lambda>s. case xrecv_loop VecMemory i n p None 0 s of None \<Rightarrow> (s, Err CommDiverged) | Some out \<Rightarrow> out)" for i
  proof (rule simSI)
    show "cpu_ok s" if "(case xrecv_loop pm i n p None 0 s of None \<Rightarrow> (s, Err CommDiverged) | Some out \<Rightarrow> out) = (s', r)"
      "cpu_ok s'" for s s' r
      using that xrecv_loop_run_sim [of i n p None 0 s] by (auto split: option.splits)
    show "\<exists>t'. (case xrecv_loop VecMemory i n p None 0 t of None \<Rightarrow> (t, Err CommDiverged) | Some out \<Rightarrow> out) = (t', Ok v)
        \<and> cpu_rel s' t'"
      if "cpu_rel s t" "(case xrecv_loop pm i n p None 0 s of None \<Rightarrow> (s, Err CommDiverged) | Some out \<Rightarrow> out) = (s', Ok v)"
        "cpu_ok s'" for s t s' v
    proof -
      have "xrecv_loop pm i n p None 0 s = Some (s', Ok v)" using that(2) by (auto split: option.splits)
      from xrecv_loop_run_sim [OF this] that(1,3)
      obtain t' where "xrecv_loop VecMemory i n p None 0 t = Some (t', Ok v)" "cpu_rel s' t'" unfolding fst_conv snd_conv by blast
      then show ?thesis by simp
    qed
  qed simp
  then show ?thesis unfolding handle_xrecv_def by (intro simS_bind weaken_sim [OF guest_segment_sim])
qed

lemma store_slot_sim: "call_sim (store_slot k j d) (store_slot k j d)"
proof -
  have "call_sim (\<lambda>(w, c). ((w\<lparr>nvram := st\<rparr>, c), Ok 1)) (\<lambda>(w, c). ((w\<lparr>nvram := st\<rparr>, c), Ok 1))" for st
    using device_sim [of "\<lambda>w. w\<lparr>nvram := st\<rparr>" "\<lambda>_. Ok 1"] by (simp add: run_rel_def world_le_def)
  then have "call_sim (store_slot_at k j d st) (store_slot_at k j d st)" for st
    unfolding store_slot_at_def by (auto intro: simS_throw split: option.splits)
  then show ?thesis unfolding storage_states(3) by (rule nvram_sim)
qed

lemma storage_sims:
  "call_sim (handle_storage_read pm eh j p n) (handle_storage_read VecMemory eh j p n)"
  "call_sim (handle_storage_write pm eh j p n) (handle_storage_write VecMemory eh j p n)"
proof -
  have "call_sim (storage_read_at pm eh j p n st) (storage_read_at VecMemory eh j p n st)" for st
    unfolding storage_read_at_def by (auto intro!: call_sims split: option.splits)
  then show "call_sim (handle_storage_read pm eh j p n) (handle_storage_read VecMemory eh j p n)"
    unfolding storage_states(1) by (rule nvram_sim)
  have "call_sim (storage_write_at pm eh j p n st) (storage_write_at VecMemory eh j p n st)" for st
    unfolding storage_write_at_def by (auto intro!: call_sims store_slot_sim split: option.splits)
  then show "call_sim (handle_storage_write pm eh j p n) (handle_storage_write VecMemory eh j p n)"
    unfolding storage_states(2) by (rule nvram_sim)
qed

lemma bn_sims:
  "call_sim (handle_bn_modm pm cx r a len m m_len) (handle_bn_modm VecMemory cx r a len m m_len)"
  "call_sim (handle_bn_addm pm cx r a b m len) (handle_bn_addm VecMemory cx r a b m len)"
  "call_sim (handle_bn_subm pm cx r a b m len) (handle_bn_subm VecMemory cx r a b m len)"
  "call_sim (handle_bn_multm pm cx r a b m len) (handle_bn_multm VecMemory cx r a b m len)"
  "call_sim (handle_bn_modinv_prime pm cx r a p len) (handle_bn_modinv_prime VecMemory cx r a p len)"
  "call_sim (handle_bn_powm pm cx r a e len_e m len) (handle_bn_powm VecMemory cx r a e len_e m len)"
  unfolding handle_bn_modm_def handle_bn_addm_def handle_bn_subm_def handle_bn_multm_def handle_bn_modinv_prime_def
    handle_bn_powm_def bn_binop_def
  by (intro call_sims)+

lemma hash_chunks_sim: "call_sim (hash_chunks pm cx i p n ctx) (hash_chunks VecMemory cx i p n ctx)"
proof (induction n arbitrary: p ctx rule: less_induct)
  case (less n)
  have rest: "call_sim (hash_chunks pm cx i q (n - min n 256) x) (hash_chunks VecMemory cx i q (n - min n 256) x)"
    if "n \<noteq> 0" for q x
    by (rule less.IH) (use that in auto)
  show ?case by (subst (1 2) hash_chunks_unfold) (intro call_sims rest)
qed

lemma hash_sims:
  "call_sim (handle_hash_init pm cx h p) (handle_hash_init VecMemory cx h p)"
  "call_sim (handle_hash_update pm cx h p d n) (handle_hash_update VecMemory cx h p d n)"
  "call_sim (handle_hash_digest pm cx h p d) (handle_hash_digest VecMemory cx h p d)"
  unfolding handle_hash_init_def handle_hash_update_def handle_hash_digest_def
  by (intro call_sims hash_chunks_sim)+

lemma device_sims:
  "call_sim (cx_rng n) (cx_rng n)" "call_sim get_last_event get_last_event"
  "call_sim (schnorr_sign_call cs k mode m b) (schnorr_sign_call cs k mode m b)"
proof -
  show "call_sim (cx_rng n) (cx_rng n)" "call_sim get_last_event get_last_event"
    unfolding cx_rng_def get_last_event_def by (rule device_sim; simp add: run_rel_def world_le_def)+
  have "schnorr_sign_call cs k mode m b = (\<lambda>(w, c).
      (((\<lambda>w. w\<lparr>random_used := random_used w + fst (cx_ecschnorr_sign cs k mode m b (\<lambda>i. random_source w (random_used w + i)))\<rparr>) w, c),
       (\<lambda>w. case snd (cx_ecschnorr_sign cs k mode m b (\<lambda>i. random_source w (random_used w + i))) of
          None \<Rightarrow> Err (CommGenericError ''cx_schnorr_sign_no_throw failed'') | Some x \<Rightarrow> Ok x) w))"
    by (auto simp: fun_eq_iff schnorr_sign_call_def cx_check_def throwS_def returnS_def split: prod.splits option.splits)
  moreover have "call_sim \<dots> \<dots>" by (rule device_sim; simp add: run_rel_def world_le_def)
  ultimately show "call_sim (schnorr_sign_call cs k mode m b) (schnorr_sign_call cs k mode m b)" by metis
qed

lemma other_sims:
  "call_sim (handle_get_random_bytes pm p n) (handle_get_random_bytes VecMemory p n)"
  "call_sim (handle_get_event pm p) (handle_get_event VecMemory p)"
  "call_sim (handle_get_device_property props q) (handle_get_device_property props q)"
  "call_sim (handle_show_page pm ui p n) (handle_show_page VecMemory ui p n)"
  "call_sim (handle_show_step pm ui p n) (handle_show_step VecMemory ui p n)"
  unfolding handle_get_random_bytes_def handle_get_event_def handle_get_device_property_def handle_show_page_def
    handle_show_step_def
  by (auto intro!: call_sims device_sims split: option.splits)

lemma key_sims:
  "call_sim (handle_derive_hd_node pm cs curve path n k c) (handle_derive_hd_node VecMemory cs curve path n k c)"
  "call_sim (handle_get_master_fingerprint cs curve) (handle_get_master_fingerprint cs curve)"
  "call_sim (handle_derive_slip21_node pm cs p n out) (handle_derive_slip21_node VecMemory cs p n out)"
  unfolding handle_derive_hd_node_def handle_get_master_fingerprint_def handle_derive_slip21_node_def
  by (auto simp: Let_def intro!: call_sims or_panic_sim split: option.splits prod.splits)

lemma curve_sims:
  "call_sim (handle_ecfp_add_point pm cs curve r p q) (handle_ecfp_add_point VecMemory cs curve r p q)"
  "call_sim (handle_ecfp_scalar_mult pm cs curve r p k n) (handle_ecfp_scalar_mult VecMemory cs curve r p k n)"
  "call_sim (handle_ecdsa_sign pm cs curve mode h k m s) (handle_ecdsa_sign VecMemory cs curve mode h k m s)"
  "call_sim (handle_ecdsa_verify pm cs curve k m s l) (handle_ecdsa_verify VecMemory cs curve k m s l)"
  "call_sim (handle_schnorr_sign pm cs curve mode h k m l s e) (handle_schnorr_sign VecMemory cs curve mode h k m l s e)"
  "call_sim (handle_schnorr_verify pm cs curve mode h k m l s e) (handle_schnorr_verify VecMemory cs curve mode h k m l s e)"
  unfolding handle_ecfp_add_point_def handle_ecfp_scalar_mult_def handle_ecdsa_sign_def handle_ecdsa_verify_def
    handle_schnorr_sign_def handle_schnorr_verify_def
  by (intro call_sims device_sims; (simp only: prod.case case_prod_beta)?; intro call_sims)+

lemma ecall_arm_sim: "call_sim (ecall_arm pm sv r) (ecall_arm VecMemory sv r)"
  unfolding ecall_arm_def Let_def
  by (intro simS_cond sim_intros then_a0_sim then_one_sim or_generic_sim handle_send_buffer_sim
      storage_sims bn_sims hash_sims other_sims key_sims curve_sims weaken_sim [OF handle_send_buffer_sim]
      weaken_sim [OF hash_sims(1)] weaken_sim [OF hash_sims(2)] weaken_sim [OF hash_sims(3)] weaken_sim [OF bn_sims(3)]
      weaken_sim [OF other_sims(3)] weaken_sim [OF other_sims(5)] handle_xrecv_sim)

lemma handle_ecall_sim: "call_sim (handle_ecall pm sv) (handle_ecall VecMemory sv)"
  unfolding handle_ecall_state
proof (rule simS_state [where f = "ecall_arm pm sv" and f' = "ecall_arm VecMemory sv"])
  show "arg (snd s) = arg (snd t)" if "cpu_rel s t" for s t
    using that by (simp add: arg_def cpu_rel_def fun_eq_iff)
qed (rule ecall_arm_sim)

end

section \<open>The outsourced memory\<close>

interpretation outsourced_calls: ecall_memory "outsourced cr es" "om_rep cr S issued" "om_ok cr S issued"
  "\<lambda>m. \<not> is_readonly m" L
  for cr :: "'k crypto" and es :: "'s eviction_strategy" and S and issued and L
proof unfold_locales
  fix w w' w1 w2 w3 u :: "'k device" and m m' :: "'s OutsourcedMemory" and i res r f ps
  let ?pm = "outsourced cr es :: ('k device, 's OutsourcedMemory, nat) PagedMemory"
  show "run_rel L w u \<Longrightarrow> page_traffic w w' \<Longrightarrow> run_rel L w' u" by (rule run_rel_traffic)
  show "page_traffic w w' \<Longrightarrow> run_ok L w' \<Longrightarrow> run_ok L w" by (rule run_ok_traffic)
  show "(\<not> is_readonly m') = (\<not> is_readonly m)" if "get_page ?pm i (w, m) = ((w', m'), res)"
    by (rule outsourced_guest.get_page_wr [OF that])
  show "om_rep cr S issued w m ps \<Longrightarrow> world_le w w' \<Longrightarrow> om_rep cr S issued w' m ps" by (rule outsourced_guest.rep_world)
  show "om_rep cr S issued w m ps \<Longrightarrow> page_traffic w w' \<Longrightarrow> om_rep cr S issued w' m ps" by (rule outsourced_guest.rep_le)
  show "page_traffic w1 w2 \<Longrightarrow> page_traffic w2 w3 \<Longrightarrow> page_traffic w1 w3" by (rule page_traffic_trans)
  show "om_ok cr S issued m" if "get_page ?pm i (w, m) = ((w', m'), res)" "om_ok cr S issued m'"
    by (rule outsourced_guest.get_page_ok [OF that])
  show "page_traffic w w'" if "get_page ?pm i (w, m) = ((w', m'), res)" by (rule outsourced_guest.get_page_le [OF that])
  show "om_rep cr S issued w' m' ps \<and> deref ?pm m' r = ps ! unat i"
    if "get_page ?pm i (w, m) = ((w', m'), Ok r)" "om_ok cr S issued m'" "om_rep cr S issued w m ps" "unat i < length ps"
    by (rule outsourced_guest.get_page_rep [OF that])
  show "om_rep cr S issued w' (deref_mut ?pm m' r f) (ps[unat i := f (ps ! unat i)])"
    if "get_page ?pm i (w, m) = ((w', m'), Ok r)" "om_ok cr S issued m'" "om_rep cr S issued w m ps"
      "unat i < length ps" "\<not> is_readonly m" "page_ok (f (ps ! unat i))"
    by (rule outsourced_guest.deref_mut_rep [where f = f, OF that])
  show "om_ok cr S issued m \<and> \<not> is_readonly m" if "om_ok cr S issued (deref_mut ?pm m r f)"
    by (rule outsourced_guest.deref_mut_ok [OF that])
  show "(\<not> is_readonly (deref_mut ?pm m r f)) = (\<not> is_readonly m)" by (rule outsourced_guest.deref_mut_wr)
  show "om_rep cr S issued w m ps \<Longrightarrow> pages_ok ps" by (rule outsourced_guest.rep_pages_ok)
qed (rule page_traffic_refl)

end
