(* ===== verification/Vapp_Run.thy ===== *)
theory Vapp_Run
  imports Preload Ecall_Sim
begin

text \<open>
  Running a V-App: \<open>vm/src/handlers/start_vapp.rs\<close> sets up the three outsourced memories, the segments, the
  processor and the handler of system calls, and executes instructions until an error stops it, which the
  exit of the V-App is too. \<open>vm/src/main.rs\<close> dispatches the commands of the host.
\<close>

section \<open>The eviction strategy of a memory\<close>

text \<open>\<open>Box<dyn PageEvictionStrategy>\<close>: the code cache uses 2Q, the others LRU.\<close>

datatype strategy = LruStrategy LruEvictionStrategy | TwoQStrategy TwoQEvictionStrategy

definition on_strategy ::
  "(LruEvictionStrategy \<Rightarrow> LruEvictionStrategy option) \<Rightarrow> (TwoQEvictionStrategy \<Rightarrow> TwoQEvictionStrategy option) \<Rightarrow>
   strategy \<Rightarrow> strategy option" where
  "on_strategy f g st = (case st of
     LruStrategy s \<Rightarrow> map_option LruStrategy (f s) | TwoQStrategy s \<Rightarrow> map_option TwoQStrategy (g s))"

definition boxed :: "strategy eviction_strategy" where
  "boxed = \<lparr>on_access = (\<lambda>i p. on_strategy (on_access Lru i p) (on_access TwoQ i p)),
     on_load = (\<lambda>i p. on_strategy (on_load Lru i p) (on_load TwoQ i p)),
     choose_victim = (\<lambda>st. case st of LruStrategy s \<Rightarrow> choose_victim Lru s | TwoQStrategy s \<Rightarrow> choose_victim TwoQ s),
     on_invalidate = (\<lambda>i p. on_strategy (on_invalidate Lru i p) (on_invalidate TwoQ i p))\<rparr>"

section \<open>The sizes of the caches\<close>

text \<open>
  The constants that \<open>build.rs\<close> generates, and the size of a cached page with its entry in the strategy, which is
  the compiler's.
\<close>

record vm_config =
  HEAP_SIZE :: nat
  BASE_HEAP_SIZE :: nat
  CACHED_PAGE_SIZE :: nat

definition BASE_CODE_PAGES :: nat where "BASE_CODE_PAGES = 24"
definition BASE_DATA_PAGES :: nat where "BASE_DATA_PAGES = 8"
definition BASE_STACK_PAGES :: nat where "BASE_STACK_PAGES = 8"

text \<open>The pages of the code, data and stack caches; \<^const>\<open>None\<close> is the failed assertion.\<close>

definition cache_pages :: "vm_config \<Rightarrow> (nat \<times> nat \<times> nat) option" where
  "cache_pages cfg =
     (if HEAP_SIZE cfg < BASE_HEAP_SIZE cfg then None
      else
        let n_additional_pages = (HEAP_SIZE cfg - BASE_HEAP_SIZE cfg) div CACHED_PAGE_SIZE cfg;
            n_additional_data_pages = n_additional_pages div 6;
            n_additional_stack_pages = n_additional_pages div 6;
            n_additional_code_pages = n_additional_pages - n_additional_data_pages - n_additional_stack_pages
        in Some (BASE_CODE_PAGES + n_additional_code_pages, BASE_DATA_PAGES + n_additional_data_pages,
                 BASE_STACK_PAGES + n_additional_stack_pages))"

lemma cache_pages_bounds:
  assumes "cache_pages cfg = Some (code, data, stack)"
  shows "code + data + stack = 40 + (HEAP_SIZE cfg - BASE_HEAP_SIZE cfg) div CACHED_PAGE_SIZE cfg"
    "24 \<le> code" "8 \<le> data" "data = stack" "code div 4 < code"
proof -
  let ?n = "(HEAP_SIZE cfg - BASE_HEAP_SIZE cfg) div CACHED_PAGE_SIZE cfg"
  have "?n div 6 + ?n div 6 \<le> ?n" by linarith
  moreover have "24 \<le> 24 + n - (d + d)" "(24 + n - (d + d)) div 4 < 24 + n - (d + d)" if "d + d \<le> n" for n d :: nat
    using that by linarith+
  ultimately show "code + data + stack = 40 + ?n" "24 \<le> code" "8 \<le> data" "data = stack" "code div 4 < code"
    using assms unfolding cache_pages_def Let_def BASE_CODE_PAGES_def BASE_DATA_PAGES_def BASE_STACK_PAGES_def
    by (auto split: if_splits)
qed

section \<open>Setting up the machine\<close>

text \<open>
  A memory and its segment. \<open>MemorySegment::new\<close> refuses an empty section or an odd address, and the code
  unwraps its result.
\<close>

definition outsourced_segment ::
  "nat \<Rightarrow> bool \<Rightarrow> SectionKind \<Rightarrow> u32 \<Rightarrow> hash_output \<Rightarrow> strategy \<Rightarrow> bytes \<Rightarrow> u32 \<Rightarrow> u32 \<Rightarrow>
   strategy OutsourcedMemory MemorySegment option" where
  "outsourced_segment cache readonly kind pages root st vapp_hash start e =
     (case MemorySegment_new start (e - start) (OutsourcedMemory_new cache readonly kind pages root st vapp_hash) of
        Inl _ \<Rightarrow> None | Inr seg \<Rightarrow> Some seg)"

definition start_cpu :: "vm_config \<Rightarrow> Manifest \<Rightarrow> bytes \<Rightarrow> strategy OutsourcedMemory cpu option" where
  "start_cpu cfg m vapp_hash =
     (case cache_pages cfg of None \<Rightarrow> None | Some (n_code, n_data, n_stack) \<Rightarrow>
     (case TwoQ_new n_code (n_code div 4) (n_code div 2) of None \<Rightarrow> None | Some two_q \<Rightarrow>
     (case outsourced_segment n_code True Code (n_code_pages m) (code_merkle_root m) (TwoQStrategy two_q) vapp_hash
         (code_start m) (code_end m) of None \<Rightarrow> None | Some code \<Rightarrow>
     (case outsourced_segment n_data False Data (n_data_pages m) (data_merkle_root m) (LruStrategy (Lru_new n_data)) vapp_hash
         (data_start m) (data_end m) of None \<Rightarrow> None | Some data \<Rightarrow>
     (case outsourced_segment n_stack False Stack (n_stack_pages m) (stack_merkle_root m) (LruStrategy (Lru_new n_stack)) vapp_hash
         (stack_start m) (stack_end m) of None \<Rightarrow> None | Some stack \<Rightarrow>
       let cpu = Cpu_new (entrypoint m) code data stack;
           cpu = cpu\<lparr>regs := (regs cpu)[2 := (stack_end m - 4) AND NOT 3]\<rparr>
       in if pc cpu mod 2 \<noteq> 0 then None else Some cpu)))))"

definition CommEcallHandler_new :: "bytes \<Rightarrow> u32 \<Rightarrow> CommEcallHandler option" where
  "CommEcallHandler_new vapp_hash n =
     (if n \<le> MAX_STORAGE_SLOTS
      then Some \<lparr>eh_vapp_hash = vapp_hash, eh_n_storage_slots = n\<rparr> else None)"

section \<open>The run\<close>

text \<open>What a command ends with: a status with data, or a panic of the VM.\<close>

datatype vm_outcome = VmReturns "(AppSW, bytes) result" | VmPanics

text \<open>
  What the loop makes of an error of the processor when it fetches and when it executes an instruction. Some
  errors stand for a panic of the VM or a loop that does not return (\<^const>\<open>None\<close>).
\<close>

definition fetch_failure :: "CommEcallError cpu_error \<Rightarrow> vm_outcome option" where
  "fetch_failure e = (case e of
     MemError (Panicked _) \<Rightarrow> Some VmPanics
   | MemError Diverged \<Rightarrow> None
   | _ \<Rightarrow> Some (VmReturns (Err VMRuntimeError)))"

definition stop_result :: "CommEcallError cpu_error \<Rightarrow> vm_outcome option" where
  "stop_result e = (case e of
     EcallError (Exit status) \<Rightarrow> Some (VmReturns (Ok (u32_to_be_bytes status)))
   | EcallError CommPanic \<Rightarrow> Some (VmReturns (Err VAppPanic))
   | EcallError (CommPanicked _) \<Rightarrow> Some VmPanics
   | EcallError CommDiverged \<Rightarrow> None
   | EcallError (CommMemoryError (Panicked _)) \<Rightarrow> Some VmPanics
   | EcallError (CommMemoryError Diverged) \<Rightarrow> None
   | MemError (Panicked _) \<Rightarrow> Some VmPanics
   | MemError Diverged \<Rightarrow> None
   | _ \<Rightarrow> Some (VmReturns (Err VMRuntimeError)))"

partial_function (option) vm_loop ::
  "('w, 'm, 'r) PagedMemory \<Rightarrow> ('w, 'm, CommEcallError) ecall_handler \<Rightarrow> 'w \<times> 'm cpu \<Rightarrow>
   (('w \<times> 'm cpu) \<times> vm_outcome) option" where
  "vm_loop pm h s =
     (case fetch_instruction pm s of
        (s1, Inl e) \<Rightarrow> map_option (Pair s1) (fetch_failure e)
      | (s1, Inr instr) \<Rightarrow>
          (case execute pm (Some h) instr s1 of
             (s2, Inl e) \<Rightarrow> map_option (Pair s2) (stop_result e)
           | (s2, Inr _) \<Rightarrow> vm_loop pm h s2))"

declare vm_loop.simps [code]

text \<open>
  \<open>services\<close> holds the functions of the SDK; its handler is made from the manifest. The random key of the
  page encryption comes before the memories.
\<close>

definition handler_start_vapp ::
  "parse_manifest \<Rightarrow> 'k crypto \<Rightarrow> vm_config \<Rightarrow> services \<Rightarrow> (AesError, 'k) result \<Rightarrow> bytes \<Rightarrow> 'k device \<Rightarrow>
   ('k device \<times> vm_outcome) option" where
  "handler_start_vapp parse cr cfg sv random_key data_raw w =
     (case take_manifest parse data_raw of
        Inl e \<Rightarrow> Some (w, VmReturns (Err e))
      | Inr manifest \<Rightarrow>
          let vapp_hash = get_vapp_hash (sha256 cr) manifest in
          if \<not> is_registered vapp_hash (nvram w) then Some (w, VmReturns (Err SignatureFail))
          else (case random_key of
            Inl _ \<Rightarrow> Some (w, VmReturns (Err VMRuntimeError))
          | Inr key \<Rightarrow>
              let w1 = w\<lparr>aes_ctr := AesCtr_new key\<rparr> in
              (case start_cpu cfg manifest vapp_hash of
                 None \<Rightarrow> Some (w1, VmPanics)
               | Some cpu \<Rightarrow>
                   (case CommEcallHandler_new vapp_hash (n_storage_slots manifest) of
                      None \<Rightarrow> Some (w1, VmPanics)
                    | Some eh \<Rightarrow>
                        map_option (\<lambda>((w2, cpu'), out). (w2, out))
                          (vm_loop (outsourced cr boxed) (handle_ecall (outsourced cr boxed) (sv\<lparr>sv_handler := eh\<rparr>))
                             (w1, cpu))))))"

section \<open>The commands of the host\<close>

text \<open>What the handlers get from elsewhere: libraries, the SDK, the user and the random source.\<close>

record 'k vm_env =
  env_parse :: parse_manifest
  env_crypto :: "'k crypto"
  env_config :: vm_config
  env_services :: services
  env_approved :: "Manifest \<Rightarrow> bool"
  env_ephemeral_sk :: bytes
  env_random_key :: "(AesError, 'k) result"
  env_version :: bytes
  env_model :: bytes

definition handle_apdu :: "'k vm_env \<Rightarrow> command \<Rightarrow> 'k device \<Rightarrow> ('k device \<times> vm_outcome) option" where
  "handle_apdu env command w =
     (case Instruction_try_from command of
        Inl _ \<Rightarrow> Some (w, VmReturns (Err DecodingFailed))
      | Inr GetAppInfo \<Rightarrow>
          Some (w, VmReturns (handler_get_app_info (sha256 (env_crypto env)) (vm_auth_key (env_crypto env))
            (env_version env) (env_model env)))
      | Inr RegisterVApp \<Rightarrow>
          Some (case handler_register_vapp (env_parse env) (sha256 (env_crypto env)) (env_approved env)
              (cmd_data command) (nvram w) of
            None \<Rightarrow> (w, VmPanics) | Some (st, r) \<Rightarrow> (w\<lparr>nvram := st\<rparr>, VmReturns r))
      | Inr StartVApp \<Rightarrow>
          handler_start_vapp (env_parse env) (env_crypto env) (env_config env) (env_services env)
            (env_random_key env) (cmd_data command) w
      | Inr PreloadVApp \<Rightarrow>
          Some (case handler_preload_vapp (env_parse env) (env_crypto env) (env_ephemeral_sk env)
              (cmd_data command) w of
            None \<Rightarrow> (w, VmPanics) | Some (w', r) \<Rightarrow> (w', VmReturns r))
      | Inr (Continue _ _) \<Rightarrow> Some (w, VmReturns (Err InsNotSupported)))"

section \<open>What a run ends with\<close>

lemma vm_loop_induct [consumes 1, case_names fetch_error stopped step]:
  assumes "vm_loop pm h s = Some out"
    and "\<And>s s1 e x. \<lbrakk>fetch_instruction pm s = (s1, Err e); fetch_failure e = Some x\<rbrakk> \<Longrightarrow> P s (s1, x)"
    and "\<And>s s1 instr s2 e x. \<lbrakk>fetch_instruction pm s = (s1, Ok instr :: (CommEcallError cpu_error, u32) result); execute pm (Some h) instr s1 = (s2, Err e);
      stop_result e = Some x\<rbrakk> \<Longrightarrow> P s (s2, x)"
    and "\<And>s s1 instr s2 out. \<lbrakk>fetch_instruction pm s = (s1, Ok instr :: (CommEcallError cpu_error, u32) result); execute pm (Some h) instr s1 = (s2, Ok ());
      P s2 out\<rbrakk> \<Longrightarrow> P s out"
  shows "P s out"
proof -
  have "pm' = pm \<and> h' = h \<longrightarrow> P s out" if "vm_loop pm' h' s = Some out" for pm' h' s out
  proof (rule vm_loop.raw_induct [OF _ that, where P = "\<lambda>pm' h' s out. pm' = pm \<and> h' = h \<longrightarrow> P s out"], goal_cases)
    case (1 loop pm' h' s out)
    obtain s1 and r :: "(CommEcallError cpu_error, u32) result" where f: "fetch_instruction pm' s = (s1, r)" by fastforce
    show ?case
    proof (cases r)
      case (Inl e)
      then have "\<exists>x. fetch_failure e = Some x \<and> out = (s1, x)" using 1(2) f by auto
      then show ?thesis using f Inl assms(2) by blast
    next
      case (Inr instr)
      obtain s2 q where x: "execute pm' (Some h') instr s1 = (s2, q)" by fastforce
      show ?thesis
      proof (cases q)
        case (Inl e)
        then have "\<exists>z. stop_result e = Some z \<and> out = (s2, z)" using 1(2) f x \<open>r = Inr instr\<close> by auto
        then show ?thesis using f x \<open>r = Inr instr\<close> Inl assms(3) by blast
      next
        case (Inr u)
        then have "loop pm' h' s2 = Some out" using 1(2) f x \<open>r = Inr instr\<close> by simp
        from 1(1) [OF this] show ?thesis using f x \<open>r = Inr instr\<close> Inr assms(4) by (metis old.unit.exhaust)
      qed
    qed
  qed
  then show ?thesis using assms(1) by blast
qed

lemma stop_resultD:
  assumes "stop_result e = Some (VmReturns r)"
  shows "(\<exists>status. e = EcallError (Exit status) \<and> r = Ok (u32_to_be_bytes status)) \<or>
    (e = EcallError CommPanic \<and> r = Err VAppPanic) \<or> r = Err VMRuntimeError"
  using assms
  by (auto simp: stop_result_def split: cpu_error.splits CommEcallError.splits memory_error.splits)

lemma fetch_failureD: "fetch_failure e = Some x \<Longrightarrow> x = VmPanics \<or> x = VmReturns (Err VMRuntimeError)"
  by (auto simp: fetch_failure_def split: cpu_error.splits memory_error.splits)

lemma vm_loop_outcome:
  assumes "vm_loop pm h s = Some out" "snd out = VmReturns r"
  shows "(\<exists>status. r = Ok (u32_to_be_bytes status)) \<or> r = Err VAppPanic \<or> r = Err VMRuntimeError"
  using assms by (induction rule: vm_loop_induct) (auto dest: fetch_failureD stop_resultD)

section \<open>The run of the ideal machine\<close>

text \<open>An orderly end: the V-App exits, or says that it panics.\<close>

definition orderly :: "vm_outcome \<Rightarrow> bool" where
  "orderly out \<longleftrightarrow> (\<exists>bs. out = VmReturns (Ok bs)) \<or> out = VmReturns (Err VAppPanic)"

lemma orderly_stop: "stop_result e = Some x \<Longrightarrow> orderly x \<Longrightarrow> cpu_obs stopping e"
  by (auto simp: orderly_def dest!: stop_resultD)

lemma orderly_fetch: "fetch_failure e = Some x \<Longrightarrow> \<not> orderly x"
  by (auto simp: orderly_def dest: fetch_failureD)

context ecall_memory
begin

lemma vm_loop_sim:
  assumes "vm_loop pm (handle_ecall pm sv) s = Some out"
  shows "(cpu_ok (fst out) \<longrightarrow> cpu_ok s) \<and> (\<forall>t. cpu_rel s t \<longrightarrow> orderly (snd out) \<longrightarrow> cpu_ok (fst out) \<longrightarrow>
    (\<exists>t'. vm_loop VecMemory (handle_ecall VecMemory sv) t = Some (t', snd out) \<and> cpu_rel (fst out) t'))"
  using assms
proof (induction rule: vm_loop_induct)
  case (fetch_error s s1 e x)
  then show ?case using simS_ok [OF fetch_sim fetch_error(1)] orderly_fetch [OF fetch_error(2)] by simp
next
  case (stopped s s1 instr s2 e x)
  have "handler_sim stopping (Some (handle_ecall pm sv)) (Some (handle_ecall VecMemory sv))"
    by (simp add: handler_sim_def handle_ecall_sim)
  note ex = execute_sim [OF this]
  have ok: "cpu_ok s2 \<longrightarrow> cpu_ok s1" "cpu_ok s1 \<longrightarrow> cpu_ok s"
    using simS_ok [OF ex stopped(2)] simS_ok [OF fetch_sim stopped(1)] by blast+
  have "\<exists>t'. vm_loop VecMemory (handle_ecall VecMemory sv) t = Some (t', x) \<and> cpu_rel s2 t'"
    if h: "cpu_rel s t" "orderly x" "cpu_ok s2" for t
  proof -
    obtain t1 where t1: "fetch_instruction VecMemory t = (t1, Ok instr :: (CommEcallError cpu_error, u32) result)" "cpu_rel s1 t1"
      using simS_run [OF fetch_sim h(1) stopped(1)] ok h(3) by blast
    obtain t2 where "execute VecMemory (Some (handle_ecall VecMemory sv)) instr t1 = (t2, Err e)" "cpu_rel s2 t2"
      using simS_err [OF ex t1(2) stopped(2) orderly_stop [OF stopped(3) h(2)] h(3)] by blast
    then show ?thesis using t1(1) stopped(3) by (subst vm_loop.simps) simp
  qed
  then show ?case using ok by simp
next
  case (step s s1 instr s2 out)
  have "handler_sim stopping (Some (handle_ecall pm sv)) (Some (handle_ecall VecMemory sv))"
    by (simp add: handler_sim_def handle_ecall_sim)
  note ex = execute_sim [OF this]
  have ok: "cpu_ok (fst out) \<longrightarrow> cpu_ok s2" "cpu_ok s2 \<longrightarrow> cpu_ok s1" "cpu_ok s1 \<longrightarrow> cpu_ok s"
    using step.IH simS_ok [OF ex step.hyps(2)] simS_ok [OF fetch_sim step.hyps(1)] by blast+
  have "\<exists>t'. vm_loop VecMemory (handle_ecall VecMemory sv) t = Some (t', snd out) \<and> cpu_rel (fst out) t'"
    if h: "cpu_rel s t" "orderly (snd out)" "cpu_ok (fst out)" for t
  proof -
    obtain t1 where t1: "fetch_instruction VecMemory t = (t1, Ok instr :: (CommEcallError cpu_error, u32) result)" "cpu_rel s1 t1"
      using simS_run [OF fetch_sim h(1) step.hyps(1)] ok h(3) by blast
    obtain t2 where t2: "execute VecMemory (Some (handle_ecall VecMemory sv)) instr t1 = (t2, Ok ())" "cpu_rel s2 t2"
      using simS_run [OF ex t1(2) step.hyps(2)] ok h(3) by blast
    obtain t' where "vm_loop VecMemory (handle_ecall VecMemory sv) t2 = Some (t', snd out)" "cpu_rel (fst out) t'"
      using step.IH t2(2) h(2,3) by blast
    then show ?thesis using t1(1) t2(1) by (subst vm_loop.simps) simp
  qed
  then show ?case using ok by blast
qed

end

lemma outsourced_calls_rel:
  "outsourced_calls.cpu_rel cr S issued L s t \<longleftrightarrow> machine_rel cr S issued s (snd t) \<and> run_rel L (fst s) (fst t)"
  by (auto simp: outsourced_calls.cpu_rel_def outsourced_calls.seg_rel_def machine_rel_def Let_def)

lemma outsourced_calls_ok:
  "outsourced_calls.cpu_ok cr S issued L s \<longleftrightarrow> machine_ok cr S issued (snd s) \<and> run_ok L (fst s)"
  by (simp add: outsourced_calls.cpu_ok_def machine_ok_def)

text \<open>
  C1: (runs) A V-App that runs over outsourced memories, with any host, and exits or panics, does what it does on
  a machine whose memory is its own, with the host answering its messages in the same way: the status is the
  same, what it sent is the same once page requests are left out, the registry with its persistent slots is the
  same, and so are the contents of the memory in the end. So the host can stop a V-App but cannot make
  it compute anything else. The hypotheses are on the cryptography and looked at in the final state: the
  messages hashed do not collide, the tags accepted were issued, and no system call wrote to the code segment.
\<close>

theorem vapp_run_ideal:
  fixes w :: "'k device"
  assumes "machine_rel cr S issued (w, c) vc"
    and "vm_loop (outsourced cr es) (handle_ecall (outsourced cr es) sv) (w, c) = Some ((w', c'), out)"
    and "machine_ok cr S issued c'" "orderly out"
  shows "\<exists>v' vc'. vm_loop VecMemory (handle_ecall VecMemory sv) (ideal_device (sent w') w, vc) = Some ((v', vc'), out) \<and>
    sent v' = calls (sent w') \<and> nvram v' = nvram w' \<and> machine_rel cr S issued (w', c') vc'"
proof -
  let ?L = "sent w'"
  have rel: "outsourced_calls.cpu_rel cr S issued ?L (w, c) (ideal_device ?L w, vc)"
    using assms(1) by (simp add: outsourced_calls_rel ideal_device_rel)
  have ok: "outsourced_calls.cpu_ok cr S issued ?L (w', c')"
    using assms(3) by (simp add: outsourced_calls_ok run_ok_def)
  obtain t' where "vm_loop VecMemory (handle_ecall VecMemory sv) (ideal_device ?L w, vc) = Some (t', out)"
    "outsourced_calls.cpu_rel cr S issued ?L (w', c') t'"
    using outsourced_calls.vm_loop_sim [OF assms(2), where L = ?L] rel ok assms(4) unfolding fst_conv snd_conv by blast
  then show ?thesis by (cases t') (auto simp: outsourced_calls_rel run_rel_def)
qed

section \<open>The machine that is set up\<close>

primrec section_kind_of :: "seg_id \<Rightarrow> SectionKind" where
  "section_kind_of CodeSeg = Code" | "section_kind_of DataSeg = Data" | "section_kind_of StackSeg = Stack"

primrec section_start :: "seg_id \<Rightarrow> Manifest \<Rightarrow> u32" where
  "section_start CodeSeg m = code_start m" | "section_start DataSeg m = data_start m"
| "section_start StackSeg m = stack_start m"

primrec section_end :: "seg_id \<Rightarrow> Manifest \<Rightarrow> u32" where
  "section_end CodeSeg m = code_end m" | "section_end DataSeg m = data_end m"
| "section_end StackSeg m = stack_end m"

primrec section_root :: "seg_id \<Rightarrow> Manifest \<Rightarrow> hash_output" where
  "section_root CodeSeg m = code_merkle_root m" | "section_root DataSeg m = data_merkle_root m"
| "section_root StackSeg m = stack_merkle_root m"

primrec section_pages :: "seg_id \<Rightarrow> Manifest \<Rightarrow> u32" where
  "section_pages CodeSeg m = n_code_pages m" | "section_pages DataSeg m = n_data_pages m"
| "section_pages StackSeg m = n_stack_pages m"

lemma section_pages_between: "section_pages i m = pages_between (section_start i m) (section_end i m)"
  by (cases i) (simp_all add: n_code_pages_def n_data_pages_def n_stack_pages_def)

text \<open>The machine a manifest describes, with the pages \<open>ps i\<close> as the contents of section \<open>i\<close>.\<close>

definition plain_segment :: "Manifest \<Rightarrow> (seg_id \<Rightarrow> page list) \<Rightarrow> seg_id \<Rightarrow> VecMemory MemorySegment" where
  "plain_segment m ps i =
     \<lparr>start_address = section_start i m, seg_size = section_end i m - section_start i m, paged_memory = ps i\<rparr>"

definition plain_machine :: "Manifest \<Rightarrow> (seg_id \<Rightarrow> page list) \<Rightarrow> VecMemory cpu" where
  "plain_machine m ps =
     \<lparr>pc = entrypoint m, regs = (replicate 32 0)[2 := (stack_end m - 4) AND NOT 3],
      code_seg = plain_segment m ps CodeSeg, data_seg = plain_segment m ps DataSeg,
      stack_seg = plain_segment m ps StackSeg, reservation_addr = None\<rparr>"

lemma the_seg_plain: "the_seg i (plain_machine m ps) = plain_segment m ps i"
  by (cases i) (simp_all add: plain_machine_def)

text \<open>The root of the manifest commits to pages: it is the root of a tree over them, as the client stores them.\<close>

definition commits_to :: "(bytes \<Rightarrow> hash_output) \<Rightarrow> hash_output \<Rightarrow> page list \<Rightarrow> hash_output list \<Rightarrow> bool" where
  "commits_to H root ps t \<longleftrightarrow> pages_ok ps \<and> t ! 0 = root \<and> (case checked_next_power_of_two (length ps) of
     None \<Rightarrow> False
   | Some N \<Rightarrow> tree_ok H N t \<and>
       list_all (\<lambda>i. t ! (N - 1 + i) = H (stored_message (False, replicate 12 0, ps ! i))) [0..<length ps])"

definition committed_messages :: "page list \<Rightarrow> hash_output list \<Rightarrow> bytes set" where
  "committed_messages ps t = (\<lambda>page. stored_message (False, replicate 12 0, page)) ` set ps \<union>
     (case checked_next_power_of_two (length ps) of None \<Rightarrow> {} | Some N \<Rightarrow> set (tree_messages N t))"

text \<open>Tags issued for pages of the code only.\<close>

definition tags_for :: "(bytes \<Rightarrow> hash_output) \<Rightarrow> page list \<Rightarrow> (u32 \<times> hash_output) set \<Rightarrow> bool" where
  "tags_for H ps issued \<longleftrightarrow> (\<forall>(i, h)\<in>issued. unat i < length ps \<longrightarrow>
     h = H (stored_message (False, replicate 12 0, ps ! unat i)))"

lemma outsourced_segment_Some:
  assumes "outsourced_segment cache ro kind pages root st h start e = Some seg"
  shows "seg = \<lparr>start_address = start, seg_size = e - start,
      paged_memory = OutsourcedMemory_new cache ro kind pages root st h\<rparr>"
  using assms by (auto simp: outsourced_segment_def MemorySegment_new_def split: if_splits)

lemma start_cpu_Some:
  assumes "start_cpu cfg m h = Some c"
  shows "pc c = entrypoint m" "regs c = (replicate 32 0)[2 := (stack_end m - 4) AND NOT 3]" "reservation_addr c = None"
    "\<exists>k st. the_seg i c = \<lparr>start_address = section_start i m, seg_size = section_end i m - section_start i m,
       paged_memory = OutsourcedMemory_new k (i = CodeSeg) (section_kind_of i) (section_pages i m) (section_root i m) st h\<rparr>"
proof -
  obtain n1 n2 n3 s1 s2 s3 code data stack where
    "outsourced_segment n1 True Code (n_code_pages m) (code_merkle_root m) s1 h (code_start m) (code_end m) = Some code"
    "outsourced_segment n2 False Data (n_data_pages m) (data_merkle_root m) s2 h (data_start m) (data_end m) = Some data"
    "outsourced_segment n3 False Stack (n_stack_pages m) (stack_merkle_root m) s3 h (stack_start m) (stack_end m) = Some stack"
    and c: "c = (Cpu_new (entrypoint m) code data stack)\<lparr>regs := (replicate 32 0)[2 := (stack_end m - 4) AND NOT 3]\<rparr>"
    using assms by (auto simp: start_cpu_def Let_def Cpu_new_def split: option.splits prod.splits if_splits)
  note segs = this(1-3) [THEN outsourced_segment_Some]
  show "pc c = entrypoint m" "regs c = (replicate 32 0)[2 := (stack_end m - 4) AND NOT 3]" "reservation_addr c = None"
    by (simp_all add: c Cpu_new_def)
  show "\<exists>k st. the_seg i c = \<lparr>start_address = section_start i m, seg_size = section_end i m - section_start i m,
       paged_memory = OutsourcedMemory_new k (i = CodeSeg) (section_kind_of i) (section_pages i m) (section_root i m) st h\<rparr>"
    using segs by (cases i) (auto simp: c Cpu_new_def)
qed

lemma checked_power_ge: "checked_next_power_of_two n = Some N \<Longrightarrow> n \<le> N"
  using next_power_of_two_ge by (auto simp: checked_next_power_of_two_def split: if_splits)

text \<open>
  C2: (start) The machine that \<open>handler_start_vapp\<close> sets up stands for the machine the manifest describes: if
  the roots of the manifest commit to the pages of the sections and the tags issued are for pages of the
  code, then registers, program counter and segments agree, and the memories represent those pages.
\<close>

theorem start_machine_rel:
  assumes "start_cpu cfg m h = Some c" "crypto_ok cr" "length (aes_nonce (aes_ctr w)) = 12"
    and "\<forall>i. section_start i m < section_end i m \<and> 4 \<le> section_end i m - section_start i m"
    and "\<forall>i. commits_to (sha256 cr) (section_root i m) (ps i) (t i) \<and> length (ps i) = unat (section_pages i m)"
    and "tags_for (sha256 cr) (ps CodeSeg) issued"
  shows "machine_rel cr (\<Union>i. committed_messages (ps i) (t i)) issued (w, c) (plain_machine m ps)"
proof -
  let ?S = "\<Union>i. committed_messages (ps i) (t i)"
  have "let g = the_seg i c; v = the_seg i (plain_machine m ps) in
      start_address g = start_address v \<and> seg_size g = seg_size v \<and>
      om_rep cr ?S issued w (paged_memory g) (paged_memory v) \<and>
      seg_fits g (length (paged_memory v)) \<and> (i \<noteq> CodeSeg \<longrightarrow> \<not> is_readonly (paged_memory g))" for i
  proof -
    obtain k st where g: "the_seg i c = \<lparr>start_address = section_start i m, seg_size = section_end i m - section_start i m,
       paged_memory = OutsourcedMemory_new k (i = CodeSeg) (section_kind_of i) (section_pages i m) (section_root i m) st h\<rparr>"
      using start_cpu_Some(4) [OF assms(1)] by blast
    have com: "commits_to (sha256 cr) (section_root i m) (ps i) (t i)" and len: "length (ps i) = unat (section_pages i m)"
      using assms(5) by blast+
    obtain N where N: "checked_next_power_of_two (length (ps i)) = Some N" "tree_ok (sha256 cr) N (t i)"
      and leaf: "\<And>j. j < length (ps i) \<Longrightarrow> t i ! (N - 1 + j) = sha256 cr (stored_message (False, replicate 12 0, ps i ! j))"
      and ps: "pages_ok (ps i)" "t i ! 0 = section_root i m"
      using com by (auto simp: commits_to_def list_all_iff split: option.splits)
    have msgs: "set (tree_messages N (t i)) \<subseteq> ?S" "(\<lambda>page. stored_message (False, replicate 12 0, page)) ` set (ps i) \<subseteq> ?S"
      unfolding committed_messages_def using N(1) by (auto intro!: exI [of _ i])
    have "om_rep cr ?S issued w (OutsourcedMemory_new k (i = CodeSeg) (section_kind_of i) (section_pages i m) (t i ! 0) st h) (ps i)"
    proof (rule om_new_rep [OF assms(2,3) ps(1) _ checked_power_ge [OF N(1)] N(2) leaf])
      show "checked_next_power_of_two (unat (section_pages i m)) = Some N" using N(1) len by simp
      show "set (tree_messages N (t i)) \<subseteq> ?S" by (rule msgs)
      show "stored_message (False, replicate 12 0, ps i ! j) \<in> ?S" if "j < length (ps i)" for j
        using that msgs(2) nth_mem by blast
      show "(i = CodeSeg) \<and> (\<forall>(j, h)\<in>issued. unat j < length (ps i) \<longrightarrow> h = t i ! (N - 1 + unat j))"
        if "section_kind_of i = Code"
      proof -
        have "i = CodeSeg" using that by (cases i) simp_all
        then show ?thesis using assms(6) leaf by (auto simp: tags_for_def)
      qed
    qed
    moreover have "seg_fits (the_seg i c) (length (ps i))"
    proof -
      have s: "section_start i m < section_end i m" "4 \<le> section_end i m - section_start i m" using assms(4) by blast+
      have "unat (section_end i m - section_start i m) = unat (section_end i m) - unat (section_start i m)"
        using s(1) by (simp add: unat_sub)
      moreover have "unat (section_start i m) < unat (section_end i m)" using s(1) by (simp add: word_less_nat_alt)
      moreover have "unat (section_end i m) < 2 ^ 32" by (rule unat_u32_less)
      ultimately show ?thesis
        using pages_between_fit [OF s(1)] s(2) by (simp add: seg_fits_def g len section_pages_between)
    qed
    ultimately show ?thesis by (simp add: g the_seg_plain plain_segment_def ps(2) OutsourcedMemory_new_def)
  qed
  moreover have "pc c = pc (plain_machine m ps)" "regs c = regs (plain_machine m ps)"
    "reservation_addr c = reservation_addr (plain_machine m ps)"
    using start_cpu_Some(1-3) [OF assms(1)] by (simp_all add: plain_machine_def)
  ultimately show ?thesis unfolding machine_rel_def fst_conv snd_conv by blast
qed

text \<open>
  C3: (starting) \<open>handler_start_vapp\<close> runs a V-App only if its manifest is valid and its hash is registered:
  otherwise no message is sent, the device is unchanged, and the status says what was wrong. If the run ends, the answer is the exit
  status in four bytes, or one of two errors.
\<close>

theorem start_requires_registration:
  assumes "handler_start_vapp parse cr cfg sv random_key data w = Some (w', out)"
  shows "case take_manifest parse data of
      Inl e \<Rightarrow> e = IncorrectData \<and> w' = w \<and> out = VmReturns (Err IncorrectData)
    | Inr m \<Rightarrow> manifest_validate m = Ok () \<and>
        (if is_registered (get_vapp_hash (sha256 cr) m) (nvram w)
         then out = VmPanics \<or> out = VmReturns (Err VMRuntimeError) \<or> out = VmReturns (Err VAppPanic) \<or>
           (\<exists>status. out = VmReturns (Ok (u32_to_be_bytes status)))
         else w' = w \<and> out = VmReturns (Err SignatureFail))"
proof (cases "take_manifest parse data")
  case (Inl e)
  then have "e = IncorrectData" by (auto simp: take_manifest_def split: option.splits prod.splits if_splits sum.splits)
  then show ?thesis using assms Inl by (simp add: handler_start_vapp_def)
next
  case (Inr m)
  then have valid: "manifest_validate m = Ok ()"
    by (auto simp: take_manifest_def split: option.splits prod.splits if_splits sum.splits)
  let ?h = "get_vapp_hash (sha256 cr) m"
  have "out = VmPanics \<or> out = VmReturns (Err VMRuntimeError) \<or> out = VmReturns (Err VAppPanic) \<or>
      (\<exists>status. out = VmReturns (Ok (u32_to_be_bytes status)))" if reg: "is_registered ?h (nvram w)"
  proof -
    consider "out = VmPanics" | "out = VmReturns (Err VMRuntimeError)"
      | eh s c where "vm_loop (outsourced cr boxed) (handle_ecall (outsourced cr boxed) (sv\<lparr>sv_handler := eh\<rparr>)) s
          = Some ((w', c), out)"
      using assms Inr reg
      by (auto simp: handler_start_vapp_def Let_def split: sum.splits option.splits)
    then show ?thesis
    proof cases
      case 3
      then show ?thesis using vm_loop_outcome [OF 3] by (cases out) auto
    qed simp_all
  qed
  then show ?thesis using assms Inr valid by (auto simp: handler_start_vapp_def Let_def)
qed

section \<open>A small run\<close>

text \<open>
  A V-App of one instruction, \<open>ecall\<close>, with the code of exit in \<open>t0\<close> and the status 42 in \<open>a0\<close>. Its code is one
  page, which the host delivers when it is fetched.
\<close>

definition exit_page :: page where
  "exit_page = [0x73, 0, 0, 0] @ replicate 251 9 @ [33]"

definition exit_stored :: bytes where
  "exit_stored = stored_message (False, replicate 12 0, exit_page)"

definition exit_regs :: "u32 list" where
  "exit_regs = (replicate 32 0)[5 := 4, 10 := 42]"

definition exit_machine :: "LruEvictionStrategy OutsourcedMemory cpu" where
  "exit_machine = toy_machine\<lparr>regs := exit_regs, code_seg := \<lparr>start_address = 0x3000, seg_size = 256,
     paged_memory = OutsourcedMemory_new 1 True Code 1 ([toy_hash exit_stored] ! 0) (Lru_new 1) []\<rparr>\<rparr>"

definition exit_flat :: "VecMemory cpu" where
  "exit_flat = flat_machine\<lparr>regs := exit_regs,
     code_seg := \<lparr>start_address = 0x3000, seg_size = 256, paged_memory = [exit_page]\<rparr>\<rparr>"

definition exit_known :: "bytes list" where
  "exit_known = exit_stored # toy_known"

definition exit_device :: "u8 device" where
  "exit_device = toy_device [GetPageResponse_serialize
     (GetPageResponse_new exit_page False (replicate 12 0) 0 0 Merkle [])] []"

definition exit_run :: "services \<Rightarrow> ((u8 device \<times> LruEvictionStrategy OutsourcedMemory cpu) \<times> vm_outcome) option" where
  "exit_run sv = vm_loop (outsourced toy_crypto Lru) (handle_ecall (outsourced toy_crypto Lru) sv) (exit_device, exit_machine)"

definition exit_fetched ::
  "(u8 device \<times> LruEvictionStrategy OutsourcedMemory cpu) \<times> (CommEcallError cpu_error, u32) result" where
  "exit_fetched = fetch_instruction (outsourced toy_crypto Lru) (exit_device, exit_machine)"

definition exit_executed ::
  "services \<Rightarrow> (u8 device \<times> LruEvictionStrategy OutsourcedMemory cpu) \<times> (CommEcallError cpu_error, unit) result" where
  "exit_executed sv = execute (outsourced toy_crypto Lru) (Some (handle_ecall (outsourced toy_crypto Lru) sv)) 0x73 (fst exit_fetched)"

lemma exit_steps:
  "snd exit_fetched = Ok 0x73"
  "snd (exit_executed sv) = Err (EcallError (Exit 42))"
  "length (sent (fst (fst (exit_executed sv)))) = 1"
  "run_checks exit_known (snd (fst (exit_executed sv)))"
     apply code_simp
    apply code_simp
   apply code_simp
  apply code_simp
  done

lemma exit_run_ends:
  "exit_run sv = Some (fst (exit_executed sv), VmReturns (Ok [0, 0, 0, 42]))"
proof -
  obtain s1 where s1: "fetch_instruction (outsourced toy_crypto Lru) (exit_device, exit_machine)
      = (s1, Ok 0x73 :: (CommEcallError cpu_error, u32) result)" "s1 = fst exit_fetched"
    using exit_steps(1) unfolding exit_fetched_def by (metis prod.collapse)
  obtain s2 where s2: "execute (outsourced toy_crypto Lru) (Some (handle_ecall (outsourced toy_crypto Lru) sv)) 0x73 s1
      = (s2, Err (EcallError (Exit 42)))" "s2 = fst (exit_executed sv)"
    using exit_steps(2) [of sv] unfolding exit_executed_def s1(2) by (metis prod.collapse)
  have "u32_to_be_bytes 42 = [0, 0, 0, 42]" by code_simp
  then show ?thesis
    unfolding exit_run_def by (subst vm_loop.simps) (simp add: s1(1) s2 stop_result_def)
qed

lemma exit_memory_rep:
  "om_rep toy_crypto (set exit_known) {} (toy_device answers st)
     (OutsourcedMemory_new 1 True Code 1 ([toy_hash exit_stored] ! 0) (Lru_new 1) []) [exit_page]"
proof (rule om_new_rep [where N = 1, OF toy_crypto_ok(1)])
  show "pages_ok [exit_page]" by code_simp
  show "checked_next_power_of_two (unat (1 :: u32)) = Some 1"
    by (simp add: checked_next_power_of_two_def next_power_of_two.simps)
  show "tree_ok (sha256 toy_crypto) 1 [toy_hash exit_stored]" unfolding toy_crypto_ok(2) by code_simp
  show "set (tree_messages 1 [toy_hash exit_stored]) \<subseteq> set exit_known" by (simp add: tree_messages_def)
qed (auto simp: toy_device_def AesCtr_new_def toy_crypto_ok(2) exit_stored_def exit_known_def)

lemma exit_machine_rel:
  "machine_rel toy_crypto (set exit_known) {} (exit_device, exit_machine) exit_flat"
proof -
  have segs: "start_address (the_seg i exit_machine) = start_address (the_seg i exit_flat) \<and>
      seg_size (the_seg i exit_machine) = seg_size (the_seg i exit_flat) \<and>
      om_rep toy_crypto (set exit_known) {} exit_device
        (paged_memory (the_seg i exit_machine)) (paged_memory (the_seg i exit_flat)) \<and>
      seg_fits (the_seg i exit_machine) (length (paged_memory (the_seg i exit_flat))) \<and>
      (i \<noteq> CodeSeg \<longrightarrow> \<not> is_readonly (paged_memory (the_seg i exit_machine)))" for i
  proof (cases "i = CodeSeg")
    case True
    then show ?thesis
      using exit_memory_rep by (simp add: exit_machine_def exit_flat_def exit_device_def seg_fits_def PAGE_SIZE_def)
  next
    case False
    have "set toy_known \<subseteq> set exit_known" by (auto simp: exit_known_def)
    from toy_segment_rep [OF this] False show ?thesis
      by (cases i) (simp_all add: exit_machine_def exit_flat_def exit_device_def toy_machine_def flat_machine_def Cpu_new_def)
  qed
  moreover have "pc exit_machine = pc exit_flat" "regs exit_machine = regs exit_flat"
    "reservation_addr exit_machine = reservation_addr exit_flat"
    by (simp_all add: exit_machine_def exit_flat_def toy_machine_def flat_machine_def Cpu_new_def)
  ultimately show ?thesis by (simp add: machine_rel_def Let_def)
qed

theorem vapp_run_ideal_witness:
  "\<forall>sv. \<exists>w' c' v' vc'. exit_run sv = Some ((w', c'), VmReturns (Ok [0, 0, 0, 42])) \<and> length (sent w') = 1 \<and>
     vm_loop VecMemory (handle_ecall VecMemory sv) (ideal_device (sent w') exit_device, exit_flat)
       = Some ((v', vc'), VmReturns (Ok [0, 0, 0, 42])) \<and> nvram v' = nvram w'"
proof
  fix sv
  obtain w' c' where s: "fst (exit_executed sv) = (w', c')" by fastforce
  have run: "exit_run sv = Some ((w', c'), VmReturns (Ok [0, 0, 0, 42]))" using exit_run_ends s by simp
  have ok: "machine_ok toy_crypto (set exit_known) {} c'" using exit_steps(4) [of sv] s run_checks_ok by simp
  have "orderly (VmReturns (Ok [0, 0, 0, 42]))" by (simp add: orderly_def)
  from vapp_run_ideal [OF exit_machine_rel run [unfolded exit_run_def] ok this]
  obtain v' vc' where "vm_loop VecMemory (handle_ecall VecMemory sv) (ideal_device (sent w') exit_device, exit_flat)
      = Some ((v', vc'), VmReturns (Ok [0, 0, 0, 42]))" "nvram v' = nvram w'" by blast
  moreover have "length (sent w') = 1" using exit_steps(3) [of sv] s by simp
  ultimately show "\<exists>w' c' v' vc'. exit_run sv = Some ((w', c'), VmReturns (Ok [0, 0, 0, 42])) \<and> length (sent w') = 1 \<and>
     vm_loop VecMemory (handle_ecall VecMemory sv) (ideal_device (sent w') exit_device, exit_flat)
       = Some ((v', vc'), VmReturns (Ok [0, 0, 0, 42])) \<and> nvram v' = nvram w'"
    using run by blast
qed

text \<open>A manifest whose sections have the two toy pages each, and a build with room for more pages.\<close>

definition start_manifest :: Manifest where
  "start_manifest = sample_manifest\<lparr>entrypoint := 0x3004,
     code_start := 0x3000, code_end := 0x3200, code_merkle_root := toy_tree ! 0,
     data_start := 0x1000, data_end := 0x1200, data_merkle_root := toy_tree ! 0,
     stack_start := 0x2000, stack_end := 0x2200, stack_merkle_root := toy_tree ! 0\<rparr>"

definition start_config :: vm_config where
  "start_config = \<lparr>HEAP_SIZE = 26000, BASE_HEAP_SIZE = 13824, CACHED_PAGE_SIZE = 300\<rparr>"

abbreviation start_pages :: "seg_id \<Rightarrow> page list" where
  "start_pages i \<equiv> [toy_page 1, toy_page 2]"

lemma start_manifest_sections:
  "section_start i start_manifest < section_end i start_manifest"
  "section_end i start_manifest - section_start i start_manifest = 512"
  "section_root i start_manifest = toy_tree ! 0" "section_pages i start_manifest = 2"
  by (cases i; simp add: start_manifest_def section_pages_between pages_between_def page_start_def PAGE_SIZE_def)+

lemma start_commits: "commits_to (sha256 toy_crypto) (toy_tree ! 0) [toy_page 1, toy_page 2] toy_tree"
proof -
  have "checked_next_power_of_two (length [toy_page 1, toy_page 2]) = Some 2"
    by (simp add: checked_next_power_of_two_def next_power_of_two.simps)
  then show ?thesis
    using toy_pages_ok toy_tree_ok unfolding commits_to_def toy_crypto_ok(2) by (simp add: list_all_iff)
qed

theorem start_machine_rel_witness:
  "\<exists>c. start_cpu start_config start_manifest [] = Some c \<and>
     machine_rel toy_crypto (\<Union>i. committed_messages (start_pages i) toy_tree) {} (toy_device [] VAPP_STORE, c)
       (plain_machine start_manifest start_pages)"
proof -
  have "start_cpu start_config start_manifest [] \<noteq> None"
    by (simp add: start_cpu_def cache_pages_def start_config_def start_manifest_def Let_def TwoQ_new_def
        BASE_CODE_PAGES_def BASE_DATA_PAGES_def BASE_STACK_PAGES_def outsourced_segment_def MemorySegment_new_def
        Cpu_new_def)
  then obtain c where c: "start_cpu start_config start_manifest [] = Some c" by blast
  have "machine_rel toy_crypto (\<Union>i. committed_messages (start_pages i) toy_tree) {} (toy_device [] VAPP_STORE, c)
       (plain_machine start_manifest start_pages)"
    by (rule start_machine_rel [OF c toy_crypto_ok(1), where t = "\<lambda>_. toy_tree"])
      (simp_all add: start_manifest_sections start_commits tags_for_def toy_device_def AesCtr_new_def)
  with c show ?thesis by blast
qed

theorem start_requires_registration_witness:
  "\<forall>cfg sv key. \<exists>w' out. handler_start_vapp (\<lambda>_. Some (sample_manifest, [])) toy_crypto cfg sv key [] (toy_device [] VAPP_STORE)
     = Some (w', out) \<and> out = VmReturns (Err SignatureFail)"
proof (intro allI)
  fix cfg sv and key :: "(AesError, u8) result"
  let ?p = "\<lambda>_. Some (sample_manifest, [])" and ?w = "toy_device [] VAPP_STORE"
  have t: "take_manifest ?p [] = Ok sample_manifest" by (simp add: take_manifest_def sample_manifest_valid)
  have e: "\<not> is_registered (get_vapp_hash (sha256 toy_crypto) sample_manifest) (nvram ?w)"
  proof -
    have "\<not> is_registered (get_vapp_hash (sha256 toy_crypto) sample_manifest) VAPP_STORE" by code_simp
    then show ?thesis by (simp add: toy_device_def)
  qed
  have "handler_start_vapp ?p toy_crypto cfg sv key [] ?w \<noteq> None"
    by (simp add: handler_start_vapp_def t e Let_def)
  then obtain w' out where run: "handler_start_vapp ?p toy_crypto cfg sv key [] ?w = Some (w', out)" by fast
  from start_requires_registration [OF run] have "out = VmReturns (Err SignatureFail)"
    by (simp add: t e)
  with run show "\<exists>w' out. handler_start_vapp ?p toy_crypto cfg sv key [] ?w = Some (w', out) \<and> out = VmReturns (Err SignatureFail)"
    by blast
qed

end
