(* ===== verification/Client_Serves.thy ===== *)
theory Client_Serves
  imports Client_Engine Vapp_Run
begin

text \<open>
  The client as the host of the VM. The engine of \<open>Client_Engine\<close> serves the requests for pages: run on the
  messages the VM has sent so far, its last command is what the VM receives next. With this host, the outsourced
  memory never fails: the proofs the client makes are the ones the VM accepts.
\<close>

section \<open>The client as a host\<close>

text \<open>
  A transport that answers with given messages and then has no answer: the commands that went through it
  are collected.
\<close>

type_synonym script = "(StatusWord \<times> bytes) list \<times> APDUCommand list"

definition script_io :: "script client_io" where
  "script_io = \<lparr>io_exchange = (\<lambda>apdu (answers, commands). case answers of
       [] \<Rightarrow> (([], commands @ [apdu]), Err ''no answer yet'')
     | a # rest \<Rightarrow> ((rest, commands @ [apdu]), Ok a)),
     io_write = (\<lambda>buf d. (d, Ok (length buf)))\<rparr>"

abbreviation interrupted :: "bytes \<Rightarrow> StatusWord \<times> bytes" where
  "interrupted m \<equiv> (InterruptedExecution_sw, m)"

text \<open>The engine serves the requests \<open>ms\<close> of the VM, in order.\<close>

definition serve ::
  "(bytes \<Rightarrow> hash_output) \<Rightarrow> VAppEngine \<Rightarrow> bytes list \<Rightarrow>
   ((script \<times> VAppEngine) \<times> (VAppEngineError, StatusWord \<times> bytes) result) option" where
  "serve H e ms = (case ms of
     [] \<Rightarrow> Some ((([], []), e), Err EngineDiverged)
   | m # rest \<Rightarrow> page_requests_loop H script_io (interrupted m) ((map interrupted rest, []), e))"

definition to_command :: "APDUCommand \<Rightarrow> command" where
  "to_command a = \<lparr>cmd_ins = apdu_ins a, cmd_p1 = apdu_p1 a, cmd_p2 = apdu_p2 a, cmd_data = apdu_data a\<rparr>"

definition client_host :: "(bytes \<Rightarrow> hash_output) \<Rightarrow> VAppEngine \<Rightarrow> bytes list \<Rightarrow> command" where
  "client_host H e ms = (case serve H e ms of
     Some (((answers, commands), e'), r) \<Rightarrow> to_command (last commands)
   | None \<Rightarrow> to_command (apdu_continue []))"

text \<open>After the messages \<open>ms\<close> the engine is in state \<open>e\<close> and takes the next message as a new request.\<close>

definition settled :: "(bytes \<Rightarrow> hash_output) \<Rightarrow> VAppEngine \<Rightarrow> bytes list \<Rightarrow> VAppEngine \<Rightarrow> bool" where
  "settled H e0 ms e \<longleftrightarrow> (\<exists>commands. \<forall>m rest. serve H e0 (ms @ m # rest) =
     page_requests_loop H script_io (interrupted m) ((map interrupted rest, commands), e))"

lemma settled_start: "settled H e [] e"
  unfolding settled_def by (rule exI [of _ "[]"]) (simp add: serve_def)

lemma exchange_script:
  "exchange script_io apdu (([], cs), e) = ((([], cs @ [apdu]), e), Err (TransportError ''no answer yet''))"
  "exchange script_io apdu ((a # rest, cs), e) = (((rest, cs @ [apdu]), e), Ok a)"
  by (simp_all add: exchange_def script_io_def)

section \<open>The rest of a proof\<close>

text \<open>The commands the loop sends, and the chunks of the proof they carry.\<close>

function rest_chunks :: "bytes list \<Rightarrow> nat \<Rightarrow> bytes list list" where
  "rest_chunks pr offset =
     (let t = min (length pr - offset) 18
      in take t (drop offset pr) # (if offset + t \<ge> length pr then [] else rest_chunks pr (offset + t)))"
  by pat_completeness auto
termination
  by (relation "measure (\<lambda>(pr, offset). length pr - offset)") auto

declare rest_chunks.simps [simp del]

definition chunk_command :: "proof_stream \<Rightarrow> bytes list \<Rightarrow> APDUCommand" where
  "chunk_command k c = apdu_continue (stream_response k (of_nat (length c)) c)"

primrec stream_request :: "proof_stream \<Rightarrow> bytes" where
  "stream_request GetPageProof = GetPageProofContinuedMessage_serialize GetPageProofContinuedMessage_new"
| "stream_request CommitPageProof = CommitPageProofContinuedMessage_serialize CommitPageProofContinuedMessage_new"

lemma stream_check_request: "stream_check k (stream_request k) = Ok ()"
  by (cases k) (simp_all add: GetPageProofContinuedMessage_serialize_def GetPageProofContinuedMessage_new_def
      GetPageProofContinuedMessage_deserialize_def CommitPageProofContinuedMessage_serialize_def
      CommitPageProofContinuedMessage_new_def CommitPageProofContinuedMessage_deserialize_def expect_code_def
      ClientCommandCode_try_from_def)

lemma rest_chunks_last:
  "length pr \<le> offset + min (length pr - offset) 18 \<Longrightarrow>
     rest_chunks pr offset = [take (min (length pr - offset) 18) (drop offset pr)]"
  by (subst rest_chunks.simps) (simp only: Let_def if_True)

lemma rest_chunks_more:
  "\<not> length pr \<le> offset + min (length pr - offset) 18 \<Longrightarrow>
     rest_chunks pr offset = take (min (length pr - offset) 18) (drop offset pr)
       # rest_chunks pr (offset + min (length pr - offset) 18)"
  by (subst rest_chunks.simps) (simp only: Let_def if_False)

lemma rest_chunks_not_empty: "rest_chunks pr offset \<noteq> []"
  using rest_chunks_last [of pr offset] rest_chunks_more [of pr offset] by fastforce

lemma rest_chunks_concat: "offset < length pr \<Longrightarrow> concat (rest_chunks pr offset) = drop offset pr"
proof (induction pr offset rule: rest_chunks.induct)
  case (1 pr offset)
  define t where "t = min (length pr - offset) 18"
  show ?case
  proof (cases "length pr \<le> offset + t")
    case True
    then show ?thesis using rest_chunks_last [of pr offset, folded t_def] by simp
  next
    case False
    then have "concat (rest_chunks pr (offset + t)) = drop (offset + t) pr" using 1(1) [OF t_def] by simp
    moreover have "take t (drop offset pr) @ drop (offset + t) pr = drop offset pr"
      using append_take_drop_id [of t "drop offset pr"] by (simp add: add.commute)
    ultimately show ?thesis using rest_chunks_more [of pr offset, folded t_def] False by simp
  qed
qed

lemma rest_chunks_sizes: "offset < length pr \<Longrightarrow> c \<in> set (rest_chunks pr offset) \<Longrightarrow> c \<noteq> [] \<and> length c \<le> 18 \<and> set c \<subseteq> set pr"
proof (induction pr offset rule: rest_chunks.induct)
  case (1 pr offset)
  define t where "t = min (length pr - offset) 18"
  have t: "0 < t" "t \<le> 18" using 1(2) by (simp_all add: t_def)
  have "set (take t (drop offset pr)) \<subseteq> set pr" using set_take_subset set_drop_subset by fast
  then have now: "take t (drop offset pr) \<noteq> [] \<and> length (take t (drop offset pr)) \<le> 18 \<and> set (take t (drop offset pr)) \<subseteq> set pr"
    using t 1(2) by simp
  show ?case
  proof (cases "length pr \<le> offset + t")
    case True
    then show ?thesis using rest_chunks_last [of pr offset, folded t_def] now 1(3) by simp
  next
    case False
    then show ?thesis using rest_chunks_more [of pr offset, folded t_def] now 1(1) [OF t_def] 1(3) by auto
  qed
qed

lemma send_rest_unfold:
  assumes "t = min (length pr - offset) 18"
  shows "send_rest_of_proof io k pr offset =
    bindS (exchange io (chunk_command k (take t (drop offset pr)))) (\<lambda>(new_status, new_result).
      if length pr \<le> offset + t then returnS (new_status, new_result)
      else if new_status \<noteq> InterruptedExecution_sw then throwS InterruptedExecutionExpected
      else bindS (readE (stream_check k new_result)) (\<lambda>_. send_rest_of_proof io k pr (offset + t)))"
proof -
  have "t \<le> length (drop offset pr)" using assms by simp
  then have "length (take t (drop offset pr)) = t" by simp
  then show ?thesis
    by (subst send_rest_of_proof.simps) (simp only: Let_def stream_max_value assms [symmetric] chunk_command_def)
qed

lemma send_rest_waits:
  assumes "offset < length pr" "j < length (rest_chunks pr offset)"
  shows "send_rest_of_proof script_io k pr offset ((replicate j (interrupted (stream_request k)), cs), e) =
    ((([], cs @ map (chunk_command k) (take (Suc j) (rest_chunks pr offset))), e), Err (TransportError ''no answer yet''))"
  using assms
proof (induction pr offset arbitrary: j cs rule: rest_chunks.induct)
  case (1 pr offset)
  define t where "t = min (length pr - offset) 18"
  note unf = send_rest_unfold [OF t_def, where io = script_io and k = k]
  let ?c = "take t (drop offset pr)"
  show ?case
  proof (cases "length pr \<le> offset + t")
    case True
    then show ?thesis using 1(3) rest_chunks_last [of pr offset, folded t_def]
      by (simp add: unf bindS_def exchange_script)
  next
    case False
    note r = rest_chunks_more [of pr offset, folded t_def, OF False]
    show ?thesis
    proof (cases j)
      case 0
      then show ?thesis unfolding r by (simp add: unf bindS_def exchange_script)
    next
      case (Suc i)
      have "send_rest_of_proof script_io k pr (offset + t) ((replicate i (interrupted (stream_request k)), cs @ [chunk_command k ?c]), e) =
        ((([], (cs @ [chunk_command k ?c]) @ map (chunk_command k) (take (Suc i) (rest_chunks pr (offset + t)))), e), Err (TransportError ''no answer yet''))"
        by (rule 1(1) [OF t_def]) (use False 1(3) Suc r in auto)
      then show ?thesis using False unfolding r Suc
        by (simp add: unf bindS_def exchange_script readE_def liftE_def stream_check_request)
    qed
  qed
qed

lemma send_rest_done:
  assumes "offset < length pr"
  shows "send_rest_of_proof script_io k pr offset
      ((replicate (length (rest_chunks pr offset) - 1) (interrupted (stream_request k)) @ x # rest, cs), e) =
    (((rest, cs @ map (chunk_command k) (rest_chunks pr offset)), e), Ok x)"
  using assms
proof (induction pr offset arbitrary: cs rule: rest_chunks.induct)
  case (1 pr offset)
  define t where "t = min (length pr - offset) 18"
  note unf = send_rest_unfold [OF t_def, where io = script_io and k = k]
  let ?c = "take t (drop offset pr)"
  show ?case
  proof (cases "length pr \<le> offset + t")
    case True
    then show ?thesis using rest_chunks_last [of pr offset, folded t_def]
      by (cases x) (simp add: unf bindS_def exchange_script)
  next
    case False
    note r = rest_chunks_more [of pr offset, folded t_def, OF False]
    obtain n where n: "length (rest_chunks pr (offset + t)) = Suc n"
      using rest_chunks_not_empty by (metis length_greater_0_conv gr0_conv_Suc)
    have "send_rest_of_proof script_io k pr (offset + t)
        ((replicate (length (rest_chunks pr (offset + t)) - 1) (interrupted (stream_request k)) @ x # rest, cs @ [chunk_command k ?c]), e) =
      (((rest, (cs @ [chunk_command k ?c]) @ map (chunk_command k) (rest_chunks pr (offset + t))), e), Ok x)"
      by (rule 1(1) [OF t_def]) (use False in auto)
    then show ?thesis using False unfolding r n
      by (simp add: unf bindS_def exchange_script readE_def liftE_def stream_check_request n)
  qed
qed

section \<open>One request\<close>

text \<open>
  The engine in state \<open>e\<close> serves the request \<open>g\<close> with the commands \<open>cmds\<close>, one more for each message that asks
  for the rest of the proof, and is then in state \<open>e'\<close>.
\<close>

definition serves ::
  "(bytes \<Rightarrow> hash_output) \<Rightarrow> proof_stream \<Rightarrow> bytes \<Rightarrow> VAppEngine \<Rightarrow> APDUCommand list \<Rightarrow> VAppEngine \<Rightarrow> bool" where
  "serves H k g e cmds e' \<longleftrightarrow> cmds \<noteq> [] \<and> (\<forall>cs.
     (\<forall>j<length cmds. \<exists>e1 r. page_requests_loop H script_io (interrupted g)
         ((replicate j (interrupted (stream_request k)), cs), e) = Some ((([], cs @ take (Suc j) cmds), e1), r)) \<and>
     (\<forall>m rest. page_requests_loop H script_io (interrupted g)
         ((replicate (length cmds - 1) (interrupted (stream_request k)) @ interrupted m # rest, cs), e)
       = page_requests_loop H script_io (interrupted m) ((rest, cs @ cmds), e')))"

lemma client_host_serves:
  assumes "settled H e0 ms e" "serves H k g e cmds e'"
  shows "j < length cmds \<Longrightarrow> client_host H e0 (ms @ g # replicate j (stream_request k)) = to_command (cmds ! j)"
    and "settled H e0 (ms @ g # replicate (length cmds - 1) (stream_request k)) e'"
proof -
  obtain cs where cs: "\<And>m rest. serve H e0 (ms @ m # rest) =
     page_requests_loop H script_io (interrupted m) ((map interrupted rest, cs), e)"
    using assms(1) unfolding settled_def by blast
  show "client_host H e0 (ms @ g # replicate j (stream_request k)) = to_command (cmds ! j)" if j: "j < length cmds"
  proof -
    obtain e1 r where "page_requests_loop H script_io (interrupted g)
         ((replicate j (interrupted (stream_request k)), cs), e) = Some ((([], cs @ take (Suc j) cmds), e1), r)"
      using assms(2) j unfolding serves_def by blast
    moreover have "last (cs @ take (Suc j) cmds) = cmds ! j" using j by (simp add: take_Suc_conv_app_nth)
    ultimately show ?thesis by (simp add: client_host_def cs)
  qed
  have "serve H e0 ((ms @ g # replicate (length cmds - 1) (stream_request k)) @ m # rest)
      = page_requests_loop H script_io (interrupted m) ((map interrupted rest, cs @ cmds), e')" for m rest
    using assms(2) cs [of g "replicate (length cmds - 1) (stream_request k) @ m # rest"]
    unfolding serves_def by simp
  then show "settled H e0 (ms @ g # replicate (length cmds - 1) (stream_request k)) e'"
    unfolding settled_def by blast
qed

definition page_bytes :: "stored_page \<Rightarrow> bytes" where
  "page_bytes = (\<lambda>(enc, nonce, data). page_message data (if enc then Some nonce else None))"

definition get_commands :: "stored_page \<Rightarrow> bytes list \<Rightarrow> APDUCommand list" where
  "get_commands = (\<lambda>(enc, nonce, data) pr.
     apdu_continue (GetPageResponse_serialize (GetPageResponse_new data enc nonce (of_nat (length pr))
       (of_nat (min (length pr) 9)) Merkle (take 9 pr)))
     # (if length pr \<le> 9 then [] else map (chunk_command GetPageProof) (rest_chunks pr 9)))"

lemma page_bytes_parts:
  assumes "stored_ok (enc, nonce, data)"
  shows "length (page_bytes (enc, nonce, data)) = 1 + 12 + PAGE_SIZE"
    "page_bytes (enc, nonce, data) ! 0 \<noteq> 0 \<longleftrightarrow> enc"
    "drop 1 (take 13 (page_bytes (enc, nonce, data))) = nonce" "drop 13 (page_bytes (enc, nonce, data)) = data"
proof -
  have n: "length nonce = 12" "length data = PAGE_SIZE" "\<not> enc \<Longrightarrow> nonce = replicate 12 0"
    using assms by (auto simp: stored_ok_def nonce_wf_def)
  have b: "page_bytes (enc, nonce, data) = (if enc then 1 else 0) # nonce @ data"
    using n(3) by (cases enc) (simp_all add: page_bytes_def page_message_def numeral_eq_Suc)
  show "length (page_bytes (enc, nonce, data)) = 1 + 12 + PAGE_SIZE"
    "page_bytes (enc, nonce, data) ! 0 \<noteq> 0 \<longleftrightarrow> enc"
    "drop 1 (take 13 (page_bytes (enc, nonce, data))) = nonce" "drop 13 (page_bytes (enc, nonce, data)) = data"
    unfolding b using n(1,2) by simp_all
qed

lemma get_max: "GetPageResponse_max_proof_size = 9"
  by (simp add: GetPageResponse_max_proof_size_def MAX_APDU_DATA_SIZE_def PAGE_SIZE_def)

lemma small_u8:
  assumes "n < 256"
  shows "unat (of_nat n :: u8) = n" "k < 256 \<Longrightarrow> (of_nat k :: u8) < of_nat n \<longleftrightarrow> k < n"
  using assms by (simp_all add: unat_of_nat word_less_nat_alt)

lemma bind_read [simp]: "bindS (liftE (Ok a)) f = f a" "bindS (readE (Ok a)) f = f a"
  by (simp_all add: bindS_def readE_def liftE_def fun_eq_iff)

lemma get_page_message: "GetPageMessage_deserialize (GetPageMessage_serialize (GetPageMessage_new kind i)) = Ok (GetPageMessage_new kind i)"
  using get_page.des_ser [of "GetPageMessage_new kind i"] by (simp add: GetPageMessage_wf_def GetPageMessage_new_def)

lemma process_get_page_unfold:
  assumes "code_hmacs e = None \<or> kind \<noteq> Code" "stored_ok st" "length pr < 256"
    and "client_get_page (engine_seg kind e) i = Ok (page_bytes st, pr)"
  shows "process_get_page io (GetPageMessage_serialize (GetPageMessage_new kind i)) (d, e) =
    bindS (exchange io (hd (get_commands st pr))) (\<lambda>(status, result).
      if 9 < length pr then
        if status \<noteq> InterruptedExecution_sw \<or> result = [] then throwS InterruptedExecutionExpected
        else bindS (readE (GetPageProofContinuedMessage_deserialize result)) (\<lambda>_. send_rest_of_proof io GetPageProof pr 9)
      else returnS (status, result)) (d, e)"
proof -
  obtain enc nonce data where st: "st = (enc, nonce, data)" by (cases st)
  note parts = page_bytes_parts [OF assms(2) [unfolded st]]
  let ?t = "of_nat (min (length pr) 9) :: u8"
  have t: "unat ?t = min (length pr) 9" "?t < of_nat (length pr) \<longleftrightarrow> 9 < length pr"
  proof -
    have m: "min (length pr) 9 < 256" by simp
    show "unat ?t = min (length pr) 9" by (rule small_u8(1) [OF m])
    show "?t < of_nat (length pr) \<longleftrightarrow> 9 < length pr"
      unfolding small_u8(2) [OF assms(3) m] by linarith
  qed
  have f: "gpm_section_kind (GetPageMessage_new kind i) = kind" "gpm_page_index (GetPageMessage_new kind i) = i"
    by (simp_all add: GetPageMessage_new_def)
  have b: "unat (of_nat 9 :: u8) = 9" "9 < length pr \<Longrightarrow> min (length pr) 9 = 9" by simp_all
  have k: "take (min (length pr) 9) pr = take 9 pr"
    "take 13 (page_bytes (enc, nonce, data)) ! 0 = page_bytes (enc, nonce, data) ! 0" by (simp_all add: min_def)
  note unf = process_get_page_def get_page_message bind_read prod.case f assms(4) [unfolded st] map_err_simps parts(1,3,4) Let_def
    k(2) parts(2) get_max t k(1) get_commands_def list.sel
  have no_hmac: "(case kind of Code \<Rightarrow> (case code_hmacs e of None \<Rightarrow> g | Some h \<Rightarrow> f h) | Data \<Rightarrow> g | Stack \<Rightarrow> g) = g" for f g
    using assms(1) by (cases kind; cases "code_hmacs e") auto
  show ?thesis
    by (simp only: st unf if_False simp_thms no_hmac b if_True cong: if_cong)
qed

lemma take_map_Suc: "take (Suc j) (x # map f ys) = x # map f (take j ys)"
  by (simp add: take_map)

lemma get_command_code: "GetPageMessage_serialize (GetPageMessage_new kind i) ! 0 = 0"
  "GetPageMessage_serialize (GetPageMessage_new kind i) \<noteq> []"
  by (simp_all add: GetPageMessage_serialize_def GetPageMessage_new_def)

lemma page_request_loop:
  assumes "g \<noteq> []" "g ! 0 = ClientCommandCode_as_u8 code" "code = GetPage \<or> code = CommitPage"
  shows "page_requests_loop H io (interrupted g) s =
    (case (if code = GetPage then process_get_page io g else process_commit_page H io g) s of
       (s2, Inl e) \<Rightarrow> Some (s2, Err e) | (s2, Inr r2) \<Rightarrow> page_requests_loop H io r2 s2)"
proof -
  have "ClientCommandCode_try_from (g ! 0) = Ok code"
    using assms(2,3) by (auto simp: ClientCommandCode_try_from_def)
  then have "read_code g s = (s, Ok code)" by (simp add: read_code_def liftE_def)
  then show ?thesis using assms(1,3) by (subst page_requests_loop.simps) auto
qed

text \<open>What a handler does on the script, as it is used for both kinds of requests.\<close>

lemma servesI:
  assumes g: "g \<noteq> []" "g ! 0 = ClientCommandCode_as_u8 code" "code = GetPage \<or> code = CommitPage"
    and handler: "\<And>s. (if code = GetPage then process_get_page script_io g else process_commit_page H script_io g) (s, e)
        = bindS (exchange script_io c) (\<lambda>(status, result).
            if n < length pr then
              if status \<noteq> InterruptedExecution_sw \<or> result = [] then fail status result
              else bindS (readE (check result)) (\<lambda>_. send_rest_of_proof script_io k pr n)
            else returnS (status, result)) (s, e')"
    and check: "check (stream_request k) = Ok x"
  shows "serves H k g e (c # (if length pr \<le> n then [] else map (chunk_command k) (rest_chunks pr n))) e'"
proof -
  let ?req = "interrupted (stream_request k)"
  let ?cmds = "c # (if length pr \<le> n then [] else map (chunk_command k) (rest_chunks pr n))"
  note loop = page_request_loop [OF g, of H script_io "(d, e)" for d, unfolded handler]
  have req: "stream_request k \<noteq> []"
    by (cases k) (simp_all add: GetPageProofContinuedMessage_serialize_def CommitPageProofContinuedMessage_serialize_def)
  have waits: "\<exists>e1 r. page_requests_loop H script_io (interrupted g) ((replicate j ?req, cs), e)
      = Some ((([], cs @ take (Suc j) ?cmds), e1), r)" if j: "j < length ?cmds" for cs j
  proof (cases j)
    case 0
    then show ?thesis by (simp add: loop bindS_def exchange_script)
  next
    case (Suc i)
    then have n: "n < length pr" "i < length (rest_chunks pr n)" using j by (auto split: if_splits)
    show ?thesis
      using send_rest_waits [OF n, of k "cs @ [c]" e'] n(1) req Suc check
      by (simp add: loop bindS_def exchange_script readE_def liftE_def take_map)
  qed
  have finished: "page_requests_loop H script_io (interrupted g)
      ((replicate (length ?cmds - 1) ?req @ interrupted m # rest, cs), e)
      = page_requests_loop H script_io (interrupted m) ((rest, cs @ ?cmds), e')" for cs m rest
  proof (cases "n < length pr")
    case False
    then show ?thesis by (simp add: loop bindS_def exchange_script)
  next
    case True
    obtain i where i: "length (rest_chunks pr n) = Suc i"
      using rest_chunks_not_empty by (metis length_greater_0_conv gr0_conv_Suc)
    show ?thesis
      using send_rest_done [OF True, of k "interrupted m" rest "cs @ [c]" e'] True req check i
      by (simp add: loop bindS_def exchange_script readE_def liftE_def)
  qed
  show ?thesis unfolding serves_def using waits finished by blast
qed

lemma get_page_serves:
  assumes "code_hmacs e = None \<or> kind \<noteq> Code" "stored_ok st" "length pr < 256"
    and "client_get_page (engine_seg kind e) i = Ok (page_bytes st, pr)"
  shows "serves H GetPageProof (GetPageMessage_serialize (GetPageMessage_new kind i)) e (get_commands st pr) e"
proof -
  obtain enc nonce data where st: "st = (enc, nonce, data)" by (cases st)
  have "GetPageProofContinuedMessage_deserialize (stream_request GetPageProof) = Ok GetPageProofContinuedMessage_new"
    using get_page_continued.des_ser [of GetPageProofContinuedMessage_new]
    by (simp add: GetPageProofContinuedMessage_wf_def GetPageProofContinuedMessage_new_def)
  note serves = servesI [where code = GetPage and k = GetPageProof and n = 9 and pr = pr and e' = e
      and check = GetPageProofContinuedMessage_deserialize and fail = "\<lambda>_ _. throwS InterruptedExecutionExpected",
      OF get_command_code(2) _ _ _ this]
  show ?thesis
    unfolding st get_commands_def prod.case
    by (rule serves) (use get_command_code(1) process_get_page_unfold [OF assms] in
        \<open>simp_all add: st get_commands_def\<close>)
qed

definition commit_commands :: "bytes list \<Rightarrow> hash_output \<Rightarrow> APDUCommand list" where
  "commit_commands pr new_root =
     apdu_continue (CommitPageProofResponse_serialize (CommitPageProofResponse_new (of_nat (length pr))
       (of_nat (min (length pr) 17)) new_root (take 17 pr)))
     # (if length pr \<le> 17 then [] else map (chunk_command CommitPageProof) (rest_chunks pr 17))"

lemma commit_max: "CommitPageProofResponse_max_proof_size = 17"
  by (simp add: CommitPageProofResponse_max_proof_size_def MAX_APDU_DATA_SIZE_def)

lemma commit_command_code: "CommitPageMessage_serialize (CommitPageMessage_new kind i enc nonce data) ! 0 = 2"
  "CommitPageMessage_serialize (CommitPageMessage_new kind i enc nonce data) \<noteq> []"
  by (simp_all add: CommitPageMessage_serialize_def CommitPageMessage_new_def)

lemma process_commit_page_unfold:
  assumes "kind \<noteq> Code" "length nonce = 12" "length data = PAGE_SIZE" "length pr < 256"
    and "ma_update H (engine_seg kind e) (unat i) (page_bytes (True, nonce, data)) = (acc', Ok (pr, new_root))"
  shows "process_commit_page H io (CommitPageMessage_serialize (CommitPageMessage_new kind i True nonce data)) (d, e) =
    bindS (exchange io (hd (commit_commands pr new_root))) (\<lambda>(status, result).
      if 17 < length pr then
        if status \<noteq> InterruptedExecution_sw \<or> result = [] then returnS (status, result)
        else bindS (readE (CommitPageProofContinuedMessage_deserialize result)) (\<lambda>_. send_rest_of_proof io CommitPageProof pr 17)
      else returnS (status, result)) (d, set_engine_seg kind acc' e)"
proof -
  have g: "CommitPageMessage_deserialize (CommitPageMessage_serialize (CommitPageMessage_new kind i True nonce data))
      = Ok (CommitPageMessage_new kind i True nonce data)"
    using commit_page.des_ser [of "CommitPageMessage_new kind i True nonce data"] assms(2,3)
    by (simp add: CommitPageMessage_wf_def CommitPageMessage_new_def nonce_wf_def)
  have f: "cpm_section_kind (CommitPageMessage_new kind i True nonce data) = kind"
    "cpm_page_index (CommitPageMessage_new kind i True nonce data) = i"
    "cpm_is_encrypted (CommitPageMessage_new kind i True nonce data)"
    "cpm_nonce (CommitPageMessage_new kind i True nonce data) = nonce"
    "cpm_data (CommitPageMessage_new kind i True nonce data) = data"
    by (simp_all add: CommitPageMessage_new_def)
  have page: "[1] @ nonce @ data = page_bytes (True, nonce, data)" by (simp add: page_bytes_def page_message_def)
  have "length (page_bytes (True, nonce, data)) = 1 + 12 + PAGE_SIZE"
    using assms(2,3) by (simp add: page_bytes_def page_message_def)
  then have store: "store_in H kind i (page_bytes (True, nonce, data)) (d, e) = ((d, set_engine_seg kind acc' e), Ok (pr, new_root))"
    by (simp add: store_in_def client_store_page_def assms(5))
  let ?t = "of_nat (min (length pr) 17) :: u8"
  have t: "unat ?t = min (length pr) 17" "?t < of_nat (length pr) \<longleftrightarrow> 17 < length pr"
  proof -
    have m: "min (length pr) 17 < 256" by simp
    show "unat ?t = min (length pr) 17" by (rule small_u8(1) [OF m])
    show "?t < of_nat (length pr) \<longleftrightarrow> 17 < length pr"
      unfolding small_u8(2) [OF assms(4) m] by linarith
  qed
  have b: "17 < length pr \<Longrightarrow> min (length pr) 17 = 17" "unat (of_nat 17 :: u8) = 17" by simp_all
  have k: "take (min (length pr) 17) pr = take 17 pr" by (simp add: min_def)
  have split: "(if A \<and> B \<and> C then x else y) = (if A then if \<not> B \<or> \<not> C then y else x else y)" for A B C and x y :: 'x
    by simp
  show ?thesis
    unfolding process_commit_page_def
    by (simp only: g bind_read f Let_def page bindS_Ok [where m = "store_in H kind i (page_bytes (True, nonce, data))" and s = "(d, e)" and s' = "(d, set_engine_seg kind acc' e)", OF store]
        assms(1) simp_thms if_False prod.case commit_max t k split commit_commands_def list.sel b if_True cong: if_cong)
qed

lemma commit_page_serves:
  assumes "kind \<noteq> Code" "length nonce = 12" "length data = PAGE_SIZE" "length pr < 256"
    and "ma_update H (engine_seg kind e) (unat i) (page_bytes (True, nonce, data)) = (acc', Ok (pr, new_root))"
  shows "serves H CommitPageProof (CommitPageMessage_serialize (CommitPageMessage_new kind i True nonce data)) e
    (commit_commands pr new_root) (set_engine_seg kind acc' e)"
proof -
  have "CommitPageProofContinuedMessage_deserialize (stream_request CommitPageProof) = Ok CommitPageProofContinuedMessage_new"
    using commit_continued.des_ser [of CommitPageProofContinuedMessage_new]
    by (simp add: CommitPageProofContinuedMessage_wf_def CommitPageProofContinuedMessage_new_def)
  note serves = servesI [where code = CommitPage and k = CommitPageProof and n = 17 and pr = pr
      and check = CommitPageProofContinuedMessage_deserialize and fail = "\<lambda>status result. returnS (status, result)",
      OF commit_command_code(2) _ _ _ this]
  show ?thesis
    unfolding commit_commands_def
    by (rule serves) (use commit_command_code(1) process_commit_page_unfold [OF assms] in
        \<open>simp_all add: commit_commands_def\<close>)
qed

section \<open>What the VM receives\<close>

primrec stream_decode :: "proof_stream \<Rightarrow> bytes \<Rightarrow> (nat \<times> hash_output list) option" where
  "stream_decode GetPageProof = decode_get_continued"
| "stream_decode CommitPageProof = decode_commit_continued"

lemma chunk_decode:
  assumes "arrays32 c" "length c < 256"
  shows "stream_decode k (apdu_data (chunk_command k c)) = Some (length c, c)"
proof (cases k)
  case GetPageProof
  have "GetPageProofContinuedResponse_deserialize (GetPageProofContinuedResponse_serialize
      (GetPageProofContinuedResponse_new (of_nat (length c)) c)) = Ok (GetPageProofContinuedResponse_new (of_nat (length c)) c)"
    using get_page_continued_response.des_ser [of "GetPageProofContinuedResponse_new (of_nat (length c)) c"] assms(1)
    by (simp add: GetPageProofContinuedResponse_wf_def GetPageProofContinuedResponse_new_def)
  then show ?thesis
    using small_u8(1) [OF assms(2)]
    by (simp add: GetPageProof chunk_command_def apdu_continue_def decode_get_continued_def GetPageProofContinuedResponse_new_def)
next
  case CommitPageProof
  have "CommitPageProofContinuedResponse_deserialize (CommitPageProofContinuedResponse_serialize
      (CommitPageProofContinuedResponse_new (of_nat (length c)) c)) = Ok (CommitPageProofContinuedResponse_new (of_nat (length c)) c)"
    using commit_continued_response.des_ser [of "CommitPageProofContinuedResponse_new (of_nat (length c)) c"] assms(1)
    by (simp add: CommitPageProofContinuedResponse_wf_def CommitPageProofContinuedResponse_new_def)
  then show ?thesis
    using small_u8(1) [OF assms(2)]
    by (simp add: CommitPageProof chunk_command_def apdu_continue_def decode_commit_continued_def CommitPageProofContinuedResponse_new_def)
qed

lemma interrupt_continue:
  assumes "host w (sent w @ [m]) = to_command (apdu_continue data)"
  shows "interrupt m w = (w\<lparr>sent := sent w @ [m]\<rparr>, Ok data)"
  using assms by (simp add: interrupt_def Instruction_try_from_def to_command_def apdu_continue_def)

lemma chunk_command_continue: "chunk_command k c = apdu_continue (apdu_data (chunk_command k c))"
  by (simp add: chunk_command_def apdu_continue_def)

lemma proof_loop_fetches:
  assumes "\<And>j. j < length cs \<Longrightarrow> host w (sent w @ replicate (Suc j) (stream_request k)) = to_command (chunk_command k (cs ! j))"
    and "\<forall>c\<in>set cs. c \<noteq> [] \<and> length c < 256 \<and> arrays32 c" "n = i + length (concat cs)"
  shows "proof_loop (stream_request k) (stream_decode k) step n i v w =
    Some ((w\<lparr>sent := sent w @ replicate (length cs) (stream_request k)\<rparr>, fold step (concat cs) v), Ok ())"
  using assms
proof (induction cs arbitrary: i v w)
  case Nil
  then show ?case by (subst proof_loop.simps) simp
next
  case (Cons c cs)
  let ?w = "w\<lparr>sent := sent w @ [stream_request k]\<rparr>"
  have lt: "i < n" using Cons.prems(2,3) by (cases c) simp_all
  have "host w (sent w @ [stream_request k]) = to_command (apdu_continue (apdu_data (chunk_command k c)))"
    using Cons.prems(1) [of 0] chunk_command_continue [of k c] by simp
  note int = interrupt_continue [OF this]
  have dec: "stream_decode k (apdu_data (chunk_command k c)) = Some (length c, c)"
    using chunk_decode Cons.prems(2) by simp
  have "proof_loop (stream_request k) (stream_decode k) step n (i + length c) (fold step c v) ?w =
    Some ((?w\<lparr>sent := sent ?w @ replicate (length cs) (stream_request k)\<rparr>, fold step (concat cs) (fold step c v)), Ok ())"
  proof (rule Cons.IH)
    show "host ?w (sent ?w @ replicate (Suc j) (stream_request k)) = to_command (chunk_command k (cs ! j))"
      if "j < length cs" for j
      using Cons.prems(1) [of "Suc j"] that by simp
  qed (use Cons.prems in simp_all)
  then show ?case using lt by (subst proof_loop.simps) (simp add: int dec)
qed

text \<open>A block cipher that never reports an error.\<close>

definition cipher_total :: "'k block_cipher \<Rightarrow> bool" where
  "cipher_total cx_enc \<longleftrightarrow> (\<forall>key b. length b = 16 \<longrightarrow> cx_enc key b \<noteq> None)"

lemma length_counter_blocks: "b \<in> set (counter_blocks c len) \<Longrightarrow> length b = length c"
  by (auto simp: counter_blocks_def)

lemma encrypt_total:
  assumes "crypto_ok cr" "cipher_total (aes_block cr)" "length (aes_nonce ctr) = 12"
  obtains ciphertext where "encrypt (aes_block cr) plaintext ctr =
      (ctr\<lparr>aes_nonce := increment_be_slice (aes_nonce ctr)\<rparr>, Ok (aes_nonce ctr, ciphertext))"
    "length ciphertext = length plaintext"
proof -
  have ok: "block_cipher_ok (aes_block cr)" using assms(1) by (simp add: crypto_ok_def)
  let ?c = "create_counter_block (aes_nonce ctr) 0"
  have total: "\<forall>b\<in>set (counter_blocks ?c (length plaintext)). aes_block cr (aes_key ctr) b \<noteq> None"
    using assms(2,3) length_counter_blocks [of _ ?c] by (auto simp: cipher_total_def)
  then have "encrypt (aes_block cr) plaintext ctr = (ctr\<lparr>aes_nonce := increment_be_slice (aes_nonce ctr)\<rparr>,
      Ok (aes_nonce ctr, map2 (XOR) plaintext (keystream (aes_block cr) (aes_key ctr) ?c (length plaintext))))"
    using encrypt_result [OF ok assms(3), of plaintext] by (simp add: Let_def)
  moreover have "length (map2 (XOR) plaintext (keystream (aes_block cr) (aes_key ctr) ?c (length plaintext))) = length plaintext"
    using length_keystream [OF ok total] by simp
  ultimately show thesis by (rule that)
qed

lemma decrypt_total:
  assumes "crypto_ok cr" "cipher_total (aes_block cr)" "length nonce = 12"
  obtains plaintext where "decrypt (aes_block cr) ctr nonce data = Ok plaintext" "length plaintext = length data"
proof -
  have ok: "block_cipher_ok (aes_block cr)" using assms(1) by (simp add: crypto_ok_def)
  let ?c = "create_counter_block nonce 0"
  have total: "\<forall>b\<in>set (counter_blocks ?c (length data)). aes_block cr (aes_key ctr) b \<noteq> None"
    using assms(2,3) length_counter_blocks [of _ ?c] by (auto simp: cipher_total_def)
  then have "decrypt (aes_block cr) ctr nonce data =
      Ok (map2 (XOR) data (keystream (aes_block cr) (aes_key ctr) ?c (length data)))"
    using process_loop_keystream [OF ok, of ?c "aes_key ctr" data] assms(3)
    by (auto simp: decrypt_def decrypt_with_initial_counter_def process_with_counter_def)
  moreover have "length (map2 (XOR) data (keystream (aes_block cr) (aes_key ctr) ?c (length data))) = length data"
    using length_keystream [OF ok total] by simp
  ultimately show thesis by (rule that)
qed

text \<open>A proof has at most 32 elements.\<close>

lemma length_prove_loop: "pos + 1 < 2 ^ Suc k \<Longrightarrow> length (prove_loop t pos) \<le> k"
proof (induction k arbitrary: pos)
  case 0
  then show ?case by simp
next
  case (Suc k)
  show ?case
  proof (cases "pos = 0")
    case False
    have "(pos - 1) div 2 + 1 < 2 ^ Suc k" using Suc.prems False by simp
    from Suc.IH [OF this] show ?thesis using False by (simp add: prove_loop_unfold)
  qed simp
qed

lemma length_proof:
  assumes "n \<le> 2 ^ 31" "index < n"
  shows "length (prove_loop t (n - 1 + index)) < 256"
proof -
  have "n - 1 + index + 1 < 2 ^ Suc 32" using assms by simp
  from length_prove_loop [OF this, of t] show ?thesis by simp
qed

definition further_chunks :: "bytes list \<Rightarrow> nat \<Rightarrow> bytes list list" where
  "further_chunks pr q = (if length pr \<le> q then [] else rest_chunks pr q)"

lemma proof_received:
  assumes "\<And>j. j < length (further_chunks pr q) \<Longrightarrow>
      host w (sent w @ replicate (Suc j) (stream_request k)) = to_command (chunk_command k (further_chunks pr q ! j))"
    and "arrays32 pr" "n = length pr"
  shows "run_verifier (stream_request k) (stream_decode k) step v (take q pr) n (w, m) =
    (case fold step pr (v, om_hasher m) of (v', hs) \<Rightarrow>
      ((w\<lparr>sent := sent w @ replicate (length (further_chunks pr q)) (stream_request k)\<rparr>, m\<lparr>om_hasher := hs\<rparr>), Ok v'))"
proof -
  let ?cs = "further_chunks pr q"
  have c: "take q pr @ concat ?cs = pr"
    using rest_chunks_concat [of q pr] by (simp add: further_chunks_def)
  have "\<forall>c\<in>set ?cs. c \<noteq> [] \<and> length c < 256 \<and> arrays32 c"
  proof (cases "length pr \<le> q")
    case False
    then show ?thesis using rest_chunks_sizes [of q pr] assms(2) by (force simp: further_chunks_def arrays32_def)
  qed (simp add: further_chunks_def)
  from proof_loop_fetches [where i = "length (take q pr)" and n = n, OF assms(1) this] c assms(3)
  have "proof_loop (stream_request k) (stream_decode k) step n (length (take q pr)) (fold step (take q pr) (v, om_hasher m)) w =
    Some ((w\<lparr>sent := sent w @ replicate (length ?cs) (stream_request k)\<rparr>, fold step (concat ?cs) (fold step (take q pr) (v, om_hasher m))), Ok ())"
    by (metis length_append)
  moreover have "fold step (concat ?cs) (fold step (take q pr) (v, om_hasher m)) = fold step pr (v, om_hasher m)"
    using fold_append [of step "take q pr" "concat ?cs"] c by (metis comp_apply)
  ultimately show ?thesis
    by (simp add: run_verifier_def split: prod.splits)
qed

section \<open>Loading and committing a page\<close>

text \<open>The host of the world is the client, its engine is \<open>e\<close>, and no request is being served.\<close>

definition client_ready :: "(bytes \<Rightarrow> hash_output) \<Rightarrow> VAppEngine \<Rightarrow> ('k, 'z) world_scheme \<Rightarrow> VAppEngine \<Rightarrow> bool" where
  "client_ready H e0 w e \<longleftrightarrow> host w = client_host H e0 \<and> settled H e0 (sent w) e"

text \<open>The segment of the client and the memory of the VM agree on the tree.\<close>

definition agrees :: "(bytes \<Rightarrow> hash_output) \<Rightarrow> client_segment \<Rightarrow> 's OutsourcedMemory \<Rightarrow> bool" where
  "agrees H acc m \<longleftrightarrow> acc_ok H acc \<and> ma_root acc = merkle_root m \<and>
     checked_next_power_of_two (unat (n_pages m)) = Some (length (ma_data acc)) \<and>
     (\<forall>j<length (ma_data acc). \<exists>st. stored_ok st \<and> ma_data acc ! j = page_bytes st)"

lemma next_power_of_two_le: "n \<le> 2 ^ k \<Longrightarrow> next_power_of_two n \<le> 2 ^ k"
proof (induction k arbitrary: n)
  case 0
  then show ?case by (simp add: next_power_of_two.simps)
next
  case (Suc k)
  show ?case
  proof (cases "n \<le> 1")
    case False
    have "next_power_of_two ((n + 1) div 2) \<le> 2 ^ k" by (rule Suc.IH) (use Suc.prems in simp)
    then show ?thesis using False by (subst next_power_of_two.simps) simp
  qed (simp add: next_power_of_two.simps)
qed

lemma agrees_bound: "agrees H acc m \<Longrightarrow> length (ma_data acc) \<le> 2 ^ 31"
  using next_power_of_two_le [of "unat (n_pages m)" 31]
  by (auto simp: agrees_def checked_next_power_of_two_def split: if_splits)

lemma proof_words:
  assumes "acc_ok H acc" "index < length (ma_data acc)"
  shows "arrays32 (prove_loop (ma_tree acc) (length (ma_data acc) - 1 + index))"
proof -
  let ?n = "length (ma_data acc)"
  have words: "\<forall>i < 2 * ?n - 1. length (ma_tree acc ! i) = 32" using assms(1) by (simp add: acc_ok_def tree_ok_def)
  have "arrays32 (prove_loop (ma_tree acc) pos)" if "pos < 2 * ?n - 1" for pos
    using that
  proof (induction pos rule: less_induct)
    case (less pos)
    show ?case
    proof (cases "pos = 0")
      case False
      have "arrays32 (prove_loop (ma_tree acc) ((pos - 1) div 2))" by (rule less.IH) (use False less.prems in simp_all)
      moreover have "odd pos \<Longrightarrow> pos + 1 < 2 * ?n - 1" using less.prems by presburger
      ultimately show ?thesis using False words less.prems by (simp add: prove_loop_unfold arrays32_def)
    qed (simp add: arrays32_def)
  qed
  then show ?thesis using assms(2) by simp
qed

lemma load_page_live:
  fixes w :: "('k, 'z) world_scheme" and m :: "'s OutsourcedMemory"
  assumes cr: "crypto_ok cr" "cipher_total (aes_block cr)"
    and ready: "client_ready (sha256 cr) e0 w e" and kind: "code_hmacs e = None \<or> section_kind m \<noteq> Code"
    and ag: "agrees (sha256 cr) acc m" "acc = engine_seg (section_kind m) e"
    and i: "unat i < length (ma_data acc)"
  obtains w' hs page where "load_page cr i (w, m) = ((w', m\<lparr>om_hasher := hs\<rparr>), Ok (page,
      sha256 cr (leaf_message (ma_data acc ! unat i))))"
    "client_ready (sha256 cr) e0 w' e" "length page = PAGE_SIZE" "aes_ctr w' = aes_ctr w"
proof -
  let ?H = "sha256 cr"
  have acc: "acc_ok ?H acc" "ma_root acc = merkle_root m"
    "checked_next_power_of_two (unat (n_pages m)) = Some (length (ma_data acc))"
    using ag(1) by (simp_all add: agrees_def)
  obtain st where st: "stored_ok st" "ma_data acc ! unat i = page_bytes st"
    using ag(1) i unfolding agrees_def by blast
  obtain enc nonce data where st3: "st = (enc, nonce, data)" by (cases st)
  have parts: "length data = PAGE_SIZE" "nonce_wf enc nonce" "length nonce = 12"
    using st(1) by (simp_all add: st3 stored_ok_def nonce_wf_def)
  define pr where "pr = prove_loop (ma_tree acc) (length (ma_data acc) - 1 + unat i)"
  have client: "client_get_page (engine_seg (section_kind m) e) i = Ok (page_bytes st, pr)"
    using i st(2) by (simp add: client_get_page_def ma_get_def prove_def pr_def ag(2))
  have len: "length pr < 256" unfolding pr_def by (rule length_proof [OF agrees_bound [OF ag(1)] i])
  have words: "arrays32 pr" unfolding pr_def by (rule proof_words [OF acc(1) i])
  let ?g = "GetPageMessage_serialize (GetPageMessage_new (section_kind m) i)"
  let ?w = "w\<lparr>sent := sent w @ [?g]\<rparr>"
  define r where "r = GetPageResponse_new data enc nonce (of_nat (length pr)) (of_nat (min (length pr) 9)) Merkle (take 9 pr)"
  define non where "non = (if enc then Some nonce else None)"
  let ?more = "further_chunks pr 9" and ?req = "stream_request GetPageProof"
  let ?cmds = "get_commands st pr"
  have cmds: "?cmds = apdu_continue (GetPageResponse_serialize r) # map (chunk_command GetPageProof) ?more"
    by (simp add: get_commands_def st3 further_chunks_def r_def)
  have host: "host w = client_host ?H e0" and settled: "settled ?H e0 (sent w) e"
    using ready by (simp_all add: client_ready_def)
  note srv = get_page_serves [OF kind st(1) len client, of ?H]
  have answer: "host w (sent w @ ?g # replicate j ?req) = to_command (?cmds ! j)" if "j < length ?cmds" for j
    unfolding host using client_host_serves(1) [OF settled srv that] .
  have int: "interrupt ?g w = (?w, Ok (GetPageResponse_serialize r))"
    by (rule interrupt_continue) (use answer [of 0] in \<open>simp add: cmds\<close>)
  have t: "unat (of_nat (min (length pr) 9) :: u8) = min (length pr) 9" by (rule small_u8(1)) simp
  have "GetPageResponse_wf r"
    using parts words t by (auto simp: r_def GetPageResponse_wf_def GetPageResponse_new_def arrays32_def dest: in_set_takeD)
  then have read: "GetPageResponse_deserialize (GetPageResponse_serialize r) = Ok r"
    using get_page_response.des_ser by blast
  obtain h hs1 where gh: "get_page_hash ?H data non (om_hasher m) = (h, hs1)" by fastforce
  have h: "h = ?H (leaf_message (page_bytes st))"
    using get_page_hash_eq(1) [of ?H data non "om_hasher m"] gh
    by (simp add: page_bytes_def st3 non_def)
  let ?v = "begin_inclusion_proof (merkle_root m) h (unat i) (length (ma_data acc))"
  obtain v' hs2 where fold: "fold (feed ?H) pr (?v, hs1) = (v', hs2)" by fastforce
  let ?w' = "w\<lparr>sent := sent w @ ?g # replicate (length ?more) ?req\<rparr>"
  have run: "run_verifier ?req decode_get_continued (feed ?H) ?v (take 9 pr) (length pr) (?w, m\<lparr>om_hasher := hs1\<rparr>)
      = ((?w', m\<lparr>om_hasher := hs2\<rparr>), Ok v')"
    using proof_received [where k = GetPageProof and w = ?w and m = "m\<lparr>om_hasher := hs1\<rparr>" and step = "feed ?H" and v = ?v
        and q = 9, OF _ words refl] answer [of "Suc j" for j]
    by (simp add: cmds fold)
  have "iv_verified v'"
  proof -
    have "v' = fold (feed_step ?H) pr ?v"
      using feed_all_eq [of ?H pr ?v hs1] fold by (simp add: feed_all_def)
    moreover have "verify_inclusion_proof ?H (merkle_root m) pr h (unat i) (length (ma_data acc))"
      using acc_complete [OF _ acc(1), of "unat i"] cr(1) i st(2) acc(2)
      by (auto simp: crypto_ok_def h hash_leaf_message prove_def pr_def)
    ultimately show ?thesis by (simp add: verify_inclusion_fold)
  qed
  obtain page where page: "length page = PAGE_SIZE"
    "(if enc then decrypt_page cr nonce data (?w', m\<lparr>om_hasher := hs2\<rparr>) else returnS data (?w', m\<lparr>om_hasher := hs2\<rparr>))
      = ((?w', m\<lparr>om_hasher := hs2\<rparr>), Ok page)"
  proof (cases enc)
    case True
    obtain plain where "decrypt (aes_block cr) (aes_ctr ?w') nonce data = Ok plain" "length plain = length data"
      by (rule decrypt_total [OF cr parts(3)])
    then show ?thesis using True parts(1) by (intro that [of plain]) (simp_all add: decrypt_page_def)
  next
    case False
    then show ?thesis using parts(1) by (intro that [of data]) simp_all
  qed
  have load: "load_page cr i (w, m) = ((?w', m\<lparr>om_hasher := hs2\<rparr>), Ok (page, h))"
  proof -
    have f: "gpr_page_data r = data" "gpr_is_encrypted r = enc" "gpr_nonce r = nonce" "gpr_n r = of_nat (length pr)"
      "gpr_t r = of_nat (min (length pr) 9)" "gpr_proof r = take 9 pr" "gpr_proof_kind r = Merkle"
      by (simp_all add: r_def GetPageResponse_new_def)
    have "load_page cr i (w, m) = load_merkle cr i r h (?w, m\<lparr>om_hasher := hs1\<rparr>)"
      using gh unfolding non_def
      by (cases enc) (simp_all add: load_page_def bindS_def ask_host_def int read lift_result_def hash_page_def f)
    also have "\<dots> = ((?w', m\<lparr>om_hasher := hs2\<rparr>), Ok (page, h))"
      using run page(2) \<open>iv_verified v'\<close> small_u8(1) [OF len]
      by (simp add: load_merkle_def f t acc(3) bindS_def split: if_splits)
    finally show ?thesis .
  qed
  show thesis
  proof (rule that)
    show "load_page cr i (w, m) = ((?w', m\<lparr>om_hasher := hs2\<rparr>), Ok (page, ?H (leaf_message (ma_data acc ! unat i))))"
      using load h st(2) by simp
    show "client_ready ?H e0 ?w' e"
      using client_host_serves(2) [OF settled srv] host by (simp add: client_ready_def cmds)
  qed (use page in simp_all)
qed

lemma prove_loop_nonempty: "0 < pos \<Longrightarrow> prove_loop t pos \<noteq> []"
  by (simp add: prove_loop_unfold)

lemma commit_page_live:
  fixes w :: "('k, 'z) world_scheme" and m :: "'s OutsourcedMemory"
  assumes cr: "crypto_ok cr" "cipher_total (aes_block cr)" "length (aes_nonce (aes_ctr w)) = 12"
    and ready: "client_ready (sha256 cr) e0 w e" and kind: "section_kind m \<noteq> Code"
    and ag: "agrees (sha256 cr) acc m" "acc = engine_seg (section_kind m) e" "2 \<le> length (ma_data acc)"
    and c: "index < length (cached_pages m)" "cached_pages m ! index = c" "cp_valid c" "length (cp_page c) = PAGE_SIZE"
      "unat (cp_idx c) < length (ma_data acc)" "cp_hash c = sha256 cr (leaf_message (ma_data acc ! unat (cp_idx c)))"
  obtains w' hs acc' st where
    "commit_page_at cr index (w, m) = ((w', m\<lparr>om_hasher := hs, merkle_root := ma_root acc'\<rparr>), Ok ())"
    "client_ready (sha256 cr) e0 w' (set_engine_seg (section_kind m) acc' e)" "acc_ok (sha256 cr) acc'"
    "ma_data acc' = (ma_data acc)[unat (cp_idx c) := page_bytes st]" "stored_ok st"
    "length (aes_nonce (aes_ctr w')) = 12"
proof -
  let ?H = "sha256 cr" and ?i = "unat (cp_idx c)"
  have H: "hash_len ?H" using cr(1) by (simp add: crypto_ok_def)
  have acc: "acc_ok ?H acc" "ma_root acc = merkle_root m"
    "checked_next_power_of_two (unat (n_pages m)) = Some (length (ma_data acc))"
    using ag(1) by (simp_all add: agrees_def)
  define nonce where "nonce = aes_nonce (aes_ctr w)"
  define w1 where "w1 = w\<lparr>aes_ctr := aes_ctr w\<lparr>aes_nonce := increment_be_slice nonce\<rparr>\<rparr>"
  obtain payload where payload: "length payload = PAGE_SIZE"
    and enc: "encrypt_page cr (cp_page c) (w, m) = ((w1, m), Ok (nonce, payload))"
  proof -
    obtain payload where "encrypt (aes_block cr) (cp_page c) (aes_ctr w) =
        ((aes_ctr w)\<lparr>aes_nonce := increment_be_slice (aes_nonce (aes_ctr w))\<rparr>, Ok (aes_nonce (aes_ctr w), payload))"
      "length payload = length (cp_page c)"
      by (rule encrypt_total [OF cr])
    then show ?thesis using c(4) by (intro that [of payload]) (simp_all add: encrypt_page_def w1_def nonce_def)
  qed
  have nonce: "length nonce = 12" using cr(3) by (simp add: nonce_def)
  let ?st = "(True, nonce, payload)"
  have st: "stored_ok ?st" using nonce payload by (simp add: stored_ok_def nonce_wf_def)
  define pr where "pr = prove_loop (ma_tree acc) (length (ma_data acc) - 1 + ?i)"
  obtain acc' where upd: "ma_update ?H acc ?i (page_bytes ?st) = (acc', Ok (pr, ma_root acc'))"
    and ver: "verify_update_proof ?H (ma_root acc) (ma_root acc') pr (hash_leaf ?H (ma_data acc ! ?i))
        (hash_leaf ?H (page_bytes ?st)) ?i (length (ma_data acc))"
    using acc_complete [OF H acc(1), of ?i "page_bytes ?st"] c(5) by (auto simp: prove_def pr_def)
  have acc': "acc_ok ?H acc'" "ma_data acc' = (ma_data acc)[?i := page_bytes ?st]"
    using new_update_ok [OF H, where ma = acc and index = ?i and v = "page_bytes ?st", THEN conjunct2] acc(1) c(5) upd
    by auto
  have root: "length (ma_root acc') = 32"
  proof -
    have "0 < 2 * length (ma_data acc') - 1" using ag(3) acc'(2) by simp
    then show ?thesis using acc'(1) unfolding acc_ok_def tree_ok_def ma_root_def by blast
  qed
  have len: "length pr < 256" unfolding pr_def by (rule length_proof [OF agrees_bound [OF ag(1)] c(5)])
  have words: "arrays32 pr" unfolding pr_def by (rule proof_words [OF acc(1) c(5)])
  have pos: "pr \<noteq> []" unfolding pr_def by (rule prove_loop_nonempty) (use ag(3) in simp)
  let ?g = "CommitPageMessage_serialize (CommitPageMessage_new (section_kind m) (cp_idx c) True nonce payload)"
  let ?w = "w1\<lparr>sent := sent w1 @ [?g]\<rparr>"
  define r where "r = CommitPageProofResponse_new (of_nat (length pr)) (of_nat (min (length pr) 17)) (ma_root acc') (take 17 pr)"
  have f: "cpr_n r = of_nat (length pr)" "cpr_t r = of_nat (min (length pr) 17)" "cpr_new_root r = ma_root acc'" "cpr_proof r = take 17 pr"
    by (simp_all add: r_def CommitPageProofResponse_new_def)
  let ?more = "further_chunks pr 17" and ?req = "stream_request CommitPageProof"
  let ?cmds = "commit_commands pr (ma_root acc')"
  have cmds: "?cmds = apdu_continue (CommitPageProofResponse_serialize r) # map (chunk_command CommitPageProof) ?more"
    by (simp add: commit_commands_def further_chunks_def r_def)
  have w1: "host w1 = client_host ?H e0" "sent w1 = sent w" and settled: "settled ?H e0 (sent w) e"
    using ready by (simp_all add: client_ready_def w1_def)
  note srv = commit_page_serves [OF kind nonce payload len upd [unfolded ag(2)]]
  have answer: "host w1 (sent w1 @ ?g # replicate j ?req) = to_command (?cmds ! j)" if "j < length ?cmds" for j
    unfolding w1 using client_host_serves(1) [OF settled srv that] .
  have int: "interrupt ?g w1 = (?w, Ok (CommitPageProofResponse_serialize r))"
    by (rule interrupt_continue) (use answer [of 0] in \<open>simp add: cmds\<close>)
  have t: "unat (of_nat (min (length pr) 17) :: u8) = min (length pr) 17" by (rule small_u8(1)) simp
  have "CommitPageProofResponse_wf r"
    using words root by (auto simp: CommitPageProofResponse_wf_def f arrays32_def dest: in_set_takeD)
  then have read: "CommitPageProofResponse_deserialize (CommitPageProofResponse_serialize r) = Ok r"
    using commit_response.des_ser by blast
  obtain h hs1 where gh: "get_page_hash ?H payload (Some nonce) (om_hasher m) = (h, hs1)" by fastforce
  have h: "h = ?H (leaf_message (page_bytes ?st))"
    using get_page_hash_eq(1) [of ?H payload "Some nonce" "om_hasher m"] gh by (simp add: page_bytes_def)
  let ?v = "begin_update_proof (merkle_root m) (ma_root acc') (cp_hash c) h ?i (length (ma_data acc))"
  obtain v' hs2 where fold: "fold (feed_update ?H) pr (?v, hs1) = (v', hs2)" by fastforce
  let ?w' = "w1\<lparr>sent := sent w1 @ ?g # replicate (length ?more) ?req\<rparr>"
  have run: "run_verifier ?req decode_commit_continued (feed_update ?H) ?v (take 17 pr) (length pr) (?w, m\<lparr>om_hasher := hs1\<rparr>)
      = ((?w', m\<lparr>om_hasher := hs2\<rparr>), Ok v')"
    using proof_received [where k = CommitPageProof and w = ?w and m = "m\<lparr>om_hasher := hs1\<rparr>" and step = "feed_update ?H" and v = ?v
        and q = 17, OF _ words refl] answer [of "Suc j" for j]
    by (simp add: cmds fold)
  have verified: "update_verified v'"
  proof -
    have "old_verifier v' = fold (feed_step ?H) pr (old_verifier ?v)" "new_verifier v' = fold (feed_step ?H) pr (new_verifier ?v)"
      using feed_update_all_eq [of ?H pr ?v hs1] fold by (simp_all add: feed_update_all_def)
    then show ?thesis
      using ver acc(2) c(6) by (simp add: verify_update_fold verify_inclusion_fold update_verified_def begin_update_proof_def h hash_leaf_message)
  qed
  have "commit_page_at cr index (w, m) = ((?w', m\<lparr>om_hasher := hs2, merkle_root := ma_root acc'\<rparr>), Ok ())"
  proof -
    have "(of_nat (length pr) :: u8) \<noteq> 0"
      using small_u8(1) [OF len] pos by (metis length_0_conv unsigned_0)
    then show ?thesis
      using run verified small_u8(1) [OF len] c(1,3) payload
      by (simp add: commit_page_at_def c(2) Let_def bindS_def enc hash_page_def gh ask_host_def int read lift_result_def f t acc(3))
  qed
  then show thesis
  proof (rule that)
    show "client_ready ?H e0 ?w' (set_engine_seg (section_kind m) acc' e)"
      using client_host_serves(2) [OF settled srv] w1 by (simp add: client_ready_def cmds)
    show "length (aes_nonce (aes_ctr ?w')) = 12" using nonce by (simp add: w1_def)
  qed (use acc' st in simp_all)
qed

end
