(* ===== verification/Client_Live.thy ===== *)
theory Client_Live
  imports Client_Serves
begin

text \<open>
  Liveness of the outsourced memory: with the repository's client as its host (\<open>Client_Engine\<close>), every
  access to a page inside the memory succeeds. The invariant \<open>live\<close> says that the client's segment and
  the memory agree, that the cache holds leaves of that segment, and that the eviction strategy's own
  invariant holds of the occupied slots; every operation of the cache keeps it.
\<close>

section \<open>The invariant\<close>

definition occupied_slots :: "'s OutsourcedMemory \<Rightarrow> nat set" where
  "occupied_slots m = {j. j < length (cached_pages m) \<and> cp_valid (cached_pages m ! j)}"

definition cache_live :: "(bytes \<Rightarrow> hash_output) \<Rightarrow> client_segment \<Rightarrow> CachedPage list \<Rightarrow> bool" where
  "cache_live H acc cache \<longleftrightarrow> cache \<noteq> [] \<and> (\<forall>j<length cache. length (cp_page (cache ! j)) = PAGE_SIZE) \<and>
     (\<forall>j<length cache. cp_valid (cache ! j) \<longrightarrow> unat (cp_idx (cache ! j)) < length (ma_data acc) \<and>
        cp_hash (cache ! j) = H (leaf_message (ma_data acc ! unat (cp_idx (cache ! j))))) \<and>
     (\<forall>j<length cache. \<forall>k<length cache. cp_valid (cache ! j) \<longrightarrow> cp_valid (cache ! k) \<longrightarrow>
        cp_idx (cache ! j) = cp_idx (cache ! k) \<longrightarrow> j = k)"

definition live :: "'k crypto \<Rightarrow> (nat \<Rightarrow> nat set \<Rightarrow> nat \<Rightarrow> 's \<Rightarrow> bool) \<Rightarrow> VAppEngine \<Rightarrow> VAppEngine \<Rightarrow> nat \<Rightarrow>
    ('k, 'z) world_scheme \<times> 's OutsourcedMemory \<Rightarrow> bool" where
  "live cr I e0 e k s \<longleftrightarrow>
     client_ready (sha256 cr) e0 (fst s) e \<and> length (aes_nonce (aes_ctr (fst s))) = 12 \<and>
     (code_hmacs e = None \<or> section_kind (snd s) \<noteq> Code) \<and>
     agrees (sha256 cr) (engine_seg (section_kind (snd s)) e) (snd s) \<and>
     cache_live (sha256 cr) (engine_seg (section_kind (snd s)) e) (cached_pages (snd s)) \<and>
     (\<not> is_readonly (snd s) \<longrightarrow> section_kind (snd s) \<noteq> Code \<and> 2 \<le> length (ma_data (engine_seg (section_kind (snd s)) e))) \<and>
     I (length (cached_pages (snd s))) (occupied_slots (snd s)) k (evict_state (snd s)) \<and>
     (\<forall>i j. last_accessed_page (snd s) = Some (i, j) \<longrightarrow> j < length (cached_pages (snd s))) \<and>
     accepted_tags (snd s) = []"

text \<open>What the client holds is fixed but for the contents of its leaves.\<close>

definition same_client :: "SectionKind \<Rightarrow> VAppEngine \<Rightarrow> VAppEngine \<Rightarrow> bool" where
  "same_client kind e e' \<longleftrightarrow> length (ma_data (engine_seg kind e')) = length (ma_data (engine_seg kind e))"

lemma engine_seg_set [simp]: "engine_seg kind (set_engine_seg kind acc e) = acc"
  by (cases kind) (simp_all add: engine_seg_def set_engine_seg_def)

lemma code_hmacs_set [simp]: "code_hmacs (set_engine_seg kind acc e) = code_hmacs e"
  by (cases kind) (simp_all add: set_engine_seg_def)

text \<open>Marking the committed page invalid, after its leaf has changed.\<close>

lemma cache_live_drop:
  assumes "cache_live H acc cache" "v < length cache" "cp_valid (cache ! v)"
    and "ma_data acc' = ma_data acc \<or> ma_data acc' = (ma_data acc)[unat (cp_idx (cache ! v)) := leaf]"
  shows "cache_live H acc' (cache[v := (cache ! v)\<lparr>cp_valid := False\<rparr>])"
proof -
  let ?cache = "cache[v := (cache ! v)\<lparr>cp_valid := False\<rparr>]"
  have other: "unat (cp_idx (cache ! j)) \<noteq> unat (cp_idx (cache ! v))" if "j < length cache" "cp_valid (cache ! j)" "j \<noteq> v" for j
    using assms(1-3) that unfolding cache_live_def by (metis word_unat_eq_iff)
  show ?thesis
    unfolding cache_live_def
  proof (intro conjI allI impI)
    show "?cache \<noteq> []" using assms(1) by (simp add: cache_live_def)
    show "length (cp_page (?cache ! j)) = PAGE_SIZE" if "j < length ?cache" for j
      using assms(1,2) that by (cases "j = v") (auto simp: cache_live_def)
    fix j assume j: "j < length ?cache" "cp_valid (?cache ! j)"
    then have jv: "j \<noteq> v" using assms(2) by auto
    with j assms(1) have "unat (cp_idx (cache ! j)) < length (ma_data acc)"
      "cp_hash (cache ! j) = H (leaf_message (ma_data acc ! unat (cp_idx (cache ! j))))" by (auto simp: cache_live_def)
    then show "unat (cp_idx (?cache ! j)) < length (ma_data acc')"
      "cp_hash (?cache ! j) = H (leaf_message (ma_data acc' ! unat (cp_idx (?cache ! j))))"
      using jv j assms(4) other [of j] by auto
    fix k assume k: "k < length ?cache" "cp_valid (?cache ! k)" "cp_idx (?cache ! j) = cp_idx (?cache ! k)"
    then have "k \<noteq> v" using assms(2) by auto
    with j k jv assms(1) show "j = k" by (auto simp: cache_live_def)
  qed
qed

text \<open>Filling a free slot.\<close>

lemma cache_live_fill:
  assumes live: "cache_live H acc cache" and v: "v < length cache" and "length page = PAGE_SIZE"
    and "unat i < length (ma_data acc)"
    and new: "\<And>j. j < length cache \<Longrightarrow> cp_valid (cache ! j) \<Longrightarrow> cp_idx (cache ! j) \<noteq> i"
  shows "cache_live H acc (cache[v := \<lparr>cp_idx = i, cp_page = page,
    cp_hash = H (leaf_message (ma_data acc ! unat i)), cp_valid = True, cp_modified = b\<rparr>])"
  unfolding cache_live_def
proof (intro conjI allI impI)
  let ?cache = "cache[v := \<lparr>cp_idx = i, cp_page = page,
    cp_hash = H (leaf_message (ma_data acc ! unat i)), cp_valid = True, cp_modified = b\<rparr>]"
  show "?cache \<noteq> []" using live by (simp add: cache_live_def)
  show "length (cp_page (?cache ! j)) = PAGE_SIZE" if "j < length ?cache" for j
    using assms(3) live v that by (cases "j = v") (auto simp: cache_live_def)
  fix j assume j: "j < length ?cache" "cp_valid (?cache ! j)"
  show "unat (cp_idx (?cache ! j)) < length (ma_data acc)"
    "cp_hash (?cache ! j) = H (leaf_message (ma_data acc ! unat (cp_idx (?cache ! j))))"
    using j live v assms(4) by (cases "j = v"; auto simp: cache_live_def)+
  fix k assume k: "k < length ?cache" "cp_valid (?cache ! k)" "cp_idx (?cache ! j) = cp_idx (?cache ! k)"
  show "j = k"
    using j k v new [of j] new [of k] live by (cases "j = v"; cases "k = v") (auto simp: cache_live_def)
qed

section \<open>The operations of the cache\<close>

context eviction_laws
begin

lemma es_step_fun: "es_step es (Access i p) = on_access es i p" "es_step es (Load i p) = on_load es i p"
  "es_step es (Invalidate i p) = on_invalidate es i p"
  by (simp_all add: fun_eq_iff)

lemma notify_live:
  assumes "inv n occ k (evict_state m)" "allowed n occ ev" "k + ticks ev \<le> 2 ^ 32 - 2"
  obtains s where "notify (es_step es ev) (w, m) = ((w, m\<lparr>evict_state := s\<rparr>), Ok ())"
    "inv n (occupied ev occ) (k + ticks ev) s"
proof -
  obtain s where "es_step es ev (evict_state m) = Some s" "inv n (occupied ev occ) (k + ticks ev) s"
    using step_ok [OF assms] by blast
  then show thesis by (intro that) (simp_all add: notify_def)
qed

lemma evict_page_live:
  assumes cr: "crypto_ok cr" "cipher_total (aes_block cr)" and live: "live cr inv e0 e k (w, m)"
    and full: "occupied_slots m = {..<length (cached_pages m)}" and k: "k \<le> 2 ^ 32 - 2"
  obtains w' m' e' v where "evict_page cr es (w, m) = ((w', m'), Ok v)" "live cr inv e0 e' k (w', m')"
    "v < length (cached_pages m')" "\<not> cp_valid (cached_pages m' ! v)" "section_kind m' = section_kind m"
    "length (cached_pages m') = length (cached_pages m)" "n_pages m' = n_pages m"
    "\<And>j. j < length (cached_pages m) \<Longrightarrow> cp_valid (cached_pages m' ! j) \<Longrightarrow> cp_idx (cached_pages m' ! j) = cp_idx (cached_pages m ! j)"
    "same_client (section_kind m) e e'"
proof -
  let ?n = "length (cached_pages m)" and ?H = "sha256 cr"
  define acc where "acc = engine_seg (section_kind m) e"
  have l: "client_ready ?H e0 w e" "length (aes_nonce (aes_ctr w)) = 12" "code_hmacs e = None \<or> section_kind m \<noteq> Code"
    "agrees ?H acc m" "cache_live ?H acc (cached_pages m)"
    "\<not> is_readonly m \<longrightarrow> section_kind m \<noteq> Code \<and> 2 \<le> length (ma_data acc)"
    "inv ?n (occupied_slots m) k (evict_state m)"
    "\<forall>i j. last_accessed_page m = Some (i, j) \<longrightarrow> j < ?n" "accepted_tags m = []"
    using live by (simp_all add: live_def acc_def)
  have "0 < ?n" using l(5) by (simp add: cache_live_def)
  then obtain v where v: "v < ?n" "choose_victim es (evict_state m) = Some v"
    using victim_ok l(7) full by metis
  then have valid: "cp_valid (cached_pages m ! v)" using full by (auto simp: occupied_slots_def set_eq_iff)
  let ?c = "cached_pages m ! v"
  have c: "length (cp_page ?c) = PAGE_SIZE" "unat (cp_idx ?c) < length (ma_data acc)"
    "cp_hash ?c = ?H (leaf_message (ma_data acc ! unat (cp_idx ?c)))"
    using l(5) v(1) valid by (auto simp: cache_live_def)
  obtain w1 hs acc' where
    commit: "(if \<not> is_readonly m \<and> cp_modified ?c then commit_page_at cr v else returnS ()) (w, m) =
      ((w1, m\<lparr>om_hasher := hs, merkle_root := ma_root acc'\<rparr>), Ok ())"
    and after: "client_ready ?H e0 w1 (set_engine_seg (section_kind m) acc' e)" "length (aes_nonce (aes_ctr w1)) = 12"
      "ma_data acc' = ma_data acc \<or> (\<exists>leaf. ma_data acc' = (ma_data acc)[unat (cp_idx ?c) := leaf])"
      "agrees ?H acc' (m\<lparr>om_hasher := hs, merkle_root := ma_root acc'\<rparr>)"
  proof (cases "\<not> is_readonly m \<and> cp_modified ?c")
    case True
    then have ro: "section_kind m \<noteq> Code" "2 \<le> length (ma_data acc)" using l(6) by simp_all
    obtain w1 hs acc' st where r: "commit_page_at cr v (w, m) = ((w1, m\<lparr>om_hasher := hs, merkle_root := ma_root acc'\<rparr>), Ok ())"
      "client_ready ?H e0 w1 (set_engine_seg (section_kind m) acc' e)" "acc_ok ?H acc'"
      "ma_data acc' = (ma_data acc)[unat (cp_idx ?c) := page_bytes st]" "stored_ok st" "length (aes_nonce (aes_ctr w1)) = 12"
      by (rule commit_page_live [OF cr l(2,1) ro(1) l(4) acc_def ro(2) v(1) refl valid c])
    have "agrees ?H acc' (m\<lparr>om_hasher := hs, merkle_root := ma_root acc'\<rparr>)"
      unfolding agrees_def
    proof (intro conjI allI impI)
      fix j assume "j < length (ma_data acc')"
      then have j: "j < length (ma_data acc)" using r(4) by simp
      show "\<exists>st. stored_ok st \<and> ma_data acc' ! j = page_bytes st"
      proof (cases "j = unat (cp_idx ?c)")
        case True
        then show ?thesis using r(4,5) j by (intro exI [of _ st]) simp
      next
        case False
        then show ?thesis using l(4) r(4) j unfolding agrees_def by simp
      qed
    qed (use r l(4) in \<open>simp_all add: agrees_def\<close>)
    with r True show thesis by (intro that [of w1 acc' hs]) auto
  next
    case False
    have "set_engine_seg (section_kind m) acc e = e"
      by (cases "section_kind m") (simp_all add: acc_def engine_seg_def set_engine_seg_def)
    moreover have "m\<lparr>om_hasher := om_hasher m, merkle_root := ma_root acc\<rparr> = m" using l(4) by (simp add: agrees_def)
    ultimately show thesis using l False by (intro that [of w acc "om_hasher m"]) (auto simp: agrees_def)
  qed
  let ?m1 = "m\<lparr>om_hasher := hs, merkle_root := ma_root acc', cached_pages := (cached_pages m)[v := ?c\<lparr>cp_valid := False\<rparr>]\<rparr>"
  have al: "allowed ?n (occupied_slots m) (Invalidate v (cp_idx ?c))" using full v(1) by simp
  obtain s where s: "notify (es_step es (Invalidate v (cp_idx ?c))) (w1, ?m1) = ((w1, ?m1\<lparr>evict_state := s\<rparr>), Ok ())"
    "inv ?n (occupied_slots m - {v}) k s"
    by (rule notify_live [where m = ?m1 and w = w1, OF _ al]) (use l(7) k in auto)
  let ?m2 = "?m1\<lparr>evict_state := s\<rparr>"
  have run: "evict_page cr es (w, m) = ((w1, ?m2), Ok v)"
    using v commit s(1) by (simp add: evict_page_def bindS_def Let_def linorder_not_le [symmetric] es_step_fun)
  have cache: "cache_live ?H acc' (cached_pages ?m2)"
    using after(3) cache_live_drop [OF l(5) v(1) valid] by auto
  have occ: "occupied_slots ?m2 = occupied_slots m - {v}"
    using v(1) by (auto simp: occupied_slots_def nth_list_update)
  have len: "length (ma_data acc') = length (ma_data acc)" using after(3) by auto
  have "live cr inv e0 (set_engine_seg (section_kind m) acc' e) k (w1, ?m2)"
    unfolding live_def fst_conv snd_conv occ
    using after cache s(2) l(3,6,8,9) len by (simp add: agrees_def)
  then show thesis
    by (rule that [OF run]) (use v(1) len in \<open>auto simp: nth_list_update same_client_def acc_def split: if_splits\<close>)
qed

lemma search_page_live:
  assumes cr: "crypto_ok cr" "cipher_total (aes_block cr)" and live: "live cr inv e0 e k (w, m)"
    and k: "k < 2 ^ 32 - 2" and i: "unat i < length (ma_data (engine_seg (section_kind m) e))"
  obtains w' m' e' v where "search_page cr es i (w, m) = ((w', m'), Ok v)" "live cr inv e0 e' (Suc k) (w', m')"
    "v < length (cached_pages m')" "section_kind m' = section_kind m" "same_client (section_kind m) e e'"
proof (cases "find_slot (\<lambda>c. cp_valid c \<and> cp_idx c = i) (cached_pages m)")
  case (Some j)
  let ?n = "length (cached_pages m)"
  have j: "j < ?n" "cp_valid (cached_pages m ! j)" using find_slot_Some [OF Some] by auto
  then have al: "allowed ?n (occupied_slots m) (Access j i)" by (simp add: occupied_slots_def)
  obtain s where s: "notify (es_step es (Access j i)) (w, m) = ((w, m\<lparr>evict_state := s\<rparr>), Ok ())"
    "inv ?n (occupied_slots m) (Suc k) s"
    by (rule notify_live [OF _ al]) (use live k in \<open>auto simp: live_def\<close>)
  let ?m = "m\<lparr>evict_state := s, last_accessed_page := Some (i, j)\<rparr>"
  have "search_page cr es i (w, m) = ((w, ?m), Ok j)"
    using s(1) j(1) by (simp add: search_page_def Some bindS_def get_cached_page_ref_def es_step_fun)
  moreover have "live cr inv e0 e (Suc k) (w, ?m)"
    using live s(2) j(1) by (simp add: live_def agrees_def occupied_slots_def)
  ultimately show thesis by (rule that) (use j(1) in \<open>simp_all add: same_client_def\<close>)
next
  case None
  let ?H = "sha256 cr"
  have new: "cp_idx (cached_pages m ! j) \<noteq> i" if "j < length (cached_pages m)" "cp_valid (cached_pages m ! j)" for j
    using None that by (auto simp: find_slot_None)
  obtain w0 m0 e1 v where
    slot: "(case find_slot (\<lambda>c. \<not> cp_valid c) (cached_pages m) of
        Some slot \<Rightarrow> returnS slot | None \<Rightarrow> evict_page cr es) (w, m) = ((w0, m0), Ok v)"
    and live0: "live cr inv e0 e1 k (w0, m0)" and v: "v < length (cached_pages m0)" "\<not> cp_valid (cached_pages m0 ! v)"
    and m0: "section_kind m0 = section_kind m" "same_client (section_kind m) e e1"
    and new0: "\<And>j. j < length (cached_pages m0) \<Longrightarrow> cp_valid (cached_pages m0 ! j) \<Longrightarrow> cp_idx (cached_pages m0 ! j) \<noteq> i"
  proof (cases "find_slot (\<lambda>c. \<not> cp_valid c) (cached_pages m)")
    case (Some j)
    then show thesis using find_slot_Some [OF Some] live new
      by (intro that [of w m j e]) (auto simp: same_client_def)
  next
    case full: None
    then have "occupied_slots m = {..<length (cached_pages m)}" by (auto simp: occupied_slots_def find_slot_None)
    then obtain w0 m0 e1 v where ev: "evict_page cr es (w, m) = ((w0, m0), Ok v)" "live cr inv e0 e1 k (w0, m0)"
      "v < length (cached_pages m0)" "\<not> cp_valid (cached_pages m0 ! v)" "section_kind m0 = section_kind m"
      "length (cached_pages m0) = length (cached_pages m)" "same_client (section_kind m) e e1"
      and idx: "\<And>j. j < length (cached_pages m) \<Longrightarrow> cp_valid (cached_pages m0 ! j) \<Longrightarrow>
        cp_idx (cached_pages m0 ! j) = cp_idx (cached_pages m ! j)"
      using evict_page_live [OF cr live _ less_imp_le [OF k]] by metis
    have "cp_idx (cached_pages m0 ! j) \<noteq> i" if "j < length (cached_pages m0)" "cp_valid (cached_pages m0 ! j)" for j
      using idx [of j] new [of j] full that ev(6) by (auto simp: find_slot_None)
    then show thesis using ev full by (intro that [of w0 m0 v e1]) simp_all
  qed
  define acc where "acc = engine_seg (section_kind m) e1"
  have i: "unat i < length (ma_data acc)" using i m0(2) by (simp add: same_client_def acc_def)
  have l: "client_ready ?H e0 w0 e1" "length (aes_nonce (aes_ctr w0)) = 12" "code_hmacs e1 = None \<or> section_kind m0 \<noteq> Code"
    "agrees ?H acc m0" "cache_live ?H acc (cached_pages m0)"
    using live0 m0(1) by (simp_all add: live_def acc_def)
  obtain w1 hs page where load: "load_page cr i (w0, m0) = ((w1, m0\<lparr>om_hasher := hs\<rparr>), Ok (page, ?H (leaf_message (ma_data acc ! unat i))))"
    and ready: "client_ready ?H e0 w1 e1" and page: "length page = PAGE_SIZE" and ctr: "aes_ctr w1 = aes_ctr w0"
    by (rule load_page_live [OF cr l(1,3,4) _ i]) (simp add: acc_def m0(1))
  let ?c = "\<lparr>cp_idx = i, cp_page = page, cp_hash = ?H (leaf_message (ma_data acc ! unat i)), cp_valid = True, cp_modified = False\<rparr>"
  let ?m1 = "m0\<lparr>om_hasher := hs, cached_pages := (cached_pages m0)[v := ?c]\<rparr>"
  have al: "allowed (length (cached_pages m0)) (occupied_slots m0) (Load v i)"
    using v by (simp add: occupied_slots_def)
  obtain s where s: "notify (es_step es (Load v i)) (w1, ?m1) = ((w1, ?m1\<lparr>evict_state := s\<rparr>), Ok ())"
    "inv (length (cached_pages m0)) (insert v (occupied_slots m0)) (Suc k) s"
    by (rule notify_live [where m = ?m1 and w = w1, OF _ al]) (use live0 k in \<open>auto simp: live_def\<close>)
  let ?m2 = "?m1\<lparr>evict_state := s, last_accessed_page := Some (i, v)\<rparr>"
  have run: "search_page cr es i (w, m) = ((w1, ?m2), Ok v)"
    using slot load s(1) v(1)
    by (simp add: search_page_def None bindS_def store_page_def get_cached_page_ref_def es_step_fun)
  have cache: "cache_live ?H acc (cached_pages ?m2)"
    using cache_live_fill [OF l(5) v(1) page i new0, of False] by simp
  have occ: "occupied_slots ?m2 = insert v (occupied_slots m0)"
    using v by (auto simp: occupied_slots_def nth_list_update split: if_splits)
  have "live cr inv e0 e1 (Suc k) (w1, ?m2)"
    using live0 ready ctr cache s(2) v(1) unfolding live_def fst_conv snd_conv occ
    by (simp add: agrees_def acc_def m0(1))
  then show thesis by (rule that [OF run]) (use v m0 in simp_all)
qed

lemma get_page_live:
  assumes cr: "crypto_ok cr" "cipher_total (aes_block cr)" and live: "live cr inv e0 e k (w, m)"
    and k: "k < 2 ^ 32 - 2" and i: "unat i < length (ma_data (engine_seg (section_kind m) e))"
  obtains w' m' e' k' v where "om_get_page cr es i (w, m) = ((w', m'), Ok v)" "live cr inv e0 e' k' (w', m')"
    "v < length (cached_pages m')" "section_kind m' = section_kind m" "same_client (section_kind m) e e'" "k' \<le> Suc k"
proof (cases "\<exists>j. last_accessed_page m = Some (i, j)")
  case True
  then obtain j where j: "last_accessed_page m = Some (i, j)" by blast
  then have "j < length (cached_pages m)" using live by (simp add: live_def)
  moreover from this j have "om_get_page cr es i (w, m) = ((w, m), Ok j)"
    by (simp add: om_get_page_def get_cached_page_ref_def Let_def)
  ultimately show thesis using live by (intro that [of w m j e k]) (simp_all add: same_client_def)
next
  case False
  then have "om_get_page cr es i (w, m) = search_page cr es i (w, m)"
    by (auto simp: om_get_page_def split: option.splits)
  then show thesis using search_page_live [OF cr live k i] that by (metis order_refl)
qed

lemma write_live:
  fixes w :: "('k, 'z) world_scheme"
  assumes "live cr inv e0 e k (w, m)" "v < length (cached_pages m)"
  shows "live cr inv e0 e k (w, deref_mut (outsourced cr es :: (('k, 'z) world_scheme, 's OutsourcedMemory, nat) PagedMemory) m v (\<lambda>page. page[j := b]))"
proof -
  let ?c = "(cached_pages m ! v)\<lparr>cp_modified := True, cp_page := (cp_page (cached_pages m ! v))[j := b]\<rparr>"
  have "cache_live H acc ((cached_pages m)[v := ?c])" if "cache_live H acc (cached_pages m)" for H acc
  proof -
    have c: "cp_idx ((cached_pages m)[v := ?c] ! a) = cp_idx (cached_pages m ! a)"
      "cp_valid ((cached_pages m)[v := ?c] ! a) = cp_valid (cached_pages m ! a)"
      "cp_hash ((cached_pages m)[v := ?c] ! a) = cp_hash (cached_pages m ! a)"
      "length (cp_page ((cached_pages m)[v := ?c] ! a)) = length (cp_page (cached_pages m ! a))" for a
      using assms(2) by (simp_all add: nth_list_update)
    show ?thesis using that unfolding cache_live_def c by simp
  qed
  moreover have "occupied_slots (m\<lparr>cached_pages := (cached_pages m)[v := ?c], readonly_written := r\<rparr>) = occupied_slots m" for r
    using assms(2) by (auto simp: occupied_slots_def nth_list_update)
  ultimately show ?thesis
    using assms by (simp add: outsourced_def live_def agrees_def)
qed

lemma run_ops_live:
  fixes w :: "('k, 'z) world_scheme" and m :: "'s OutsourcedMemory"
  assumes cr: "crypto_ok cr" "cipher_total (aes_block cr)" and live: "live cr inv e0 e k (w, m)"
    and "k + length ops \<le> 2 ^ 32 - 2"
    and "\<forall>x\<in>set ops. unat (page_of x) < length (ma_data (engine_seg (section_kind m) e))"
  shows "\<exists>w' m' out e' k'. run_ops (outsourced cr es) ops (w, m) = ((w', m'), Ok out) \<and> live cr inv e0 e' k' (w', m')"
  using assms(3-)
proof (induction ops arbitrary: e k w m)
  case Nil
  then show ?case by auto
next
  case (Cons x ops)
  obtain w1 m1 e1 k1 v where g: "om_get_page cr es (page_of x) (w, m) = ((w1, m1), Ok v)" "live cr inv e0 e1 k1 (w1, m1)"
    "v < length (cached_pages m1)" "section_kind m1 = section_kind m" "same_client (section_kind m) e e1" "k1 \<le> Suc k"
    by (rule get_page_live [OF cr Cons.prems(1)]) (use Cons.prems(2,3) in auto)
  have le: "k1 + length ops \<le> 2 ^ 32 - 2" using g(6) Cons.prems(2) by simp
  have inside: "\<forall>x\<in>set ops. unat (page_of x) < length (ma_data (engine_seg (section_kind m1) e1))"
    using Cons.prems(3) g(4,5) by (simp add: same_client_def)
  show ?case
  proof (cases x)
    case (ReadPage i)
    with Cons.IH [OF g(2) le inside] g(1) show ?thesis by (fastforce simp: outsourced_def)
  next
    case (WriteByte i j b)
    let ?m = "deref_mut (outsourced cr es :: (('k, 'z) world_scheme, 's OutsourcedMemory, nat) PagedMemory) m1 v (\<lambda>page. page[j := b])"
    have "section_kind ?m = section_kind m1" by (simp add: outsourced_def)
    then show ?thesis
      using Cons.IH [OF write_live [OF g(2,3), of j b] le] inside g(1) WriteByte by (simp add: outsourced_def)
  qed
qed

end

section \<open>The two strategies\<close>

definition boxed_inv :: "nat \<Rightarrow> nat set \<Rightarrow> nat \<Rightarrow> strategy \<Rightarrow> bool" where
  "boxed_inv n occ k st = (case st of
     LruStrategy s \<Rightarrow> \<exists>q. lru_rel n q k s \<and> set q = occ
   | TwoQStrategy s \<Rightarrow> \<exists>q. twoq_refines n q k s \<and> twoq_slots q = occ)"

interpretation boxed: eviction_laws boxed boxed_inv
proof
  fix n occ k e st
  show "\<exists>s'. es_step boxed e st = Some s' \<and> boxed_inv n (occupied e occ) (k + ticks e) s'"
    if "boxed_inv n occ k st" "allowed n occ e" "k + ticks e \<le> 2 ^ 32 - 2"
  proof (cases st)
    case (LruStrategy s)
    with that obtain s' where "es_step Lru e s = Some s'" "\<exists>q. lru_rel n q (k + ticks e) s' \<and> set q = occupied e occ"
      using lru.step_ok [where n = n and occ = occ and k = k and s = s and e = e] by (auto simp: boxed_inv_def)
    then show ?thesis
      by (intro exI [of _ "LruStrategy s'"]) (cases e; simp add: LruStrategy boxed_def on_strategy_def boxed_inv_def)
  next
    case (TwoQStrategy s)
    with that obtain s' where "es_step TwoQ e s = Some s'" "\<exists>q. twoq_refines n q (k + ticks e) s' \<and> twoq_slots q = occupied e occ"
      using twoq.step_ok [where n = n and occ = occ and k = k and s = s and e = e] by (auto simp: boxed_inv_def)
    then show ?thesis
      by (intro exI [of _ "TwoQStrategy s'"]) (cases e; simp add: TwoQStrategy boxed_def on_strategy_def boxed_inv_def)
  qed
  show "\<exists>v<n. choose_victim boxed st = Some v" if "boxed_inv n {..<n} k st" "0 < n"
  proof (cases st)
    case (LruStrategy s)
    then show ?thesis using lru.victim_ok [where n = n and k = k and s = s] that by (simp add: boxed_def boxed_inv_def)
  next
    case (TwoQStrategy s)
    then show ?thesis using twoq.victim_ok [where n = n and k = k and s = s] that by (simp add: boxed_def boxed_inv_def)
  qed
qed

text \<open>The strategies that the memories of a V-App start with.\<close>

definition new_strategy :: "nat \<Rightarrow> strategy \<Rightarrow> bool" where
  "new_strategy n st \<longleftrightarrow> st = LruStrategy (Lru_new n) \<or>
     (\<exists>a b. map_option TwoQStrategy (TwoQ_new n a b) = Some st)"

lemma new_strategy_inv: "new_strategy n st \<Longrightarrow> boxed_inv n {} 0 st"
  unfolding new_strategy_def
proof (elim disjE exE)
  assume "st = LruStrategy (Lru_new n)"
  then show ?thesis using lru_rel_new [of n] by (auto simp: boxed_inv_def)
next
  fix a b assume "map_option TwoQStrategy (TwoQ_new n a b) = Some st"
  then obtain s where s: "TwoQ_new n a b = Some s" "st = TwoQStrategy s" by auto
  then have "a1out s = [] \<and> a1_max_size s = a \<and> a1out_max_size s = b" by (auto simp: TwoQ_new_def split: if_splits)
  with twoq_rel_new [OF s(1)] have "twoq_refines n (empty_queues a b) 0 s"
    by (simp add: twoq_refines_def empty_queues_def)
  then show ?thesis using s(2) by (auto simp: boxed_inv_def twoq_slots_def empty_queues_def)
qed

section \<open>A section of the client and the memory over it\<close>

lemma page_bytes_fresh: "get_serialized_page p None = page_bytes (False, replicate 12 0, p)"
  by (simp add: get_serialized_page_def page_bytes_def page_message_def)

text \<open>The root that the client announces for a section commits to the contents of that section.\<close>

lemma client_segment_commits:
  assumes "hash_len H" "data \<noteq> []" "unat start + length data \<le> 2 ^ 32 - PAGE_SIZE"
  obtains seg where "ClientSegment_new H start data = Some seg" "acc_ok H seg"
    "commits_to H (ma_root seg) (section_contents start data) (ma_tree seg)"
    "checked_next_power_of_two (length (section_contents start data)) = Some (length (ma_data seg))"
    "\<And>j. j < length (ma_data seg) \<Longrightarrow> \<exists>st. stored_ok st \<and> ma_data seg ! j = page_bytes st"
proof -
  let ?ps = "section_contents start data" and ?n = "length (section_contents start data)"
  obtain seg where seg: "ClientSegment_new H start data = Some seg" "acc_ok H seg"
    "ma_data seg = map (\<lambda>p. get_serialized_page p None)
       (?ps @ replicate (next_power_of_two ?n - ?n) (replicate PAGE_SIZE 0))"
    "length (ma_data seg) = next_power_of_two ?n"
    by (rule client_segment_new [OF assms]) simp
  have ok: "pages_ok ?ps" by (rule section_contents_ok [OF assms(2)])
  have "unat start + length data - 1 < 2 ^ 32" using assms(3) by (simp add: PAGE_SIZE_def)
  then have "?n \<le> 2 ^ 31" by (simp add: page_count_def PAGE_SIZE_def) 
  then have N: "checked_next_power_of_two ?n = Some (length (ma_data seg))"
    using seg(4) by (simp add: checked_next_power_of_two_def)
  show thesis
  proof (rule that [OF seg(1,2) _ N])
    show "\<exists>st. stored_ok st \<and> ma_data seg ! j = page_bytes st" if "j < length (ma_data seg)" for j
    proof -
      let ?p = "(?ps @ replicate (next_power_of_two ?n - ?n) (replicate PAGE_SIZE 0)) ! j"
      have "?p \<in> set (?ps @ replicate (next_power_of_two ?n - ?n) (replicate PAGE_SIZE 0))"
        by (rule nth_mem) (use that in \<open>simp only: seg(3) length_map\<close>)
      then have "length ?p = PAGE_SIZE" using ok by (auto simp: pages_ok_def list_all_iff page_ok_def)
      then have "stored_ok (False, replicate 12 0, ?p)" by (simp add: stored_ok_def nonce_wf_def)
      moreover have "ma_data seg ! j = page_bytes (False, replicate 12 0, ?p)"
        unfolding seg(3) page_bytes_fresh
        by (rule nth_map) (use that in \<open>simp only: seg(3) length_map\<close>)
      ultimately show ?thesis by blast
    qed
    have "ma_tree seg ! (length (ma_data seg) - 1 + i) = H (stored_message (False, replicate 12 0, ?ps ! i))" if "i < ?n" for i
    proof -
      have i: "i < length (ma_data seg)" using that next_power_of_two_ge [of ?n] seg(4) by simp
      have "ma_data seg ! i = page_bytes (False, replicate 12 0, ?ps ! i)"
        using that unfolding seg(3) page_bytes_fresh by (simp add: nth_append del: length_section_contents)
      then show ?thesis
        using acc_leaf [OF seg(2) i] by (simp add: hash_leaf_message page_bytes_def stored_message_def)
    qed
    then show "commits_to H (ma_root seg) ?ps (ma_tree seg)"
      using seg(2) ok unfolding commits_to_def N by (simp add: ma_root_def acc_ok_def list_all_iff)
  qed
qed

text \<open>
  C4: (liveness) With the client of the repository as its host, the memory of a section never fails: a
  memory over the section that the client made from \<open>data\<close>, with any number of cache slots and either
  eviction strategy, runs any sequence of up to \<open>2^32 - 2\<close> page reads and byte writes inside the section to
  its end. What is read is what a plain vector of the section's pages returns, unless two of the messages
  that were hashed collide. The client keeps no tags of code pages here, and a section that is written
  to has at least two pages: the VM refuses the empty proof of the single leaf.
\<close>

theorem client_serves_pages:
  fixes w :: "('k, 'z) world_scheme" and start :: u32 and data :: bytes
  defines "ps \<equiv> section_contents start data"
  assumes "crypto_ok cr" "cipher_total (aes_block cr)" "length (aes_nonce (aes_ctr w)) = 12"
    and "data \<noteq> []" "unat start + length data \<le> 2 ^ 32 - PAGE_SIZE"
    and seg: "ClientSegment_new (sha256 cr) start data = Some (engine_seg kind e)"
    and "code_hmacs e = None \<or> kind \<noteq> Code" and "host w = client_host (sha256 cr) e" "sent w = []"
    and "0 < n" "new_strategy n st"
    and ops: "if ro then \<forall>x\<in>set ops. \<exists>i. x = ReadPage i else kind \<noteq> Code \<and> 2 \<le> length ps"
      "\<forall>x\<in>set ops. unat (page_of x) < length ps" "length ops \<le> 2 ^ 32 - 2"
  shows "\<exists>w' m' out. run_ops (outsourced cr boxed) ops
      (w, OutsourcedMemory_new n ro kind (of_nat (length ps)) (ma_root (engine_seg kind e)) st vapp_hash) = ((w', m'), Ok out) \<and>
    (inj_on (sha256 cr) (committed_messages ps (ma_tree (engine_seg kind e)) \<union> set (hasher_log (om_hasher m')))
      \<longrightarrow> out = fst (vec_ops ops ps))"
proof -
  let ?seg = "engine_seg kind e" and ?H = "sha256 cr"
  let ?m = "OutsourcedMemory_new n ro kind (of_nat (length ps)) (ma_root ?seg) st vapp_hash"
  have "hash_len ?H" using assms(2) by (simp add: crypto_ok_def)
  from client_segment_commits [OF this assms(5,6)] seg
  have s: "acc_ok ?H ?seg" "commits_to ?H (ma_root ?seg) ps (ma_tree ?seg)"
    "checked_next_power_of_two (length ps) = Some (length (ma_data ?seg))"
    "\<And>j. j < length (ma_data ?seg) \<Longrightarrow> \<exists>st. stored_ok st \<and> ma_data ?seg ! j = page_bytes st"
    unfolding ps_def by (metis option.inject)+
  have N: "length ps \<le> length (ma_data ?seg)" by (rule checked_power_ge [OF s(3)])
  have "length ps \<le> 2 ^ 31" using s(3) by (auto simp: checked_next_power_of_two_def split: if_splits)
  then have len: "unat (of_nat (length ps) :: u32) = length ps" by (simp add: unat_of_nat take_bit_nat_eq_self)
  have m: "cached_pages ?m = replicate n CachedPage_default" "section_kind ?m = kind" "n_pages ?m = of_nat (length ps)"
    "merkle_root ?m = ma_root ?seg" "is_readonly ?m = ro" "evict_state ?m = st" "last_accessed_page ?m = None"
    "accepted_tags ?m = []" "readonly_written ?m = False"
    by (simp_all add: OutsourcedMemory_new_def)
  have "agrees ?H ?seg ?m" unfolding agrees_def m len using s by blast
  moreover have "cache_live ?H ?seg (cached_pages ?m)"
    using assms(11) by (simp add: m cache_live_def CachedPage_default_def)
  moreover have "occupied_slots ?m = {}" by (auto simp: m occupied_slots_def CachedPage_default_def)
  moreover have "client_ready ?H e w e" using assms(9,10) settled_start by (simp add: client_ready_def)
  moreover have "\<not> ro \<longrightarrow> kind \<noteq> Code \<and> 2 \<le> length (ma_data ?seg)" using ops(1) N by (auto split: if_splits)
  ultimately have "live cr boxed_inv e e 0 (w, ?m)"
    using assms(4,8) new_strategy_inv [OF assms(12)] unfolding live_def fst_conv snd_conv m by simp
  from boxed.run_ops_live [OF assms(2,3) this, of ops] ops(2,3) N
  obtain w' m' out e' k' where run: "run_ops (outsourced cr boxed) ops (w, ?m) = ((w', m'), Ok out)"
    and live: "live cr boxed_inv e e' k' (w', m')"
    by (fastforce simp: m)
  have "out = fst (vec_ops ops ps)" if inj: "inj_on ?H (committed_messages ps (ma_tree ?seg) \<union> set (hasher_log (om_hasher m')))"
  proof -
    let ?S = "committed_messages ps (ma_tree ?seg)"
    have c: "pages_ok ps" "tree_ok ?H (length (ma_data ?seg)) (ma_tree ?seg)"
      "\<And>i. i < length ps \<Longrightarrow> ma_tree ?seg ! (length (ma_data ?seg) - 1 + i) = ?H (stored_message (False, replicate 12 0, ps ! i))"
      using s(2,3) by (simp_all add: commits_to_def list_all_iff)
    have msgs: "set (tree_messages (length (ma_data ?seg)) (ma_tree ?seg)) \<subseteq> ?S"
      "(\<lambda>page. stored_message (False, replicate 12 0, page)) ` set ps \<subseteq> ?S"
      using s(3) by (auto simp: committed_messages_def)
    have "om_rep cr ?S {} w ?m ps"
      unfolding ma_root_def
      by (rule om_new_rep [OF assms(2,4) c(1) _ N c(2,3) msgs(1)])
         (use s(3) len msgs(2) ops(1) in \<open>auto split: if_splits\<close>)
    moreover have "\<not> readonly_written m'"
      by (rule run_ops_readonly_written [OF run]) (use ops(1) in \<open>simp_all add: m\<close>)
    then have "om_ok cr ?S {} m'" using inj live by (simp add: om_ok_def live_def)
    moreover have "\<not> is_readonly ?m \<or> (\<forall>x\<in>set ops. \<exists>i. x = ReadPage i)" using ops(1) by (simp add: m split: if_splits)
    ultimately show ?thesis using outsourced.run_ops_rep [OF run] ops(2) by fastforce
  qed
  with run show ?thesis by blast
qed

definition client_engine :: "client_segment \<Rightarrow> VAppEngine" where
  "client_engine seg = \<lparr>eng_code_seg = seg, eng_data_seg = seg, eng_stack_seg = seg, pending_receive_buffer = None,
     current_status = OK_sw, current_result = [], code_hmacs = None\<rparr>"

definition client_world :: "client_segment \<Rightarrow> u8 world" where
  "client_world seg = \<lparr>host = client_host toy_hash (client_engine seg), sent = [], aes_ctr = AesCtr_new 5\<rparr>"

theorem client_serves_pages_witness:
  "\<exists>seg w' m' out. ClientSegment_new toy_hash 0x1010 (replicate 300 7) = Some seg \<and>
     run_ops (outsourced toy_crypto boxed) [WriteByte 0 200 9, ReadPage 1, ReadPage 0]
       (client_world seg, OutsourcedMemory_new 1 False Data 2 (ma_root seg) (LruStrategy (Lru_new 1)) []) = ((w', m'), Ok out)"
proof -
  let ?data = "replicate 300 7 :: bytes"
  have n: "length (section_contents 0x1010 ?data) = 2" by (simp add: page_count_def PAGE_SIZE_def)
  obtain seg where seg: "ClientSegment_new toy_hash 0x1010 ?data = Some seg"
    by (rule client_segment_new [OF toy_hash_len, of ?data "0x1010"]) (simp_all add: PAGE_SIZE_def)
  have tot: "cipher_total (aes_block toy_crypto)" by (simp add: toy_crypto_def toy_cipher_def cipher_total_def)
  have "\<exists>w' m' out. run_ops (outsourced toy_crypto boxed) [WriteByte 0 200 9, ReadPage 1, ReadPage 0]
      (client_world seg, OutsourcedMemory_new 1 False Data (of_nat (length (section_contents 0x1010 ?data)))
        (ma_root (engine_seg Data (client_engine seg))) (LruStrategy (Lru_new 1)) []) = ((w', m'), Ok out) \<and>
      (inj_on (sha256 toy_crypto) (committed_messages (section_contents 0x1010 ?data)
         (ma_tree (engine_seg Data (client_engine seg))) \<union> set (hasher_log (om_hasher m')))
       \<longrightarrow> out = fst (vec_ops [WriteByte 0 200 9, ReadPage 1, ReadPage 0] (section_contents 0x1010 ?data)))"
    by (rule client_serves_pages [OF toy_crypto_ok(1) tot])
       (use seg in \<open>simp_all add: n client_world_def client_engine_def AesCtr_new_def toy_crypto_ok(2) PAGE_SIZE_def
          new_strategy_def del: length_section_contents\<close>)
  then show ?thesis using seg by (auto simp: n client_engine_def simp del: length_section_contents)
qed

end
