(* ===== verification/Sdk_Comm.thy ===== *)
theory Sdk_Comm
  imports Client_Commands
begin

text \<open>
  Messages between a V-App and its client (\<open>common/src/comm.rs\<close>, \<open>app-sdk/src/comm.rs\<close>, \<open>client-sdk/src/comm.rs\<close>):
  a message has its length in front and goes out in chunks of 256 bytes, each of which the other side
  acknowledges. The calls of the VM and the transport of the client are parameters.
\<close>

section \<open>The side of the V-App\<close>

definition ACK :: bytes where
  "ACK = [0x42]"

definition CHUNK_LENGTH :: nat where
  "CHUNK_LENGTH = 256"

text \<open>
  How a V-App can stop: a system call does not return, since the VM stopped or waits for the host
  forever; a panic; an exit; a loop that does not end; or undefined behaviour.
\<close>

datatype vapp_stop = CallStopped | VappPanic string | VappExit i32 | VappDiverged | UndefinedBehaviour

text \<open>The calls: \<open>xrecv\<close> with room for a number of bytes, \<open>xsend\<close>, and whether the heap has room for a vector.\<close>

record 'd comm_io =
  io_xrecv :: "nat \<Rightarrow> ('d, vapp_stop, bytes) stm"
  io_xsend :: "bytes \<Rightarrow> ('d, vapp_stop, unit) stm"
  heap_has :: "nat \<Rightarrow> bool"

datatype MessageError = NoMessage | InvalidLength | TooManyBytesReceived | FailedToReadMessage | FailedToReadLength

definition or_spins :: "('d \<Rightarrow> ('d \<times> (vapp_stop, 'a) result) option) \<Rightarrow> ('d, vapp_stop, 'a) stm" where
  "or_spins f = (\<lambda>d. case f d of None \<Rightarrow> (d, Err VappDiverged) | Some r \<Rightarrow> r)"

text \<open>Empty chunks are skipped.\<close>

partial_function (option) next_chunk ::
  "('d, 'z) comm_io_scheme \<Rightarrow> 'd \<Rightarrow> ('d \<times> (vapp_stop, bytes) result) option" where
  "next_chunk io d =
     (case io_xrecv io CHUNK_LENGTH d of
        (d1, Inl e) \<Rightarrow> Some (d1, Err e)
      | (d1, Inr chunk) \<Rightarrow> if length chunk \<noteq> 0 then Some (d1, Ok chunk) else next_chunk io d1)"

partial_function (option) receive_rest ::
  "('d, 'z) comm_io_scheme \<Rightarrow> nat \<Rightarrow> bytes \<Rightarrow> 'd \<Rightarrow> ('d \<times> (vapp_stop, (MessageError, bytes) result) result) option" where
  "receive_rest io len res d =
     (if length res < len then
        (case bindS (io_xsend io ACK) (\<lambda>_. or_spins (next_chunk io)) d of
           (d1, Inl e) \<Rightarrow> Some (d1, Err e)
         | (d1, Inr chunk) \<Rightarrow>
             if length chunk = 0 then Some (d1, Ok (Err FailedToReadMessage))
             else if length chunk > len - length res then Some (d1, Ok (Err TooManyBytesReceived))
             else receive_rest io len (res @ chunk) d1)
      else Some (d, Ok (Ok res)))"

declare next_chunk.simps [code] receive_rest.simps [code]

text \<open>The sum of the length and its prefix is a \<open>usize\<close> of 32 bits and wraps. Making the vector can fail.\<close>

definition receive_message :: "('d, 'z) comm_io_scheme \<Rightarrow> ('d, vapp_stop, (MessageError, bytes) result) stm" where
  "receive_message io =
     bindS (io_xrecv io CHUNK_LENGTH) (\<lambda>chunk.
       if length chunk = 0 then returnS (Err NoMessage)
       else if length chunk < 4 then returnS (Err FailedToReadLength)
       else
         let len = unat (u32_from_be_bytes (chunk ! 0) (chunk ! 1) (chunk ! 2) (chunk ! 3)) in
         if length chunk > (4 + len) mod 2 ^ 32 then returnS (Err TooManyBytesReceived)
         else if \<not> heap_has io len then throwS (VappPanic ''capacity'')
         else or_spins (receive_rest io len (drop 4 chunk)))"

function send_rest :: "('d, 'z) comm_io_scheme \<Rightarrow> bytes \<Rightarrow> nat \<Rightarrow> ('d, vapp_stop, unit) stm" where
  "send_rest io msg total_sent =
     (if total_sent < length msg then
        bindS (io_xrecv io 1) (\<lambda>acc_chunk.
          if length acc_chunk \<noteq> 1 \<or> acc_chunk \<noteq> ACK then throwS (VappPanic ''Unexpected byte received'')
          else
            let end_idx = min (total_sent + CHUNK_LENGTH) (length msg) in
            bindS (io_xsend io (take (end_idx - total_sent) (drop total_sent msg))) (\<lambda>_. send_rest io msg end_idx))
      else returnS ())"
  by pat_completeness auto
termination
  by (relation "measure (\<lambda>(io, msg, total_sent). length msg - total_sent)") (auto simp: CHUNK_LENGTH_def)

declare send_rest.simps [simp del]

definition send_message :: "('d, 'z) comm_io_scheme \<Rightarrow> bytes \<Rightarrow> ('d, vapp_stop, unit) stm" where
  "send_message io msg =
     (let first = min (CHUNK_LENGTH - 4) (length msg) in
      bindS (io_xsend io (u32_to_be_bytes (of_nat (length msg)) @ take first msg)) (\<lambda>_. send_rest io msg first))"

section \<open>The side of the client\<close>

text \<open>\<open>VAppTransport::send_message\<close>, which may fail or not return.\<close>

type_synonym ('d, 'e) transport = "bytes \<Rightarrow> 'd \<Rightarrow> ('d \<times> ('e, bytes) result) option"

datatype 'e SendMessageError = NotAckReceived | TransportFailed 'e | ResponseTooShort

text \<open>\<open>slice::chunks\<close>.\<close>

function chunks :: "nat \<Rightarrow> 'a list \<Rightarrow> 'a list list" where
  "chunks n xs = (if xs = [] \<or> n = 0 then [] else take n xs # chunks n (drop n xs))"
  by pat_completeness auto
termination
  by (relation "measure (\<lambda>(n, xs). length xs)") (auto simp: neq_Nil_conv)

declare chunks.simps [simp del]

fun send_chunk_list ::
  "('d, 'e) transport \<Rightarrow> bytes list \<Rightarrow> bytes \<Rightarrow> 'd \<Rightarrow> ('d \<times> ('e SendMessageError, bytes) result) option" where
  "send_chunk_list send [] resp d = Some (d, Ok resp)"
| "send_chunk_list send (chunk # rest) resp d =
     (if resp \<noteq> ACK then Some (d, Err NotAckReceived)
      else case send chunk d of
          None \<Rightarrow> None
        | Some (d1, Inl e) \<Rightarrow> Some (d1, Err (TransportFailed e))
        | Some (d1, Inr resp1) \<Rightarrow> send_chunk_list send rest resp1 d1)"

partial_function (option) collect_response ::
  "('d, 'e) transport \<Rightarrow> nat \<Rightarrow> bytes \<Rightarrow> 'd \<Rightarrow> ('d \<times> ('e SendMessageError, bytes) result) option" where
  "collect_response send len data d =
     (if length data < len then
        Option.bind (send ACK d) (\<lambda>(d1, r). case r of
            Inl e \<Rightarrow> Some (d1, Err (TransportFailed e))
          | Inr resp \<Rightarrow> collect_response send len (data @ resp) d1)
      else Some (d, Ok data))"

declare collect_response.simps [code]

definition client_send_message ::
  "('d, 'e) transport \<Rightarrow> bytes \<Rightarrow> 'd \<Rightarrow> ('d \<times> ('e SendMessageError, bytes) result) option" where
  "client_send_message send message d =
     (case send_chunk_list send (chunks CHUNK_LENGTH (u32_to_be_bytes (of_nat (length message)) @ message)) ACK d of
        None \<Rightarrow> None
      | Some (d1, Inl e) \<Rightarrow> Some (d1, Err e)
      | Some (d1, Inr resp) \<Rightarrow>
          if length resp < 4 then Some (d1, Err ResponseTooShort)
          else collect_response send
            (unat (u32_from_be_bytes (resp ! 0) (resp ! 1) (resp ! 2) (resp ! 3))) (drop 4 resp) d1)"

section \<open>Both sides\<close>

definition message_chunks :: "bytes \<Rightarrow> bytes list" where
  "message_chunks msg = chunks CHUNK_LENGTH (u32_to_be_bytes (of_nat (length msg)) @ msg)"

definition acks :: "nat \<Rightarrow> bytes list" where
  "acks n = replicate n ACK"

text \<open>
  What one side sees of the other: the byte strings that will come, and those that went out. For the V-App these are
  its calls \<open>xrecv\<close> and \<open>xsend\<close>; a call \<open>send_message\<close> of the client's transport is one of each.
\<close>

definition conversation :: "('d, 'z) comm_io_scheme \<Rightarrow> ('d \<Rightarrow> bytes list \<times> bytes list) \<Rightarrow> bool" where
  "conversation io view \<longleftrightarrow>
     (\<forall>d n c ins outs. view d = (c # ins, outs) \<longrightarrow> length c \<le> n \<longrightarrow> (\<exists>d'. io_xrecv io n d = (d', Ok c) \<and> view d' = (ins, outs))) \<and>
     (\<forall>d c ins outs. view d = (ins, outs) \<longrightarrow> (\<exists>d'. io_xsend io c d = (d', Ok ()) \<and> view d' = (ins, outs @ [c])))"

definition dialogue :: "('d, 'e) transport \<Rightarrow> ('d \<Rightarrow> bytes list \<times> bytes list) \<Rightarrow> bool" where
  "dialogue send view \<longleftrightarrow>
     (\<forall>d c r ins outs. view d = (r # ins, outs) \<longrightarrow> (\<exists>d'. send c d = Some (d', Ok r) \<and> view d' = (ins, outs @ [c])))"

lemma conversationD:
  assumes "conversation io view"
  shows "view d = (c # ins, outs) \<Longrightarrow> length c \<le> n \<Longrightarrow> \<exists>d'. io_xrecv io n d = (d', Ok c) \<and> view d' = (ins, outs)"
    "view d = (ins, outs) \<Longrightarrow> \<exists>d'. io_xsend io c' d = (d', Ok ()) \<and> view d' = (ins, outs @ [c'])"
  using assms unfolding conversation_def by blast+

lemma dialogueD:
  "dialogue send view \<Longrightarrow> view d = (r # ins, outs) \<Longrightarrow> \<exists>d'. send c d = Some (d', Ok r) \<and> view d' = (ins, outs @ [c])"
  unfolding dialogue_def by blast

lemma chunks_concat: "n > 0 \<Longrightarrow> concat (chunks n xs) = xs"
proof (induction n xs rule: chunks.induct)
  case (1 n xs)
  then show ?case by (cases "xs = []") (simp_all add: chunks.simps [of n xs] chunks.simps [of n "[]"])
qed

lemma chunks_length: "c \<in> set (chunks n xs) \<Longrightarrow> 0 < length c \<and> length c \<le> n"
proof (induction n xs rule: chunks.induct)
  case (1 n xs)
  then show ?case by (cases "xs = [] \<or> n = 0") (auto simp: chunks.simps [of n xs])
qed

lemma message_chunks_eq:
  "message_chunks msg = (u32_to_be_bytes (of_nat (length msg)) @ take 252 msg) # chunks 256 (drop 252 msg)"
  unfolding message_chunks_def CHUNK_LENGTH_def by (subst chunks.simps) (simp add: u32_to_be_bytes_def)

subsection \<open>The V-App\<close>

lemma next_chunk_plays:
  assumes "conversation io view" "view d = (c # ins, outs)" "0 < length c" "length c \<le> 256"
  shows "\<exists>d'. or_spins (next_chunk io) d = (d', Ok c) \<and> view d' = (ins, outs)"
proof -
  obtain d' where "io_xrecv io CHUNK_LENGTH d = (d', Ok c)" "view d' = (ins, outs)"
    using conversationD(1) [OF assms(1,2), of CHUNK_LENGTH] assms(4) by (auto simp: CHUNK_LENGTH_def)
  then show ?thesis using assms(3) by (simp add: or_spins_def next_chunk.simps [of io d])
qed

lemma receive_rest_plays:
  assumes "conversation io view"
  shows "view d = (cs @ ins, outs) \<Longrightarrow> \<forall>c\<in>set cs. 0 < length c \<and> length c \<le> 256 \<Longrightarrow> length res + length (concat cs) = len
    \<Longrightarrow> \<exists>d'. receive_rest io len res d = Some (d', Ok (Ok (res @ concat cs))) \<and> view d' = (ins, outs @ acks (length cs))"
proof (induction cs arbitrary: d outs res)
  case Nil
  then show ?case by (simp add: receive_rest.simps [of io len res d] acks_def)
next
  case (Cons c cs)
  obtain d1 where d1: "io_xsend io ACK d = (d1, Ok ())" "view d1 = (c # cs @ ins, outs @ [ACK])"
    using conversationD(2) [OF assms Cons.prems(1)] by fastforce
  obtain d2 where d2: "or_spins (next_chunk io) d1 = (d2, Ok c)" "view d2 = (cs @ ins, outs @ [ACK])"
    using next_chunk_plays [OF assms d1(2)] Cons.prems(2) by fastforce
  have "length res < len" "length c \<noteq> 0" "length c \<le> len - length res" using Cons.prems by auto
  then have "receive_rest io len res d = receive_rest io len (res @ c) d2"
    using d1(1) d2(1) by (simp add: receive_rest.simps [of io len res d] bindS_def)
  then show ?case using Cons.IH [OF d2(2), of "res @ c"] Cons.prems(2,3) by (simp add: acks_def)
qed

lemma length_prefix:
  "length msg < 2 ^ 32 \<Longrightarrow> u32_to_be_bytes (of_nat (length msg)) = [a, b, c, d] \<Longrightarrow> unat (u32_from_be_bytes a b c d) = length msg"
  using u32_be_roundtrip [of "of_nat (length msg)"] by (auto simp: u32_to_be_bytes_def unat_of_nat take_bit_nat_eq_self)

lemma receive_message_plays:
  assumes "conversation io view" "view d = (message_chunks msg @ ins, outs)" "heap_has io (length msg)" "length msg < 2 ^ 32 - 4"
  shows "\<exists>d'. receive_message io d = (d', Ok (Ok msg)) \<and> view d' = (ins, outs @ acks (length (message_chunks msg) - 1))"
proof -
  obtain a b c e where pre: "u32_to_be_bytes (of_nat (length msg)) = [a, b, c, e]" by (simp add: u32_to_be_bytes_def)
  have len: "unat (u32_from_be_bytes a b c e) = length msg" using length_prefix [OF _ pre] assms(4) by simp
  let ?cs = "chunks 256 (drop 252 msg)"
  have mc: "message_chunks msg = ([a, b, c, e] @ take 252 msg) # ?cs" using message_chunks_eq pre by metis
  then obtain d1 where d1: "io_xrecv io CHUNK_LENGTH d = (d1, Ok ([a, b, c, e] @ take 252 msg))" "view d1 = (?cs @ ins, outs)"
    using conversationD(1) [OF assms(1), of d "[a, b, c, e] @ take 252 msg" "?cs @ ins" outs CHUNK_LENGTH] assms(2)
    by (auto simp: CHUNK_LENGTH_def)
  have "concat ?cs = drop 252 msg" by (simp add: chunks_concat)
  moreover have "length (take 252 msg) + length (drop 252 msg) = length msg" by simp
  ultimately obtain d2 where "receive_rest io (length msg) (take 252 msg) d1 = Some (d2, Ok (Ok msg))"
      "view d2 = (ins, outs @ acks (length ?cs))"
    using receive_rest_plays [OF assms(1) d1(2), of "take 252 msg" "length msg"] chunks_length [of _ 256 "drop 252 msg"] by auto
  then show ?thesis
    using d1(1) assms(3,4) len mc by (simp add: receive_message_def bindS_def or_spins_def)
qed

lemma send_rest_plays:
  assumes "conversation io view"
  shows "view d = (acks (length (chunks 256 (drop t msg))) @ ins, outs)
    \<Longrightarrow> \<exists>d'. send_rest io msg t d = (d', Ok ()) \<and> view d' = (ins, outs @ chunks 256 (drop t msg))"
proof (induction "length msg - t" arbitrary: d t outs rule: less_induct)
  case less
  show ?case
  proof (cases "t < length msg")
    case False
    then show ?thesis using less.prems by (simp add: send_rest.simps [of io msg t] returnS_def chunks.simps acks_def)
  next
    case True
    let ?e = "min (t + CHUNK_LENGTH) (length msg)" and ?c = "take 256 (drop t msg)"
    have eq: "chunks 256 (drop t msg) = ?c # chunks 256 (drop ?e msg)"
      using True by (simp add: chunks.simps [of 256 "drop t msg"] CHUNK_LENGTH_def min_def add.commute chunks.simps)
    have sent: "take (?e - t) (drop t msg) = ?c" by (simp add: CHUNK_LENGTH_def min_def)
    obtain d1 where d1: "io_xrecv io 1 d = (d1, Ok ACK)" "view d1 = (acks (length (chunks 256 (drop ?e msg))) @ ins, outs)"
      using conversationD(1) [OF assms, of d ACK _ outs 1] less.prems by (auto simp: eq acks_def ACK_def)
    obtain d2 where d2: "io_xsend io ?c d1 = (d2, Ok ())" "view d2 = (acks (length (chunks 256 (drop ?e msg))) @ ins, outs @ [?c])"
      using conversationD(2) [OF assms d1(2)] by blast
    have "send_rest io msg t d = send_rest io msg ?e d2"
      using True d1(1) d2(1) sent by (simp add: send_rest.simps [of io msg t] bindS_def Let_def ACK_def)
    moreover have "length msg - ?e < length msg - t" using True by (auto simp: CHUNK_LENGTH_def min_def)
    ultimately show ?thesis using less.hyps [of ?e d2 "outs @ [?c]"] d2(2) eq by simp
  qed
qed

lemma send_message_plays:
  assumes "conversation io view" "view d = (acks (length (message_chunks msg) - 1) @ ins, outs)"
  shows "\<exists>d'. send_message io msg d = (d', Ok ()) \<and> view d' = (ins, outs @ message_chunks msg)"
proof -
  have first: "take (min (CHUNK_LENGTH - 4) (length msg)) msg = take 252 msg"
      "chunks 256 (drop (min (CHUNK_LENGTH - 4) (length msg)) msg) = chunks 256 (drop 252 msg)"
    by (simp_all add: CHUNK_LENGTH_def min_def)
  obtain d1 where d1: "io_xsend io (u32_to_be_bytes (of_nat (length msg)) @ take 252 msg) d = (d1, Ok ())"
      "view d1 = (acks (length (chunks 256 (drop 252 msg))) @ ins, outs @ [u32_to_be_bytes (of_nat (length msg)) @ take 252 msg])"
    using conversationD(2) [OF assms] by (fastforce simp: message_chunks_eq)
  from send_rest_plays [OF assms(1), of d1 "min (CHUNK_LENGTH - 4) (length msg)" msg ins] d1 first
  show ?thesis by (simp add: send_message_def bindS_def Let_def message_chunks_eq)
qed

subsection \<open>The client\<close>

lemma send_chunk_list_plays:
  assumes "dialogue send view"
  shows "view d = (acks (length cs) @ r # ins, outs)
    \<Longrightarrow> \<exists>d'. send_chunk_list send (cs @ [c]) ACK d = Some (d', Ok r) \<and> view d' = (ins, outs @ cs @ [c])"
proof (induction cs arbitrary: d outs)
  case Nil
  then show ?case using dialogueD [OF assms, of d r ins outs c] by (auto simp: acks_def)
next
  case (Cons a cs)
  obtain d1 where "send a d = Some (d1, Ok ACK)" "view d1 = (acks (length cs) @ r # ins, outs @ [a])"
    using dialogueD [OF assms, of d ACK _ outs a] Cons.prems by (auto simp: acks_def)
  then show ?case using Cons.IH [of d1 "outs @ [a]"] by simp
qed

lemma collect_response_plays:
  assumes "dialogue send view"
  shows "view d = (rs @ ins, outs) \<Longrightarrow> \<forall>r\<in>set rs. r \<noteq> [] \<Longrightarrow> length data + length (concat rs) = len
    \<Longrightarrow> \<exists>d'. collect_response send len data d = Some (d', Ok (data @ concat rs)) \<and> view d' = (ins, outs @ acks (length rs))"
proof (induction rs arbitrary: d outs data)
  case Nil
  then show ?case by (simp add: collect_response.simps [of send len data d] acks_def)
next
  case (Cons r rs)
  obtain d1 where d1: "send ACK d = Some (d1, Ok r)" "view d1 = (rs @ ins, outs @ [ACK])"
    using dialogueD [OF assms, of d r _ outs ACK] Cons.prems(1) by auto
  have "length data < len" using Cons.prems by (cases r) auto
  then have "collect_response send len data d = collect_response send len (data @ r) d1"
    using d1(1) by (simp add: collect_response.simps [of send len data d])
  then show ?case using Cons.IH [OF d1(2), of "data @ r"] Cons.prems(2,3) by (simp add: acks_def)
qed

lemma client_send_plays:
  assumes "dialogue send view" "length resp < 2 ^ 32"
    "view d = (acks (length (message_chunks msg) - 1) @ message_chunks resp @ ins, outs)"
  shows "\<exists>d'. client_send_message send msg d = Some (d', Ok resp) \<and>
    view d' = (ins, outs @ message_chunks msg @ acks (length (message_chunks resp) - 1))"
proof -
  obtain a b c e where pre: "u32_to_be_bytes (of_nat (length resp)) = [a, b, c, e]" by (simp add: u32_to_be_bytes_def)
  have len: "unat (u32_from_be_bytes a b c e) = length resp" using length_prefix [OF assms(2) pre] .
  let ?r = "[a, b, c, e] @ take 252 resp" and ?rs = "chunks 256 (drop 252 resp)"
  have resp: "message_chunks resp = ?r # ?rs" using message_chunks_eq pre by metis
  obtain cs x where msg: "message_chunks msg = cs @ [x]" by (metis message_chunks_eq append_butlast_last_id list.distinct(1))
  obtain d1 where d1: "send_chunk_list send (message_chunks msg) ACK d = Some (d1, Ok ?r)"
      "view d1 = (?rs @ ins, outs @ message_chunks msg)"
    using send_chunk_list_plays [OF assms(1), of d cs ?r "?rs @ ins" outs x] assms(3) by (auto simp: msg resp)
  have total: "length (take 252 resp) + length (concat ?rs) = length resp" by (simp add: chunks_concat)
  have "\<forall>r\<in>set ?rs. r \<noteq> []" using chunks_length by fastforce
  from collect_response_plays [OF assms(1) d1(2) this total] d1(1) len resp show ?thesis
    by (simp add: client_send_message_def message_chunks_def chunks_concat)
qed

text \<open>C5: (messages) A message and its answer are delivered. The V-App, to which the chunks of a message and then acknowledgements come,
  receives the message and sends an acknowledgement for each chunk but the last, then the chunks of its answer. The
  client, to which exactly this comes, sends exactly what the V-App received, and returns the answer. This holds for
  every length that leaves room for the prefix in 32 bits, with the device and the transport arbitrary.\<close>
theorem messages_delivered:
  assumes "conversation io view" "heap_has io (length msg)" "length msg < 2 ^ 32 - 4" "length resp < 2 ^ 32"
    "view d = (message_chunks msg @ acks (length (message_chunks resp) - 1), [])"
    "dialogue send seen" "seen c = (snd (view d2), [])"
    "bindS (receive_message io) (\<lambda>r. bindS (send_message io resp) (\<lambda>_. returnS r)) d = (d2, got)"
  shows "got = Ok (Ok msg) \<and> fst (view d2) = [] \<and>
    (\<exists>c2. client_send_message send msg c = Some (c2, Ok resp) \<and> seen c2 = ([], fst (view d)))"
proof -
  obtain d1 where d1: "receive_message io d = (d1, Ok (Ok msg))"
      "view d1 = (acks (length (message_chunks resp) - 1), acks (length (message_chunks msg) - 1))"
    using receive_message_plays [OF assms(1,5,2,3)] by auto
  obtain d3 where d3: "send_message io resp d1 = (d3, Ok ())"
      "view d3 = ([], acks (length (message_chunks msg) - 1) @ message_chunks resp)"
    using send_message_plays [OF assms(1), of d1 resp "[]"] d1(2) by auto
  have got: "got = Ok (Ok msg)" "d2 = d3" using assms(8) d1(1) d3(1) by (simp_all add: bindS_def returnS_def)
  then show ?thesis
    using client_send_plays [OF assms(6,4), of c msg "[]" "[]"] assms(5,7) d3(2) by simp
qed

text \<open>A V-App and a client that each have a list of what will come.\<close>

definition tape :: "(bytes list \<times> bytes list) comm_io" where
  "tape = \<lparr>io_xrecv = (\<lambda>n (ins, outs). case ins of
        [] \<Rightarrow> ((ins, outs), Err CallStopped)
      | c # rest \<Rightarrow> if length c \<le> n then ((rest, outs), Ok c) else ((ins, outs), Err CallStopped)),
     io_xsend = (\<lambda>c (ins, outs). ((ins, outs @ [c]), Ok ())), heap_has = (\<lambda>n. n < 65536)\<rparr>"

definition tape_transport :: "(bytes list \<times> bytes list, unit) transport" where
  "tape_transport c = (\<lambda>(ins, outs). case ins of [] \<Rightarrow> None | r # rest \<Rightarrow> Some ((rest, outs @ [c]), Ok r))"

theorem messages_delivered_witness:
  "\<exists>d2. bindS (receive_message tape) (\<lambda>r. bindS (send_message tape (replicate 600 9)) (\<lambda>_. returnS r))
      (message_chunks (replicate 300 7) @ acks (length (message_chunks (replicate 600 9)) - 1), []) = (d2, Ok (Ok (replicate 300 7))) \<and>
    (\<exists>c2. client_send_message tape_transport (replicate 300 7) (snd d2, []) = Some (c2, Ok (replicate 600 9)))"
proof -
  have conv: "conversation tape (\<lambda>d. d)" and talk: "dialogue tape_transport (\<lambda>d. d)"
    by (auto simp: conversation_def dialogue_def tape_def tape_transport_def)
  have heap: "heap_has tape (length (replicate 300 (7 :: u8)))" by (simp add: tape_def)
  obtain d2 got where run: "bindS (receive_message tape) (\<lambda>r. bindS (send_message tape (replicate 600 9)) (\<lambda>_. returnS r))
      (message_chunks (replicate 300 7) @ acks (length (message_chunks (replicate 600 9)) - 1), []) = (d2, got)"
    by fastforce
  from messages_delivered [OF conv heap _ _ refl talk refl run] run show ?thesis by fastforce
qed

end
