(* ===== verification/Sdk_Ux.thy ===== *)
theory Sdk_Ux
  imports Sdk_Comm Ux_Codec Auth
begin

text \<open>
  The display flows of the V-App library (\<open>app-sdk/src/ux.rs\<close>) and the pages and steps that
  \<open>app-sdk/build.rs\<close> lists for them. The calls of the VM are parameters. What is shown is the serialized
  form of a page or step (\<open>Ux_Codec\<close>); the property is about what has been on the screen when a flow approves.
\<close>

section \<open>Calls and events\<close>

text \<open>
  Reading the byte of an event as an \<open>Action\<close> is undefined if it is not one of its values. A ticker lets the tasks
  in the background run before it is handed on.
\<close>

record 'd ux_io = "'d comm_io" +
  io_show_page :: "bytes \<Rightarrow> ('d, vapp_stop, unit) stm"
  io_show_step :: "bytes \<Rightarrow> ('d, vapp_stop, unit) stm"
  io_get_event :: "('d, vapp_stop, u32 \<times> bytes) stm"
  io_get_device_property :: "u32 \<Rightarrow> ('d, vapp_stop, u32) stm"
  io_yield :: "('d, vapp_stop, unit) stm"

datatype Event = EvTicker | EvAction Action | EvUnknown bytes

definition Action_of :: "u8 \<Rightarrow> Action option" where
  "Action_of b = map_of [(0, Confirm), (1, Reject), (2, Quit), (3, Skip), (4, PreviousPage), (5, NextPage),
     (6, TitleBack), (7, TopRight)] b"

definition get_event :: "('d, 'z) ux_io_scheme \<Rightarrow> ('d, vapp_stop, Event) stm" where
  "get_event io =
     bindS (io_get_event io) (\<lambda>(event_code, event_data). case EventCode_from event_code of
         Ticker \<Rightarrow> bindS (io_yield io) (\<lambda>_. returnS EvTicker)
       | ActionEvent \<Rightarrow> (case Action_of (event_data ! 0) of
             None \<Rightarrow> throwS UndefinedBehaviour | Some a \<Rightarrow> returnS (EvAction a))
       | UnknownEvent \<Rightarrow> returnS (EvUnknown event_data))"

partial_function (option) wait_loop :: "('d, 'z) ux_io_scheme \<Rightarrow> u32 \<Rightarrow> u32 \<Rightarrow> 'd \<Rightarrow> ('d \<times> (vapp_stop, unit) result) option" where
  "wait_loop io n n_tickers d =
     (case get_event io d of
        (d1, Inl e) \<Rightarrow> Some (d1, Err e)
      | (d1, Inr ev) \<Rightarrow>
          if ev = EvTicker then
            if n_tickers + 1 \<ge> n then Some (d1, Ok ()) else wait_loop io n (n_tickers + 1) d1
          else wait_loop io n n_tickers d1)"

definition wait :: "('d, 'z) ux_io_scheme \<Rightarrow> u32 \<Rightarrow> ('d, vapp_stop, unit) stm" where
  "wait io n = or_spins (wait_loop io n 0)"

partial_function (option) get_action_loop :: "('d, 'z) ux_io_scheme \<Rightarrow> 'd \<Rightarrow> ('d \<times> (vapp_stop, Action) result) option" where
  "get_action_loop io d =
     (case get_event io d of
        (d1, Inl e) \<Rightarrow> Some (d1, Err e)
      | (d1, Inr ev) \<Rightarrow> (case ev of EvAction a \<Rightarrow> Some (d1, Ok a) | _ \<Rightarrow> get_action_loop io d1))"

declare wait_loop.simps [code] get_action_loop.simps [code]

definition get_action :: "('d, 'z) ux_io_scheme \<Rightarrow> ('d, vapp_stop, Action) stm" where
  "get_action io = or_spins (get_action_loop io)"

definition DEVICE_PROPERTY_ID :: u32 where
  "DEVICE_PROPERTY_ID = 1"

definition has_page_api :: "('d, 'z) ux_io_scheme \<Rightarrow> ('d, vapp_stop, bool) stm" where
  "has_page_api io =
     bindS (io_get_device_property io DEVICE_PROPERTY_ID) (\<lambda>p.
       if p = 0 \<or> p = 0x2c970060 \<or> p = 0x2c970070 \<or> p = 0x2c970080 then returnS True
       else if p = 0x2c970040 \<or> p = 0x2c970050 then returnS False
       else throwS (VappPanic ''Unsupported device''))"

section \<open>Pages and steps\<close>

text \<open>\<open>PAGE_MAKERS\<close> and \<open>STEP_MAKERS\<close>: the values whose serializations the generated functions show.\<close>

definition review_page :: "bool \<Rightarrow> u32 \<Rightarrow> u32 \<Rightarrow> PageContent \<Rightarrow> Page" where
  "review_page back_button active n body =
     GenericPage (Some \<lparr>active_page = active, nav_n_pages = n, skip_text = None,
         nav_info = NavWithButtons back_button True (Some (ascii ''Reject''))\<rparr>)
       \<lparr>pci_title = None, top_right_icon = IconNone, page_content = body\<rparr>"

definition page_review_pairs_intro :: "u32 \<Rightarrow> u32 \<Rightarrow> bytes \<Rightarrow> bytes \<Rightarrow> Page" where
  "page_review_pairs_intro active n intro_text intro_subtext = review_page False active n (TextSubtext intro_text intro_subtext)"

definition page_review_pairs_content :: "u32 \<Rightarrow> u32 \<Rightarrow> TagValue list \<Rightarrow> Page" where
  "page_review_pairs_content active n pairs = review_page True active n (TagValueList pairs)"

definition page_review_pairs_final_longpress :: "u32 \<Rightarrow> u32 \<Rightarrow> bytes \<Rightarrow> bytes \<Rightarrow> Page" where
  "page_review_pairs_final_longpress active n text button = review_page True active n (ConfirmationLongPress text button)"

definition page_review_pairs_final_confirmationbutton :: "u32 \<Rightarrow> u32 \<Rightarrow> bytes \<Rightarrow> bytes \<Rightarrow> Page" where
  "page_review_pairs_final_confirmationbutton active n text button = review_page True active n (ConfirmationButton text button)"

definition page_home_info :: "TagValue list \<Rightarrow> Page" where
  "page_home_info pairs =
     GenericPage (Some \<lparr>active_page = 0, nav_n_pages = 1, skip_text = None,
         nav_info = NavWithButtons True False (Some (ascii ''<- Back''))\<rparr>)
       \<lparr>pci_title = None, top_right_icon = IconNone, page_content = TagValueList pairs\<rparr>"

definition page_dashboard :: Page where
  "page_dashboard = GenericPage None
     \<lparr>pci_title = None, top_right_icon = IconNone, page_content = TextSubtext (ascii ''Application'') (ascii ''is ready'')\<rparr>"

definition REGULAR_INFO :: u8 where "REGULAR_INFO = 0"
definition BOLD_TEXT1_INFO :: u8 where "BOLD_TEXT1_INFO = 1"

definition step_text_subtext :: "u8 \<Rightarrow> bytes \<Rightarrow> bytes \<Rightarrow> Step" where
  "step_text_subtext pos text subtext = StepTextSubtext pos text subtext REGULAR_INFO"

definition step_btext_subtext :: "u8 \<Rightarrow> bytes \<Rightarrow> bytes \<Rightarrow> Step" where
  "step_btext_subtext pos text subtext = StepTextSubtext pos text subtext BOLD_TEXT1_INFO"

definition step_centered_info_nosubtext :: "u8 \<Rightarrow> bytes \<Rightarrow> Icon \<Rightarrow> Step" where
  "step_centered_info_nosubtext pos text icon = CenteredInfo pos (Some text) None icon BOLD_TEXT1_INFO"

definition step_info_single :: "bytes \<Rightarrow> Step" where
  "step_info_single text = step_centered_info_nosubtext 0 text IconNone"

definition step_confirm :: "u8 \<Rightarrow> Step" where
  "step_confirm pos = step_centered_info_nosubtext pos (ascii ''Confirm'') IconConfirm"

definition step_reject :: "u8 \<Rightarrow> Step" where
  "step_reject pos = step_centered_info_nosubtext pos (ascii ''Reject'') IconReject"

definition step_spinner :: "bytes \<Rightarrow> Step" where
  "step_spinner text = step_centered_info_nosubtext 0 text IconProcessing"

definition show_page :: "('d, 'z) ux_io_scheme \<Rightarrow> Page \<Rightarrow> ('d, vapp_stop, unit) stm" where
  "show_page io p = (case Page_serialize p of None \<Rightarrow> throwS (VappPanic ''serialize'') | Some raw \<Rightarrow> io_show_page io raw)"

definition show_step :: "('d, 'z) ux_io_scheme \<Rightarrow> Step \<Rightarrow> ('d, vapp_stop, unit) stm" where
  "show_step io s = (case Step_serialize s of None \<Rightarrow> throwS (VappPanic ''serialize'') | Some raw \<Rightarrow> io_show_step io raw)"

text \<open>Bit 1: an arrow to the left, bit 0: an arrow to the right.\<close>

definition step_pos :: "u32 \<Rightarrow> u32 \<Rightarrow> u8" where
  "step_pos n_steps cur_step =
     (let has_left_arrow = (if cur_step > 0 then 1 else 0 :: u8);
          has_right_arrow = (if cur_step + 1 < n_steps then 1 else 0 :: u8)
      in push_bit 1 has_left_arrow OR has_right_arrow)"

section \<open>Packing pairs into pages\<close>

record PageLayoutMetrics =
  tag_chars_per_line :: nat
  tag_line_height_px :: u32
  value_chars_per_line :: nat
  value_line_height_px :: u32
  pair_padding_px :: u32
  content_height_px :: u32

definition get_page_layout_metrics :: "('d, 'z) ux_io_scheme \<Rightarrow> ('d, vapp_stop, PageLayoutMetrics) stm" where
  "get_page_layout_metrics io =
     bindS (io_get_device_property io DEVICE_PROPERTY_ID) (\<lambda>p.
       if p = 0 \<or> p = 0x2c970060 then returnS
         \<lparr>tag_chars_per_line = 20, tag_line_height_px = 28, value_chars_per_line = 17, value_line_height_px = 40,
          pair_padding_px = 20, content_height_px = 448\<rparr>
       else if p = 0x2c970070 then returnS
         \<lparr>tag_chars_per_line = 20, tag_line_height_px = 32, value_chars_per_line = 17, value_line_height_px = 40,
          pair_padding_px = 20, content_height_px = 376\<rparr>
       else if p = 0x2c970080 then returnS
         \<lparr>tag_chars_per_line = 25, tag_line_height_px = 18, value_chars_per_line = 17, value_line_height_px = 28,
          pair_padding_px = 16, content_height_px = 264\<rparr>
       else throwS (VappPanic ''Unsupported device''))"

definition estimate_pair_height :: "PageLayoutMetrics \<Rightarrow> TagValue \<Rightarrow> u32" where
  "estimate_pair_height metrics pair =
     (let tag_lines = of_nat (max 1 ((length (tv_tag pair) + tag_chars_per_line metrics - 1) div tag_chars_per_line metrics));
          value_lines = of_nat (max 1 ((length (tv_value pair) + value_chars_per_line metrics - 1) div value_chars_per_line metrics))
      in tag_lines * tag_line_height_px metrics + value_lines * value_line_height_px metrics + pair_padding_px metrics)"

text \<open>The end of the page that has pairs from \<open>start\<close> to \<open>end\<close> so far.\<close>

function page_end :: "PageLayoutMetrics \<Rightarrow> TagValue list \<Rightarrow> nat \<Rightarrow> u32 \<Rightarrow> nat" where
  "page_end metrics pairs e height =
     (if e < length pairs then
        let next_height = estimate_pair_height metrics (pairs ! e) in
        if height + next_height > content_height_px metrics then e
        else page_end metrics pairs (e + 1) (height + next_height)
      else e)"
  by pat_completeness auto
termination
  by (relation "measure (\<lambda>(metrics, pairs, e, height). length pairs - e)") auto

declare page_end.simps [simp del]

lemma page_end_ge: "e \<le> page_end metrics pairs e height"
proof (induction metrics pairs e height rule: page_end.induct)
  case (1 metrics pairs e height)
  then show ?case by (subst page_end.simps) (fastforce simp: Let_def)
qed

lemma page_end_le: "e \<le> length pairs \<Longrightarrow> page_end metrics pairs e height \<le> length pairs"
proof (induction metrics pairs e height rule: page_end.induct)
  case (1 metrics pairs e height)
  then show ?case by (subst page_end.simps) (simp add: Let_def)
qed

function pair_page_ranges :: "PageLayoutMetrics \<Rightarrow> TagValue list \<Rightarrow> nat \<Rightarrow> (nat \<times> nat) list" where
  "pair_page_ranges metrics pairs start =
     (if start < length pairs then
        let e = page_end metrics pairs (start + 1) (estimate_pair_height metrics (pairs ! start))
        in (start, e) # pair_page_ranges metrics pairs e
      else [])"
  by pat_completeness auto
termination
proof (relation "measure (\<lambda>(metrics, pairs, start). length pairs - start)", goal_cases)
  case (2 metrics pairs start e)
  then show ?case
    using page_end_ge [of "start + 1" metrics pairs "estimate_pair_height metrics (pairs ! start)"] by simp
qed simp

declare pair_page_ranges.simps [simp del]

definition compute_pair_page_ranges :: "PageLayoutMetrics \<Rightarrow> TagValue list \<Rightarrow> (nat \<times> nat) list" where
  "compute_pair_page_ranges metrics pairs = pair_page_ranges metrics pairs 0"

lemma length_concat_nonempty: "\<forall>x\<in>set xs. f x \<noteq> [] \<Longrightarrow> length xs \<le> length (concat (map f xs))"
proof (induction xs)
  case (Cons x xs)
  then have "1 \<le> length (f x)" by (simp add: Suc_le_eq)
  with Cons show ?case by (simp del: length_greater_0_conv One_nat_def)
qed simp

text \<open>The pages have all pairs, in order, and none is empty.\<close>

definition range_of :: "TagValue list \<Rightarrow> nat \<times> nat \<Rightarrow> TagValue list" where
  "range_of pairs r = take (snd r - fst r) (drop (fst r) pairs)"

lemma pair_page_ranges_partition:
  "concat (map (range_of pairs) (pair_page_ranges metrics pairs start)) = drop start pairs \<and>
   (\<forall>r\<in>set (pair_page_ranges metrics pairs start). range_of pairs r \<noteq> [])"
proof (induction metrics pairs start rule: pair_page_ranges.induct)
  case (1 metrics pairs start)
  show ?case
  proof (cases "start < length pairs")
    case True
    define e where "e = page_end metrics pairs (start + 1) (estimate_pair_height metrics (pairs ! start))"
    have e: "start < e" "e \<le> length pairs"
      unfolding e_def using page_end_ge [of "start + 1"] page_end_le [of "start + 1" pairs] True by (auto simp: Suc_le_eq)
    have "range_of pairs (start, e) @ drop e pairs = drop start pairs"
      using e append_take_drop_id [of "e - start" "drop start pairs"] by (simp add: range_of_def)
    moreover have "range_of pairs (start, e) \<noteq> []" using e by (simp add: range_of_def)
    moreover have "pair_page_ranges metrics pairs start = (start, e) # pair_page_ranges metrics pairs e"
      using True by (subst pair_page_ranges.simps) (simp add: Let_def e_def)
    ultimately show ?thesis using 1 [OF True e_def] by simp
  qed (simp add: pair_page_ranges.simps)
qed

section \<open>The review of pairs\<close>

text \<open>
  What the inner loops make of an event: go to another page or step (\<open>Inl\<close>), answer (\<open>Inr\<close>), or wait for the next
  event (\<^const>\<open>None\<close>).
\<close>

definition page_move :: "nat \<Rightarrow> nat \<Rightarrow> Event \<Rightarrow> (nat + bool) option" where
  "page_move active n ev = (case ev of
     EvAction PreviousPage \<Rightarrow> if active > 0 then Some (Inl (active - 1)) else None
   | EvAction NextPage \<Rightarrow> if active + 1 < n then Some (Inl (active + 1)) else None
   | EvAction Quit \<Rightarrow> Some (Inr False)
   | EvAction Confirm \<Rightarrow> Some (Inr True)
   | _ \<Rightarrow> None)"

definition step_move :: "u32 \<Rightarrow> u32 \<Rightarrow> Event \<Rightarrow> (u32 + bool) option" where
  "step_move n_pair_steps cur_step ev = (case ev of
     EvAction action \<Rightarrow>
       if action = NextPage \<and> cur_step < 3 + n_pair_steps - 1 then Some (Inl (cur_step + 1))
       else if action = PreviousPage \<and> cur_step > 0 then Some (Inl (cur_step - 1))
       else if action = Confirm then
         if cur_step = n_pair_steps + 1 then Some (Inr True)
         else if cur_step = n_pair_steps + 2 then Some (Inr False) else None
       else None
   | _ \<Rightarrow> None)"

partial_function (option) event_loop ::
  "('d, 'z) ux_io_scheme \<Rightarrow> (Event \<Rightarrow> 'a option) \<Rightarrow> 'd \<Rightarrow> ('d \<times> (vapp_stop, 'a) result) option" where
  "event_loop io f d =
     (case get_event io d of
        (d1, Inl e) \<Rightarrow> Some (d1, Err e)
      | (d1, Inr ev) \<Rightarrow> (case f ev of Some a \<Rightarrow> Some (d1, Ok a) | None \<Rightarrow> event_loop io f d1))"

declare event_loop.simps [code]

definition make_page :: "Page \<Rightarrow> ('d, vapp_stop, bytes) stm" where
  "make_page p = (case Page_serialize p of None \<Rightarrow> throwS (VappPanic ''serialize'') | Some raw \<Rightarrow> returnS raw)"

text \<open>\<open>next_page i\<close> is the page with the index \<open>i\<close>. A page is made after the one before it has been shown.\<close>

definition page_turn ::
  "('d, 'z) ux_io_scheme \<Rightarrow> (nat \<Rightarrow> Page) \<Rightarrow> nat \<Rightarrow> nat \<Rightarrow> bytes list \<Rightarrow> ('d, vapp_stop, bytes list \<times> (nat + bool)) stm" where
  "page_turn io next_page n active pages =
     bindS (if active < length pages then io_show_page io (pages ! active) else throwS (VappPanic ''index out of bounds'')) (\<lambda>_.
     bindS (if active + 1 < n \<and> length pages = active + 1
            then bindS (make_page (next_page (active + 1))) (\<lambda>p. returnS (pages @ [p]))
            else returnS pages) (\<lambda>pages.
     bindS (or_spins (event_loop io (page_move active n))) (\<lambda>move. returnS (pages, move))))"

partial_function (option) page_review_loop ::
  "('d, 'z) ux_io_scheme \<Rightarrow> (nat \<Rightarrow> Page) \<Rightarrow> nat \<Rightarrow> nat \<Rightarrow> bytes list \<Rightarrow> 'd \<Rightarrow> ('d \<times> (vapp_stop, bool) result) option" where
  "page_review_loop io next_page n active pages d =
     (case page_turn io next_page n active pages d of
        (d1, Inl e) \<Rightarrow> Some (d1, Err e)
      | (d1, Inr (pages1, Inr answer)) \<Rightarrow> Some (d1, Ok answer)
      | (d1, Inr (pages1, Inl active1)) \<Rightarrow> page_review_loop io next_page n active1 pages1 d1)"

declare page_review_loop.simps [code]

definition review_pages ::
  "PageLayoutMetrics \<Rightarrow> bytes \<Rightarrow> bytes \<Rightarrow> TagValue list \<Rightarrow> bytes \<Rightarrow> bytes \<Rightarrow> bool \<Rightarrow> nat \<Rightarrow> nat \<Rightarrow> Page" where
  "review_pages metrics intro_text intro_subtext pairs final_text final_button_text long_press n i =
     (if i = 0 then page_review_pairs_intro 0 (of_nat n) intro_text intro_subtext
      else if i = n - 1 then
        (if long_press then page_review_pairs_final_longpress (of_nat i) (of_nat n) final_text final_button_text
         else page_review_pairs_final_confirmationbutton (of_nat i) (of_nat n) final_text final_button_text)
      else page_review_pairs_content (of_nat i) (of_nat n)
        (range_of pairs (compute_pair_page_ranges metrics pairs ! (i - 1))))"

definition page_review_pairs ::
  "('d, 'z) ux_io_scheme \<Rightarrow> bytes \<Rightarrow> bytes \<Rightarrow> TagValue list \<Rightarrow> bytes \<Rightarrow> bytes \<Rightarrow> bool \<Rightarrow> ('d, vapp_stop, bool) stm" where
  "page_review_pairs io intro_text intro_subtext pairs final_text final_button_text long_press =
     bindS (get_page_layout_metrics io) (\<lambda>metrics.
       let n_pages = unat (2 + of_nat (length (compute_pair_page_ranges metrics pairs)) :: u32);
           pages = review_pages metrics intro_text intro_subtext pairs final_text final_button_text long_press n_pages
       in bindS (make_page (pages 0)) (\<lambda>p. or_spins (page_review_loop io pages n_pages 0 [p])))"

definition review_step :: "bytes \<Rightarrow> bytes \<Rightarrow> TagValue list \<Rightarrow> bytes \<Rightarrow> u32 \<Rightarrow> Step option" where
  "review_step intro_text intro_subtext pairs final_button_text cur_step =
     (let n_pair_steps = of_nat (length pairs); n_steps = 3 + n_pair_steps; pos = step_pos n_steps cur_step in
      if cur_step = 0 then Some (step_text_subtext (step_pos n_steps 0) intro_text intro_subtext)
      else if cur_step \<ge> 1 \<and> cur_step \<le> n_pair_steps then
        (let pair = pairs ! unat (cur_step - 1) in Some (step_text_subtext pos (tv_tag pair) (tv_value pair)))
      else if cur_step = n_pair_steps + 1 then Some (step_centered_info_nosubtext pos final_button_text IconConfirm)
      else if cur_step = n_pair_steps + 2 then Some (step_reject pos)
      else None)"

definition step_turn :: "('d, 'z) ux_io_scheme \<Rightarrow> Step option \<Rightarrow> (Event \<Rightarrow> (u32 + bool) option) \<Rightarrow> ('d, vapp_stop, u32 + bool) stm" where
  "step_turn io s f =
     bindS (case s of None \<Rightarrow> throwS (VappPanic ''Invalid step'') | Some s \<Rightarrow> show_step io s) (\<lambda>_. or_spins (event_loop io f))"

text \<open>The loop of both step flows.\<close>

partial_function (option) step_flow ::
  "('d, 'z) ux_io_scheme \<Rightarrow> (u32 \<Rightarrow> Step option) \<Rightarrow> (u32 \<Rightarrow> Event \<Rightarrow> (u32 + bool) option) \<Rightarrow> u32 \<Rightarrow> 'd \<Rightarrow>
   ('d \<times> (vapp_stop, bool) result) option" where
  "step_flow io steps move cur_step d =
     (case step_turn io (steps cur_step) (move cur_step) d of
        (d1, Inl e) \<Rightarrow> Some (d1, Err e)
      | (d1, Inr (Inr answer)) \<Rightarrow> Some (d1, Ok answer)
      | (d1, Inr (Inl cur_step1)) \<Rightarrow> step_flow io steps move cur_step1 d1)"

declare step_flow.simps [code]

definition step_review_pairs ::
  "('d, 'z) ux_io_scheme \<Rightarrow> bytes \<Rightarrow> bytes \<Rightarrow> TagValue list \<Rightarrow> bytes \<Rightarrow> ('d, vapp_stop, bool) stm" where
  "step_review_pairs io intro_text intro_subtext pairs final_button_text =
     or_spins (step_flow io (review_step intro_text intro_subtext pairs final_button_text) (step_move (of_nat (length pairs))) 0)"

definition review_pairs ::
  "('d, 'z) ux_io_scheme \<Rightarrow> bytes \<Rightarrow> bytes \<Rightarrow> TagValue list \<Rightarrow> bytes \<Rightarrow> bytes \<Rightarrow> bool \<Rightarrow> ('d, vapp_stop, bool) stm" where
  "review_pairs io intro_text intro_subtext pairs final_text final_button_text long_press =
     bindS (has_page_api io) (\<lambda>page_api.
       if page_api then page_review_pairs io intro_text intro_subtext pairs final_text final_button_text long_press
       else step_review_pairs io intro_text intro_subtext pairs final_button_text)"

section \<open>The other flows\<close>

definition show_spinner :: "('d, 'z) ux_io_scheme \<Rightarrow> bytes \<Rightarrow> ('d, vapp_stop, unit) stm" where
  "show_spinner io text =
     bindS (has_page_api io) (\<lambda>page_api.
       if page_api then show_page io (Spinner text) else show_step io (step_spinner text))"

definition show_info_screen :: "('d, 'z) ux_io_scheme \<Rightarrow> Icon \<Rightarrow> bytes \<Rightarrow> ('d, vapp_stop, unit) stm" where
  "show_info_screen io icon text =
     bindS (has_page_api io) (\<lambda>page_api.
       if page_api then show_page io (Info icon text) else show_step io (step_info_single text))"

definition show_info :: "('d, 'z) ux_io_scheme \<Rightarrow> Icon \<Rightarrow> bytes \<Rightarrow> ('d, vapp_stop, unit) stm" where
  "show_info io icon text = bindS (show_info_screen io icon text) (\<lambda>_. wait io 20)"

definition confirm_event :: "Event \<Rightarrow> bool option" where
  "confirm_event ev = (case ev of
     EvAction Reject \<Rightarrow> Some False | EvAction Confirm \<Rightarrow> Some True | _ \<Rightarrow> None)"

definition confirm_step :: "bytes \<Rightarrow> bytes \<Rightarrow> u32 \<Rightarrow> Step option" where
  "confirm_step title text cur_step =
     (if cur_step = 0 then Some (step_text_subtext (step_pos 3 cur_step) title text)
      else if cur_step = 1 then Some (step_confirm (step_pos 3 cur_step))
      else if cur_step = 2 then Some (step_reject (step_pos 3 cur_step))
      else None)"

definition confirm_move :: "u32 \<Rightarrow> Event \<Rightarrow> (u32 + bool) option" where
  "confirm_move cur_step ev = (case ev of
     EvAction action \<Rightarrow>
       if action = NextPage \<and> cur_step < 3 - 1 then Some (Inl (cur_step + 1))
       else if action = PreviousPage \<and> cur_step > 0 then Some (Inl (cur_step - 1))
       else if action = Confirm then
         if cur_step = 1 then Some (Inr True) else if cur_step = 2 then Some (Inr False) else None
       else None
   | _ \<Rightarrow> None)"

definition show_confirm_reject :: "('d, 'z) ux_io_scheme \<Rightarrow> bytes \<Rightarrow> bytes \<Rightarrow> bytes \<Rightarrow> bytes \<Rightarrow> ('d, vapp_stop, bool) stm" where
  "show_confirm_reject io title text confirm reject =
     bindS (has_page_api io) (\<lambda>page_api.
       if page_api then bindS (show_page io (ConfirmReject title text confirm reject)) (\<lambda>_. or_spins (event_loop io confirm_event))
       else or_spins (step_flow io (confirm_step title text) confirm_move 0))"

definition ux_idle :: "('d, 'z) ux_io_scheme \<Rightarrow> ('d, vapp_stop, unit) stm" where
  "ux_idle io =
     bindS (has_page_api io) (\<lambda>page_api.
       if page_api then show_page io page_dashboard
       else show_step io (step_text_subtext 0 (ascii ''Application'') (ascii ''is ready'')))"

section \<open>What has been on the screen\<close>

text \<open>
  \<open>shown\<close> is what has been shown and \<open>screen\<close> what is on the screen now; events and tasks in the background do not
  change the screen.
\<close>

definition tracks :: "('d, 'z) ux_io_scheme \<Rightarrow> ('d \<Rightarrow> bytes set) \<Rightarrow> ('d \<Rightarrow> bytes) \<Rightarrow> bool" where
  "tracks io shown screen \<longleftrightarrow>
     (\<forall>raw d d'. io_show_page io raw d = (d', Ok ()) \<or> io_show_step io raw d = (d', Ok ()) \<longrightarrow>
        insert raw (shown d) \<subseteq> shown d' \<and> screen d' = raw) \<and>
     (\<forall>d d' x. io_get_event io d = (d', Ok x) \<longrightarrow> shown d \<subseteq> shown d' \<and> screen d' = screen d) \<and>
     (\<forall>d d'. io_yield io d = (d', Ok ()) \<longrightarrow> shown d \<subseteq> shown d' \<and> screen d' = screen d) \<and>
     (\<forall>d d' i x. io_get_device_property io i d = (d', Ok x) \<longrightarrow> shown d \<subseteq> shown d' \<and> screen d' = screen d)"

text \<open>On a page of a review the user can confirm only where there is a button for it.\<close>

definition confirm_needs_button :: "('d, 'z) ux_io_scheme \<Rightarrow> ('d \<Rightarrow> bytes) \<Rightarrow> bool" where
  "confirm_needs_button io screen \<longleftrightarrow>
     (\<forall>d d' event_code event_data back_button i n body.
        io_get_event io d = (d', Ok (event_code, event_data)) \<longrightarrow> EventCode_from event_code = ActionEvent \<longrightarrow>
        Action_of (event_data ! 0) = Some Confirm \<longrightarrow> Page_serialize (review_page back_button i n body) = Some (screen d) \<longrightarrow>
        (\<exists>t b. body = ConfirmationButton t b \<or> body = ConfirmationLongPress t b))"

lemma get_event_Ok:
  assumes "tracks io shown screen" "get_event io d = (d', Ok ev)"
  shows "shown d \<subseteq> shown d'" "screen d' = screen d"
    "ev = EvAction a \<Longrightarrow> \<exists>event_code event_data. io_get_event io d = (d', Ok (event_code, event_data)) \<and>
       EventCode_from event_code = ActionEvent \<and> Action_of (event_data ! 0) = Some a"
proof -
  obtain d1 event_code event_data where g: "io_get_event io d = (d1, Ok (event_code, event_data))"
    using assms(2) by (auto simp: get_event_def bindS_Ok_iff)
  then have 1: "shown d \<subseteq> shown d1 \<and> screen d1 = screen d" using assms(1) unfolding tracks_def by blast
  have "(\<exists>u. io_yield io d1 = (d', Ok u)) \<or> d' = d1"
    using assms(2) g by (auto simp: get_event_def bindS_Ok_iff split: EventCode.splits option.splits)
  then have "shown d1 \<subseteq> shown d' \<and> screen d' = screen d1" using assms(1) unfolding tracks_def by fastforce
  with 1 show "shown d \<subseteq> shown d'" "screen d' = screen d" by auto
  show "\<exists>event_code event_data. io_get_event io d = (d', Ok (event_code, event_data)) \<and>
       EventCode_from event_code = ActionEvent \<and> Action_of (event_data ! 0) = Some a" if "ev = EvAction a"
    using assms(2) g that by (auto simp: get_event_def bindS_Ok_iff split: EventCode.splits option.splits)
qed

text \<open>The loop for events ends with an event that decides, and the screen has not changed.\<close>

lemma event_loop_Ok:
  assumes tr: "tracks io shown screen" and "or_spins (event_loop io f) d = (d', Ok a)"
  obtains d1 ev where "get_event io d1 = (d', Ok ev)" "f ev = Some a" "shown d \<subseteq> shown d'" "screen d1 = screen d" "screen d' = screen d"
proof -
  have "tracks io shown screen \<longrightarrow> (\<forall>d' a. out = (d', Ok a) \<longrightarrow> (\<exists>d1 ev. get_event io d1 = (d', Ok ev) \<and> f ev = Some a \<and>
      shown d \<subseteq> shown d' \<and> screen d1 = screen d \<and> screen d' = screen d))" if "event_loop io f d = Some out" for out
  proof (rule event_loop.raw_induct [OF _ that], intro impI allI, goal_cases)
    case (1 loop io f d out d' a)
    obtain d1 r where g: "get_event io d = (d1, r)" by fastforce
    show ?case
    proof (cases r)
      case (Inl e)
      then show ?thesis using 1(2,4) g by simp
    next
      case (Inr ev)
      note ev = get_event_Ok(1,2) [OF 1(3) g [unfolded Inr]]
      show ?thesis
      proof (cases "f ev")
        case None
        then have "loop io f d1 = Some out" using 1(2) g Inr by simp
        from 1(1) [OF this] 1(3,4) ev show ?thesis by fastforce
      next
        case (Some b)
        then show ?thesis using 1(2,4) g Inr ev by (intro exI [of _ d] exI [of _ ev]) simp
      qed
    qed
  qed
  then show thesis using assms that by (fastforce simp: or_spins_def split: option.splits)
qed


text \<open>A step flow that goes one step at a time has shown all steps up to the one where it ends.\<close>

definition step_shown :: "(u32 \<Rightarrow> Step option) \<Rightarrow> bytes set \<Rightarrow> u32 \<Rightarrow> bool" where
  "step_shown steps S k \<longleftrightarrow> (\<exists>s raw. steps k = Some s \<and> Step_serialize s = Some raw \<and> raw \<in> S)"

lemma step_turn_Ok:
  assumes tr: "tracks io shown screen" and run: "step_turn io s f d = (d', Ok r)"
  shows "\<exists>x raw ev. s = Some x \<and> Step_serialize x = Some raw \<and> insert raw (shown d) \<subseteq> shown d' \<and> f ev = Some r"
proof -
  obtain x raw d1 where x: "s = Some x" "Step_serialize x = Some raw" "io_show_step io raw d = (d1, Ok ())"
    and loop: "or_spins (event_loop io f) d1 = (d', Ok r)"
    using run by (auto simp: step_turn_def show_step_def bindS_Ok_iff split: option.splits)
  have "insert raw (shown d) \<subseteq> shown d1" using tr x(3) unfolding tracks_def by blast
  moreover obtain ev where "f ev = Some r" "shown d1 \<subseteq> shown d'" using event_loop_Ok [OF tr loop] by metis
  ultimately show ?thesis using x by blast
qed

lemma step_flow_Ok:
  assumes tr: "tracks io shown screen" and run: "or_spins (step_flow io steps move c) d = (d', Ok answer)"
    and one: "\<And>c ev c'. move c ev = Some (Inl c') \<Longrightarrow> unat c' \<le> unat c + 1"
    and before: "\<forall>k. unat k < unat c \<longrightarrow> step_shown steps (shown d) k"
  obtains last ev where "move last ev = Some (Inr answer)" "\<forall>k. unat k \<le> unat last \<longrightarrow> step_shown steps (shown d') k"
proof -
  have "tracks io shown screen \<longrightarrow> (\<forall>c ev c'. move c ev = Some (Inl c') \<longrightarrow> unat c' \<le> unat c + 1) \<longrightarrow>
      (\<forall>k. unat k < unat c \<longrightarrow> step_shown steps (shown d) k) \<longrightarrow>
      (\<forall>d' answer. out = (d', Ok answer) \<longrightarrow> (\<exists>last ev. move last ev = Some (Inr answer) \<and>
        (\<forall>k. unat k \<le> unat last \<longrightarrow> step_shown steps (shown d') k)))"
    if "step_flow io steps move c d = Some out" for out
  proof (rule step_flow.raw_induct [OF _ that], intro impI allI, goal_cases)
    case (1 loop io steps move c d out d' answer)
    obtain d1 r where t: "step_turn io (steps c) (move c) d = (d1, r)" by fastforce
    show ?case
    proof (cases r)
      case (Inl e)
      then show ?thesis using 1(2,6) t by simp
    next
      case (Inr m)
      obtain x raw ev where x: "steps c = Some x" "Step_serialize x = Some raw" "insert raw (shown d) \<subseteq> shown d1" "move c ev = Some m"
        using step_turn_Ok [OF 1(3) t [unfolded Inr]] by blast
      have upto: "step_shown steps (shown d1) k" if "unat k \<le> unat c" for k
      proof (cases "k = c")
        case True
        then show ?thesis using x by (auto simp: step_shown_def)
      next
        case False
        then have "unat k < unat c" using that by (simp add: le_neq_implies_less word_unat_eq_iff)
        then have "step_shown steps (shown d) k" using 1(5) by blast
        then show ?thesis using x(3) by (auto simp: step_shown_def)
      qed
      show ?thesis
      proof (cases m)
        case (Inl c')
        then have "unat c' \<le> unat c + 1" using 1(4) x(4) by blast
        then have "\<forall>k. unat k < unat c' \<longrightarrow> step_shown steps (shown d1) k" using upto by simp
        moreover have "loop io steps move c' d1 = Some out" using 1(2) t Inr Inl by simp
        ultimately show ?thesis using 1(1,3,4,6) by blast
      next
        case ans: (Inr b)
        then have "out = (d1, Ok b)" using 1(2) t Inr by simp
        then show ?thesis using 1(6) x(4) ans upto by blast
      qed
    qed
  qed
  then show thesis using assms that by (fastforce simp: or_spins_def split: option.splits)
qed

lemma unat_step: "unat (c + 1 :: u32) \<le> unat c + 1" "0 < c \<Longrightarrow> unat (c - 1 :: u32) \<le> unat c + 1"
proof -
  show "unat (c + 1 :: u32) \<le> unat c + 1" by (simp add: unat_word_ariths)
  show "unat (c - 1 :: u32) \<le> unat c + 1" if "0 < c"
  proof -
    have "1 \<le> c" using that by (simp add: word_less_nat_alt word_le_nat_alt Suc_le_eq)
    then show ?thesis by (simp add: unat_sub)
  qed
qed

lemma step_move_one: "step_move n c ev = Some (Inl c') \<Longrightarrow> unat c' \<le> unat c + 1"
  using unat_step [of c] by (auto simp: step_move_def split: Event.splits if_splits)

lemma page_move_one: "page_move a n ev = Some (Inl a') \<Longrightarrow> a' \<le> a + 1 \<and> (a < n \<longrightarrow> a' < n)"
  by (auto simp: page_move_def split: Event.splits Action.splits if_splits)

text \<open>A page flow, too, and it has shown all pages up to the one on which it ends.\<close>

lemma page_turn_Ok:
  assumes tr: "tracks io shown screen" and run: "page_turn io next_page n active pages d = (d', Ok (pages', r))"
    and made: "\<forall>k<length pages. Page_serialize (next_page k) = Some (pages ! k)" and a: "active < length pages"
  shows "insert (pages ! active) (shown d) \<subseteq> shown d'"
    "\<forall>k<length pages'. Page_serialize (next_page k) = Some (pages' ! k)" "length pages \<le> length pages'"
    "active + 1 < n \<Longrightarrow> active + 1 < length pages'"
    "\<exists>d1 ev. get_event io d1 = (d', Ok ev) \<and> page_move active n ev = Some r \<and> screen d1 = pages ! active"
    "\<forall>k<length pages. pages' ! k = pages ! k"
proof -
  obtain d1 d2 where sh: "io_show_page io (pages ! active) d = (d1, Ok ())"
    and make: "(if active + 1 < n \<and> length pages = active + 1
            then bindS (make_page (next_page (active + 1))) (\<lambda>p. returnS (pages @ [p])) else returnS pages) d1 = (d2, Ok pages')"
    and loop: "or_spins (event_loop io (page_move active n)) d2 = (d', Ok r)"
    using run a by (auto simp: page_turn_def bindS_Ok_iff)
  have 1: "insert (pages ! active) (shown d) \<subseteq> shown d1" "screen d1 = pages ! active" using tr sh unfolding tracks_def by blast+
  have 2: "d2 = d1" and p: "pages' = pages \<and> \<not> (active + 1 < n \<and> length pages = active + 1) \<or>
      (\<exists>raw. Page_serialize (next_page (active + 1)) = Some raw \<and> pages' = pages @ [raw] \<and> length pages = active + 1)"
    using make by (auto simp: make_page_def bindS_Ok_iff split: if_splits option.splits)
  obtain d3 ev where e: "get_event io d3 = (d', Ok ev)" "page_move active n ev = Some r" "shown d2 \<subseteq> shown d'" "screen d3 = screen d2"
    using event_loop_Ok [OF tr loop] by metis
  show "insert (pages ! active) (shown d) \<subseteq> shown d'" using 1 2 e(3) by auto
  show "\<forall>k<length pages'. Page_serialize (next_page k) = Some (pages' ! k)"
    using p made by (auto simp: nth_append less_Suc_eq)
  show "length pages \<le> length pages'" "active + 1 < n \<Longrightarrow> active + 1 < length pages'" "\<forall>k<length pages. pages' ! k = pages ! k"
    using p a by (auto simp: nth_append)
  show "\<exists>d1 ev. get_event io d1 = (d', Ok ev) \<and> page_move active n ev = Some r \<and> screen d1 = pages ! active"
    using e 1(2) 2 by auto
qed

definition page_shown :: "(nat \<Rightarrow> Page) \<Rightarrow> bytes set \<Rightarrow> nat \<Rightarrow> bool" where
  "page_shown pages S k \<longleftrightarrow> (\<exists>raw. Page_serialize (pages k) = Some raw \<and> raw \<in> S)"

lemma page_review_Ok:
  assumes tr: "tracks io shown screen" and run: "or_spins (page_review_loop io next_page n active pages) d = (d', Ok answer)"
    and "\<forall>k<length pages. Page_serialize (next_page k) = Some (pages ! k)" "active < length pages" "active < n"
    and before: "\<forall>k<active. page_shown next_page (shown d) k"
  obtains last d1 ev where "last < n" "get_event io d1 = (d', Ok ev)" "page_move last n ev = Some (Inr answer)"
    "Page_serialize (next_page last) = Some (screen d1)" "\<forall>k\<le>last. page_shown next_page (shown d') k"
proof -
  have "tracks io shown screen \<longrightarrow> (\<forall>k<length pages. Page_serialize (next_page k) = Some (pages ! k)) \<longrightarrow>
      active < length pages \<longrightarrow> active < n \<longrightarrow> (\<forall>k<active. page_shown next_page (shown d) k) \<longrightarrow>
      (\<forall>d' answer. out = (d', Ok answer) \<longrightarrow> (\<exists>last d1 ev. last < n \<and> get_event io d1 = (d', Ok ev) \<and>
        page_move last n ev = Some (Inr answer) \<and> Page_serialize (next_page last) = Some (screen d1) \<and>
        (\<forall>k\<le>last. page_shown next_page (shown d') k)))"
    if "page_review_loop io next_page n active pages d = Some out" for out
  proof (rule page_review_loop.raw_induct [OF _ that], intro impI allI, goal_cases)
    case (1 loop io next_page n active pages d out d' answer)
    obtain d1 r where t: "page_turn io next_page n active pages d = (d1, r)" by fastforce
    show ?case
    proof (cases r)
      case (Inl e)
      then show ?thesis using 1(2,8) t by simp
    next
      case (Inr m)
      obtain pages' move where m: "m = (pages', move)" by fastforce
      note turn = page_turn_Ok [OF 1(3) t [unfolded Inr m] 1(4,5)]
      have upto: "page_shown next_page (shown d1) k" if "k \<le> active" for k
      proof (cases "k = active")
        case True
        then show ?thesis using turn(1) 1(4,5) by (auto simp: page_shown_def)
      next
        case False
        then have "page_shown next_page (shown d) k" using 1(7) that by simp
        then show ?thesis using turn(1) by (auto simp: page_shown_def)
      qed
      obtain d2 ev where ev: "get_event io d2 = (d1, Ok ev)" "page_move active n ev = Some move" "screen d2 = pages ! active"
        using turn(5) by blast
      show ?thesis
      proof (cases move)
        case (Inl a')
        then have a': "a' \<le> active + 1" "a' < n" using page_move_one ev(2) 1(6) by blast+
        have "a' < length pages'"
        proof (cases "a' = active + 1")
          case True
          then show ?thesis using turn(4) a'(2) by simp
        next
          case False
          then show ?thesis using a'(1) 1(5) turn(3) by simp
        qed
        moreover have "\<forall>k<a'. page_shown next_page (shown d1) k" using upto a'(1) by simp
        moreover have "loop io next_page n a' pages' d1 = Some out" using 1(2) t Inr m Inl by simp
        ultimately show ?thesis using 1(1,3,8) turn(2) a'(2) by blast
      next
        case ans: (Inr b)
        then have "out = (d1, Ok b)" using 1(2) t Inr m by simp
        then have "d' = d1" "answer = b" using 1(8) by simp_all
        then show ?thesis using ev ans 1(4-6) upto by (intro exI [of _ active] exI [of _ d2] exI [of _ ev]) auto
      qed
    qed
  qed
  then show thesis using assms that by (fastforce simp: or_spins_def split: option.splits)
qed


section \<open>Properties\<close>

text \<open>
  C6: (review) If the review of pairs returns that the user approved, every pair has been on the screen: as a step of
  its own, or on a page of a list that has it. The hypotheses are on the device: events do not change the
  screen, and on a page of a review a user confirms only where there is a button for it. On a device with
  pages the second is needed: the code takes a confirmation on any page as an approval.
\<close>

theorem review_shows_pairs:
  assumes tr: "tracks io shown screen" and "confirm_needs_button io screen" and len: "length pairs < 2 ^ 32 - 3"
    and run: "review_pairs io intro_text intro_subtext pairs final_text final_button_text long_press d = (d', Ok True)"
    and p: "p \<in> set pairs"
  shows "\<exists>raw\<in>shown d'. (\<exists>pos. Step_serialize (step_text_subtext pos (tv_tag p) (tv_value p)) = Some raw) \<or>
    (\<exists>i n ps. p \<in> set ps \<and> Page_serialize (page_review_pairs_content i n ps) = Some raw)"
proof -
  consider (page) d1 where "page_review_pairs io intro_text intro_subtext pairs final_text final_button_text long_press d1 = (d', Ok True)"
    | (step) d1 where "step_review_pairs io intro_text intro_subtext pairs final_button_text d1 = (d', Ok True)"
    using run by (auto simp: review_pairs_def bindS_Ok_iff split: if_splits)
  then show ?thesis
  proof cases
    case step
    let ?n = "of_nat (length pairs) :: u32"
    have n: "unat ?n = length pairs" using len by (simp add: unat_of_nat take_bit_nat_eq_self)
    obtain last ev where last: "step_move ?n last ev = Some (Inr True)"
      and shown: "\<forall>k. unat k \<le> unat last \<longrightarrow> step_shown (review_step intro_text intro_subtext pairs final_button_text) (shown d') k"
      by (rule step_flow_Ok [OF tr step [unfolded step_review_pairs_def]]) (use step_move_one in auto)
    have "last = ?n + 1" using last by (auto simp: step_move_def split: Event.splits if_splits)
    then have ln: "unat last = length pairs + 1" using n len by (simp add: unat_word_ariths)
    obtain j where j: "j < length pairs" "pairs ! j = p" using p by (auto simp: in_set_conv_nth)
    let ?k = "of_nat (j + 1) :: u32"
    have k: "unat ?k = j + 1" using j(1) len by (simp add: unat_of_nat take_bit_nat_eq_self del: of_nat_add of_nat_Suc)
    have k0: "?k \<noteq> 0" using k by auto
    have k1: "?k \<ge> 1 \<and> ?k \<le> ?n" using k n j(1) by (simp add: word_le_nat_alt)
    have km: "unat (?k - 1) = j" using j(1) len by (simp add: unat_of_nat take_bit_nat_eq_self)
    have "step_shown (review_step intro_text intro_subtext pairs final_button_text) (shown d') ?k"
      using shown k ln j(1) by simp
    then show ?thesis using k0 k1 km j(2) by (fastforce simp: step_shown_def review_step_def Let_def)
  next
    case page
    then obtain metrics d2 d3 raw where raw: "Page_serialize (review_pages metrics intro_text intro_subtext pairs final_text final_button_text long_press
          (unat (2 + of_nat (length (compute_pair_page_ranges metrics pairs)) :: u32)) 0) = Some raw"
      and loop: "or_spins (page_review_loop io (review_pages metrics intro_text intro_subtext pairs final_text final_button_text long_press
          (unat (2 + of_nat (length (compute_pair_page_ranges metrics pairs)) :: u32)))
          (unat (2 + of_nat (length (compute_pair_page_ranges metrics pairs)) :: u32)) 0 [raw]) d3 = (d', Ok True)"
      by (auto simp: page_review_pairs_def bindS_Ok_iff Let_def make_page_def split: option.splits)
    let ?ranges = "compute_pair_page_ranges metrics pairs"
    note part = pair_page_ranges_partition [of pairs metrics 0, folded compute_pair_page_ranges_def]
    have "length ?ranges \<le> length (concat (map (range_of pairs) ?ranges))"
      by (rule length_concat_nonempty) (use part in blast)
    then have nr: "length ?ranges < 2 ^ 32 - 3" using part len by simp
    define n where "n = unat (2 + of_nat (length ?ranges) :: u32)"
    have n: "n = length ?ranges + 2" using nr by (simp add: n_def unat_word_ariths unat_of_nat take_bit_nat_eq_self)
    let ?pages = "review_pages metrics intro_text intro_subtext pairs final_text final_button_text long_press n"
    obtain last d4 ev where last: "last < n" "get_event io d4 = (d', Ok ev)" "page_move last n ev = Some (Inr True)"
      "Page_serialize (?pages last) = Some (screen d4)" "\<forall>k\<le>last. page_shown ?pages (shown d') k"
      by (rule page_review_Ok [OF tr loop [folded n_def]]) (use raw n in \<open>auto simp: n_def\<close>)
    have "ev = EvAction Confirm" using last(3) by (auto simp: page_move_def split: Event.splits Action.splits if_splits)
    with get_event_Ok(3) [OF tr last(2)] obtain event_code event_data where "io_get_event io d4 = (d', Ok (event_code, event_data))"
      "EventCode_from event_code = ActionEvent" "Action_of (event_data ! 0) = Some Confirm" by blast
    then have button: "\<exists>t b. body = ConfirmationButton t b \<or> body = ConfirmationLongPress t b"
      if "?pages last = review_page back_button i m body" for back_button i m body
      using assms(2) last(4) that unfolding confirm_needs_button_def by metis
    have "last = n - 1"
    proof (rule ccontr)
      assume "last \<noteq> n - 1"
      then show False
        using button by (cases "last = 0") (fastforce simp: review_pages_def page_review_pairs_intro_def page_review_pairs_content_def)+
    qed
    have "set pairs = (\<Union>r\<in>set ?ranges. set (range_of pairs r))"
      using arg_cong [OF part [THEN conjunct1], of set] by simp
    then obtain r where r: "r \<in> set ?ranges" "p \<in> set (range_of pairs r)" using p by blast
    then obtain j where j: "j < length ?ranges" "?ranges ! j = r" by (auto simp: in_set_conv_nth)
    have "page_shown ?pages (shown d') (j + 1)" using last(5) \<open>last = n - 1\<close> j(1) n by simp
    then show ?thesis using j n r(2) by (fastforce simp: page_shown_def review_pages_def)
  qed
qed


text \<open>A device with steps: the events that will come, and what has been shown, the last first.\<close>

definition step_device :: "((u32 \<times> bytes) list \<times> bytes list) ux_io" where
  "step_device = \<lparr>io_xrecv = (\<lambda>n. throwS CallStopped), io_xsend = (\<lambda>data. returnS ()), heap_has = (\<lambda>n. True),
     io_show_page = (\<lambda>raw. throwS CallStopped),
     io_show_step = (\<lambda>raw (evs, sh). ((evs, raw # sh), Ok ())),
     io_get_event = (\<lambda>(evs, sh). case evs of
        [] \<Rightarrow> ((evs, sh), Err CallStopped)
      | e # rest \<Rightarrow> if take 1 (hd sh) = [3] then ((evs, sh), Err CallStopped) else ((rest, sh), Ok e)),
     io_get_device_property = (\<lambda>i. returnS 0x2c970040), io_yield = returnS ()\<rparr>"

definition step_events :: "(u32 \<times> bytes) list" where
  "step_events = [(1, [5]), (0, []), (1, [5]), (1, [0])]"

definition sample_pair :: TagValue where
  "sample_pair = \<lparr>tv_tag = ascii ''Amount'', tv_value = ascii ''1 BTC''\<rparr>"

lemma string_serialize_code [code]:
  "string_serialize s = (if 65536 \<le> int (length s) then None else ser_parts [u16_serialize (of_nat (length s)), Some s])"
  by (simp add: string_serialize_def)

lemma step_device_review:
  "snd (review_pairs step_device (ascii ''Review'') [] [sample_pair] [] (ascii ''Sign'') False (step_events, [])) = Ok True"
  by code_simp

theorem review_shows_pairs_witness:
  "\<exists>evs sh. review_pairs step_device (ascii ''Review'') [] [sample_pair] [] (ascii ''Sign'') False (step_events, []) = ((evs, sh), Ok True) \<and>
     (\<exists>raw\<in>set sh. (\<exists>pos. Step_serialize (step_text_subtext pos (tv_tag sample_pair) (tv_value sample_pair)) = Some raw) \<or>
       (\<exists>i n ps. sample_pair \<in> set ps \<and> Page_serialize (page_review_pairs_content i n ps) = Some raw))"
proof -
  obtain evs sh where run: "review_pairs step_device (ascii ''Review'') [] [sample_pair] [] (ascii ''Sign'') False (step_events, [])
      = ((evs, sh), Ok True)"
    using step_device_review by (metis prod.collapse)
  have tr: "tracks step_device (\<lambda>(evs, sh). set sh) (\<lambda>(evs, sh). hd sh)"
    by (auto simp: tracks_def step_device_def split: list.splits if_splits)
  have "confirm_needs_button step_device (\<lambda>(evs, sh). hd sh)"
  proof -
    have "take 1 raw = [3]" if "Page_serialize (review_page back_button i n body) = Some raw" for back_button i n body raw
      using that by (auto simp: review_page_def ser_parts.simps split: option.splits)
    then show ?thesis by (fastforce simp: confirm_needs_button_def step_device_def split: list.splits if_splits)
  qed
  from review_shows_pairs [OF tr this _ run, of sample_pair] run show ?thesis by simp
qed

end
