(* ===== verification/Sdk_App.thy ===== *)
theory Sdk_App
  imports Sdk_Ux
begin

text \<open>
  The frame of a V-App (\<open>app-sdk/src/app.rs\<close>): its dashboard, the loop that takes a message, calls the handler of
  the V-App and sends the answer, and how that loop and the client of \<open>Sdk_Comm\<close> talk to each other. Tasks in
  the background are behind \<open>io_yield\<close>.
\<close>

section \<open>The application\<close>

datatype View =
    NoView
  | HomePage
  | AppInfoPage
  | HomeIntroStep
  | HomeAppInfoStep
  | HomeQuitStep
  | AppInfoStep u8

record 's App =
  app_name :: bytes
  app_version :: bytes
  app_description :: "bytes option"
  app_developer :: "bytes option"
  current_view :: View
  home_info_page :: "bytes option"
  ux_dirty :: bool
  cleanup_ticks :: nat
  app_state :: 's

definition App_build :: "bytes \<Rightarrow> bytes \<Rightarrow> bytes option \<Rightarrow> bytes option \<Rightarrow> 's \<Rightarrow> 's App" where
  "App_build vapp_name version description developer state =
     \<lparr>app_name = vapp_name, app_version = version, app_description = description, app_developer = developer,
      current_view = NoView, home_info_page = None, ux_dirty = True, cleanup_ticks = 0, app_state = state\<rparr>"

record 'd app_io = "'d ux_io" +
  io_print :: "bytes \<Rightarrow> ('d, vapp_stop, unit) stm"
  unhandled_text :: "View \<Rightarrow> Event \<Rightarrow> bytes"

type_synonym ('d, 's, 'a) app_m = "('d \<times> 's App, vapp_stop, 'a) stm"

definition on_io :: "('d, vapp_stop, 'a) stm \<Rightarrow> ('d, 's, 'a) app_m" where
  "on_io op = (\<lambda>(d, a). case op d of (d', r) \<Rightarrow> ((d', a), r))"

definition update_app :: "('s App \<Rightarrow> 's App) \<Rightarrow> ('d, 's, unit) app_m" where
  "update_app f = (\<lambda>(d, a). ((d, f a), Ok ()))"

definition get_app :: "('s App \<Rightarrow> 'a) \<Rightarrow> ('d, 's, 'a) app_m" where
  "get_app f = (\<lambda>(d, a). ((d, a), Ok (f a)))"

definition set_view :: "View \<Rightarrow> ('d, 's, unit) app_m" where
  "set_view v = update_app (current_view_update (\<lambda>_. v))"

definition dashboard_text :: "'s App \<Rightarrow> bytes" where
  "dashboard_text a = (case app_description a of Some d \<Rightarrow> d | None \<Rightarrow> ascii ''Application is ready'')"

definition n_appinfo_steps :: "'s App \<Rightarrow> u8" where
  "n_appinfo_steps a = 3 + (if app_developer a = None then 0 else 1)"

definition show_page_home :: "('d, 'z) app_io_scheme \<Rightarrow> ('d, 's, unit) app_m" where
  "show_page_home io = bindS (get_app dashboard_text) (\<lambda>t. bindS (on_io (show_page io (Home t))) (\<lambda>_. set_view HomePage))"

definition home_fields :: "'s App \<Rightarrow> TagValue list" where
  "home_fields a =
     [\<lparr>tv_tag = ascii ''V-App name'', tv_value = app_name a\<rparr>, \<lparr>tv_tag = ascii ''Version'', tv_value = app_version a\<rparr>] @
     (case app_developer a of None \<Rightarrow> [] | Some dev \<Rightarrow> [\<lparr>tv_tag = ascii ''Developer'', tv_value = dev\<rparr>])"

text \<open>The page with the information is made once and kept.\<close>

definition make_home_info_page :: "('d, 's, bytes) app_m" where
  "make_home_info_page =
     bindS (get_app home_info_page) (\<lambda>cached. case cached of
         Some raw \<Rightarrow> returnS raw
       | None \<Rightarrow> bindS (get_app home_fields) (\<lambda>fields.
           bindS (on_io (make_page (page_home_info fields))) (\<lambda>raw.
           bindS (update_app (home_info_page_update (\<lambda>_. Some raw))) (\<lambda>_. returnS raw))))"

definition show_page_app_info :: "('d, 'z) app_io_scheme \<Rightarrow> ('d, 's, unit) app_m" where
  "show_page_app_info io =
     bindS make_home_info_page (\<lambda>raw. bindS (on_io (io_show_page io raw)) (\<lambda>_. set_view AppInfoPage))"

definition show_step_home_intro :: "('d, 'z) app_io_scheme \<Rightarrow> ('d, 's, unit) app_m" where
  "show_step_home_intro io =
     bindS (get_app dashboard_text) (\<lambda>t.
     bindS (on_io (show_step io (step_text_subtext (step_pos 3 0) t []))) (\<lambda>_. set_view HomeIntroStep))"

definition show_step_home_app_info :: "('d, 'z) app_io_scheme \<Rightarrow> ('d, 's, unit) app_m" where
  "show_step_home_app_info io =
     bindS (on_io (show_step io (step_text_subtext (step_pos 3 1) (ascii ''App Info'') []))) (\<lambda>_. set_view HomeAppInfoStep)"

definition show_step_home_quit :: "('d, 'z) app_io_scheme \<Rightarrow> ('d, 's, unit) app_m" where
  "show_step_home_quit io =
     bindS (on_io (show_step io (step_text_subtext (step_pos 3 2) (ascii ''Quit'') []))) (\<lambda>_. set_view HomeQuitStep)"

definition app_info_step :: "'s App \<Rightarrow> u8 \<Rightarrow> Step option" where
  "app_info_step a index =
     (let n_steps = ucast (n_appinfo_steps a) :: u32 in
      if index = 0 then Some (step_btext_subtext (step_pos n_steps 0) (ascii ''V-App Name'') (app_name a))
      else if index = 1 then Some (step_btext_subtext (step_pos n_steps 1) (ascii ''Version'') (app_version a))
      else if index = 2 \<and> app_developer a \<noteq> None
      then Some (step_btext_subtext (step_pos n_steps 2) (ascii ''Developer'') (the (app_developer a)))
      else if index = ucast (n_steps - 1)
      then Some (step_text_subtext (step_pos n_steps (n_steps - 1)) (ascii ''Back'') [])
      else None)"

definition show_step_app_info :: "('d, 'z) app_io_scheme \<Rightarrow> u8 \<Rightarrow> ('d, 's, unit) app_m" where
  "show_step_app_info io index =
     bindS (get_app (\<lambda>a. app_info_step a index)) (\<lambda>s. case s of
         None \<Rightarrow> throwS (VappPanic ''Invalid app info step index'')
       | Some s \<Rightarrow> bindS (on_io (show_step io s)) (\<lambda>_. set_view (AppInfoStep index)))"

section \<open>Events on the dashboard\<close>

text \<open>What an event does in a view; any other event is printed.\<close>

definition view_event :: "('d, 'z) app_io_scheme \<Rightarrow> View \<Rightarrow> Event \<Rightarrow> ('d, 's, unit) app_m" where
  "view_event io view ev =
     (case ev of
        EvTicker \<Rightarrow> update_app (\<lambda>a. if cleanup_ticks a > 0 then a\<lparr>cleanup_ticks := cleanup_ticks a - 1\<rparr> else a)
      | EvUnknown data \<Rightarrow> on_io (io_print io (unhandled_text io view ev))
      | EvAction action \<Rightarrow>
          if view = HomePage \<and> action = Quit then throwS (VappExit 0)
          else if view = HomePage \<and> action = TopRight then show_page_app_info io
          else if view = AppInfoPage \<and> action = Quit then show_page_home io
          else if view = HomeIntroStep \<and> action = NextPage then show_step_home_app_info io
          else if view = HomeAppInfoStep \<and> action = PreviousPage then show_step_home_intro io
          else if view = HomeAppInfoStep \<and> action = Confirm then show_step_app_info io 0
          else if view = HomeAppInfoStep \<and> action = NextPage then show_step_home_quit io
          else if view = HomeQuitStep \<and> action = PreviousPage then show_step_home_app_info io
          else if view = HomeQuitStep \<and> action = Confirm then throwS (VappExit 0)
          else (case view of
              AppInfoStep n \<Rightarrow>
                if action = NextPage then
                  bindS (get_app n_appinfo_steps) (\<lambda>k. if n + 1 < k then show_step_app_info io (n + 1) else returnS ())
                else if action = Confirm then
                  bindS (get_app n_appinfo_steps) (\<lambda>k. if n = k - 1 then show_step_home_app_info io else returnS ())
                else if action = PreviousPage then
                  (if n > 0 then show_step_app_info io (n - 1) else returnS ())
                else on_io (io_print io (unhandled_text io view ev))
            | _ \<Rightarrow> on_io (io_print io (unhandled_text io view ev))))"

definition show_dashboard_if_dirty :: "('d, 'z) app_io_scheme \<Rightarrow> bool \<Rightarrow> ('d, 's, unit) app_m" where
  "show_dashboard_if_dirty io show_dashboard =
     bindS (get_app (\<lambda>a. show_dashboard \<and> ux_dirty a \<and> cleanup_ticks a = 0)) (\<lambda>show.
       if show then
         bindS (on_io (has_page_api io)) (\<lambda>page_api.
         bindS (if page_api then show_page_home io else show_step_home_intro io) (\<lambda>_.
           update_app (ux_dirty_update (\<lambda>_. False))))
       else returnS ())"

definition process_ux_events :: "('d, 'z) app_io_scheme \<Rightarrow> bool \<Rightarrow> ('d, 's, unit) app_m" where
  "process_ux_events io show_dashboard =
     bindS (show_dashboard_if_dirty io show_dashboard) (\<lambda>_.
     bindS (on_io (get_event io)) (\<lambda>ev.
     bindS (get_app current_view) (\<lambda>view. view_event io view ev)))"

section \<open>Messages\<close>

partial_function (option) exchange_loop ::
  "('d, 'z) app_io_scheme \<Rightarrow> 'd \<times> 's App \<Rightarrow> (('d \<times> 's App) \<times> (vapp_stop, (MessageError, bytes) result) result) option" where
  "exchange_loop io s =
     (case bindS (process_ux_events io False) (\<lambda>_. on_io (receive_message io)) s of
        (s1, Inl e) \<Rightarrow> Some (s1, Err e)
      | (s1, Inr r) \<Rightarrow> if r = Err NoMessage then exchange_loop io s1 else Some (s1, Ok r))"

definition app_exchange :: "('d, 'z) app_io_scheme \<Rightarrow> bytes \<Rightarrow> ('d, 's, (MessageError, bytes) result) app_m" where
  "app_exchange io msg = bindS (on_io (send_message io msg)) (\<lambda>_. or_spins (exchange_loop io))"

text \<open>One round of the main loop.\<close>

definition serve_message :: "('d, 'z) app_io_scheme \<Rightarrow> (bytes \<Rightarrow> ('d, 's, bytes) app_m) \<Rightarrow> ('d, 's, unit) app_m" where
  "serve_message io handler =
     bindS (process_ux_events io True) (\<lambda>_.
     bindS (on_io (receive_message io)) (\<lambda>r. case r of
         Inl NoMessage \<Rightarrow> returnS ()
       | Inl e \<Rightarrow> throwS (VappPanic ''Communication error'')
       | Inr req_msg \<Rightarrow> bindS (handler req_msg) (\<lambda>resp_msg. on_io (send_message io resp_msg))))"

text \<open>The loop ends only when the V-App stops.\<close>

partial_function (option) run_loop ::
  "('d, 'z) app_io_scheme \<Rightarrow> (bytes \<Rightarrow> ('d, 's, bytes) app_m) \<Rightarrow> 'd \<times> 's App \<Rightarrow> (('d \<times> 's App) \<times> vapp_stop) option" where
  "run_loop io handler s =
     (case serve_message io handler s of
        (s1, Inl e) \<Rightarrow> Some (s1, e)
      | (s1, Inr u) \<Rightarrow> run_loop io handler s1)"

declare exchange_loop.simps [code] run_loop.simps [code]

section \<open>Screens of a handler\<close>

definition set_ux_dirty :: "('d, 's, unit) app_m" where
  "set_ux_dirty = update_app (\<lambda>a. a\<lparr>ux_dirty := True, cleanup_ticks := 0\<rparr>)"

definition app_review_pairs ::
  "('d, 'z) app_io_scheme \<Rightarrow> bytes \<Rightarrow> bytes \<Rightarrow> TagValue list \<Rightarrow> bytes \<Rightarrow> bytes \<Rightarrow> bool \<Rightarrow> ('d, 's, bool) app_m" where
  "app_review_pairs io intro_text intro_subtext pairs final_text final_button_text long_press =
     bindS set_ux_dirty (\<lambda>_. on_io (review_pairs io intro_text intro_subtext pairs final_text final_button_text long_press))"

definition app_show_spinner :: "('d, 'z) app_io_scheme \<Rightarrow> bytes \<Rightarrow> ('d, 's, unit) app_m" where
  "app_show_spinner io text = bindS set_ux_dirty (\<lambda>_. on_io (show_spinner io text))"

definition app_show_confirm_reject :: "('d, 'z) app_io_scheme \<Rightarrow> bytes \<Rightarrow> bytes \<Rightarrow> bytes \<Rightarrow> bytes \<Rightarrow> ('d, 's, bool) app_m" where
  "app_show_confirm_reject io title text confirm reject =
     bindS set_ux_dirty (\<lambda>_. on_io (show_confirm_reject io title text confirm reject))"

definition app_show_info :: "('d, 'z) app_io_scheme \<Rightarrow> Icon \<Rightarrow> bytes \<Rightarrow> ('d, 's, unit) app_m" where
  "app_show_info io icon text =
     bindS set_ux_dirty (\<lambda>_. bindS (on_io (show_info_screen io icon text)) (\<lambda>_. update_app (cleanup_ticks_update (\<lambda>_. 30))))"

section \<open>The dashboard\<close>

text \<open>The index of a step is always one that exists, so showing it does not panic.\<close>

definition view_ok :: "'s App \<Rightarrow> bool" where
  "view_ok a \<longleftrightarrow> (case current_view a of AppInfoStep n \<Rightarrow> n < n_appinfo_steps a | _ \<Rightarrow> True)"

text \<open>System calls that stop the V-App are not panics or exits of its own.\<close>

definition only_stops :: "('d, vapp_stop, 'a) stm \<Rightarrow> bool" where
  "only_stops op \<longleftrightarrow> (\<forall>d d' e. op d = (d', Err e) \<longrightarrow> e = CallStopped)"

definition calls_only_stop :: "('d, 'z) app_io_scheme \<Rightarrow> bool" where
  "calls_only_stop io \<longleftrightarrow> (\<forall>raw. only_stops (io_show_page io raw)) \<and> (\<forall>raw. only_stops (io_show_step io raw)) \<and>
     (\<forall>raw. only_stops (io_print io raw)) \<and> only_stops (io_get_event io) \<and> only_stops (io_yield io) \<and>
     (\<forall>i. only_stops (io_get_device_property io i))"

text \<open>\<open>dash P m\<close>: from an application in \<open>P\<close>, \<open>m\<close> ends in one with a correct view, the same handler state, and no unexpected stop.\<close>

definition expected_stop :: "View \<Rightarrow> vapp_stop \<Rightarrow> bool" where
  "expected_stop view e \<longleftrightarrow> e = CallStopped \<or> e = UndefinedBehaviour \<or> e = VappPanic ''serialize'' \<or>
     e = VappPanic ''Unsupported device'' \<or> (e = VappExit 0 \<and> (view = HomePage \<or> view = HomeQuitStep))"

definition dash :: "('s App \<Rightarrow> bool) \<Rightarrow> ('d, 's, 'a) app_m \<Rightarrow> bool" where
  "dash P m \<longleftrightarrow> (\<forall>d a d' a' r. m (d, a) = ((d', a'), r) \<longrightarrow> P a \<longrightarrow>
     view_ok a' \<and> app_state a' = app_state a \<and> app_developer a' = app_developer a \<and>
     (\<forall>e. r = Err e \<longrightarrow> expected_stop (current_view a') e))"

lemma dash_bind: "dash P m \<Longrightarrow> (\<And>x. dash view_ok (f x)) \<Longrightarrow> dash P (bindS m f)"
  unfolding dash_def bindS_def by (fastforce split: prod.splits sum.splits)

lemma dash_bind_get: "(\<And>x. dash (\<lambda>a. P a \<and> x = g a) (f x)) \<Longrightarrow> dash P (bindS (get_app g) f)"
  unfolding dash_def bindS_def get_app_def by simp

lemma dash_return: "dash view_ok (returnS x)"
  by (simp add: dash_def)

lemma dash_mono: "dash P m \<Longrightarrow> (\<And>a. Q a \<Longrightarrow> P a) \<Longrightarrow> dash Q m"
  unfolding dash_def by blast

lemma dash_io: "(\<And>d d' e v. op d = (d', Err e) \<Longrightarrow> expected_stop v e) \<Longrightarrow> dash view_ok (on_io op)"
  by (auto simp: dash_def on_io_def split: prod.splits)

lemma dash_get: "dash view_ok (get_app g)"
  by (simp add: dash_def get_app_def)

lemma dash_update: "(\<And>a. current_view (f a) = current_view a \<and> app_developer (f a) = app_developer a \<and> app_state (f a) = app_state a)
    \<Longrightarrow> dash view_ok (update_app f)"
  unfolding dash_def update_app_def view_ok_def n_appinfo_steps_def by (auto split: View.splits)

lemma dash_set_view: "(case v of AppInfoStep n \<Rightarrow> False | _ \<Rightarrow> True) \<Longrightarrow> dash view_ok (set_view v)"
  by (auto simp: dash_def set_view_def update_app_def view_ok_def split: View.splits)

lemma stop_expected: "expected_stop v CallStopped" "expected_stop v UndefinedBehaviour"
  "expected_stop v (VappPanic ''serialize'')" "expected_stop v (VappPanic ''Unsupported device'')"
  by (simp_all add: expected_stop_def)

lemma call_stops:
  assumes "calls_only_stop io"
  shows "io_show_page io raw d = (d', Err e) \<Longrightarrow> expected_stop v e" "io_show_step io raw d = (d', Err e) \<Longrightarrow> expected_stop v e"
    "io_print io raw d = (d', Err e) \<Longrightarrow> expected_stop v e" "io_get_event io d = (d', Err e) \<Longrightarrow> expected_stop v e"
    "io_yield io d = (d', Err e) \<Longrightarrow> expected_stop v e" "io_get_device_property io i d = (d', Err e) \<Longrightarrow> expected_stop v e"
  using assms stop_expected(1) [of v] unfolding calls_only_stop_def only_stops_def by metis+

lemma op_stops:
  assumes "calls_only_stop io"
  shows "show_page io p d = (d', Err e) \<Longrightarrow> expected_stop v e" "show_step io s d = (d', Err e) \<Longrightarrow> expected_stop v e"
    "make_page p d = (d', Err e) \<Longrightarrow> expected_stop v e" "has_page_api io d = (d', Err e) \<Longrightarrow> expected_stop v e"
    "get_event io d = (d', Err e) \<Longrightarrow> expected_stop v e"
  using call_stops [OF assms] stop_expected
  by (auto simp: show_page_def show_step_def make_page_def has_page_api_def get_event_def bindS_def
      split: option.splits prod.splits sum.splits if_splits EventCode.splits)

lemma make_page_stops: "make_page p d = (d', Err e) \<Longrightarrow> expected_stop v e"
  using stop_expected by (auto simp: make_page_def split: option.splits prod.splits sum.splits if_splits)

lemma app_info_step_some:
  assumes "index < n_appinfo_steps a"
  shows "app_info_step a index \<noteq> None"
proof -
  have four: "i < 4 \<Longrightarrow> i = 0 \<or> i = 1 \<or> i = 2 \<or> i = (3 :: u8)" for i
    by (simp add: word_less_nat_alt word_unat_eq_iff) linarith
  show ?thesis
  proof (cases "app_developer a")
    case None
    then have "index < 3" using assms by (simp add: n_appinfo_steps_def)
    then have "index < 4" "index \<noteq> 3" by (auto simp: word_less_nat_alt)
    then show ?thesis using four [of index] None by (auto simp: app_info_step_def n_appinfo_steps_def)
  next
    case (Some dev)
    then have "index < 4" using assms by (simp add: n_appinfo_steps_def)
    then show ?thesis using four [of index] Some by (auto simp: app_info_step_def n_appinfo_steps_def)
  qed
qed

lemma dash_show_step_app_info:
  assumes "calls_only_stop io"
  shows "dash (\<lambda>a. view_ok a \<and> index < n_appinfo_steps a) (show_step_app_info io index)"
  unfolding dash_def
proof (intro allI impI)
  fix d a d' a' r
  assume run: "show_step_app_info io index (d, a) = ((d', a'), r)" and P: "view_ok a \<and> index < n_appinfo_steps a"
  then obtain s where s: "app_info_step a index = Some s" using app_info_step_some by blast
  obtain d1 q where q: "show_step io s d = (d1, q)" by fastforce
  show "view_ok a' \<and> app_state a' = app_state a \<and> app_developer a' = app_developer a \<and>
      (\<forall>e. r = Err e \<longrightarrow> expected_stop (current_view a') e)"
  proof (cases q)
    case (Inl e)
    then have "a' = a" "r = Err e" using run s q by (auto simp: show_step_app_info_def get_app_def bindS_def on_io_def)
    then show ?thesis using P op_stops(2) [OF assms] q Inl by blast
  next
    case (Inr u)
    then have "a' = a\<lparr>current_view := AppInfoStep index\<rparr>" "r = Ok ()"
      using run s q by (auto simp: show_step_app_info_def get_app_def bindS_def on_io_def set_view_def update_app_def)
    then show ?thesis using P by (simp add: view_ok_def n_appinfo_steps_def)
  qed
qed

lemmas dash_intros = dash_bind [OF dash_get] dash_bind [OF dash_io] dash_bind [OF dash_update] dash_set_view dash_return

lemma dash_make_home_info_page: "dash view_ok make_home_info_page"
  unfolding make_home_info_page_def
proof (intro dash_bind [OF dash_get])
  fix cached :: "bytes option"
  show "dash view_ok (case cached of Some raw \<Rightarrow> returnS raw
     | None \<Rightarrow> bindS (get_app home_fields) (\<lambda>fields. bindS (on_io (make_page (page_home_info fields))) (\<lambda>raw.
         bindS (update_app (home_info_page_update (\<lambda>_. Some raw))) (\<lambda>_. returnS raw))))"
  proof (cases cached)
    case None
    have "dash view_ok (bindS (get_app home_fields) (\<lambda>fields. bindS (on_io (make_page (page_home_info fields))) (\<lambda>raw.
         bindS (update_app (home_info_page_update (\<lambda>_. Some raw))) (\<lambda>_. returnS raw))))"
      by (intro dash_intros; (erule make_page_stops)?) simp_all
    then show ?thesis by (simp add: None)
  qed (simp add: dash_return)
qed

lemma dash_shows:
  assumes "calls_only_stop io"
  shows "dash view_ok (show_page_home io)" "dash view_ok (show_page_app_info io)" "dash view_ok (show_step_home_intro io)"
    "dash view_ok (show_step_home_app_info io)" "dash view_ok (show_step_home_quit io)"
proof -
  note stops = call_stops(1) [OF assms] op_stops [OF assms]
  show "dash view_ok (show_page_home io)"
    unfolding show_page_home_def by (intro dash_intros) (erule stops, simp)
  show "dash view_ok (show_step_home_intro io)"
    unfolding show_step_home_intro_def by (intro dash_intros) (erule stops, simp)
  show "dash view_ok (show_step_home_app_info io)"
    unfolding show_step_home_app_info_def by (intro dash_intros) (erule stops, simp)
  show "dash view_ok (show_step_home_quit io)"
    unfolding show_step_home_quit_def by (intro dash_intros) (erule stops, simp)
  show "dash view_ok (show_page_app_info io)"
    unfolding show_page_app_info_def by (intro dash_bind [OF dash_make_home_info_page] dash_intros) (erule stops, simp)
qed

lemma dash_dirty:
  assumes "calls_only_stop io"
  shows "dash view_ok (show_dashboard_if_dirty io show_dashboard)"
proof -
  have "dash view_ok (if x then bindS (on_io (has_page_api io)) (\<lambda>page_api.
         bindS (if page_api then show_page_home io else show_step_home_intro io) (\<lambda>_.
           update_app (ux_dirty_update (\<lambda>_. False)))) else returnS ())" for x
    using dash_shows [OF assms] op_stops(4) [OF assms]
    by (auto intro!: dash_return dash_bind dash_io dash_update)
  then show ?thesis
    unfolding show_dashboard_if_dirty_def by (intro dash_bind [OF dash_get])
qed

lemma dash_print:
  assumes "calls_only_stop io"
  shows "dash view_ok (on_io (io_print io raw))"
  by (rule dash_io) (erule call_stops(3) [OF assms])

text \<open>Steps of the information screens: the neighbours of a step that exists, when they are shown, exist.\<close>

lemma dash_step_event:
  assumes "calls_only_stop io"
  shows "dash (\<lambda>a. view_ok a \<and> current_view a = AppInfoStep n) (view_event io (AppInfoStep n) (EvAction action))"
proof -
  have next_ok: "dash view_ok (bindS (get_app n_appinfo_steps) (\<lambda>k. if n + 1 < k then show_step_app_info io (n + 1) else returnS ()))"
    by (rule dash_bind_get) (auto intro: dash_mono [OF dash_show_step_app_info [OF assms]] dash_mono [OF dash_return])
  have leave: "dash view_ok (bindS (get_app n_appinfo_steps) (\<lambda>k. if n = k - 1 then show_step_home_app_info io else returnS ()))"
    by (rule dash_bind [OF dash_get]) (auto intro: dash_shows [OF assms] dash_return)
  have back_ok: "dash (\<lambda>a. view_ok a \<and> current_view a = AppInfoStep n) (if n > 0 then show_step_app_info io (n - 1) else returnS ())"
  proof -
    have "n - 1 < k" if "n > 0" "n < k" for k
    proof -
      have "1 \<le> n" using that(1) by (simp add: word_le_nat_alt word_less_nat_alt)
      then have "unat (n - 1) = unat n - 1" by (simp add: unat_sub)
      then show ?thesis using that by (simp add: word_less_nat_alt)
    qed
    then show ?thesis
      by (auto simp: view_ok_def intro: dash_mono [OF dash_show_step_app_info [OF assms]] dash_mono [OF dash_return])
  qed
  show ?thesis
    using next_ok leave back_ok dash_print [OF assms]
    by (auto simp: view_event_def intro: dash_mono)
qed

lemma dash_weak: "dash view_ok m \<Longrightarrow> dash (\<lambda>a. view_ok a \<and> current_view a = view) m"
  by (rule dash_mono [where P = view_ok]) simp_all

lemma dash_quit: "v = HomePage \<or> v = HomeQuitStep \<Longrightarrow> dash (\<lambda>a. view_ok a \<and> current_view a = v) (throwS (VappExit 0))"
  by (auto simp: dash_def expected_stop_def)

lemma dash_first_step:
  assumes "calls_only_stop io"
  shows "dash view_ok (show_step_app_info io 0)"
  by (rule dash_mono [OF dash_show_step_app_info [OF assms]]) (auto simp: n_appinfo_steps_def)

lemma dash_tick: "dash view_ok (update_app (\<lambda>a. if cleanup_ticks a > 0 then a\<lparr>cleanup_ticks := cleanup_ticks a - 1\<rparr> else a))"
  by (rule dash_update) simp

lemma dash_view_event:
  assumes "calls_only_stop io"
  shows "dash (\<lambda>a. view_ok a \<and> current_view a = view) (view_event io view ev)"
proof (cases "\<exists>n action. view = AppInfoStep n \<and> ev = EvAction action")
  case True
  then show ?thesis using dash_step_event [OF assms] by blast
next
  case False
  note all = dash_first_step [OF assms, THEN dash_weak] dash_tick [THEN dash_weak]
    dash_print [OF assms, THEN dash_weak] dash_shows [OF assms, THEN dash_weak] dash_quit
  show ?thesis
  proof (cases ev)
    case (EvAction action)
    then show ?thesis using False by (cases view) (simp_all add: view_event_def all)
  qed (simp_all add: view_event_def all)
qed

lemma dash_process:
  assumes "calls_only_stop io"
  shows "dash view_ok (process_ux_events io show_dashboard)"
  unfolding process_ux_events_def
  by (intro dash_bind [OF dash_dirty [OF assms]] dash_bind [OF dash_io] dash_bind_get)
    (erule op_stops(5) [OF assms], rule dash_mono [OF dash_view_event [OF assms]], simp)

text \<open>C7: (dashboard) The dashboard of a V-App shows an information screen that exists. Handling any event, in any view, keeps this, and
  changes neither the state of the handler nor what is shown of the V-App. The V-App exits here only with status 0 and
  only from the home page or the step for quitting; it never panics for the index of a screen.\<close>
theorem dashboard_events:
  assumes "calls_only_stop io" "view_ok a" "process_ux_events io show_dashboard (d, a) = ((d', a'), r)"
  shows "view_ok a' \<and> app_state a' = app_state a \<and> app_developer a' = app_developer a \<and>
    (\<forall>e. r = Err e \<longrightarrow> expected_stop (current_view a') e)"
  using dash_process [OF assms(1), of show_dashboard] assms(2,3) unfolding dash_def by blast

text \<open>A device that has one event, of which it gives the same one for ever.\<close>

definition one_event :: "u32 \<Rightarrow> bytes \<Rightarrow> unit app_io" where
  "one_event code data = \<lparr>io_xrecv = (\<lambda>n. throwS CallStopped), io_xsend = (\<lambda>data. returnS ()), heap_has = (\<lambda>n. True),
     io_show_page = (\<lambda>raw. returnS ()), io_show_step = (\<lambda>raw. returnS ()), io_get_event = returnS (code, data),
     io_get_device_property = (\<lambda>i. returnS 0x2c970040), io_yield = returnS (), io_print = (\<lambda>raw. returnS ()),
     unhandled_text = (\<lambda>view ev. [])\<rparr>"

definition sample_app :: "View \<Rightarrow> unit App" where
  "sample_app view = (App_build (ascii ''vnd-test'') (ascii ''0.1.0'') None (Some (ascii ''Dev'')) ())\<lparr>current_view := view, ux_dirty := False\<rparr>"

lemma sample_app_quits:
  "snd (process_ux_events (one_event 1 [0]) True ((), sample_app HomeQuitStep)) = Err (VappExit 0)"
  "snd (process_ux_events (one_event 1 [0]) True ((), sample_app (AppInfoStep 3))) = Ok ()"
  by code_simp+

theorem dashboard_events_witness:
  "view_ok (sample_app (AppInfoStep 3)) \<and>
   (\<exists>a'. process_ux_events (one_event 1 [0]) True ((), sample_app (AppInfoStep 3)) = (((), a'), Ok ()) \<and> view_ok a' \<and>
     app_developer a' = Some (ascii ''Dev''))"
proof -
  have calls: "calls_only_stop (one_event 1 [0])"
    by (auto simp: calls_only_stop_def only_stops_def one_event_def)
  have ok: "view_ok (sample_app (AppInfoStep 3))" by (simp add: view_ok_def sample_app_def App_build_def n_appinfo_steps_def)
  obtain a' where run: "process_ux_events (one_event 1 [0]) True ((), sample_app (AppInfoStep 3)) = (((), a'), Ok ())"
    using sample_app_quits(2) by (metis prod.collapse unit.exhaust)
  show ?thesis using dashboard_events [OF calls ok run] ok run by (simp add: sample_app_def App_build_def)
qed

end
