(* ===== verification/Sdk_Tasks.thy ===== *)
theory Sdk_Tasks
  imports Prelude "HOL-Library.Multiset"
begin

text \<open>
  Tasks in the background (\<open>app-sdk/src/executor.rs\<close> and the handles of tasks in \<open>app-sdk/src/app.rs\<close>): the
  executor that polls them, a task that can be cancelled, and waiting for its result.
\<close>

section \<open>Tasks and the executor\<close>

text \<open>
  A future is polled in a world that it shares with the others; it may spawn futures. It is ready with a value
  (\<open>Inl\<close>) or it is pending (\<open>Inr\<close>), with what is left of it.
\<close>

type_synonym ('f, 'w, 'a) poll = "'f \<Rightarrow> 'w \<Rightarrow> 'w \<times> 'f list \<times> ('a + 'f)"

text \<open>A task made by \<open>spawn_task\<close> is wrapped: it has a cell for its result and a flag by which it is cancelled.\<close>

datatype 'f Task = Plain 'f | Cancellable nat 'f

primrec task_id :: "'f Task \<Rightarrow> nat option" where
  "task_id (Plain f) = None"
| "task_id (Cancellable k f) = Some k"

record ('f, 'w, 'a) executor =
  ex_world :: 'w
  ex_tasks :: "'f Task list"
  ex_results :: "nat \<Rightarrow> 'a option"
  ex_cancelled :: "nat \<Rightarrow> bool"
  ex_next :: nat

definition spawn :: "'f \<Rightarrow> ('f, 'w, 'a) executor \<Rightarrow> ('f, 'w, 'a) executor" where
  "spawn f e = e\<lparr>ex_tasks := ex_tasks e @ [Plain f]\<rparr>"

text \<open>One poll of a task, which is \<^const>\<open>None\<close> when it is ready. What it spawns goes to the list of the executor.\<close>

fun poll_task :: "('f, 'w, 'a) poll \<Rightarrow> 'f Task \<Rightarrow> ('f, 'w, 'a) executor \<Rightarrow> ('f, 'w, 'a) executor \<times> 'f Task option" where
  "poll_task poll (Plain f) e =
     (case poll f (ex_world e) of
        (w, new, r) \<Rightarrow> (fold spawn new (e\<lparr>ex_world := w\<rparr>), case r of Inl v \<Rightarrow> None | Inr f' \<Rightarrow> Some (Plain f')))"
| "poll_task poll (Cancellable k f) e =
     (if ex_cancelled e k then (e, None)
      else case poll f (ex_world e) of
        (w, new, r) \<Rightarrow>
          let e1 = fold spawn new (e\<lparr>ex_world := w\<rparr>) in
          (case r of
             Inl v \<Rightarrow> (e1\<lparr>ex_results := (ex_results e1)(k := Some v)\<rparr>, None)
           | Inr f' \<Rightarrow> (e1, Some (Cancellable k f'))))"

text \<open>\<open>Vec::swap_remove\<close>.\<close>

definition swap_remove :: "'a list \<Rightarrow> nat \<Rightarrow> 'a list" where
  "swap_remove xs i = butlast (xs[i := last xs])"

function poll_tasks ::
  "('f, 'w, 'a) poll \<Rightarrow> nat \<Rightarrow> 'f Task list \<Rightarrow> ('f, 'w, 'a) executor \<Rightarrow> 'f Task list \<times> ('f, 'w, 'a) executor" where
  "poll_tasks poll i tasks e =
     (if i < length tasks then
        (case poll_task poll (tasks ! i) e of
           (e1, None) \<Rightarrow> poll_tasks poll i (swap_remove tasks i) e1
         | (e1, Some t) \<Rightarrow> poll_tasks poll (i + 1) (tasks[i := t]) e1)
      else (tasks, e))"
  by pat_completeness auto
termination
  by (relation "measure (\<lambda>(poll, i, tasks, e). length tasks - i)") (auto simp: swap_remove_def)

declare poll_tasks.simps [simp del]

text \<open>The list is taken out of the executor, so that what tasks spawn goes to an empty one.\<close>

definition poll_once :: "('f, 'w, 'a) poll \<Rightarrow> ('f, 'w, 'a) executor \<Rightarrow> ('f, 'w, 'a) executor" where
  "poll_once poll e =
     (case poll_tasks poll 0 (ex_tasks e) (e\<lparr>ex_tasks := []\<rparr>) of
        (tasks, e1) \<Rightarrow> e1\<lparr>ex_tasks := (if ex_tasks e1 = [] then tasks else ex_tasks e1 @ tasks)\<rparr>)"

text \<open>The root future works on the whole executor. The loop may not end.\<close>

partial_function (option) block_on ::
  "('f, 'w, 'a) poll \<Rightarrow> ('r \<Rightarrow> ('f, 'w, 'a) executor \<Rightarrow> ('f, 'w, 'a) executor \<times> ('v + 'r)) \<Rightarrow> 'r \<Rightarrow>
   ('f, 'w, 'a) executor \<Rightarrow> (('f, 'w, 'a) executor \<times> 'v) option" where
  "block_on poll root r e =
     (case root r e of
        (e1, Inl v) \<Rightarrow> Some (e1, v)
      | (e1, Inr r1) \<Rightarrow> block_on poll root r1 (poll_once poll e1))"

section \<open>Handles\<close>

definition spawn_task :: "'f \<Rightarrow> ('f, 'w, 'a) executor \<Rightarrow> ('f, 'w, 'a) executor \<times> nat" where
  "spawn_task work e =
     (let k = ex_next e in
      (e\<lparr>ex_tasks := ex_tasks e @ [Cancellable k work], ex_results := (ex_results e)(k := None),
         ex_cancelled := (ex_cancelled e)(k := False), ex_next := k + 1\<rparr>, k))"

definition is_ready :: "nat \<Rightarrow> ('f, 'w, 'a) executor \<Rightarrow> bool" where
  "is_ready k e \<longleftrightarrow> ex_results e k \<noteq> None"

partial_function (option) handle_take ::
  "('f, 'w, 'a) poll \<Rightarrow> nat \<Rightarrow> ('f, 'w, 'a) executor \<Rightarrow> (('f, 'w, 'a) executor \<times> 'a) option" where
  "handle_take poll k e =
     (case ex_results e k of
        Some v \<Rightarrow> Some (e\<lparr>ex_results := (ex_results e)(k := None)\<rparr>, v)
      | None \<Rightarrow> handle_take poll k (poll_once poll e))"

text \<open>The flag of a task is shared by its handle and the task, as long as the executor has it.\<close>

definition strong_count :: "nat \<Rightarrow> ('f, 'w, 'a) executor \<Rightarrow> nat" where
  "strong_count k e = 1 + length (filter (\<lambda>t. task_id t = Some k) (ex_tasks e))"

partial_function (option) drop_loop ::
  "('f, 'w, 'a) poll \<Rightarrow> nat \<Rightarrow> ('f, 'w, 'a) executor \<Rightarrow> ('f, 'w, 'a) executor option" where
  "drop_loop poll k e = (if strong_count k e > 1 then drop_loop poll k (poll_once poll e) else Some e)"

definition handle_drop :: "('f, 'w, 'a) poll \<Rightarrow> nat \<Rightarrow> ('f, 'w, 'a) executor \<Rightarrow> ('f, 'w, 'a) executor option" where
  "handle_drop poll k e = drop_loop poll k (e\<lparr>ex_cancelled := (ex_cancelled e)(k := True)\<rparr>)"

partial_function (option) await_all_loop ::
  "('f, 'w, 'a) poll \<Rightarrow> nat list \<Rightarrow> ('f, 'w, 'a) executor \<Rightarrow> ('f, 'w, 'a) executor option" where
  "await_all_loop poll handles e =
     (if \<exists>k\<in>set handles. \<not> is_ready k e then await_all_loop poll handles (poll_once poll e) else Some e)"

text \<open>\<open>spinner\<close> shows that something is going on.\<close>

definition await_task ::
  "('f, 'w, 'a) poll \<Rightarrow> (('f, 'w, 'a) executor \<Rightarrow> ('f, 'w, 'a) executor) \<Rightarrow> nat \<Rightarrow> ('f, 'w, 'a) executor \<Rightarrow>
   (('f, 'w, 'a) executor \<times> 'a) option" where
  "await_task poll spinner k e = handle_take poll k (if is_ready k e then e else spinner e)"

definition await_all ::
  "('f, 'w, 'a) poll \<Rightarrow> (('f, 'w, 'a) executor \<Rightarrow> ('f, 'w, 'a) executor) \<Rightarrow> nat list \<Rightarrow> ('f, 'w, 'a) executor \<Rightarrow>
   ('f, 'w, 'a) executor option" where
  "await_all poll spinner handles e =
     (if \<forall>k\<in>set handles. is_ready k e then Some e else await_all_loop poll handles (spinner e))"

declare block_on.simps [code] handle_take.simps [code] drop_loop.simps [code] await_all_loop.simps [code]

section \<open>A round polls every task once\<close>

fun poll_each :: "('f, 'w, 'a) poll \<Rightarrow> 'f Task list \<Rightarrow> ('f, 'w, 'a) executor \<Rightarrow> 'f Task list \<times> ('f, 'w, 'a) executor" where
  "poll_each poll [] e = ([], e)"
| "poll_each poll (t # ts) e =
     (case poll_task poll t e of
        (e1, r) \<Rightarrow> (case poll_each poll ts e1 of
           (rest, e2) \<Rightarrow> ((case r of None \<Rightarrow> rest | Some t' \<Rightarrow> t' # rest), e2)))"

lemma swap_remove_parts:
  assumes "i < length xs"
  shows "take i (swap_remove xs i) = take i xs" "mset (drop i xs) = add_mset (xs ! i) (mset (drop i (swap_remove xs i)))"
    "length (swap_remove xs i) = length xs - 1"
proof -
  obtain ys z where xs: "xs = ys @ [z]" using assms by (cases xs rule: rev_cases) auto
  show "length (swap_remove xs i) = length xs - 1" by (simp add: swap_remove_def)
  show "take i (swap_remove xs i) = take i xs" "mset (drop i xs) = add_mset (xs ! i) (mset (drop i (swap_remove xs i)))"
  proof -
    have "swap_remove xs i = (if i < length ys then ys[i := z] else ys)"
      using assms by (auto simp: swap_remove_def xs list_update_append nth_append butlast_append)
    moreover have "i < length ys \<Longrightarrow> drop i ys = ys ! i # drop (Suc i) ys" "i < length ys \<Longrightarrow> drop i (ys[i := z]) = z # drop (Suc i) ys"
      using Cons_nth_drop_Suc [of i "ys[i := z]"] by (simp_all add: Cons_nth_drop_Suc)
    ultimately show "take i (swap_remove xs i) = take i xs" "mset (drop i xs) = add_mset (xs ! i) (mset (drop i (swap_remove xs i)))"
      using assms by (auto simp: xs nth_append less_Suc_eq)
  qed
qed

lemma poll_tasks_each:
  "\<exists>order rest. mset order = mset (drop i tasks) \<and>
     poll_each poll order e = (rest, snd (poll_tasks poll i tasks e)) \<and>
     mset (fst (poll_tasks poll i tasks e)) = mset (take i tasks) + mset rest"
proof (induction poll i tasks e rule: poll_tasks.induct)
  case (1 poll i tasks e)
  show ?case
  proof (cases "i < length tasks")
    case False
    then show ?thesis by (simp add: poll_tasks.simps [of poll i tasks])
  next
    case True
    obtain e1 r where p: "poll_task poll (tasks ! i) e = (e1, r)" by fastforce
    show ?thesis
    proof (cases r)
      case None
      let ?ts = "swap_remove tasks i"
      obtain order rest where IH: "mset order = mset (drop i ?ts)" "poll_each poll order e1 = (rest, snd (poll_tasks poll i ?ts e1))"
          "mset (fst (poll_tasks poll i ?ts e1)) = mset (take i ?ts) + mset rest"
        using 1(1) [OF True p [symmetric] None] by blast
      have "poll_tasks poll i tasks e = poll_tasks poll i ?ts e1"
        using True p None by (simp add: poll_tasks.simps [of poll i tasks])
      then show ?thesis
        using IH p None swap_remove_parts [OF True] by (intro exI [of _ "tasks ! i # order"] exI [of _ rest]) simp
    next
      case (Some t)
      let ?ts = "tasks[i := t]"
      obtain order rest where IH: "mset order = mset (drop (i + 1) ?ts)" "poll_each poll order e1 = (rest, snd (poll_tasks poll (i + 1) ?ts e1))"
          "mset (fst (poll_tasks poll (i + 1) ?ts e1)) = mset (take (i + 1) ?ts) + mset rest"
        using 1(2) [OF True p [symmetric] Some] by blast
      have "poll_tasks poll i tasks e = poll_tasks poll (i + 1) ?ts e1"
        using True p Some by (simp add: poll_tasks.simps [of poll i tasks])
      moreover have "drop i tasks = tasks ! i # drop (i + 1) tasks" "take (i + 1) ?ts = take i tasks @ [t]"
        using True by (simp_all add: Cons_nth_drop_Suc take_Suc_conv_app_nth)
      ultimately show ?thesis
        using IH p Some by (intro exI [of _ "tasks ! i # order"] exI [of _ "t # rest"]) simp
    qed
  qed
qed

text \<open>The list of tasks that are in the executor after a round.\<close>

lemma poll_once_round:
  obtains order rest where "mset order = mset (ex_tasks e)" "poll_each poll order (e\<lparr>ex_tasks := []\<rparr>) = (rest, snd (poll_tasks poll 0 (ex_tasks e) (e\<lparr>ex_tasks := []\<rparr>)))"
    "mset (ex_tasks (poll_once poll e)) = mset (ex_tasks (snd (poll_tasks poll 0 (ex_tasks e) (e\<lparr>ex_tasks := []\<rparr>)))) + mset rest"
    "poll_once poll e = (snd (poll_tasks poll 0 (ex_tasks e) (e\<lparr>ex_tasks := []\<rparr>)))\<lparr>ex_tasks := ex_tasks (poll_once poll e)\<rparr>"
proof -
  obtain order rest where "mset order = mset (ex_tasks e)" "poll_each poll order (e\<lparr>ex_tasks := []\<rparr>) = (rest, snd (poll_tasks poll 0 (ex_tasks e) (e\<lparr>ex_tasks := []\<rparr>)))"
    "mset (fst (poll_tasks poll 0 (ex_tasks e) (e\<lparr>ex_tasks := []\<rparr>))) = mset rest"
    using poll_tasks_each [of 0 "ex_tasks e" poll "e\<lparr>ex_tasks := []\<rparr>"] by auto
  then show thesis
    by (intro that [of order rest]) (auto simp: poll_once_def split: prod.splits)
qed

section \<open>Cancelled tasks\<close>

lemma spawn_keeps:
  "ex_results (fold spawn new e) = ex_results e" "ex_cancelled (fold spawn new e) = ex_cancelled e"
  "ex_tasks (fold spawn new e) = ex_tasks e @ map Plain new"
  by (induction new arbitrary: e) (simp_all add: spawn_def)

lemma poll_task_keeps:
  assumes "poll_task poll t e = (e1, r)"
  shows "ex_cancelled e1 = ex_cancelled e" "\<exists>new. ex_tasks e1 = ex_tasks e @ map Plain new"
    "r = Some t' \<Longrightarrow> task_id t' = task_id t \<and> (\<forall>k. task_id t = Some k \<longrightarrow> \<not> ex_cancelled e k)"
    "task_id t \<noteq> Some k \<or> ex_cancelled e k \<Longrightarrow> ex_results e1 k = ex_results e k"
  using assms by (cases t; auto simp: spawn_keeps Let_def split: prod.splits sum.splits if_splits)+

lemma poll_each_keeps:
  "poll_each poll ts e = (rest, e') \<Longrightarrow>
     ex_cancelled e' = ex_cancelled e \<and> (\<exists>new. ex_tasks e' = ex_tasks e @ map Plain new) \<and>
     (\<forall>t\<in>set rest. \<forall>k. task_id t = Some k \<longrightarrow> \<not> ex_cancelled e k \<and> (\<exists>t\<in>set ts. task_id t = Some k)) \<and>
     (\<forall>k. (\<forall>t\<in>set ts. task_id t \<noteq> Some k) \<or> ex_cancelled e k \<longrightarrow> ex_results e' k = ex_results e k)"
proof (induction ts arbitrary: e rest)
  case (Cons t ts)
  obtain e1 r where p: "poll_task poll t e = (e1, r)" by fastforce
  obtain rest1 where q: "poll_each poll ts e1 = (rest1, e')" "rest = (case r of None \<Rightarrow> rest1 | Some t' \<Rightarrow> t' # rest1)"
    using Cons.prems p by (auto split: prod.splits)
  note k = poll_task_keeps [OF p]
  have "\<exists>new. ex_tasks e' = ex_tasks e @ map Plain new"
    using Cons.IH [OF q(1)] k(2) by (metis append_assoc map_append)
  moreover have "\<forall>k. (\<forall>t\<in>set (t # ts). task_id t \<noteq> Some k) \<or> ex_cancelled e k \<longrightarrow> ex_results e' k = ex_results e k"
    using Cons.IH [OF q(1)] k(1) k(4) by (metis list.set_intros(1) list.set_intros(2))
  moreover have "\<forall>u\<in>set rest. \<forall>k. task_id u = Some k \<longrightarrow> \<not> ex_cancelled e k \<and> (\<exists>t\<in>set (t # ts). task_id t = Some k)"
    using Cons.IH [OF q(1)] k(1) k(3) q(2) by (auto split: option.splits)
  ultimately show ?case using Cons.IH [OF q(1)] k(1) by simp
qed simp

lemma poll_once_cancelled:
  assumes "ex_cancelled e k"
  shows "strong_count k (poll_once poll e) = 1" "ex_results (poll_once poll e) k = ex_results e k"
proof -
  obtain order rest where r: "mset order = mset (ex_tasks e)"
      "poll_each poll order (e\<lparr>ex_tasks := []\<rparr>) = (rest, snd (poll_tasks poll 0 (ex_tasks e) (e\<lparr>ex_tasks := []\<rparr>)))"
      "mset (ex_tasks (poll_once poll e)) = mset (ex_tasks (snd (poll_tasks poll 0 (ex_tasks e) (e\<lparr>ex_tasks := []\<rparr>)))) + mset rest"
      "poll_once poll e = (snd (poll_tasks poll 0 (ex_tasks e) (e\<lparr>ex_tasks := []\<rparr>)))\<lparr>ex_tasks := ex_tasks (poll_once poll e)\<rparr>"
    by (rule poll_once_round)
  show "ex_results (poll_once poll e) k = ex_results e k"
    by (subst r(4)) (use poll_each_keeps [OF r(2)] assms in simp)
  from poll_each_keeps [OF r(2)] obtain new where new: "ex_tasks (snd (poll_tasks poll 0 (ex_tasks e) (e\<lparr>ex_tasks := []\<rparr>))) = map Plain new"
      "\<forall>t\<in>set rest. \<forall>k. task_id t = Some k \<longrightarrow> \<not> ex_cancelled e k"
    by auto
  have "set (ex_tasks (poll_once poll e)) = Plain ` set new \<union> set rest"
    using r(3) new(1) by (metis list.set_map mset_append set_append set_mset_mset)
  then have "\<forall>t\<in>set (ex_tasks (poll_once poll e)). task_id t \<noteq> Some k"
    using new(2) assms by fastforce
  then show "strong_count k (poll_once poll e) = 1" by (simp add: strong_count_def filter_empty_conv)
qed

section \<open>A task that finishes\<close>

text \<open>A future that, whatever the world is when it is polled, is ready after finitely many polls.\<close>

inductive finishes :: "('f, 'w, 'a) poll \<Rightarrow> 'f \<Rightarrow> bool" for poll where
  "(\<And>w w' new f'. poll f w = (w', new, Inr f') \<Longrightarrow> finishes poll f') \<Longrightarrow> finishes poll f"

definition tasks_of :: "nat \<Rightarrow> 'f Task list \<Rightarrow> 'f Task list" where
  "tasks_of k ts = filter (\<lambda>t. task_id t = Some k) ts"

lemma task_id_Some: "task_id t = Some k \<longleftrightarrow> (\<exists>f. t = Cancellable k f)"
  by (cases t) auto

lemma poll_each_one:
  "poll_each poll ts e = (rest, e') \<Longrightarrow> tasks_of k ts = [Cancellable k f] \<Longrightarrow> \<not> ex_cancelled e k \<Longrightarrow> ex_results e k = None
    \<Longrightarrow> \<exists>w w' new r. poll f w = (w', new, r) \<and> (case r of
        Inl v \<Rightarrow> tasks_of k rest = [] \<and> ex_results e' k = Some v
      | Inr f' \<Rightarrow> tasks_of k rest = [Cancellable k f'] \<and> ex_results e' k = None)"
proof (induction ts arbitrary: e rest)
  case (Cons t ts)
  obtain e1 r where p: "poll_task poll t e = (e1, r)" by fastforce
  obtain rest1 where q: "poll_each poll ts e1 = (rest1, e')" "rest = (case r of None \<Rightarrow> rest1 | Some t' \<Rightarrow> t' # rest1)"
    using Cons.prems(1) p by (auto split: prod.splits)
  note k = poll_task_keeps [OF p] and keeps = poll_each_keeps [OF q(1)]
  show ?case
  proof (cases "task_id t = Some k")
    case True
    then have t: "t = Cancellable k f" "tasks_of k ts = []" using Cons.prems(2) by (auto simp: tasks_of_def)
    then have "tasks_of k rest1 = []" "ex_results e' k = ex_results e1 k"
      using keeps by (auto simp: tasks_of_def filter_empty_conv)
    moreover obtain w' new s where s: "poll f (ex_world e) = (w', new, s)" by (metis prod_cases3)
    ultimately show ?thesis
      using p Cons.prems(3,4) q(2) t(1)
      by - (rule exI [of _ "ex_world e"], auto simp: tasks_of_def spawn_keeps Let_def split: sum.splits)
  next
    case False
    then have "tasks_of k ts = [Cancellable k f]" "tasks_of k rest = tasks_of k rest1"
      using Cons.prems(2) k(3) q(2) by (auto simp: tasks_of_def split: option.splits)
    moreover have "\<not> ex_cancelled e1 k" "ex_results e1 k = None" using k(1) k(4) False Cons.prems(3,4) by simp_all
    ultimately show ?thesis using Cons.IH [OF q(1)] by metis
  qed
qed (simp add: tasks_of_def)

lemma poll_once_one:
  assumes "tasks_of k (ex_tasks e) = [Cancellable k f]" "\<not> ex_cancelled e k" "ex_results e k = None"
  shows "\<not> ex_cancelled (poll_once poll e) k \<and> (\<exists>w w' new r. poll f w = (w', new, r) \<and> (case r of
        Inl v \<Rightarrow> tasks_of k (ex_tasks (poll_once poll e)) = [] \<and> ex_results (poll_once poll e) k = Some v
      | Inr f' \<Rightarrow> tasks_of k (ex_tasks (poll_once poll e)) = [Cancellable k f'] \<and> ex_results (poll_once poll e) k = None))"
proof -
  let ?e = "snd (poll_tasks poll 0 (ex_tasks e) (e\<lparr>ex_tasks := []\<rparr>))"
  obtain order rest where r: "mset order = mset (ex_tasks e)" "poll_each poll order (e\<lparr>ex_tasks := []\<rparr>) = (rest, ?e)"
      "mset (ex_tasks (poll_once poll e)) = mset (ex_tasks ?e) + mset rest" "poll_once poll e = ?e\<lparr>ex_tasks := ex_tasks (poll_once poll e)\<rparr>"
    by (rule poll_once_round)
  have "mset (tasks_of k order) = mset (tasks_of k (ex_tasks e))" using r(1) by (simp add: tasks_of_def mset_filter)
  then have one: "tasks_of k order = [Cancellable k f]" using assms(1) by simp
  from poll_each_keeps [OF r(2)] obtain new where new: "ex_cancelled ?e = ex_cancelled e" "ex_tasks ?e = map Plain new" by auto
  have "mset (tasks_of k (ex_tasks (poll_once poll e))) = mset (tasks_of k (map Plain new)) + mset (tasks_of k rest)"
    using r(3) new(2) by (auto simp: tasks_of_def)
  moreover have "tasks_of k (map Plain new) = []" by (auto simp: tasks_of_def filter_empty_conv)
  ultimately have tasks: "mset (tasks_of k (ex_tasks (poll_once poll e))) = mset (tasks_of k rest)" by simp
  have fields: "ex_cancelled (poll_once poll e) = ex_cancelled ?e" "ex_results (poll_once poll e) = ex_results ?e"
    by (subst r(4), simp)+
  obtain w w' sp s where s: "poll f w = (w', sp, s)" "case s of
        Inl v \<Rightarrow> tasks_of k rest = [] \<and> ex_results ?e k = Some v
      | Inr f' \<Rightarrow> tasks_of k rest = [Cancellable k f'] \<and> ex_results ?e k = None"
    using poll_each_one [OF r(2) one] assms(2,3) by auto
  show ?thesis
  proof (intro conjI exI)
    show "\<not> ex_cancelled (poll_once poll e) k" using fields new assms(2) by simp
    show "poll f w = (w', sp, s)" by (rule s(1))
    show "case s of Inl v \<Rightarrow> tasks_of k (ex_tasks (poll_once poll e)) = [] \<and> ex_results (poll_once poll e) k = Some v
      | Inr f' \<Rightarrow> tasks_of k (ex_tasks (poll_once poll e)) = [Cancellable k f'] \<and> ex_results (poll_once poll e) k = None"
      using s(2) tasks fields by (cases s) auto
  qed
qed

section \<open>Properties\<close>

text \<open>(rounds) A round of the executor polls each of its tasks exactly once, in some order, although a task that ends
  is replaced by the last one of the list. Afterwards it has the tasks that are still pending and those that were
  spawned in the round, which are not polled in it.\<close>
theorem round_polls_each_once:
  "\<exists>order rest e'. mset order = mset (ex_tasks e) \<and> poll_each poll order (e\<lparr>ex_tasks := []\<rparr>) = (rest, e') \<and>
     mset (ex_tasks (poll_once poll e)) = mset (ex_tasks e') + mset rest \<and>
     poll_once poll e = e'\<lparr>ex_tasks := ex_tasks (poll_once poll e)\<rparr>"
  by (rule poll_once_round [of e poll]) blast

text \<open>(cancellation) Dropping the handle of a task always returns, after at most one round. The executor does not have
  the task any more, and the task has not given a result.\<close>
theorem dropped_task_ends:
  "\<exists>e'. handle_drop poll k e = Some e' \<and> strong_count k e' = 1 \<and> ex_results e' k = ex_results e k \<and>
     (e' = e\<lparr>ex_cancelled := (ex_cancelled e)(k := True)\<rparr> \<or>
      e' = poll_once poll (e\<lparr>ex_cancelled := (ex_cancelled e)(k := True)\<rparr>))"
proof -
  let ?e = "e\<lparr>ex_cancelled := (ex_cancelled e)(k := True)\<rparr>"
  have c: "strong_count k (poll_once poll ?e) = 1" "ex_results (poll_once poll ?e) k = ex_results e k"
    using poll_once_cancelled [of ?e k poll] by simp_all
  show ?thesis
  proof (cases "strong_count k ?e > 1")
    case True
    then have "handle_drop poll k e = Some (poll_once poll ?e)"
      using c by (simp add: handle_drop_def drop_loop.simps [of poll k ?e] drop_loop.simps [of poll k "poll_once poll ?e"])
    then show ?thesis using c by blast
  next
    case False
    moreover have "strong_count k ?e \<ge> 1" by (simp add: strong_count_def)
    ultimately show ?thesis by (auto simp: handle_drop_def drop_loop.simps [of poll k ?e])
  qed
qed

text \<open>(results) Taking the result of a task that finishes returns its result, whatever the other tasks do and
  however the world changes between its polls.\<close>
theorem taken_task_returns:
  assumes "finishes poll f" "tasks_of k (ex_tasks e) = [Cancellable k f]" "\<not> ex_cancelled e k" "ex_results e k = None"
  shows "\<exists>e' v. handle_take poll k e = Some (e', v) \<and> strong_count k e' = 1 \<and> ex_results e' k = None"
  using assms
proof (induction f arbitrary: e rule: finishes.induct)
  case (1 f)
  have step: "handle_take poll k e = handle_take poll k (poll_once poll e)"
    using 1(5) by (simp add: handle_take.simps [of poll k e])
  obtain w w' new r where r: "\<not> ex_cancelled (poll_once poll e) k" "poll f w = (w', new, r)" "case r of
        Inl v \<Rightarrow> tasks_of k (ex_tasks (poll_once poll e)) = [] \<and> ex_results (poll_once poll e) k = Some v
      | Inr f' \<Rightarrow> tasks_of k (ex_tasks (poll_once poll e)) = [Cancellable k f'] \<and> ex_results (poll_once poll e) k = None"
    using poll_once_one [OF 1(3,4,5), of poll] by blast
  show ?case
  proof (cases r)
    case (Inl v)
    then show ?thesis using r(3) unfolding step
      by (simp add: handle_take.simps [of poll k "poll_once poll e"] strong_count_def tasks_of_def)
  next
    case (Inr f')
    then show ?thesis using 1(2) [of w w' new f' "poll_once poll e"] r unfolding step by auto
  qed
qed

text \<open>A world that is a counter; a future that counts down to its result and spawns one that is ready.\<close>

definition countdown :: "(nat, nat, nat) poll" where
  "countdown f w = (if f = 0 then (w + 1, [], Inl w) else (w + 1, if f = 2 then [0] else [], Inr (f - 1)))"

definition idle_executor :: "(nat, nat, nat) executor" where
  "idle_executor = \<lparr>ex_world = 0, ex_tasks = [Plain 1, Plain 0, Plain 5], ex_results = (\<lambda>k. None), ex_cancelled = (\<lambda>k. False), ex_next = 0\<rparr>"

lemma countdown_run:
  "map_option snd (handle_take countdown 0 (fst (spawn_task 3 idle_executor))) = Some 10"
  by code_simp

theorem taken_task_returns_witness:
  "finishes countdown 3 \<and> (\<exists>e' v. handle_take countdown 0 (fst (spawn_task 3 idle_executor)) = Some (e', v) \<and> strong_count 0 e' = 1)"
proof -
  have fin: "finishes countdown n" for n
  proof (induction n rule: less_induct)
    case (less n)
    show ?case by (rule finishes.intros) (use less in \<open>auto simp: countdown_def split: if_splits\<close>)
  qed
  have "tasks_of 0 (ex_tasks (fst (spawn_task 3 idle_executor))) = [Cancellable 0 3]"
    "\<not> ex_cancelled (fst (spawn_task 3 idle_executor)) 0" "ex_results (fst (spawn_task 3 idle_executor)) 0 = None"
    by (simp_all add: spawn_task_def idle_executor_def tasks_of_def)
  from taken_task_returns [OF fin this] fin show ?thesis by blast
qed

end
