(* ===== verification/Sdk_Bignum.thy ===== *)
theory Sdk_Bignum
  imports Aes
begin

text \<open>
  Big numbers of the V-App library (\<open>app-sdk/src/bignum.rs\<close>): byte strings of a fixed length, added and subtracted
  with carries, and numbers under a modulus, which are computed by system calls. The calls are parameters; the locale
  \<open>bn_laws\<close> is their contract, and the emulation for native builds (\<open>app-sdk/src/ecalls_native.rs\<close>) obeys it.
\<close>

section \<open>Addition and subtraction\<close>

text \<open>The loops go from the last byte to the first, with the carry or borrow in 16 bits, unsigned and signed.\<close>

definition max_bignum :: nat where
  "max_bignum = 64"

fun add_loop :: "nat \<Rightarrow> bytes \<Rightarrow> bytes \<Rightarrow> u16 \<Rightarrow> bytes \<Rightarrow> bytes" where
  "add_loop 0 a b carry result = result"
| "add_loop (Suc i) a b carry result =
     (let s = ucast (a ! i) + ucast (b ! i) + carry in add_loop i a b (drop_bit 8 s) (result[i := ucast s]))"

definition BigNum_add :: "bytes \<Rightarrow> bytes \<Rightarrow> bytes" where
  "BigNum_add a b = add_loop (length a) a b 0 (replicate (length a) 0)"

fun add_assign_loop :: "nat \<Rightarrow> bytes \<Rightarrow> bytes \<Rightarrow> u16 \<Rightarrow> bytes" where
  "add_assign_loop 0 a b carry = a"
| "add_assign_loop (Suc i) a b carry =
     (let s = ucast (a ! i) + ucast (b ! i) + carry in add_assign_loop i (a[i := ucast s]) b (drop_bit 8 s))"

definition BigNum_add_assign :: "bytes \<Rightarrow> bytes \<Rightarrow> bytes" where
  "BigNum_add_assign a b = add_assign_loop (length a) a b 0"

fun sub_loop :: "nat \<Rightarrow> bytes \<Rightarrow> bytes \<Rightarrow> 16 word \<Rightarrow> bytes \<Rightarrow> bytes" where
  "sub_loop 0 a b borrow result = result"
| "sub_loop (Suc i) a b borrow result =
     (let diff = ucast (a ! i) - ucast (b ! i) - borrow in
      if sint diff \<ge> 0 then sub_loop i a b 0 (result[i := ucast diff])
      else sub_loop i a b 1 (result[i := ucast (diff + 256)]))"

definition BigNum_sub :: "bytes \<Rightarrow> bytes \<Rightarrow> bytes" where
  "BigNum_sub a b = sub_loop (length a) a b 0 (replicate (length a) 0)"

fun sub_assign_loop :: "nat \<Rightarrow> bytes \<Rightarrow> bytes \<Rightarrow> 16 word \<Rightarrow> bytes" where
  "sub_assign_loop 0 a b borrow = a"
| "sub_assign_loop (Suc i) a b borrow =
     (let diff = ucast (a ! i) - ucast (b ! i) - borrow in
      if sint diff \<ge> 0 then sub_assign_loop i (a[i := ucast diff]) b 0
      else sub_assign_loop i (a[i := ucast (diff + 256)]) b 1)"

definition BigNum_sub_assign :: "bytes \<Rightarrow> bytes \<Rightarrow> bytes" where
  "BigNum_sub_assign a b = sub_assign_loop (length a) a b 0"

text \<open>\<^const>\<open>None\<close> is a panic. The length \<open>n\<close> is a parameter of the type in the code.\<close>

definition BigNum_from_be_bytes :: "bytes \<Rightarrow> bytes option" where
  "BigNum_from_be_bytes bytes = (if length bytes > max_bignum then None else Some bytes)"

definition u32_buffer :: "nat \<Rightarrow> u32 \<Rightarrow> bytes" where
  "u32_buffer n value = replicate (n - 4) 0 @ u32_to_be_bytes value"

definition BigNum_from_u32 :: "nat \<Rightarrow> u32 \<Rightarrow> bytes option" where
  "BigNum_from_u32 n value = (if n < 4 then None else Some (u32_buffer n value))"

section \<open>Numbers under a modulus\<close>

text \<open>The system calls: the new contents of the buffer for the result, or \<^const>\<open>None\<close> for a result other than 1.\<close>

record bn_calls =
  call_modm :: "bytes \<Rightarrow> bytes \<Rightarrow> bytes option"
  call_addm :: "bytes \<Rightarrow> bytes \<Rightarrow> bytes \<Rightarrow> bytes option"
  call_subm :: "bytes \<Rightarrow> bytes \<Rightarrow> bytes \<Rightarrow> bytes option"
  call_multm :: "bytes \<Rightarrow> bytes \<Rightarrow> bytes \<Rightarrow> bytes option"
  call_powm :: "bytes \<Rightarrow> bytes \<Rightarrow> bytes \<Rightarrow> bytes option"
  call_modinv_prime :: "bytes \<Rightarrow> bytes \<Rightarrow> bytes option"

text \<open>\<open>m\<close> is the modulus, whose length is that of all numbers under it.\<close>

definition BigNumMod_from_be_bytes :: "bn_calls \<Rightarrow> bytes \<Rightarrow> bytes \<Rightarrow> bytes option" where
  "BigNumMod_from_be_bytes io m buffer = (if length m > max_bignum then None else call_modm io buffer m)"

definition BigNumMod_from_be_bytes_noreduce :: "bytes \<Rightarrow> bytes \<Rightarrow> bytes option" where
  "BigNumMod_from_be_bytes_noreduce m buffer = (if length m > max_bignum then None else Some buffer)"

definition BigNumMod_from_u32 :: "bn_calls \<Rightarrow> bytes \<Rightarrow> u32 \<Rightarrow> bytes option" where
  "BigNumMod_from_u32 io m value =
     (if length m > max_bignum then None
      else if length m \<le> 4 then None
      else call_modm io (u32_buffer (length m) value) m)"

definition BigNumMod_pow :: "bn_calls \<Rightarrow> bytes \<Rightarrow> bytes \<Rightarrow> bytes \<Rightarrow> bytes option" where
  "BigNumMod_pow io m a exponent = Option.bind (call_powm io a exponent m) (BigNumMod_from_be_bytes_noreduce m)"

definition BigNumMod_inv :: "bn_calls \<Rightarrow> bytes \<Rightarrow> bytes \<Rightarrow> bytes option" where
  "BigNumMod_inv io m a = Option.bind (call_modinv_prime io a m) (BigNumMod_from_be_bytes_noreduce m)"

definition BigNumMod_add :: "bn_calls \<Rightarrow> bytes \<Rightarrow> bytes \<Rightarrow> bytes \<Rightarrow> bytes option" where
  "BigNumMod_add io m a b = Option.bind (call_addm io a b m) (BigNumMod_from_be_bytes_noreduce m)"

definition BigNumMod_add_assign :: "bn_calls \<Rightarrow> bytes \<Rightarrow> bytes \<Rightarrow> bytes \<Rightarrow> bytes option" where
  "BigNumMod_add_assign io m a b = call_addm io a b m"

definition BigNumMod_add_u32 :: "bn_calls \<Rightarrow> bytes \<Rightarrow> bytes \<Rightarrow> u32 \<Rightarrow> bytes option" where
  "BigNumMod_add_u32 io m a other = Option.bind (BigNumMod_from_u32 io m other) (BigNumMod_add io m a)"

definition BigNumMod_sub :: "bn_calls \<Rightarrow> bytes \<Rightarrow> bytes \<Rightarrow> bytes \<Rightarrow> bytes option" where
  "BigNumMod_sub io m a b = Option.bind (call_subm io a b m) (BigNumMod_from_be_bytes_noreduce m)"

definition BigNumMod_sub_assign :: "bn_calls \<Rightarrow> bytes \<Rightarrow> bytes \<Rightarrow> bytes \<Rightarrow> bytes option" where
  "BigNumMod_sub_assign io m a b = call_subm io a b m"

definition BigNumMod_sub_u32 :: "bn_calls \<Rightarrow> bytes \<Rightarrow> bytes \<Rightarrow> u32 \<Rightarrow> bytes option" where
  "BigNumMod_sub_u32 io m a other = Option.bind (BigNumMod_from_u32 io m other) (BigNumMod_sub io m a)"

definition BigNumMod_mul :: "bn_calls \<Rightarrow> bytes \<Rightarrow> bytes \<Rightarrow> bytes \<Rightarrow> bytes option" where
  "BigNumMod_mul io m a b = Option.bind (call_multm io a b m) (BigNumMod_from_be_bytes_noreduce m)"

definition BigNumMod_mul_assign :: "bn_calls \<Rightarrow> bytes \<Rightarrow> bytes \<Rightarrow> bytes \<Rightarrow> bytes option" where
  "BigNumMod_mul_assign io m a b = call_multm io a b m"

definition BigNumMod_mul_u32 :: "bn_calls \<Rightarrow> bytes \<Rightarrow> bytes \<Rightarrow> u32 \<Rightarrow> bytes option" where
  "BigNumMod_mul_u32 io m a other = Option.bind (BigNumMod_from_u32 io m other) (BigNumMod_mul io m a)"

definition BigNumMod_neg :: "bn_calls \<Rightarrow> bytes \<Rightarrow> bytes \<Rightarrow> bytes option" where
  "BigNumMod_neg io m a = Option.bind (BigNumMod_from_u32 io m 0) (\<lambda>z. BigNumMod_sub io m z a)"

section \<open>The calls of native builds\<close>

text \<open>
  \<open>BigUint\<close> is a natural number; zero has one byte. The result is read before the buffer for it is written, so that
  it may be one of the arguments.
\<close>

fun bytes_be_digits :: "nat \<Rightarrow> bytes" where
  "bytes_be_digits n = (if n < 256 then [of_nat n] else bytes_be_digits (n div 256) @ [of_nat (n mod 256)])"

declare bytes_be_digits.simps [simp del]

definition copy_result :: "nat \<Rightarrow> bytes \<Rightarrow> bytes" where
  "copy_result len result_bytes = replicate (len - length result_bytes) 0 @ result_bytes"

definition bn_result :: "nat \<Rightarrow> nat \<Rightarrow> bytes option" where
  "bn_result len result =
     (let result_bytes = bytes_be_digits result in
      if length result_bytes > len then None else Some (copy_result len result_bytes))"

definition native_bn_modm :: "bytes \<Rightarrow> bytes \<Rightarrow> bytes option" where
  "native_bn_modm n m =
     (if length n > max_bignum \<or> length m > max_bignum then None
      else if be_value m = 0 then None
      else bn_result (length n) (be_value n mod be_value m))"

definition native_bn_addm :: "bytes \<Rightarrow> bytes \<Rightarrow> bytes \<Rightarrow> bytes option" where
  "native_bn_addm a b m =
     (if length m > max_bignum then None
      else if be_value a \<ge> be_value m \<or> be_value b \<ge> be_value m then None
      else if be_value m = 0 then None
      else bn_result (length m) ((be_value a + be_value b) mod be_value m))"

definition native_bn_subm :: "bytes \<Rightarrow> bytes \<Rightarrow> bytes \<Rightarrow> bytes option" where
  "native_bn_subm a b m =
     (if length m > max_bignum then None
      else if be_value a \<ge> be_value m \<or> be_value b \<ge> be_value m then None
      else if be_value m = 0 then None
      else bn_result (length m) ((be_value a + be_value m - be_value b) mod be_value m))"

definition native_bn_multm :: "bytes \<Rightarrow> bytes \<Rightarrow> bytes \<Rightarrow> bytes option" where
  "native_bn_multm a b m =
     (if length m > max_bignum then None
      else if be_value a \<ge> be_value m \<or> be_value b \<ge> be_value m then None
      else if be_value m = 0 then None
      else bn_result (length m) (be_value a * be_value b mod be_value m))"

definition native_bn_modinv_prime :: "bytes \<Rightarrow> bytes \<Rightarrow> bytes option" where
  "native_bn_modinv_prime a p =
     (if length p > max_bignum then None
      else if be_value a = 0 \<or> be_value p = 0 then None
      else if be_value a \<ge> be_value p then None
      else bn_result (length p) (be_value a ^ (be_value p - 2) mod be_value p))"

definition native_bn_powm :: "bytes \<Rightarrow> bytes \<Rightarrow> bytes \<Rightarrow> bytes option" where
  "native_bn_powm a e m =
     (if length m > max_bignum \<or> length e > max_bignum then None
      else if be_value a \<ge> be_value m then None
      else if be_value m = 0 then None
      else bn_result (length m) (be_value a ^ be_value e mod be_value m))"

definition native_bn :: bn_calls where
  "native_bn = \<lparr>call_modm = native_bn_modm, call_addm = native_bn_addm, call_subm = native_bn_subm,
     call_multm = native_bn_multm, call_powm = native_bn_powm, call_modinv_prime = native_bn_modinv_prime\<rparr>"

section \<open>Addition and subtraction are those of numbers\<close>

lemma length_loops [simp]:
  "length (add_loop i a b c r) = length r" "length (add_assign_loop i a b c) = length a"
  "length (sub_loop i a b d r) = length r" "length (sub_assign_loop i a b d) = length a"
proof -
  show "length (add_loop i a b c r) = length r" by (induction i arbitrary: c r) (simp_all add: Let_def)
  show "length (add_assign_loop i a b c) = length a" by (induction i arbitrary: c a) (simp_all add: Let_def)
  show "length (sub_loop i a b d r) = length r" by (induction i arbitrary: d r) (simp_all add: Let_def)
  show "length (sub_assign_loop i a b d) = length a" by (induction i arbitrary: d a) (simp_all add: Let_def)
qed

lemma digit_step:
  "i < length xs \<Longrightarrow> int (be_value (take (Suc i) xs)) = int (be_value (take i xs)) * 256 + int (unat (xs ! i))"
  by (simp add: take_Suc_conv_app_nth be_value_append) (simp add: be_value_def)

lemma int_digit: "(A * 256 + s) mod 256 ^ Suc i = (A + s div 256) mod 256 ^ i * 256 + s mod 256" for A s :: int
proof -
  have "(A * 256 + s) mod (256 * 256 ^ i) = 256 * ((A * 256 + s) div 256 mod 256 ^ i) + (A * 256 + s) mod 256"
    by (rule zmod_zmult2_eq) simp
  moreover have "(A * 256 + s) div 256 = A + s div 256" "(A * 256 + s) mod 256 = s mod 256" by simp_all
  ultimately show ?thesis by simp
qed

text \<open>A loop over the first \<open>i\<close> digits whose result is \<open>R\<close>: what one more digit makes of it.\<close>

lemma loop_step:
  assumes "i < length r" "i < length a" "i < length b"
    "drop i R = drop i (r[i := d])" "length R = length r"
    "int (be_value (take i R)) = (int (be_value (take i a)) + sg * int (be_value (take i b)) + s div 256) mod 256 ^ i"
    "int (unat (a ! i)) + sg * int (unat (b ! i)) + c = s" "int (unat d) = s mod 256"
  shows "int (be_value (take (Suc i) R)) =
      (int (be_value (take (Suc i) a)) + sg * int (be_value (take (Suc i) b)) + c) mod 256 ^ Suc i \<and>
    drop (Suc i) R = drop (Suc i) r"
proof -
  have "R ! i = d"
    using assms(1,4,5) by (metis hd_drop_conv_nth length_list_update nth_list_update_eq)
  then have "int (be_value (take (Suc i) R)) =
      (int (be_value (take i a)) + sg * int (be_value (take i b)) + s div 256) mod 256 ^ i * 256 + s mod 256"
    using digit_step [of i R] assms by simp
  also have "\<dots> = ((int (be_value (take i a)) + sg * int (be_value (take i b))) * 256 + s) mod 256 ^ Suc i"
    by (simp only: int_digit)
  also have "(int (be_value (take i a)) + sg * int (be_value (take i b))) * 256 + s =
      int (be_value (take (Suc i) a)) + sg * int (be_value (take (Suc i) b)) + c"
    using digit_step assms(2,3,7) by (simp add: algebra_simps)
  finally have 1: "int (be_value (take (Suc i) R)) =
      (int (be_value (take (Suc i) a)) + sg * int (be_value (take (Suc i) b)) + c) mod 256 ^ Suc i" .
  have "drop (Suc i) R = drop 1 (drop i R)" by simp
  also have "\<dots> = drop (Suc i) r" by (simp add: assms(4) drop_Suc_Cons)
  finally show ?thesis using 1 by blast
qed

lemma unat_to_byte: "unat (ucast s :: u8) = unat s mod 256" for s :: "16 word"
  by (simp add: unsigned_ucast_eq take_bit_eq_mod)

lemma carry_word:
  fixes x y :: u8 and c :: u16
  defines "s \<equiv> ucast x + ucast y + c"
  assumes "unat c \<le> 1"
  shows "int (unat (ucast s :: u8)) = (int (unat x) + int (unat y) + int (unat c)) mod 256"
    "int (unat (drop_bit 8 s)) = (int (unat x) + int (unat y) + int (unat c)) div 256"
    "unat (drop_bit 8 s) \<le> 1"
proof -
  have b: "unat x < 256" "unat y < 256" by (rule u8_less)+
  then have s: "unat s = unat x + unat y + unat c" using assms(2)
    by (simp add: s_def unat_word_ariths unsigned_ucast_eq take_bit_nat_eq_self)
  show "int (unat (ucast s :: u8)) = (int (unat x) + int (unat y) + int (unat c)) mod 256"
    unfolding unat_to_byte s by (simp add: zmod_int)
  have "unat (drop_bit 8 s) = unat s div 256" unfolding unat_drop_bit_eq by (simp add: drop_bit_eq_div)
  then show "int (unat (drop_bit 8 s)) = (int (unat x) + int (unat y) + int (unat c)) div 256" "unat (drop_bit 8 s) \<le> 1"
    using b assms(2) unfolding s by (simp_all add: zdiv_int)
qed

lemma borrow_word:
  fixes x y :: u8 and c :: "16 word"
  assumes "unat c \<le> 1"
  shows "sint (ucast x - ucast y - c) = int (unat x) - int (unat y) - int (unat c)"
proof -
  have diff: "ucast x - ucast y - c = (word_of_int (uint x - uint y - uint c) :: 16 word)"
    by (simp flip: wi_hom_sub)
  have "uint x < 256" "0 \<le> uint x" "uint y < 256" "0 \<le> uint y" "0 \<le> uint c" "uint c \<le> 1"
    using uint_lt2p [of x] uint_lt2p [of y] assms uint_nat [of c] by (simp, simp, simp, simp, simp, linarith)
  then have "- 32768 \<le> uint x - uint y - uint c" "uint x - uint y - uint c < 32768" by linarith+
  then have "sint (ucast x - ucast y - c) = uint x - uint y - uint c"
    unfolding diff sint_sbintrunc' by (intro signed_take_bit_int_eq_self) simp_all
  then show ?thesis unfolding uint_nat .
qed

lemma unat_byte_of_int: "int (unat (ucast d :: u8)) = sint d mod 256" for d :: "16 word"
proof -
  have "int (unat (ucast d :: u8)) = int (unat d) mod 256" unfolding unat_to_byte by (simp add: zmod_int)
  also have "int (unat d) mod 256 = sint d mod 256"
  proof -
    have "uint d = sint d mod 65536" using uint_sint [of d] by (simp add: take_bit_eq_mod)
    then show ?thesis by (simp add: mod_mod_cancel flip: uint_nat)
  qed
  finally show ?thesis .
qed

lemma add_loop_value:
  assumes "i \<le> length a" "i \<le> length b" "i \<le> length r" "unat c \<le> 1"
  shows "int (be_value (take i (add_loop i a b c r))) = (int (be_value (take i a)) + 1 * int (be_value (take i b)) + int (unat c)) mod 256 ^ i \<and>
    drop i (add_loop i a b c r) = drop i r"
  using assms
proof (induction i arbitrary: c r)
  case (Suc i)
  define s where "s = ucast (a ! i) + ucast (b ! i) + c"
  note w = carry_word [OF Suc.prems(4), of "a ! i" "b ! i", folded s_def]
  have IH: "int (be_value (take i (add_loop i a b (drop_bit 8 s) (r[i := ucast s])))) =
      (int (be_value (take i a)) + 1 * int (be_value (take i b)) + int (unat (drop_bit 8 s))) mod 256 ^ i \<and>
      drop i (add_loop i a b (drop_bit 8 s) (r[i := ucast s])) = drop i (r[i := ucast s])"
    by (rule Suc.IH) (use Suc.prems w(3) in simp_all)
  have eq: "add_loop (Suc i) a b c r = add_loop i a b (drop_bit 8 s) (r[i := ucast s])" by (simp add: s_def Let_def)
  show ?case unfolding eq
    by (rule loop_step [where d = "ucast s" and s = "int (unat (a ! i)) + int (unat (b ! i)) + int (unat c)"])
      (use Suc.prems IH w in simp_all)
qed (simp add: be_value_def)

lemma add_assign_loop_value:
  assumes "i \<le> length a" "i \<le> length b" "unat c \<le> 1"
  shows "int (be_value (take i (add_assign_loop i a b c))) = (int (be_value (take i a)) + 1 * int (be_value (take i b)) + int (unat c)) mod 256 ^ i \<and>
    drop i (add_assign_loop i a b c) = drop i a"
  using assms
proof (induction i arbitrary: c a)
  case (Suc i)
  define s where "s = ucast (a ! i) + ucast (b ! i) + c"
  note w = carry_word [OF Suc.prems(3), of "a ! i" "b ! i", folded s_def]
  have IH: "int (be_value (take i (add_assign_loop i (a[i := ucast s]) b (drop_bit 8 s)))) =
      (int (be_value (take i (a[i := ucast s]))) + 1 * int (be_value (take i b)) + int (unat (drop_bit 8 s))) mod 256 ^ i \<and>
      drop i (add_assign_loop i (a[i := ucast s]) b (drop_bit 8 s)) = drop i (a[i := ucast s])"
    by (rule Suc.IH) (use Suc.prems w(3) in simp_all)
  have eq: "add_assign_loop (Suc i) a b c = add_assign_loop i (a[i := ucast s]) b (drop_bit 8 s)" by (simp add: s_def Let_def)
  show ?case unfolding eq
    by (rule loop_step [where d = "ucast s" and s = "int (unat (a ! i)) + int (unat (b ! i)) + int (unat c)"])
      (use Suc.prems IH w in simp_all)
qed (simp add: be_value_def)

text \<open>The next digit and borrow of a subtraction.\<close>

lemma borrow_step:
  fixes d :: "16 word"
  assumes "sint d = int (unat x) - int (unat y) - int (unat c)" "unat c \<le> 1" "x = (x' :: u8)" "y = (y' :: u8)"
  shows "sint d \<ge> 0 \<Longrightarrow> sint d div 256 = 0 \<and> int (unat (ucast d :: u8)) = sint d mod 256"
    "\<not> sint d \<ge> 0 \<Longrightarrow> sint d div 256 = - 1 \<and> int (unat (ucast (d + 256) :: u8)) = sint d mod 256"
proof -
  have b: "unat x < 256" "unat y < 256" using u8_less assms(3,4) by simp_all
  show "sint d \<ge> 0 \<Longrightarrow> sint d div 256 = 0 \<and> int (unat (ucast d :: u8)) = sint d mod 256"
    using assms(1) b unat_byte_of_int [of d] div_pos_pos_trivial [of "sint d" 256] by linarith
  have "ucast (d + 256) = (ucast d :: u8)" by (simp add: word_unat_eq_iff unat_to_byte unat_word_ariths mod_mod_cancel)
  moreover assume "\<not> sint d \<ge> 0"
  then have "sint d div 256 = - 1" using assms(1,2) b by (intro int_div_pos_eq [of _ _ _ "sint d + 256"]) linarith+
  ultimately show "sint d div 256 = - 1 \<and> int (unat (ucast (d + 256) :: u8)) = sint d mod 256"
    using unat_byte_of_int [of d] by simp
qed

lemma sub_loop_value:
  assumes "i \<le> length a" "i \<le> length b" "i \<le> length r" "unat c \<le> 1"
  shows "int (be_value (take i (sub_loop i a b c r))) = (int (be_value (take i a)) + (-1) * int (be_value (take i b)) + - int (unat c)) mod 256 ^ i \<and>
    drop i (sub_loop i a b c r) = drop i r"
  using assms
proof (induction i arbitrary: c r)
  case (Suc i)
  define d where "d = ucast (a ! i) - ucast (b ! i) - c"
  note diff = borrow_word [OF Suc.prems(4), of "a ! i" "b ! i", folded d_def]
  define c' :: "16 word" and e :: u8 where "c' = (if sint d \<ge> 0 then 0 else 1)" and "e = ucast (if sint d \<ge> 0 then d else d + 256)"
  have s: "sint d div 256 = - int (unat c') \<and> int (unat e) = sint d mod 256"
    using borrow_step [OF diff Suc.prems(4) refl refl] by (simp add: c'_def e_def)
  have IH: "int (be_value (take i (sub_loop i a b c' (r[i := e])))) =
      (int (be_value (take i a)) + (-1) * int (be_value (take i b)) + - int (unat c')) mod 256 ^ i \<and>
      drop i (sub_loop i a b c' (r[i := e])) = drop i (r[i := e])"
    by (rule Suc.IH) (use Suc.prems in \<open>simp_all add: c'_def\<close>)
  have eq: "sub_loop (Suc i) a b c r = sub_loop i a b c' (r[i := e])" by (simp add: d_def c'_def e_def Let_def)
  show ?case unfolding eq
    by (rule loop_step [where d = e and s = "sint d"]) (use Suc.prems IH s diff in simp_all)
qed (simp add: be_value_def)

lemma sub_assign_loop_value:
  assumes "i \<le> length a" "i \<le> length b" "unat c \<le> 1"
  shows "int (be_value (take i (sub_assign_loop i a b c))) = (int (be_value (take i a)) + (-1) * int (be_value (take i b)) + - int (unat c)) mod 256 ^ i \<and>
    drop i (sub_assign_loop i a b c) = drop i a"
  using assms
proof (induction i arbitrary: c a)
  case (Suc i)
  define d where "d = ucast (a ! i) - ucast (b ! i) - c"
  note diff = borrow_word [OF Suc.prems(3), of "a ! i" "b ! i", folded d_def]
  define c' :: "16 word" and e :: u8 where "c' = (if sint d \<ge> 0 then 0 else 1)" and "e = ucast (if sint d \<ge> 0 then d else d + 256)"
  have s: "sint d div 256 = - int (unat c') \<and> int (unat e) = sint d mod 256"
    using borrow_step [OF diff Suc.prems(3) refl refl] by (simp add: c'_def e_def)
  have IH: "int (be_value (take i (sub_assign_loop i (a[i := e]) b c'))) =
      (int (be_value (take i (a[i := e]))) + (-1) * int (be_value (take i b)) + - int (unat c')) mod 256 ^ i \<and>
      drop i (sub_assign_loop i (a[i := e]) b c') = drop i (a[i := e])"
    by (rule Suc.IH) (use Suc.prems in \<open>simp_all add: c'_def\<close>)
  have eq: "sub_assign_loop (Suc i) a b c = sub_assign_loop i (a[i := e]) b c'" by (simp add: d_def c'_def e_def Let_def)
  show ?case unfolding eq
    by (rule loop_step [where d = e and s = "sint d"]) (use Suc.prems IH s diff in simp_all)
qed (simp add: be_value_def)

lemma BigNum_values:
  assumes "length b = length a"
  shows "length (BigNum_add a b) = length a \<and> be_value (BigNum_add a b) = (be_value a + be_value b) mod 256 ^ length a"
    "length (BigNum_sub a b) = length a \<and> int (be_value (BigNum_sub a b)) = (int (be_value a) - int (be_value b)) mod 256 ^ length a"
    "BigNum_add_assign a b = BigNum_add a b" "BigNum_sub_assign a b = BigNum_sub a b"
proof -
  have sum: "int (be_value (BigNum_add a b)) = (int (be_value a) + int (be_value b)) mod 256 ^ length a"
    "int (be_value (BigNum_add_assign a b)) = (int (be_value a) + int (be_value b)) mod 256 ^ length a"
    using add_loop_value [of "length a" a b "replicate (length a) 0" 0] add_assign_loop_value [of "length a" a b 0] assms
    by (simp_all add: BigNum_add_def BigNum_add_assign_def)
  have diff: "int (be_value (BigNum_sub a b)) = (int (be_value a) - int (be_value b)) mod 256 ^ length a"
    "int (be_value (BigNum_sub_assign a b)) = (int (be_value a) - int (be_value b)) mod 256 ^ length a"
    using sub_loop_value [of "length a" a b "replicate (length a) 0" 0] sub_assign_loop_value [of "length a" a b 0] assms
    by (simp_all add: BigNum_sub_def BigNum_sub_assign_def)
  have len: "length (BigNum_add a b) = length a" "length (BigNum_sub a b) = length a"
    "length (BigNum_add_assign a b) = length a" "length (BigNum_sub_assign a b) = length a"
    by (simp_all add: BigNum_add_def BigNum_sub_def BigNum_add_assign_def BigNum_sub_assign_def)
  have "int (be_value (BigNum_add a b)) = int ((be_value a + be_value b) mod 256 ^ length a)"
    by (simp add: sum zmod_int)
  then show "length (BigNum_add a b) = length a \<and> be_value (BigNum_add a b) = (be_value a + be_value b) mod 256 ^ length a"
    using len by (simp del: of_nat_add of_nat_mod)
  show "length (BigNum_sub a b) = length a \<and> int (be_value (BigNum_sub a b)) = (int (be_value a) - int (be_value b)) mod 256 ^ length a"
    using len diff by simp
  show "BigNum_add_assign a b = BigNum_add a b" "BigNum_sub_assign a b = BigNum_sub a b"
    by (rule be_value_inject; use len sum diff in simp)+
qed

section \<open>The calls compute under the modulus\<close>

lemma digits_value: "be_value (bytes_be_digits n) = n"
proof (induction n rule: bytes_be_digits.induct)
  case (1 n)
  have byte: "k < 256 \<Longrightarrow> unat (of_nat k :: u8) = k" for k
    by (simp add: unat_of_nat take_bit_nat_eq_self)
  show ?case
  proof (cases "n < 256")
    case True
    then show ?thesis using byte [of n] by (simp add: bytes_be_digits.simps be_value_def)
  next
    case False
    then have "be_value (bytes_be_digits n) = n div 256 * 256 + be_value [of_nat (n mod 256)]"
      using 1 by (subst bytes_be_digits.simps) (simp add: be_value_append)
    also have "\<dots> = n" using byte [of "n mod 256"] by (simp add: be_value_def)
    finally show ?thesis .
  qed
qed

lemma length_digits: "n < 256 ^ k \<Longrightarrow> 0 < k \<Longrightarrow> length (bytes_be_digits n) \<le> k"
proof (induction n arbitrary: k rule: bytes_be_digits.induct)
  case (1 n)
  show ?case
  proof (cases "n < 256")
    case True
    then show ?thesis using 1 by (simp add: bytes_be_digits.simps)
  next
    case False
    then obtain j where j: "k = Suc j" "0 < j" using 1(2,3) by (cases k; cases "k - 1") auto
    then have "n div 256 < 256 ^ j" using 1(2) by (simp add: div_less_iff_less_mult mult.commute)
    then have "length (bytes_be_digits (n div 256)) \<le> j" using 1(1) False j(2) by blast
    then show ?thesis using False j by (subst bytes_be_digits.simps) simp
  qed
qed

lemma bn_result_value:
  assumes "v < be_value m"
  shows "\<exists>r. bn_result (length m) v = Some r \<and> length r = length m \<and> be_value r = v"
proof -
  have "0 < length m" using assms by (cases m) (simp_all add: be_value_def)
  moreover have "v < 256 ^ length m" using assms be_value_less [of m] by simp
  ultimately have "length (bytes_be_digits v) \<le> length m" by (rule length_digits [rotated])
  then show ?thesis by (simp add: bn_result_def copy_result_def Let_def be_value_append digits_value)
qed

subsection \<open>Inverses\<close>

definition is_prime :: "nat \<Rightarrow> bool" where
  "is_prime p \<longleftrightarrow> 1 < p \<and> (\<forall>k\<in>{2..<p}. \<not> k dvd p)"

lemma prime_coprime:
  assumes "is_prime p" "\<not> p dvd k"
  shows "coprime k p"
proof -
  have "0 < p" using assms(1) by (simp add: is_prime_def)
  have "gcd k p dvd p" by simp
  then have "gcd k p \<le> p" "gcd k p \<noteq> 0" using \<open>0 < p\<close> by (auto dest: dvd_imp_le)
  moreover have "gcd k p \<noteq> p" using assms(2) by (metis gcd_dvd1)
  ultimately have "gcd k p < 2" using assms(1) \<open>gcd k p dvd p\<close> unfolding is_prime_def
    by (metis atLeastLessThan_iff le_neq_implies_less not_less)
  then have "gcd k p = 1" using \<open>gcd k p \<noteq> 0\<close> by linarith
  then show ?thesis by (simp only: coprime_iff_gcd_eq_1)
qed

lemma prime_dvd_choose:
  assumes "is_prime p" "0 < k" "k < p"
  shows "p dvd (p choose k)"
proof -
  obtain n j where n: "p = Suc n" "k = Suc j" using assms(2,3) by (cases p; cases k) auto
  have "p dvd (p choose k) * k" using Suc_times_binomial_eq [of n j] n by (metis dvd_triv_left)
  moreover have "coprime p k"
    using prime_coprime [OF assms(1) nat_dvd_not_less [OF assms(2,3)]] by (simp add: coprime_commute)
  ultimately show ?thesis by (simp add: coprime_dvd_mult_left_iff)
qed

lemma fermat_power: "is_prime p \<Longrightarrow> a ^ p mod p = a mod p"
proof (induction a)
  case 0
  then show ?case by (simp add: is_prime_def power_0_left)
next
  case (Suc a)
  let ?f = "\<lambda>k. (p choose k) * a ^ k"
  have p: "0 < p" using Suc.prems by (simp add: is_prime_def)
  have "Suc a ^ p = (\<Sum>k\<le>p. ?f k)" using binomial [of a 1 p] by simp
  also have "{..p} = insert 0 (insert p {1..<p})" using p by auto
  also have "(\<Sum>k\<in>insert 0 (insert p {1..<p}). ?f k) = 1 + a ^ p + (\<Sum>k\<in>{1..<p}. ?f k)" using p by simp
  finally have sum: "Suc a ^ p = 1 + a ^ p + (\<Sum>k\<in>{1..<p}. ?f k)" .
  have "p dvd (\<Sum>k\<in>{1..<p}. ?f k)" by (rule dvd_sum) (use prime_dvd_choose [OF Suc.prems] in auto)
  then have "Suc a ^ p mod p = (1 + a ^ p) mod p" unfolding sum by (metis mod_add_right_eq dvd_imp_mod_0 add_0_right)
  also have "\<dots> = Suc a mod p" using Suc by (metis mod_add_right_eq plus_1_eq_Suc)
  finally show ?case .
qed

lemma fermat_inverse:
  assumes "is_prime p" "0 < a" "a < p"
  shows "a * (a ^ (p - 2) mod p) mod p = 1"
proof -
  have p: "1 < p" using assms(1) by (simp add: is_prime_def)
  have cop: "coprime a p" by (rule prime_coprime [OF assms(1) nat_dvd_not_less [OF assms(2,3)]])
  have "a * a ^ (p - 1) = a ^ p" using p by (simp flip: power_Suc)
  then have "a * a ^ (p - 1) mod p = a * 1 mod p" using fermat_power [OF assms(1), of a] by simp
  then have "p dvd a * a ^ (p - 1) - a * 1" using assms(2) by (simp add: mod_eq_dvd_iff_nat)
  then have "p dvd a * (a ^ (p - 1) - 1)" by (simp add: diff_mult_distrib2)
  then have "p dvd a ^ (p - 1) - 1" using cop by (simp add: coprime_dvd_mult_right_iff coprime_commute)
  moreover have "1 \<le> a ^ (p - 1)" using assms(2) by simp
  ultimately have "a ^ (p - 1) mod p = 1 mod p" using mod_eq_dvd_iff_nat by blast
  moreover have "a * a ^ (p - 2) = a ^ (p - 1)" using p by (simp flip: power_Suc) (simp add: numeral_2_eq_2 Suc_diff_Suc)
  ultimately show ?thesis using p by (simp add: mod_mult_right_eq)
qed

subsection \<open>The contract of the calls\<close>

lemma u32_bytes_value: "be_value (u32_to_be_bytes value) = unat value"
proof -
  let ?n = "unat value"
  have byte: "unat (ucast (drop_bit k value) :: u8) = ?n div 2 ^ k mod 256" for k
    unfolding unsigned_ucast_eq unat_drop_bit_eq by (simp add: take_bit_eq_mod drop_bit_eq_div)
  have "?n < 2 ^ 32" using unsigned_less [of "value"] by simp
  then have top: "?n div 2 ^ 24 mod 256 = ?n div 256 div 256 div 256" by (simp flip: div_mult2_eq)
  have "?n div 2 ^ 16 = ?n div 256 div 256" "?n div 2 ^ 8 = ?n div 256" by (simp_all flip: div_mult2_eq)
  then have "be_value (u32_to_be_bytes value) =
      ((?n div 256 div 256 div 256 * 256 + ?n div 256 div 256 mod 256) * 256 + ?n div 256 mod 256) * 256 + ?n mod 256"
    using byte [of 24] byte [of 16] byte [of 8] byte [of 0] top by (simp add: be_value_def u32_to_be_bytes_def)
  also have "\<dots> = ?n" by (simp only: div_mult_mod_eq)
  finally show ?thesis .
qed

definition mod_number :: "bytes \<Rightarrow> bytes \<Rightarrow> bool" where
  "mod_number m a \<longleftrightarrow> length a = length m \<and> be_value a < be_value m"

text \<open>A result is the number under the modulus that \<open>v\<close> is congruent to.\<close>

definition yields :: "bytes \<Rightarrow> bytes option \<Rightarrow> int \<Rightarrow> bool" where
  "yields m res v \<longleftrightarrow> (\<exists>r. res = Some r \<and> mod_number m r \<and> int (be_value r) = v mod int (be_value m))"

locale bn_laws =
  fixes io :: bn_calls
  assumes modm: "length n = length m \<Longrightarrow> length m \<le> max_bignum \<Longrightarrow> 0 < be_value m \<Longrightarrow> yields m (call_modm io n m) (int (be_value n))"
    and addm: "length m \<le> max_bignum \<Longrightarrow> mod_number m a \<Longrightarrow> mod_number m b \<Longrightarrow>
      yields m (call_addm io a b m) (int (be_value a) + int (be_value b))"
    and subm: "length m \<le> max_bignum \<Longrightarrow> mod_number m a \<Longrightarrow> mod_number m b \<Longrightarrow>
      yields m (call_subm io a b m) (int (be_value a) - int (be_value b))"
    and multm: "length m \<le> max_bignum \<Longrightarrow> mod_number m a \<Longrightarrow> mod_number m b \<Longrightarrow>
      yields m (call_multm io a b m) (int (be_value a) * int (be_value b))"
    and powm: "length m \<le> max_bignum \<Longrightarrow> length e \<le> max_bignum \<Longrightarrow> mod_number m a \<Longrightarrow>
      yields m (call_powm io a e m) (int (be_value a) ^ be_value e)"
    and modinv_prime: "length m \<le> max_bignum \<Longrightarrow> is_prime (be_value m) \<Longrightarrow> mod_number m a \<Longrightarrow> 0 < be_value a \<Longrightarrow>
      \<exists>r. call_modinv_prime io a m = Some r \<and> mod_number m r \<and> be_value a * be_value r mod be_value m = 1"
begin

lemma noreduce: "length m \<le> max_bignum \<Longrightarrow> Option.bind res (BigNumMod_from_be_bytes_noreduce m) = res"
  by (cases res) (simp_all add: BigNumMod_from_be_bytes_noreduce_def)

lemma ring:
  assumes "length m \<le> max_bignum" "mod_number m a" "mod_number m b"
  shows "yields m (BigNumMod_add io m a b) (int (be_value a) + int (be_value b))"
    "yields m (BigNumMod_sub io m a b) (int (be_value a) - int (be_value b))"
    "yields m (BigNumMod_mul io m a b) (int (be_value a) * int (be_value b))"
  using addm [OF assms] subm [OF assms] multm [OF assms] noreduce [OF assms(1)]
  by (simp_all add: BigNumMod_add_def BigNumMod_sub_def BigNumMod_mul_def)

lemma pow: "length m \<le> max_bignum \<Longrightarrow> length e \<le> max_bignum \<Longrightarrow> mod_number m a
    \<Longrightarrow> yields m (BigNumMod_pow io m a e) (int (be_value a) ^ be_value e)"
  using powm noreduce by (simp add: BigNumMod_pow_def)

lemma inv: "length m \<le> max_bignum \<Longrightarrow> is_prime (be_value m) \<Longrightarrow> mod_number m a \<Longrightarrow> 0 < be_value a
    \<Longrightarrow> \<exists>r. BigNumMod_inv io m a = Some r \<and> mod_number m r \<and> be_value a * be_value r mod be_value m = 1"
  using modinv_prime noreduce by (simp add: BigNumMod_inv_def)

lemma from_u32:
  assumes "4 < length m" "length m \<le> max_bignum" "0 < be_value m"
  shows "yields m (BigNumMod_from_u32 io m value) (int (unat value))"
proof -
  have "be_value (u32_to_be_bytes value) = unat value" by (rule u32_bytes_value)
  moreover have "be_value (u32_buffer (length m) value) = be_value (u32_to_be_bytes value)"
    by (simp add: u32_buffer_def be_value_append)
  ultimately show ?thesis using modm [of "u32_buffer (length m) value" m] assms
    by (simp add: BigNumMod_from_u32_def u32_buffer_def)
qed

lemma neg:
  assumes "4 < length m" "length m \<le> max_bignum" "mod_number m a"
  shows "yields m (BigNumMod_neg io m a) (- int (be_value a))"
proof -
  have "0 < be_value m" using assms(3) by (simp add: mod_number_def)
  from from_u32 [OF assms(1,2) this, of 0] obtain z where z: "BigNumMod_from_u32 io m 0 = Some z" "mod_number m z" "be_value z = 0"
    by (auto simp: yields_def)
  from ring(2) [OF assms(2) z(2) assms(3)] show ?thesis by (simp add: BigNumMod_neg_def z)
qed

end

section \<open>The native calls obey the contract\<close>

lemma bn_result_yields:
  assumes "0 < be_value m" "v = int w mod int (be_value m)"
  shows "yields m (bn_result (length m) (w mod be_value m)) v"
proof -
  obtain r where "bn_result (length m) (w mod be_value m) = Some r" "length r = length m" "be_value r = w mod be_value m"
    using bn_result_value [of "w mod be_value m" m] assms(1) by auto
  then show ?thesis using assms by (simp add: yields_def mod_number_def zmod_int)
qed

interpretation native: bn_laws native_bn
proof
  fix m n a b e :: bytes
  show "yields m (call_modm native_bn n m) (int (be_value n))"
    if "length n = length m" "length m \<le> max_bignum" "0 < be_value m"
    using that bn_result_yields [of m "int (be_value n) mod int (be_value m)" "be_value n"]
    by (simp add: native_bn_def native_bn_modm_def yields_def)
  show "yields m (call_addm native_bn a b m) (int (be_value a) + int (be_value b))"
    if "length m \<le> max_bignum" "mod_number m a" "mod_number m b"
    using that bn_result_yields [of m _ "be_value a + be_value b", OF _ refl]
    by (simp add: native_bn_def native_bn_addm_def mod_number_def yields_def)
  show "yields m (call_subm native_bn a b m) (int (be_value a) - int (be_value b))"
    if "length m \<le> max_bignum" "mod_number m a" "mod_number m b"
  proof -
    have "int (be_value a + be_value m - be_value b) = int (be_value a) - int (be_value b) + int (be_value m)"
      using that(3) by (simp add: mod_number_def of_nat_diff)
    then have "int (be_value a + be_value m - be_value b) mod int (be_value m) = (int (be_value a) - int (be_value b)) mod int (be_value m)"
      by (simp only: mod_add_self2)
    then show ?thesis
      using that bn_result_yields [of m _ "be_value a + be_value m - be_value b", OF _ refl]
      by (simp add: native_bn_def native_bn_subm_def mod_number_def yields_def del: of_nat_diff)
  qed
  show "yields m (call_multm native_bn a b m) (int (be_value a) * int (be_value b))"
    if "length m \<le> max_bignum" "mod_number m a" "mod_number m b"
    using that bn_result_yields [of m _ "be_value a * be_value b", OF _ refl]
    by (simp add: native_bn_def native_bn_multm_def mod_number_def yields_def)
  show "yields m (call_powm native_bn a e m) (int (be_value a) ^ be_value e)"
    if "length m \<le> max_bignum" "length e \<le> max_bignum" "mod_number m a"
    using that bn_result_yields [of m _ "be_value a ^ be_value e", OF _ refl]
    by (simp add: native_bn_def native_bn_powm_def mod_number_def yields_def)
  show "\<exists>r. call_modinv_prime native_bn a m = Some r \<and> mod_number m r \<and> be_value a * be_value r mod be_value m = 1"
    if "length m \<le> max_bignum" "is_prime (be_value m)" "mod_number m a" "0 < be_value a"
  proof -
    have less: "be_value a < be_value m" and pos: "0 < be_value a" and len: "length a = length m" using that(3,4) by (simp_all add: mod_number_def)
    then obtain r where "bn_result (length m) (be_value a ^ (be_value m - 2) mod be_value m) = Some r"
        "length r = length m" "be_value r = be_value a ^ (be_value m - 2) mod be_value m"
      using bn_result_value [of "be_value a ^ (be_value m - 2) mod be_value m" m] pos less by auto
    then show ?thesis
      using that less len fermat_inverse [OF that(2,4)] by (simp add: native_bn_def native_bn_modinv_prime_def mod_number_def)
  qed
qed

text \<open>(carries) Addition and subtraction of big numbers, also in place, are those of the numbers modulo \<open>256 ^ N\<close>:
  the carries and borrows in 16 bits do not overflow, and the loops over the bytes lose nothing but the last carry.\<close>
theorem bignum_arithmetic:
  assumes "length b = length a"
  shows "length (BigNum_add a b) = length a \<and> be_value (BigNum_add a b) = (be_value a + be_value b) mod 256 ^ length a \<and>
    length (BigNum_sub a b) = length a \<and> int (be_value (BigNum_sub a b)) = (int (be_value a) - int (be_value b)) mod 256 ^ length a \<and>
    BigNum_add_assign a b = BigNum_add a b \<and> BigNum_sub_assign a b = BigNum_sub a b"
  using BigNum_values [OF assms] by blast

theorem bignum_arithmetic_witness:
  "BigNum_add [0xff, 0xff, 0x01] [0x00, 0x00, 0xff] = [0, 0, 0] \<and> BigNum_sub [0, 0, 1] [0, 0, 2] = [0xff, 0xff, 0xff] \<and>
   be_value (BigNum_add [0xff, 0xff, 0x01] [0x00, 0x00, 0xff]) = 0 \<and> BigNum_sub_assign [0, 0, 1] [0, 0, 2] = [0xff, 0xff, 0xff]"
proof -
  have run: "BigNum_add [0xff, 0xff, 0x01] [0x00, 0x00, 0xff] = [0, 0, 0]" "BigNum_sub [0, 0, 1] [0, 0, 2] = [0xff, 0xff, 0xff]"
    by code_simp+
  then show ?thesis using bignum_arithmetic [of "[0x00, 0x00, 0xff]" "[0xff, 0xff, 0x01]"] bignum_arithmetic [of "[0, 0, 2]" "[0, 0, 1]"]
    by (simp add: be_value_def)
qed

text \<open>C30: (modular arithmetic) In native builds, numbers under a modulus of 5 to 64 bytes are computed with as residues:
  sums, differences, products, negatives and powers of numbers below the modulus are the residues of those of the
  integers, without a panic, and numbers made from bytes or from 32 bits are reduced. For a prime modulus, \<open>inv\<close>
  is the inverse, by the little theorem of Fermat.\<close>
theorem bignum_mod_arithmetic:
  assumes "4 < length m" "length m \<le> max_bignum" "length e \<le> max_bignum" "mod_number m a" "mod_number m b" "length n = length m"
  shows "yields m (BigNumMod_from_be_bytes native_bn m n) (int (be_value n)) \<and>
    yields m (BigNumMod_from_u32 native_bn m v) (int (unat v)) \<and>
    yields m (BigNumMod_add native_bn m a b) (int (be_value a) + int (be_value b)) \<and>
    yields m (BigNumMod_sub native_bn m a b) (int (be_value a) - int (be_value b)) \<and>
    yields m (BigNumMod_mul native_bn m a b) (int (be_value a) * int (be_value b)) \<and>
    yields m (BigNumMod_neg native_bn m a) (- int (be_value a)) \<and>
    yields m (BigNumMod_pow native_bn m a e) (int (be_value a) ^ be_value e) \<and>
    (is_prime (be_value m) \<longrightarrow> 0 < be_value a \<longrightarrow>
      (\<exists>r. BigNumMod_inv native_bn m a = Some r \<and> mod_number m r \<and> be_value a * be_value r mod be_value m = 1))"
proof -
  have "0 < be_value m" using assms(4) by (simp add: mod_number_def)
  then show ?thesis
    using native.modm [OF assms(6,2)] native.from_u32 [OF assms(1,2)] native.ring [OF assms(2,4,5)]
      native.neg [OF assms(1,2,4)] native.pow [OF assms(2,3,4)] native.inv [OF assms(2) _ assms(4)] assms(2)
    by (simp add: BigNumMod_from_be_bytes_def)
qed

text \<open>The number 3 under the modulus 7, in five bytes.\<close>

theorem bignum_mod_arithmetic_witness:
  "mod_number [0, 0, 0, 0, 7] [0, 0, 0, 0, 3] \<and> is_prime (be_value [0, 0, 0, 0, 7]) \<and>
   (\<exists>r. BigNumMod_inv native_bn [0, 0, 0, 0, 7] [0, 0, 0, 0, 3] = Some r \<and> 3 * be_value r mod 7 = 1)"
proof -
  have "mod_number [0, 0, 0, 0, 7] [0, 0, 0, 0, 3]" "be_value [0, 0, 0, 0, 7] = 7" "be_value [0, 0, 0, 0, 3] = 3"
    by (simp_all add: mod_number_def be_value_def)
  moreover have "is_prime 7" by code_simp
  ultimately show ?thesis
    using bignum_mod_arithmetic [of "[0, 0, 0, 0, 7]" "[]" "[0, 0, 0, 0, 3]" "[0, 0, 0, 0, 3]" "[0, 0, 0, 0, 9]" 0]
    by (auto simp: max_bignum_def)
qed

end
