(* ===== verification/Sdk_Keys.thy ===== *)
theory Sdk_Keys
  imports Guest_Memory Ecall_Crypto
begin

text \<open>
  Keys of V-Apps (\<open>app-sdk/src/slip21.rs\<close>) and their derivation in native builds
  (\<open>app-sdk/src/ecalls_native.rs\<close>): the library and the two providers of the system call agree on the labels.
\<close>

section \<open>The library\<close>

text \<open>The key is the second half of the node. \<^const>\<open>None\<close> is a panic.\<close>

fun encode_labels :: "bytes list \<Rightarrow> bytes \<Rightarrow> bytes option" where
  "encode_labels [] encoded = Some encoded"
| "encode_labels (label # labels) encoded =
     (if length label > 252 then None else encode_labels labels (encoded @ of_nat (length label) # label))"

definition derive_slip21_key :: "(bytes \<Rightarrow> bytes option) \<Rightarrow> bytes list \<Rightarrow> bytes option" where
  "derive_slip21_key derive_node labels =
     (if (\<Sum>label\<leftarrow>labels. length label + 1) > 256 then None
      else case encode_labels labels [] of
          None \<Rightarrow> None
        | Some encoded \<Rightarrow> map_option (\<lambda>node. take 32 (drop 32 node)) (derive_node encoded))"

section \<open>Native builds\<close>

text \<open>The hierarchy of Vanadium has a seed that is derived from the seed of the device.\<close>

definition slip21_get_master_node :: "crypto_sdk \<Rightarrow> bytes \<Rightarrow> bytes" where
  "slip21_get_master_node cs seed = hmac_sha512 cs (ascii ''Symmetric key seed'') seed"

definition slip21_derive_child_node :: "crypto_sdk \<Rightarrow> bytes \<Rightarrow> bytes \<Rightarrow> bytes" where
  "slip21_derive_child_node cs cur_node label = hmac_sha512 cs (take 32 cur_node) (0 # label)"

definition slip21_custom_get_seed :: "crypto_sdk \<Rightarrow> bytes \<Rightarrow> bytes" where
  "slip21_custom_get_seed cs default_seed =
     take 32 (drop 32 (slip21_derive_child_node cs (slip21_get_master_node cs default_seed) (ascii ''VANADIUM'')))"

fun native_labels :: "crypto_sdk \<Rightarrow> bytes \<Rightarrow> bytes \<Rightarrow> bytes option" where
  "native_labels cs current_node [] = Some current_node"
| "native_labels cs current_node (label_len # rest) =
     (if unat label_len > 252 then None
      else if unat label_len > length rest then None
      else native_labels cs (slip21_derive_child_node cs current_node (take (unat label_len) rest)) (drop (unat label_len) rest))"

definition native_derive_slip21_node :: "crypto_sdk \<Rightarrow> bytes \<Rightarrow> bytes \<Rightarrow> bytes option" where
  "native_derive_slip21_node cs default_seed labels =
     (let current_node = slip21_get_master_node cs (slip21_custom_get_seed cs default_seed) in
      if length labels > 256 then None else native_labels cs current_node labels)"

section \<open>Labels\<close>

definition joined :: "bytes list \<Rightarrow> bytes" where
  "joined labels = concat (map (\<lambda>l. of_nat (length l) # l) labels)"

definition labels_ok :: "bytes list \<Rightarrow> bool" where
  "labels_ok labels \<longleftrightarrow> length (joined labels) \<le> 256 \<and> list_all (\<lambda>l. length l \<le> 252) labels"

lemma length_joined: "length (joined labels) = (\<Sum>label\<leftarrow>labels. length label + 1)"
  by (induction labels) (simp_all add: joined_def)

lemma encode_labels_joined:
  "encode_labels labels encoded = (if list_all (\<lambda>l. length l \<le> 252) labels then Some (encoded @ joined labels) else None)"
  by (induction labels arbitrary: encoded) (auto simp: joined_def)

lemma derive_slip21_key_eq:
  "derive_slip21_key derive_node labels =
     (if labels_ok labels then map_option (\<lambda>node. take 32 (drop 32 node)) (derive_node (joined labels)) else None)"
  by (auto simp: derive_slip21_key_def labels_ok_def length_joined encode_labels_joined)

lemma native_labels_joined:
  "list_all (\<lambda>l. length l \<le> 252) labels \<Longrightarrow> native_labels cs node (joined labels) = Some (foldl (slip21_derive_child_node cs) node labels)"
proof (induction labels arbitrary: node)
  case (Cons l labels)
  then have "unat (of_nat (length l) :: u8) = length l" by (simp add: unat_of_nat take_bit_nat_eq_self)
  then show ?case using Cons by (simp add: joined_def)
qed (simp add: joined_def)

text \<open>(derivation of keys) For labels within the documented limits, and no others, the library asks for a node with an
  encoding from which the VM and native builds read back exactly these labels, and returns the second half of the
  node. With the seed that the device derives for Vanadium, both give the same node.\<close>
theorem slip21_key_derivation:
  assumes "labels_ok labels" "guest_read pm p (unat n) s = (s', Ok (joined labels))" "n \<le> 256"
    "get_seed cs = slip21_custom_get_seed cs default_seed"
  shows "derive_slip21_key derive_node labels = map_option (\<lambda>node. take 32 (drop 32 node)) (derive_node (joined labels)) \<and>
    handle_derive_slip21_node pm cs p n out s =
      bindS (or_panic (guest_write pm out (get_custom_slip21_node cs labels))) (\<lambda>_. returnS 1) s' \<and>
    native_derive_slip21_node cs default_seed (joined labels) = Some (get_custom_slip21_node cs labels)"
proof -
  have "list_all (\<lambda>l. length l < 256) labels" using assms(1) by (auto simp: labels_ok_def list_all_iff)
  then have split: "split_labels (joined labels) = Some labels" unfolding joined_def by (rule split_labels_join)
  have "slip21_derive_child_node cs = derive_child_node cs" by (simp add: fun_eq_iff slip21_derive_child_node_def derive_child_node_def)
  then have native: "native_derive_slip21_node cs default_seed (joined labels) = Some (get_custom_slip21_node cs labels)"
    using assms(1,4) native_labels_joined [of labels]
    by (simp add: native_derive_slip21_node_def labels_ok_def Let_def get_custom_slip21_node_def get_master_node_def slip21_get_master_node_def)
  have "\<not> n > 256" using assms(3) by simp
  then have "handle_derive_slip21_node pm cs p n out s =
      bindS (or_panic (guest_write pm out (get_custom_slip21_node cs labels))) (\<lambda>_. returnS 1) s'"
    using assms(2) split by (simp add: handle_derive_slip21_node_def bindS_def)
  then show ?thesis using native assms(1) by (simp add: derive_slip21_key_eq)
qed

text \<open>A V-App with the label \<open>a\<close> and an empty one in its memory, and functions of the SDK that give nodes of the right length.\<close>

definition key_cpu :: "VecMemory cpu" where
  "key_cpu = sample_cpu\<lparr>data_seg := \<lparr>start_address = 0x2000, seg_size = 256, paged_memory = [[1, 97, 0] @ replicate 253 0]\<rparr>\<rparr>"

definition key_sdk :: crypto_sdk where
  "key_sdk = \<lparr>os_perso_derive_node_bip32 = (\<lambda>c p. ([], [])), cx_ecfp_public_key = (\<lambda>c k. None), sdk_sha256 = (\<lambda>m. m),
     sdk_ripemd160 = (\<lambda>m. m), os_perso_derive_slip21 = (\<lambda>p. replicate 32 8), hmac_sha512 = (\<lambda>k m. replicate 32 7 @ replicate 32 8),
     cx_ecfp_add_point = (\<lambda>c p q. EcInfinite), cx_ecfp_scalar_mult = (\<lambda>c p k. EcInfinite), cx_ecdsa_sign = (\<lambda>k m. None),
     cx_ecdsa_verify = (\<lambda>k m s. False), cx_ecschnorr_sign = (\<lambda>k n m e r. (0, None)), cx_ecschnorr_verify = (\<lambda>k n m s. False)\<rparr>"

lemma key_cpu_read: "guest_read VecMemory 0x2000 3 (w, key_cpu) = ((w, key_cpu), Ok [1, 97, 0])"
proof -
  let ?seg = "\<lparr>start_address = 0x2000, seg_size = 256, paged_memory = [[1, 97, 0] @ replicate 253 0]\<rparr> :: VecMemory MemorySegment"
  have "vec_seg_ok ?seg" by (simp add: vec_seg_ok_def seg_fits_def pages_ok_def page_ok_def PAGE_SIZE_def)
  moreover have "in_seg ?seg (unat (0x2000 :: u32)) 3" by (simp add: in_seg_def)
  ultimately have "read_loop VecMemory 0x2000 3 (w, ?seg) = ((w, ?seg), Ok (take 3 (drop (flat_pos ?seg 0x2000) (flat ?seg))))"
    by (rule vec_read_loop)
  then have "read_buffer VecMemory 0x2000 3 (w, ?seg) = ((w, ?seg), Ok [1, 97, 0])"
    by (simp add: read_buffer_def flat_def flat_pos_def page_start_def PAGE_SIZE_def)
  moreover have "guest_segment 0x2000 (w, key_cpu) = ((w, key_cpu), Ok DataSeg)"
    by (simp add: guest_segment_def get_segment_def contains_def key_cpu_def sample_cpu_def Cpu_new_def sample_page_seg_def)
  ultimately show ?thesis
    by (simp add: guest_read_def bindS_def guest_on_def key_cpu_def)
qed

theorem slip21_key_derivation_witness:
  "derive_slip21_key (native_derive_slip21_node key_sdk []) [[97], []] = Some (replicate 32 8) \<and>
   native_derive_slip21_node key_sdk [] (joined [[97], []]) = Some (get_custom_slip21_node key_sdk [[97], []])"
proof -
  have ok: "labels_ok [[97], []]" by (simp add: labels_ok_def joined_def)
  have read: "guest_read VecMemory 0x2000 (unat (3 :: u32)) (undefined :: u8 device, key_cpu) = ((undefined, key_cpu), Ok (joined [[97], []]))"
    by (simp add: key_cpu_read joined_def)
  have seed: "get_seed key_sdk = slip21_custom_get_seed key_sdk []"
    by (simp add: get_seed_def slip21_custom_get_seed_def slip21_derive_child_node_def key_sdk_def)
  have "derive_slip21_key (native_derive_slip21_node key_sdk []) [[97], []] = Some (replicate 32 8)"
    by code_simp
  with slip21_key_derivation [OF ok read _ seed] show ?thesis by simp
qed

end
