(* ===== verification/Btc_Psbt.thy ===== *)
theory Btc_Psbt
  imports Aes "HOL-Library.List_Lexorder"
begin

text \<open>
  The parser of partially signed Bitcoin transactions of the Bitcoin V-App
  (\<open>apps/bitcoin/common/src/fastpsbt.rs\<close>): maps of sorted keys, the fields that are read from them, and the unsigned
  transaction. The crate \<open>bitcoin\<close> is a parameter. The caches hold what is computed here and are left out.
\<close>

section \<open>Reading\<close>

datatype PsbtError =
    InvalidMagic
  | UnexpectedEof
  | InvalidCompactSize
  | MapTerminatorMissing
  | DuplicateKey
  | UnsortedKeys
  | BadValue
  | MissingCounts
  | MissingOutputIndex
  | MissingRedeemScript
  | MissingWitnessScript
  | CountsTooLarge
  | NotAllowed
  | OutOfRange
  | UnknownOutputType
  | Unsupported

record Cursor =
  cur_buf :: bytes
  cur_pos :: nat

type_synonym 'a reader = "(Cursor, PsbtError, 'a) stm"

primrec from_le_bytes :: "bytes \<Rightarrow> 'w::len word" where
  "from_le_bytes [] = 0"
| "from_le_bytes (b # bs) = ucast b + 256 * from_le_bytes bs"

definition Cursor_new :: "bytes \<Rightarrow> nat \<Rightarrow> Cursor" where
  "Cursor_new buf p = \<lparr>cur_buf = buf, cur_pos = p\<rparr>"

definition remaining :: "Cursor \<Rightarrow> nat" where
  "remaining cur = length (cur_buf cur) - cur_pos cur"

definition cur_take :: "nat \<Rightarrow> bytes reader" where
  "cur_take n cur =
     (if remaining cur < n then (cur, Err UnexpectedEof)
      else (cur\<lparr>cur_pos := cur_pos cur + n\<rparr>, Ok (take n (drop (cur_pos cur) (cur_buf cur)))))"

definition read_compact_size :: "u64 reader" where
  "read_compact_size =
     bindS (cur_take 1) (\<lambda>s. let b = s ! 0 in
       if b \<le> 0xfc then returnS (ucast b)
       else if b = 0xfd then bindS (cur_take 2) (\<lambda>s. returnS (ucast (from_le_bytes s :: u16)))
       else if b = 0xfe then bindS (cur_take 4) (\<lambda>s. returnS (ucast (from_le_bytes s :: u32)))
       else bindS (cur_take 8) (\<lambda>s. returnS (from_le_bytes s)))"

text \<open>\<open>usize::try_from\<close>, for the 32 bits of the target.\<close>

definition usize_try_from :: "u64 \<Rightarrow> nat option" where
  "usize_try_from n = (if n \<le> 0xffffffff then Some (unat n) else None)"

definition read_len_prefixed :: "bytes reader" where
  "read_len_prefixed =
     bindS read_compact_size (\<lambda>len cur.
       case usize_try_from len of
         None \<Rightarrow> (cur, Err UnexpectedEof)
       | Some n \<Rightarrow> if remaining cur \<ge> n then cur_take n cur else (cur, Err UnexpectedEof))"

definition u64_from_compact_size :: "bytes \<Rightarrow> (PsbtError, u64) result" where
  "u64_from_compact_size data =
     (case read_compact_size (Cursor_new data 0) of
        (cur, res) \<Rightarrow> if remaining cur > 0 then Err InvalidCompactSize else res)"

section \<open>Maps\<close>

record MapPair =
  key_type :: u8
  key_data :: bytes
  pair_value :: bytes

definition pair_key :: "MapPair \<Rightarrow> u8 \<times> bytes" where
  "pair_key p = (key_type p, key_data p)"

definition check_order :: "MapPair list \<Rightarrow> u8 \<Rightarrow> bytes \<Rightarrow> PsbtError option" where
  "check_order pairs kt kd =
     (if pairs = [] then None
      else let prev = last pairs in
        if kt < key_type prev \<or> (kt = key_type prev \<and> kd < key_data prev) then Some UnsortedKeys
        else if kt = key_type prev \<and> kd = key_data prev then Some DuplicateKey
        else None)"

lemma cur_take_remaining:
  "cur_take n cur = (cur', Ok s) \<Longrightarrow> remaining cur' = remaining cur - n \<and> n \<le> remaining cur \<and> length s = n"
  by (auto simp: cur_take_def remaining_def split: if_splits)

lemma read_compact_size_remaining:
  "read_compact_size cur = (cur', Ok n) \<Longrightarrow> remaining cur' < remaining cur"
  by (auto simp: read_compact_size_def bindS_Ok_iff Let_def returnS_def split: if_splits dest!: cur_take_remaining)

lemma read_len_prefixed_remaining:
  "read_len_prefixed cur = (cur', Ok s) \<Longrightarrow> remaining cur' < remaining cur"
  by (fastforce simp: read_len_prefixed_def bindS_Ok_iff split: if_splits option.splits
      dest!: cur_take_remaining read_compact_size_remaining)

text \<open>\<open>f\<close> is called for each pair; it has a state of its own, in place of the variables that the closure of the code assigns.\<close>

function from_cursor_loop ::
  "(MapPair \<Rightarrow> 'c \<Rightarrow> (PsbtError, 'c) result) \<Rightarrow> MapPair list \<Rightarrow> 'c \<Rightarrow> Cursor \<Rightarrow> Cursor \<times> (PsbtError, MapPair list \<times> 'c) result" where
  "from_cursor_loop f pairs c cur =
     (case read_compact_size cur of
        (cur1, Inl e) \<Rightarrow> (cur1, Err e)
      | (cur1, Inr key_len) \<Rightarrow>
          if key_len = 0 then (cur1, Ok (pairs, c))
          else (case usize_try_from key_len of
              None \<Rightarrow> (cur1, Err InvalidCompactSize)
            | Some key_len_usize \<Rightarrow> (case cur_take key_len_usize cur1 of
                  (cur2, Inl e) \<Rightarrow> (cur2, Err e)
                | (cur2, Inr key_full) \<Rightarrow> (case check_order pairs (key_full ! 0) (drop 1 key_full) of
                      Some e \<Rightarrow> (cur2, Err e)
                    | None \<Rightarrow> (case read_len_prefixed cur2 of
                          (cur3, Inl e) \<Rightarrow> (cur3, Err e)
                        | (cur3, Inr v) \<Rightarrow>
                            (case f \<lparr>key_type = key_full ! 0, key_data = drop 1 key_full, pair_value = v\<rparr> c of
                               Inl e \<Rightarrow> (cur3, Err e)
                             | Inr c1 \<Rightarrow> from_cursor_loop f
                                 (pairs @ [\<lparr>key_type = key_full ! 0, key_data = drop 1 key_full, pair_value = v\<rparr>]) c1 cur3))))))"
  by pat_completeness auto
termination
  by (relation "measure (\<lambda>(f, pairs, c, cur). remaining cur)")
    (auto dest!: cur_take_remaining [OF sym] read_len_prefixed_remaining [OF sym] read_compact_size_remaining [OF sym])

declare from_cursor_loop.simps [simp del]

definition from_cursor :: "(MapPair \<Rightarrow> 'c \<Rightarrow> (PsbtError, 'c) result) \<Rightarrow> 'c \<Rightarrow> (MapPair list \<times> 'c) reader" where
  "from_cursor f c = from_cursor_loop f [] c"

text \<open>The binary search of the standard library. \<open>beyond i\<close>: the item at \<open>i\<close> is greater than what is looked for.\<close>

function bisect :: "(nat \<Rightarrow> bool) \<Rightarrow> nat \<Rightarrow> nat \<Rightarrow> nat" where
  "bisect beyond base size' =
     (if size' \<le> 1 then base
      else let half = size' div 2; mid = base + half in bisect beyond (if beyond mid then base else mid) (size' - half))"
  by pat_completeness auto
termination
  by (relation "measure (\<lambda>(beyond, base, size'). size')") auto

declare bisect.simps [simp del]

definition key_less :: "u8 \<times> bytes \<Rightarrow> u8 \<times> bytes \<Rightarrow> bool" where
  "key_less a b \<longleftrightarrow> fst a < fst b \<or> (fst a = fst b \<and> snd a < snd b)"

definition map_get :: "MapPair list \<Rightarrow> u8 \<Rightarrow> bytes \<Rightarrow> bytes option" where
  "map_get pairs kt kd =
     (if pairs = [] then None
      else let i = bisect (\<lambda>i. key_less (kt, kd) (pair_key (pairs ! i))) 0 (length pairs) in
        if pair_key (pairs ! i) = (kt, kd) then Some (pair_value (pairs ! i)) else None)"

definition partition_point :: "('a \<Rightarrow> bool) \<Rightarrow> 'a list \<Rightarrow> nat" where
  "partition_point pred xs =
     (if xs = [] then 0
      else let i = bisect (\<lambda>i. \<not> pred (xs ! i)) 0 (length xs) in if pred (xs ! i) then i + 1 else i)"

definition iter_keys :: "MapPair list \<Rightarrow> u8 \<Rightarrow> MapPair list" where
  "iter_keys pairs kt =
     (let i = partition_point (\<lambda>p. key_type p < kt) pairs;
          j = i + partition_point (\<lambda>p. key_type p = kt) (drop i pairs)
      in take (j - i) (drop i pairs))"

section \<open>Fields\<close>

definition PSBT_GLOBAL_UNSIGNED_TX :: u8 where [simp]: "PSBT_GLOBAL_UNSIGNED_TX = 0x00"
definition PSBT_GLOBAL_TX_VERSION :: u8 where [simp]: "PSBT_GLOBAL_TX_VERSION = 0x02"
definition PSBT_GLOBAL_FALLBACK_LOCKTIME :: u8 where [simp]: "PSBT_GLOBAL_FALLBACK_LOCKTIME = 0x03"
definition PSBT_GLOBAL_INPUT_COUNT :: u8 where [simp]: "PSBT_GLOBAL_INPUT_COUNT = 0x04"
definition PSBT_GLOBAL_OUTPUT_COUNT :: u8 where [simp]: "PSBT_GLOBAL_OUTPUT_COUNT = 0x05"
definition PSBT_GLOBAL_TX_MODIFIABLE :: u8 where [simp]: "PSBT_GLOBAL_TX_MODIFIABLE = 0x06"
definition PSBT_GLOBAL_VERSION :: u8 where [simp]: "PSBT_GLOBAL_VERSION = 0xfb"
definition PSBT_IN_NON_WITNESS_UTXO :: u8 where [simp]: "PSBT_IN_NON_WITNESS_UTXO = 0x00"
definition PSBT_IN_WITNESS_UTXO :: u8 where [simp]: "PSBT_IN_WITNESS_UTXO = 0x01"
definition PSBT_IN_SIGHASH_TYPE :: u8 where [simp]: "PSBT_IN_SIGHASH_TYPE = 0x03"
definition PSBT_IN_REDEEM_SCRIPT :: u8 where [simp]: "PSBT_IN_REDEEM_SCRIPT = 0x04"
definition PSBT_IN_WITNESS_SCRIPT :: u8 where [simp]: "PSBT_IN_WITNESS_SCRIPT = 0x05"
definition PSBT_IN_BIP32_DERIVATION :: u8 where [simp]: "PSBT_IN_BIP32_DERIVATION = 0x06"
definition PSBT_IN_FINAL_SCRIPTSIG :: u8 where [simp]: "PSBT_IN_FINAL_SCRIPTSIG = 0x07"
definition PSBT_IN_FINAL_SCRIPTWITNESS :: u8 where [simp]: "PSBT_IN_FINAL_SCRIPTWITNESS = 0x08"
definition PSBT_IN_PREVIOUS_TXID :: u8 where [simp]: "PSBT_IN_PREVIOUS_TXID = 0x0e"
definition PSBT_IN_OUTPUT_INDEX :: u8 where [simp]: "PSBT_IN_OUTPUT_INDEX = 0x0f"
definition PSBT_IN_SEQUENCE :: u8 where [simp]: "PSBT_IN_SEQUENCE = 0x10"
definition PSBT_IN_REQUIRED_TIME_LOCKTIME :: u8 where [simp]: "PSBT_IN_REQUIRED_TIME_LOCKTIME = 0x11"
definition PSBT_IN_REQUIRED_HEIGHT_LOCKTIME :: u8 where [simp]: "PSBT_IN_REQUIRED_HEIGHT_LOCKTIME = 0x12"
definition PSBT_IN_MUSIG2_PARTICIPANT_PUBKEYS :: u8 where [simp]: "PSBT_IN_MUSIG2_PARTICIPANT_PUBKEYS = 0x1a"
definition PSBT_IN_MUSIG2_PUB_NONCE :: u8 where [simp]: "PSBT_IN_MUSIG2_PUB_NONCE = 0x1b"
definition PSBT_IN_MUSIG2_PARTIAL_SIG :: u8 where [simp]: "PSBT_IN_MUSIG2_PARTIAL_SIG = 0x1c"
definition PSBT_OUT_REDEEM_SCRIPT :: u8 where [simp]: "PSBT_OUT_REDEEM_SCRIPT = 0x00"
definition PSBT_OUT_WITNESS_SCRIPT :: u8 where [simp]: "PSBT_OUT_WITNESS_SCRIPT = 0x01"
definition PSBT_OUT_BIP32_DERIVATION :: u8 where [simp]: "PSBT_OUT_BIP32_DERIVATION = 0x02"
definition PSBT_OUT_AMOUNT :: u8 where [simp]: "PSBT_OUT_AMOUNT = 0x03"
definition PSBT_OUT_SCRIPT :: u8 where [simp]: "PSBT_OUT_SCRIPT = 0x04"
definition PSBT_OUT_MUSIG2_PARTICIPANT_PUBKEYS :: u8 where [simp]: "PSBT_OUT_MUSIG2_PARTICIPANT_PUBKEYS = 0x08"

record PsbtGlobal =
  g_version :: "u32 option"
  g_tx_version :: "i32 option"
  g_fallback_locktime :: "u32 option"
  g_n_inputs :: "u64 option"
  g_n_outputs :: "u64 option"
  g_tx_modifiable :: "u8 option"

record PsbtInput =
  in_map :: "MapPair list"
  in_non_witness_utxo :: "bytes option"
  in_witness_utxo :: "bytes option"
  in_sighash_type :: "u32 option"
  in_redeem_script :: "bytes option"
  in_witness_script :: "bytes option"
  in_final_scriptsig :: "bytes option"
  in_final_scriptwitness :: "bytes option"
  in_previous_txid :: "bytes option"
  in_output_index :: "u32 option"
  in_sequence :: "u32 option"
  in_required_time_locktime :: "u32 option"
  in_required_height_locktime :: "u32 option"

record PsbtOutput =
  out_map :: "MapPair list"
  out_redeem_script :: "bytes option"
  out_witness_script :: "bytes option"
  out_amount :: "u64 option"
  out_script :: "bytes option"

record Psbt =
  raw_psbt :: bytes
  global_map :: "MapPair list"
  psbt_inputs :: "PsbtInput list"
  psbt_outputs :: "PsbtOutput list"
  psbt_version :: u32
  psbt_tx_version :: i32
  fallback_locktime :: "u32 option"
  tx_modifiable :: "u8 option"

text \<open>A value of exactly \<open>n\<close> bytes.\<close>

definition sized :: "nat \<Rightarrow> bytes \<Rightarrow> (PsbtError, bytes) result" where
  "sized n v = (if length v \<noteq> n then Err BadValue else Ok v)"

definition global_field :: "MapPair \<Rightarrow> PsbtGlobal \<Rightarrow> (PsbtError, PsbtGlobal) result" where
  "global_field p g =
     (let kt = key_type p; v = pair_value p in
      if key_data p \<noteq> [] then Ok g
      else if kt = PSBT_GLOBAL_UNSIGNED_TX then Err NotAllowed
      else if kt = PSBT_GLOBAL_TX_VERSION then bindR (sized 4 v) (\<lambda>v. Ok (g\<lparr>g_tx_version := Some (from_le_bytes v)\<rparr>))
      else if kt = PSBT_GLOBAL_FALLBACK_LOCKTIME then bindR (sized 4 v) (\<lambda>v. Ok (g\<lparr>g_fallback_locktime := Some (from_le_bytes v)\<rparr>))
      else if kt = PSBT_GLOBAL_INPUT_COUNT then bindR (u64_from_compact_size v) (\<lambda>n. Ok (g\<lparr>g_n_inputs := Some n\<rparr>))
      else if kt = PSBT_GLOBAL_OUTPUT_COUNT then bindR (u64_from_compact_size v) (\<lambda>n. Ok (g\<lparr>g_n_outputs := Some n\<rparr>))
      else if kt = PSBT_GLOBAL_TX_MODIFIABLE then bindR (sized 1 v) (\<lambda>v. Ok (g\<lparr>g_tx_modifiable := Some (v ! 0)\<rparr>))
      else if kt = PSBT_GLOBAL_VERSION then bindR (sized 4 v) (\<lambda>v. Ok (g\<lparr>g_version := Some (from_le_bytes v)\<rparr>))
      else Ok g)"

definition input_field :: "MapPair \<Rightarrow> PsbtInput \<Rightarrow> (PsbtError, PsbtInput) result" where
  "input_field p i =
     (let kt = key_type p; v = pair_value p in
      if key_data p \<noteq> [] then Ok i
      else if kt = PSBT_IN_NON_WITNESS_UTXO then Ok (i\<lparr>in_non_witness_utxo := Some v\<rparr>)
      else if kt = PSBT_IN_WITNESS_UTXO then Ok (i\<lparr>in_witness_utxo := Some v\<rparr>)
      else if kt = PSBT_IN_SIGHASH_TYPE then bindR (sized 4 v) (\<lambda>v. Ok (i\<lparr>in_sighash_type := Some (from_le_bytes v)\<rparr>))
      else if kt = PSBT_IN_REDEEM_SCRIPT then Ok (i\<lparr>in_redeem_script := Some v\<rparr>)
      else if kt = PSBT_IN_WITNESS_SCRIPT then Ok (i\<lparr>in_witness_script := Some v\<rparr>)
      else if kt = PSBT_IN_FINAL_SCRIPTSIG then Ok (i\<lparr>in_final_scriptsig := Some v\<rparr>)
      else if kt = PSBT_IN_FINAL_SCRIPTWITNESS then Ok (i\<lparr>in_final_scriptwitness := Some v\<rparr>)
      else if kt = PSBT_IN_PREVIOUS_TXID then bindR (sized 32 v) (\<lambda>v. Ok (i\<lparr>in_previous_txid := Some v\<rparr>))
      else if kt = PSBT_IN_OUTPUT_INDEX then bindR (sized 4 v) (\<lambda>v. Ok (i\<lparr>in_output_index := Some (from_le_bytes v)\<rparr>))
      else if kt = PSBT_IN_SEQUENCE then bindR (sized 4 v) (\<lambda>v. Ok (i\<lparr>in_sequence := Some (from_le_bytes v)\<rparr>))
      else if kt = PSBT_IN_REQUIRED_TIME_LOCKTIME then bindR (sized 4 v) (\<lambda>v. Ok (i\<lparr>in_required_time_locktime := Some (from_le_bytes v)\<rparr>))
      else if kt = PSBT_IN_REQUIRED_HEIGHT_LOCKTIME then bindR (sized 4 v) (\<lambda>v. Ok (i\<lparr>in_required_height_locktime := Some (from_le_bytes v)\<rparr>))
      else Ok i)"

definition output_field :: "MapPair \<Rightarrow> PsbtOutput \<Rightarrow> (PsbtError, PsbtOutput) result" where
  "output_field p i =
     (let kt = key_type p; v = pair_value p in
      if key_data p \<noteq> [] then Ok i
      else if kt = PSBT_OUT_REDEEM_SCRIPT then Ok (i\<lparr>out_redeem_script := Some v\<rparr>)
      else if kt = PSBT_OUT_WITNESS_SCRIPT then Ok (i\<lparr>out_witness_script := Some v\<rparr>)
      else if kt = PSBT_OUT_AMOUNT then bindR (sized 8 v) (\<lambda>v. Ok (i\<lparr>out_amount := Some (from_le_bytes v)\<rparr>))
      else if kt = PSBT_OUT_SCRIPT then Ok (i\<lparr>out_script := Some v\<rparr>)
      else Ok i)"

definition no_global :: PsbtGlobal where
  "no_global = \<lparr>g_version = None, g_tx_version = None, g_fallback_locktime = None, g_n_inputs = None, g_n_outputs = None, g_tx_modifiable = None\<rparr>"

definition no_input :: PsbtInput where
  "no_input = \<lparr>in_map = [], in_non_witness_utxo = None, in_witness_utxo = None, in_sighash_type = None, in_redeem_script = None,
     in_witness_script = None, in_final_scriptsig = None, in_final_scriptwitness = None, in_previous_txid = None, in_output_index = None,
     in_sequence = None, in_required_time_locktime = None, in_required_height_locktime = None\<rparr>"

definition no_output :: PsbtOutput where
  "no_output = \<lparr>out_map = [], out_redeem_script = None, out_witness_script = None, out_amount = None, out_script = None\<rparr>"

definition Input_from_cursor :: "PsbtInput reader" where
  "Input_from_cursor = bindS (from_cursor input_field no_input) (\<lambda>(m, i). returnS (i\<lparr>in_map := m\<rparr>))"

definition Output_from_cursor :: "PsbtOutput reader" where
  "Output_from_cursor = bindS (from_cursor output_field no_output) (\<lambda>(m, i). returnS (i\<lparr>out_map := m\<rparr>))"

primrec read_many :: "nat \<Rightarrow> 'a reader \<Rightarrow> 'a list reader" where
  "read_many 0 m = returnS []"
| "read_many (Suc n) m = bindS m (\<lambda>x. bindS (read_many n m) (\<lambda>xs. returnS (x # xs)))"

definition ok_or :: "'a option \<Rightarrow> 'e \<Rightarrow> ('s, 'e, 'a) stm" where
  "ok_or x e = (case x of None \<Rightarrow> throwS e | Some a \<Rightarrow> returnS a)"

definition MAGIC :: bytes where
  "MAGIC = [0x70, 0x73, 0x62, 0x74, 0xff]"

definition parse_maps :: "bytes \<Rightarrow> Psbt reader" where
  "parse_maps raw =
     bindS (from_cursor global_field no_global) (\<lambda>(m, g).
     bindS (ok_or (g_n_inputs g) MissingCounts) (\<lambda>n_inputs.
     bindS (ok_or (g_n_outputs g) MissingCounts) (\<lambda>n_outputs.
     bindS (ok_or (g_version g) MissingCounts) (\<lambda>version.
     bindS (ok_or (g_tx_version g) MissingCounts) (\<lambda>tx_version.
     if version \<noteq> 2 then throwS NotAllowed
     else
       bindS (ok_or (usize_try_from n_inputs) CountsTooLarge) (\<lambda>inputs_count.
       bindS (ok_or (usize_try_from n_outputs) CountsTooLarge) (\<lambda>outputs_count.
       bindS (read_many inputs_count Input_from_cursor) (\<lambda>inputs.
       bindS (read_many outputs_count Output_from_cursor) (\<lambda>outputs cur.
         if remaining cur > 0 then (cur, Err UnexpectedEof)
         else (cur, Ok \<lparr>raw_psbt = raw, global_map = m, psbt_inputs = inputs, psbt_outputs = outputs, psbt_version = version,
            psbt_tx_version = tx_version, fallback_locktime = g_fallback_locktime g, tx_modifiable = g_tx_modifiable g\<rparr>))))))))))"

definition Psbt_parse :: "bytes \<Rightarrow> (PsbtError, Psbt) result" where
  "Psbt_parse raw =
     (if length raw < length MAGIC \<or> take 5 raw \<noteq> MAGIC then Err InvalidMagic
      else snd (parse_maps raw (Cursor_new raw (length MAGIC))))"

section \<open>The unsigned transaction\<close>

record TxIn =
  txin_txid :: bytes
  txin_vout :: u32
  txin_script_sig :: bytes
  txin_sequence :: u32
  txin_witness :: "bytes list"

record TxOut =
  txout_value :: u64
  txout_script_pubkey :: bytes

record Transaction =
  transaction_version :: i32
  transaction_lock_time :: u32
  transaction_input :: "TxIn list"
  transaction_output :: "TxOut list"

definition max_required :: "(PsbtInput \<Rightarrow> u32 option) \<Rightarrow> PsbtInput list \<Rightarrow> u32 option" where
  "max_required f inputs =
     fold (\<lambda>inp req. case f inp of None \<Rightarrow> req | Some h \<Rightarrow> Some (case req of None \<Rightarrow> h | Some m \<Rightarrow> max m h)) inputs None"

definition determine_lock_time :: "Psbt \<Rightarrow> (PsbtError, u32) result" where
  "determine_lock_time p =
     (let req_height = max_required in_required_height_locktime (psbt_inputs p);
          req_time = max_required in_required_time_locktime (psbt_inputs p);
          lock_time = (case fallback_locktime p of None \<Rightarrow> 0 | Some l \<Rightarrow> l)
      in case (req_height, req_time) of
           (Some h, Some t) \<Rightarrow> Err BadValue
         | (Some h, None) \<Rightarrow> if h \<ge> 500000000 then Err BadValue else Ok (max lock_time h)
         | (None, Some t) \<Rightarrow> if t < 500000000 then Err BadValue else Ok (max lock_time t)
         | (None, None) \<Rightarrow> Ok lock_time)"

fun build_inputs :: "PsbtInput list \<Rightarrow> (PsbtError, TxIn list) result" where
  "build_inputs [] = Ok []"
| "build_inputs (inp # inputs) =
     (case in_previous_txid inp of None \<Rightarrow> Err BadValue | Some txid \<Rightarrow>
      case in_output_index inp of None \<Rightarrow> Err BadValue | Some vout \<Rightarrow>
        let seq_val = (case in_sequence inp of None \<Rightarrow> 0xFFFFFFFF | Some s \<Rightarrow> s) in
        bindR (build_inputs inputs) (\<lambda>ins.
          Ok (\<lparr>txin_txid = txid, txin_vout = vout, txin_script_sig = [], txin_sequence = seq_val, txin_witness = []\<rparr> # ins)))"

fun build_outputs :: "PsbtOutput list \<Rightarrow> (PsbtError, TxOut list) result" where
  "build_outputs [] = Ok []"
| "build_outputs (out # outputs) =
     (case out_amount out of None \<Rightarrow> Err BadValue | Some amt \<Rightarrow>
      case out_script out of None \<Rightarrow> Err BadValue | Some spk \<Rightarrow>
        bindR (build_outputs outputs) (\<lambda>outs. Ok (\<lparr>txout_value = amt, txout_script_pubkey = spk\<rparr> # outs)))"

definition build_unsigned_tx :: "Psbt \<Rightarrow> (PsbtError, Transaction) result" where
  "build_unsigned_tx p =
     bindR (determine_lock_time p) (\<lambda>lock_time.
     bindR (build_inputs (psbt_inputs p)) (\<lambda>ins.
     bindR (build_outputs (psbt_outputs p)) (\<lambda>outs.
       Ok \<lparr>transaction_version = psbt_tx_version p, transaction_lock_time = lock_time, transaction_input = ins, transaction_output = outs\<rparr>)))"

section \<open>What an input spends\<close>

text \<open>Only scripts of at most 252 bytes are read.\<close>

definition get_witness_utxo :: "PsbtInput \<Rightarrow> (PsbtError, TxOut option) result" where
  "get_witness_utxo i =
     (case in_witness_utxo i of
        None \<Rightarrow> Ok None
      | Some wutxo \<Rightarrow>
          if length wutxo < 8 + 1 \<or> wutxo ! 8 > 0xfc \<or> length wutxo \<noteq> 8 + 1 + unat (wutxo ! 8) then Err BadValue
          else Ok (Some \<lparr>txout_value = from_le_bytes (take 8 wutxo), txout_script_pubkey = take (unat (wutxo ! 8)) (drop 9 wutxo)\<rparr>))"

definition get_non_witness_utxo :: "(bytes \<Rightarrow> Transaction option) \<Rightarrow> PsbtInput \<Rightarrow> (PsbtError, Transaction option) result" where
  "get_non_witness_utxo deserialize i =
     (case in_non_witness_utxo i of
        None \<Rightarrow> Ok None
      | Some tx \<Rightarrow> (case deserialize tx of None \<Rightarrow> Err BadValue | Some t \<Rightarrow> Ok (Some t)))"

definition spend_utxo :: "(bytes \<Rightarrow> Transaction option) \<Rightarrow> Psbt \<Rightarrow> nat \<Rightarrow> (PsbtError, TxOut) result" where
  "spend_utxo deserialize p input_index =
     (if input_index \<ge> length (psbt_inputs p) then Err OutOfRange
      else let i = psbt_inputs p ! input_index in
        bindR (get_witness_utxo i) (\<lambda>w. case w of
            Some wutxo \<Rightarrow> Ok wutxo
          | None \<Rightarrow> bindR (get_non_witness_utxo deserialize i) (\<lambda>n. case n of
                None \<Rightarrow> Err BadValue
              | Some nwutxo \<Rightarrow> (case in_output_index i of
                    None \<Rightarrow> Err MissingOutputIndex
                  | Some vout \<Rightarrow>
                      if unat vout \<ge> length (transaction_output nwutxo) then Err OutOfRange
                      else Ok (transaction_output nwutxo ! unat vout)))))"

section \<open>MuSig2 fields\<close>

definition decode_participant_pubkeys :: "bytes \<Rightarrow> (PsbtError, bytes list) result" where
  "decode_participant_pubkeys v =
     (if v = [] \<or> length v mod 33 \<noteq> 0 then Err BadValue
      else Ok (map (\<lambda>k. take 33 (drop (33 * k) v)) [0..<length v div 33]))"

definition suffix_leaf :: "bytes option \<Rightarrow> bytes" where
  "suffix_leaf leaf_hash = (case leaf_hash of None \<Rightarrow> [] | Some lh \<Rightarrow> lh)"

definition in_musig2_participant_pubkeys :: "PsbtInput \<Rightarrow> bytes \<Rightarrow> bytes option \<Rightarrow> (PsbtError, bytes list option) result" where
  "in_musig2_participant_pubkeys i agg_pk leaf_hash =
     (case map_get (in_map i) PSBT_IN_MUSIG2_PARTICIPANT_PUBKEYS (agg_pk @ suffix_leaf leaf_hash) of
        None \<Rightarrow> Ok None
      | Some v \<Rightarrow> bindR (decode_participant_pubkeys v) (\<lambda>pks. Ok (Some pks)))"

definition get_fixed_value :: "nat \<Rightarrow> MapPair list \<Rightarrow> u8 \<Rightarrow> bytes \<Rightarrow> bytes \<Rightarrow> bytes option \<Rightarrow> (PsbtError, bytes option) result" where
  "get_fixed_value n m kt participant_pk agg_pk leaf_hash =
     (case map_get m kt (participant_pk @ agg_pk @ suffix_leaf leaf_hash) of
        None \<Rightarrow> Ok None
      | Some v \<Rightarrow> bindR (sized n v) (\<lambda>v. Ok (Some v)))"

definition get_musig2_pub_nonce :: "PsbtInput \<Rightarrow> bytes \<Rightarrow> bytes \<Rightarrow> bytes option \<Rightarrow> (PsbtError, bytes option) result" where
  "get_musig2_pub_nonce i = get_fixed_value 66 (in_map i) PSBT_IN_MUSIG2_PUB_NONCE"

definition get_musig2_partial_sig :: "PsbtInput \<Rightarrow> bytes \<Rightarrow> bytes \<Rightarrow> bytes option \<Rightarrow> (PsbtError, bytes option) result" where
  "get_musig2_partial_sig i = get_fixed_value 32 (in_map i) PSBT_IN_MUSIG2_PARTIAL_SIG"

definition out_musig2_participant_pubkeys :: "PsbtOutput \<Rightarrow> bytes \<Rightarrow> (PsbtError, bytes list option) result" where
  "out_musig2_participant_pubkeys i agg_pk =
     (case map_get (out_map i) PSBT_OUT_MUSIG2_PARTICIPANT_PUBKEYS agg_pk of
        None \<Rightarrow> Ok None
      | Some v \<Rightarrow> bindR (decode_participant_pubkeys v) (\<lambda>pks. Ok (Some pks)))"

definition in_bip32_derivations :: "PsbtInput \<Rightarrow> (bytes \<times> bytes) list" where
  "in_bip32_derivations i = map (\<lambda>p. (key_data p, pair_value p)) (iter_keys (in_map i) PSBT_IN_BIP32_DERIVATION)"

definition out_bip32_derivations :: "PsbtOutput \<Rightarrow> (bytes \<times> bytes) list" where
  "out_bip32_derivations i = map (\<lambda>p. (key_data p, pair_value p)) (iter_keys (out_map i) PSBT_OUT_BIP32_DERIVATION)"

section \<open>Lookups\<close>

lemma key_less_trans: "key_less a b \<Longrightarrow> key_less b c \<Longrightarrow> key_less a c"
  by (auto simp: key_less_def)

lemma key_less_irrefl [simp]: "\<not> key_less a a"
  by (simp add: key_less_def)

lemma key_less_linear: "key_less a b \<or> a = b \<or> key_less b a"
  by (cases a; cases b) (auto simp: key_less_def)

text \<open>The keys of a map ascend.\<close>

definition ascending :: "MapPair list \<Rightarrow> bool" where
  "ascending pairs \<longleftrightarrow> sorted_wrt key_less (map pair_key pairs)"

lemma ascending_nth: "ascending pairs \<Longrightarrow> i < j \<Longrightarrow> j < length pairs \<Longrightarrow> key_less (pair_key (pairs ! i)) (pair_key (pairs ! j))"
  by (simp add: ascending_def sorted_wrt_iff_nth_less)

lemma ascending_distinct: "ascending pairs \<Longrightarrow> distinct (map pair_key pairs)"
  unfolding distinct_conv_nth by (metis ascending_nth key_less_irrefl length_map linorder_neqE_nat nth_map)

text \<open>The search ends at the last item that is not greater, if there is one.\<close>

lemma bisect_spec:
  assumes "\<forall>i j. i \<le> j \<longrightarrow> j < base + n \<longrightarrow> beyond i \<longrightarrow> beyond j" "0 < n"
  shows "base \<le> bisect beyond base n \<and> bisect beyond base n < base + n \<and>
    (bisect beyond base n = base \<or> \<not> beyond (bisect beyond base n)) \<and>
    (\<forall>j. bisect beyond base n < j \<longrightarrow> j < base + n \<longrightarrow> beyond j)"
  using assms
proof (induction beyond base n rule: bisect.induct)
  case (1 beyond base n)
  show ?case
  proof (cases "n \<le> 1")
    case True
    then show ?thesis using 1(3) by (auto simp: bisect.simps [of beyond base n])
  next
    case False
    let ?half = "n div 2"
    let ?mid = "base + ?half"
    have "(if beyond ?mid then base else ?mid) + (n - ?half) \<le> base + n" by simp
    then have mono: "\<forall>i j. i \<le> j \<longrightarrow> j < (if beyond ?mid then base else ?mid) + (n - ?half) \<longrightarrow> beyond i \<longrightarrow> beyond j"
      using 1(2) order.strict_trans2 by blast
    have eq: "bisect beyond base n = bisect beyond (if beyond ?mid then base else ?mid) (n - ?half)"
      using False by (simp add: bisect.simps [of beyond base n] Let_def)
    have IH: "(if beyond ?mid then base else ?mid) \<le> bisect beyond base n \<and>
        bisect beyond base n < (if beyond ?mid then base else ?mid) + (n - ?half) \<and>
        (bisect beyond base n = (if beyond ?mid then base else ?mid) \<or> \<not> beyond (bisect beyond base n)) \<and>
        (\<forall>j. bisect beyond base n < j \<longrightarrow> j < (if beyond ?mid then base else ?mid) + (n - ?half) \<longrightarrow> beyond j)"
      unfolding eq by (rule 1(1) [OF False refl refl mono]) (use False in auto)
    show ?thesis
    proof (cases "beyond ?mid")
      case True
      have "beyond j" if "bisect beyond base n < j" "j < base + n" for j
        proof (cases "j < base + (n - ?half)")
        case True
        then show ?thesis using IH \<open>beyond ?mid\<close> that by simp
      next
        case False
        then have "?mid \<le> j" by linarith
        then show ?thesis using 1(2) \<open>beyond ?mid\<close> that by blast
      qed
      then show ?thesis using IH True by auto
    next
      case False
      then show ?thesis using IH by auto
    qed
  qed
qed

lemma bisect_bound: "0 < n \<Longrightarrow> bisect beyond base n < base + n"
proof (induction beyond base n rule: bisect.induct)
  case (1 beyond base n)
  have "\<not> n \<le> 1 \<Longrightarrow> bisect beyond (if beyond (base + n div 2) then base else base + n div 2) (n - n div 2)
      < (if beyond (base + n div 2) then base else base + n div 2) + (n - n div 2)"
    by (rule 1(1) [OF _ refl refl]) auto
  then show ?case using 1(2) by (auto simp: bisect.simps [of beyond base n] Let_def split: if_splits)
qed

lemma map_get_nth:
  assumes "ascending pairs" "i < length pairs"
  shows "map_get pairs (key_type (pairs ! i)) (key_data (pairs ! i)) = Some (pair_value (pairs ! i))"
proof -
  let ?k = "pair_key (pairs ! i)"
  let ?beyond = "\<lambda>j. key_less ?k (pair_key (pairs ! j))"
  let ?b = "bisect ?beyond 0 (length pairs)"
  have mono: "\<forall>j j'. j \<le> j' \<longrightarrow> j' < 0 + length pairs \<longrightarrow> ?beyond j \<longrightarrow> ?beyond j'"
    using ascending_nth [OF assms(1)] key_less_trans by (metis add_0 le_neq_implies_less)
  have b: "?b < length pairs" "?b = 0 \<or> \<not> ?beyond ?b" "\<forall>j. ?b < j \<longrightarrow> j < length pairs \<longrightarrow> ?beyond j"
    using bisect_spec [OF mono] assms(2) by fastforce+
  have "\<not> ?b < i" using b(3) assms(2) by force
  moreover have "\<not> i < ?b" using ascending_nth [OF assms(1) _ b(1), of i] b(2) by auto
  ultimately have "?b = i" by simp
  then show ?thesis using assms(2) by (auto simp: map_get_def Let_def pair_key_def)
qed

lemma map_get_map_of:
  assumes "ascending pairs"
  shows "map_get pairs kt kd = map_of (map (\<lambda>p. (pair_key p, pair_value p)) pairs) (kt, kd)"
proof (cases "\<exists>i<length pairs. pair_key (pairs ! i) = (kt, kd)")
  case True
  then obtain i where i: "i < length pairs" "key_type (pairs ! i) = kt" "key_data (pairs ! i) = kd" by (auto simp: pair_key_def)
  have "map_of (map (\<lambda>p. (pair_key p, pair_value p)) pairs) (kt, kd) = Some (pair_value (pairs ! i))"
  proof (rule map_of_is_SomeI)
    show "distinct (map fst (map (\<lambda>p. (pair_key p, pair_value p)) pairs))"
      using ascending_distinct [OF assms] by (simp add: comp_def)
    show "((kt, kd), pair_value (pairs ! i)) \<in> set (map (\<lambda>p. (pair_key p, pair_value p)) pairs)"
      using i by (auto simp: pair_key_def intro!: image_eqI [of _ _ "pairs ! i"])
  qed
  then show ?thesis using map_get_nth [OF assms i(1)] i by simp
next
  case False
  then have "map_of (map (\<lambda>p. (pair_key p, pair_value p)) pairs) (kt, kd) = None"
    by (auto simp: map_of_eq_None_iff in_set_conv_nth)
  moreover have "map_get pairs kt kd = None"
  proof (cases "pairs = []")
    case False
    then have "bisect (\<lambda>i. key_less (kt, kd) (pair_key (pairs ! i))) 0 (length pairs) < length pairs"
      using bisect_bound [of "length pairs" _ 0] by simp
    then show ?thesis using \<open>\<not> (\<exists>i<length pairs. pair_key (pairs ! i) = (kt, kd))\<close> by (auto simp: map_get_def Let_def)
  qed (simp add: map_get_def)
  ultimately show ?thesis by simp
qed

lemma partition_point_takeWhile:
  assumes "\<forall>i j. i \<le> j \<longrightarrow> j < length xs \<longrightarrow> pred (xs ! j) \<longrightarrow> pred (xs ! i)"
  shows "partition_point pred xs = length (takeWhile pred xs)"
proof (cases "xs = []")
  case False
  define b where "b = bisect (\<lambda>i. \<not> pred (xs ! i)) 0 (length xs)"
  have mono: "\<forall>i j. i \<le> j \<longrightarrow> j < 0 + length xs \<longrightarrow> \<not> pred (xs ! i) \<longrightarrow> \<not> pred (xs ! j)" using assms by auto
  have "0 < length xs" using False by simp
  note spec = bisect_spec [OF mono this, folded b_def]
  have b: "b < length xs" using spec by simp
  have stop: "pred (xs ! b) \<or> b = 0" using spec by blast
  have beyond: "\<And>j. b < j \<Longrightarrow> j < length xs \<Longrightarrow> \<not> pred (xs ! j)" using spec by simp
  define k where "k = (if pred (xs ! b) then b + 1 else b)"
  have "takeWhile pred xs = take k xs"
  proof (rule takeWhile_eq_take_P_nth)
    fix j
    assume j: "j < k" "j < length xs"
    then have "pred (xs ! b)" "j \<le> b" using stop by (auto simp: k_def split: if_splits)
    then show "pred (xs ! j)" using assms b by blast
  next
    assume "k < length xs"
    then show "\<not> pred (xs ! k)" using beyond [of k] by (cases "pred (xs ! b)") (simp_all add: k_def)
  qed
  moreover have "k \<le> length xs" using b by (simp add: k_def)
  ultimately have "length (takeWhile pred xs) = k" by (metis length_take min.absorb2)
  then show ?thesis using False by (simp add: partition_point_def Let_def k_def flip: b_def)
qed (simp add: partition_point_def)

lemma ascending_types: "ascending pairs \<Longrightarrow> i \<le> j \<Longrightarrow> j < length pairs \<Longrightarrow> key_type (pairs ! i) \<le> key_type (pairs ! j)"
  using ascending_nth [of pairs i j] by (cases "i = j") (auto simp: key_less_def pair_key_def)

lemma ascending_append:
  "ascending (ps @ qs) \<longleftrightarrow> ascending ps \<and> ascending qs \<and> (\<forall>p\<in>set ps. \<forall>q\<in>set qs. key_less (pair_key p) (pair_key q))"
  by (auto simp: ascending_def sorted_wrt_append)

lemma iter_keys_filter:
  assumes "ascending pairs"
  shows "iter_keys pairs kt = filter (\<lambda>p. key_type p = kt) pairs"
proof -
  define ls rs where "ls = takeWhile (\<lambda>p. key_type p < kt) pairs" and "rs = dropWhile (\<lambda>p. key_type p < kt) pairs"
  have pairs: "pairs = ls @ rs" by (simp add: ls_def rs_def)
  have i: "partition_point (\<lambda>p. key_type p < kt) pairs = length ls"
    unfolding ls_def by (rule partition_point_takeWhile) (use ascending_types [OF assms] in force)
  have asc: "ascending rs" using assms pairs ascending_append by metis
  have ge: "kt \<le> key_type p" if "p \<in> set rs" for p
  proof -
    obtain q qs where rs: "rs = q # qs" using \<open>p \<in> set rs\<close> by (cases rs) auto
    have "\<not> key_type q < kt" using rs unfolding rs_def by (metis dropWhile_eq_Cons_conv)
    moreover obtain j where "j < length rs" "p = rs ! j" using \<open>p \<in> set rs\<close> by (metis in_set_conv_nth)
    ultimately show ?thesis using ascending_types [OF asc, of 0 j] rs by (simp add: not_less)
  qed
  have "partition_point (\<lambda>p. key_type p = kt) rs = length (takeWhile (\<lambda>p. key_type p = kt) rs)"
  proof (rule partition_point_takeWhile, intro allI impI)
    fix i j
    assume "i \<le> j" "j < length rs" "key_type (rs ! j) = kt"
    then show "key_type (rs ! i) = kt"
      using ascending_types [OF asc, of i j] ge [of "rs ! i"] by (simp add: antisym)
  qed
  then have "iter_keys pairs kt = takeWhile (\<lambda>p. key_type p = kt) rs"
    unfolding iter_keys_def Let_def i by (simp add: pairs takeWhile_eq_take [symmetric])
  moreover have "takeWhile (\<lambda>p. key_type p = kt) rs = filter (\<lambda>p. key_type p = kt) rs"
    using asc ge
  proof (induction rs)
    case (Cons r rs)
    show ?case
    proof (cases "key_type r = kt")
      case False
      have "key_type q \<noteq> kt" if "q \<in> set rs" for q
      proof -
        have "key_less (pair_key r) (pair_key q)" using Cons.prems(1) that by (simp add: ascending_def)
        then have "key_type r \<le> key_type q" by (auto simp: key_less_def pair_key_def)
        then show ?thesis using False Cons.prems(2) [of r] by auto
      qed
      then show ?thesis using False by (auto simp: filter_empty_conv)
    qed (use Cons in \<open>auto simp: ascending_def\<close>)
  qed simp
  moreover have "filter (\<lambda>p. key_type p = kt) ls = []"
    by (auto simp: ls_def filter_empty_conv dest: set_takeWhileD)
  ultimately show ?thesis by (simp add: pairs)
qed

section \<open>What is accepted\<close>

text \<open>The closures, over all pairs of a map.\<close>

fun fold_fields :: "(MapPair \<Rightarrow> 'c \<Rightarrow> (PsbtError, 'c) result) \<Rightarrow> MapPair list \<Rightarrow> 'c \<Rightarrow> (PsbtError, 'c) result" where
  "fold_fields f [] c = Ok c"
| "fold_fields f (p # ps) c = bindR (f p c) (fold_fields f ps)"

lemma fold_fields_append: "fold_fields f (ps @ qs) c = bindR (fold_fields f ps c) (fold_fields f qs)"
proof (induction ps arbitrary: c)
  case (Cons p ps)
  then show ?case by (cases "f p c") simp_all
qed simp

lemma check_order_None:
  "check_order pairs kt kd = None \<longleftrightarrow> pairs = [] \<or> key_less (pair_key (last pairs)) (kt, kd)"
  using key_less_linear [of "pair_key (last pairs)" "(kt, kd)"]
  by (auto simp: check_order_def Let_def key_less_def pair_key_def split: if_splits)

lemma ascending_snoc:
  "ascending (pairs @ [p]) \<longleftrightarrow> ascending pairs \<and> (pairs = [] \<or> key_less (pair_key (last pairs)) (pair_key p))"
proof (cases pairs rule: rev_cases)
  case (snoc ps q)
  then show ?thesis using key_less_trans [of "pair_key _" "pair_key q" "pair_key p"] by (auto simp: ascending_def sorted_wrt_append)
qed (simp add: ascending_def)

lemma from_cursor_loop_Ok:
  "from_cursor_loop f pairs c cur = (cur', Ok (ps, c')) \<Longrightarrow> ascending pairs \<Longrightarrow>
     ascending ps \<and> (\<exists>new. ps = pairs @ new \<and> fold_fields f new c = Ok c')"
proof (induction f pairs c cur rule: from_cursor_loop.induct)
  case (1 f pairs c cur)
  obtain cur1 res1 where r1: "read_compact_size cur = (cur1, res1)" by fastforce
  show ?case
  proof (cases "res1 = Ok 0")
    case True
    then show ?thesis using 1(2,3) r1 by (simp add: from_cursor_loop.simps [of f pairs c cur])
  next
    case False
    then obtain key_len where key_len: "res1 = Ok key_len" "key_len \<noteq> 0"
      using 1(2) r1 by (cases res1) (auto simp: from_cursor_loop.simps [of f pairs c cur])
    then obtain n where n: "usize_try_from key_len = Some n"
      using 1(2) r1 by (cases "usize_try_from key_len") (auto simp: from_cursor_loop.simps [of f pairs c cur])
    obtain cur2 res2 where "cur_take n cur1 = (cur2, res2)" by fastforce
    then obtain key_full where k: "cur_take n cur1 = (cur2, Ok key_full)"
      using 1(2) r1 key_len n by (cases res2) (auto simp: from_cursor_loop.simps [of f pairs c cur])
    have ord: "check_order pairs (key_full ! 0) (drop 1 key_full) = None"
      using 1(2) r1 key_len n k
      by (cases "check_order pairs (key_full ! 0) (drop 1 key_full)") (auto simp: from_cursor_loop.simps [of f pairs c cur])
    obtain cur3 res3 where "read_len_prefixed cur2 = (cur3, res3)" by fastforce
    then obtain v where v: "read_len_prefixed cur2 = (cur3, Ok v)"
      using 1(2) r1 key_len n k ord by (cases res3) (auto simp: from_cursor_loop.simps [of f pairs c cur])
    let ?p = "\<lparr>key_type = key_full ! 0, key_data = drop 1 key_full, pair_value = v\<rparr>"
    obtain c1 where c1: "f ?p c = Ok c1"
      using 1(2) r1 key_len n k ord v by (cases "f ?p c") (auto simp: from_cursor_loop.simps [of f pairs c cur])
    have "from_cursor_loop f (pairs @ [?p]) c1 cur3 = (cur', Ok (ps, c'))"
      using 1(2) r1 key_len n k ord v c1 by (simp add: from_cursor_loop.simps [of f pairs c cur])
    moreover have "ascending (pairs @ [?p])"
      using 1(3) ord unfolding ascending_snoc check_order_None by (simp add: pair_key_def)
    ultimately have "ascending ps \<and> (\<exists>new. ps = (pairs @ [?p]) @ new \<and> fold_fields f new c1 = Ok c')"
      using 1(1) [OF r1 [symmetric] key_len(1) key_len(2) n k [symmetric] refl ord v [symmetric] refl c1] by blast
    then show ?thesis using c1 by force
  qed
qed

lemma from_cursor_Ok:
  "from_cursor f c cur = (cur', Ok (ps, c')) \<Longrightarrow> ascending ps \<and> fold_fields f ps c = Ok c'"
  using from_cursor_loop_Ok [of f "[]" c cur cur' ps c'] by (simp add: from_cursor_def ascending_def)

lemma read_many_Ok: "read_many n m cur = (cur', Ok xs) \<Longrightarrow> length xs = n \<and> (\<forall>x\<in>set xs. \<exists>c c'. m c = (c', Ok x))"
  by (induction n arbitrary: cur xs) (auto simp: bindS_Ok_iff, blast+)

lemma bindS_OkE:
  assumes "bindS m f s = (s', Ok b)"
  obtains s1 a where "m s = (s1, Ok a)" "f a s1 = (s', Ok b)"
  using assms unfolding bindS_Ok_iff by blast

lemma ok_or_Ok_iff: "ok_or x e s = (s', Ok a) \<longleftrightarrow> s' = s \<and> x = Some a"
  by (auto simp: ok_or_def split: option.splits)

text \<open>The map and the fields of an accepted transaction come from one pass over the map.\<close>

lemma Psbt_parse_Ok:
  assumes "Psbt_parse raw = Ok p"
  obtains g where "ascending (global_map p)" "fold_fields global_field (global_map p) no_global = Ok g"
    "g_version g = Some (psbt_version p)" "psbt_version p = 2" "g_tx_version g = Some (psbt_tx_version p)"
    "g_fallback_locktime g = fallback_locktime p" "g_tx_modifiable g = tx_modifiable p"
    "g_n_inputs g = Some (of_nat (length (psbt_inputs p)))" "g_n_outputs g = Some (of_nat (length (psbt_outputs p)))"
    "\<forall>i\<in>set (psbt_inputs p). ascending (in_map i) \<and> (\<exists>j. fold_fields input_field (in_map i) no_input = Ok j \<and> i = j\<lparr>in_map := in_map i\<rparr>)"
    "\<forall>i\<in>set (psbt_outputs p). ascending (out_map i) \<and> (\<exists>j. fold_fields output_field (out_map i) no_output = Ok j \<and> i = j\<lparr>out_map := out_map i\<rparr>)"
proof -
  obtain cur cur' where run: "parse_maps raw cur = (cur', Ok p)"
    using assms by (auto simp: Psbt_parse_def split: if_splits) (metis prod.collapse)
  obtain cur1 m g where m: "from_cursor global_field no_global cur = (cur1, Ok (m, g))" and
    r1: "(case (m, g) of (m, g) \<Rightarrow>
     bindS (ok_or (g_n_inputs g) MissingCounts) (\<lambda>n_inputs.
     bindS (ok_or (g_n_outputs g) MissingCounts) (\<lambda>n_outputs.
     bindS (ok_or (g_version g) MissingCounts) (\<lambda>version.
     bindS (ok_or (g_tx_version g) MissingCounts) (\<lambda>tx_version.
     if version \<noteq> 2 then throwS NotAllowed
     else
       bindS (ok_or (usize_try_from n_inputs) CountsTooLarge) (\<lambda>inputs_count.
       bindS (ok_or (usize_try_from n_outputs) CountsTooLarge) (\<lambda>outputs_count.
       bindS (read_many inputs_count Input_from_cursor) (\<lambda>inputs.
       bindS (read_many outputs_count Output_from_cursor) (\<lambda>outputs cur.
         if remaining cur > 0 then (cur, Err UnexpectedEof)
         else (cur, Ok \<lparr>raw_psbt = raw, global_map = m, psbt_inputs = inputs, psbt_outputs = outputs, psbt_version = version,
            psbt_tx_version = tx_version, fallback_locktime = g_fallback_locktime g, tx_modifiable = g_tx_modifiable g\<rparr>))))))))))
       cur1 = (cur', Ok p)"
    using run unfolding parse_maps_def by (elim bindS_OkE) fast
  obtain ni no nin nout cur2 cur3 ins outs ver tv where
    counts: "g_n_inputs g = Some ni" "g_n_outputs g = Some no" "g_version g = Some ver" "ver = 2" "g_tx_version g = Some tv"
      "usize_try_from ni = Some nin" "usize_try_from no = Some nout" and
    ins: "read_many nin Input_from_cursor cur1 = (cur2, Ok ins)" and
    outs: "read_many nout Output_from_cursor cur2 = (cur3, Ok outs)" and
    p: "p = \<lparr>raw_psbt = raw, global_map = m, psbt_inputs = ins, psbt_outputs = outs, psbt_version = ver,
            psbt_tx_version = tv, fallback_locktime = g_fallback_locktime g, tx_modifiable = g_tx_modifiable g\<rparr>"
    using r1 unfolding prod.case by (elim bindS_OkE) (simp add: ok_or_Ok_iff split: if_splits; elim bindS_OkE; simp add: ok_or_Ok_iff split: if_splits)
  have sizes: "ni = of_nat (length ins)" "no = of_nat (length outs)"
  proof -
    have "unat ni = length ins" "unat no = length outs"
      using counts(6,7) read_many_Ok [OF ins] read_many_Ok [OF outs] by (auto simp: usize_try_from_def split: if_splits)
    moreover have "of_nat (unat ni) = ni" "of_nat (unat no) = no" by simp_all
    ultimately show "ni = of_nat (length ins)" "no = of_nat (length outs)" by simp_all
  qed
  have I: "\<forall>i\<in>set ins. ascending (in_map i) \<and> (\<exists>j. fold_fields input_field (in_map i) no_input = Ok j \<and> i = j\<lparr>in_map := in_map i\<rparr>)"
    using read_many_Ok [OF ins] by (fastforce simp: Input_from_cursor_def bindS_Ok_iff dest!: from_cursor_Ok)
  have O: "\<forall>i\<in>set outs. ascending (out_map i) \<and> (\<exists>j. fold_fields output_field (out_map i) no_output = Ok j \<and> i = j\<lparr>out_map := out_map i\<rparr>)"
    using read_many_Ok [OF outs] by (fastforce simp: Output_from_cursor_def bindS_Ok_iff dest!: from_cursor_Ok)
  show thesis by (rule that [of g]) (use from_cursor_Ok [OF m] counts sizes I O p in simp_all)
qed

text \<open>A field that only the pair with the key \<open>(kt, [])\<close> sets is what the map has under that key.\<close>

lemma fold_field:
  assumes "\<And>p i i'. f p i = Ok i' \<Longrightarrow> F i' = (if pair_key p = (kt, []) then Some (dec (pair_value p)) else F i)"
  shows "fold_fields f ps i = Ok j \<Longrightarrow> distinct (map pair_key ps) \<Longrightarrow>
    F j = (case map_of (map (\<lambda>p. (pair_key p, pair_value p)) ps) (kt, []) of None \<Rightarrow> F i | Some v \<Rightarrow> Some (dec v))"
proof (induction ps arbitrary: i)
  case (Cons p ps)
  obtain i' where i': "f p i = Ok i'" "fold_fields f ps i' = Ok j" using Cons.prems(1) by (auto simp: bindR_Ok_iff)
  have "F j = (case map_of (map (\<lambda>p. (pair_key p, pair_value p)) ps) (kt, []) of None \<Rightarrow> F i' | Some v \<Rightarrow> Some (dec v))"
    using Cons.IH [OF i'(2)] Cons.prems(2) by simp
  moreover have "map_of (map (\<lambda>p. (pair_key p, pair_value p)) ps) (pair_key p) = None"
    using Cons.prems(2) by (auto simp: map_of_eq_None_iff)
  ultimately show ?case using assms [OF i'(1)] by (auto split: option.splits)
qed simp

lemma lookup_field:
  assumes "\<And>p i i'. f p i = Ok i' \<Longrightarrow> F i' = (if pair_key p = (kt, []) then Some (dec (pair_value p)) else F i)"
    "fold_fields f ps i = Ok j" "ascending ps" "F i = None"
  shows "F j = map_option dec (map_get ps kt [])"
proof -
  have "F j = (case map_of (map (\<lambda>p. (pair_key p, pair_value p)) ps) (kt, []) of None \<Rightarrow> F i | Some v \<Rightarrow> Some (dec v))"
    by (rule fold_field [OF _ assms(2) ascending_distinct [OF assms(3)]]) (rule assms(1))
  then show ?thesis unfolding map_get_map_of [OF assms(3)] by (simp add: assms(4) split: option.splits)
qed

named_theorems field_simps

lemmas [field_simps] = sized_def pair_key_def Let_def bindR_Ok_iff

lemma fold_fields_each: "fold_fields f ps c = Ok c' \<Longrightarrow> p \<in> set ps \<Longrightarrow> \<exists>c1 c2. f p c1 = Ok c2"
  by (induction ps arbitrary: c) (auto simp: bindR_Ok_iff)

lemma global_lookups:
  assumes "fold_fields global_field ps no_global = Ok j" "ascending ps"
  shows "map_get ps PSBT_GLOBAL_UNSIGNED_TX [] = None"
    "g_version j = map_option from_le_bytes (map_get ps PSBT_GLOBAL_VERSION [])"
    "g_tx_version j = map_option from_le_bytes (map_get ps PSBT_GLOBAL_TX_VERSION [])"
    "g_fallback_locktime j = map_option from_le_bytes (map_get ps PSBT_GLOBAL_FALLBACK_LOCKTIME [])"
    "g_tx_modifiable j = map_option (\<lambda>v. v ! 0) (map_get ps PSBT_GLOBAL_TX_MODIFIABLE [])"
proof -
  have "pair_key p \<noteq> (0, [])" if "p \<in> set ps" for p
    using fold_fields_each [OF assms(1) that] by (auto simp: global_field_def field_simps)
  then have "(0, []) \<notin> pair_key ` set ps" by (metis imageE)
  then show "map_get ps PSBT_GLOBAL_UNSIGNED_TX [] = None"
    unfolding map_get_map_of [OF assms(2)] by (simp add: map_of_eq_None_iff image_image)
qed (rule lookup_field [OF _ assms]; auto simp: global_field_def no_global_def field_simps split: if_splits)+

definition in_lookups :: "MapPair list \<Rightarrow> PsbtInput \<Rightarrow> bool" where
  "in_lookups m i \<longleftrightarrow>
      in_non_witness_utxo i = map_get m PSBT_IN_NON_WITNESS_UTXO [] \<and>
      in_witness_utxo i = map_get m PSBT_IN_WITNESS_UTXO [] \<and>
      in_sighash_type i = map_option from_le_bytes (map_get m PSBT_IN_SIGHASH_TYPE []) \<and>
      in_redeem_script i = map_get m PSBT_IN_REDEEM_SCRIPT [] \<and>
      in_witness_script i = map_get m PSBT_IN_WITNESS_SCRIPT [] \<and>
      in_previous_txid i = map_get m PSBT_IN_PREVIOUS_TXID [] \<and>
      in_output_index i = map_option from_le_bytes (map_get m PSBT_IN_OUTPUT_INDEX []) \<and>
      in_sequence i = map_option from_le_bytes (map_get m PSBT_IN_SEQUENCE []) \<and>
      in_required_time_locktime i = map_option from_le_bytes (map_get m PSBT_IN_REQUIRED_TIME_LOCKTIME []) \<and>
      in_required_height_locktime i = map_option from_le_bytes (map_get m PSBT_IN_REQUIRED_HEIGHT_LOCKTIME [])"

lemma in_lookups_map: "in_lookups m (i\<lparr>in_map := m'\<rparr>) \<longleftrightarrow> in_lookups m i"
  by (simp add: in_lookups_def)

lemma lookup_bytes:
  assumes "\<And>p i i'. f p i = Ok i' \<Longrightarrow> F i' = (if pair_key p = (kt, []) then Some (pair_value p) else F i)"
    "fold_fields f ps i = Ok j" "ascending ps" "F i = None"
  shows "F j = map_get ps kt []"
proof -
  have "F j = map_option (\<lambda>v. v) (map_get ps kt [])"
    by (rule lookup_field [where F = F and kt = kt, OF _ assms(2-4)]) (rule assms(1))
  then show ?thesis by (simp add: option.map_ident)
qed

lemma input_lookups:
  assumes "fold_fields input_field ps no_input = Ok j" "ascending ps"
  shows "in_lookups ps j"
  unfolding in_lookups_def
  by (intro conjI; (rule lookup_bytes [OF _ assms] lookup_field [OF _ assms]);
      auto simp: input_field_def no_input_def field_simps split: if_splits)

definition out_lookups :: "MapPair list \<Rightarrow> PsbtOutput \<Rightarrow> bool" where
  "out_lookups m i \<longleftrightarrow>
      out_redeem_script i = map_get m PSBT_OUT_REDEEM_SCRIPT [] \<and>
      out_witness_script i = map_get m PSBT_OUT_WITNESS_SCRIPT [] \<and>
      out_amount i = map_option from_le_bytes (map_get m PSBT_OUT_AMOUNT []) \<and>
      out_script i = map_get m PSBT_OUT_SCRIPT []"

lemma out_lookups_map: "out_lookups m (i\<lparr>out_map := m'\<rparr>) \<longleftrightarrow> out_lookups m i"
  by (simp add: out_lookups_def)

lemma output_lookups:
  assumes "fold_fields output_field ps no_output = Ok j" "ascending ps"
  shows "out_lookups ps j"
  unfolding out_lookups_def
  by (intro conjI; (rule lookup_bytes [OF _ assms] lookup_field [OF _ assms]);
      auto simp: output_field_def no_output_def field_simps split: if_splits)

text \<open>(fields of a transaction) In an accepted transaction, every field that the parser extracts is what the binary
  search finds in the map under the key of the field with no key data, decoded as a little-endian number where the
  field is one. In particular no later pair overrides a field, and the counts are those of the inputs and outputs.\<close>
theorem psbt_fields:
  assumes "Psbt_parse raw = Ok p"
  shows "map_get (global_map p) PSBT_GLOBAL_UNSIGNED_TX [] = None \<and>
    map_option from_le_bytes (map_get (global_map p) PSBT_GLOBAL_TX_VERSION []) = Some (psbt_tx_version p) \<and>
    map_option from_le_bytes (map_get (global_map p) PSBT_GLOBAL_VERSION []) = Some (2 :: u32) \<and>
    fallback_locktime p = map_option from_le_bytes (map_get (global_map p) PSBT_GLOBAL_FALLBACK_LOCKTIME []) \<and>
    tx_modifiable p = map_option (\<lambda>v. v ! 0) (map_get (global_map p) PSBT_GLOBAL_TX_MODIFIABLE []) \<and>
    (\<forall>i\<in>set (psbt_inputs p).
      in_non_witness_utxo i = map_get (in_map i) PSBT_IN_NON_WITNESS_UTXO [] \<and>
      in_witness_utxo i = map_get (in_map i) PSBT_IN_WITNESS_UTXO [] \<and>
      in_sighash_type i = map_option from_le_bytes (map_get (in_map i) PSBT_IN_SIGHASH_TYPE []) \<and>
      in_redeem_script i = map_get (in_map i) PSBT_IN_REDEEM_SCRIPT [] \<and>
      in_witness_script i = map_get (in_map i) PSBT_IN_WITNESS_SCRIPT [] \<and>
      in_previous_txid i = map_get (in_map i) PSBT_IN_PREVIOUS_TXID [] \<and>
      in_output_index i = map_option from_le_bytes (map_get (in_map i) PSBT_IN_OUTPUT_INDEX []) \<and>
      in_sequence i = map_option from_le_bytes (map_get (in_map i) PSBT_IN_SEQUENCE []) \<and>
      in_required_time_locktime i = map_option from_le_bytes (map_get (in_map i) PSBT_IN_REQUIRED_TIME_LOCKTIME []) \<and>
      in_required_height_locktime i = map_option from_le_bytes (map_get (in_map i) PSBT_IN_REQUIRED_HEIGHT_LOCKTIME [])) \<and>
    (\<forall>i\<in>set (psbt_outputs p).
      out_redeem_script i = map_get (out_map i) PSBT_OUT_REDEEM_SCRIPT [] \<and>
      out_witness_script i = map_get (out_map i) PSBT_OUT_WITNESS_SCRIPT [] \<and>
      out_amount i = map_option from_le_bytes (map_get (out_map i) PSBT_OUT_AMOUNT []) \<and>
      out_script i = map_get (out_map i) PSBT_OUT_SCRIPT [])"
proof -
  obtain g where g: "ascending (global_map p)" "fold_fields global_field (global_map p) no_global = Ok g"
    "g_version g = Some (psbt_version p)" "psbt_version p = 2" "g_tx_version g = Some (psbt_tx_version p)"
    "g_fallback_locktime g = fallback_locktime p" "g_tx_modifiable g = tx_modifiable p" and
    I: "\<forall>i\<in>set (psbt_inputs p). ascending (in_map i) \<and> (\<exists>j. fold_fields input_field (in_map i) no_input = Ok j \<and> i = j\<lparr>in_map := in_map i\<rparr>)" and
    O: "\<forall>i\<in>set (psbt_outputs p). ascending (out_map i) \<and> (\<exists>j. fold_fields output_field (out_map i) no_output = Ok j \<and> i = j\<lparr>out_map := out_map i\<rparr>)"
    by (rule Psbt_parse_Ok [OF assms])
  note gl = global_lookups [OF g(2,1)]
  have I': "in_lookups (in_map i) i" if "i \<in> set (psbt_inputs p)" for i
    using I that input_lookups by (metis in_lookups_map)
  have O': "out_lookups (out_map i) i" if "i \<in> set (psbt_outputs p)" for i
    using O that output_lookups by (metis out_lookups_map)
  show ?thesis using gl g I' O' by (simp add: in_lookups_def out_lookups_def)
qed

end
