(* ===== verification/Spec2Isabelle.thy ===== *)
theory Spec2Isabelle
  imports Cpu Client_Live Sdk_App Sdk_Tasks Sdk_Bignum Sdk_Keys Btc_Psbt
begin

text \<open>
  \<^bold>\<open>Vanadium: the virtual machine for V-Apps, and its client.\<close>

  Vanadium runs applications (V-Apps), compiled for RV32IMA, on a device with little memory. The VM
  (\<open>vm/\<close>) interprets the instructions. The pages of code, data and stack are kept by an untrusted host;
  the VM holds a cache, the root of a Merkle tree for each section, and an encryption key, and asks the
  host for pages and proofs. V-Apps talk to the host through system calls. The client (\<open>client-sdk/\<close>)
  is the honest host. \<open>common/\<close> holds what both sides share.

  \<^bold>\<open>Parts and theories.\<close> Each theory imports the parts it calls.
  \<^item> \<open>Prelude\<close>: results, the state monad \<open>stm\<close> of fallible state passing, simulations \<open>simS\<close> between
    two such computations, and lemmas on lists and words.
  \<^item> \<open>Riscv_Op\<close>, \<open>Riscv_Decode\<close>: \<open>common/src/riscv/op.rs\<close>, \<open>decode.rs\<close>: the instructions and the decoder,
    compressed and uncompressed. Decoding inverts the encoding of the manual, and decoded fields are in
    range.
  \<^item> \<open>Vm_Memory\<close>: \<open>PagedMemory\<close>, \<open>VecMemory\<close>, \<open>MemorySegment\<close> of \<open>common/src/vm.rs\<close>. The trait is a record of
    operations and the locale \<open>paged_memory_laws\<close> is its contract; accesses to a segment are accesses to
    a flat string of bytes.
  \<^item> \<open>Cpu\<close>: \<open>Cpu\<close> of \<open>common/src/vm.rs\<close>: fetch, execute, the reservation of LR/SC. Invariants, the M
    extension against integers, and the simulation of any lawful memory by a plain one.
  \<^item> \<open>Accumulator\<close>: \<open>common/src/accumulator.rs\<close>: Merkle tree, streaming verifiers, root computer.
    Soundness up to collisions of the hash function, completeness, equivalence of the streaming root.
  \<^item> \<open>Client_Commands\<close>: \<open>common/src/client_commands.rs\<close>: the fourteen messages; the locale \<open>message_codec\<close>
    is the trait \<open>Message\<close>.
  \<^item> \<open>Evict\<close>: \<open>vm/src/handlers/lib/evict.rs\<close>: LRU and 2Q against their abstract queues.
  \<^item> \<open>Aes\<close>: \<open>vm/src/aes.rs\<close>: counter mode over an arbitrary block cipher.
  \<^item> \<open>Vm_Io\<close>: \<open>vm/src/main.rs\<close>, \<open>io.rs\<close>: the instructions and \<open>interrupt\<close>. The host is a function of all
    that it was sent so far, hence an arbitrary, adaptive opponent.
  \<^item> \<open>Auth\<close>: \<open>vm/src/auth.rs\<close>, \<open>nvm.rs\<close>: derived keys, tags, and storage cells as sequences of writes.
  \<^item> \<open>Outsourced_Mem\<close>, \<open>Outsourced_Refines\<close>: \<open>vm/src/handlers/lib/outsourced_mem.rs\<close>: the cache of pages,
    loading with proofs or tags, committing and evicting; it interprets \<open>paged_memory_laws\<close> against any
    host.
  \<^item> \<open>Manifest\<close>, \<open>Vapp_Store\<close>, \<open>Preload\<close>: \<open>common/src/manifest.rs\<close>, \<open>vm/src/vapp.rs\<close> and the handlers
    \<open>register_vapp.rs\<close>, \<open>preload_vapp.rs\<close>, \<open>get_app_info.rs\<close>.
  \<^item> \<open>Ux_Codec\<close>: \<open>common/src/ux/\<close> and what \<open>macros/src/derive_serializable.rs\<close> generates for its types: the
    pages and steps a V-App draws; the locale \<open>ux_codec\<close> is the contract of the traits.
  \<^item> \<open>Ecall\<close>, \<open>Ecall_Crypto\<close>, \<open>Ecall_Dispatch\<close>, \<open>Guest_Memory\<close>, \<open>Ecall_Transfers\<close>:
    \<open>vm/src/handlers/lib/ecall.rs\<close>: the system calls and their dispatch, access to the memory of the V-App
    from them, and what the calls that transfer buffers do.
  \<^item> \<open>Ecall_Sim\<close>: every system call, with its dispatch, is the same computation over outsourced memory as over
    plain memory, up to the messages that ask for pages; the locale \<open>ecall_memory\<close> collects these simulations.
  \<^item> \<open>Vapp_Run\<close>: \<open>vm/src/handlers/start_vapp.rs\<close> and \<open>handle_apdu\<close> of \<open>main.rs\<close>: the machine of a manifest is set up
    and run. A run that ends in exit or panic is a run of the machine the manifest describes, whatever
    the host does.
  \<^item> \<open>Client_Buffers\<close>, \<open>Client_Memory\<close>, \<open>Client_Engine\<close>: \<open>client-sdk/src/apdu.rs\<close>, \<open>memory.rs\<close>,
    \<open>hmac_auth.rs\<close> and \<open>vanadium_client.rs\<close>: the commands, the sections with their trees, the file of
    tags, and the engine that serves a V-App and hands over its messages.
  \<^item> \<open>Client_Serves\<close>, \<open>Client_Live\<close>: that engine as the host of the VM. Run on what the VM has sent so far, its
    last command is the answer. The proofs it makes are accepted, so the outsourced memory never fails;
    the invariant \<open>live\<close> is proved within the locale \<open>eviction_laws\<close>, for any strategy that obeys it.
  \<^item> \<open>Sdk_Comm\<close>: \<open>common/src/comm.rs\<close> and the \<open>comm.rs\<close> of \<open>app-sdk\<close> and \<open>client-sdk\<close>: length-prefixed messages
    in chunks, at both ends; each end sends exactly what the other takes.
  \<^item> \<open>Sdk_Ux\<close>: \<open>app-sdk/src/ux.rs\<close>, \<open>app-sdk/build.rs\<close>: the flows in which a V-App shows and asks, and the pages and
    steps they are made of; what has been on the screen when a review approves.
  \<^item> \<open>Sdk_App\<close>: \<open>app-sdk/src/app.rs\<close>: the dashboard and the main loop of a V-App.
  \<^item> \<open>Sdk_Tasks\<close>: \<open>app-sdk/src/executor.rs\<close> and the handles of tasks in \<open>app.rs\<close>: a round polls every task once, a
    task whose handle is dropped ends, and a task that finishes has its result taken.
  \<^item> \<open>Sdk_Bignum\<close>: \<open>app-sdk/src/bignum.rs\<close> and the calls it makes in native builds (\<open>ecalls_native.rs\<close>); the locale
    \<open>bn_laws\<close> is what the library expects of them.
  \<^item> \<open>Sdk_Keys\<close>: \<open>app-sdk/src/slip21.rs\<close>: the keys of a V-App are the same over the VM and in native builds.
  \<^item> \<open>Btc_Psbt\<close>: \<open>apps/bitcoin/common/src/fastpsbt.rs\<close>: what the parser of partially signed transactions accepts, and
    that the fields it extracts are those its lookups find.

  \<^bold>\<open>Conventions.\<close> Machine integers are words and wrap, as the release build does, which has no overflow
  checks; \<open>usize\<close> is a natural number where the source compares and counts, and the 32 bits of the
  target are written out where they matter. A \<open>Result\<close> is a sum (\<open>Err\<close>, \<open>Ok\<close>), a panic is \<open>None\<close> or an
  error constructor of its own, and a loop that the host can keep alive is a \<open>partial_function\<close>
  in \<open>option\<close>, so that not returning is \<open>None\<close>; no fuel is used. Shared mutable state (the connection, the
  counter of the cipher, persistent storage) is one record, the world, that the computations pass on.

  \<^bold>\<open>Hypotheses.\<close> SHA-256, HMAC, AES, the random generator and the other functions of the device's SDK are
  parameters. Security statements say that they hold unless two messages that were in fact hashed in the
  run collide, or a tag was accepted that was not issued; no injectivity of a hash function on all
  messages is assumed, which would be false.

  \<^bold>\<open>Not modelled.\<close> The V-Apps (\<open>apps/\<close>) but for the parser of transactions, the other wrappers of the system calls in the
  libraries they are built with (\<open>app-sdk/\<close>, \<open>libs/\<close>), the drawing of the user interface, the transports and the command line of the client, the parsing of ELF files,
  and derived code (\<open>serde\<close>, \<open>Debug\<close>). Traces and metrics are left out of the handlers.
\<close>

end
